(* ===== verification/Atomkv_Prelude.thy ===== *)
theory Atomkv_Prelude
  imports Main "HOL-Library.Word"
begin

text \<open>
  The shared base of the development: the error type of the model and its sequencing
  operator, machine integers as naturals with the wrap-around written out, little-endian
  encodings of packed integers, byte memories with reads and block copies, and ordered
  association lists as the model of \<^verbatim>\<open>std::map\<close>.
\<close>

section \<open>Errors and sequencing\<close>

text \<open>
  A C++ call of the model returns \<open>Inr\<close> of its result or \<open>Inl\<close> of the reason why it
  does not return: a failed \<^verbatim>\<open>assert\<close> (which aborts a debug build and is absent from a
  release build), an operation the C++ standard leaves undefined, an exception with its
  message, a call of \<^verbatim>\<open>std::abort\<close>, a lock that somebody else holds, or a loop that used up
  the fuel of its model.
\<close>

datatype error =
    Assert_failed
  | Undefined_behaviour
  | Invalid_argument string
  | Runtime_error string
  | System_error string
  | Abort
  | Blocked
  | Diverges

type_synonym 'a res = "error + 'a"

definition bind_res :: "'a res \<Rightarrow> ('a \<Rightarrow> 'b res) \<Rightarrow> 'b res" where
  "bind_res m f = (case m of Inl e \<Rightarrow> Inl e | Inr x \<Rightarrow> f x)"

definition assert_res :: "bool \<Rightarrow> unit res" where
  "assert_res b = (if b then Inr () else Inl Assert_failed)"

definition throw_if :: "bool \<Rightarrow> error \<Rightarrow> unit res" where
  "throw_if b e = (if b then Inl e else Inr ())"

lemma bind_res_simps [simp]:
  "bind_res (Inl e) f = Inl e"
  "bind_res (Inr x) f = f x"
  by (simp_all add: bind_res_def)

lemma bind_res_Inr_iff: "bind_res m f = Inr y \<longleftrightarrow> (\<exists>x. m = Inr x \<and> f x = Inr y)"
  by (cases m) auto

lemma bind_res_InrE:
  assumes "bind_res m f = Inr y"
  obtains x where "m = Inr x" "f x = Inr y"
  using assms by (auto simp: bind_res_Inr_iff)

lemma bind_res_pairE:
  assumes "bind_res m (\<lambda>(a, b). f a b) = Inr y"
  obtains a b where "m = Inr (a, b)" "f a b = Inr y"
  using assms by (auto simp: bind_res_Inr_iff)

lemma bind_res_assoc: "bind_res (bind_res m f) g = bind_res m (\<lambda>x. bind_res (f x) g)"
  by (cases m) simp_all

lemma bind_res_cong [fundef_cong]:
  "m = m' \<Longrightarrow> (\<And>x. m' = Inr x \<Longrightarrow> f x = f' x) \<Longrightarrow> bind_res m f = bind_res m' f'"
  by (cases m') auto

lemma assert_res_iff [simp]:
  "assert_res b = Inr u \<longleftrightarrow> b"
  "assert_res b = Inl e \<longleftrightarrow> \<not> b \<and> e = Assert_failed"
  by (auto simp: assert_res_def)

lemma assert_res_eval [simp]:
  "assert_res True = Inr ()" "assert_res False = Inl Assert_failed"
  by (simp_all add: assert_res_def)

lemma throw_if_iff [simp]:
  "throw_if b e = Inr u \<longleftrightarrow> \<not> b"
  "throw_if b e = Inl e' \<longleftrightarrow> b \<and> e' = e"
  by (auto simp: throw_if_def)

lemma throw_if_eval [simp]: "throw_if True e = Inl e" "throw_if False e = Inr ()"
  by (simp_all add: throw_if_def)

text \<open>A loop over a list that may fail in any round: \<^verbatim>\<open>for (auto& x : xs) f(x);\<close>.\<close>

fun fold_res :: "('x \<Rightarrow> 's \<Rightarrow> 's res) \<Rightarrow> 'x list \<Rightarrow> 's \<Rightarrow> 's res" where
  "fold_res f [] s = Inr s"
| "fold_res f (x # xs) s = bind_res (f x s) (fold_res f xs)"

lemma fold_res_single: "fold_res f [x] s = f x s"
  by (cases "f x s") simp_all

lemma fold_res_append:
  "fold_res f (xs @ ys) s = bind_res (fold_res f xs s) (fold_res f ys)"
proof (induction xs arbitrary: s)
  case (Cons x xs)
  then have "fold_res f (xs @ ys) = (\<lambda>t. bind_res (fold_res f xs t) (fold_res f ys))"
    by (intro ext)
  then show ?case by (simp add: bind_res_assoc)
qed simp

lemma fold_res_invariant:
  assumes "fold_res f xs s = Inr t" "I s"
    and "\<And>x a b. x \<in> set xs \<Longrightarrow> I a \<Longrightarrow> f x a = Inr b \<Longrightarrow> I b"
  shows "I t"
  using assms by (induction xs arbitrary: s) (auto simp: bind_res_Inr_iff)

lemma fold_res_cong [fundef_cong]:
  assumes "xs = ys" "s = t" and "\<And>x a. x \<in> set ys \<Longrightarrow> f x a = g x a"
  shows "fold_res f xs s = fold_res g ys t"
  unfolding assms(1,2) using assms(3)
  by (induction ys arbitrary: t) (auto intro!: bind_res_cong)


section \<open>Machine integers\<close>

text \<open>
  Unsigned arithmetic wraps: the result of an operation is taken modulo the width of the
  type it is stored in. \<open>s16\<close> is the conversion to \<^verbatim>\<open>int16_t\<close>.
\<close>

definition u16 :: "nat \<Rightarrow> nat" where "u16 n = n mod 65536"

definition u32 :: "nat \<Rightarrow> nat" where "u32 n = n mod 4294967296"

definition u64 :: "nat \<Rightarrow> nat" where "u64 n = n mod 18446744073709551616"

definition s16 :: "int \<Rightarrow> int" where "s16 i = (i + 32768) mod 65536 - 32768"

text \<open>Unsigned subtraction at 16 bits, for operands below \<open>2 ^ 16\<close>.\<close>

definition sub16 :: "nat \<Rightarrow> nat \<Rightarrow> nat" where "sub16 a b = u16 (a + 65536 - u16 b)"

lemma u16_id [simp]: "n < 65536 \<Longrightarrow> u16 n = n" by (simp add: u16_def)
lemma u32_id [simp]: "n < 4294967296 \<Longrightarrow> u32 n = n" by (simp add: u32_def)
lemma u64_id [simp]: "n < 18446744073709551616 \<Longrightarrow> u64 n = n" by (simp add: u64_def)

lemma u16_lt [simp]: "u16 n < 65536" by (simp add: u16_def)
lemma u32_lt [simp]: "u32 n < 4294967296" by (simp add: u32_def)
lemma u64_lt [simp]: "u64 n < 18446744073709551616" by (simp add: u64_def)

lemma s16_id [simp]: "- 32768 \<le> i \<Longrightarrow> i < 32768 \<Longrightarrow> s16 i = i"
  by (simp add: s16_def)

lemma sub16_id [simp]: "b \<le> a \<Longrightarrow> a < 65536 \<Longrightarrow> sub16 a b = a - b"
  by (simp add: sub16_def u16_def mod_if)

section \<open>Bytes, packed integers and byte memories\<close>

type_synonym byte = "8 word"

definition byte_of :: "nat \<Rightarrow> byte" where "byte_of n = word_of_nat n"

lemma unat_byte_of [simp]: "unat (byte_of n) = n mod 256"
  by (simp add: byte_of_def unat_of_nat)

lemma byte_of_unat [simp]: "byte_of (unat b) = b"
  by (simp add: byte_of_def)

lemma unat_byte_lt [simp]: "unat (b :: byte) < 256"
  using unsigned_less[of b, where 'a = nat] by simp

text \<open>
  Multi-byte integers of the packed structs, least significant byte first (the byte order
  of the machines the program is built for; the files are written by \<^verbatim>\<open>memcpy\<close> of the
  struct).
\<close>

fun le_bytes :: "nat \<Rightarrow> nat \<Rightarrow> byte list" where
  "le_bytes 0 n = []"
| "le_bytes (Suc k) n = byte_of n # le_bytes k (n div 256)"

fun le_nat :: "byte list \<Rightarrow> nat" where
  "le_nat [] = 0"
| "le_nat (b # bs) = unat b + 256 * le_nat bs"

lemma length_le_bytes [simp]: "length (le_bytes k n) = k"
  by (induction k arbitrary: n) simp_all

lemma le_nat_le_bytes [simp]: "le_nat (le_bytes k n) = n mod 256 ^ k"
proof (induction k arbitrary: n)
  case 0
  then show ?case by simp
next
  case (Suc k)
  have "n mod 256 + 256 * (n div 256 mod 256 ^ k) = n mod (256 * 256 ^ k)"
    by (simp add: mod_mult2_eq)
  with Suc show ?case by simp
qed

lemma le_bytes_le_nat [simp]: "le_bytes (length bs) (le_nat bs) = bs"
proof (induction bs)
  case (Cons b bs)
  have "byte_of (unat b + 256 * le_nat bs) = b"
    using unat_byte_lt[of b] by (intro word_unat_eq_iff[THEN iffD2]) simp
  moreover have "(unat b + 256 * le_nat bs) div 256 = le_nat bs"
    using unat_byte_lt[of b] by simp
  ultimately show ?case using Cons by simp
qed simp

lemma le_nat_inj: "length as = length bs \<Longrightarrow> le_nat as = le_nat bs \<Longrightarrow> as = bs"
  by (metis le_bytes_le_nat)

text \<open>A byte memory and the two block operations on it: \<^verbatim>\<open>memcpy\<close> in and out.\<close>

type_synonym memory = "nat \<Rightarrow> byte"

definition mem_read :: "memory \<Rightarrow> nat \<Rightarrow> nat \<Rightarrow> byte list" where
  "mem_read m a n = map m [a..<a + n]"

definition mem_write :: "memory \<Rightarrow> nat \<Rightarrow> byte list \<Rightarrow> memory" where
  "mem_write m a bs = (\<lambda>i. if a \<le> i \<and> i < a + length bs then bs ! (i - a) else m i)"

lemma length_mem_read [simp]: "length (mem_read m a n) = n"
  by (simp add: mem_read_def)

lemma nth_mem_read [simp]: "i < n \<Longrightarrow> mem_read m a n ! i = m (a + i)"
  by (simp add: mem_read_def)

lemma mem_read_0 [simp]: "mem_read m a 0 = []"
  by (simp add: mem_read_def)

lemma mem_write_Nil [simp]: "mem_write m a [] = m"
  by (rule ext) (auto simp: mem_write_def)

lemma mem_read_cong: "(\<And>i. a \<le> i \<Longrightarrow> i < a + n \<Longrightarrow> m i = m' i) \<Longrightarrow> mem_read m a n = mem_read m' a n"
  by (simp add: mem_read_def)

lemma mem_read_write_same [simp]: "n = length bs \<Longrightarrow> mem_read (mem_write m a bs) a n = bs"
  by (rule nth_equalityI) (simp_all add: mem_write_def)

lemma mem_read_write_other:
  "a + n \<le> b \<or> b + length bs \<le> a \<Longrightarrow> mem_read (mem_write m b bs) a n = mem_read m a n"
  by (rule mem_read_cong) (auto simp: mem_write_def)

lemma mem_read_append: "mem_read m a (i + j) = mem_read m a i @ mem_read m (a + i) j"
  using upt_add_eq_append[of a "a + i" j] by (simp add: mem_read_def add.assoc)

lemma take_mem_read: "i \<le> n \<Longrightarrow> take i (mem_read m a n) = mem_read m a i"
  by (simp add: mem_read_def take_map)

text \<open>Copying a block between memories: \<^verbatim>\<open>memcpy(dst + b, src + a, n)\<close>.\<close>

definition mem_copy :: "memory \<Rightarrow> nat \<Rightarrow> memory \<Rightarrow> nat \<Rightarrow> nat \<Rightarrow> memory" where
  "mem_copy dst b src a n = mem_write dst b (mem_read src a n)"

lemma mem_copy_inside:
  "b \<le> c \<Longrightarrow> c + k \<le> b + n \<Longrightarrow> mem_read (mem_copy dst b src a n) c k = mem_read src (a + (c - b)) k"
  by (rule nth_equalityI) (auto simp: mem_copy_def mem_write_def add.assoc)

lemma mem_copy_outside:
  "c + k \<le> b \<or> b + n \<le> c \<Longrightarrow> mem_read (mem_copy dst b src a n) c k = mem_read dst c k"
  by (simp add: mem_copy_def mem_read_write_other)


section \<open>Ordered maps\<close>

text \<open>
  A \<^verbatim>\<open>std::map\<close> is the list of its pairs in ascending key order, and an iterator is a
  position in it; \<^verbatim>\<open>end()\<close> is the length of the list. \<open>map_insert\<close> is
  \<^verbatim>\<open>std::map::insert\<close>, which leaves an existing key alone.
\<close>

type_synonym ('k, 'v) omap = "('k \<times> 'v) list"

definition omap_ok :: "('k::linorder, 'v) omap \<Rightarrow> bool" where
  "omap_ok m \<longleftrightarrow> sorted_wrt (<) (map fst m)"

definition map_lower_bound :: "'k::linorder \<Rightarrow> ('k, 'v) omap \<Rightarrow> nat" where
  "map_lower_bound k m = length (takeWhile (\<lambda>p. fst p < k) m)"

fun map_insert :: "'k::linorder \<Rightarrow> 'v \<Rightarrow> ('k, 'v) omap \<Rightarrow> ('k, 'v) omap" where
  "map_insert k v [] = [(k, v)]"
| "map_insert k v ((a, b) # m) =
     (if k < a then (k, v) # (a, b) # m
      else if k = a then (a, b) # m
      else (a, b) # map_insert k v m)"

text \<open>Assignment through an iterator found by key, or insertion of a new key.\<close>

fun map_assign :: "'k::linorder \<Rightarrow> 'v \<Rightarrow> ('k, 'v) omap \<Rightarrow> ('k, 'v) omap" where
  "map_assign k v [] = [(k, v)]"
| "map_assign k v ((a, b) # m) =
     (if k < a then (k, v) # (a, b) # m
      else if k = a then (k, v) # m
      else (a, b) # map_assign k v m)"

definition map_erase :: "'k \<Rightarrow> ('k, 'v) omap \<Rightarrow> ('k, 'v) omap" where
  "map_erase k m = filter (\<lambda>p. fst p \<noteq> k) m"

definition erase_at :: "nat \<Rightarrow> 'a list \<Rightarrow> 'a list" where
  "erase_at i xs = take i xs @ drop (Suc i) xs"

lemma omap_ok_simps [simp]:
  "omap_ok []"
  "omap_ok (p # m) \<longleftrightarrow> (\<forall>q \<in> set m. fst p < fst q) \<and> omap_ok m"
  by (auto simp: omap_ok_def)

lemma fst_set_map_assign: "fst ` set (map_assign k v m) = insert k (fst ` set m)"
  by (induction k v m rule: map_assign.induct) auto

lemma snd_set_map_assign: "snd ` set (map_assign k v m) \<subseteq> insert v (snd ` set m)"
  by (induction k v m rule: map_assign.induct) auto

lemma omap_ok_map_assign: "omap_ok m \<Longrightarrow> omap_ok (map_assign k v m)"
proof (induction m)
  case (Cons p m)
  have "fst q \<in> insert k (fst ` set m)" if "q \<in> set (map_assign k v m)" for q
    using that fst_set_map_assign[of k v m] by blast
  with Cons show ?case by (cases p) fastforce
qed simp

lemma map_of_assign: "omap_ok m \<Longrightarrow> map_of (map_assign k v m) = (map_of m)(k \<mapsto> v)"
proof (induction m)
  case (Cons p m)
  then show ?case by (cases p) (auto simp: fun_upd_twist)
qed simp

lemma omap_ok_map_erase: "omap_ok m \<Longrightarrow> omap_ok (map_erase k m)"
  by (auto simp: omap_ok_def map_erase_def sorted_wrt_map sorted_wrt_filter)

lemma map_of_erase: "map_of (map_erase k m) = (map_of m)(k := None)"
  by (induction m) (auto simp: map_erase_def)

text \<open>The position \<open>lower_bound\<close> returns splits the map around the key.\<close>

lemma lower_bound_split:
  assumes "omap_ok m"
  shows "\<forall>p \<in> set (take (map_lower_bound k m) m). fst p < k"
    and "\<forall>p \<in> set (drop (map_lower_bound k m) m). k \<le> fst p"
proof -
  have tk: "take (map_lower_bound k m) m = takeWhile (\<lambda>p. fst p < k) m"
    unfolding map_lower_bound_def by (metis takeWhile_eq_take)
  have dr: "drop (map_lower_bound k m) m = dropWhile (\<lambda>p. fst p < k) m"
    unfolding map_lower_bound_def by (metis dropWhile_eq_drop)
  show "\<forall>p \<in> set (take (map_lower_bound k m) m). fst p < k"
    unfolding tk by (auto dest: set_takeWhileD)
  show "\<forall>p \<in> set (drop (map_lower_bound k m) m). k \<le> fst p"
    unfolding dr using assms
  proof (induction m)
    case (Cons p m)
    then show ?case by (cases "fst p < k") fastforce+
  qed simp
qed

lemma lower_bound_le [simp]: "map_lower_bound k m \<le> length m"
  by (simp add: map_lower_bound_def length_takeWhile_le)

lemma erase_at_append: "erase_at (length xs) (xs @ y # ys) = xs @ ys"
  by (simp add: erase_at_def)

lemma length_erase_at [simp]: "i < length xs \<Longrightarrow> length (erase_at i xs) = length xs - 1"
  by (simp add: erase_at_def)


section \<open>Inserting into and erasing from a list by position\<close>

definition insert_at :: "nat \<Rightarrow> 'a \<Rightarrow> 'a list \<Rightarrow> 'a list" where
  "insert_at i x xs = take i xs @ x # drop i xs"

lemma length_insert_at [simp]: "length (insert_at i x xs) = Suc (length xs)"
  by (simp add: insert_at_def)

lemma nth_insert_at:
  "i \<le> length xs \<Longrightarrow> j \<le> length xs \<Longrightarrow>
     insert_at i x xs ! j = (if j < i then xs ! j else if j = i then x else xs ! (j - 1))"
  by (auto simp: insert_at_def nth_append nth_Cons' min_def)

lemma nth_erase_at:
  "i < length xs \<Longrightarrow> j + 1 < length xs \<Longrightarrow> erase_at i xs ! j = (if j < i then xs ! j else xs ! (j + 1))"
  by (auto simp: erase_at_def nth_append)

lemma erase_insert_at [simp]: "i \<le> length xs \<Longrightarrow> erase_at i (insert_at i x xs) = xs"
  by (simp add: erase_at_def insert_at_def)

text \<open>Sums over the positions of a list with one position left out.\<close>

lemma sum_shift_up:
  fixes f :: "nat \<Rightarrow> 'b::comm_monoid_add"
  assumes "i \<le> c"
  shows "(\<Sum>j\<in>{..<Suc c} - {i}. f (if j < i then j else j - 1)) = (\<Sum>j<c. f j)"
  by (rule sum.reindex_bij_witness[of _ "\<lambda>j. if j < i then j else Suc j" "\<lambda>j. if j < i then j else j - 1"])
    (use assms in auto)

lemma sum_shift_down:
  fixes f :: "nat \<Rightarrow> 'b::comm_monoid_add"
  assumes "i < c"
  shows "(\<Sum>j<c - 1. f (if j < i then j else j + 1)) = (\<Sum>j\<in>{..<c} - {i}. f j)"
  by (rule sum.reindex_bij_witness[of _ "\<lambda>j. if j < i then j else j - 1" "\<lambda>j. if j < i then j else Suc j"])
    (use assms in auto)

end
