(* ===== verification/Atomkv_Comparator.thy ===== *)
theory Atomkv_Comparator
  imports Atomkv_Prelude "HOL-Library.List_Lexorder"
begin

text \<open>
  The key comparators of \<^verbatim>\<open>include/atomkv/comparator.h\<close> and the binary search of
  \<^verbatim>\<open>std::lower_bound\<close> that the nodes run with them. The locale \<open>key_order\<close> is what the
  tree relies on in a comparator; it is interpreted on the byte-array comparator and on the
  32-bit comparator.
\<close>

section \<open>Comparators\<close>

type_synonym key = "byte list"

datatype strong_ordering = Less | Equal | Greater

definition spaceship :: "'a::linorder \<Rightarrow> 'a \<Rightarrow> strong_ordering" where
  "spaceship a b = (if a < b then Less else if a = b then Equal else Greater)"

text \<open>The conversion of a 64-bit unsigned difference to \<^verbatim>\<open>int64_t\<close>.\<close>

definition s64 :: "int \<Rightarrow> int" where
  "s64 i = (i + 9223372036854775808) mod 18446744073709551616 - 9223372036854775808"

lemma s64_id [simp]: "- 9223372036854775808 \<le> i \<Longrightarrow> i < 9223372036854775808 \<Longrightarrow> s64 i = i"
  by (simp add: s64_def)

text \<open>\<^verbatim>\<open>memcmp\<close> over the first \<open>n\<close> bytes: only the sign of the result is used.\<close>

fun memcmp :: "byte list \<Rightarrow> byte list \<Rightarrow> nat \<Rightarrow> int" where
  "memcmp (a # as) (b # bs) (Suc n) =
     (if a = b then memcmp as bs n else if a < b then -1 else 1)"
| "memcmp _ _ _ = 0"

definition UInt32CompFunc :: "key \<Rightarrow> key \<Rightarrow> strong_ordering res" where
  "UInt32CompFunc key1 key2 =
     bind_res (assert_res (length key1 = 4 \<and> length key2 = 4)) (\<lambda>_.
       let k1 = le_nat (take 4 key1); k2 = le_nat (take 4 key2)
       in Inr (spaceship k1 k2))"

definition UInt64CompFunc :: "key \<Rightarrow> key \<Rightarrow> strong_ordering res" where
  "UInt64CompFunc key1 key2 =
     bind_res (assert_res (length key1 = 8 \<and> length key2 = 8)) (\<lambda>_.
       let k1 = le_nat (take 8 key1); k2 = le_nat (take 8 key2)
       in Inr (spaceship k1 k2))"

definition ByteArrayCompFunc :: "key \<Rightarrow> key \<Rightarrow> strong_ordering res" where
  "ByteArrayCompFunc key1 key2 =
     (let r = memcmp key1 key2 (min (length key1) (length key2))
      in if r = 0 \<and> length key1 = length key2 then Inr Equal
         else (let r' = (if r = 0 then s64 (int (length key1) - int (length key2)) else r)
               in if r' < 0 then Inr Less else Inr Greater))"

text \<open>The three comparators the header exports. The second one names the 32-bit function.\<close>

definition UInt32Comparator :: "key \<Rightarrow> key \<Rightarrow> strong_ordering res" where
  "UInt32Comparator = UInt32CompFunc"

definition UInt64Comparator :: "key \<Rightarrow> key \<Rightarrow> strong_ordering res" where
  "UInt64Comparator = UInt32CompFunc"

definition ByteArrayComparator :: "key \<Rightarrow> key \<Rightarrow> strong_ordering res" where
  "ByteArrayComparator = ByteArrayCompFunc"


section \<open>The binary search of the nodes\<close>

text \<open>
  \<^verbatim>\<open>std::lower_bound\<close> with the predicate of \<^verbatim>\<open>Node::LowerBound\<close>: \<open>probe i\<close> is the
  comparison of the key in slot \<open>i\<close> with the searched key, and the predicate sets the flag
  \<open>eq\<close> when it sees an equal key.
\<close>

function lower_bound_loop ::
    "(nat \<Rightarrow> strong_ordering res) \<Rightarrow> nat \<Rightarrow> nat \<Rightarrow> bool \<Rightarrow> (nat \<times> bool) res" where
  "lower_bound_loop probe first len eq =
     (if len = 0 then Inr (first, eq)
      else bind_res (probe (first + len div 2)) (\<lambda>r.
        if r = Less
        then lower_bound_loop probe (first + len div 2 + 1) (len - len div 2 - 1) eq
        else lower_bound_loop probe first (len div 2) (eq \<or> r = Equal)))"
  by pat_completeness auto
termination
  by (relation "measure (\<lambda>(p, f, l, e). l)") auto

declare lower_bound_loop.simps [simp del]


text \<open>Only the probes inside the searched range matter.\<close>

lemma lower_bound_loop_cong:
  assumes "\<And>i. first \<le> i \<Longrightarrow> i < first + len \<Longrightarrow> probe i = probe' i"
  shows "lower_bound_loop probe first len eq = lower_bound_loop probe' first len eq"
  using assms
proof (induction probe first len eq rule: lower_bound_loop.induct)
  case (1 probe first len eq)
  show ?case
  proof (cases "len = 0")
    case False
    have p: "probe (first + len div 2) = probe' (first + len div 2)" using 1(3) False by simp
    have "bind_res (probe (first + len div 2)) (\<lambda>r. if r = Less
        then lower_bound_loop probe (first + len div 2 + 1) (len - len div 2 - 1) eq
        else lower_bound_loop probe first (len div 2) (eq \<or> r = Equal)) =
      bind_res (probe' (first + len div 2)) (\<lambda>r. if r = Less
        then lower_bound_loop probe' (first + len div 2 + 1) (len - len div 2 - 1) eq
        else lower_bound_loop probe' first (len div 2) (eq \<or> r = Equal))"
      by (rule bind_res_cong[OF p]) (use 1 False in auto)
    then show ?thesis using False by (simp add: lower_bound_loop.simps[of probe] lower_bound_loop.simps[of probe'])
  qed (simp add: lower_bound_loop.simps)
qed


section \<open>What the tree relies on in a comparator\<close>

locale key_order =
  fixes cmp :: "key \<Rightarrow> key \<Rightarrow> strong_ordering res"
    and valid :: "key \<Rightarrow> bool"
  assumes returns: "valid a \<Longrightarrow> valid b \<Longrightarrow> \<exists>r. cmp a b = Inr r"
    and equal_iff: "valid a \<Longrightarrow> valid b \<Longrightarrow> cmp a b = Inr Equal \<longleftrightarrow> a = b"
    and flip: "valid a \<Longrightarrow> valid b \<Longrightarrow> cmp a b = Inr Greater \<longleftrightarrow> cmp b a = Inr Less"
    and less_trans: "valid a \<Longrightarrow> valid b \<Longrightarrow> valid c \<Longrightarrow>
      cmp a b = Inr Less \<Longrightarrow> cmp b c = Inr Less \<Longrightarrow> cmp a c = Inr Less"
begin

definition below :: "key \<Rightarrow> key \<Rightarrow> bool" where
  "below a b \<longleftrightarrow> cmp a b = Inr Less"

definition ordered :: "key list \<Rightarrow> bool" where
  "ordered ks \<longleftrightarrow> sorted_wrt below ks \<and> (\<forall>k \<in> set ks. valid k)"

definition rank :: "key list \<Rightarrow> key \<Rightarrow> nat" where
  "rank ks k = length (takeWhile (\<lambda>x. below x k) ks)"

lemma cmp_cases:
  assumes "valid a" "valid b"
  obtains "cmp a b = Inr Less" "a \<noteq> b" | "cmp a b = Inr Equal" "a = b"
    | "cmp a b = Inr Greater" "a \<noteq> b" "below b a"
proof -
  obtain r where r: "cmp a b = Inr r" using returns assms by blast
  then show thesis
    using that equal_iff[OF assms] flip[OF assms] by (cases r) (auto simp: below_def)
qed

lemma below_irrefl: "valid a \<Longrightarrow> \<not> below a a"
  using equal_iff[of a a] by (auto simp: below_def)

lemma below_trans: "valid a \<Longrightarrow> valid b \<Longrightarrow> valid c \<Longrightarrow> below a b \<Longrightarrow> below b c \<Longrightarrow> below a c"
  unfolding below_def by (rule less_trans)

lemma rank_le: "rank ks k \<le> length ks"
  by (simp add: rank_def length_takeWhile_le)

lemma below_before_rank: "i < rank ks k \<Longrightarrow> below (ks ! i) k"
  unfolding rank_def by (metis nth_mem set_takeWhileD takeWhile_nth)

lemma not_below_from_rank:
  assumes ord: "ordered ks" and k: "valid k" and i: "rank ks k \<le> i" "i < length ks"
  shows "\<not> below (ks ! i) k"
proof
  assume b: "below (ks ! i) k"
  let ?p = "rank ks k"
  have p: "?p < length ks" using i by simp
  have np: "\<not> below (ks ! ?p) k" using p unfolding rank_def by (rule nth_length_takeWhile)
  have v: "valid (ks ! ?p)" "valid (ks ! i)" using ord p i by (auto simp: ordered_def)
  have "below (ks ! ?p) k"
  proof (cases "?p = i")
    case True
    with b show ?thesis by simp
  next
    case False
    then have "below (ks ! ?p) (ks ! i)"
      using ord i by (auto simp: ordered_def sorted_wrt_nth_less)
    with b v k show ?thesis by (blast intro: below_trans)
  qed
  with np show False by contradiction
qed

lemma below_iff_rank:
  "ordered ks \<Longrightarrow> valid k \<Longrightarrow> i < length ks \<Longrightarrow> below (ks ! i) k \<longleftrightarrow> i < rank ks k"
  using below_before_rank not_below_from_rank by (meson not_less)

lemma nth_rank_of_member:
  assumes ord: "ordered ks" and k: "valid k" and mem: "k \<in> set ks"
  shows "rank ks k < length ks" "ks ! rank ks k = k"
proof -
  obtain i where i: "i < length ks" "ks ! i = k" using mem by (auto simp: in_set_conv_nth)
  have "\<not> below (ks ! i) k" using i k below_irrefl by simp
  then have le: "rank ks k \<le> i" using below_iff_rank[OF ord k i(1)] by simp
  then show lt: "rank ks k < length ks" using i by simp
  show "ks ! rank ks k = k"
  proof (cases "rank ks k = i")
    case False
    then have "below (ks ! rank ks k) (ks ! i)"
      using le ord i by (auto simp: ordered_def sorted_wrt_nth_less)
    then show ?thesis using below_iff_rank[OF ord k lt] i by simp
  qed (use i in simp)
qed

lemma lower_bound_loop_correct:
  assumes ord: "ordered ks" and k: "valid k"
    and range: "first \<le> rank ks k" "rank ks k \<le> first + len" "first + len \<le> length ks"
    and eq: "eq \<longrightarrow> k \<in> set ks" "k \<in> set ks \<and> \<not> eq \<longrightarrow> rank ks k < first + len"
  shows "lower_bound_loop (\<lambda>i. cmp (ks ! i) k) first len eq = Inr (rank ks k, k \<in> set ks)"
  using range eq
proof (induction len arbitrary: first eq rule: less_induct)
  case (less len)
  show ?case
  proof (cases "len = 0")
    case True
    with less.prems show ?thesis
      by (subst lower_bound_loop.simps) auto
  next
    case False
    define mid where "mid = first + len div 2"
    have mid: "first \<le> mid" "mid < first + len" "mid < length ks"
      using False less.prems by (auto simp: mid_def)
    have v: "valid (ks ! mid)" using ord mid by (simp add: ordered_def)
    note unfold = lower_bound_loop.simps[of _ first len eq]
    show ?thesis
    proof (cases rule: cmp_cases[OF v k])
      case 1
      then have "mid < rank ks k"
        using below_iff_rank[OF ord k mid(3)] by (simp add: below_def)
      moreover have "lower_bound_loop (\<lambda>i. cmp (ks ! i) k) first len eq =
          lower_bound_loop (\<lambda>i. cmp (ks ! i) k) (mid + 1) (len - len div 2 - 1) eq"
        using 1(1) False by (subst unfold) (simp add: mid_def)
      ultimately show ?thesis
        using less.IH[of "len - len div 2 - 1" "mid + 1" eq] less.prems False
        by (auto simp: mid_def)
    next
      case 2
      have "\<not> below (ks ! mid) k" using 2 k below_irrefl by simp
      then have "rank ks k \<le> mid"
        using below_iff_rank[OF ord k mid(3)] by simp
      moreover have "k \<in> set ks" using 2(2) mid(3) by (metis nth_mem)
      moreover have "lower_bound_loop (\<lambda>i. cmp (ks ! i) k) first len eq =
          lower_bound_loop (\<lambda>i. cmp (ks ! i) k) first (len div 2) True"
        using 2(1) False by (subst unfold) (simp add: mid_def)
      ultimately show ?thesis
        using less.IH[of "len div 2" first True] less.prems False
        by (auto simp: mid_def)
    next
      case 3
      have "\<not> below (ks ! mid) k" using 3(1) by (simp add: below_def)
      then have r: "rank ks k \<le> mid"
        using below_iff_rank[OF ord k mid(3)] by simp
      have "rank ks k \<noteq> mid" if "k \<in> set ks"
        using nth_rank_of_member[OF ord k that] 3(2) by auto
      with r have "k \<in> set ks \<and> \<not> eq \<longrightarrow> rank ks k < first + len div 2"
        unfolding mid_def by (metis le_neq_implies_less)
      moreover have "lower_bound_loop (\<lambda>i. cmp (ks ! i) k) first len eq =
          lower_bound_loop (\<lambda>i. cmp (ks ! i) k) first (len div 2) eq"
        using 3(1) False by (subst unfold) (simp add: mid_def)
      ultimately show ?thesis
        using less.IH[of "len div 2" first eq] less.prems(1,3,4) False r
        by (simp add: mid_def)
    qed
  qed
qed

lemma lower_bound_correct:
  assumes "ordered ks" "valid k"
  shows "lower_bound_loop (\<lambda>i. cmp (ks ! i) k) 0 (length ks) False = Inr (rank ks k, k \<in> set ks)"
  using lower_bound_loop_correct[OF assms, of 0 "length ks" False] rank_le
    nth_rank_of_member[OF assms] by auto

end


section \<open>The exported comparators are orders\<close>

text \<open>
  The byte-array comparator is the lexicographic order on unsigned bytes, for keys whose
  length fits a signed 64-bit integer. The proof follows the first byte of both keys.
\<close>

lemma ByteArrayCompFunc_Cons:
  "ByteArrayCompFunc (x # a) (y # b) =
     (if x = y then ByteArrayCompFunc a b else if x < y then Inr Less else Inr Greater)"
  by (auto simp: ByteArrayCompFunc_def Let_def)

lemma ByteArrayCompFunc_spaceship:
  "length a < 9223372036854775808 \<Longrightarrow> length b < 9223372036854775808 \<Longrightarrow>
     ByteArrayCompFunc a b = Inr (spaceship a b)"
proof (induction a arbitrary: b)
  case Nil
  then show ?case by (cases b) (auto simp: ByteArrayCompFunc_def spaceship_def)
next
  case (Cons x a)
  show ?case
  proof (cases b)
    case Nil
    with Cons.prems show ?thesis by (auto simp: ByteArrayCompFunc_def spaceship_def)
  next
    case b: (Cons y b')
    with Cons show ?thesis by (auto simp: ByteArrayCompFunc_Cons spaceship_def)
  qed
qed

lemma spaceship_iffs:
  "spaceship a b = Less \<longleftrightarrow> a < b"
  "spaceship a b = Equal \<longleftrightarrow> a = b"
  "spaceship a b = Greater \<longleftrightarrow> b < a"
  by (auto simp: spaceship_def)

definition short_key :: "key \<Rightarrow> bool" where
  "short_key k \<longleftrightarrow> length k < 9223372036854775808"

interpretation bytes_order: key_order ByteArrayCompFunc short_key
  by unfold_locales
    (auto simp: short_key_def ByteArrayCompFunc_spaceship spaceship_iffs)

lemma UInt32CompFunc_spaceship:
  "length a = 4 \<Longrightarrow> length b = 4 \<Longrightarrow> UInt32CompFunc a b = Inr (spaceship (le_nat a) (le_nat b))"
  by (simp add: UInt32CompFunc_def)

interpretation uint32_order: key_order UInt32CompFunc "\<lambda>k. length k = 4"
proof unfold_locales
  fix a b :: key
  assume "length a = 4" "length b = 4"
  then show "UInt32CompFunc a b = Inr Equal \<longleftrightarrow> a = b"
    by (auto simp: UInt32CompFunc_spaceship spaceship_iffs intro: le_nat_inj)
qed (auto simp: UInt32CompFunc_spaceship spaceship_iffs)


section \<open>Properties\<close>

lemma bytes_below: "short_key a \<Longrightarrow> short_key b \<Longrightarrow> bytes_order.below a b \<longleftrightarrow> a < b"
  by (simp add: bytes_order.below_def short_key_def ByteArrayCompFunc_spaceship spaceship_iffs)

lemma bytes_ordered:
  "\<forall>k \<in> set ks. short_key k \<Longrightarrow> bytes_order.ordered ks \<longleftrightarrow> sorted_wrt (<) ks"
  unfolding bytes_order.ordered_def using bytes_below
  by (auto intro: sorted_wrt_mono_rel[rotated])

lemma bytes_lower_bound:
  assumes "sorted_wrt (<) ks" "\<forall>x \<in> set (k # ks). short_key x"
  shows "\<exists>p \<le> length ks. lower_bound_loop (\<lambda>i. ByteArrayComparator (ks ! i) k) 0 (length ks) False =
      Inr (p, k \<in> set ks) \<and> (\<forall>i < p. ks ! i < k) \<and> (\<forall>i. p \<le> i \<and> i < length ks \<longrightarrow> k \<le> ks ! i)"
proof -
  have o: "bytes_order.ordered ks" and k: "short_key k"
    using bytes_ordered[of ks] assms by simp_all
  have b: "bytes_order.below (ks ! i) k \<longleftrightarrow> ks ! i < k" if "i < length ks" for i
    using assms(2) that by (intro bytes_below) simp_all
  let ?p = "bytes_order.rank ks k"
  have "lower_bound_loop (\<lambda>i. ByteArrayComparator (ks ! i) k) 0 (length ks) False = Inr (?p, k \<in> set ks)"
    unfolding ByteArrayComparator_def by (rule bytes_order.lower_bound_correct[OF o k])
  moreover have "ks ! i < k" if "i < ?p" for i
    using bytes_order.below_before_rank[OF that] b[of i] that bytes_order.rank_le[of ks k] by simp
  moreover have "k \<le> ks ! i" if "?p \<le> i" "i < length ks" for i
    using bytes_order.not_below_from_rank[OF o k that] b[OF that(2)] by (simp add: not_less)
  ultimately show ?thesis using bytes_order.rank_le[of ks k] by blast
qed

text \<open>
  The binary search of the nodes is correct for the byte-array comparator. On strictly
  increasing keys it ends, returns the first position whose key is not below the searched key,
  and sets its flag exactly when the key is present.
\<close>

theorem lower_bound_bytes:
  assumes "sorted_wrt (<) ks" "\<forall>x \<in> set (k # ks). short_key x"
  shows "\<exists>p \<le> length ks. lower_bound_loop (\<lambda>i. ByteArrayComparator (ks ! i) k) 0 (length ks) False =
      Inr (p, k \<in> set ks) \<and> (\<forall>i < p. ks ! i < k) \<and> (\<forall>i. p \<le> i \<and> i < length ks \<longrightarrow> k \<le> ks ! i)"
  by (rule bytes_lower_bound[OF assms])

theorem lower_bound_bytes_witness:
  "\<exists>p \<le> 2. lower_bound_loop (\<lambda>i. ByteArrayComparator ([[1], [1, 7]] ! i) [1, 7]) 0 2 False = Inr (p, True)"
  using lower_bound_bytes[of "[[1], [1, 7]]" "[1, 7]"] by (auto simp: short_key_def numeral_2_eq_2)

text \<open>
  The exported 64-bit comparator rejects every 64-bit key: it is bound to the 32-bit
  function, whose assertion on the key length fails.
\<close>

theorem uint64_comparator_rejects:
  assumes "length key1 = 8"
  shows "UInt64Comparator key1 key2 = Inl Assert_failed \<and>
    (length key2 = 8 \<longrightarrow> UInt64CompFunc key1 key2 = Inr (spaceship (le_nat key1) (le_nat key2)))"
  using assms by (simp add: UInt64Comparator_def UInt32CompFunc_def UInt64CompFunc_def)

theorem uint64_comparator_rejects_witness:
  "UInt64Comparator (le_bytes 8 5) (le_bytes 8 6) = Inl Assert_failed"
  using uint64_comparator_rejects[of "le_bytes 8 5" "le_bytes 8 6"] by simp

end
