(* ===== verification/Atomkv_Stack.thy ===== *)
theory Atomkv_Stack
  imports Atomkv_Prelude
begin

text \<open>
  \<^verbatim>\<open>detail::Stack\<close> of \<^verbatim>\<open>include/atomkv/stack.h\<close>: a fixed array and a cursor, the path of
  an iterator. The contract of a bounded stack is a locale, interpreted on the array.
\<close>

section \<open>The array stack\<close>

record 'a stack =
  array :: "'a list"
  cur_pos :: nat

text \<open>\<^verbatim>\<open>std::array<T, kSize>\<close> starts with value-initialised elements.\<close>

definition stack_new :: "nat \<Rightarrow> 'a \<Rightarrow> 'a stack" where
  "stack_new kSize d = \<lparr>array = replicate kSize d, cur_pos = 0\<rparr>"

definition stack_empty :: "'a stack \<Rightarrow> bool" where
  "stack_empty s \<longleftrightarrow> cur_pos s = 0"

definition stack_size :: "'a stack \<Rightarrow> nat" where
  "stack_size s = cur_pos s"

definition stack_front :: "'a stack \<Rightarrow> 'a res" where
  "stack_front s = bind_res (assert_res (\<not> stack_empty s)) (\<lambda>_. Inr (array s ! (cur_pos s - 1)))"

text \<open>Assignment through the reference \<^verbatim>\<open>front()\<close> returns.\<close>

definition stack_set_front :: "'a \<Rightarrow> 'a stack \<Rightarrow> 'a stack res" where
  "stack_set_front v s = bind_res (assert_res (\<not> stack_empty s)) (\<lambda>_.
     Inr (s\<lparr>array := (array s)[cur_pos s - 1 := v]\<rparr>))"

definition stack_push_back :: "'a \<Rightarrow> 'a stack \<Rightarrow> 'a stack res" where
  "stack_push_back v s = bind_res (assert_res (cur_pos s < length (array s))) (\<lambda>_.
     Inr (s\<lparr>array := (array s)[cur_pos s := v], cur_pos := cur_pos s + 1\<rparr>))"

definition stack_pop_back :: "'a stack \<Rightarrow> 'a stack res" where
  "stack_pop_back s = bind_res (assert_res (cur_pos s > 0)) (\<lambda>_.
     Inr (s\<lparr>cur_pos := cur_pos s - 1\<rparr>))"

definition stack_clear :: "'a stack \<Rightarrow> 'a stack" where
  "stack_clear s = s\<lparr>cur_pos := 0\<rparr>"

text \<open>\<^verbatim>\<open>operator[]\<close>, unchecked in the source: a position outside the array is undefined.\<close>

definition stack_at :: "'a stack \<Rightarrow> nat \<Rightarrow> 'a res" where
  "stack_at s i = (if i < length (array s) then Inr (array s ! i) else Inl Undefined_behaviour)"

definition stack_set_at :: "nat \<Rightarrow> 'a \<Rightarrow> 'a stack \<Rightarrow> 'a stack res" where
  "stack_set_at i v s =
     (if i < length (array s) then Inr (s\<lparr>array := (array s)[i := v]\<rparr>) else Inl Undefined_behaviour)"

text \<open>\<^verbatim>\<open>operator=(const Stack&)\<close> copies the live elements one by one.\<close>

fun copy_elems :: "nat \<Rightarrow> 'a list \<Rightarrow> 'a list \<Rightarrow> 'a list" where
  "copy_elems 0 src dst = dst"
| "copy_elems (Suc n) src dst = (copy_elems n src dst)[n := src ! n]"

definition stack_assign :: "'a stack \<Rightarrow> 'a stack \<Rightarrow> 'a stack" where
  "stack_assign right s = \<lparr>array = copy_elems (cur_pos right) (array right) (array s),
                           cur_pos = cur_pos right\<rparr>"


section \<open>The contract\<close>

definition stack_inv :: "nat \<Rightarrow> 'a stack \<Rightarrow> bool" where
  "stack_inv kSize s \<longleftrightarrow> length (array s) = kSize \<and> cur_pos s \<le> kSize"

definition stack_list :: "'a stack \<Rightarrow> 'a list" where
  "stack_list s = take (cur_pos s) (array s)"

locale bounded_stack =
  fixes capacity :: nat
    and inv :: "'s \<Rightarrow> bool"
    and contents :: "'s \<Rightarrow> 'a list"
    and push :: "'a \<Rightarrow> 's \<Rightarrow> 's res"
    and pop :: "'s \<Rightarrow> 's res"
    and top :: "'s \<Rightarrow> 'a res"
  assumes bounded: "inv s \<Longrightarrow> length (contents s) \<le> capacity"
    and push_spec: "inv s \<Longrightarrow> (if length (contents s) < capacity
        then \<exists>t. push v s = Inr t \<and> inv t \<and> contents t = contents s @ [v]
        else push v s = Inl Assert_failed)"
    and pop_spec: "inv s \<Longrightarrow> (if contents s = [] then pop s = Inl Assert_failed
        else \<exists>t. pop s = Inr t \<and> inv t \<and> contents t = butlast (contents s))"
    and top_spec: "inv s \<Longrightarrow>
        top s = (if contents s = [] then Inl Assert_failed else Inr (last (contents s)))"
begin

lemma push_result:
  "inv s \<Longrightarrow> push v s = Inr t \<Longrightarrow> inv t \<and> contents t = contents s @ [v] \<and> length (contents s) < capacity"
  using push_spec[of s v] by (auto split: if_splits)

lemma push_then_top: "inv s \<Longrightarrow> push v s = Inr t \<Longrightarrow> top t = Inr v"
  using push_result top_spec by fastforce

lemma push_then_pop:
  assumes "inv s" "push v s = Inr t"
  shows "\<exists>u. pop t = Inr u \<and> inv u \<and> contents u = contents s"
  using push_result[OF assms] pop_spec[of t] by auto

lemma push_all:
  assumes "inv s" "length (contents s) + length vs \<le> capacity"
  shows "\<exists>t. fold_res push vs s = Inr t \<and> inv t \<and> contents t = contents s @ vs"
  using assms
proof (induction vs arbitrary: s)
  case (Cons v vs)
  then obtain t where "push v s = Inr t" "inv t" "contents t = contents s @ [v]"
    using push_spec[of s v] by (auto split: if_splits)
  with Cons show ?case by fastforce
qed simp

end

lemma stack_push_back_spec:
  assumes "stack_inv n s"
  shows "if length (stack_list s) < n
    then \<exists>t. stack_push_back v s = Inr t \<and> stack_inv n t \<and> stack_list t = stack_list s @ [v]
    else stack_push_back v s = Inl Assert_failed"
  using assms
  by (auto simp: stack_inv_def stack_list_def stack_push_back_def take_Suc_conv_app_nth)

lemma stack_pop_back_spec:
  assumes "stack_inv n s"
  shows "if stack_list s = [] then stack_pop_back s = Inl Assert_failed
    else \<exists>t. stack_pop_back s = Inr t \<and> stack_inv n t \<and> stack_list t = butlast (stack_list s)"
  using assms
  by (auto simp: stack_inv_def stack_list_def stack_pop_back_def butlast_take)

lemma stack_front_spec:
  assumes "stack_inv n s"
  shows "stack_front s = (if stack_list s = [] then Inl Assert_failed else Inr (last (stack_list s)))"
  using assms
  by (auto simp: stack_inv_def stack_list_def stack_front_def stack_empty_def last_conv_nth)

interpretation array_stack: bounded_stack n "stack_inv n" stack_list stack_push_back
    stack_pop_back stack_front for n
proof (unfold_locales, goal_cases)
  case (1 s)
  then show ?case by (simp add: stack_inv_def stack_list_def)
next
  case (2 s v)
  then show ?case by (rule stack_push_back_spec)
next
  case (3 s)
  then show ?case by (rule stack_pop_back_spec)
next
  case (4 s)
  then show ?case by (rule stack_front_spec)
qed

lemma stack_new_inv [simp]: "stack_inv n (stack_new n d)" "stack_list (stack_new n d) = []"
  by (simp_all add: stack_inv_def stack_new_def stack_list_def)

lemma copy_elems_spec:
  "n \<le> length dst \<Longrightarrow> length (copy_elems n src dst) = length dst \<and>
     (\<forall>i < length dst. copy_elems n src dst ! i = (if i < n then src ! i else dst ! i))"
  by (induction n) (auto simp: nth_list_update)

lemma stack_assign_list:
  assumes "stack_inv n s" "stack_inv n right"
  shows "stack_inv n (stack_assign right s)" "stack_list (stack_assign right s) = stack_list right"
proof -
  have le: "cur_pos right \<le> length (array s)" using assms by (simp add: stack_inv_def)
  show "stack_inv n (stack_assign right s)"
    using assms copy_elems_spec[OF le, of "array right"] by (simp add: stack_assign_def stack_inv_def)
  show "stack_list (stack_assign right s) = stack_list right"
    using assms copy_elems_spec[OF le, of "array right"]
    by (intro nth_equalityI) (auto simp: stack_assign_def stack_list_def stack_inv_def)
qed


section \<open>Properties\<close>

text \<open>
  C38: The fixed-capacity stack refines a list. Pushing a sequence of at most \<open>n\<close> elements onto a
  new stack of capacity \<open>n\<close> never fails, its contents are that sequence, the last element is on
  top, a copy has the same contents, and one push more than the capacity is refused.
\<close>

theorem stack_refines_list:
  assumes "length vs \<le> n" "vs \<noteq> []"
  shows "\<exists>s. fold_res stack_push_back vs (stack_new n d) = Inr s \<and> stack_list s = vs \<and>
    stack_front s = Inr (last vs) \<and> stack_list (stack_assign s (stack_new n d)) = vs \<and>
    (length vs = n \<longrightarrow> stack_push_back v s = Inl Assert_failed)"
proof -
  obtain s where s: "fold_res stack_push_back vs (stack_new n d) = Inr s" "stack_inv n s" "stack_list s = vs"
    using array_stack.push_all[of n "stack_new n d" vs] assms(1) by auto
  moreover have "stack_front s = Inr (last vs)" using stack_front_spec[OF s(2)] s(3) assms(2) by simp
  moreover have "stack_list (stack_assign s (stack_new n d)) = vs"
    using stack_assign_list(2)[OF _ s(2)] s(3) by simp
  moreover have "length vs = n \<longrightarrow> stack_push_back v s = Inl Assert_failed"
    using stack_push_back_spec[OF s(2), of v] s(3) by auto
  ultimately show ?thesis by blast
qed

theorem stack_refines_list_witness:
  "\<exists>s. fold_res stack_push_back [7, 8] (stack_new 2 (0::nat)) = Inr s \<and> stack_front s = Inr 8 \<and>
     stack_push_back 9 s = Inl Assert_failed"
  using stack_refines_list[of "[7, 8]" 2 0 9] by auto

end
