(* ===== verification/Atomkv_Formats.thy ===== *)
theory Atomkv_Formats
  imports Atomkv_Prelude
begin

text \<open>
  The formats shared by the components: the constants and types of \<^verbatim>\<open>page_format.h\<close>,
  \<^verbatim>\<open>tx_format.h\<close>, \<^verbatim>\<open>slot.h\<close>, \<^verbatim>\<open>node_format.h\<close>, \<^verbatim>\<open>meta_format.h\<close>, \<^verbatim>\<open>options.h\<close>,
  \<^verbatim>\<open>version.h\<close> and \<^verbatim>\<open>log_type.h\<close>. The packed meta struct has a byte encoding with a
  round trip; a node page is kept as a structured record, since its header, its slot array
  and its record area never overlap (the node theory proves it).
\<close>

section \<open>Pages and transactions\<close>

type_synonym PageId = nat
type_synonym PageCount = nat
type_synonym TxId = "64 word"
type_synonym BucketId = nat

definition kPageMinSize :: nat where "kPageMinSize = 256"
definition kPageMaxSize :: nat where "kPageMaxSize = 32768"
definition kPageInvalidId :: PageId where "kPageInvalidId = 4294967295"
definition kPageInitCount :: PageCount where "kPageInitCount = 2"
definition kPageMaxCount :: PageCount where "kPageMaxCount = 2147483648"
definition kTxInvalidId :: TxId where "kTxInvalidId = 18446744073709551615"
definition kUserRootBucketId :: BucketId where "kUserRootBucketId = 4294967295"

definition ATOMKV_SIGN :: nat where "ATOMKV_SIGN = 1635020653"
definition ATOMKV_VERSION :: nat where "ATOMKV_VERSION = 1"


section \<open>Slots and nodes\<close>

definition kKeyMaxSize :: nat where "kKeyMaxSize = 32767"
definition kValueMaxSize :: nat where "kValueMaxSize = 4294967295"

text \<open>
  The union of \<open>left_child\<close> (branch nodes) and \<open>value_size\<close> (leaf nodes) is one field with
  two readings.
\<close>

record Slot =
  record_offset :: nat
  is_overflow_pages :: bool
  key_size :: nat
  is_bucket :: bool
  child_or_size :: nat

abbreviation left_child :: "Slot \<Rightarrow> PageId" where "left_child s \<equiv> child_or_size s"
abbreviation value_size :: "Slot \<Rightarrow> nat" where "value_size s \<equiv> child_or_size s"

datatype NodeType = kInvalid | kBranch | kLeaf

text \<open>
  \<^verbatim>\<open>NodeData\<close>: the header, the tail child, the slot array and the record area, which grows
  down from the end of the page. \<open>slots\<close> is indexed by slot, \<open>records\<close> by page offset.
\<close>

record NodeData =
  last_modified_txid :: TxId
  node_type :: NodeType
  node_count :: nat
  space_used :: nat
  data_offset :: int
  tail_child :: PageId
  slots :: "nat \<Rightarrow> Slot"
  records :: memory

definition sizeof_Slot :: nat where "sizeof_Slot = 8"
definition sizeof_OverflowRecord :: nat where "sizeof_OverflowRecord = 4"
definition sizeof_header :: nat where "sizeof_header = 14"
definition sizeof_padding :: nat where "sizeof_padding = 4"

lemmas node_sizes = sizeof_Slot_def sizeof_OverflowRecord_def sizeof_header_def sizeof_padding_def


section \<open>The meta struct\<close>

record MetaStruct =
  sign :: nat
  page_size :: nat
  min_version :: nat
  page_count :: PageCount
  user_root :: PageId
  free_list_pgid :: PageId
  free_pair_count :: nat
  free_list_page_count :: PageCount
  txid :: TxId
  crc32 :: nat

definition CopyMetaInfo :: "MetaStruct \<Rightarrow> MetaStruct \<Rightarrow> MetaStruct" where
  "CopyMetaInfo dst src = dst\<lparr>
     user_root := user_root src,
     free_list_pgid := free_list_pgid src,
     free_pair_count := free_pair_count src,
     free_list_page_count := free_list_page_count src,
     page_count := page_count src,
     txid := txid src\<rparr>"

definition kMetaSize :: nat where "kMetaSize = 42"

text \<open>The bytes of the packed struct, up to the checksum and with it.\<close>

definition meta_body :: "MetaStruct \<Rightarrow> byte list" where
  "meta_body m = le_bytes 4 (sign m) @ le_bytes 2 (page_size m) @ le_bytes 4 (min_version m) @
     le_bytes 4 (page_count m) @ le_bytes 4 (user_root m) @ le_bytes 4 (free_list_pgid m) @
     le_bytes 4 (free_pair_count m) @ le_bytes 4 (free_list_page_count m) @
     le_bytes 8 (unat (txid m))"

definition meta_bytes :: "MetaStruct \<Rightarrow> byte list" where
  "meta_bytes m = meta_body m @ le_bytes 4 (crc32 m)"

definition meta_of_bytes :: "byte list \<Rightarrow> MetaStruct" where
  "meta_of_bytes bs = (let f = (\<lambda>a n. le_nat (take n (drop a bs))) in
     \<lparr>sign = f 0 4, page_size = f 4 2, min_version = f 6 4, page_count = f 10 4,
      user_root = f 14 4, free_list_pgid = f 18 4, free_pair_count = f 22 4,
      free_list_page_count = f 26 4, txid = word_of_nat (f 30 8), crc32 = f 38 4\<rparr>)"

definition meta_ok :: "MetaStruct \<Rightarrow> bool" where
  "meta_ok m \<longleftrightarrow> sign m < 4294967296 \<and> page_size m < 65536 \<and> min_version m < 4294967296 \<and>
     page_count m < 4294967296 \<and> user_root m < 4294967296 \<and> free_list_pgid m < 4294967296 \<and>
     free_pair_count m < 4294967296 \<and> free_list_page_count m < 4294967296 \<and>
     crc32 m < 4294967296"

lemma length_meta_body [simp]: "length (meta_body m) = 38"
  by (simp add: meta_body_def)

lemma length_meta_bytes [simp]: "length (meta_bytes m) = kMetaSize"
  by (simp add: meta_bytes_def kMetaSize_def)

lemma meta_of_bytes_meta_bytes:
  assumes "meta_ok m"
  shows "meta_of_bytes (meta_bytes m) = m"
proof -
  have "unat (txid m) mod 18446744073709551616 = unat (txid m)"
    using unsigned_less[of "txid m", where 'a = nat] by simp
  with assms show ?thesis
    by (simp add: meta_of_bytes_def meta_bytes_def meta_body_def meta_ok_def Let_def)
qed

section \<open>Options and log records\<close>

datatype DbMode = kUpdateInPlace | kWal

record Options =
  opt_page_size :: nat
  read_only :: bool
  sync :: bool
  mode :: DbMode
  max_wal_size :: nat

datatype LogType = kWalTxId | kBegin | kRollback | kCommit | kSubBucket | kPut_IsBucket
  | kPut_NotBucket | kDelete

end
