(* ===== verification/Atomkv_Pager.thy ===== *)
theory Atomkv_Pager
  imports Atomkv_Formats
begin

text \<open>
  The pager of \<^verbatim>\<open>src/pager.cpp\<close>: allocation of runs of pages from the free map or from
  the end of the file, deferred freeing per transaction, rollback, the free list on disk,
  and the byte accesses to the mapped file. \<^verbatim>\<open>DBImpl::Remmap\<close>, which grows the mapping
  for \<^verbatim>\<open>Pager::Alloc\<close>, is here too. The record holds the fields of \<^verbatim>\<open>Pager\<close> and the parts
  of the objects it reaches through \<^verbatim>\<open>db_\<close>: the meta struct of the running update
  transaction, the meta struct of the database and the mapped file.
\<close>

section \<open>State\<close>

type_synonym PagePair = "PageId \<times> PageCount"

record pager_db =
  pg_size :: nat
  free_map :: "(PageId, PageCount) omap"
  pending_map :: "(TxId, PagePair list) omap"
  alloc_records :: "PagePair list"
  debug_free_set :: "PageId set"
  update_meta :: "MetaStruct option"
  db_meta :: MetaStruct
  map_size :: nat
  mmap_pending :: "nat list"
  mem :: memory
  nodes :: "PageId \<Rightarrow> NodeData"
  io_fails :: bool

text \<open>\<^verbatim>\<open>TxManager::update_tx()\<close> asserts that a transaction is open.\<close>

definition update_tx :: "'a pager_db_scheme \<Rightarrow> MetaStruct res" where
  "update_tx s = (case update_meta s of None \<Rightarrow> Inl Assert_failed | Some m \<Rightarrow> Inr m)"


section \<open>The mapped file\<close>

text \<open>
  \<^verbatim>\<open>pgid * page_size_\<close> multiplies two 32-bit values, so the byte offset of a page is taken
  modulo \<open>2 ^ 32\<close>; the base address of the mapping is 0 here.
\<close>

definition GetPtr :: "PageId \<Rightarrow> nat \<Rightarrow> 'a pager_db_scheme \<Rightarrow> nat" where
  "GetPtr pgid offset s = u32 (pgid * pg_size s) + offset"

definition GetPageIdByPtr :: "nat \<Rightarrow> 'a pager_db_scheme \<Rightarrow> PageId" where
  "GetPageIdByPtr ptr s = u32 (ptr div pg_size s)"

definition GetPageCount :: "nat \<Rightarrow> 'a pager_db_scheme \<Rightarrow> PageCount" where
  "GetPageCount bytes s =
     u32 (bytes div pg_size s + (if bytes mod pg_size s = 0 then 0 else 1))"

text \<open>An access outside the mapping is undefined.\<close>

definition WriteByBytes ::
    "PageId \<Rightarrow> nat \<Rightarrow> byte list \<Rightarrow> 'a pager_db_scheme \<Rightarrow> 'a pager_db_scheme res" where
  "WriteByBytes pgid offset buf s =
     (if GetPtr pgid offset s + length buf \<le> map_size s
      then Inr (s\<lparr>mem := mem_write (mem s) (GetPtr pgid offset s) buf\<rparr>)
      else Inl Undefined_behaviour)"

definition Write ::
    "PageId \<Rightarrow> byte list \<Rightarrow> PageCount \<Rightarrow> 'a pager_db_scheme \<Rightarrow> 'a pager_db_scheme res" where
  "Write pgid cache count s = WriteByBytes pgid 0 (take (u32 (pg_size s * count)) cache) s"

definition ReadBytes :: "PageId \<Rightarrow> nat \<Rightarrow> nat \<Rightarrow> 'a pager_db_scheme \<Rightarrow> byte list res" where
  "ReadBytes pgid offset n s =
     (if GetPtr pgid offset s + n \<le> map_size s
      then Inr (mem_read (mem s) (GetPtr pgid offset s) n)
      else Inl Undefined_behaviour)"

definition WriteAllDirtyPages :: "'a pager_db_scheme \<Rightarrow> unit res" where
  "WriteAllDirtyPages s = throw_if (io_fails s) (System_error ''Failed to sync db file.'')"

definition Reference :: "PageId \<Rightarrow> 'a pager_db_scheme \<Rightarrow> PageId res" where
  "Reference pgid s =
     bind_res (assert_res (pgid \<noteq> kPageInvalidId)) (\<lambda>_.
     bind_res (assert_res (pgid < kPageMaxCount)) (\<lambda>_. Inr pgid))"

text \<open>
  \<^verbatim>\<open>DBImpl::Remmap\<close>: the file doubles up to one gigabyte; the loop runs at most 31 times.
  The old mapping is kept until the next update transaction starts.
\<close>

fun double_loop :: "nat \<Rightarrow> nat \<Rightarrow> nat \<Rightarrow> nat" where
  "double_loop 0 sz new_size = sz"
| "double_loop (Suc i) sz new_size =
     (let sz' = sz * 2 in if sz' > new_size then sz' else double_loop i sz' new_size)"

definition remmap_size :: "nat \<Rightarrow> nat" where
  "remmap_size new_size =
     (let max_expand_size = 1024 * 1024 * 1024
      in if new_size \<le> max_expand_size then double_loop 31 1 new_size
         else new_size + new_size mod max_expand_size)"

definition Remmap :: "nat \<Rightarrow> 'a pager_db_scheme \<Rightarrow> 'a pager_db_scheme res" where
  "Remmap new_size s =
     (let new_map = remmap_size new_size in
      bind_res (assert_res (new_map mod pg_size s = 0)) (\<lambda>_.
      bind_res (throw_if (io_fails s) (System_error ''Unable to map db file.'')) (\<lambda>_.
      Inr (s\<lparr>map_size := new_map,
             mmap_pending := mmap_pending s @ [map_size s],
             mem := (\<lambda>i. if i < map_size s then mem s i else 0)\<rparr>))))"


section \<open>Allocation and freeing\<close>

text \<open>The scan of the free map: the position of the first run that is long enough.\<close>

fun find_fit :: "PageCount \<Rightarrow> (PageId, PageCount) omap \<Rightarrow> nat res" where
  "find_fit count [] = Inr 0"
| "find_fit count (pc # m) =
     bind_res (assert_res (snd pc > 0)) (\<lambda>_.
       if snd pc < count then bind_res (find_fit count m) (\<lambda>i. Inr (Suc i)) else Inr 0)"

text \<open>The loops of the debug build over the set of free pages.\<close>

definition debug_erase :: "PageId \<Rightarrow> PageCount \<Rightarrow> PageId set \<Rightarrow> PageId set res" where
  "debug_erase pgid count = fold_res (\<lambda>i S.
     bind_res (assert_res (u32 (pgid + i) \<in> S)) (\<lambda>_. Inr (S - {u32 (pgid + i)}))) [0..<count]"

definition debug_insert :: "PageId \<Rightarrow> PageCount \<Rightarrow> PageId set \<Rightarrow> PageId set res" where
  "debug_insert pgid count = fold_res (\<lambda>i S.
     bind_res (assert_res (u32 (pgid + i) \<notin> S)) (\<lambda>_. Inr (insert (u32 (pgid + i)) S))) [0..<count]"

definition take_run :: "PageCount \<Rightarrow> nat \<Rightarrow> (PageId, PageCount) omap \<Rightarrow> (PageId, PageCount) omap res" where
  "take_run count i fm =
     (let pgid = fst (fm ! i); free_count = snd (fm ! i); rest = erase_at i fm
      in if count < free_count
         then bind_res (assert_res (u32 (pgid + count) \<notin> fst ` set rest)) (\<lambda>_.
                Inr (map_insert (u32 (pgid + count)) (free_count - count) rest))
         else Inr rest)"

definition AllocFromMap ::
    "PageCount \<Rightarrow> 'a pager_db_scheme \<Rightarrow> (PageId \<times> 'a pager_db_scheme) res" where
  "AllocFromMap count s =
     bind_res (find_fit count (free_map s)) (\<lambda>i.
     if i < length (free_map s)
     then let pgid = fst (free_map s ! i) in
       bind_res (take_run count i (free_map s)) (\<lambda>fm.
       bind_res (if pgid \<noteq> kPageInvalidId then debug_erase pgid count (debug_free_set s)
                 else Inr (debug_free_set s)) (\<lambda>dbg.
       Inr (pgid, s\<lparr>free_map := fm, alloc_records := alloc_records s @ [(pgid, count)],
                    debug_free_set := dbg\<rparr>)))
     else Inr (kPageInvalidId, s))"

text \<open>
  \<^verbatim>\<open>Pager::FreeToMap\<close>. The iterator is a position; \<^verbatim>\<open>free_map_.erase(tmp_iter--)\<close>
  decrements \<^verbatim>\<open>begin()\<close> when the merged run is the first of the map, which is undefined.
\<close>

definition merge_next :: "PageId \<Rightarrow> PageCount \<Rightarrow> (PageId, PageCount) omap \<Rightarrow>
    (PageCount \<times> (PageId, PageCount) omap \<times> nat) res" where
  "merge_next pgid count fm =
     (let next_pgid = u32 (pgid + count); it = map_lower_bound pgid fm
      in if it < length fm
         then (if fst (fm ! it) = next_pgid
               then (if it = 0 then Inl Undefined_behaviour
                     else Inr (u32 (count + snd (fm ! it)), erase_at it fm, it - 1))
               else Inr (count, fm, it))
         else Inr (count, fm, if fm \<noteq> [] then length fm - 1 else it))"

definition merge_prev :: "PageId \<Rightarrow> PageCount \<Rightarrow> (PageId, PageCount) omap \<Rightarrow> nat \<Rightarrow>
    (PageId, PageCount) omap" where
  "merge_prev pgid count fm it =
     (if it < length fm \<and> u32 (fst (fm ! it) + snd (fm ! it)) = pgid
      then fm[it := (fst (fm ! it), u32 (snd (fm ! it) + count))]
      else map_insert pgid count fm)"

definition FreeToMap ::
    "PageId \<Rightarrow> PageCount \<Rightarrow> 'a pager_db_scheme \<Rightarrow> 'a pager_db_scheme res" where
  "FreeToMap pgid count s =
     bind_res (debug_insert pgid count (debug_free_set s)) (\<lambda>dbg.
     bind_res (merge_next pgid count (free_map s)) (\<lambda>(count', fm, it).
     Inr (s\<lparr>free_map := merge_prev pgid count' fm it, debug_free_set := dbg\<rparr>)))"

definition Alloc :: "PageCount \<Rightarrow> 'a pager_db_scheme \<Rightarrow> (PageId \<times> 'a pager_db_scheme) res" where
  "Alloc count s =
     bind_res (update_tx s) (\<lambda>m.
     bind_res (AllocFromMap count s) (\<lambda>(pgid, s1).
     if pgid \<noteq> kPageInvalidId then Inr (pgid, s1)
     else
       bind_res (throw_if (u32 (page_count m + count) < page_count m)
         (Runtime_error ''Page allocation failed, there are not enough available pages.'')) (\<lambda>_.
       let new_count = u32 (page_count m + count);
           s2 = s1\<lparr>update_meta := Some (m\<lparr>page_count := new_count\<rparr>)\<rparr>;
           min_size = u32 (new_count * pg_size s)
       in bind_res (if min_size > map_size s2 then Remmap min_size s2 else Inr s2) (\<lambda>s3.
          Inr (page_count m, s3)))))"

definition Free :: "PageId \<Rightarrow> PageCount \<Rightarrow> 'a pager_db_scheme \<Rightarrow> 'a pager_db_scheme res" where
  "Free free_pgid free_count s =
     bind_res (assert_res (free_pgid \<noteq> kPageInvalidId)) (\<lambda>_.
     bind_res (update_tx s) (\<lambda>m.
     let old = (case map_of (pending_map s) (txid m) of None \<Rightarrow> [] | Some l \<Rightarrow> l)
     in Inr (s\<lparr>pending_map := map_assign (txid m) (old @ [(free_pgid, free_count)]) (pending_map s)\<rparr>)))"

text \<open>\<^verbatim>\<open>Pager::Copy\<close>: the whole page is copied, in both of its views.\<close>

definition Copy :: "PageId \<Rightarrow> 'a pager_db_scheme \<Rightarrow> (PageId \<times> 'a pager_db_scheme) res" where
  "Copy pgid s =
     bind_res (Reference pgid s) (\<lambda>_.
     bind_res (Alloc 1 s) (\<lambda>(new_pgid, s1).
     bind_res (Reference new_pgid s1) (\<lambda>_.
     let s2 = s1\<lparr>mem := mem_copy (mem s1) (GetPtr new_pgid 0 s1) (mem s1) (GetPtr pgid 0 s1) (pg_size s1),
                 nodes := (nodes s1)(new_pgid := nodes s1 pgid)\<rparr>
     in bind_res (Free pgid 1 s2) (\<lambda>s3. Inr (new_pgid, s3)))))"

fun release_loop :: "TxId \<Rightarrow> (TxId, PagePair list) omap \<Rightarrow> 'a pager_db_scheme \<Rightarrow>
    'a pager_db_scheme res" where
  "release_loop releasable_txid [] s = Inr (s\<lparr>pending_map := []\<rparr>)"
| "release_loop releasable_txid (e # m) s =
     (if fst e \<ge> releasable_txid then Inr (s\<lparr>pending_map := e # m\<rparr>)
      else bind_res (fold_res (\<lambda>pc. FreeToMap (fst pc) (snd pc)) (snd e) s) (release_loop releasable_txid m))"

definition Release :: "TxId \<Rightarrow> 'a pager_db_scheme \<Rightarrow> 'a pager_db_scheme res" where
  "Release releasable_txid s = release_loop releasable_txid (pending_map s) (s\<lparr>alloc_records := []\<rparr>)"

definition Rollback :: "'a pager_db_scheme \<Rightarrow> 'a pager_db_scheme res" where
  "Rollback s =
     bind_res (update_tx s) (\<lambda>m.
     bind_res (fold_res (\<lambda>pc. FreeToMap (fst pc) (snd pc)) (alloc_records s)
       (s\<lparr>pending_map := map_erase (txid m) (pending_map s)\<rparr>)) (\<lambda>s1.
     Inr (s1\<lparr>alloc_records := []\<rparr>)))"


section \<open>The free list on disk\<close>

text \<open>\<^verbatim>\<open>std::pair<PageId, PageCount>\<close> as it lies in memory.\<close>

definition pair_bytes :: "PagePair \<Rightarrow> byte list" where
  "pair_bytes pc = le_bytes 4 (fst pc) @ le_bytes 4 (snd pc)"

definition pair_of_bytes :: "byte list \<Rightarrow> PagePair" where
  "pair_of_bytes bs = (le_nat (take 4 bs), le_nat (take 4 (drop 4 bs)))"

definition LoadFreeList :: "'a pager_db_scheme \<Rightarrow> 'a pager_db_scheme res" where
  "LoadFreeList s =
     (let m = db_meta s in
      if free_list_pgid m = kPageInvalidId then Inr s
      else fold_res (\<lambda>i t.
             bind_res (ReadBytes (free_list_pgid m) (i * 8) 8 t) (\<lambda>bs.
             let pc = pair_of_bytes bs
             in if snd pc = 0 then Inr t else FreeToMap (fst pc) (snd pc) t))
           [0..<free_pair_count m] s)"

definition SaveFreeList :: "'a pager_db_scheme \<Rightarrow> 'a pager_db_scheme res" where
  "SaveFreeList s =
     bind_res (update_tx s) (\<lambda>m.
     bind_res (if free_list_pgid m \<noteq> kPageInvalidId
               then Free (free_list_pgid m) (free_list_page_count m) s else Inr s) (\<lambda>s1.
     let pair_count = u32 (length (free_map s1) + sum_list (map (length \<circ> snd) (pending_map s1)));
         bytes = pair_count * 8;
         list_pages = u32 (bytes div pg_size s1 + (if bytes mod pg_size s1 = 0 then 0 else 1));
         s2 = s1\<lparr>update_meta := Some (m\<lparr>free_list_page_count := list_pages\<rparr>)\<rparr>
     in bind_res (Alloc list_pages s2) (\<lambda>(pgid, s3).
        bind_res (update_tx s3) (\<lambda>m3.
        bind_res (if [] \<in> snd ` set (pending_map s3) then Inl Undefined_behaviour else Inr ()) (\<lambda>_.
        let pairs = free_map s3 @ concat (map snd (pending_map s3));
            s4 = s3\<lparr>update_meta := Some (m3\<lparr>free_list_pgid := pgid, free_pair_count := u32 (length pairs)\<rparr>)\<rparr>
        in WriteByBytes pgid 0 (concat (map pair_bytes pairs)) s4)))))"


section \<open>Runs of pages\<close>

abbreviation run :: "PagePair \<Rightarrow> PageId set" where
  "run pc \<equiv> {fst pc..<fst pc + snd pc}"

definition pages_of :: "PagePair list \<Rightarrow> PageId set" where
  "pages_of xs = (\<Union>pc \<in> set xs. run pc)"

text \<open>
  A well-formed free map: runs that are not empty, in order, that do not overlap, below
  the number of pages of the file.
\<close>

definition free_ok :: "nat \<Rightarrow> (PageId, PageCount) omap \<Rightarrow> bool" where
  "free_ok B fm \<longleftrightarrow> sorted_wrt (\<lambda>x y. fst x + snd x \<le> fst y) fm \<and>
     (\<forall>x \<in> set fm. 0 < snd x \<and> fst x + snd x \<le> B)"

lemma pages_of_simps [simp]:
  "pages_of [] = {}"
  "pages_of (x # xs) = run x \<union> pages_of xs"
  "pages_of (xs @ ys) = pages_of xs \<union> pages_of ys"
  by (auto simp: pages_of_def)

lemma free_ok_Nil [simp]: "free_ok B []"
  by (simp add: free_ok_def)

lemma free_ok_Cons:
  "free_ok B (x # xs) \<longleftrightarrow>
     0 < snd x \<and> fst x + snd x \<le> B \<and> (\<forall>y \<in> set xs. fst x + snd x \<le> fst y) \<and> free_ok B xs"
  by (auto simp: free_ok_def)

lemma free_ok_append:
  "free_ok B (xs @ ys) \<longleftrightarrow>
     free_ok B xs \<and> free_ok B ys \<and> (\<forall>x \<in> set xs. \<forall>y \<in> set ys. fst x + snd x \<le> fst y)"
  by (auto simp: free_ok_def sorted_wrt_append)

lemma free_ok_omap: "free_ok B fm \<Longrightarrow> omap_ok fm"
proof (induction fm)
  case (Cons x xs)
  then show ?case by (fastforce simp: free_ok_Cons)
qed simp

lemma free_ok_mono: "free_ok B fm \<Longrightarrow> B \<le> C \<Longrightarrow> free_ok C fm"
  by (fastforce simp: free_ok_def)

lemma pages_of_bound: "free_ok B fm \<Longrightarrow> p \<in> pages_of fm \<Longrightarrow> p < B"
  by (fastforce simp: free_ok_def pages_of_def)

lemma map_insert_mid:
  "\<forall>x \<in> set xs. fst x < k \<Longrightarrow> \<forall>y \<in> set ys. k < fst y \<Longrightarrow>
     map_insert k v (xs @ ys) = xs @ (k, v) # ys"
proof (induction xs)
  case Nil
  then show ?case by (cases ys) auto
next
  case (Cons x xs)
  then show ?case by (cases x) auto
qed

lemma split_nth: "i < length xs \<Longrightarrow> xs = take i xs @ xs ! i # drop (Suc i) xs"
  by (rule id_take_nth_drop)


section \<open>Allocation from the free map\<close>

lemma find_fit_spec:
  assumes "\<forall>x \<in> set fm. 0 < snd x"
  shows "\<exists>i \<le> length fm. find_fit count fm = Inr i \<and> (\<forall>j < i. snd (fm ! j) < count) \<and>
           (i < length fm \<longrightarrow> count \<le> snd (fm ! i))"
  using assms
proof (induction fm)
  case (Cons x xs)
  then obtain i where i: "i \<le> length xs" "find_fit count xs = Inr i" "\<forall>j < i. snd (xs ! j) < count"
    "i < length xs \<longrightarrow> count \<le> snd (xs ! i)" by auto
  show ?case
  proof (cases "snd x < count")
    case True
    with i Cons.prems show ?thesis
      by (intro exI[of _ "Suc i"]) (auto simp: less_Suc_eq_0_disj)
  next
    case False
    with Cons.prems show ?thesis by (intro exI[of _ 0]) auto
  qed
qed simp

lemma take_run_spec:
  assumes ok: "free_ok B fm" and B: "B < 4294967296"
    and i: "i < length fm" "count \<le> snd (fm ! i)"
  shows "\<exists>fm'. take_run count i fm = Inr fm' \<and> free_ok B fm' \<and>
           pages_of fm' = pages_of fm - run (fst (fm ! i), count)"
proof -
  obtain p c where pc: "fm ! i = (p, c)" by force
  define xs ys where "xs = take i fm" and "ys = drop (Suc i) fm"
  have fm: "fm = xs @ (p, c) # ys"
    using split_nth[OF i(1)] by (simp add: xs_def ys_def pc)
  have rest: "erase_at i fm = xs @ ys"
    by (simp add: erase_at_def xs_def ys_def)
  have c: "0 < c" "p + c \<le> B" "\<forall>x \<in> set xs. fst x + snd x \<le> p" "\<forall>y \<in> set ys. p + c \<le> fst y"
    "free_ok B xs" "free_ok B ys" "\<forall>x \<in> set xs. \<forall>y \<in> set ys. fst x + snd x \<le> fst y"
    "\<forall>x \<in> set xs. 0 < snd x"
    using ok by (auto simp: fm free_ok_append free_ok_Cons) (auto simp: free_ok_def)
  have le: "count \<le> c" using i pc by simp
  have below: "q < p" if "q \<in> pages_of xs" for q
    using that c(3) by (force simp: pages_of_def)
  have above: "p + c \<le> q" if "q \<in> pages_of ys" for q
    using that c(4) by (force simp: pages_of_def)
  show ?thesis
  proof (cases "count < c")
    case True
    have q: "u32 (p + count) = p + count" using True c(2) B by simp
    have lt: "\<forall>x \<in> set xs. fst x < p + count"
      using c(3,8) by fastforce
    have gt: "\<forall>y \<in> set ys. p + count < fst y" using c(4) True by fastforce
    have "p + count \<notin> fst ` (set xs \<union> set ys)" using lt gt by fastforce
    then have "take_run count i fm = Inr (xs @ (p + count, c - count) # ys)"
      using lt gt True by (simp add: take_run_def pc rest q map_insert_mid image_Un)
    moreover have "free_ok B (xs @ (p + count, c - count) # ys)"
      using c True by (auto simp: free_ok_append free_ok_Cons)
    moreover have "pages_of (xs @ (p + count, c - count) # ys) = pages_of fm - run (p, count)"
      using True by (auto simp: fm dest!: below above)
    ultimately show ?thesis by (simp add: pc)
  next
    case False
    then have "count = c" using le by simp
    moreover have "free_ok B (xs @ ys)" using c by (simp add: free_ok_append)
    moreover have "pages_of (xs @ ys) = pages_of fm - run (p, c)"
      by (auto simp: fm dest!: below above)
    ultimately show ?thesis by (simp add: take_run_def pc rest)
  qed
qed

lemma debug_erase_spec:
  assumes "p + count \<le> B" "B < 4294967296" "run (p, count) \<subseteq> S"
  shows "debug_erase p count S = Inr (S - run (p, count))"
  using assms
proof (induction count)
  case (Suc n)
  have "run (p, Suc n) = insert (p + n) (run (p, n))" by auto
  with Suc show ?case
    by (auto simp: debug_erase_def fold_res_append)
qed (simp add: debug_erase_def)

lemma debug_insert_spec:
  assumes "p + count \<le> B" "B < 4294967296" "run (p, count) \<inter> S = {}"
  shows "debug_insert p count S = Inr (S \<union> run (p, count))"
  using assms
proof (induction count)
  case (Suc n)
  have "run (p, Suc n) = insert (p + n) (run (p, n))" by auto
  with Suc show ?case
    by (auto simp: debug_insert_def fold_res_append)
qed (simp add: debug_insert_def)

section \<open>Freeing into the free map\<close>

text \<open>
  The runs before and after a run that is about to be freed: the freed run lies between
  them, and \<open>lower_bound\<close> finds the border.
\<close>

lemma free_border:
  assumes ok: "free_ok B fm" and count: "0 < count" and disj: "run (p, count) \<inter> pages_of fm = {}"
  obtains xs ys where "fm = xs @ ys" "map_lower_bound p fm = length xs"
    "\<forall>x \<in> set xs. fst x + snd x \<le> p" "\<forall>y \<in> set ys. p + count \<le> fst y"
proof
  let ?it = "map_lower_bound p fm"
  show "fm = take ?it fm @ drop ?it fm" by simp
  show "?it = length (take ?it fm)" by simp
  have pos: "\<forall>x \<in> set fm. 0 < snd x" using ok by (auto simp: free_ok_def)
  have out: "q \<notin> run x" if "x \<in> set fm" "p \<le> q" "q < p + count" for x q
  proof
    assume "q \<in> run x"
    then have "q \<in> run (p, count) \<inter> pages_of fm"
      using that unfolding pages_of_def by auto
    with disj show False by blast
  qed
  show "\<forall>x \<in> set (take ?it fm). fst x + snd x \<le> p"
  proof
    fix x
    assume x: "x \<in> set (take ?it fm)"
    then have "fst x < p" using lower_bound_split(1)[OF free_ok_omap[OF ok], of p] by blast
    with out[of x p] count in_set_takeD[OF x] show "fst x + snd x \<le> p" by simp
  qed
  show "\<forall>y \<in> set (drop ?it fm). p + count \<le> fst y"
  proof
    fix y
    assume y: "y \<in> set (drop ?it fm)"
    then have "p \<le> fst y" using lower_bound_split(2)[OF free_ok_omap[OF ok], of p] by blast
    with out[of y "fst y"] pos in_set_dropD[OF y] show "p + count \<le> fst y" by force
  qed
qed

lemma merge_prev_spec:
  assumes ok: "free_ok B (xs @ ys)" and B: "B < 4294967296" and count: "0 < count" "p + count \<le> B"
    and xs: "\<forall>x \<in> set xs. fst x + snd x \<le> p" and ys: "\<forall>y \<in> set ys. p + count \<le> fst y"
    and it: "xs = [] \<Longrightarrow> it = 0" "xs \<noteq> [] \<Longrightarrow> it = length xs - 1 \<or> (it = length xs \<and> ys \<noteq> [])"
  shows "free_ok B (merge_prev p count (xs @ ys) it) \<and>
    pages_of (merge_prev p count (xs @ ys) it) = pages_of (xs @ ys) \<union> run (p, count)"
proof -
  have pos: "\<forall>x \<in> set xs. 0 < snd x" using ok by (auto simp: free_ok_def)
  have ins: "map_insert p count (xs @ ys) = xs @ (p, count) # ys"
    using xs ys count pos by (intro map_insert_mid) fastforce+
  have okins: "free_ok B (xs @ (p, count) # ys)"
    using ok count xs ys by (auto simp: free_ok_append free_ok_Cons)
  show ?thesis
  proof (cases "it < length (xs @ ys) \<and> u32 (fst ((xs @ ys) ! it) + snd ((xs @ ys) ! it)) = p")
    case False
    then have "merge_prev p count (xs @ ys) it = xs @ (p, count) # ys"
      unfolding merge_prev_def ins by (simp only: if_False)
    then show ?thesis using okins by auto
  next
    case True
    have "it \<noteq> length xs"
    proof
      assume "it = length xs"
      then have mem: "(xs @ ys) ! it \<in> set ys" using True by (auto simp: nth_append)
      then have "p + count \<le> fst ((xs @ ys) ! it)" using ys by blast
      moreover have "fst ((xs @ ys) ! it) + snd ((xs @ ys) ! it) \<le> B"
        using ok mem by (auto simp: free_ok_def)
      ultimately show False using True B count by simp
    qed
    with it have ne: "xs \<noteq> []" and i: "it = length xs - 1" by (cases "xs = []", simp_all)+
    obtain zs q c where z: "xs = zs @ [(q, c)]"
      using ne by (metis append_butlast_last_id surj_pair)
    have nth: "(xs @ ys) ! it = (q, c)" using i z by (simp add: nth_append)
    have qc: "q + c \<le> p" "0 < c" using xs pos z by auto
    then have adj: "q + c = p" using True nth B count by simp
    have upd: "merge_prev p count (xs @ ys) it = zs @ (q, c + count) # ys"
      using True nth i z adj count B by (simp add: merge_prev_def list_update_append)
    have "free_ok B (zs @ (q, c + count) # ys)"
      using ok z adj count ys by (auto simp: free_ok_append free_ok_Cons)
    moreover have "pages_of (zs @ (q, c + count) # ys) = pages_of (xs @ ys) \<union> run (p, count)"
      using z adj by auto
    ultimately show ?thesis using upd by simp
  qed
qed

text \<open>
  What \<open>FreeToMap\<close> does to the free map, on every branch: it adds exactly the freed pages,
  unless the freed run ends where the first run of the map begins.
\<close>

lemma free_map_result:
  assumes ok: "free_ok B fm" and B: "B < 4294967296" and count: "0 < count" "p + count \<le> B"
    and disj: "run (p, count) \<inter> pages_of fm = {}"
  shows "if fm \<noteq> [] \<and> fst (hd fm) = p + count
    then merge_next p count fm = Inl Undefined_behaviour
    else \<exists>count' fm' it. merge_next p count fm = Inr (count', fm', it) \<and>
      free_ok B (merge_prev p count' fm' it) \<and>
      pages_of (merge_prev p count' fm' it) = pages_of fm \<union> run (p, count)"
proof -
  obtain xs ys where fm: "fm = xs @ ys" and it: "map_lower_bound p fm = length xs"
    and xs: "\<forall>x \<in> set xs. fst x + snd x \<le> p" and ys: "\<forall>y \<in> set ys. p + count \<le> fst y"
    using free_border[OF ok count(1) disj] by metis
  have nxt: "u32 (p + count) = p + count" using count B by simp
  show ?thesis
  proof (cases ys)
    case Nil
    have "\<not> (fm \<noteq> [] \<and> fst (hd fm) = p + count)"
      using Nil fm xs count by (cases fm) auto
    moreover have "merge_next p count fm = Inr (count, xs @ [], if xs = [] then 0 else length xs - 1)"
      using Nil fm it by (auto simp: merge_next_def)
    moreover note merge_prev_spec[of B xs "[]" count p "if xs = [] then 0 else length xs - 1"]
    ultimately show ?thesis using Nil ok fm B count xs by auto
  next
    case (Cons y ys')
    obtain q c where y: "y = (q, c)" by force
    have nth: "fm ! length xs = (q, c)" using fm Cons y by simp
    have yq: "p + count \<le> q" using ys Cons y by simp
    show ?thesis
    proof (cases "q = p + count")
      case False
      have "\<not> (fm \<noteq> [] \<and> fst (hd fm) = p + count)"
        using False fm Cons y xs count by (cases xs) auto
      moreover have "merge_next p count fm = Inr (count, xs @ ys, length xs)"
        using False fm it nth nxt Cons by (simp add: merge_next_def)
      moreover note merge_prev_spec[of B xs ys count p "length xs"]
      ultimately show ?thesis using ok fm B count xs ys Cons by auto
    next
      case True
      show ?thesis
      proof (cases "xs = []")
        case True': True
        then show ?thesis using True fm it nth nxt Cons y by (simp add: merge_next_def)
      next
        case False
        have qc: "0 < c" "q + c \<le> B" "\<forall>z \<in> set ys'. q + c \<le> fst z" "free_ok B (xs @ ys')"
          using ok fm Cons y by (auto simp: free_ok_append free_ok_Cons)
        have "\<not> (fm \<noteq> [] \<and> fst (hd fm) = p + count)"
          using False fm xs count by (cases xs) auto
        moreover have "u32 (count + c) = count + c" using True qc(2) B by simp
        then have "merge_next p count fm = Inr (count + c, xs @ ys', length xs - 1)"
          using True False fm it nth nxt Cons y by (simp add: merge_next_def erase_at_append)
        moreover have "pages_of fm \<union> run (p, count) = pages_of (xs @ ys') \<union> run (p, count + c)"
          using fm Cons y True by auto
        moreover have "free_ok B (merge_prev p (count + c) (xs @ ys') (length xs - 1)) \<and>
            pages_of (merge_prev p (count + c) (xs @ ys') (length xs - 1)) =
            pages_of (xs @ ys') \<union> run (p, count + c)"
          using qc True False B count xs
          by (intro merge_prev_spec) (simp_all add: add.assoc)
        ultimately show ?thesis by simp
      qed
    qed
  qed
qed


section \<open>The ownership invariant\<close>

text \<open>
  \<open>limit\<close> is the number of pages of the file as the running transaction sees it. The
  invariant splits the pages below it: those of the free map, those pending until no reader
  needs them, and the pages \<open>L\<close> that some version of the database owns.
\<close>

definition limit :: "'a pager_db_scheme \<Rightarrow> nat" where
  "limit s = (case update_meta s of Some m \<Rightarrow> page_count m | None \<Rightarrow> page_count (db_meta s))"

definition pending_pairs :: "'a pager_db_scheme \<Rightarrow> PagePair list" where
  "pending_pairs s = concat (map snd (pending_map s))"

definition disjoint_runs :: "PagePair list \<Rightarrow> bool" where
  "disjoint_runs xs \<longleftrightarrow> sorted_wrt (\<lambda>x y. run x \<inter> run y = {}) xs"

definition runs_ok :: "nat \<Rightarrow> PagePair list \<Rightarrow> bool" where
  "runs_ok B xs \<longleftrightarrow> disjoint_runs xs \<and> (\<forall>x \<in> set xs. 0 < snd x \<and> fst x + snd x \<le> B)"

definition map_inv :: "'a pager_db_scheme \<Rightarrow> bool" where
  "map_inv s \<longleftrightarrow> free_ok (limit s) (free_map s) \<and> debug_free_set s = pages_of (free_map s) \<and>
     limit s < 4294967296 \<and> omap_ok (pending_map s)"

definition page_inv :: "PageId set \<Rightarrow> 'a pager_db_scheme \<Rightarrow> bool" where
  "page_inv L s \<longleftrightarrow> map_inv s \<and> runs_ok (limit s) (pending_pairs s) \<and>
     pages_of (free_map s) \<inter> pages_of (pending_pairs s) = {} \<and>
     L \<inter> (pages_of (free_map s) \<union> pages_of (pending_pairs s)) = {} \<and> L \<subseteq> {..<limit s}"

definition tx_open :: "'a pager_db_scheme \<Rightarrow> bool" where
  "tx_open s \<longleftrightarrow> update_meta s \<noteq> None"

lemma limit_frame [simp]:
  "limit (s\<lparr>free_map := a\<rparr>) = limit s" "limit (s\<lparr>pending_map := b\<rparr>) = limit s"
  "limit (s\<lparr>alloc_records := c\<rparr>) = limit s" "limit (s\<lparr>debug_free_set := d\<rparr>) = limit s"
  "limit (s\<lparr>map_size := e\<rparr>) = limit s" "limit (s\<lparr>mmap_pending := f\<rparr>) = limit s"
  "limit (s\<lparr>mem := g\<rparr>) = limit s" "limit (s\<lparr>nodes := h\<rparr>) = limit s"
  by (cases "update_meta s"; simp add: limit_def)+

lemma pending_pairs_frame [simp]:
  "pending_pairs (s\<lparr>free_map := a\<rparr>) = pending_pairs s"
  "pending_pairs (s\<lparr>alloc_records := c\<rparr>) = pending_pairs s"
  "pending_pairs (s\<lparr>debug_free_set := d\<rparr>) = pending_pairs s"
  "pending_pairs (s\<lparr>map_size := e\<rparr>) = pending_pairs s"
  "pending_pairs (s\<lparr>mmap_pending := f\<rparr>) = pending_pairs s"
  "pending_pairs (s\<lparr>mem := g\<rparr>) = pending_pairs s"
  "pending_pairs (s\<lparr>nodes := h\<rparr>) = pending_pairs s"
  "pending_pairs (s\<lparr>update_meta := i\<rparr>) = pending_pairs s"
  by (simp_all add: pending_pairs_def)

lemma update_tx_Inr: "update_tx s = Inr m \<longleftrightarrow> update_meta s = Some m"
  by (auto simp: update_tx_def split: option.splits)

lemma runs_ok_simps [simp]:
  "runs_ok B []"
  "runs_ok B (x # xs) \<longleftrightarrow> 0 < snd x \<and> fst x + snd x \<le> B \<and> run x \<inter> pages_of xs = {} \<and> runs_ok B xs"
proof -
  have "run x \<inter> pages_of xs = {} \<longleftrightarrow> (\<forall>y \<in> set xs. run x \<inter> run y = {})"
    unfolding pages_of_def by blast
  then show "runs_ok B (x # xs) \<longleftrightarrow>
      0 < snd x \<and> fst x + snd x \<le> B \<and> run x \<inter> pages_of xs = {} \<and> runs_ok B xs"
    unfolding runs_ok_def disjoint_runs_def sorted_wrt.simps by auto
qed (simp add: runs_ok_def disjoint_runs_def)

lemma runs_ok_append:
  "runs_ok B (xs @ ys) \<longleftrightarrow> runs_ok B xs \<and> runs_ok B ys \<and> pages_of xs \<inter> pages_of ys = {}"
  by (induction xs) auto

lemma runs_ok_mono: "runs_ok B xs \<Longrightarrow> B \<le> C \<Longrightarrow> runs_ok C xs"
  by (fastforce simp: runs_ok_def)

lemma AllocFromMap_cases:
  assumes inv: "map_inv s"
  obtains (none) "AllocFromMap count s = Inr (kPageInvalidId, s)" "\<forall>x \<in> set (free_map s). snd x < count"
  | (fit) p fm where
      "AllocFromMap count s = Inr (p, s\<lparr>free_map := fm, alloc_records := alloc_records s @ [(p, count)],
         debug_free_set := pages_of fm\<rparr>)"
      "run (p, count) \<subseteq> pages_of (free_map s)" "free_ok (limit s) fm" "p < 4294967295"
      "pages_of fm = pages_of (free_map s) - run (p, count)"
      "\<exists>c. (p, c) \<in> set (free_map s) \<and> count \<le> c"
      "\<forall>x \<in> set (free_map s). count \<le> snd x \<longrightarrow> p \<le> fst x"
proof -
  let ?fm = "free_map s"
  have ok: "free_ok (limit s) ?fm" and B: "limit s < 4294967296"
    and dbg: "debug_free_set s = pages_of ?fm"
    using inv by (simp_all add: map_inv_def)
  obtain i where i: "i \<le> length ?fm" "find_fit count ?fm = Inr i" "\<forall>j < i. snd (?fm ! j) < count"
    "i < length ?fm \<longrightarrow> count \<le> snd (?fm ! i)"
    using find_fit_spec[of ?fm count] ok by (auto simp: free_ok_def)
  show thesis
  proof (cases "i < length ?fm")
    case False
    have "\<forall>x \<in> set ?fm. snd x < count"
      using i(1,3) False by (metis in_set_conv_nth le_neq_implies_less)
    moreover have "AllocFromMap count s = Inr (kPageInvalidId, s)"
      using i False by (simp add: AllocFromMap_def)
    ultimately show thesis by (rule none[rotated])
  next
    case True
    obtain p c where pc: "?fm ! i = (p, c)" by force
    have mem: "(p, c) \<in> set ?fm" using True pc by (metis nth_mem)
    then have lim: "p + c \<le> limit s" "0 < c" using ok by (auto simp: free_ok_def)
    have cnt: "count \<le> c" using i True pc by simp
    obtain fm where fm: "take_run count i ?fm = Inr fm" "free_ok (limit s) fm"
      "pages_of fm = pages_of ?fm - run (p, count)"
      using take_run_spec[OF ok B True, of count] cnt pc by auto
    have sub: "run (p, count) \<subseteq> pages_of ?fm"
      using mem cnt by (force simp: pages_of_def)
    have dbg': "debug_erase p count (debug_free_set s) = Inr (pages_of fm)"
      using debug_erase_spec[of p count "limit s" "pages_of ?fm"] lim cnt B sub dbg fm(3) by simp
    have first: "p \<le> fst x" if x: "x \<in> set ?fm" "count \<le> snd x" for x
    proof -
      obtain j where j: "j < length ?fm" "x = ?fm ! j" using x by (auto simp: in_set_conv_nth)
      then have "i \<le> j" using i(3) x by (meson not_less)
      then show ?thesis
      proof (cases "i = j")
        case False
        with \<open>i \<le> j\<close> j ok have "fst (?fm ! i) + snd (?fm ! i) \<le> fst (?fm ! j)"
          using sorted_wrt_nth_less[of "\<lambda>x y. fst x + snd x \<le> fst y" ?fm i j]
          by (simp add: free_ok_def)
        then show ?thesis using pc j by simp
      qed (use pc j in simp)
    qed
    have p: "p < 4294967295" using lim B by simp
    then have "AllocFromMap count s = Inr (p, s\<lparr>free_map := fm,
        alloc_records := alloc_records s @ [(p, count)], debug_free_set := pages_of fm\<rparr>)"
      using i True pc fm(1) dbg' by (simp add: AllocFromMap_def kPageInvalidId_def)
    then show thesis using fit sub fm(2,3) p mem cnt first by blast
  qed
qed

lemma Remmap_frame:
  "Remmap n s = Inr t \<Longrightarrow> \<exists>ms pm mm. t = s\<lparr>map_size := ms, mmap_pending := pm, mem := mm\<rparr>"
  by (auto simp: Remmap_def Let_def bind_res_Inr_iff)

text \<open>
  Every way \<open>Alloc\<close> can return: a run of the free map, or fresh pages at the end of the
  file; nothing else changes but the mapping.
\<close>

lemma Alloc_cases:
  assumes inv: "map_inv s" and alloc: "Alloc count s = Inr (p, t)" and pos: "0 < count" "count < 4294967296"
  obtains (reused) fm where
      "t = s\<lparr>free_map := fm, alloc_records := alloc_records s @ [(p, count)],
             debug_free_set := pages_of fm\<rparr>"
      "run (p, count) \<subseteq> pages_of (free_map s)" "free_ok (limit s) fm"
      "pages_of fm = pages_of (free_map s) - run (p, count)"
      "p < 4294967295" "tx_open s"
      "\<forall>x \<in> set (free_map s). count \<le> snd x \<longrightarrow> p \<le> fst x"
  | (fresh) m ms pm mm where
      "update_meta s = Some m" "p = page_count m" "p + count < 4294967296"
      "t = s\<lparr>update_meta := Some (m\<lparr>page_count := p + count\<rparr>), map_size := ms,
             mmap_pending := pm, mem := mm\<rparr>"
      "\<forall>x \<in> set (free_map s). snd x < count"
proof -
  obtain m where m: "update_meta s = Some m"
    using alloc by (auto simp: Alloc_def bind_res_Inr_iff update_tx_Inr)
  have lim: "limit s = page_count m" using m by (simp add: limit_def)
  have B: "page_count m < 4294967296" using inv lim by (simp add: map_inv_def)
  from inv show thesis
  proof (cases rule: AllocFromMap_cases[of s count])
    case (fit q fm)
    then have "t = s\<lparr>free_map := fm, alloc_records := alloc_records s @ [(q, count)],
        debug_free_set := pages_of fm\<rparr> \<and> p = q"
      using alloc m by (auto simp: Alloc_def update_tx_def kPageInvalidId_def)
    then show thesis using reused fit m by (auto simp: tx_open_def)
  next
    case none
    define c' where "c' = u32 (page_count m + count)"
    define s2 where "s2 = s\<lparr>update_meta := Some (m\<lparr>page_count := c'\<rparr>)\<rparr>"
    have nw: "\<not> c' < page_count m" and p: "p = page_count m"
      and t: "(if u32 (c' * pg_size s) > map_size s2 then Remmap (u32 (c' * pg_size s)) s2 else Inr s2) = Inr t"
      using alloc m none by (auto simp: Alloc_def update_tx_def bind_res_Inr_iff Let_def c'_def s2_def)
    have c': "c' = page_count m + count" "page_count m + count < 4294967296"
    proof -
      show lt: "page_count m + count < 4294967296"
      proof (rule ccontr)
        assume big: "\<not> page_count m + count < 4294967296"
        then have "c' = page_count m + count - 4294967296"
          using B pos by (simp add: c'_def u32_def mod_if)
        then show False using nw pos(2) big by simp
      qed
      then show "c' = page_count m + count" by (simp add: c'_def)
    qed
    obtain ms pm mm where "t = s2\<lparr>map_size := ms, mmap_pending := pm, mem := mm\<rparr>"
    proof (cases "u32 (c' * pg_size s) > map_size s2")
      case True
      then show ?thesis using t Remmap_frame that by fastforce
    next
      case False
      with t have "t = s2\<lparr>map_size := map_size s2, mmap_pending := mmap_pending s2, mem := mem s2\<rparr>"
        by simp
      then show ?thesis by (rule that)
    qed
    then have "t = s\<lparr>update_meta := Some (m\<lparr>page_count := p + count\<rparr>), map_size := ms,
        mmap_pending := pm, mem := mm\<rparr>"
      by (simp only: s2_def c'(1) p)
    moreover have "p + count < 4294967296" using p c'(2) by simp
    ultimately show thesis using fresh[OF m p _ _ none(2)] by blast
  qed
qed


section \<open>The operations keep the invariant\<close>

lemma Alloc_keeps:
  assumes inv: "page_inv L s" and alloc: "Alloc count s = Inr (p, t)"
    and pos: "0 < count" "count < 4294967296"
  shows "page_inv (L \<union> run (p, count)) t" "run (p, count) \<inter> L = {}"
    "run (p, count) \<inter> pages_of (pending_pairs s) = {}" "pending_map t = pending_map s"
    "p < 4294967295" "pages_of (free_map t) = pages_of (free_map s) - run (p, count)"
    "limit s \<le> limit t"
proof -
  have m: "map_inv s" using inv by (simp add: page_inv_def)
  have all: "page_inv (L \<union> run (p, count)) t \<and> run (p, count) \<inter> L = {} \<and>
    run (p, count) \<inter> pages_of (pending_pairs s) = {} \<and> pending_map t = pending_map s \<and>
    p < 4294967295 \<and> pages_of (free_map t) = pages_of (free_map s) - run (p, count) \<and> limit s \<le> limit t"
    using m alloc pos
  proof (cases rule: Alloc_cases)
    case (reused fm)
    have lim: "limit t = limit s" and pend: "pending_pairs t = pending_pairs s"
      using reused(1) by simp_all
    have "run (p, count) \<subseteq> {..<limit s}"
      using reused(2) m pages_of_bound[of "limit s" "free_map s"] by (auto simp: map_inv_def)
    moreover have "map_inv t"
      using reused m lim by (simp add: map_inv_def)
    ultimately show ?thesis
      using inv reused lim pend unfolding page_inv_def by (simp del: pages_of_simps) blast
  next
    case (fresh m ms pm mm)
    have lim: "limit s = p" "limit t = p + count" and pend: "pending_pairs t = pending_pairs s"
      using fresh by (simp add: limit_def, simp add: limit_def, simp)
    have "map_inv t"
      using fresh(3,4) lim \<open>map_inv s\<close> free_ok_mono[of "limit s" "free_map s" "limit t"]
      by (simp add: map_inv_def)
    moreover have "pages_of (free_map s) \<subseteq> {..<p}"
      using pages_of_bound \<open>map_inv s\<close> lim by (auto simp: map_inv_def)
    moreover have "pages_of (pending_pairs s) \<subseteq> {..<p}"
      using inv lim by (force simp: page_inv_def runs_ok_def pages_of_def)
    moreover have "runs_ok (limit t) (pending_pairs s)"
      using inv lim runs_ok_mono[of "limit s" "pending_pairs s" "limit t"] by (simp add: page_inv_def)
    moreover have "free_map t = free_map s" "pending_map t = pending_map s" using fresh(4) by simp_all
    ultimately show ?thesis
      using inv lim pend fresh(3) pos unfolding page_inv_def by fastforce
  qed
  then show "page_inv (L \<union> run (p, count)) t" "run (p, count) \<inter> L = {}"
    "run (p, count) \<inter> pages_of (pending_pairs s) = {}" "pending_map t = pending_map s"
    "p < 4294967295" "pages_of (free_map t) = pages_of (free_map s) - run (p, count)"
    "limit s \<le> limit t"
    by simp_all
qed

text \<open>The pairs of a pending map after one more pair was appended under a key.\<close>

lemma pages_of_pending_assign:
  assumes "omap_ok pm" "d = (case map_of pm t of None \<Rightarrow> [] | Some l \<Rightarrow> l)"
  shows "pages_of (concat (map snd (map_assign t (d @ [x]) pm))) =
    pages_of (concat (map snd pm)) \<union> run x"
  using assms
proof (induction pm)
  case (Cons e pm)
  obtain k l where e: "e = (k, l)" by force
  have nk: "map_of pm t = None" if "t \<le> k"
    using Cons.prems(1) e that by (auto simp: map_of_eq_None_iff)
  show ?case
  proof (cases "k = t")
    case True
    with Cons.prems e show ?thesis by auto
  next
    case False
    show ?thesis
    proof (cases "t < k")
      case True
      with False Cons.prems e nk show ?thesis by auto
    next
      case nlt: False
      with False Cons e show ?thesis by auto
    qed
  qed
qed simp

lemma runs_ok_pending_assign:
  assumes "omap_ok pm" "runs_ok B (concat (map snd pm))" "0 < snd x" "fst x + snd x \<le> B"
    "run x \<inter> pages_of (concat (map snd pm)) = {}"
    "d = (case map_of pm t of None \<Rightarrow> [] | Some l \<Rightarrow> l)"
  shows "runs_ok B (concat (map snd (map_assign t (d @ [x]) pm)))"
  using assms
proof (induction pm)
  case (Cons e pm)
  obtain k l where e: "e = (k, l)" by force
  have nk: "map_of pm t = None" if "t \<le> k"
    using Cons.prems(1) e that by (auto simp: map_of_eq_None_iff)
  consider "t = k" | "t < k" | "k < t" by fastforce
  then show ?case
  proof cases
    case 1
    with Cons.prems e show ?thesis
      by (simp add: runs_ok_append del: Int_atLeastLessThan) blast
  next
    case 2
    with Cons.prems e nk show ?thesis
      by (simp add: runs_ok_append del: Int_atLeastLessThan) blast
  next
    case 3
    then have d: "d = (case map_of pm t of None \<Rightarrow> [] | Some l \<Rightarrow> l)"
      using Cons.prems(6) e by (simp split: if_splits)
    have "pages_of (concat (map snd (map_assign t (d @ [x]) pm))) =
        pages_of (concat (map snd pm)) \<union> run x"
      using pages_of_pending_assign[OF _ d, of x] Cons.prems(1) by simp
    moreover have "runs_ok B (concat (map snd (map_assign t (d @ [x]) pm)))"
    proof (rule Cons.IH)
      show "run x \<inter> pages_of (concat (map snd pm)) = {}" using Cons.prems(5) e by auto
      show "runs_ok B (concat (map snd pm))" using Cons.prems(2) e by (simp add: runs_ok_append)
    qed (use Cons.prems d in simp_all)
    moreover have "runs_ok B l" "pages_of l \<inter> (pages_of (concat (map snd pm)) \<union> run x) = {}"
      using Cons.prems(2,5) e by (auto simp: runs_ok_append)
    moreover have "t \<noteq> k" "\<not> t < k" using 3 by auto
    ultimately show ?thesis using e by (simp add: runs_ok_append)
  qed
qed simp

lemma Free_result:
  "Free p c s = Inr t \<longleftrightarrow> p \<noteq> kPageInvalidId \<and> (\<exists>m. update_meta s = Some m \<and>
     t = s\<lparr>pending_map := map_assign (txid m)
       ((case map_of (pending_map s) (txid m) of None \<Rightarrow> [] | Some l \<Rightarrow> l) @ [(p, c)]) (pending_map s)\<rparr>)"
  by (auto simp: Free_def bind_res_Inr_iff update_tx_Inr)

lemma Free_keeps:
  assumes inv: "page_inv L s" and free: "Free p c s = Inr t" and own: "run (p, c) \<subseteq> L" "0 < c"
  shows "page_inv (L - run (p, c)) t" "pages_of (pending_pairs t) = pages_of (pending_pairs s) \<union> run (p, c)"
    "free_map t = free_map s"
proof -
  obtain m where m: "update_meta s = Some m" and t: "t = s\<lparr>pending_map := map_assign (txid m)
       ((case map_of (pending_map s) (txid m) of None \<Rightarrow> [] | Some l \<Rightarrow> l) @ [(p, c)]) (pending_map s)\<rparr>"
    using free by (auto simp: Free_result)
  have om: "omap_ok (pending_map s)" using inv by (simp add: page_inv_def map_inv_def)
  have lim: "limit t = limit s" by (simp add: t)
  have pe: "p + c \<le> limit s"
  proof -
    have "p + c - 1 \<in> run (p, c)" using own(2) by simp
    then show ?thesis using own inv unfolding page_inv_def by fastforce
  qed
  have disj: "run (p, c) \<inter> pages_of (pending_pairs s) = {}" "run (p, c) \<inter> pages_of (free_map s) = {}"
    using own inv unfolding page_inv_def by blast+
  show pp: "pages_of (pending_pairs t) = pages_of (pending_pairs s) \<union> run (p, c)"
    using pages_of_pending_assign[OF om refl, of "txid m" "(p, c)"] by (simp add: pending_pairs_def t)
  have ro: "runs_ok (limit s) (pending_pairs t)"
    using runs_ok_pending_assign[OF om _ _ _ _ refl, of "limit s" "(p, c)" "txid m"] inv own(2) pe disj(1)
    by (simp add: pending_pairs_def t page_inv_def)
  show fm: "free_map t = free_map s" by (simp add: t)
  have "map_inv t"
    using inv lim omap_ok_map_assign[OF om] by (simp add: page_inv_def map_inv_def t)
  then show "page_inv (L - run (p, c)) t"
    using inv ro lim pp fm disj unfolding page_inv_def by auto
qed

lemma FreeToMap_returns:
  assumes inv: "map_inv s" and c: "0 < c" "p + c \<le> limit s"
    and disj: "run (p, c) \<inter> pages_of (free_map s) = {}"
  shows "if free_map s \<noteq> [] \<and> fst (hd (free_map s)) = p + c
    then FreeToMap p c s = Inl Undefined_behaviour
    else \<exists>fm. FreeToMap p c s = Inr (s\<lparr>free_map := fm, debug_free_set := pages_of fm\<rparr>) \<and>
      free_ok (limit s) fm \<and> pages_of fm = pages_of (free_map s) \<union> run (p, c)"
proof -
  have ok: "free_ok (limit s) (free_map s)" and B: "limit s < 4294967296"
    and dbg: "debug_free_set s = pages_of (free_map s)"
    using inv by (simp_all add: map_inv_def)
  have di: "debug_insert p c (debug_free_set s) = Inr (pages_of (free_map s) \<union> run (p, c))"
    using debug_insert_spec[OF c(2) B] disj dbg by auto
  show ?thesis
  proof (cases "free_map s \<noteq> [] \<and> fst (hd (free_map s)) = p + c")
    case True
    then show ?thesis using free_map_result[OF ok B c disj] di by (simp add: FreeToMap_def)
  next
    case False
    then obtain n fm it where r: "merge_next p c (free_map s) = Inr (n, fm, it)"
      "free_ok (limit s) (merge_prev p n fm it)"
      "pages_of (merge_prev p n fm it) = pages_of (free_map s) \<union> run (p, c)"
      using free_map_result[OF ok B c disj] unfolding if_not_P[OF False] by blast
    then have "FreeToMap p c s = Inr (s\<lparr>free_map := merge_prev p n fm it,
        debug_free_set := pages_of (merge_prev p n fm it)\<rparr>)"
      using di by (simp add: FreeToMap_def)
    then show ?thesis unfolding if_not_P[OF False] using r by blast
  qed
qed

lemma FreeToMap_keeps:
  assumes inv: "map_inv s" and c: "0 < c" "p + c \<le> limit s"
    and disj: "run (p, c) \<inter> pages_of (free_map s) = {}" and free: "FreeToMap p c s = Inr t"
  shows "map_inv t" "pages_of (free_map t) = pages_of (free_map s) \<union> run (p, c)"
    "t = s\<lparr>free_map := free_map t, debug_free_set := debug_free_set t\<rparr>"
proof -
  have ne: "\<not> (free_map s \<noteq> [] \<and> fst (hd (free_map s)) = p + c)"
    using FreeToMap_returns[OF inv c disj] free by (auto simp only: if_True split: if_splits)
  then obtain fm where t: "t = s\<lparr>free_map := fm, debug_free_set := pages_of fm\<rparr>"
    and fm: "free_ok (limit s) fm" "pages_of fm = pages_of (free_map s) \<union> run (p, c)"
    using FreeToMap_returns[OF inv c disj] free unfolding if_not_P[OF ne] by auto
  show "map_inv t" using inv fm(1) by (simp add: map_inv_def t)
  show "pages_of (free_map t) = pages_of (free_map s) \<union> run (p, c)" by (simp add: t fm(2))
  show "t = s\<lparr>free_map := free_map t, debug_free_set := debug_free_set t\<rparr>" by (simp add: t)
qed

lemma free_all_keeps:
  assumes "map_inv s" "runs_ok (limit s) xs" "pages_of xs \<inter> pages_of (free_map s) = {}"
    "fold_res (\<lambda>pc. FreeToMap (fst pc) (snd pc)) xs s = Inr t"
  shows "map_inv t \<and> pages_of (free_map t) = pages_of (free_map s) \<union> pages_of xs \<and>
    t = s\<lparr>free_map := free_map t, debug_free_set := debug_free_set t\<rparr>"
  using assms
proof (induction xs arbitrary: s)
  case (Cons x xs)
  obtain u where u: "FreeToMap (fst x) (snd x) s = Inr u"
    "fold_res (\<lambda>pc. FreeToMap (fst pc) (snd pc)) xs u = Inr t"
    using Cons.prems(4) by (auto simp: bind_res_Inr_iff)
  have x: "0 < snd x" "fst x + snd x \<le> limit s" "run (fst x, snd x) \<inter> pages_of (free_map s) = {}"
    using Cons.prems(2,3) by (simp del: Int_atLeastLessThan, simp del: Int_atLeastLessThan,
      simp add: Int_Un_distrib2 del: Int_atLeastLessThan)
  note k = FreeToMap_keeps[OF Cons.prems(1) x u(1)]
  have lim: "limit u = limit s" by (subst k(3)) simp
  have "map_inv t \<and> pages_of (free_map t) = pages_of (free_map u) \<union> pages_of xs \<and>
      t = u\<lparr>free_map := free_map t, debug_free_set := debug_free_set t\<rparr>"
  proof (rule Cons.IH)
    show "map_inv u" by (rule k(1))
    show "runs_ok (limit u) xs" using Cons.prems(2) lim by simp
    show "pages_of xs \<inter> pages_of (free_map u) = {}"
      using Cons.prems(2,3) k(2) by auto
    show "fold_res (\<lambda>pc. FreeToMap (fst pc) (snd pc)) xs u = Inr t" by (rule u(2))
  qed
  moreover have "u\<lparr>free_map := free_map t, debug_free_set := debug_free_set t\<rparr> =
      s\<lparr>free_map := free_map t, debug_free_set := debug_free_set t\<rparr>"
    by (subst k(3)) simp
  ultimately show ?case using k(2) by auto
qed simp


lemma release_loop_result:
  assumes "map_inv s" "runs_ok (limit s) (concat (map snd pm))" "omap_ok pm"
    "pages_of (concat (map snd pm)) \<inter> pages_of (free_map s) = {}"
    "release_loop r pm s = Inr t"
  shows "map_inv t \<and> pending_map t = filter (\<lambda>e. r \<le> fst e) pm \<and>
    pages_of (free_map t) = pages_of (free_map s) \<union>
      pages_of (concat (map snd (filter (\<lambda>e. fst e < r) pm))) \<and>
    t = s\<lparr>free_map := free_map t, debug_free_set := debug_free_set t, pending_map := pending_map t\<rparr>"
  using assms
proof (induction pm arbitrary: s)
  case Nil
  then have "t = s\<lparr>pending_map := []\<rparr>" by simp
  with Nil.prems(1) show ?case by (simp add: map_inv_def)
next
  case (Cons e pm)
  show ?case
  proof (cases "r \<le> fst e")
    case True
    then have t: "t = s\<lparr>pending_map := e # pm\<rparr>" using Cons.prems(5) by simp
    have ge: "r \<le> fst x" if "x \<in> set pm" for x
      using Cons.prems(3) that True by fastforce
    then have "filter (\<lambda>e. r \<le> fst e) pm = pm" by (simp add: filter_id_conv)
    moreover have "filter (\<lambda>e. fst e < r) pm = []" using ge by (auto simp: filter_empty_conv not_less)
    moreover have "\<not> fst e < r" using True by (simp add: not_less)
    ultimately show ?thesis using True Cons.prems(1,3) by (simp add: map_inv_def t)
  next
    case False
    have lt: "fst e < r" using False by (simp add: not_le)
    obtain u where u: "fold_res (\<lambda>pc. FreeToMap (fst pc) (snd pc)) (snd e) s = Inr u"
      "release_loop r pm u = Inr t"
      using Cons.prems(5) False by (auto simp: bind_res_Inr_iff)
    have ro: "runs_ok (limit s) (snd e)" "runs_ok (limit s) (concat (map snd pm))"
      "pages_of (snd e) \<inter> pages_of (concat (map snd pm)) = {}"
      "pages_of (snd e) \<inter> pages_of (free_map s) = {}"
      using Cons.prems(2,4) by (auto simp: runs_ok_append)
    note k = free_all_keeps[OF Cons.prems(1) ro(1) ro(4) u(1)]
    have lim: "limit u = limit s" by (subst k[THEN conjunct2, THEN conjunct2]) simp
    have ih: "map_inv t \<and> pending_map t = filter (\<lambda>e. r \<le> fst e) pm \<and>
      pages_of (free_map t) = pages_of (free_map u) \<union>
        pages_of (concat (map snd (filter (\<lambda>e. fst e < r) pm))) \<and>
      t = u\<lparr>free_map := free_map t, debug_free_set := debug_free_set t, pending_map := pending_map t\<rparr>"
    proof (rule Cons.IH)
      show "pages_of (concat (map snd pm)) \<inter> pages_of (free_map u) = {}"
        using k Cons.prems(4) ro(3) by auto
    qed (use k lim ro Cons.prems(3) u in auto)
    have "u\<lparr>free_map := free_map t, debug_free_set := debug_free_set t, pending_map := pending_map t\<rparr> =
        s\<lparr>free_map := free_map t, debug_free_set := debug_free_set t, pending_map := pending_map t\<rparr>"
      by (subst k[THEN conjunct2, THEN conjunct2]) simp
    then have "t = s\<lparr>free_map := free_map t, debug_free_set := debug_free_set t,
        pending_map := pending_map t\<rparr>"
      using ih by metis
    moreover have "pages_of (free_map t) = pages_of (free_map s) \<union>
        pages_of (concat (map snd (filter (\<lambda>e. fst e < r) (e # pm))))"
      using ih k lt by (simp add: Un_assoc)
    ultimately show ?thesis using ih False by simp
  qed
qed

lemma pages_of_concat_filter:
  "pages_of (concat (map snd pm)) =
     pages_of (concat (map snd (filter P pm))) \<union> pages_of (concat (map snd (filter (\<lambda>e. \<not> P e) pm)))"
  by (induction pm) auto

lemma runs_ok_concat_filter:
  "runs_ok B (concat (map snd pm)) \<Longrightarrow> runs_ok B (concat (map snd (filter P pm))) \<and>
     pages_of (concat (map snd (filter P pm))) \<inter> pages_of (concat (map snd (filter (\<lambda>e. \<not> P e) pm))) = {}"
proof (induction pm)
  case (Cons e pm)
  then have "pages_of (snd e) \<inter> pages_of (concat (map snd pm)) = {}"
    by (simp add: runs_ok_append)
  then show ?case
    using Cons pages_of_concat_filter[of pm P] by (auto simp: runs_ok_append)
qed simp

lemma Release_keeps:
  assumes inv: "page_inv L s" and rel: "Release r s = Inr t"
  shows "page_inv L t" "pending_map t = filter (\<lambda>e. r \<le> fst e) (pending_map s)"
    "pages_of (free_map t) = pages_of (free_map s) \<union>
       pages_of (concat (map snd (filter (\<lambda>e. fst e < r) (pending_map s))))"
    "alloc_records t = []" "update_meta t = update_meta s" "db_meta t = db_meta s"
proof -
  let ?s = "s\<lparr>alloc_records := []\<rparr>" and ?pm = "pending_map s"
  have m: "map_inv ?s" using inv by (simp add: page_inv_def map_inv_def)
  have pm: "omap_ok ?pm" using inv by (simp add: page_inv_def map_inv_def)
  have r: "map_inv t" "pending_map t = filter (\<lambda>e. r \<le> fst e) ?pm"
    "pages_of (free_map t) = pages_of (free_map s) \<union> pages_of (concat (map snd (filter (\<lambda>e. fst e < r) ?pm)))"
    and t: "t = ?s\<lparr>free_map := free_map t, debug_free_set := debug_free_set t, pending_map := pending_map t\<rparr>"
    using release_loop_result[OF m _ pm, of r t] inv rel
    by (auto simp: Release_def page_inv_def pending_pairs_def Int_commute)
  show "pending_map t = filter (\<lambda>e. r \<le> fst e) (pending_map s)"
    "pages_of (free_map t) = pages_of (free_map s) \<union>
       pages_of (concat (map snd (filter (\<lambda>e. fst e < r) (pending_map s))))"
    by (rule r)+
  show "alloc_records t = []" by (subst t) simp
  show "update_meta t = update_meta s" by (subst t) simp
  show "db_meta t = db_meta s" by (subst t) simp
  have lim: "limit t = limit s" by (subst t) simp
  have ro: "runs_ok (limit s) (concat (map snd ?pm))" using inv by (simp add: page_inv_def pending_pairs_def)
  have neg: "filter (\<lambda>e. \<not> r \<le> fst e) ?pm = filter (\<lambda>e. fst e < r) ?pm" by (simp add: not_le)
  note split = pages_of_concat_filter[of ?pm "\<lambda>e. r \<le> fst e", unfolded neg]
  note parts = runs_ok_concat_filter[OF ro, of "\<lambda>e. r \<le> fst e", unfolded neg]
  show "page_inv L t"
    using r lim parts inv split unfolding page_inv_def pending_pairs_def by auto
qed


section \<open>A transaction and its rollback\<close>

text \<open>
  What a running transaction keeps of the pager it started with: the free pages and the
  pages it took from the free map are together the free pages of the start (\<open>F\<close>), and the
  pending map without its own entry is the one of the start (\<open>P\<close>).
\<close>

definition in_tx :: "PageId set \<Rightarrow> (TxId, PagePair list) omap \<Rightarrow> 'a pager_db_scheme \<Rightarrow> bool" where
  "in_tx F P s \<longleftrightarrow> map_inv s \<and>
     (\<exists>m. update_meta s = Some m \<and> map_erase (txid m) (pending_map s) = P) \<and>
     runs_ok (limit s) (alloc_records s) \<and>
     pages_of (free_map s) \<inter> pages_of (alloc_records s) = {} \<and>
     pages_of (free_map s) \<union> pages_of (alloc_records s) = F"

text \<open>The steps a transaction takes on the pager.\<close>

inductive tx_run :: "'a pager_db_scheme \<Rightarrow> 'a pager_db_scheme \<Rightarrow> bool" where
  start: "tx_run s s"
| alloc: "tx_run s t \<Longrightarrow> 0 < c \<Longrightarrow> c < 4294967296 \<Longrightarrow> Alloc c t = Inr (p, u) \<Longrightarrow> tx_run s u"
| free: "tx_run s t \<Longrightarrow> Free p c t = Inr u \<Longrightarrow> tx_run s u"
| copy: "tx_run s t \<Longrightarrow> Copy p t = Inr (q, u) \<Longrightarrow> tx_run s u"
| wr: "tx_run s t \<Longrightarrow> WriteByBytes p off bs t = Inr u \<Longrightarrow> tx_run s u"
| node: "tx_run s t \<Longrightarrow> tx_run s (t\<lparr>nodes := ns\<rparr>)"

lemma map_erase_assign: "map_erase k (map_assign k v m) = map_erase k m"
  by (induction k v m rule: map_assign.induct) (auto simp: map_erase_def)

lemma in_tx_Alloc:
  assumes inv: "in_tx F P s" and alloc: "Alloc c s = Inr (p, t)" and c: "0 < c" "c < 4294967296"
  shows "in_tx F P t"
proof -
  have m: "map_inv s" using inv by (simp add: in_tx_def)
  from m alloc c show ?thesis
  proof (cases rule: Alloc_cases)
    case (reused fm)
    have "map_inv t" using m reused by (simp add: map_inv_def)
    moreover have "p + c \<le> limit s"
    proof -
      have "p + c - 1 \<in> pages_of (free_map s)" using reused(2) c by auto
      then show ?thesis using m pages_of_bound c by (fastforce simp: map_inv_def)
    qed
    moreover have "runs_ok (limit s) (alloc_records s @ [(p, c)])"
      using inv reused(2) c \<open>p + c \<le> limit s\<close> unfolding in_tx_def runs_ok_append by auto
    ultimately show ?thesis
      using inv reused(1,2,4) unfolding in_tx_def by auto
  next
    case (fresh m ms pm mm)
    have lim: "limit s = p" "limit t = p + c"
      using fresh by (simp add: limit_def, simp add: limit_def)
    have "map_inv t"
      using fresh(3,4) lim \<open>map_inv s\<close> free_ok_mono[of "limit s" "free_map s" "limit t"]
      by (simp add: map_inv_def)
    moreover have "runs_ok (limit t) (alloc_records s)"
      using inv lim runs_ok_mono[of "limit s" "alloc_records s" "limit t"] by (simp add: in_tx_def)
    moreover have "free_map t = free_map s" "alloc_records t = alloc_records s"
      "pending_map t = pending_map s" "update_meta t = Some (m\<lparr>page_count := p + c\<rparr>)"
      by (simp_all add: fresh(4))
    ultimately show ?thesis using inv fresh(1) unfolding in_tx_def by simp
  qed
qed

lemma in_tx_Free: "in_tx F P s \<Longrightarrow> Free p c s = Inr t \<Longrightarrow> in_tx F P t"
  by (auto simp: Free_result in_tx_def map_inv_def map_erase_assign omap_ok_map_assign)

lemma in_tx_frame [simp]:
  "in_tx F P (s\<lparr>mem := mm\<rparr>) = in_tx F P s" "in_tx F P (s\<lparr>nodes := ns\<rparr>) = in_tx F P s"
  by (simp_all add: in_tx_def map_inv_def)

lemma Copy_result:
  assumes "Copy p s = Inr (q, t)"
  obtains u mm where "Alloc 1 s = Inr (q, u)" "q < kPageMaxCount"
    "mm = mem_copy (mem u) (GetPtr q 0 u) (mem u) (GetPtr p 0 u) (pg_size u)"
    "Free p 1 (u\<lparr>mem := mm, nodes := (nodes u)(q := nodes u p)\<rparr>) = Inr t"
  using assms by (auto simp: Copy_def Reference_def Let_def bind_res_Inr_iff)

lemma in_tx_Copy:
  assumes inv: "in_tx F P s" and copy: "Copy p s = Inr (q, t)"
  shows "in_tx F P t"
  using copy
proof (cases rule: Copy_result)
  case (1 u mm)
  have "in_tx F P u" by (rule in_tx_Alloc[OF inv 1(1)]) simp_all
  then show ?thesis using 1(4) by (intro in_tx_Free[OF _ 1(4)]) simp
qed

lemma in_tx_run: "tx_run s t \<Longrightarrow> in_tx F P s \<Longrightarrow> in_tx F P t"
proof (induction rule: tx_run.induct)
  case (wr s t p off bs u)
  then show ?case by (auto simp: WriteByBytes_def split: if_splits)
qed (auto intro: in_tx_Alloc in_tx_Free in_tx_Copy)

lemma Rollback_result:
  assumes inv: "in_tx F P s" and rb: "Rollback s = Inr t"
  shows "pages_of (free_map t) = F" "pending_map t = P" "alloc_records t = []" "map_inv t"
proof -
  obtain m where m: "update_meta s = Some m" "map_erase (txid m) (pending_map s) = P"
    using inv by (auto simp: in_tx_def)
  let ?s = "s\<lparr>pending_map := P\<rparr>"
  obtain u where u: "fold_res (\<lambda>pc. FreeToMap (fst pc) (snd pc)) (alloc_records s) ?s = Inr u"
    and t: "t = u\<lparr>alloc_records := []\<rparr>"
    using rb m by (auto simp: Rollback_def bind_res_Inr_iff update_tx_Inr)
  have ms: "map_inv ?s" using inv m omap_ok_map_erase[of "pending_map s" "txid m"]
    by (auto simp: in_tx_def map_inv_def)
  have k: "map_inv u \<and> pages_of (free_map u) = pages_of (free_map s) \<union> pages_of (alloc_records s) \<and>
      u = ?s\<lparr>free_map := free_map u, debug_free_set := debug_free_set u\<rparr>"
    using free_all_keeps[OF ms _ _ u] inv by (auto simp: in_tx_def Int_commute)
  show "pages_of (free_map t) = F" using k t inv by (simp add: in_tx_def)
  show "pending_map t = P" unfolding t by (subst k[THEN conjunct2, THEN conjunct2]) simp
  show "alloc_records t = []" by (simp add: t)
  show "map_inv t" using k by (simp add: t map_inv_def)
qed


section \<open>The contract of the allocator\<close>

text \<open>
  What the tree relies on: a run it gets is disjoint from every page it owns, and a run it
  gives back is not handed out again while the transaction runs.
\<close>

locale page_allocator =
  fixes inv :: "PageId set \<Rightarrow> 's \<Rightarrow> bool"
    and alloc :: "PageCount \<Rightarrow> 's \<Rightarrow> (PageId \<times> 's) res"
    and release :: "PageId \<Rightarrow> PageCount \<Rightarrow> 's \<Rightarrow> 's res"
    and deferred :: "'s \<Rightarrow> PageId set"
  assumes alloc_fresh: "inv L s \<Longrightarrow> 0 < n \<Longrightarrow> n < 4294967296 \<Longrightarrow> alloc n s = Inr (p, t) \<Longrightarrow>
      {p..<p + n} \<inter> L = {} \<and> {p..<p + n} \<inter> deferred s = {} \<and> inv (L \<union> {p..<p + n}) t \<and> deferred t = deferred s"
    and release_owned: "inv L s \<Longrightarrow> 0 < n \<Longrightarrow> {p..<p + n} \<subseteq> L \<Longrightarrow> release p n s = Inr t \<Longrightarrow>
      inv (L - {p..<p + n}) t \<and> deferred t = deferred s \<union> {p..<p + n}"
begin

lemma two_allocs_disjoint:
  assumes "inv L s" "0 < n" "n < 4294967296" "0 < k" "k < 4294967296"
    and "alloc n s = Inr (p, t)" "alloc k t = Inr (q, u)"
  shows "{p..<p + n} \<inter> {q..<q + k} = {}" "inv (L \<union> {p..<p + n} \<union> {q..<q + k}) u"
proof -
  have 1: "inv (L \<union> {p..<p + n}) t" using alloc_fresh[OF assms(1-3,6)] by blast
  then have 2: "{q..<q + k} \<inter> (L \<union> {p..<p + n}) = {}" "inv (L \<union> {p..<p + n} \<union> {q..<q + k}) u"
    using alloc_fresh[OF 1 assms(4,5,7)] by blast+
  show "{p..<p + n} \<inter> {q..<q + k} = {}" using 2(1) by blast
  show "inv (L \<union> {p..<p + n} \<union> {q..<q + k}) u" by (rule 2(2))
qed

lemma released_not_reused:
  assumes "inv L s" "0 < n" "{p..<p + n} \<subseteq> L" "release p n s = Inr t"
    and "0 < k" "k < 4294967296" "alloc k t = Inr (q, u)"
  shows "{q..<q + k} \<inter> {p..<p + n} = {}"
proof -
  have 1: "inv (L - {p..<p + n}) t" "{p..<p + n} \<subseteq> deferred t"
    using release_owned[OF assms(1-4)] by blast+
  show ?thesis using alloc_fresh[OF 1(1) assms(5-7)] 1(2) by blast
qed

end

interpretation pager: page_allocator page_inv Alloc Free "\<lambda>s. pages_of (pending_pairs s)"
proof (unfold_locales, goal_cases)
  case (1 L s n p t)
  note k = Alloc_keeps[OF 1(1,4,2,3)]
  then show ?case by (auto simp: pending_pairs_def)
next
  case (2 L s n p t)
  note k = Free_keeps[OF 2(1,4)]
  then show ?case using 2(2,3) by simp
qed

end
