(* ===== verification/Atomkv_Pager_Props.thy ===== *)
theory Atomkv_Pager_Props
  imports Atomkv_Pager
begin

text \<open>
  The properties of the pager: what allocation, freeing, release and rollback guarantee, the
  round trip of the free list on disk, the byte accesses, the growth of the mapping, and the
  places where the code departs from what it means to do.
\<close>

section \<open>Lemmas on the free list\<close>

lemma page_inv_update_meta:
  "page_count m = limit s \<Longrightarrow> page_inv L (s\<lparr>update_meta := Some m\<rparr>) = page_inv L s"
  by (simp add: page_inv_def map_inv_def limit_def)

lemma page_inv_mem [simp]: "page_inv L (s\<lparr>mem := mm\<rparr>) = page_inv L s"
  by (simp add: page_inv_def map_inv_def)

lemma page_inv_nodes [simp]: "page_inv L (s\<lparr>nodes := ns\<rparr>) = page_inv L s"
  by (simp add: page_inv_def map_inv_def)

lemma free_ok_runs_ok: "free_ok B fm \<Longrightarrow> runs_ok B fm"
proof (induction fm)
  case (Cons x fm)
  then have "run x \<inter> pages_of fm = {}"
    by (force simp: free_ok_Cons pages_of_def)
  with Cons show ?case by (simp add: free_ok_Cons)
qed simp

lemma finite_pages_of [simp]: "finite (pages_of xs)"
  by (simp add: pages_of_def)

lemma runs_ok_bound: "runs_ok B xs \<Longrightarrow> pages_of xs \<subseteq> {..<B}"
  by (force simp: runs_ok_def pages_of_def)

lemma runs_ok_length: "runs_ok B xs \<Longrightarrow> length xs \<le> B"
proof -
  assume ro: "runs_ok B xs"
  then have "length xs \<le> card (pages_of xs)"
  proof (induction xs)
    case (Cons x xs)
    then have "card (pages_of (x # xs)) = snd x + card (pages_of xs)"
      by (simp add: card_Un_disjoint)
    with Cons show ?case by simp
  qed simp
  also have "\<dots> \<le> card {..<B}" by (rule card_mono) (use runs_ok_bound[OF ro] in auto)
  finally show ?thesis by simp
qed

lemma length_pair_bytes [simp]: "length (pair_bytes x) = 8"
  by (simp add: pair_bytes_def)

lemma pair_of_pair_bytes: "fst x < 4294967296 \<Longrightarrow> snd x < 4294967296 \<Longrightarrow> pair_of_bytes (pair_bytes x) = x"
  by (cases x) (simp add: pair_of_bytes_def pair_bytes_def)

lemma length_concat_pair_bytes [simp]: "length (concat (map pair_bytes ps)) = 8 * length ps"
  by (induction ps) simp_all

lemma nth_pair_in_buffer:
  "i < length ps \<Longrightarrow> take 8 (drop (8 * i) (concat (map pair_bytes ps))) = pair_bytes (ps ! i)"
proof (induction ps arbitrary: i)
  case (Cons x ps)
  then show ?case by (cases i) simp_all
qed simp

definition load_pair :: "PagePair \<Rightarrow> 'a pager_db_scheme \<Rightarrow> 'a pager_db_scheme res" where
  "load_pair pc t = (if snd pc = 0 then Inr t else FreeToMap (fst pc) (snd pc) t)"

lemma FreeToMap_frame:
  "FreeToMap p c s = Inr t \<Longrightarrow> mem t = mem s \<and> pg_size t = pg_size s \<and> map_size t = map_size s"
  by (auto simp: FreeToMap_def bind_res_Inr_iff)

text \<open>Reading the list back is a loop over the pairs that were written.\<close>

lemma LoadFreeList_loop:
  assumes rd: "mem_read (mem s) (GetPtr (free_list_pgid m) 0 s) (8 * n) = concat (map pair_bytes ps)"
    and n: "length ps = n" "GetPtr (free_list_pgid m) 0 s + 8 * n \<le> map_size s"
    and b: "\<forall>x \<in> set ps. fst x < 4294967296 \<and> snd x < 4294967296"
    and m: "db_meta s = m" "free_list_pgid m \<noteq> kPageInvalidId" "free_pair_count m = n"
  shows "LoadFreeList s = fold_res load_pair ps s"
proof -
  let ?body = "\<lambda>i t. bind_res (ReadBytes (free_list_pgid m) (i * 8) 8 t) (\<lambda>bs.
             let pc = pair_of_bytes bs
             in if snd pc = 0 then Inr t else FreeToMap (fst pc) (snd pc) t)"
  have frame: "mem t = mem s \<and> pg_size t = pg_size s \<and> map_size t = map_size s"
    if "fold_res load_pair xs s = Inr t" for xs t
    by (rule fold_res_invariant[OF that]) (auto simp: load_pair_def dest: FreeToMap_frame split: if_splits)
  have step: "?body i t = load_pair (ps ! i) t"
    if i: "i < n" and t: "mem t = mem s \<and> pg_size t = pg_size s \<and> map_size t = map_size s" for i t
  proof -
    let ?a = "GetPtr (free_list_pgid m) 0 s"
    have "mem_read (mem s) (?a + 8 * i) 8 = take 8 (drop (8 * i) (mem_read (mem s) ?a (8 * n)))"
    proof -
      have "8 * n = 8 * i + (8 + 8 * (n - i - 1))" using i by simp
      then have "mem_read (mem s) ?a (8 * n) =
          mem_read (mem s) ?a (8 * i) @ mem_read (mem s) (?a + 8 * i) (8 + 8 * (n - i - 1))"
        by (metis mem_read_append)
      then show ?thesis by (simp add: take_mem_read)
    qed
    also have "\<dots> = pair_bytes (ps ! i)" using i n rd by (simp add: nth_pair_in_buffer)
    finally have r: "mem_read (mem s) (?a + 8 * i) 8 = pair_bytes (ps ! i)" .
    have "ReadBytes (free_list_pgid m) (i * 8) 8 t = Inr (pair_bytes (ps ! i))"
      using i n t r by (simp add: ReadBytes_def GetPtr_def mult.commute)
    moreover have "ps ! i \<in> set ps" using i n by simp
    then have "pair_of_bytes (pair_bytes (ps ! i)) = ps ! i"
      using b by (intro pair_of_pair_bytes) auto
    ultimately show ?thesis by (simp add: load_pair_def Let_def)
  qed
  have "fold_res ?body [0..<k] s = fold_res load_pair (take k ps) s" if "k \<le> n" for k
    using that
  proof (induction k)
    case (Suc k)
    then have k: "k < n" by simp
    have "fold_res ?body [k] t = fold_res load_pair [ps ! k] t"
      if "fold_res load_pair (take k ps) s = Inr t" for t
      using step[OF k frame[OF that]] by (simp only: fold_res_single)
    then have "bind_res (fold_res load_pair (take k ps) s) (fold_res ?body [k]) =
        bind_res (fold_res load_pair (take k ps) s) (fold_res load_pair [ps ! k])"
      by (intro bind_res_cong refl)
    with Suc k n(1) show ?case
      by (simp only: fold_res_append take_Suc_conv_app_nth upt_Suc_append Suc_leD)
  qed simp
  from this[of n] show ?thesis using n m by (simp add: LoadFreeList_def)
qed


text \<open>What a successful \<open>SaveFreeList\<close> leaves: the pairs in the file and their place in the meta.\<close>

definition saved_pairs :: "'a pager_db_scheme \<Rightarrow> PagePair list" where
  "saved_pairs s = free_map s @ pending_pairs s"

lemma list_pages_bounds:
  assumes "0 < n" "n < 4294967296" "256 \<le> (ps :: nat)"
  shows "0 < n * 8 div ps + (if n * 8 mod ps = 0 then 0 else 1)"
    "n * 8 div ps + (if n * 8 mod ps = 0 then 0 else 1) < 4294967296"
proof -
  show "0 < n * 8 div ps + (if n * 8 mod ps = 0 then 0 else 1)"
    using assms by (auto simp: div_greater_zero_iff mod_if split: if_splits)
  have "n * 8 div ps \<le> n * 8 div 256" using assms(3) by (intro div_le_mono2) auto
  also have "\<dots> < 4294967295" using assms(2) by simp
  finally show "n * 8 div ps + (if n * 8 mod ps = 0 then 0 else 1) < 4294967296" by simp
qed

lemma page_inv_saved_pairs:
  assumes "page_inv L s"
  shows "runs_ok (limit s) (saved_pairs s)" "length (saved_pairs s) < 4294967296"
proof -
  show ro: "runs_ok (limit s) (saved_pairs s)"
    using assms free_ok_runs_ok by (auto simp: saved_pairs_def runs_ok_append page_inv_def map_inv_def)
  show "length (saved_pairs s) < 4294967296"
    using runs_ok_length[OF ro] assms by (simp add: page_inv_def map_inv_def)
qed

lemma SaveFreeList_result:
  assumes inv: "page_inv L s" and m: "update_meta s = Some m"
    and old: "free_list_pgid m \<noteq> kPageInvalidId \<longrightarrow> 0 < free_list_page_count m \<and>
      run (free_list_pgid m, free_list_page_count m) \<subseteq> L"
    and ps: "256 \<le> pg_size s" and ne: "0 < length (saved_pairs s)"
    and save: "SaveFreeList s = Inr t"
  obtains m' L' where "update_meta t = Some m'" "page_inv L' t" "L \<union> pages_of (saved_pairs s) \<subseteq> L' \<union> pages_of (saved_pairs t)"
    "run (free_list_pgid m', free_list_page_count m') \<subseteq> L'" "free_list_pgid m' \<noteq> kPageInvalidId"
    "free_pair_count m' = length (saved_pairs t)" "free_list_pgid m' < 4294967296"
    "mem_read (mem t) (GetPtr (free_list_pgid m') 0 t) (8 * length (saved_pairs t)) =
       concat (map pair_bytes (saved_pairs t))"
    "GetPtr (free_list_pgid m') 0 t + 8 * length (saved_pairs t) \<le> map_size t"
proof -
  obtain s1 where s1: "(if free_list_pgid m \<noteq> kPageInvalidId
      then Free (free_list_pgid m) (free_list_page_count m) s else Inr s) = Inr s1"
    using save m by (auto simp: SaveFreeList_def bind_res_Inr_iff update_tx_Inr)
  obtain L1 where inv1: "page_inv L1 s1" and L1: "L \<union> pages_of (saved_pairs s) \<subseteq> L1 \<union> pages_of (saved_pairs s1)"
    and um1: "update_meta s1 = Some m" and pg1: "pg_size s1 = pg_size s"
    and ne1: "0 < length (saved_pairs s1)"
  proof (cases "free_list_pgid m = kPageInvalidId")
    case True
    then have "s1 = s" using s1 by simp
    then show ?thesis using that[of L] inv m ne by auto
  next
    case False
    let ?p = "free_list_pgid m" and ?c = "free_list_page_count m"
    have fr: "Free ?p ?c s = Inr s1" and own: "run (?p, ?c) \<subseteq> L" "0 < ?c"
      using s1 False old by auto
    note k = Free_keeps[OF inv fr own]
    have "update_meta s1 = Some m" "pg_size s1 = pg_size s" using fr m by (auto simp: Free_result)
    moreover have "?p \<in> pages_of (saved_pairs s1)"
      using k own(2) by (auto simp: saved_pairs_def)
    then have "0 < length (saved_pairs s1)" by (cases "saved_pairs s1") auto
    moreover have "L \<union> pages_of (saved_pairs s) \<subseteq> (L - run (?p, ?c)) \<union> pages_of (saved_pairs s1)"
      using k(2,3) by (auto simp: saved_pairs_def)
    ultimately show ?thesis using that k(1) by blast
  qed
  define n where "n = length (saved_pairs s1)"
  define lp where "lp = n * 8 div pg_size s1 + (if n * 8 mod pg_size s1 = 0 then 0 else 1)"
  have n: "0 < n" "n < 4294967296" using ne1 page_inv_saved_pairs[OF inv1] by (simp_all add: n_def)
  have lp: "0 < lp" "lp < 4294967296"
    using list_pages_bounds[OF n] ps pg1 by (simp_all add: lp_def)
  have len: "length (free_map s1) + sum_list (map (length \<circ> snd) (pending_map s1)) = n"
    by (simp add: n_def saved_pairs_def pending_pairs_def length_concat comp_def)
  let ?s2 = "s1\<lparr>update_meta := Some (m\<lparr>free_list_page_count := lp\<rparr>)\<rparr>"
  obtain pgid s3 m3 where a: "Alloc lp ?s2 = Inr (pgid, s3)" and m3: "update_meta s3 = Some m3"
    and w: "WriteByBytes pgid 0 (concat (map pair_bytes (saved_pairs s3)))
      (s3\<lparr>update_meta := Some (m3\<lparr>free_list_pgid := pgid, free_pair_count := u32 (length (saved_pairs s3))\<rparr>)\<rparr>) = Inr t"
    using save m s1 n lp
    by (auto simp: SaveFreeList_def bind_res_Inr_iff update_tx_Inr Let_def len lp_def
        saved_pairs_def pending_pairs_def split: if_splits)
  have inv2: "page_inv L1 ?s2"
    using inv1 um1 by (subst page_inv_update_meta) (simp_all add: limit_def)
  note k = Alloc_keeps[OF inv2 a lp]
  have flpc: "free_list_page_count m3 = lp"
    using inv2 a lp m3 by (cases rule: Alloc_cases[OF _ a lp]) (auto simp: page_inv_def)
  define L' where "L' = L1 \<union> run (pgid, lp)"
  define m' where "m' = m3\<lparr>free_list_pgid := pgid, free_pair_count := u32 (length (saved_pairs s3))\<rparr>"
  have inv3: "page_inv L' s3" using k(1) by (simp add: L'_def)
  have len3: "u32 (length (saved_pairs s3)) = length (saved_pairs s3)"
    using page_inv_saved_pairs(2)[OF inv3] by simp
  have t: "t = s3\<lparr>update_meta := Some m',
      mem := mem_write (mem s3) (GetPtr pgid 0 s3) (concat (map pair_bytes (saved_pairs s3)))\<rparr>"
    and bd: "GetPtr pgid 0 s3 + 8 * length (saved_pairs s3) \<le> map_size s3"
    using w by (auto simp: WriteByBytes_def GetPtr_def m'_def split: if_splits)
  have sp: "saved_pairs t = saved_pairs s3" by (simp add: t saved_pairs_def)
  have gp: "GetPtr pgid 0 t = GetPtr pgid 0 s3" by (simp add: t GetPtr_def)
  show thesis
  proof (rule that[of m' L'])
    show "update_meta t = Some m'" by (simp add: t)
    have "page_count m' = limit s3" using m3 by (simp add: m'_def limit_def)
    then show "page_inv L' t" using inv3 by (simp add: t page_inv_update_meta)
    show "L \<union> pages_of (saved_pairs s) \<subseteq> L' \<union> pages_of (saved_pairs t)"
      using L1 k(4,6) unfolding sp by (auto simp: L'_def saved_pairs_def pending_pairs_def)
    show "run (free_list_pgid m', free_list_page_count m') \<subseteq> L'"
      using flpc by (auto simp: m'_def L'_def)
    show "free_list_pgid m' \<noteq> kPageInvalidId" "free_list_pgid m' < 4294967296"
      using k(5) by (simp_all add: m'_def kPageInvalidId_def)
    show "free_pair_count m' = length (saved_pairs t)" by (simp add: m'_def sp len3)
    show "mem_read (mem t) (GetPtr (free_list_pgid m') 0 t) (8 * length (saved_pairs t)) =
        concat (map pair_bytes (saved_pairs t))"
      using gp sp by (simp add: m'_def) (simp add: t)
    show "GetPtr (free_list_pgid m') 0 t + 8 * length (saved_pairs t) \<le> map_size t"
      using bd gp sp by (simp add: m'_def) (simp add: t)
  qed
qed


section \<open>Pages a transaction leaves alone\<close>

text \<open>
  The pages \<open>X\<close> are outside what the allocator may hand out: not free, and below the end of
  the file.
\<close>

definition avoids :: "PageId set \<Rightarrow> 'a pager_db_scheme \<Rightarrow> bool" where
  "avoids X s \<longleftrightarrow> map_inv s \<and> X \<subseteq> {..<limit s} \<and> X \<inter> pages_of (free_map s) = {}"

lemma avoids_frame [simp]:
  "avoids X (s\<lparr>mem := mm\<rparr>) = avoids X s" "avoids X (s\<lparr>nodes := ns\<rparr>) = avoids X s"
  by (simp_all add: avoids_def map_inv_def)

lemma avoids_Alloc:
  assumes av: "avoids X s" and a: "Alloc c s = Inr (p, t)" and c: "0 < c" "c < 4294967296"
  shows "avoids X t" "run (p, c) \<inter> X = {}"
proof -
  have m: "map_inv s" using av by (simp add: avoids_def)
  have "avoids X t \<and> run (p, c) \<inter> X = {}" using m a c
  proof (cases rule: Alloc_cases)
    case (reused fm)
    then have "map_inv t" using m by (simp add: map_inv_def)
    then show ?thesis using reused av by (auto simp: avoids_def)
  next
    case (fresh m ms pm mm)
    have lim: "limit s = p" "limit t = p + c" using fresh by (simp add: limit_def, simp add: limit_def)
    have "map_inv t" using fresh(3,4) lim \<open>map_inv s\<close> free_ok_mono[of "limit s" "free_map s" "limit t"]
      by (simp add: map_inv_def)
    then show ?thesis using fresh(4) lim av by (auto simp: avoids_def)
  qed
  then show "avoids X t" "run (p, c) \<inter> X = {}" by simp_all
qed

lemma avoids_Free: "avoids X s \<Longrightarrow> Free p c s = Inr t \<Longrightarrow> avoids X t"
  by (auto simp: Free_result avoids_def map_inv_def omap_ok_map_assign)

lemma avoids_Copy: "avoids X s \<Longrightarrow> Copy p s = Inr (q, t) \<Longrightarrow> avoids X t"
proof (erule Copy_result)
  fix u mm assume av: "avoids X s" and a: "Alloc 1 s = Inr (q, u)"
    and f: "Free p 1 (u\<lparr>mem := mm, nodes := (nodes u)(q := nodes u p)\<rparr>) = Inr t"
  have "avoids X u" by (rule avoids_Alloc(1)[OF av a]) simp_all
  then show ?thesis by (intro avoids_Free[OF _ f]) simp
qed

lemma avoids_tx_run: "tx_run s t \<Longrightarrow> avoids X s \<Longrightarrow> avoids X t"
proof (induction rule: tx_run.induct)
  case (wr s t p off bs u)
  then show ?case by (auto simp: WriteByBytes_def split: if_splits)
qed (auto intro: avoids_Alloc avoids_Free avoids_Copy)

lemma page_inv_avoids: "page_inv L s \<Longrightarrow> avoids (L \<union> pages_of (pending_pairs s)) s"
proof -
  assume "page_inv L s"
  then show ?thesis using runs_ok_bound[of "limit s" "pending_pairs s"]
    by (auto simp: page_inv_def avoids_def)
qed


section \<open>Freeing a whole list of runs\<close>

text \<open>
  Freeing the runs one after the other, it is undefined as soon as one of them ends where
  the lowest free page of that moment is.
\<close>

fun clash :: "PageId set \<Rightarrow> PagePair list \<Rightarrow> bool" where
  "clash F [] = False"
| "clash F (x # xs) = (F \<noteq> {} \<and> fst x + snd x = Min F \<or> clash (F \<union> run x) xs)"

lemma first_free_page:
  assumes "free_ok B fm"
  shows "pages_of fm = {} \<longleftrightarrow> fm = []" "fm \<noteq> [] \<Longrightarrow> Min (pages_of fm) = fst (hd fm)"
proof -
  have h: "fst (hd fm) \<in> pages_of fm \<and> (\<forall>q \<in> pages_of fm. fst (hd fm) \<le> q)" if "fm \<noteq> []"
    using assms that by (cases fm) (fastforce simp: free_ok_Cons pages_of_def)+
  then show "pages_of fm = {} \<longleftrightarrow> fm = []" by auto
  show "Min (pages_of fm) = fst (hd fm)" if n: "fm \<noteq> []"
    using h[OF n] by (intro Min_eqI) (auto simp: pages_of_def)
qed

lemma free_all_exact:
  assumes "map_inv s" "runs_ok (limit s) xs" "pages_of xs \<inter> pages_of (free_map s) = {}"
  shows "if clash (pages_of (free_map s)) xs
    then fold_res (\<lambda>pc. FreeToMap (fst pc) (snd pc)) xs s = Inl Undefined_behaviour
    else \<exists>t. fold_res (\<lambda>pc. FreeToMap (fst pc) (snd pc)) xs s = Inr t"
  using assms
proof (induction xs arbitrary: s)
  case (Cons x xs)
  have x: "0 < snd x" "fst x + snd x \<le> limit s" "run (fst x, snd x) \<inter> pages_of (free_map s) = {}"
    using Cons.prems(2,3) by (simp del: Int_atLeastLessThan, simp del: Int_atLeastLessThan,
      simp add: Int_Un_distrib2 del: Int_atLeastLessThan)
  have ok: "free_ok (limit s) (free_map s)" using Cons.prems(1) by (simp add: map_inv_def)
  note out = FreeToMap_returns[OF Cons.prems(1) x] and fp = first_free_page[OF ok]
  show ?case
  proof (cases "free_map s \<noteq> [] \<and> fst (hd (free_map s)) = fst x + snd x")
    case True
    then have "FreeToMap (fst x) (snd x) s = Inl Undefined_behaviour" using out by simp
    moreover have "clash (pages_of (free_map s)) (x # xs)" using True fp by simp
    ultimately show ?thesis by simp
  next
    case False
    then obtain u where u: "FreeToMap (fst x) (snd x) s = Inr u" using out unfolding if_not_P[OF False] by blast
    note k = FreeToMap_keeps[OF Cons.prems(1) x u]
    have lim: "limit u = limit s" by (subst k(3)) simp
    have pg: "pages_of (free_map u) = pages_of (free_map s) \<union> run x" using k(2) by simp
    have c: "clash (pages_of (free_map s)) (x # xs) = clash (pages_of (free_map u)) xs"
      using False fp unfolding pg by auto
    have "pages_of xs \<inter> pages_of (free_map u) = {}" using Cons.prems(2,3) k(2) by auto
    then show ?thesis using Cons.IH[OF k(1)] Cons.prems(2) lim u unfolding c by simp
  qed
qed simp

lemma free_all_outcome:
  assumes "map_inv s" "runs_ok (limit s) xs" "pages_of xs \<inter> pages_of (free_map s) = {}"
  shows "fold_res (\<lambda>pc. FreeToMap (fst pc) (snd pc)) xs s = Inl Undefined_behaviour \<or>
    (\<exists>t. fold_res (\<lambda>pc. FreeToMap (fst pc) (snd pc)) xs s = Inr t)"
  using free_all_exact[OF assms] by (cases "clash (pages_of (free_map s)) xs") simp_all

text \<open>With a free page below all of them it succeeds.\<close>

lemma free_all_returns:
  assumes "map_inv s" "runs_ok (limit s) xs" "pages_of xs \<inter> pages_of (free_map s) = {}"
    "q \<in> pages_of (free_map s)" "\<forall>x \<in> set xs. q < fst x"
  shows "\<exists>t. fold_res (\<lambda>pc. FreeToMap (fst pc) (snd pc)) xs s = Inr t"
  using assms
proof (induction xs arbitrary: s)
  case (Cons x xs)
  have x: "0 < snd x" "fst x + snd x \<le> limit s" "run (fst x, snd x) \<inter> pages_of (free_map s) = {}"
    using Cons.prems(2,3) by (simp del: Int_atLeastLessThan, simp del: Int_atLeastLessThan,
      simp add: Int_Un_distrib2 del: Int_atLeastLessThan)
  have "fst (hd (free_map s)) \<le> q" if "free_map s \<noteq> []"
    using that Cons.prems(1,4)
    by (cases "free_map s") (auto simp: map_inv_def free_ok_Cons pages_of_def)
  then have "\<not> (free_map s \<noteq> [] \<and> fst (hd (free_map s)) = fst x + snd x)"
    using Cons.prems(5) by (auto dest: leD)
  then obtain u where u: "FreeToMap (fst x) (snd x) s = Inr u"
    using FreeToMap_returns[OF Cons.prems(1) x] by (metis (lifting))
  note k = FreeToMap_keeps[OF Cons.prems(1) x u]
  have lim: "limit u = limit s" by (subst k(3)) simp
  have "pages_of xs \<inter> pages_of (free_map u) = {}" using Cons.prems(2,3) k(2) by auto
  then have "\<exists>t. fold_res (\<lambda>pc. FreeToMap (fst pc) (snd pc)) xs u = Inr t"
    using Cons.IH[OF k(1)] Cons.prems(2,4,5) lim k(2) by simp
  then show ?case using u by simp
qed simp

lemma release_loop_returns:
  assumes "map_inv s" "runs_ok (limit s) (concat (map snd pm))"
    "pages_of (concat (map snd pm)) \<inter> pages_of (free_map s) = {}"
    "q \<in> pages_of (free_map s)" "\<forall>x \<in> set (concat (map snd pm)). q < fst x"
  shows "\<exists>t. release_loop r pm s = Inr t"
  using assms
proof (induction pm arbitrary: s)
  case (Cons e pm)
  have ro: "runs_ok (limit s) (snd e)" "runs_ok (limit s) (concat (map snd pm))"
    "pages_of (snd e) \<inter> pages_of (concat (map snd pm)) = {}"
    "pages_of (snd e) \<inter> pages_of (free_map s) = {}"
    using Cons.prems(2,3) by (auto simp: runs_ok_append)
  obtain u where u: "fold_res (\<lambda>pc. FreeToMap (fst pc) (snd pc)) (snd e) s = Inr u"
    using free_all_returns[OF Cons.prems(1) ro(1,4) Cons.prems(4)] Cons.prems(5) by auto
  note k = free_all_keeps[OF Cons.prems(1) ro(1,4) u]
  have lim: "limit u = limit s" by (subst k[THEN conjunct2, THEN conjunct2]) simp
  have "pages_of (concat (map snd pm)) \<inter> pages_of (free_map u) = {}"
    using k Cons.prems(3) ro(3) by auto
  then have "\<exists>t. release_loop r pm u = Inr t"
    using Cons.IH[of u] k ro(2) lim Cons.prems(4,5) by simp
  then show ?case using u by (cases "r \<le> fst e") simp_all
qed simp


section \<open>A sample pager\<close>

definition sample_meta :: MetaStruct where
  "sample_meta = \<lparr>sign = ATOMKV_SIGN, page_size = 4096, min_version = 1, page_count = 12,
     user_root = 3, free_list_pgid = kPageInvalidId, free_pair_count = 0,
     free_list_page_count = 0, txid = 4, crc32 = 0\<rparr>"

definition sample_pager :: pager_db where
  "sample_pager = \<lparr>pg_size = 4096, free_map = [(2, 1), (5, 3)], pending_map = [(3, [(9, 2)])],
     alloc_records = [], debug_free_set = {2, 5, 6, 7}, update_meta = Some sample_meta,
     db_meta = sample_meta, map_size = 65536, mmap_pending = [], mem = (\<lambda>_. 0),
     nodes = undefined, io_fails = False\<rparr>"

lemma sample_free_pages: "{2::nat, 5, 6, 7} = {2..<2 + 1} \<union> ({5..<5 + 3} \<union> {})"
  by auto

lemma sample_map_inv: "map_inv sample_pager"
  unfolding map_inv_def
  by (simp add: sample_pager_def sample_meta_def limit_def free_ok_def sample_free_pages)

lemma sample_page_inv: "page_inv {0, 1, 3, 4, 8, 11} sample_pager"
  unfolding page_inv_def using sample_map_inv
  by (auto simp: sample_pager_def sample_meta_def limit_def pending_pairs_def)

lemma sample_alloc:
  assumes "1 < n" "n \<le> 3"
  obtains v where "Alloc n sample_pager = Inr (5, v)" "update_meta v = Some sample_meta"
  using sample_map_inv
proof (cases rule: AllocFromMap_cases[of sample_pager n])
  case none
  then show ?thesis using assms by (simp add: sample_pager_def)
next
  case (fit p fm)
  then have p: "p = 5" using assms by (auto simp: sample_pager_def)
  show ?thesis
    using that fit(1,4) by (auto simp: Alloc_def update_tx_def kPageInvalidId_def p sample_pager_def)
qed

lemmas sample_eval = sample_pager_def sample_meta_def update_tx_def kPageInvalidId_def u32_def


section \<open>Growing the mapping\<close>

lemma double_loop_spec:
  assumes "new_size < sz * 2 ^ i" "0 < i" "sz \<le> new_size \<or> sz = 1"
  shows "\<exists>j. 0 < j \<and> j \<le> i \<and> double_loop i sz new_size = sz * 2 ^ j \<and> new_size < sz * 2 ^ j \<and>
    (sz * 2 ^ j \<le> 2 * new_size \<or> j = 1)"
  using assms
proof (induction i arbitrary: sz)
  case (Suc i)
  show ?case
  proof (cases "new_size < sz * 2")
    case True
    then show ?thesis by (intro exI[of _ 1]) auto
  next
    case False
    then have i: "0 < i" using Suc.prems(1) by (cases i) auto
    have "new_size < sz * 2 * 2 ^ i" "sz * 2 \<le> new_size \<or> sz * 2 = 1"
      using Suc.prems(1) False by (simp_all add: mult.assoc)
    then obtain j where j: "0 < j" "j \<le> i" "double_loop i (sz * 2) new_size = sz * 2 * 2 ^ j"
      "new_size < sz * 2 * 2 ^ j" "sz * 2 * 2 ^ j \<le> 2 * new_size \<or> j = 1"
      using Suc.IH[of "sz * 2"] i by auto
    have "sz * 2 ^ Suc j \<le> 2 * new_size" using j(5) False by auto
    then show ?thesis using j(1-4) False by (intro exI[of _ "Suc j"]) (auto simp: mult.assoc)
  qed
qed simp

lemma remmap_size_small:
  assumes "new_size \<le> 1073741824"
  obtains j where "0 < j" "j \<le> 31" "remmap_size new_size = 2 ^ j" "new_size < 2 ^ j"
    "2 ^ j \<le> 2 * new_size \<or> j = 1"
  using assms double_loop_spec[of new_size 1 31] that by (auto simp: remmap_size_def)

lemma remmap_size_multiple:
  assumes "2 ^ k dvd new_size" "0 < new_size" "k \<le> 15"
  shows "2 ^ k dvd remmap_size new_size" "new_size \<le> remmap_size new_size"
proof -
  have "2 ^ k dvd remmap_size new_size \<and> new_size \<le> remmap_size new_size"
  proof (cases "new_size \<le> 1073741824")
    case True
    then obtain j where j: "remmap_size new_size = 2 ^ j" "new_size < 2 ^ j"
      by (rule remmap_size_small)
    have "(2::nat) ^ k \<le> new_size" using assms by (intro dvd_imp_le) auto
    then have "(2::nat) ^ k < 2 ^ j" using j(2) by (rule le_less_trans)
    then have "k < j" by (rule power_less_imp_less_exp[rotated]) simp
    then show ?thesis using j by (simp add: le_imp_power_dvd)
  next
    case False
    have "(2::nat) ^ k dvd 2 ^ 30" using assms(3) by (intro le_imp_power_dvd) simp
    then have "2 ^ k dvd new_size mod 1073741824" using assms(1) by (simp add: dvd_mod)
    then show ?thesis using False assms(1) by (simp add: remmap_size_def)
  qed
  then show "2 ^ k dvd remmap_size new_size" "new_size \<le> remmap_size new_size" by simp_all
qed

lemma Remmap_returns:
  assumes "pg_size s = 2 ^ k" "k \<le> 15" "2 ^ k dvd new_size" "0 < new_size" "\<not> io_fails s"
  shows "Remmap new_size s = Inr (s\<lparr>map_size := remmap_size new_size,
    mmap_pending := mmap_pending s @ [map_size s],
    mem := (\<lambda>i. if i < map_size s then mem s i else 0)\<rparr>)"
  using assms remmap_size_multiple[OF assms(3,4,2)]
  by (simp add: Remmap_def Let_def throw_if_def assert_res_def)

lemma u32_eq_iff_small: "n < 4294967296 \<Longrightarrow> u32 n = n"
  by (simp add: u32_def)

lemma mult_page_bound:
  assumes "(p + n) * ps < 4294967296" "0 < (ps::nat)"
  shows "p * ps < 4294967296" "p + n < 4294967296"
proof -
  have "p * ps \<le> (p + n) * ps" by (intro mult_right_mono) simp_all
  then show "p * ps < 4294967296" using assms by linarith
  have "p + n \<le> (p + n) * ps" using assms(2) by (cases ps) simp_all
  then show "p + n < 4294967296" using assms(1) by (rule le_less_trans)
qed


section \<open>Growing the file\<close>

lemma AllocFromMap_none:
  assumes "map_inv s" "\<forall>x \<in> set (free_map s). snd x < n"
  shows "AllocFromMap n s = Inr (kPageInvalidId, s)"
  using assms(1)
proof (cases rule: AllocFromMap_cases[of s n])
  case (fit p fm)
  then show ?thesis using assms(2) by fastforce
qed

lemma Alloc_overflow:
  assumes "map_inv s" "update_meta s = Some m" "\<forall>x \<in> set (free_map s). snd x < n" "n < 4294967296"
    and big: "4294967296 \<le> page_count m + n"
  shows "Alloc n s =
    Inl (Runtime_error ''Page allocation failed, there are not enough available pages.'')"
proof -
  have B: "page_count m < 4294967296" using assms(1,2) by (simp add: map_inv_def limit_def)
  have "u32 (page_count m + n) = page_count m + n - 4294967296"
    using B assms(4) big by (simp add: u32_def mod_if)
  then have "u32 (page_count m + n) < page_count m" using big assms(4) by simp
  then show ?thesis
    using AllocFromMap_none[OF assms(1,3)] assms(2) by (simp add: Alloc_def update_tx_def throw_if_def)
qed

lemma Alloc_grows:
  assumes "map_inv s" "update_meta s = Some m" "\<forall>x \<in> set (free_map s). snd x < n" "0 < n"
    "pg_size s = 2 ^ k" "k \<le> 15" "\<not> io_fails s"
    and fits: "(page_count m + n) * pg_size s < 4294967296"
  shows "\<exists>t. Alloc n s = Inr (page_count m, t) \<and>
    update_meta t = Some (m\<lparr>page_count := page_count m + n\<rparr>) \<and>
    (page_count m + n) * pg_size s \<le> map_size t \<and> (\<forall>i < map_size s. mem t i = mem s i)"
proof -
  have c: "u32 (page_count m + n) = page_count m + n"
    "u32 ((page_count m + n) * pg_size s) = (page_count m + n) * pg_size s"
    using fits mult_page_bound(2)[OF fits] assms(5) by (simp_all add: u32_eq_iff_small)
  let ?s2 = "s\<lparr>update_meta := Some (m\<lparr>page_count := page_count m + n\<rparr>)\<rparr>"
  let ?ms = "(page_count m + n) * pg_size s"
  have A: "Alloc n s = bind_res (if ?ms > map_size ?s2 then Remmap ?ms ?s2 else Inr ?s2)
      (\<lambda>s3. Inr (page_count m, s3))"
    using AllocFromMap_none[OF assms(1,3)] assms(2) c
    by (simp add: Alloc_def update_tx_def throw_if_def Let_def)
  show ?thesis
  proof (cases "?ms > map_size s")
    case True
    have k: "pg_size ?s2 = 2 ^ k" "2 ^ k dvd ?ms" "0 < ?ms" "\<not> io_fails ?s2" using assms by simp_all
    show ?thesis using A True Remmap_returns[OF k(1) assms(6) k(2,3,4)] remmap_size_multiple[OF k(2,3) assms(6)]
      by simp
  next
    case False
    then show ?thesis using A by simp
  qed
qed


text \<open>The whole operation, when no free run is long enough.\<close>

lemma Alloc_fresh_eq:
  assumes inv: "map_inv s" and m: "update_meta s = Some m" and no: "\<forall>x \<in> set (free_map s). snd x < n"
    and n: "n < 4294967296" and pg: "pg_size s = 2 ^ k" "k \<le> 15"
  shows "Alloc n s =
    (if 4294967296 \<le> page_count m + n
     then Inl (Runtime_error ''Page allocation failed, there are not enough available pages.'')
     else let s2 = s\<lparr>update_meta := Some (m\<lparr>page_count := page_count m + n\<rparr>)\<rparr>;
              bytes = (page_count m + n) * pg_size s mod 4294967296
          in if bytes \<le> map_size s then Inr (page_count m, s2)
             else if io_fails s then Inl (System_error ''Unable to map db file.'')
             else Inr (page_count m, s2\<lparr>map_size := remmap_size bytes, mmap_pending := mmap_pending s @ [map_size s],
               mem := (\<lambda>i. if i < map_size s then mem s i else 0)\<rparr>))"
proof (cases "4294967296 \<le> page_count m + n")
  case True
  then show ?thesis using Alloc_overflow[OF inv m no n True] by simp
next
  case False
  then have c: "u32 (page_count m + n) = page_count m + n" by (intro u32_eq_iff_small) simp
  define bytes where "bytes = u32 ((page_count m + n) * pg_size s)"
  let ?s2 = "s\<lparr>update_meta := Some (m\<lparr>page_count := page_count m + n\<rparr>)\<rparr>"
  have A: "Alloc n s = bind_res (if bytes > map_size ?s2 then Remmap bytes ?s2 else Inr ?s2)
      (\<lambda>s3. Inr (page_count m, s3))"
    using AllocFromMap_none[OF inv no] m c
    by (simp add: Alloc_def update_tx_def throw_if_def Let_def bytes_def)
  have "(2::nat) ^ k dvd 2 ^ 32" using pg(2) by (intro le_imp_power_dvd) simp
  then have "2 ^ k dvd bytes" by (simp add: bytes_def u32_def pg(1) dvd_mod_iff)
  moreover have "0 < bytes" if "bytes > map_size s" using that by simp
  ultimately have "Remmap bytes ?s2 = (if io_fails s then Inl (System_error ''Unable to map db file.'')
      else Inr (?s2\<lparr>map_size := remmap_size bytes, mmap_pending := mmap_pending s @ [map_size s],
               mem := (\<lambda>i. if i < map_size s then mem s i else 0)\<rparr>))" if "bytes > map_size s"
    using remmap_size_multiple[of k bytes] pg that by (simp add: Remmap_def Let_def throw_if_def assert_res_def cong: if_cong)
  then show ?thesis using A False by (auto simp: bytes_def[symmetric] u32_def[symmetric] Let_def)
qed


section \<open>The mapping covers the file\<close>

text \<open>
  As long as its size in bytes stays below \<open>2 ^ 32\<close>, all pages of the file are mapped: those of the running transaction and those of the last commit.
\<close>

definition covers :: "'a pager_db_scheme \<Rightarrow> bool" where
  "covers s \<longleftrightarrow> (\<forall>n \<in> {limit s, page_count (db_meta s)}. n * pg_size s < 4294967296 \<longrightarrow> n * pg_size s \<le> map_size s)"

definition mapped :: "'a pager_db_scheme \<Rightarrow> 'a pager_db_scheme \<Rightarrow> bool" where
  "mapped s s' \<longleftrightarrow> map_size s \<le> map_size s' \<and> (covers s \<longrightarrow> covers s')"

lemma mapped_same [simp]:
  "map_size t = map_size s \<Longrightarrow> limit t = limit s \<Longrightarrow> db_meta t = db_meta s \<Longrightarrow> pg_size t = pg_size s \<Longrightarrow> mapped s t"
  by (simp add: mapped_def covers_def)

lemma mapped_trans: "mapped s t \<Longrightarrow> mapped t u \<Longrightarrow> mapped s u"
  by (auto simp: mapped_def)

lemma remmap_size_ge:
  assumes "n < 4294967296"
  shows "n \<le> remmap_size n"
proof (cases "n \<le> 1073741824")
  case True
  then obtain j where "remmap_size n = 2 ^ j" "n < 2 ^ j" by (rule remmap_size_small)
  then show ?thesis by simp
qed (simp add: remmap_size_def)

lemma Alloc_mapped:
  assumes "Alloc n s = Inr (p, t)"
  shows "mapped s t"
proof -
  obtain m q s1 where m: "update_meta s = Some m" "AllocFromMap n s = Inr (q, s1)"
    using assms by (auto simp: Alloc_def update_tx_Inr bind_res_Inr_iff)
  have s1: "map_size s1 = map_size s" "update_meta s1 = update_meta s" "db_meta s1 = db_meta s" "pg_size s1 = pg_size s"
    using m(2) by (auto simp: AllocFromMap_def Let_def bind_res_Inr_iff split: if_splits)
  show ?thesis
  proof (cases "q = kPageInvalidId")
    case False
    then have "t = s1" using assms m by (simp add: Alloc_def update_tx_def)
    then show ?thesis using s1 m(1) by (simp add: limit_def)
  next
    case True
    define c where "c = u32 (page_count m + n)"
    define k where "k = u32 (c * pg_size s)"
    let ?s2 = "s1\<lparr>update_meta := Some (m\<lparr>page_count := c\<rparr>)\<rparr>"
    have t: "(if k > map_size ?s2 then Remmap k ?s2 else Inr ?s2) = Inr t"
      using assms m True by (auto simp: Alloc_def update_tx_def bind_res_Inr_iff Let_def c_def k_def)
    have f: "limit t = c" "db_meta t = db_meta s" "pg_size t = pg_size s" "map_size s \<le> map_size t" "k \<le> map_size t"
    proof -
      have "limit t = c \<and> db_meta t = db_meta s \<and> pg_size t = pg_size s \<and> map_size s \<le> map_size t \<and> k \<le> map_size t"
      proof (cases "k > map_size s")
        case True
        have "k \<le> remmap_size k" by (rule remmap_size_ge) (simp add: k_def u32_def)
        then show ?thesis using t s1 True by (auto simp: Remmap_def Let_def bind_res_Inr_iff limit_def)
      next
        case False
        then show ?thesis using t s1 by (auto simp: limit_def)
      qed
      then show "limit t = c" "db_meta t = db_meta s" "pg_size t = pg_size s" "map_size s \<le> map_size t" "k \<le> map_size t" by simp_all
    qed
    have "c * pg_size s < 4294967296 \<longrightarrow> k = c * pg_size s" by (simp add: k_def u32_eq_iff_small)
    then show ?thesis using f by (auto simp: mapped_def covers_def)
  qed
qed


section \<open>Opening a saved file\<close>

text \<open>The pager that the next open of the file starts with, when \<open>m\<close> is the meta it finds.\<close>

definition reopened :: "MetaStruct \<Rightarrow> 'a pager_db_scheme \<Rightarrow> 'a pager_db_scheme" where
  "reopened m s = s\<lparr>free_map := [], pending_map := [], alloc_records := [], debug_free_set := {},
     update_meta := None, db_meta := m\<rparr>"

lemma reopened_simps [simp]:
  "free_map (reopened m s) = []" "db_meta (reopened m s) = m" "limit (reopened m s) = page_count m"
  "mem (reopened m s) = mem s" "map_size (reopened m s) = map_size s" "GetPtr p i (reopened m s) = GetPtr p i s"
  by (simp_all add: reopened_def limit_def GetPtr_def)

lemma map_inv_reopened: "page_count m < 4294967296 \<Longrightarrow> map_inv (reopened m s)"
  unfolding map_inv_def by (simp add: reopened_def limit_def)

lemma fold_load_pair:
  "\<forall>x \<in> set ps. 0 < snd x \<Longrightarrow> fold_res load_pair ps s = fold_res (\<lambda>pc. FreeToMap (fst pc) (snd pc)) ps s"
  by (rule fold_res_cong) (auto simp: load_pair_def)

lemma free_sorted_returns:
  assumes m: "map_inv s" "free_map s = []" and ok: "free_ok (limit s) xs"
  shows "\<exists>t. fold_res (\<lambda>pc. FreeToMap (fst pc) (snd pc)) xs s = Inr t"
proof (cases xs)
  case (Cons x ys)
  have x: "0 < snd x" "fst x + snd x \<le> limit s" using ok Cons by (simp_all add: free_ok_Cons)
  obtain u where u: "FreeToMap (fst x) (snd x) s = Inr u"
    using FreeToMap_returns[OF m(1) x] m(2) by auto
  note k = FreeToMap_keeps[OF m(1) x _ u]
  have lim: "limit u = limit s" using m(2) by (subst k(3)) simp_all
  have fu: "pages_of (free_map u) = run x" using k(2) m(2) by simp
  have ro: "runs_ok (limit s) ys" "run x \<inter> pages_of ys = {}" "\<forall>y \<in> set ys. fst x < fst y"
    using free_ok_runs_ok[OF ok] ok Cons by (auto simp: free_ok_Cons)
  have "\<exists>t. fold_res (\<lambda>pc. FreeToMap (fst pc) (snd pc)) ys u = Inr t"
    using free_all_returns[of u ys "fst x"] k(1) m(2) lim ro fu x(1) by auto
  then show ?thesis using u Cons by simp
qed simp

lemma LoadFreeList_reopened:
  assumes ro: "runs_ok (page_count m) (saved_pairs t)" and B: "page_count m < 4294967296"
    and rd: "mem_read (mem t) (GetPtr (free_list_pgid m) 0 t) (8 * length (saved_pairs t)) =
       concat (map pair_bytes (saved_pairs t))"
    and sz: "GetPtr (free_list_pgid m) 0 t + 8 * length (saved_pairs t) \<le> map_size t"
    and m: "free_list_pgid m \<noteq> kPageInvalidId" "free_pair_count m = length (saved_pairs t)"
  shows "LoadFreeList (reopened m t) =
    fold_res (\<lambda>pc. FreeToMap (fst pc) (snd pc)) (saved_pairs t) (reopened m t)"
proof -
  have b: "\<forall>x \<in> set (saved_pairs t). fst x < 4294967296 \<and> snd x < 4294967296 \<and> 0 < snd x"
    using ro B by (auto simp: runs_ok_def)
  have "LoadFreeList (reopened m t) = fold_res load_pair (saved_pairs t) (reopened m t)"
    using rd sz m b by (intro LoadFreeList_loop[OF _ refl]) auto
  then show ?thesis using fold_load_pair b by metis
qed

lemma WriteByBytes_frame:
  "WriteByBytes p off bs s = Inr t \<Longrightarrow> pending_map t = pending_map s \<and> free_map t = free_map s"
  by (auto simp: WriteByBytes_def split: if_splits)

lemma AllocFromMap_frame: "AllocFromMap n s = Inr (p, t) \<Longrightarrow> pg_size t = pg_size s \<and> nodes t = nodes s"
  by (auto simp: AllocFromMap_def Let_def bind_res_Inr_iff split: if_splits)

lemma Remmap_fields: "Remmap n s = Inr t \<Longrightarrow> pg_size t = pg_size s \<and> nodes t = nodes s"
  by (auto dest: Remmap_frame)

lemma Alloc_frame: "Alloc n s = Inr (p, t) \<Longrightarrow> pg_size t = pg_size s \<and> nodes t = nodes s"
  by (auto simp: Alloc_def Let_def bind_res_Inr_iff split: if_splits
      dest!: AllocFromMap_frame Remmap_fields)

lemma AllocFromMap_pending: "AllocFromMap n s = Inr (p, t) \<Longrightarrow> pending_map t = pending_map s"
  by (auto simp: AllocFromMap_def Let_def bind_res_Inr_iff split: if_splits)

lemma Remmap_pending: "Remmap n s = Inr t \<Longrightarrow> pending_map t = pending_map s"
  by (auto dest: Remmap_frame)

lemma Alloc_pending: "Alloc n s = Inr (p, t) \<Longrightarrow> pending_map t = pending_map s"
  by (auto simp: Alloc_def Let_def bind_res_Inr_iff split: if_splits
      dest!: AllocFromMap_pending Remmap_pending)

lemma SaveFreeList_pending:
  assumes "update_meta s = Some m" "free_list_pgid m = kPageInvalidId" "SaveFreeList s = Inr t"
    "pending_map s = []"
  shows "pending_map t = []"
  using assms
  by (auto simp: SaveFreeList_def bind_res_Inr_iff update_tx_Inr Let_def
      dest!: Alloc_pending WriteByBytes_frame)


section \<open>Properties\<close>

text \<open>
  C28: Copy-on-write safety of the allocator. Whatever a transaction does to the pager after it
  started, the run that \<^verbatim>\<open>Pager::Alloc\<close> hands out is disjoint from every page \<open>L\<close> that a
  version of the database owned at the start and from every page that was pending then.
\<close>

theorem alloc_never_live:
  assumes "page_inv L s" "tx_run s u" "0 < n" "n < 4294967296" "Alloc n u = Inr (p, v)"
  shows "run (p, n) \<inter> (L \<union> pages_of (pending_pairs s)) = {}"
  using avoids_Alloc(2)[OF avoids_tx_run[OF assms(2) page_inv_avoids[OF assms(1)]] assms(5,3,4)] .

theorem alloc_never_live_witness:
  "\<exists>v. Alloc 2 sample_pager = Inr (5, v) \<and>
     run (5, 2) \<inter> ({0, 1, 3, 4, 8, 11} \<union> pages_of (pending_pairs sample_pager)) = {}"
proof -
  obtain v where v: "Alloc 2 sample_pager = Inr (5, v)"
    by (rule sample_alloc[of 2]) simp_all
  have "run (5, 2) \<inter> ({0, 1, 3, 4, 8, 11} \<union> pages_of (pending_pairs sample_pager)) = {}"
    by (rule alloc_never_live[OF sample_page_inv tx_run.start _ _ v]) simp_all
  then show ?thesis using v by blast
qed

text \<open>
  The whole page bookkeeping is an invariant: \<^verbatim>\<open>Alloc\<close> moves a run from the free pages (or
  from the end of the file) to the owned ones, and \<^verbatim>\<open>Free\<close> of an owned run moves it to the
  pending ones. No page is ever in two of the three groups, and none is lost.
\<close>

theorem alloc_free_partition:
  assumes "page_inv L s" "0 < n" "n < 4294967296" "Alloc n s = Inr (p, t)" "Free p n t = Inr u"
  shows "page_inv (L \<union> run (p, n)) t \<and> page_inv L u \<and>
    pages_of (pending_pairs u) = pages_of (pending_pairs s) \<union> run (p, n) \<and>
    pages_of (free_map u) = pages_of (free_map s) - run (p, n)"
proof (intro conjI)
  note a = Alloc_keeps[OF assms(1,4,2,3)]
  note f = Free_keeps[OF a(1) assms(5) _ assms(2)]
  show "page_inv (L \<union> run (p, n)) t" by (rule a(1))
  have "L \<union> run (p, n) - run (p, n) = L" using a(2) by blast
  then show "page_inv L u" using f(1) by simp
  show "pages_of (pending_pairs u) = pages_of (pending_pairs s) \<union> run (p, n)"
    using f(2) a(4) by (simp add: pending_pairs_def)
  show "pages_of (free_map u) = pages_of (free_map s) - run (p, n)"
    using f(3) a(6) by simp
qed

theorem alloc_free_partition_witness:
  "\<exists>t u. Alloc 3 sample_pager = Inr (5, t) \<and> Free 5 3 t = Inr u \<and> page_inv {0, 1, 3, 4, 8, 11} u"
proof -
  obtain t where t: "Alloc 3 sample_pager = Inr (5, t)" "update_meta t = Some sample_meta"
    by (rule sample_alloc[of 3]) simp_all
  then obtain u where u: "Free 5 3 t = Inr u" by (simp add: Free_def update_tx_def kPageInvalidId_def)
  show ?thesis using alloc_free_partition[OF sample_page_inv _ _ t(1) u] t(1) u by auto
qed

text \<open>
  Allocation is first fit. When some free run is long enough, \<^verbatim>\<open>Alloc\<close> returns the start of
  the first such run, takes exactly \<open>n\<close> pages of it out of the free map and does not grow the
  file.
\<close>

theorem alloc_first_fit:
  assumes "map_inv s" "update_meta s = Some m" "x \<in> set (free_map s)" "n \<le> snd x"
  shows "\<exists>p t c. Alloc n s = Inr (p, t) \<and> (p, c) \<in> set (free_map s) \<and> n \<le> c \<and>
    (\<forall>y \<in> set (free_map s). n \<le> snd y \<longrightarrow> p \<le> fst y) \<and>
    pages_of (free_map t) = pages_of (free_map s) - run (p, n) \<and> update_meta t = Some m"
  using assms(1)
proof (cases rule: AllocFromMap_cases[of s n])
  case none
  then show ?thesis using assms(3,4) by fastforce
next
  case (fit p fm)
  then have "Alloc n s = Inr (p, s\<lparr>free_map := fm, alloc_records := alloc_records s @ [(p, n)],
      debug_free_set := pages_of fm\<rparr>)"
    using assms(2) by (simp add: Alloc_def update_tx_def kPageInvalidId_def)
  then show ?thesis using fit(5,6,7) assms(2) by auto
qed

theorem alloc_first_fit_witness:
  "\<exists>p t c. Alloc 2 sample_pager = Inr (p, t) \<and> (p, c) \<in> set (free_map sample_pager) \<and> 2 \<le> c \<and>
    pages_of (free_map t) = pages_of (free_map sample_pager) - run (p, 2)"
proof -
  have "update_meta sample_pager = Some sample_meta" "(5, 3) \<in> set (free_map sample_pager)"
    by (simp_all add: sample_pager_def)
  from alloc_first_fit[OF sample_map_inv this, of 2] show ?thesis by auto
qed

text \<open>
  C34: What \<^verbatim>\<open>Alloc\<close> does when no free run fits, in every case. The 32-bit test \<^verbatim>\<open>page_count + count <
  page_count\<close> throws exactly when the number of pages leaves 32 bits. Otherwise the run starts at the
  old end of the file; the mapping grows to the rounded size exactly when it is smaller than the number
  of bytes modulo \<open>2 ^ 32\<close>, keeps the mapped bytes, and fails with the system call. Below 4 GiB the
  mapping covers the run afterwards. From 4 GiB on the product has wrapped: with exactly \<open>2 ^ 32\<close>
  bytes the mapping never grows, and the run lies outside it.
\<close>

theorem alloc_extends_file:
  assumes "map_inv s" "update_meta s = Some m" "\<forall>x \<in> set (free_map s). snd x < n"
    "n < 4294967296" "pg_size s = 2 ^ k" "k \<le> 15"
  shows "Alloc n s =
    (if 4294967296 \<le> page_count m + n
     then Inl (Runtime_error ''Page allocation failed, there are not enough available pages.'')
     else let s2 = s\<lparr>update_meta := Some (m\<lparr>page_count := page_count m + n\<rparr>)\<rparr>;
              bytes = (page_count m + n) * pg_size s mod 4294967296
          in if bytes \<le> map_size s then Inr (page_count m, s2)
             else if io_fails s then Inl (System_error ''Unable to map db file.'')
             else Inr (page_count m, s2\<lparr>map_size := remmap_size bytes, mmap_pending := mmap_pending s @ [map_size s],
               mem := (\<lambda>i. if i < map_size s then mem s i else 0)\<rparr>)) \<and>
    (\<forall>t. Alloc n s = Inr (page_count m, t) \<and> (page_count m + n) * pg_size s < 4294967296 \<longrightarrow>
      (page_count m + n) * pg_size s \<le> map_size t)"
proof (rule conjI[OF Alloc_fresh_eq[OF assms]], intro allI impI, elim conjE)
  fix t assume t: "Alloc n s = Inr (page_count m, t)" and b: "(page_count m + n) * pg_size s < 4294967296"
  have "page_count m + n < 4294967296" by (rule mult_page_bound(2)[OF b]) (simp add: assms(5))
  moreover have "(page_count m + n) * pg_size s mod 4294967296 = (page_count m + n) * pg_size s" using b by simp
  ultimately show "(page_count m + n) * pg_size s \<le> map_size t"
    using t remmap_size_ge[OF b] unfolding Alloc_fresh_eq[OF assms] by (auto simp: Let_def split: if_splits)
qed

theorem alloc_extends_file_witness:
  "(\<exists>t. Alloc 4 sample_pager = Inr (12, t) \<and> 65536 \<le> map_size t) \<and>
   (\<exists>t. Alloc 1048564 sample_pager = Inr (12, t) \<and> map_size t = map_size sample_pager)"
proof -
  have s: "map_inv sample_pager" "update_meta sample_pager = Some sample_meta"
    "pg_size sample_pager = 2 ^ 12" "page_count sample_meta = 12"
    and f: "\<not> io_fails sample_pager" "pg_size sample_pager = 4096"
    using sample_map_inv by (simp_all add: sample_pager_def sample_meta_def)
  have n: "\<forall>x \<in> set (free_map sample_pager). snd x < 4" "\<forall>x \<in> set (free_map sample_pager). snd x < 1048564"
    by (simp_all add: sample_pager_def)
  have ms: "map_size sample_pager = 65536" by (simp add: sample_pager_def)
  have a: "Alloc 4 sample_pager = Inr (12, sample_pager\<lparr>update_meta := Some (sample_meta\<lparr>page_count := 16\<rparr>)\<rparr>)"
    using conjunct1[OF alloc_extends_file[OF s(1,2) n(1) _ s(3)]] f ms unfolding s(4) by (simp add: Let_def)
  have b: "Alloc 1048564 sample_pager =
      Inr (12, sample_pager\<lparr>update_meta := Some (sample_meta\<lparr>page_count := 1048576\<rparr>)\<rparr>)"
    using conjunct1[OF alloc_extends_file[OF s(1,2) n(2) _ s(3)]] f ms unfolding s(4) by (simp add: Let_def)
  show ?thesis using a b ms by simp
qed

text \<open>
  C35: The exact effect of \<^verbatim>\<open>FreeToMap\<close> on a run that is not free: it is undefined (the iterator
  before \<^verbatim>\<open>begin()\<close>) exactly when the run ends where the first free run starts; otherwise it
  returns a well-formed map of the old free pages and the run, and no other.
\<close>

theorem free_to_map_outcome:
  assumes "map_inv s" "0 < c" "p + c \<le> limit s" "run (p, c) \<inter> pages_of (free_map s) = {}"
  shows "if free_map s \<noteq> [] \<and> fst (hd (free_map s)) = p + c
    then FreeToMap p c s = Inl Undefined_behaviour
    else \<exists>t. FreeToMap p c s = Inr t \<and> map_inv t \<and>
      pages_of (free_map t) = pages_of (free_map s) \<union> run (p, c)"
proof (cases "free_map s \<noteq> [] \<and> fst (hd (free_map s)) = p + c")
  case True
  then show ?thesis using FreeToMap_returns[OF assms] by simp
next
  case False
  then obtain t where t: "FreeToMap p c s = Inr t"
    using FreeToMap_returns[OF assms] unfolding if_not_P[OF False] by blast
  then show ?thesis unfolding if_not_P[OF False] using FreeToMap_keeps[OF assms t] by blast
qed

theorem free_to_map_outcome_witness:
  "FreeToMap 1 1 sample_pager = Inl Undefined_behaviour \<and>
   (\<exists>t. FreeToMap 8 1 sample_pager = Inr t \<and>
     pages_of (free_map t) = pages_of (free_map sample_pager) \<union> run (8, 1))"
proof -
  have l: "limit sample_pager = 12" by (simp add: sample_eval limit_def)
  have d: "run (1, 1) \<inter> pages_of (free_map sample_pager) = {}"
    "run (8, 1) \<inter> pages_of (free_map sample_pager) = {}"
    and h: "hd (free_map sample_pager) = (2, 1)" "free_map sample_pager \<noteq> []"
    by (auto simp: sample_pager_def)
  show ?thesis
    using free_to_map_outcome[OF sample_map_inv _ _ d(1)] free_to_map_outcome[OF sample_map_inv _ _ d(2)] l h
    by auto
qed

text \<open>
  C31: \<^verbatim>\<open>Release\<close> frees exactly the runs that transactions before \<open>r\<close> gave back and keeps the
  others pending, whatever the order of the entries; the owned pages are untouched. It returns
  whenever some free page lies below every pending run.
\<close>

theorem release_exact:
  assumes "page_inv L s" "q \<in> pages_of (free_map s)" "\<forall>x \<in> set (pending_pairs s). q < fst x"
  shows "\<exists>t. Release r s = Inr t \<and> page_inv L t \<and>
    pending_map t = filter (\<lambda>e. r \<le> fst e) (pending_map s) \<and>
    pages_of (free_map t) = pages_of (free_map s) \<union>
      pages_of (concat (map snd (filter (\<lambda>e. fst e < r) (pending_map s))))"
proof -
  have "\<exists>t. Release r s = Inr t"
    unfolding Release_def
  proof (rule release_loop_returns)
    show "map_inv (s\<lparr>alloc_records := []\<rparr>)" using assms(1) by (simp add: page_inv_def map_inv_def)
  qed (use assms in \<open>auto simp: page_inv_def pending_pairs_def\<close>)
  then show ?thesis using Release_keeps[OF assms(1)] by blast
qed

theorem release_exact_witness:
  "\<exists>t. Release 4 sample_pager = Inr t \<and> pending_map t = [] \<and>
     pages_of (free_map t) = pages_of (free_map sample_pager) \<union> {9, 10}"
proof -
  have "2 \<in> pages_of (free_map sample_pager)" "\<forall>x \<in> set (pending_pairs sample_pager). 2 < fst x"
    by (simp_all add: sample_pager_def pending_pairs_def)
  from release_exact[OF sample_page_inv this, of 4] obtain t where
    "Release 4 sample_pager = Inr t" "pending_map t = []"
    "pages_of (free_map t) = pages_of (free_map sample_pager) \<union> {9..<11}"
    by (auto simp: sample_pager_def)
  moreover have "{9..<11} = {9, 10 :: nat}" by auto
  ultimately show ?thesis by auto
qed

text \<open>
  C30: \<^verbatim>\<open>Rollback\<close> undoes a transaction's page operations, after any sequence of allocations, frees,
  copies and writes. The allocations are given back one by one, in their order. If one of them ends
  where the lowest free page of that moment is (as when it was cut from the first free run, whose rest is
  still free), \<^verbatim>\<open>FreeToMap\<close> steps before \<^verbatim>\<open>begin()\<close>, which is undefined; in every other case
  \<^verbatim>\<open>Rollback\<close> returns, with exactly the free pages and the pending map of the start.
\<close>

theorem rollback_restores:
  assumes "map_inv s" "alloc_records s = []" "update_meta s = Some m"
    "txid m \<notin> fst ` set (pending_map s)" "tx_run s u"
  shows "if clash (pages_of (free_map u)) (alloc_records u)
    then Rollback u = Inl Undefined_behaviour
    else \<exists>t. Rollback u = Inr t \<and> pages_of (free_map t) = pages_of (free_map s) \<and>
      pending_map t = pending_map s \<and> alloc_records t = [] \<and> map_inv t"
proof -
  have "map_erase (txid m) (pending_map s) = pending_map s"
    using assms(4) by (force simp: map_erase_def filter_id_conv)
  then have "in_tx (pages_of (free_map s)) (pending_map s) s"
    using assms by (simp add: in_tx_def)
  then have u: "in_tx (pages_of (free_map s)) (pending_map s) u" by (rule in_tx_run[OF assms(5)])
  obtain m' where m': "update_meta u = Some m'" "map_erase (txid m') (pending_map u) = pending_map s"
    using u by (auto simp: in_tx_def)
  let ?u = "u\<lparr>pending_map := pending_map s\<rparr>"
  have "map_inv ?u" "runs_ok (limit ?u) (alloc_records u)" "pages_of (alloc_records u) \<inter> pages_of (free_map ?u) = {}"
    using u assms(1) by (auto simp: in_tx_def map_inv_def)
  note ex = free_all_exact[OF this]
  show ?thesis
  proof (cases "clash (pages_of (free_map u)) (alloc_records u)")
    case True
    then have "Rollback u = Inl Undefined_behaviour" using ex m' by (simp add: Rollback_def update_tx_def)
    then show ?thesis using True by simp
  next
    case False
    then have "\<exists>t. Rollback u = Inr t" using ex m' by (auto simp: Rollback_def update_tx_def)
    then show ?thesis using Rollback_result[OF u] False by auto
  qed
qed

text \<open>The sample pager, and one whose first free run is used.\<close>

theorem rollback_restores_witness:
  "(\<exists>u t. Alloc 3 sample_pager = Inr (5, u) \<and> Rollback u = Inr t \<and>
     pages_of (free_map t) = pages_of (free_map sample_pager)) \<and>
   (\<exists>u. Alloc 1 (sample_pager\<lparr>free_map := [(5, 3)], debug_free_set := {5, 6, 7}\<rparr>) = Inr (5, u) \<and>
     Rollback u = Inl Undefined_behaviour)"
proof -
  have mn: "Min {a..<b} = a" if "a < b" for a b :: nat using that by (intro Min_eqI) auto
  have pre: "alloc_records sample_pager = []" "update_meta sample_pager = Some sample_meta"
    "txid sample_meta \<notin> fst ` set (pending_map sample_pager)" by (simp_all add: sample_eval)
  obtain u where u: "Alloc 3 sample_pager = Inr (5, u)" "free_map u = [(2, 1)]" "alloc_records u = [(5, 3)]"
    by (rule that[of "sample_pager\<lparr>free_map := [(2, 1)], alloc_records := [(5, 3)], debug_free_set := {2, 5, 6, 7} - {5} - {6} - {7}\<rparr>"])
      (simp_all add: Alloc_def AllocFromMap_def take_run_def debug_erase_def erase_at_def sample_eval upt_conv_Cons)
  have "tx_run sample_pager u" by (rule tx_run.alloc[OF tx_run.start _ _ u(1)]) simp_all
  note r = rollback_restores[OF sample_map_inv pre this]
  have nc: "\<not> clash (pages_of (free_map u)) (alloc_records u)" using mn[of 2 3] by (simp add: u)
  have 1: "\<exists>u t. Alloc 3 sample_pager = Inr (5, u) \<and> Rollback u = Inr t \<and>
     pages_of (free_map t) = pages_of (free_map sample_pager)" using u(1) r unfolding if_not_P[OF nc] by blast
  let ?s = "sample_pager\<lparr>free_map := [(5, 3)], debug_free_set := {5, 6, 7}\<rparr>"
  have m: "map_inv ?s" using sample_map_inv by (auto simp: map_inv_def sample_pager_def free_ok_def limit_def)
  have pre': "alloc_records ?s = []" "update_meta ?s = Some sample_meta"
    "txid sample_meta \<notin> fst ` set (pending_map ?s)" by (simp_all add: sample_eval)
  obtain v where v: "Alloc 1 ?s = Inr (5, v)" "free_map v = [(6, 2)]" "alloc_records v = [(5, 1)]"
    by (rule that[of "?s\<lparr>free_map := [(6, 2)], alloc_records := [(5, 1)], debug_free_set := {5, 6, 7} - {5}\<rparr>"])
      (simp_all add: Alloc_def AllocFromMap_def take_run_def debug_erase_def erase_at_def sample_eval)
  have "tx_run ?s v" by (rule tx_run.alloc[OF tx_run.start _ _ v(1)]) simp_all
  note r = rollback_restores[OF m pre' this]
  have "clash (pages_of (free_map v)) (alloc_records v)" using mn[of 6 8] by (simp add: v)
  then have "Rollback v = Inl Undefined_behaviour" using r by simp
  then show ?thesis using 1 v by blast
qed

text \<open>
  C32: Round trip of the free list on disk. After \<^verbatim>\<open>SaveFreeList\<close>, an open that finds the meta
  it filled in loads exactly the free and the pending pages as free pages, and the pages that
  hold the list are not among them. With nothing pending the load always returns; otherwise its
  only other outcome is the undefined step of \<^verbatim>\<open>FreeToMap\<close>.
\<close>

theorem free_list_roundtrip:
  assumes "page_inv L s" "update_meta s = Some m" "free_list_pgid m = kPageInvalidId"
    "256 \<le> pg_size s" "0 < length (saved_pairs s)" "SaveFreeList s = Inr t"
  shows "\<exists>m'. update_meta t = Some m' \<and>
    (LoadFreeList (reopened m' t) = Inl Undefined_behaviour \<and> pending_map s \<noteq> [] \<or>
     (\<exists>u. LoadFreeList (reopened m' t) = Inr u \<and> map_inv u \<and>
       pages_of (free_map u) = pages_of (free_map t) \<union> pages_of (pending_pairs t) \<and>
       pages_of (free_map u) \<inter> run (free_list_pgid m', free_list_page_count m') = {}))"
proof -
  have old: "free_list_pgid m \<noteq> kPageInvalidId \<longrightarrow> 0 < free_list_page_count m \<and>
      run (free_list_pgid m, free_list_page_count m) \<subseteq> L" using assms(3) by simp
  obtain m' L' where r: "update_meta t = Some m'" "page_inv L' t"
    "run (free_list_pgid m', free_list_page_count m') \<subseteq> L'" "free_list_pgid m' \<noteq> kPageInvalidId"
    "free_pair_count m' = length (saved_pairs t)"
    "mem_read (mem t) (GetPtr (free_list_pgid m') 0 t) (8 * length (saved_pairs t)) =
       concat (map pair_bytes (saved_pairs t))"
    "GetPtr (free_list_pgid m') 0 t + 8 * length (saved_pairs t) \<le> map_size t"
    by (rule SaveFreeList_result[OF assms(1,2) old assms(4,5,6)]) blast
  have lim: "limit t = page_count m'" using r(1) by (simp add: limit_def)
  have B: "page_count m' < 4294967296" using r(2) lim by (simp add: page_inv_def map_inv_def)
  have ro: "runs_ok (page_count m') (saved_pairs t)" using page_inv_saved_pairs(1)[OF r(2)] lim by simp
  note load = LoadFreeList_reopened[OF ro B r(6,7,4,5)]
  note mi = map_inv_reopened[OF B, of t]
  have res: "map_inv u \<and> pages_of (free_map u) = pages_of (saved_pairs t)"
    if "LoadFreeList (reopened m' t) = Inr u" for u
    using free_all_keeps[OF mi _ _ that[unfolded load]] ro by simp
  have "pages_of (saved_pairs t) \<inter> run (free_list_pgid m', free_list_page_count m') = {}"
    using r(2,3) by (auto simp: page_inv_def saved_pairs_def)
  moreover have "pages_of (saved_pairs t) = pages_of (free_map t) \<union> pages_of (pending_pairs t)"
    by (simp add: saved_pairs_def)
  moreover have "\<exists>u. LoadFreeList (reopened m' t) = Inr u" if none: "pending_map s = []"
  proof -
    have "pending_map t = []" by (rule SaveFreeList_pending[OF assms(2,3,6) none])
    then have "saved_pairs t = free_map t" by (simp add: saved_pairs_def pending_pairs_def)
    then have "free_ok (limit (reopened m' t)) (saved_pairs t)"
      using r(2) lim by (simp add: page_inv_def map_inv_def)
    then show ?thesis unfolding load by (intro free_sorted_returns mi) simp_all
  qed
  moreover have "LoadFreeList (reopened m' t) = Inl Undefined_behaviour \<or> (\<exists>u. LoadFreeList (reopened m' t) = Inr u)"
    unfolding load by (rule free_all_outcome) (use mi ro in simp_all)
  ultimately show ?thesis using r(1) res by (intro exI[of _ m']) auto
qed

lemma sample_save: "\<exists>t. SaveFreeList sample_pager = Inr t"
  by (simp add: SaveFreeList_def Let_def Alloc_def AllocFromMap_def take_run_def debug_erase_def
      erase_at_def WriteByBytes_def GetPtr_def sample_eval)

theorem free_list_roundtrip_witness:
  "\<exists>t m'. SaveFreeList sample_pager = Inr t \<and> update_meta t = Some m' \<and>
    (LoadFreeList (reopened m' t) = Inl Undefined_behaviour \<or>
     (\<exists>u. LoadFreeList (reopened m' t) = Inr u \<and>
       pages_of (free_map u) = pages_of (free_map t) \<union> pages_of (pending_pairs t)))"
proof -
  obtain t where t: "SaveFreeList sample_pager = Inr t" using sample_save by blast
  have "update_meta sample_pager = Some sample_meta" "free_list_pgid sample_meta = kPageInvalidId"
    "256 \<le> pg_size sample_pager" "0 < length (saved_pairs sample_pager)"
    by (simp_all add: sample_pager_def sample_meta_def saved_pairs_def)
  from free_list_roundtrip[OF sample_page_inv this t] t show ?thesis by blast
qed

text \<open>
  The bytes of pages below 4 GiB are separate: what \<^verbatim>\<open>WriteByBytes\<close> puts into a page is read
  back from it, every other page keeps its bytes, and \<^verbatim>\<open>GetPageIdByPtr\<close> recovers the page.
\<close>

theorem page_bytes_separate:
  assumes "p * pg_size s < 4294967296" "q * pg_size s < 4294967296" "p \<noteq> q"
    "off + length bs \<le> pg_size s" "off < pg_size s" "off' + n \<le> pg_size s"
    "WriteByBytes p off bs s = Inr t"
  shows "ReadBytes p off (length bs) t = Inr bs \<and> ReadBytes q off' n t = ReadBytes q off' n s \<and>
    GetPageIdByPtr (GetPtr p off s) s = p"
proof -
  have t: "t = s\<lparr>mem := mem_write (mem s) (GetPtr p off s) bs\<rparr>" "GetPtr p off s + length bs \<le> map_size s"
    using assms(7) by (auto simp: WriteByBytes_def split: if_splits)
  have g: "GetPtr p off s = p * pg_size s + off" "GetPtr q off' s = q * pg_size s + off'"
    using assms(1,2) by (simp_all add: GetPtr_def u32_eq_iff_small)
  have gt: "GetPtr x y t = GetPtr x y s" for x y by (simp add: t(1) GetPtr_def)
  have sep: "q * pg_size s + pg_size s \<le> p * pg_size s \<or> p * pg_size s + pg_size s \<le> q * pg_size s"
  proof (cases "q < p")
    case True
    then have "Suc q * pg_size s \<le> p * pg_size s" by (intro mult_right_mono) simp_all
    then show ?thesis by simp
  next
    case False
    then have "Suc p * pg_size s \<le> q * pg_size s" using assms(3) by (intro mult_right_mono) simp_all
    then show ?thesis by simp
  qed
  have "mem_read (mem t) (GetPtr q off' s) n = mem_read (mem s) (GetPtr q off' s) n"
    unfolding t(1) using sep assms(4,6) g by (auto intro!: mem_read_write_other)
  then have "ReadBytes q off' n t = ReadBytes q off' n s"
    unfolding ReadBytes_def gt by (simp add: t(1))
  moreover have "ReadBytes p off (length bs) t = Inr bs"
    unfolding ReadBytes_def gt using t by simp
  moreover have "p \<le> p * pg_size s" using assms(5) by (cases "pg_size s") simp_all
  then have "u32 p = p" using assms(1) by (intro u32_eq_iff_small) (rule le_less_trans)
  then have "GetPageIdByPtr (GetPtr p off s) s = p"
    using assms(5) by (simp add: GetPageIdByPtr_def g)
  ultimately show ?thesis by blast
qed

theorem page_bytes_separate_witness:
  "\<exists>t. WriteByBytes 3 10 [1, 2] sample_pager = Inr t \<and> ReadBytes 3 10 2 t = Inr [1, 2] \<and>
     ReadBytes 4 0 4096 t = ReadBytes 4 0 4096 sample_pager"
proof -
  obtain t where t: "WriteByBytes 3 10 [1, 2] sample_pager = Inr t"
    by (simp add: WriteByBytes_def GetPtr_def sample_eval)
  have "pg_size sample_pager = 4096" by (simp add: sample_pager_def)
  from page_bytes_separate[OF _ _ _ _ _ _ t, of 4 0 4096] this t show ?thesis
    by (auto simp: numeral_2_eq_2)
qed

text \<open>
  Above 4 GiB the 32-bit product \<^verbatim>\<open>pgid * page_size_\<close> wraps: with pages of 4096 bytes, page
  \<open>p + 2 ^ 20\<close> has the address of page \<open>p\<close>, so writing one overwrites the other.
\<close>

theorem page_address_wraps:
  assumes "pg_size s = 4096"
  shows "GetPtr (p + 1048576) off s = GetPtr p off s"
proof -
  have "(p + 1048576) * 4096 = p * 4096 + 4294967296" by (simp add: algebra_simps)
  then show ?thesis using assms by (simp only: GetPtr_def u32_def mod_add_self2)
qed

theorem page_address_wraps_witness: "GetPtr (3 + 1048576) 0 sample_pager = GetPtr 3 0 sample_pager"
  by (rule page_address_wraps) (simp add: sample_pager_def)

text \<open>
  \<^verbatim>\<open>FreeToMap\<close> does not merge with the run before it when some free run lies after it: the
  iterator is at the later run, and only that one is compared. The map keeps two adjacent runs.
\<close>

theorem free_not_coalesced:
  assumes "map_inv s" "free_map s = xs @ (a, p - a) # (b, d) # ys" "a \<le> p" "0 < c" "p + c < b"
  shows "\<exists>t. FreeToMap p c s = Inr t \<and> free_map t = xs @ (a, p - a) # (p, c) # (b, d) # ys"
proof -
  have ok: "free_ok (limit s) (free_map s)" and B: "limit s < 4294967296"
    and dbg: "debug_free_set s = pages_of (free_map s)"
    using assms(1) by (simp_all add: map_inv_def)
  have o: "\<forall>x \<in> set xs. fst x + snd x \<le> a" "0 < p - a" "b + d \<le> limit s" "\<forall>y \<in> set ys. b + d \<le> fst y"
    "0 < d" "\<forall>x \<in> set xs. 0 < snd x"
    using ok assms(2) by (auto simp: free_ok_append free_ok_Cons) (auto simp: free_ok_def)
  have lt: "\<forall>x \<in> set (xs @ [(a, p - a)]). fst x < p" using o assms(3) by fastforce
  have gt: "\<forall>y \<in> set ((b, d) # ys). p < fst y" using o assms(4,5) by fastforce
  have it: "map_lower_bound p (free_map s) = Suc (length xs)"
    using lt assms(2,4,5) by (auto simp: map_lower_bound_def takeWhile_append)
  have "run (p, c) \<inter> pages_of (free_map s) = {}"
    using o assms(2-5) by (fastforce simp: pages_of_def)
  then have di: "debug_insert p c (debug_free_set s) = Inr (pages_of (free_map s) \<union> run (p, c))"
    using debug_insert_spec[of p c "limit s"] B o assms(5) dbg by auto
  have u: "u32 (p + c) = p + c" "u32 (b + d) = b + d" using o assms(5) B by (simp_all add: u32_eq_iff_small)
  have "merge_next p c (free_map s) = Inr (c, free_map s, Suc (length xs))"
    using it assms(2,5) by (simp add: merge_next_def u nth_append)
  moreover have "merge_prev p c (free_map s) (Suc (length xs)) = map_insert p c (free_map s)"
    using assms(2,4,5) by (simp add: merge_prev_def nth_append u)
  moreover have "map_insert p c (free_map s) = xs @ (a, p - a) # (p, c) # (b, d) # ys"
    using map_insert_mid[OF lt gt] assms(2) by simp
  ultimately show ?thesis by (simp add: FreeToMap_def di)
qed

theorem free_not_coalesced_witness:
  "\<exists>t. FreeToMap 3 1 sample_pager = Inr t \<and> free_map t = [(2, 1), (3, 1), (5, 3)]"
  using free_not_coalesced[OF sample_map_inv, of "[]" 2 3 5 3 "[]" 1] by (simp add: sample_pager_def)

end
