(* ===== verification/Atomkv_Page.thy ===== *)
theory Atomkv_Page
  imports Atomkv_Pager_Props
begin

text \<open>
  Handles on pages: \<^verbatim>\<open>Page\<close> (\<^verbatim>\<open>src/page.cpp\<close>), how the pager makes them, and the part of \<^verbatim>\<open>Node\<close>
  (\<^verbatim>\<open>src/node.cpp\<close>) that holds one. An address is its distance from the start of the mapping; a handle that was moved from has
  the null address. The nodes themselves are modelled in \<^verbatim>\<open>Atomkv_Node\<close> by their page id.
\<close>

section \<open>Pages\<close>

record Page =
  page_buf :: "nat option"
  page_id :: PageId

definition Page_make :: "nat \<Rightarrow> 'a pager_db_scheme \<Rightarrow> Page" where
  "Page_make ptr s = \<lparr>page_buf = Some ptr, page_id = GetPageIdByPtr ptr s\<rparr>"

text \<open>\<^verbatim>\<open>Pager::Dereference\<close> does nothing: the pages are not counted any more.\<close>

definition Pager_Dereference :: "nat \<Rightarrow> 'a pager_db_scheme \<Rightarrow> 'a pager_db_scheme" where
  "Pager_Dereference ptr s = s"

definition Page_Dereference :: "Page \<Rightarrow> 'a pager_db_scheme \<Rightarrow> Page \<times> 'a pager_db_scheme" where
  "Page_Dereference p s = (case page_buf p of None \<Rightarrow> (p, s) | Some ptr \<Rightarrow> (p\<lparr>page_buf := None\<rparr>, Pager_Dereference ptr s))"

definition Page_destroy :: "Page \<Rightarrow> 'a pager_db_scheme \<Rightarrow> 'a pager_db_scheme" where
  "Page_destroy p s = snd (Page_Dereference p s)"

text \<open>The results of a move are the new handle and the one moved from.\<close>

definition Page_move :: "Page \<Rightarrow> Page \<times> Page" where
  "Page_move right = (\<lparr>page_buf = page_buf right, page_id = page_id right\<rparr>, right\<lparr>page_buf := None\<rparr>)"

definition Page_assign :: "Page \<Rightarrow> Page \<Rightarrow> 'a pager_db_scheme \<Rightarrow> Page \<times> Page \<times> 'a pager_db_scheme" where
  "Page_assign this right s =
     (let (this1, s1) = Page_Dereference this s
      in (this1\<lparr>page_buf := page_buf right, page_id := page_id right\<rparr>, right\<lparr>page_buf := None\<rparr>, s1))"

definition Pager_AddReference :: "nat \<Rightarrow> 'a pager_db_scheme \<Rightarrow> Page" where
  "Pager_AddReference ptr s = Page_make ptr s"

text \<open>The distance of the null address from the mapping is undefined.\<close>

definition Page_AddReference :: "Page \<Rightarrow> 'a pager_db_scheme \<Rightarrow> Page res" where
  "Page_AddReference p s = (case page_buf p of None \<Rightarrow> Inl Undefined_behaviour | Some ptr \<Rightarrow> Inr (Pager_AddReference ptr s))"

definition Pager_Reference :: "PageId \<Rightarrow> 'a pager_db_scheme \<Rightarrow> Page res" where
  "Pager_Reference pgid s =
     bind_res (assert_res (pgid \<noteq> kPageInvalidId)) (\<lambda>_.
     bind_res (assert_res (pgid < kPageMaxCount)) (\<lambda>_. Inr (Page_make (GetPtr pgid 0 s) s)))"


section \<open>Nodes as handles\<close>

record NodeHandle =
  node_page :: "Page option"
  node_data :: "nat option"

definition Node_open :: "PageId \<Rightarrow> 'a pager_db_scheme \<Rightarrow> NodeHandle res" where
  "Node_open pgid s = bind_res (Pager_Reference pgid s) (\<lambda>p. Inr \<lparr>node_page = Some p, node_data = page_buf p\<rparr>)"

definition Node_of_page :: "Page \<Rightarrow> NodeHandle" where
  "Node_of_page p = (let (q, r) = Page_move p in \<lparr>node_page = Some q, node_data = page_buf q\<rparr>)"

definition Node_of_buf :: "nat \<Rightarrow> NodeHandle" where
  "Node_of_buf ptr = \<lparr>node_page = None, node_data = Some ptr\<rparr>"

text \<open>Both moves read the optional \<^verbatim>\<open>page_\<close> unchecked; the optional that was moved from keeps an empty handle.\<close>

definition Node_move :: "NodeHandle \<Rightarrow> (NodeHandle \<times> NodeHandle) res" where
  "Node_move right = (case node_page right of None \<Rightarrow> Inl Undefined_behaviour
     | Some p \<Rightarrow> (let (q, r) = Page_move p in Inr (\<lparr>node_page = Some q, node_data = page_buf q\<rparr>, right\<lparr>node_page := Some r\<rparr>)))"

definition Node_assign :: "NodeHandle \<Rightarrow> NodeHandle \<Rightarrow> 'a pager_db_scheme \<Rightarrow> (NodeHandle \<times> NodeHandle \<times> 'a pager_db_scheme) res" where
  "Node_assign this right s = (case node_page right of None \<Rightarrow> Inl Undefined_behaviour
     | Some p \<Rightarrow>
         (let (q, r, s1) = (case node_page this of None \<Rightarrow> (let (q, r) = Page_move p in (q, r, s)) | Some o1 \<Rightarrow> Page_assign o1 p s)
          in Inr (\<lparr>node_page = Some q, node_data = page_buf q\<rparr>, right\<lparr>node_page := Some r\<rparr>, s1)))"

definition Node_AddReference :: "NodeHandle \<Rightarrow> 'a pager_db_scheme \<Rightarrow> NodeHandle res" where
  "Node_AddReference n s = (case node_page n of None \<Rightarrow> Inl Assert_failed
     | Some p \<Rightarrow> bind_res (Page_AddReference p s) (\<lambda>q. Inr (Node_of_page q)))"

definition Node_Release :: "NodeHandle \<Rightarrow> (Page \<times> NodeHandle) res" where
  "Node_Release n = (case node_page n of None \<Rightarrow> Inl Assert_failed
     | Some p \<Rightarrow> (let (q, r) = Page_move p in Inr (q, n\<lparr>node_page := Some r\<rparr>)))"

definition Node_page_id :: "NodeHandle \<Rightarrow> PageId res" where
  "Node_page_id n = (case node_page n of None \<Rightarrow> Inl Undefined_behaviour | Some p \<Rightarrow> Inr (page_id p))"


section \<open>What a handle names\<close>

text \<open>A handle that names the page of its address.\<close>

definition handle_ok :: "'a pager_db_scheme \<Rightarrow> NodeHandle \<Rightarrow> bool" where
  "handle_ok s n \<longleftrightarrow> (\<exists>p ptr. node_page n = Some p \<and> page_buf p = Some ptr \<and> node_data n = Some ptr \<and> page_id p = GetPageIdByPtr ptr s)"

lemma handle_ok_steps:
  "Node_open pgid s = Inr n \<Longrightarrow> handle_ok s n"
  "handle_ok s right \<Longrightarrow> \<exists>n m. Node_move right = Inr (n, m) \<and> handle_ok s n \<and> node_data n = node_data right \<and> Node_page_id n = Node_page_id right"
  "handle_ok s right \<Longrightarrow> \<exists>n m. Node_assign this right s = Inr (n, m, s) \<and> handle_ok s n \<and> node_data n = node_data right \<and> Node_page_id n = Node_page_id right"
  "handle_ok s n \<Longrightarrow> \<exists>m. Node_AddReference n s = Inr m \<and> handle_ok s m \<and> node_data m = node_data n \<and> Node_page_id m = Node_page_id n"
  "handle_ok s n \<Longrightarrow> \<exists>p m. Node_Release n = Inr (p, m) \<and> Node_of_page p = n"
  by (cases n; auto simp: handle_ok_def Node_open_def Pager_Reference_def Page_make_def Node_move_def Node_assign_def Node_AddReference_def Node_Release_def
      Page_AddReference_def Pager_AddReference_def Node_of_page_def Page_move_def Page_assign_def Page_Dereference_def Pager_Dereference_def Node_page_id_def
      bind_res_Inr_iff Let_def split: option.splits)+

lemma wrapped_page:
  assumes "pg_size s = 2 ^ k" "k \<le> 15"
  shows "GetPageIdByPtr (GetPtr pgid 0 s) s = pgid mod 2 ^ (32 - k)"
proof -
  have e: "(4294967296::nat) = 2 ^ (32 - k) * 2 ^ k" using assms(2) by (simp add: power_add[symmetric])
  have "u32 (pgid * 2 ^ k) = pgid mod 2 ^ (32 - k) * 2 ^ k" unfolding u32_def e by (rule mult_mod_left[symmetric])
  moreover have "pgid mod 2 ^ (32 - k) < 4294967296"
  proof -
    have "pgid mod 2 ^ (32 - k) < 2 ^ (32 - k)" by simp
    also have "(2::nat) ^ (32 - k) \<le> 2 ^ 32" by (rule power_increasing) simp_all
    finally show ?thesis by simp
  qed
  ultimately show ?thesis using assms(1) by (simp add: GetPageIdByPtr_def GetPtr_def u32_def)
qed


section \<open>Properties\<close>

text \<open>
  C40: Which page a node is. Opening a node of a valid page id returns a handle, and moving, assigning, copying and releasing it keep the
  address and the page id. With the page size \<open>2 ^ k\<close> that page is the id modulo \<open>2 ^ (32 - k)\<close>, since the address is a 32-bit product: it is the
  page that was asked for exactly when the page starts below 4 GiB.
\<close>

theorem node_handle_page:
  assumes "pg_size s = 2 ^ k" "k \<le> 15" "pgid < kPageMaxCount"
  shows "\<exists>n. Node_open pgid s = Inr n \<and> Node_page_id n = Inr (pgid mod 2 ^ (32 - k)) \<and>
    (pgid mod 2 ^ (32 - k) = pgid \<longleftrightarrow> pgid * pg_size s < 4294967296) \<and>
    (\<exists>n1 n2 n3 m1 m2 m3 p. Node_move n = Inr (n1, m1) \<and> Node_assign this n1 s = Inr (n2, m2, s) \<and> Node_AddReference n2 s = Inr n3 \<and>
       Node_Release n3 = Inr (p, m3) \<and> Node_of_page p = n3 \<and> node_data n3 = node_data n \<and> Node_page_id n3 = Node_page_id n)"
proof -
  have v: "pgid \<noteq> kPageInvalidId" using assms(3) by (simp add: kPageMaxCount_def kPageInvalidId_def)
  obtain n where n: "Node_open pgid s = Inr n" "Node_page_id n = Inr (pgid mod 2 ^ (32 - k))"
    using v assms(3) wrapped_page[OF assms(1,2)] by (simp add: Node_open_def Pager_Reference_def Node_page_id_def Page_make_def)
  obtain n1 m1 where a: "Node_move n = Inr (n1, m1)" "handle_ok s n1" "node_data n1 = node_data n" "Node_page_id n1 = Node_page_id n"
    using handle_ok_steps(2)[OF handle_ok_steps(1)[OF n(1)]] by blast
  obtain n2 m2 where b: "Node_assign this n1 s = Inr (n2, m2, s)" "handle_ok s n2" "node_data n2 = node_data n1" "Node_page_id n2 = Node_page_id n1"
    using handle_ok_steps(3)[OF a(2)] by blast
  obtain n3 where c: "Node_AddReference n2 s = Inr n3" "handle_ok s n3" "node_data n3 = node_data n2" "Node_page_id n3 = Node_page_id n2"
    using handle_ok_steps(4)[OF b(2)] by blast
  obtain p m3 where d: "Node_Release n3 = Inr (p, m3)" "Node_of_page p = n3" using handle_ok_steps(5)[OF c(2)] by blast
  have "(4294967296::nat) = 2 ^ (32 - k) * 2 ^ k" using assms(2) by (simp add: power_add[symmetric])
  moreover have "pgid * 2 ^ k < 2 ^ (32 - k) * 2 ^ k \<longleftrightarrow> pgid < 2 ^ (32 - k)" by (rule mult_less_cancel2[THEN trans]) simp
  ultimately have "pgid mod 2 ^ (32 - k) = pgid \<longleftrightarrow> pgid * pg_size s < 4294967296" using assms(1) by (simp add: mod_eq_self_iff_div_eq_0 div_eq_0_iff)
  then show ?thesis using n a b c d by metis
qed

text \<open>With pages of 4096 bytes the page 1048577 is page 1.\<close>

theorem node_handle_page_witness:
  "\<exists>n. Node_open 1048577 sample_pager = Inr n \<and> Node_page_id n = Inr 1"
proof -
  have "pg_size sample_pager = 2 ^ 12" by (simp add: sample_pager_def)
  from node_handle_page[OF this, of 1048577 "Node_of_buf 0"] show ?thesis by (auto simp: kPageMaxCount_def)
qed

end
