(* ===== verification/Atomkv_Meta.thy ===== *)
theory Atomkv_Meta
  imports Atomkv_Pager
begin

text \<open>
  The two meta slots of \<^verbatim>\<open>src/meta.cpp\<close>. Slot \<open>i\<close> lies at byte \<open>i * page_size\<close> of the file; a
  commit writes the slot that the previous commit did not write, so a torn write leaves the
  other one. The checksum \<^verbatim>\<open>wal::Crc32\<close> and the positioned write of \<^verbatim>\<open>tinyio::file\<close> belong to
  the \<^verbatim>\<open>wal\<close> submodule; they are the parameter \<open>lib\<close> of the operations.
\<close>

section \<open>State and parameters\<close>

text \<open>
  The checksum object has a state of type \<open>'c\<close>, and \<^verbatim>\<open>End\<close> may change it. \<open>file_write m a bs\<close>
  is the file \<open>m\<close> after \<^verbatim>\<open>seekg(a)\<close> and \<^verbatim>\<open>write\<close> of the bytes \<open>bs\<close>.
\<close>

record 'c wal_lib =
  crc_new :: 'c
  crc_append :: "'c \<Rightarrow> byte list \<Rightarrow> 'c"
  crc_end :: "'c \<Rightarrow> nat \<times> 'c"
  file_write :: "memory \<Rightarrow> nat \<Rightarrow> byte list \<Rightarrow> memory"

text \<open>\<open>pg_size\<close> is also \<^verbatim>\<open>options()->page_size\<close>: the pager is built with it.\<close>

record meta_db = pager_db +
  cur_meta_index :: nat


section \<open>Operations\<close>

definition Meta_Save :: "'c wal_lib \<Rightarrow> 'a meta_db_scheme \<Rightarrow> 'a meta_db_scheme" where
  "Meta_Save lib s =
     (let c = crc_append lib (crc_new lib) (meta_body (db_meta s));
          m = (db_meta s)\<lparr>crc32 := u32 (fst (crc_end lib c))\<rparr>
      in s\<lparr>db_meta := m,
           mem := file_write lib (mem s) (u32 (cur_meta_index s * page_size m)) (meta_bytes m)\<rparr>)"

definition Meta_Switch :: "'a meta_db_scheme \<Rightarrow> 'a meta_db_scheme" where
  "Meta_Switch s = s\<lparr>cur_meta_index := (if cur_meta_index s = 0 then 1 else 0)\<rparr>"

definition Meta_Reset :: "MetaStruct \<Rightarrow> 'a meta_db_scheme \<Rightarrow> 'a meta_db_scheme" where
  "Meta_Reset m s = s\<lparr>db_meta := CopyMetaInfo (db_meta s) m\<rparr>"

definition Meta_Init :: "'c wal_lib \<Rightarrow> 'a meta_db_scheme \<Rightarrow> 'a meta_db_scheme" where
  "Meta_Init lib s =
     (let s0 = s\<lparr>cur_meta_index := 0,
                 db_meta := (db_meta s)\<lparr>sign := ATOMKV_SIGN, page_size := pg_size s,
                   min_version := ATOMKV_VERSION, page_count := 2, txid := 2,
                   user_root := kPageInvalidId, free_list_pgid := kPageInvalidId,
                   free_pair_count := 0, free_list_page_count := 0\<rparr>\<rparr>;
          s1 = Meta_Switch (Meta_Save lib s0);
          s2 = Meta_Save lib (s1\<lparr>db_meta := (db_meta s1)\<lparr>txid := 1\<rparr>\<rparr>)
      in Meta_Switch s2)"

definition slot_bytes :: "nat \<Rightarrow> 'a meta_db_scheme \<Rightarrow> byte list" where
  "slot_bytes i s = mem_read (mem s) (i * pg_size s) kMetaSize"

definition slot_meta :: "nat \<Rightarrow> 'a meta_db_scheme \<Rightarrow> MetaStruct" where
  "slot_meta i s = meta_of_bytes (slot_bytes i s)"

text \<open>
  A pointer into the mapping reads the slot behind it. A file that is too short for the slot leaves
  the pointer outside the mapping.
\<close>

definition read_slot :: "nat \<Rightarrow> 'a meta_db_scheme \<Rightarrow> MetaStruct res" where
  "read_slot i s = (if i * pg_size s + kMetaSize \<le> map_size s then Inr (slot_meta i s) else Inl Undefined_behaviour)"

text \<open>\<^verbatim>\<open>&&\<close> looks at the second slot only when the first one has no signature.\<close>

definition Meta_Load :: "'c wal_lib \<Rightarrow> 'a meta_db_scheme \<Rightarrow> 'a meta_db_scheme res" where
  "Meta_Load lib s =
     bind_res (read_slot 0 s) (\<lambda>first.
     bind_res (if sign first \<noteq> ATOMKV_SIGN
               then bind_res (read_slot 1 s) (\<lambda>second. throw_if (sign second \<noteq> ATOMKV_SIGN) (Runtime_error ''Not a atomkv file.''))
               else Inr ()) (\<lambda>_.
     bind_res (throw_if (ATOMKV_VERSION < min_version first)
       (Runtime_error ''the target database version is too high.'')) (\<lambda>_.
     bind_res (read_slot 1 s) (\<lambda>second.
     let i = (if txid first < txid second then 1 else 0);
         (v, c) = crc_end lib (crc_append lib (crc_new lib) (take 38 (slot_bytes i s)))
     in bind_res
          (if v \<noteq> crc32 (slot_meta i s)
           then let j = (if i = 1 then 0 else 1);
                    (v', _) = crc_end lib (crc_append lib c (take 38 (slot_bytes j s)))
                in if v' \<noteq> crc32 (slot_meta j s) then Inl (Runtime_error ''database is damaged.'')
                   else Inr j
           else Inr i) (\<lambda>k.
        bind_res (throw_if (page_size (slot_meta k s) \<noteq> pg_size s)
          (Runtime_error ''database cannot match system page size.'')) (\<lambda>_.
        Inr (s\<lparr>cur_meta_index := k, db_meta := slot_meta k s\<rparr>)))))))"


section \<open>What the checksum and the file promise\<close>

text \<open>
  The value of the checksum of one block, and what the slots rely on: a positioned write changes
  exactly the bytes it is given, the checksum is a 32-bit value, and \<^verbatim>\<open>End\<close> leaves the object
  ready for the next block.
\<close>

definition crc_of :: "'c wal_lib \<Rightarrow> byte list \<Rightarrow> nat" where
  "crc_of lib bs = fst (crc_end lib (crc_append lib (crc_new lib) bs))"

definition checked_file :: "'c wal_lib \<Rightarrow> bool" where
  "checked_file lib \<longleftrightarrow> (\<forall>m a bs. file_write lib m a bs = mem_write m a bs) \<and>
     (\<forall>bs. crc_of lib bs < 4294967296) \<and>
     (\<forall>bs cs. fst (crc_end lib (crc_append lib
        (snd (crc_end lib (crc_append lib (crc_new lib) bs))) cs)) = crc_of lib cs)"

text \<open>A slot is complete when its checksum is that of its first 38 bytes.\<close>

definition slot_complete :: "'c wal_lib \<Rightarrow> nat \<Rightarrow> 'a meta_db_scheme \<Rightarrow> bool" where
  "slot_complete lib i s \<longleftrightarrow> crc_of lib (take 38 (slot_bytes i s)) = crc32 (slot_meta i s)"

definition newest_slot :: "'a meta_db_scheme \<Rightarrow> nat" where
  "newest_slot s = (if txid (slot_meta 0 s) < txid (slot_meta 1 s) then 1 else 0)"

lemma checked_file_laws:
  assumes "checked_file lib"
  shows "file_write lib m a bs = mem_write m a bs" "crc_of lib bs < 4294967296"
    "fst (crc_end lib (crc_append lib (snd (crc_end lib (crc_append lib (crc_new lib) bs))) cs)) =
       crc_of lib cs"
  using assms by (simp_all add: checked_file_def)

lemma length_slot_bytes [simp]: "length (slot_bytes i s) = kMetaSize"
  by (simp add: slot_bytes_def)

lemma meta_body_crc32 [simp]: "meta_body (m\<lparr>crc32 := c\<rparr>) = meta_body m"
  by (simp add: meta_body_def)

lemma take_meta_bytes [simp]: "take 38 (meta_bytes m) = meta_body m"
  by (simp add: meta_bytes_def)

lemma newest_slot_cases: "newest_slot s = 0 \<or> newest_slot s = 1"
  by (simp add: newest_slot_def)


section \<open>Loading\<close>

text \<open>The selection of \<^verbatim>\<open>Meta::Load\<close>, with the checks in their order.\<close>

definition slots_mapped :: "'a meta_db_scheme \<Rightarrow> bool" where
  "slots_mapped s \<longleftrightarrow> pg_size s + kMetaSize \<le> map_size s"

lemma read_slot_mapped: "slots_mapped s \<Longrightarrow> i \<le> 1 \<Longrightarrow> read_slot i s = Inr (slot_meta i s)"
  by (auto simp: slots_mapped_def read_slot_def le_Suc_eq)

lemma Meta_Load_eq:
  assumes "checked_file lib" and sm: "slots_mapped s"
  shows "Meta_Load lib s =
    (if sign (slot_meta 0 s) \<noteq> ATOMKV_SIGN \<and> sign (slot_meta 1 s) \<noteq> ATOMKV_SIGN
     then Inl (Runtime_error ''Not a atomkv file.'')
     else if ATOMKV_VERSION < min_version (slot_meta 0 s)
     then Inl (Runtime_error ''the target database version is too high.'')
     else if \<not> slot_complete lib (newest_slot s) s \<and> \<not> slot_complete lib (1 - newest_slot s) s
     then Inl (Runtime_error ''database is damaged.'')
     else let k = (if slot_complete lib (newest_slot s) s then newest_slot s else 1 - newest_slot s)
       in if page_size (slot_meta k s) \<noteq> pg_size s
          then Inl (Runtime_error ''database cannot match system page size.'')
          else Inr (s\<lparr>cur_meta_index := k, db_meta := slot_meta k s\<rparr>))"
proof -
  note cr = checked_file_laws(3)[OF assms(1)]
  note rs = read_slot_mapped[OF sm, of 0, simplified] read_slot_mapped[OF sm, of 1, simplified]
  show ?thesis
    unfolding Meta_Load_def slot_complete_def newest_slot_def crc_of_def
    using cr
    by (simp add: rs Let_def throw_if_def case_prod_beta crc_of_def)
qed

lemma Meta_Load_short:
  assumes "\<not> slots_mapped s"
  shows "Meta_Load lib s =
    (if kMetaSize \<le> map_size s \<and> sign (slot_meta 0 s) = ATOMKV_SIGN \<and> ATOMKV_VERSION < min_version (slot_meta 0 s)
     then Inl (Runtime_error ''the target database version is too high.'') else Inl Undefined_behaviour)"
  using assms by (simp add: Meta_Load_def read_slot_def slots_mapped_def throw_if_def)

lemma Meta_Load_newest:
  assumes "checked_file lib" "slots_mapped s" "sign (slot_meta 0 s) = ATOMKV_SIGN" "min_version (slot_meta 0 s) \<le> ATOMKV_VERSION"
    "newest_slot s = k" "slot_complete lib k s" "page_size (slot_meta k s) = pg_size s"
  shows "Meta_Load lib s = Inr (s\<lparr>cur_meta_index := k, db_meta := slot_meta k s\<rparr>)"
  using assms by (simp add: Meta_Load_eq)

lemma Meta_Load_other:
  assumes "checked_file lib" "slots_mapped s" "sign (slot_meta 0 s) = ATOMKV_SIGN" "min_version (slot_meta 0 s) \<le> ATOMKV_VERSION"
    "newest_slot s = j" "\<not> slot_complete lib j s" "k = 1 - j"
    "slot_complete lib k s" "page_size (slot_meta k s) = pg_size s"
  shows "Meta_Load lib s = Inr (s\<lparr>cur_meta_index := k, db_meta := slot_meta k s\<rparr>)"
  using assms by (simp add: Meta_Load_eq Let_def)


section \<open>Saving\<close>

text \<open>
  A meta that a running database holds: fields in range, the signature and the version of the
  code, and the page size of the pager.
\<close>

definition live_meta :: "'a meta_db_scheme \<Rightarrow> bool" where
  "live_meta s \<longleftrightarrow> meta_ok (db_meta s) \<and> sign (db_meta s) = ATOMKV_SIGN \<and>
     min_version (db_meta s) = ATOMKV_VERSION \<and> page_size (db_meta s) = pg_size s \<and>
     kMetaSize \<le> pg_size s \<and> cur_meta_index s \<le> 1"

lemma live_meta_bounds:
  assumes "live_meta s"
  shows "u32 (cur_meta_index s * page_size (db_meta s)) = cur_meta_index s * pg_size s"
    "pg_size s < 65536" "42 \<le> pg_size s"
proof -
  show p: "pg_size s < 65536" "42 \<le> pg_size s"
    using assms by (simp_all add: live_meta_def meta_ok_def kMetaSize_def)
  have "cur_meta_index s = 0 \<or> cur_meta_index s = 1" using assms by (auto simp: live_meta_def)
  then show "u32 (cur_meta_index s * page_size (db_meta s)) = cur_meta_index s * pg_size s"
    using assms p by (auto simp: live_meta_def)
qed

text \<open>The meta as \<^verbatim>\<open>Save\<close> writes it.\<close>

definition sealed :: "'c wal_lib \<Rightarrow> MetaStruct \<Rightarrow> MetaStruct" where
  "sealed lib m = m\<lparr>crc32 := crc_of lib (meta_body m)\<rparr>"

lemma Meta_Save_eq:
  assumes "checked_file lib" "live_meta s"
  shows "Meta_Save lib s = s\<lparr>db_meta := sealed lib (db_meta s),
    mem := mem_write (mem s) (cur_meta_index s * pg_size s) (meta_bytes (sealed lib (db_meta s)))\<rparr>"
  using checked_file_laws[OF assms(1)] live_meta_bounds(1)[OF assms(2)]
  by (simp add: Meta_Save_def sealed_def crc_of_def Let_def)

lemma sealed_ok: "checked_file lib \<Longrightarrow> meta_ok m \<Longrightarrow> meta_ok (sealed lib m)"
  by (simp add: meta_ok_def sealed_def checked_file_laws(2))

lemma slot_of_bytes:
  assumes "checked_file lib" "meta_ok m" "slot_bytes i s = meta_bytes (sealed lib m)"
  shows "slot_meta i s = sealed lib m" "slot_complete lib i s"
proof -
  show m: "slot_meta i s = sealed lib m"
    using assms(3) meta_of_bytes_meta_bytes[OF sealed_ok[OF assms(1,2)]] by (simp add: slot_meta_def)
  show "slot_complete lib i s" by (simp add: slot_complete_def assms(3) m) (simp add: sealed_def)
qed

lemma slot_bytes_write:
  assumes "i \<le> 1" "j \<le> 1" "42 \<le> pg_size s" "length bs = 42"
  shows "slot_bytes i (s\<lparr>db_meta := m, mem := mem_write (mem s) (j * pg_size s) bs\<rparr>) =
    (if i = j then bs else slot_bytes i s)"
proof (cases "i = j")
  case True
  then show ?thesis using assms(4) by (simp add: slot_bytes_def kMetaSize_def)
next
  case False
  then have "i = 0 \<and> j = 1 \<or> i = 1 \<and> j = 0" using assms(1,2) by auto
  then show ?thesis using assms(3,4) by (auto simp: slot_bytes_def kMetaSize_def mem_read_write_other)
qed

lemma Meta_Save_slots:
  assumes "checked_file lib" "live_meta s" "i \<le> 1"
  shows "slot_bytes i (Meta_Save lib s) =
    (if i = cur_meta_index s then meta_bytes (sealed lib (db_meta s)) else slot_bytes i s)"
  using slot_bytes_write[OF assms(3) _ live_meta_bounds(3)[OF assms(2)]] assms(2)
  by (simp add: Meta_Save_eq[OF assms(1,2)] live_meta_def kMetaSize_def)


lemma slots_mapped_simps [simp]:
  "slots_mapped (Meta_Save lib s) = slots_mapped s" "slots_mapped (Meta_Switch s) = slots_mapped s"
  "slots_mapped (Meta_Reset m s) = slots_mapped s"
  by (simp_all add: slots_mapped_def Meta_Save_def Meta_Switch_def Meta_Reset_def Let_def)

lemma slots_mapped_Init [simp]: "slots_mapped (Meta_Init lib s) = slots_mapped s"
  by (simp add: slots_mapped_def Meta_Init_def Meta_Save_def Meta_Switch_def Let_def)


section \<open>A crash while a slot is written\<close>

text \<open>
  A crash during \<^verbatim>\<open>Save\<close>: its write to the file stops after \<open>k\<close> bytes, and the memory of the process is lost.
\<close>

definition torn_save :: "'c wal_lib \<Rightarrow> nat \<Rightarrow> 'a meta_db_scheme \<Rightarrow> 'a meta_db_scheme" where
  "torn_save lib k s =
     s\<lparr>mem := mem (Meta_Save (lib\<lparr>file_write := \<lambda>m a bs. file_write lib m a (take k bs)\<rparr>) s)\<rparr>"

lemma torn_save_eq:
  assumes "checked_file lib" "live_meta s"
  shows "torn_save lib k s = s\<lparr>mem := mem_write (mem s) (cur_meta_index s * pg_size s)
      (take k (meta_bytes (sealed lib (db_meta s))))\<rparr>"
  using checked_file_laws[OF assms(1)] live_meta_bounds(1)[OF assms(2)]
  by (simp add: torn_save_def Meta_Save_def sealed_def crc_of_def Let_def)

lemma mem_read_partial_write:
  assumes "k \<le> n" "length bs = n"
  shows "mem_read (mem_write m a (take k bs)) a n = take k bs @ drop k (mem_read m a n)"
proof (rule nth_equalityI)
  fix i assume "i < length (mem_read (mem_write m a (take k bs)) a n)"
  then have i: "i < n" by simp
  show "mem_read (mem_write m a (take k bs)) a n ! i = (take k bs @ drop k (mem_read m a n)) ! i"
    using i assms by (cases "i < k") (auto simp: mem_write_def nth_append)
qed (use assms in simp)

lemma torn_save_slots:
  assumes lib: "checked_file lib" and l: "live_meta s" and i: "i \<le> 1" and k: "k \<le> 42"
  shows "slot_bytes i (torn_save lib k s) =
    (if i = cur_meta_index s
     then take k (meta_bytes (sealed lib (db_meta s))) @ drop k (slot_bytes i s) else slot_bytes i s)"
proof -
  note b = live_meta_bounds[OF l]
  note t = torn_save_eq[OF lib l, of k]
  show ?thesis
  proof (cases "i = cur_meta_index s")
    case True
    then show ?thesis
      using mem_read_partial_write[OF k, of "meta_bytes (sealed lib (db_meta s))" "mem s" "i * pg_size s"]
      by (simp add: t slot_bytes_def kMetaSize_def)
  next
    case False
    then have "i = 0 \<and> cur_meta_index s = 1 \<or> i = 1 \<and> cur_meta_index s = 0"
      using i l by (auto simp: live_meta_def)
    then show ?thesis using b(3) k
      by (auto simp: t slot_bytes_def kMetaSize_def intro!: mem_read_write_other)
  qed
qed

text \<open>The signature and the version are in the first ten bytes, which every slot of a file shares.\<close>

definition head_bytes :: "nat \<Rightarrow> byte list" where
  "head_bytes ps = le_bytes 4 ATOMKV_SIGN @ le_bytes 2 ps @ le_bytes 4 ATOMKV_VERSION"

definition meta_head :: "nat \<Rightarrow> MetaStruct \<Rightarrow> bool" where
  "meta_head ps m \<longleftrightarrow> sign m = ATOMKV_SIGN \<and> page_size m = ps \<and> min_version m = ATOMKV_VERSION"

lemma take_10_meta_bytes: "meta_head ps m \<Longrightarrow> take 10 (meta_bytes (sealed lib m)) = head_bytes ps"
  by (simp add: meta_bytes_def meta_body_def sealed_def head_bytes_def meta_head_def)

lemma head_of_bytes:
  assumes "take 10 bs = head_bytes ps"
  shows "sign (meta_of_bytes bs) = ATOMKV_SIGN" "min_version (meta_of_bytes bs) = ATOMKV_VERSION"
proof -
  have "take 4 bs = take 4 (take 10 bs)" "take 4 (drop 6 bs) = take 4 (drop 6 (take 10 bs))"
    by (simp_all add: drop_take)
  then have "take 4 bs = le_bytes 4 ATOMKV_SIGN" "take 4 (drop 6 bs) = le_bytes 4 ATOMKV_VERSION"
    unfolding assms by (simp_all add: head_bytes_def)
  then show "sign (meta_of_bytes bs) = ATOMKV_SIGN" "min_version (meta_of_bytes bs) = ATOMKV_VERSION"
    by (simp_all add: meta_of_bytes_def Let_def ATOMKV_SIGN_def ATOMKV_VERSION_def)
qed

lemma take_10_torn:
  assumes "take 10 xs = h" "take 10 ys = h" "length xs = length ys"
  shows "take 10 (take k xs @ drop k ys) = h"
proof (rule nth_equalityI)
  show l: "length (take 10 (take k xs @ drop k ys)) = length h"
    using assms by (cases "k \<le> length xs") auto
  fix i assume "i < length (take 10 (take k xs @ drop k ys))"
  moreover have "length h = min (length xs) 10" using assms(1) by (metis length_take)
  ultimately have i: "i < 10" "i < length xs" using l by linarith+
  then have "h ! i = xs ! i" "h ! i = ys ! i" by (metis nth_take assms(1), metis nth_take assms(2))
  then show "take 10 (take k xs @ drop k ys) ! i = h ! i"
    using i assms(3) by (auto simp: nth_append)
qed


section \<open>A new file\<close>

definition init_meta :: "nat \<Rightarrow> TxId \<Rightarrow> MetaStruct" where
  "init_meta ps t = \<lparr>sign = ATOMKV_SIGN, page_size = ps, min_version = ATOMKV_VERSION, page_count = 2,
     user_root = kPageInvalidId, free_list_pgid = kPageInvalidId, free_pair_count = 0,
     free_list_page_count = 0, txid = t, crc32 = 0\<rparr>"

lemma init_meta_update:
  "m\<lparr>sign := ATOMKV_SIGN, page_size := ps, min_version := ATOMKV_VERSION, page_count := 2, txid := t,
     user_root := kPageInvalidId, free_list_pgid := kPageInvalidId, free_pair_count := 0,
     free_list_page_count := 0\<rparr> = (init_meta ps t)\<lparr>crc32 := crc32 m\<rparr>"
  by (cases m) (simp add: init_meta_def)

lemma sealed_crc32 [simp]: "sealed lib (m\<lparr>crc32 := c\<rparr>) = sealed lib m"
  by (simp add: sealed_def)

text \<open>The state after \<^verbatim>\<open>Init\<close>: transaction 2 in slot 0, transaction 1 in slot 1 and in memory.\<close>

lemma Meta_Init_result:
  assumes lib: "checked_file lib" and ps: "pg_size s < 65536" "42 \<le> pg_size s" and c: "crc32 (db_meta s) < 4294967296"
  defines "t \<equiv> Meta_Init lib s"
  shows "cur_meta_index t = 0" "db_meta t = sealed lib (init_meta (pg_size s) 1)" "pg_size t = pg_size s"
    "slot_bytes 0 t = meta_bytes (sealed lib (init_meta (pg_size s) 2))"
    "slot_bytes 1 t = meta_bytes (sealed lib (init_meta (pg_size s) 1))"
proof -
  define s0 where "s0 = s\<lparr>cur_meta_index := 0,
     db_meta := (init_meta (pg_size s) 2)\<lparr>crc32 := crc32 (db_meta s)\<rparr>\<rparr>"
  define s1 where "s1 = Meta_Switch (Meta_Save lib s0)"
  define s2 where "s2 = s1\<lparr>db_meta := (db_meta s1)\<lparr>txid := 1\<rparr>\<rparr>"
  have t: "t = Meta_Switch (Meta_Save lib s2)"
    by (simp only: t_def Meta_Init_def s0_def s1_def s2_def init_meta_update Let_def)
  have l0: "live_meta s0" using ps c
    by (simp add: live_meta_def s0_def init_meta_def meta_ok_def kMetaSize_def ATOMKV_SIGN_def
        ATOMKV_VERSION_def kPageInvalidId_def)
  have s1: "s1 = s0\<lparr>cur_meta_index := 1, db_meta := sealed lib (init_meta (pg_size s) 2),
      mem := mem s1\<rparr>" and sl1: "slot_bytes 0 s1 = meta_bytes (sealed lib (init_meta (pg_size s) 2))"
    using Meta_Save_eq[OF lib l0] Meta_Save_slots[OF lib l0, of 0]
    by (simp_all add: s1_def Meta_Switch_def s0_def slot_bytes_def)
  have d2: "db_meta s2 = (sealed lib (init_meta (pg_size s) 2))\<lparr>txid := 1\<rparr>" "cur_meta_index s2 = 1"
    "pg_size s2 = pg_size s"
    by (simp_all add: s2_def, (subst s1, simp add: s0_def)+)
  have l2: "live_meta s2" using ps checked_file_laws(2)[OF lib] d2
    by (simp add: live_meta_def init_meta_def meta_ok_def kMetaSize_def ATOMKV_SIGN_def
        ATOMKV_VERSION_def kPageInvalidId_def sealed_def)
  have sd: "sealed lib (db_meta s2) = sealed lib (init_meta (pg_size s) 1)"
    by (simp add: d2 sealed_def init_meta_def meta_body_def)
  show "cur_meta_index t = 0" "db_meta t = sealed lib (init_meta (pg_size s) 1)" "pg_size t = pg_size s"
    using Meta_Save_eq[OF lib l2] d2 sd by (simp_all add: t Meta_Switch_def)
  show "slot_bytes 1 t = meta_bytes (sealed lib (init_meta (pg_size s) 1))"
    using Meta_Save_slots[OF lib l2, of 1] d2 sd by (simp add: t Meta_Switch_def slot_bytes_def)
  have "slot_bytes 0 s2 = slot_bytes 0 s1" by (simp add: s2_def slot_bytes_def)
  then show "slot_bytes 0 t = meta_bytes (sealed lib (init_meta (pg_size s) 2))"
    using Meta_Save_slots[OF lib l2, of 0] d2(2) sl1 by (simp add: t Meta_Switch_def slot_bytes_def)
qed

lemma init_meta_ok: "ps < 65536 \<Longrightarrow> meta_ok (init_meta ps t)"
  by (simp add: init_meta_def meta_ok_def ATOMKV_SIGN_def ATOMKV_VERSION_def kPageInvalidId_def)


section \<open>A sample checksum and file\<close>

text \<open>An additive checksum, to show that the laws can hold together.\<close>

definition sample_lib :: "nat wal_lib" where
  "sample_lib = \<lparr>crc_new = 0, crc_append = (\<lambda>c bs. u32 (c + sum_list (map unat bs))),
     crc_end = (\<lambda>c. (u32 c, 0)), file_write = mem_write\<rparr>"

lemma sample_lib_ok: "checked_file sample_lib"
  by (simp add: checked_file_def crc_of_def sample_lib_def u32_def)

definition sample_file :: meta_db where
  "sample_file = \<lparr>pg_size = 4096, free_map = [], pending_map = [], alloc_records = [],
     debug_free_set = {}, update_meta = None,
     db_meta = \<lparr>sign = 0, page_size = 0, min_version = 0, page_count = 0, user_root = 0,
       free_list_pgid = 0, free_pair_count = 0, free_list_page_count = 0, txid = 0, crc32 = 0\<rparr>,
     map_size = 8192, mmap_pending = [], mem = (\<lambda>_. 0), nodes = undefined, io_fails = False,
     cur_meta_index = 0\<rparr>"


text \<open>The sample file with one commit after \<^verbatim>\<open>Init\<close> and a second one about to be written.\<close>

definition sample_commit :: meta_db where
  "sample_commit = Meta_Switch (Meta_Reset (init_meta 4096 3) (Meta_Init sample_lib sample_file))"

lemma le_bytes_numeral: "le_bytes (numeral k) n = byte_of n # le_bytes (pred_numeral k) (n div 256)"
  by (subst numeral_eq_Suc) (rule le_bytes.simps(2))

lemma sample_crcs:
  "crc_of sample_lib (meta_body (init_meta 4096 3)) \<noteq> crc_of sample_lib (meta_body (init_meta 4096 1))"
  by (simp add: crc_of_def sample_lib_def meta_body_def init_meta_def ATOMKV_SIGN_def ATOMKV_VERSION_def
      kPageInvalidId_def le_bytes_numeral u32_def)

lemma sample_commit_facts:
  "live_meta sample_commit" "cur_meta_index sample_commit = 1" "pg_size sample_commit = 4096"
  "sealed sample_lib (db_meta sample_commit) = sealed sample_lib (init_meta 4096 3)"
  "txid (db_meta sample_commit) = 3"
  "slot_bytes 0 sample_commit = meta_bytes (sealed sample_lib (init_meta 4096 2))"
  "slot_bytes 1 sample_commit = meta_bytes (sealed sample_lib (init_meta 4096 1))"
  "slots_mapped sample_commit"
proof -
  have ps: "pg_size sample_file < 65536" "42 \<le> pg_size sample_file" "crc32 (db_meta sample_file) < 4294967296"
    and p: "pg_size sample_file = 4096"
    by (simp_all add: sample_file_def)
  note r = Meta_Init_result[OF sample_lib_ok ps, unfolded p]
  show c: "cur_meta_index sample_commit = 1" "pg_size sample_commit = 4096"
    "slot_bytes 0 sample_commit = meta_bytes (sealed sample_lib (init_meta 4096 2))"
    "slot_bytes 1 sample_commit = meta_bytes (sealed sample_lib (init_meta 4096 1))"
    using r by (simp_all add: sample_commit_def Meta_Switch_def Meta_Reset_def slot_bytes_def)
  have d: "db_meta sample_commit = CopyMetaInfo (sealed sample_lib (init_meta 4096 1)) (init_meta 4096 3)"
    using r(2) by (simp add: sample_commit_def Meta_Switch_def Meta_Reset_def)
  show "slots_mapped sample_commit"
    by (simp add: sample_commit_def) (simp add: slots_mapped_def sample_file_def kMetaSize_def)
  show "txid (db_meta sample_commit) = 3" by (simp add: d CopyMetaInfo_def init_meta_def)
  show "sealed sample_lib (db_meta sample_commit) = sealed sample_lib (init_meta 4096 3)"
    by (simp add: d CopyMetaInfo_def init_meta_def sealed_def meta_body_def)
  show "live_meta sample_commit"
    using c(1,2) checked_file_laws(2)[OF sample_lib_ok]
    by (simp add: live_meta_def d CopyMetaInfo_def init_meta_def sealed_def meta_ok_def kMetaSize_def
        ATOMKV_SIGN_def ATOMKV_VERSION_def kPageInvalidId_def)
qed


section \<open>Properties\<close>

text \<open>
  C33: A meta that \<^verbatim>\<open>Save\<close> wrote is what the next \<^verbatim>\<open>Load\<close> returns, with the same slot as the
  current one, whenever it is newer than the meta in the other slot (for slot 0 also when the
  two are equal). Nothing is assumed of the other slot's bytes but its transaction number, and
  the version of slot 0. The file is long enough for both slots.
\<close>

theorem meta_save_load:
  assumes lib: "checked_file lib" and l: "live_meta s" and sm: "slots_mapped s"
    and newer: "if cur_meta_index s = 0 then txid (slot_meta 1 s) \<le> txid (db_meta s)
      else txid (slot_meta 0 s) < txid (db_meta s)"
    and ver: "min_version (slot_meta 0 s) \<le> ATOMKV_VERSION"
  shows "\<exists>t. Meta_Load lib (Meta_Save lib s) = Inr t \<and> db_meta t = sealed lib (db_meta s) \<and>
    cur_meta_index t = cur_meta_index s \<and> CopyMetaInfo (db_meta s) (db_meta t) = db_meta s"
proof -
  let ?t = "Meta_Save lib s" and ?i = "cur_meta_index s"
  have i: "?i \<le> 1" and ok: "meta_ok (db_meta s)" using l by (simp_all add: live_meta_def)
  have own: "slot_meta ?i ?t = sealed lib (db_meta s)" "slot_complete lib ?i ?t"
    using slot_of_bytes[OF lib ok] Meta_Save_slots[OF lib l i] by simp_all
  have other: "slot_meta (1 - ?i) ?t = slot_meta (1 - ?i) s"
    using Meta_Save_slots[OF lib l, of "1 - ?i"] i by (cases "?i = 0") (auto simp: slot_meta_def)
  have pg: "pg_size ?t = pg_size s" by (simp add: Meta_Save_def Let_def)
  have sel: "newest_slot ?t = ?i"
    using newer own(1) other i by (cases "?i = 0") (auto simp: newest_slot_def sealed_def le_Suc_eq)
  have sg: "sign (slot_meta 0 ?t) = ATOMKV_SIGN \<or> sign (slot_meta 1 ?t) = ATOMKV_SIGN"
    using own(1) i l by (cases "?i = 0") (auto simp: live_meta_def sealed_def le_Suc_eq)
  have mv: "\<not> ATOMKV_VERSION < min_version (slot_meta 0 ?t)"
    using own(1) other ver l by (cases "?i = 0") (auto simp: live_meta_def sealed_def)
  have "page_size (slot_meta ?i ?t) = pg_size ?t" using own(1) l pg by (simp add: live_meta_def sealed_def)
  then have "Meta_Load lib ?t = Inr (?t\<lparr>cur_meta_index := ?i, db_meta := slot_meta ?i ?t\<rparr>)"
    unfolding Meta_Load_eq[OF lib, of ?t, simplified, OF sm] using sg mv sel own(2) by (auto simp: Let_def)
  then show ?thesis using own(1) by (simp add: sealed_def CopyMetaInfo_def)
qed

theorem meta_save_load_witness:
  "\<exists>t. Meta_Load sample_lib (Meta_Save sample_lib sample_commit) = Inr t \<and>
    db_meta t = sealed sample_lib (db_meta sample_commit) \<and> cur_meta_index t = 1"
proof -
  note f = sample_commit_facts
  have s0: "slot_meta 0 sample_commit = sealed sample_lib (init_meta 4096 2)"
    using slot_of_bytes(1)[OF sample_lib_ok init_meta_ok f(6)] by simp
  from meta_save_load[OF sample_lib_ok f(1,8)] f(2,5) show ?thesis
    by (simp add: s0) (auto simp: sealed_def init_meta_def ATOMKV_VERSION_def)
qed

text \<open>
  C29: A crash while a commit writes its slot is harmless. The other slot holds the previous
  commit and the slot that is overwritten holds an older one. However many bytes of the new slot
  reached the file, the next \<^verbatim>\<open>Load\<close> returns the previous commit or the new one, provided the
  checksum tells a half-written slot from a complete one. The file is long enough for both slots.
\<close>

theorem commit_crash_atomic:
  assumes lib: "checked_file lib" and l: "live_meta s" and sm: "slots_mapped s" and k: "k \<le> 42"
    and old: "slot_bytes (1 - cur_meta_index s) s = meta_bytes (sealed lib old)"
      "meta_ok old" "meta_head (pg_size s) old" "txid old < txid (db_meta s)"
    and older: "slot_bytes (cur_meta_index s) s = meta_bytes (sealed lib older)"
      "meta_ok older" "meta_head (pg_size s) older" "txid older < txid old"
    and detects: "slot_bytes (cur_meta_index s) (torn_save lib k s) \<noteq> meta_bytes (sealed lib older) \<Longrightarrow>
      slot_bytes (cur_meta_index s) (torn_save lib k s) \<noteq> meta_bytes (sealed lib (db_meta s)) \<Longrightarrow>
      \<not> slot_complete lib (cur_meta_index s) (torn_save lib k s)"
  shows "\<exists>t. Meta_Load lib (torn_save lib k s) = Inr t \<and>
    (db_meta t = sealed lib old \<and> cur_meta_index t = 1 - cur_meta_index s \<or>
     db_meta t = sealed lib (db_meta s) \<and> cur_meta_index t = cur_meta_index s)"
proof -
  let ?t = "torn_save lib k s" and ?i = "cur_meta_index s"
  have i: "?i = 0 \<or> ?i = 1" and ok: "meta_ok (db_meta s)" and pg: "pg_size ?t = pg_size s"
    and new: "meta_head (pg_size s) (db_meta s)"
    using l by (auto simp: live_meta_def torn_save_def meta_head_def)
  have smt: "slots_mapped ?t" using sm by (simp add: slots_mapped_def torn_save_def)
  have keep: "slot_bytes (1 - ?i) ?t = meta_bytes (sealed lib old)"
    using torn_save_slots[OF lib l _ k, of "1 - ?i"] old(1) i by auto
  note o = slot_of_bytes[OF lib old(2) keep]
  have "take 10 (slot_bytes ?i ?t) = head_bytes (pg_size s)"
    using torn_save_slots[OF lib l _ k, of ?i] i older(1)
      take_10_torn[OF take_10_meta_bytes[OF new, of lib] take_10_meta_bytes[OF older(3), of lib], of k]
    by auto
  then have h: "sign (slot_meta j ?t) = ATOMKV_SIGN \<and> min_version (slot_meta j ?t) = ATOMKV_VERSION"
    if "j = ?i" for j using head_of_bytes that by (auto simp: slot_meta_def)
  have h0: "sign (slot_meta 0 ?t) = ATOMKV_SIGN" "min_version (slot_meta 0 ?t) \<le> ATOMKV_VERSION"
    using i h[of 0] o(1) old(3) by (auto simp: meta_head_def sealed_def)
  have ps: "page_size (slot_meta (1 - ?i) ?t) = pg_size ?t" using o(1) old(3) pg by (simp add: meta_head_def sealed_def)
  consider (same) "slot_bytes ?i ?t = meta_bytes (sealed lib older)"
    | (whole) "slot_bytes ?i ?t = meta_bytes (sealed lib (db_meta s))"
    | (torn) "\<not> slot_complete lib ?i ?t" using detects by blast
  then have "Meta_Load lib ?t = Inr (?t\<lparr>cur_meta_index := 1 - ?i, db_meta := slot_meta (1 - ?i) ?t\<rparr>) \<or>
    slot_meta ?i ?t = sealed lib (db_meta s) \<and>
    Meta_Load lib ?t = Inr (?t\<lparr>cur_meta_index := ?i, db_meta := slot_meta ?i ?t\<rparr>)"
  proof cases
    case same
    have "newest_slot ?t = 1 - ?i"
      using slot_of_bytes(1)[OF lib older(2) same] o(1) older(4) i by (auto simp: newest_slot_def sealed_def)
    then show ?thesis using Meta_Load_newest[OF lib smt h0 _ o(2) ps] by blast
  next
    case whole
    note d = slot_of_bytes[OF lib ok whole]
    have "newest_slot ?t = ?i" using d(1) o(1) old(4) i by (auto simp: newest_slot_def sealed_def)
    moreover have "page_size (slot_meta ?i ?t) = pg_size ?t" using d(1) new pg by (simp add: meta_head_def sealed_def)
    ultimately show ?thesis using Meta_Load_newest[OF lib smt h0 _ d(2)] d(1) by blast
  next
    case torn
    show ?thesis
    proof (cases "newest_slot ?t = ?i")
      case True
      then show ?thesis using Meta_Load_other[OF lib smt h0 True torn refl o(2) ps] by blast
    next
      case False
      then have "newest_slot ?t = 1 - ?i" using newest_slot_cases[of ?t] i by auto
      then show ?thesis using Meta_Load_newest[OF lib smt h0 _ o(2) ps] by blast
    qed
  qed
  then show ?thesis using o(1) by auto
qed

theorem commit_crash_atomic_witness:
  "\<exists>t. Meta_Load sample_lib (torn_save sample_lib 38 sample_commit) = Inr t \<and>
    (db_meta t = sealed sample_lib (init_meta 4096 2) \<or>
     db_meta t = sealed sample_lib (db_meta sample_commit))"
proof -
  note f = sample_commit_facts
  let ?t = "torn_save sample_lib 38 sample_commit" and ?one = "sealed sample_lib (init_meta 4096 1)"
  have b: "slot_bytes 1 ?t = meta_body (init_meta 4096 3) @ le_bytes 4 (crc32 ?one)"
    using torn_save_slots[OF sample_lib_ok f(1), of 1 38] f(2,4,7)
    by (simp add: meta_bytes_def) (simp add: sealed_def)
  have "crc32 (slot_meta 1 ?t) = crc32 ?one mod 4294967296"
    using b by (simp add: slot_meta_def meta_of_bytes_def Let_def)
  then have "crc32 (slot_meta 1 ?t) = crc_of sample_lib (meta_body (init_meta 4096 1))"
    using checked_file_laws(2)[OF sample_lib_ok] by (simp add: sealed_def)
  then have "\<not> slot_complete sample_lib 1 ?t" using sample_crcs b by (simp add: slot_complete_def)
  moreover have "meta_head 4096 (init_meta 4096 t)" for t by (simp add: meta_head_def init_meta_def)
  moreover have "txid (init_meta 4096 2) < txid (db_meta sample_commit)"
    "txid (init_meta 4096 1) < txid (init_meta 4096 2)" using f(5) by (simp_all add: init_meta_def)
  ultimately show ?thesis
    using commit_crash_atomic[OF sample_lib_ok f(1,8), of 38 "init_meta 4096 2" "init_meta 4096 1"]
      f init_meta_ok[of 4096] by auto
qed

text \<open>
  C37: The first commit of a new file is lost. \<^verbatim>\<open>Init\<close> leaves transaction 1 in memory but
  transaction 2 in slot 0, so the first commit writes transaction 2 into slot 1, and on a tie
  \<^verbatim>\<open>Load\<close> takes slot 0: the next open finds the empty database, whatever the commit wrote. The file
  is long enough for both slots, as the two pages of a new file are.
\<close>

theorem first_commit_lost:
  assumes lib: "checked_file lib" and ps: "pg_size s < 65536" "42 \<le> pg_size s" "crc32 (db_meta s) < 4294967296"
    and sm: "slots_mapped s" and m: "meta_ok m" "txid m = txid (db_meta (Meta_Init lib s)) + 1"
  shows "\<exists>t. Meta_Load lib (Meta_Save lib (Meta_Switch (Meta_Reset m (Meta_Init lib s)))) = Inr t \<and>
    db_meta t = sealed lib (init_meta (pg_size s) 2) \<and> user_root (db_meta t) = kPageInvalidId"
proof -
  define a where "a = Meta_Init lib s"
  define b where "b = Meta_Switch (Meta_Reset m a)"
  note r = Meta_Init_result[OF lib ps, folded a_def]
  have m2: "txid m = 2" using m(2) r(2) by (simp add: a_def[symmetric] sealed_def init_meta_def)
  have bf: "cur_meta_index b = 1" "pg_size b = pg_size s" "db_meta b = CopyMetaInfo (db_meta a) m"
    "slot_bytes i b = slot_bytes i a" for i
    using r(1,3) by (simp_all add: b_def Meta_Switch_def Meta_Reset_def slot_bytes_def)
  have l: "live_meta b"
    using ps m(1) bf(1-3) r(2) checked_file_laws(2)[OF lib]
    by (simp add: live_meta_def CopyMetaInfo_def meta_ok_def sealed_def init_meta_def kMetaSize_def
        ATOMKV_SIGN_def ATOMKV_VERSION_def)
  let ?t = "Meta_Save lib b"
  have s0: "slot_bytes 0 ?t = meta_bytes (sealed lib (init_meta (pg_size s) 2))"
    "slot_bytes 1 ?t = meta_bytes (sealed lib (db_meta b))"
    using Meta_Save_slots[OF lib l] bf(1,4) r(4) by simp_all
  note x = slot_of_bytes[OF lib init_meta_ok[OF ps(1)] s0(1)]
  have ok: "meta_ok (db_meta b)" using l by (simp add: live_meta_def)
  have "txid (slot_meta 1 ?t) = 2"
    using slot_of_bytes(1)[OF lib ok s0(2)] bf(3) m2 by (simp add: sealed_def CopyMetaInfo_def)
  then have n: "newest_slot ?t = 0" using x(1) by (simp add: newest_slot_def sealed_def init_meta_def)
  have "pg_size ?t = pg_size s" using bf(2) by (simp add: Meta_Save_def Let_def)
  moreover have smt: "slots_mapped ?t" using sm by (simp add: b_def a_def)
  ultimately have "Meta_Load lib ?t = Inr (?t\<lparr>cur_meta_index := 0, db_meta := slot_meta 0 ?t\<rparr>)"
    using x(1) by (intro Meta_Load_newest[OF lib smt _ _ n x(2)]) (simp_all add: sealed_def init_meta_def)
  then show ?thesis using x(1) unfolding b_def a_def by (simp add: sealed_def init_meta_def)
qed

theorem first_commit_lost_witness:
  "\<exists>t. Meta_Load sample_lib (Meta_Save sample_lib (Meta_Switch (Meta_Reset
     ((init_meta 4096 2)\<lparr>user_root := 2, page_count := 3\<rparr>) (Meta_Init sample_lib sample_file)))) = Inr t \<and>
   user_root (db_meta t) = kPageInvalidId"
proof -
  have ps: "pg_size sample_file < 65536" "42 \<le> pg_size sample_file" "crc32 (db_meta sample_file) < 4294967296"
    by (simp_all add: sample_file_def)
  have sm: "slots_mapped sample_file" by (simp add: slots_mapped_def sample_file_def kMetaSize_def)
  have "meta_ok ((init_meta 4096 2)\<lparr>user_root := 2, page_count := 3\<rparr>)"
    using init_meta_ok[of 4096 2] by (simp add: meta_ok_def init_meta_def)
  moreover have "txid ((init_meta 4096 2)\<lparr>user_root := 2, page_count := 3\<rparr>) =
      txid (db_meta (Meta_Init sample_lib sample_file)) + 1"
    by (simp add: Meta_Init_result(2)[OF sample_lib_ok ps] init_meta_def sealed_def)
  ultimately show ?thesis using first_commit_lost[OF sample_lib_ok ps sm] by blast
qed

text \<open>
  C36: Whatever is in the file, \<^verbatim>\<open>Load\<close> returns only a complete slot with the page size of the
  options, and changes nothing but the meta and the current slot; every other case is one of its
  four errors, or a read outside the mapping. The latter happens exactly when the file is too short
  for the first slot, or too short for the second and not refused for its version before that slot
  is looked at: the size of the file is never compared with the two pages.
\<close>

theorem meta_load_safe:
  assumes "checked_file lib"
  shows "(case Meta_Load lib s of
      Inr t \<Rightarrow> slots_mapped s \<and> slot_complete lib (cur_meta_index t) s \<and> cur_meta_index t \<le> 1 \<and>
        db_meta t = slot_meta (cur_meta_index t) s \<and> page_size (db_meta t) = pg_size s \<and>
        t = s\<lparr>cur_meta_index := cur_meta_index t, db_meta := db_meta t\<rparr>
    | Inl e \<Rightarrow> e \<in> Runtime_error ` {''Not a atomkv file.'', ''the target database version is too high.'',
        ''database is damaged.'', ''database cannot match system page size.''} \<or> e = Undefined_behaviour) \<and>
    (Meta_Load lib s = Inl Undefined_behaviour \<longleftrightarrow> map_size s < kMetaSize \<or>
      map_size s < pg_size s + kMetaSize \<and>
        (sign (slot_meta 0 s) \<noteq> ATOMKV_SIGN \<or> min_version (slot_meta 0 s) \<le> ATOMKV_VERSION))"
proof (cases "slots_mapped s")
  case True
  then have "kMetaSize \<le> map_size s" "\<not> map_size s < pg_size s + kMetaSize" by (simp_all add: slots_mapped_def)
  then show ?thesis using newest_slot_cases[of s] True by (auto simp: Meta_Load_eq[OF assms True] Let_def)
next
  case False
  then show ?thesis unfolding Meta_Load_short[OF False] by (auto simp: slots_mapped_def)
qed

theorem meta_load_safe_witness:
  "Meta_Load sample_lib sample_file = Inl (Runtime_error ''Not a atomkv file.'') \<and>
   (case Meta_Load sample_lib sample_file of Inr t \<Rightarrow> False
     | Inl e \<Rightarrow> e \<in> Runtime_error ` {''Not a atomkv file.'', ''the target database version is too high.'',
        ''database is damaged.'', ''database cannot match system page size.''}) \<and>
   Meta_Load sample_lib (sample_file\<lparr>map_size := 4096\<rparr>) = Inl Undefined_behaviour"
proof -
  have z: "mem_read (\<lambda>_. 0) a n = replicate n 0" for a n
    by (rule nth_equalityI) simp_all
  have sg: "sign (slot_meta i sample_file) = 0" for i
    by (simp add: slot_meta_def slot_bytes_def sample_file_def z meta_of_bytes_def kMetaSize_def Let_def eval_nat_numeral)
  have "slots_mapped sample_file" by (simp add: slots_mapped_def sample_file_def kMetaSize_def)
  then have e: "Meta_Load sample_lib sample_file = Inl (Runtime_error ''Not a atomkv file.'')"
    by (simp add: Meta_Load_eq[OF sample_lib_ok] ATOMKV_SIGN_def sg)
  let ?u = "sample_file\<lparr>map_size := 4096\<rparr>"
  have short: "\<not> slots_mapped ?u" by (simp add: slots_mapped_def sample_file_def kMetaSize_def)
  have "sign (slot_meta 0 ?u) = 0" using sg[of 0] by (simp add: slot_meta_def slot_bytes_def)
  then have "Meta_Load sample_lib ?u = Inl Undefined_behaviour"
    by (simp add: Meta_Load_short[OF short] ATOMKV_SIGN_def)
  then show ?thesis using e meta_load_safe[OF sample_lib_ok, of sample_file] by simp
qed

end
