(* ===== verification/Atomkv_Node.thy ===== *)
theory Atomkv_Node
  imports Atomkv_Pager Atomkv_Comparator
begin

text \<open>
  The slotted pages of \<^verbatim>\<open>src/node.cpp\<close>. The operations that only touch the page are functions on
  \<open>NodeData\<close> with the page size \<open>ps\<close> as an argument; those that also allocate or free overflow
  pages act on the pager state and the id of the page. Slot ids are natural numbers: where the
  code can form the slot id \<open>-1\<close>, the access to \<^verbatim>\<open>slots[-1]\<close> is an explicit undefined branch. Assertions
  are part of the model, so an operation that returns has passed them all. A span that points
  into a page is modelled by the bytes it shows when it is formed.
\<close>

section \<open>Slots and layout\<close>

definition u14 :: "nat \<Rightarrow> nat" where "u14 n = n mod 16384"
definition u15 :: "nat \<Rightarrow> nat" where "u15 n = n mod 32768"

definition IsLeaf :: "NodeData \<Rightarrow> bool" where "IsLeaf n \<longleftrightarrow> node_type n = kLeaf"
definition IsBranch :: "NodeData \<Rightarrow> bool" where "IsBranch n \<longleftrightarrow> node_type n = kBranch"

text \<open>The bytes a slot occupies in the record area.\<close>

definition raw_size :: "NodeData \<Rightarrow> Slot \<Rightarrow> nat" where
  "raw_size n sl = (if is_overflow_pages sl then sizeof_OverflowRecord
     else key_size sl + (if IsLeaf n then value_size sl else 0))"

definition SlotSpace :: "nat \<Rightarrow> NodeData \<Rightarrow> nat res" where
  "SlotSpace ps n =
     (let slot_space = sizeof_header + sizeof_padding + sizeof_Slot * node_count n
      in bind_res (assert_res (slot_space < ps)) (\<lambda>_. Inr slot_space))"

definition FreeSpace :: "nat \<Rightarrow> NodeData \<Rightarrow> nat res" where
  "FreeSpace ps n =
     bind_res (SlotSpace ps n) (\<lambda>ss.
     bind_res (assert_res (int ss \<le> data_offset n)) (\<lambda>_.
     let free_space = nat (data_offset n - int ss)
     in bind_res (assert_res (free_space < ps)) (\<lambda>_. Inr free_space)))"

definition FreeSpaceAfterCompaction :: "nat \<Rightarrow> NodeData \<Rightarrow> nat res" where
  "FreeSpaceAfterCompaction ps n =
     bind_res (SlotSpace ps n) (\<lambda>ss.
     bind_res (assert_res (ss + space_used n \<le> ps)) (\<lambda>_.
     let free_space = ps - ss - space_used n
     in bind_res (assert_res (free_space < ps)) (\<lambda>_. Inr free_space)))"

text \<open>\<^verbatim>\<open>assert(SlotSpace() + FreeSpace() == data_->header.data_offset)\<close>\<close>

definition check_layout :: "nat \<Rightarrow> NodeData \<Rightarrow> unit res" where
  "check_layout ps n =
     bind_res (SlotSpace ps n) (\<lambda>ss. bind_res (FreeSpace ps n) (\<lambda>fs.
     assert_res (int (ss + fs) = data_offset n)))"

definition MaxInlineRecordSize :: "nat \<Rightarrow> nat res" where
  "MaxInlineRecordSize ps =
     (let max_size = sub16 (sub16 ps (sizeof_header + sizeof_padding)) (sizeof_Slot * 2)
      in bind_res (assert_res (max_size mod 2 = 0)) (\<lambda>_. Inr (max_size div 2)))"

definition SpaceNeeded :: "nat \<Rightarrow> bool \<Rightarrow> nat" where
  "SpaceNeeded record_size slot_needed =
     (if \<not> slot_needed then record_size else record_size + sizeof_Slot)"

text \<open>
  \<^verbatim>\<open>GetFillRate\<close> as a fraction of two integers. The code compares the quotient with 0.4 and 0.5;
  with numerators and denominators below \<open>2 ^ 16\<close> the comparison of doubles agrees with the
  comparison of the fractions.
\<close>

definition GetFillRate :: "nat \<Rightarrow> NodeData \<Rightarrow> (nat \<times> nat) res" where
  "GetFillRate ps n =
     (let max_space = ps - sizeof_header - sizeof_padding in
      bind_res (FreeSpaceAfterCompaction ps n) (\<lambda>fs. Inr (max_space - fs, max_space)))"

definition fill_at_least_40 :: "nat \<times> nat \<Rightarrow> bool" where
  "fill_at_least_40 r \<longleftrightarrow> 2 * snd r \<le> 5 * fst r"

definition fill_above_50 :: "nat \<times> nat \<Rightarrow> bool" where
  "fill_above_50 r \<longleftrightarrow> snd r < 2 * fst r"


section \<open>Compaction\<close>

text \<open>
  \<^verbatim>\<open>CopyRecordRange\<close>: the records are packed into the temporary page from its end, in slot order,
  and the slots are pointed at their new places. The temporary page is its offset, its space
  counter and its bytes.
\<close>

definition copy_record :: "nat \<Rightarrow> NodeData \<times> int \<times> nat \<times> memory \<Rightarrow> (NodeData \<times> int \<times> nat \<times> memory) res" where
  "copy_record i st = (case st of (n, off, used, tmp) \<Rightarrow>
     let size = raw_size n (slots n i);
         off' = s16 (off - int size);
         used' = u16 (used + size)
     in if off' < 0 then Inl Undefined_behaviour
        else Inr (n\<lparr>slots := (slots n)(i := (slots n i)\<lparr>record_offset := u15 (nat off')\<rparr>)\<rparr>, off', used',
               mem_copy tmp (nat off') (records n) (record_offset (slots n i)) size))"

definition CopyRecordRange :: "NodeData \<times> int \<times> nat \<times> memory \<Rightarrow> (NodeData \<times> int \<times> nat \<times> memory) res" where
  "CopyRecordRange st = fold_res copy_record [0..<node_count (fst st)] st"

definition Compactify :: "nat \<Rightarrow> NodeData \<Rightarrow> NodeData res" where
  "Compactify ps n =
     bind_res (CopyRecordRange (n, s16 (int ps), 0, \<lambda>_. 0)) (\<lambda>(n', off, used, tmp).
     bind_res (assert_res (space_used n' = used)) (\<lambda>_.
     if nat off + used \<le> ps \<and> 0 \<le> off
     then Inr (n'\<lparr>data_offset := off, records := mem_copy (records n') (nat off) tmp (nat off) used\<rparr>)
     else Inl Undefined_behaviour))"

definition RequestSpaceFor :: "nat \<Rightarrow> nat \<Rightarrow> nat \<Rightarrow> bool \<Rightarrow> NodeData \<Rightarrow> (bool \<times> NodeData) res" where
  "RequestSpaceFor ps key_len value_len slot_needed n =
     bind_res (MaxInlineRecordSize ps) (\<lambda>mx.
     let size = key_len + value_len;
         space_needed = (if size > mx then SpaceNeeded sizeof_OverflowRecord slot_needed
                         else SpaceNeeded size slot_needed)
     in bind_res (FreeSpace ps n) (\<lambda>fs.
        if space_needed \<le> fs then Inr (True, n)
        else bind_res (FreeSpaceAfterCompaction ps n) (\<lambda>fc.
          if space_needed \<le> fc then bind_res (Compactify ps n) (\<lambda>n'. Inr (True, n'))
          else Inr (False, n))))"


section \<open>Records\<close>

definition DeleteRecord :: "nat \<Rightarrow> NodeData \<Rightarrow> NodeData res" where
  "DeleteRecord i n =
     bind_res (assert_res (i < node_count n)) (\<lambda>_.
     let sl = slots n i in
     if is_overflow_pages sl then Inr (n\<lparr>space_used := sub16 (space_used n) sizeof_OverflowRecord\<rparr>)
     else if IsLeaf n
     then Inr (n\<lparr>space_used := sub16 (sub16 (space_used n) (key_size sl)) (value_size sl),
                 slots := (slots n)(i := sl\<lparr>key_size := 0, child_or_size := 0\<rparr>)\<rparr>)
     else Inr (n\<lparr>space_used := sub16 (space_used n) (key_size sl),
                 slots := (slots n)(i := sl\<lparr>key_size := 0\<rparr>)\<rparr>))"

definition RestoreRecord :: "nat \<Rightarrow> Slot \<Rightarrow> NodeData \<Rightarrow> NodeData res" where
  "RestoreRecord i saved n =
     bind_res (assert_res (i < node_count n)) (\<lambda>_.
     let sl = slots n i in
     if is_overflow_pages saved then Inr (n\<lparr>space_used := u16 (space_used n + sizeof_OverflowRecord)\<rparr>)
     else if IsLeaf n
     then Inr (n\<lparr>space_used := u16 (u16 (space_used n + key_size saved) + value_size saved),
                 slots := (slots n)(i := sl\<lparr>key_size := key_size saved, child_or_size := value_size saved\<rparr>)\<rparr>)
     else Inr (n\<lparr>space_used := u16 (space_used n + key_size saved),
                 slots := (slots n)(i := sl\<lparr>key_size := key_size saved\<rparr>)\<rparr>))"

text \<open>
  The tail of \<^verbatim>\<open>StoreRecord\<close>, common to its two branches: the bytes \<open>rec\<close> go below \<open>data_offset\<close>.
  The comparison of the signed offset with an unsigned size also passes for a negative offset.
\<close>

definition place_record :: "nat \<Rightarrow> nat \<Rightarrow> bool \<Rightarrow> byte list \<Rightarrow> NodeData \<Rightarrow> NodeData res" where
  "place_record ps i overflow rec n =
     bind_res (assert_res (int (length rec) \<le> data_offset n \<or> data_offset n < 0)) (\<lambda>_.
     let off = s16 (data_offset n - int (length rec));
         sl = (slots n i)\<lparr>record_offset := u15 (nat (off mod 65536)), is_overflow_pages := overflow\<rparr>;
         n1 = n\<lparr>data_offset := off, space_used := u16 (space_used n + length rec),
                slots := (slots n)(i := sl)\<rparr>
     in bind_res (assert_res (i < node_count n1)) (\<lambda>_.
        if record_offset sl + length rec \<le> ps
        then let n2 = n1\<lparr>records := mem_write (records n1) (record_offset sl) rec\<rparr>
             in bind_res (check_layout ps n2) (\<lambda>_. Inr n2)
        else Inl Undefined_behaviour))"

definition set_sizes :: "nat \<Rightarrow> nat \<Rightarrow> nat \<Rightarrow> NodeData \<Rightarrow> NodeData" where
  "set_sizes i key_len value_len n = n\<lparr>slots := (slots n)(i :=
     (if IsLeaf n then (slots n i)\<lparr>key_size := u15 key_len, child_or_size := u32 value_len\<rparr>
      else (slots n i)\<lparr>key_size := u15 key_len\<rparr>))\<rparr>"

definition StoreRecordToOverflowPages ::
    "key \<Rightarrow> byte list \<Rightarrow> 'a pager_db_scheme \<Rightarrow> (PageId \<times> 'a pager_db_scheme) res" where
  "StoreRecordToOverflowPages key value s =
     bind_res (Alloc (GetPageCount (length key + length value) s) s) (\<lambda>(pgid, s1).
     bind_res (WriteByBytes pgid 0 key s1) (\<lambda>s2.
     bind_res (if value \<noteq> []
               then WriteByBytes (u32 (pgid + u32 (length key div pg_size s))) (length key mod pg_size s) value s2
               else Inr s2) (\<lambda>s3.
     Inr (pgid, s3))))"

definition set_node :: "PageId \<Rightarrow> NodeData \<Rightarrow> 'a pager_db_scheme \<Rightarrow> 'a pager_db_scheme" where
  "set_node pid n s = s\<lparr>nodes := (nodes s)(pid := n)\<rparr>"

text \<open>An operation on one page that returns a changed page.\<close>

definition on_node :: "PageId \<Rightarrow> (NodeData \<Rightarrow> NodeData res) \<Rightarrow> 'a pager_db_scheme \<Rightarrow> 'a pager_db_scheme res" where
  "on_node pid f s = bind_res (f (nodes s pid)) (\<lambda>n. Inr (set_node pid n s))"

definition StoreRecord ::
    "PageId \<Rightarrow> nat \<Rightarrow> key \<Rightarrow> byte list \<Rightarrow> 'a pager_db_scheme \<Rightarrow> 'a pager_db_scheme res" where
  "StoreRecord pid i key value s =
     bind_res (throw_if (length key > pg_size s \<or> length key > kKeyMaxSize)
       (Invalid_argument ''Key size exceeds the limit.'')) (\<lambda>_.
     bind_res (throw_if (length value > kValueMaxSize)
       (Invalid_argument ''Value size exceeds the limit.'')) (\<lambda>_.
     let s0 = set_node pid (set_sizes i (length key) (length value) (nodes s pid)) s in
     bind_res (MaxInlineRecordSize (pg_size s)) (\<lambda>mx.
     if length key + length value > mx
     then bind_res (StoreRecordToOverflowPages key value s0) (\<lambda>(pgid, s1).
            on_node pid (place_record (pg_size s) i True (le_bytes 4 pgid)) s1)
     else on_node pid (place_record (pg_size s) i False (key @ value)) s0)))"

text \<open>The pages of an overflow record, and the bytes that \<^verbatim>\<open>GetKey\<close> and \<^verbatim>\<open>GetValue\<close> show.\<close>

definition overflow_pgid :: "NodeData \<Rightarrow> nat \<Rightarrow> PageId" where
  "overflow_pgid n i = le_nat (mem_read (records n) (record_offset (slots n i)) 4)"

definition GetRecord :: "PageId \<Rightarrow> nat \<Rightarrow> nat \<Rightarrow> nat \<Rightarrow> 'a pager_db_scheme \<Rightarrow> byte list res" where
  "GetRecord pid i off len s =
     (let n = nodes s pid; sl = slots n i in
      bind_res (assert_res (i < node_count n)) (\<lambda>_.
      if \<not> is_overflow_pages sl
      then (if record_offset sl + off + len \<le> pg_size s
            then Inr (mem_read (records n) (record_offset sl + off) len) else Inl Undefined_behaviour)
      else ReadBytes (overflow_pgid n i) off len s))"

definition GetKey :: "PageId \<Rightarrow> nat \<Rightarrow> 'a pager_db_scheme \<Rightarrow> key res" where
  "GetKey pid i s = GetRecord pid i 0 (key_size (slots (nodes s pid) i)) s"

definition GetValue :: "PageId \<Rightarrow> nat \<Rightarrow> 'a pager_db_scheme \<Rightarrow> byte list res" where
  "GetValue pid i s =
     GetRecord pid i (key_size (slots (nodes s pid) i)) (value_size (slots (nodes s pid) i)) s"

definition Node_LowerBound ::
    "(key \<Rightarrow> key \<Rightarrow> strong_ordering res) \<Rightarrow> PageId \<Rightarrow> key \<Rightarrow> 'a pager_db_scheme \<Rightarrow> (nat \<times> bool) res" where
  "Node_LowerBound cmp pid key s =
     lower_bound_loop (\<lambda>i. bind_res (GetKey pid i s) (\<lambda>k. cmp k key)) 0 (node_count (nodes s pid)) False"

text \<open>\<^verbatim>\<open>Node::Copy\<close>: the copy belongs to the running transaction.\<close>

definition Node_Copy :: "PageId \<Rightarrow> 'a pager_db_scheme \<Rightarrow> (PageId \<times> 'a pager_db_scheme) res" where
  "Node_Copy pid s =
     bind_res (Copy pid s) (\<lambda>(new_pid, s1).
     bind_res (update_tx s1) (\<lambda>m.
     Inr (new_pid, set_node new_pid ((nodes s1 new_pid)\<lparr>last_modified_txid := txid m\<rparr>) s1)))"


section \<open>Branch nodes\<close>

text \<open>\<^verbatim>\<open>memmove\<close> on the slot array: one slot up from \<open>i\<close>, and one slot down onto \<open>i\<close>.\<close>

definition slots_up :: "nat \<Rightarrow> nat \<Rightarrow> (nat \<Rightarrow> Slot) \<Rightarrow> nat \<Rightarrow> Slot" where
  "slots_up i c sl = (\<lambda>j. if i < j \<and> j \<le> c then sl (j - 1) else sl j)"

definition slots_down :: "nat \<Rightarrow> nat \<Rightarrow> (nat \<Rightarrow> Slot) \<Rightarrow> nat \<Rightarrow> Slot" where
  "slots_down i c sl = (\<lambda>j. if i \<le> j \<and> j + 1 < c then sl (j + 1) else sl j)"

definition BranchNode_Build :: "PageId \<Rightarrow> PageId \<Rightarrow> 'a pager_db_scheme \<Rightarrow> 'a pager_db_scheme res" where
  "BranchNode_Build pid child s =
     bind_res (update_tx s) (\<lambda>m.
     Inr (set_node pid ((nodes s pid)\<lparr>node_type := kBranch, node_count := 0,
       data_offset := s16 (int (pg_size s)), space_used := 0, tail_child := child,
       last_modified_txid := txid m\<rparr>) s))"

definition GetLeftChild :: "nat \<Rightarrow> NodeData \<Rightarrow> PageId res" where
  "GetLeftChild i n =
     bind_res (assert_res (i \<le> node_count n)) (\<lambda>_.
     if i = node_count n then Inr (tail_child n) else Inr (left_child (slots n i)))"

definition SetLeftChild :: "nat \<Rightarrow> PageId \<Rightarrow> NodeData \<Rightarrow> NodeData res" where
  "SetLeftChild i child n =
     bind_res (assert_res (i \<le> node_count n)) (\<lambda>_.
     if i = node_count n then Inr (n\<lparr>tail_child := child\<rparr>)
     else Inr (n\<lparr>slots := (slots n)(i := (slots n i)\<lparr>child_or_size := child\<rparr>)\<rparr>))"

definition GetRightChild :: "nat \<Rightarrow> NodeData \<Rightarrow> PageId res" where
  "GetRightChild i n =
     bind_res (assert_res (i < node_count n)) (\<lambda>_.
     if i = node_count n - 1 then Inr (tail_child n) else Inr (left_child (slots n (i + 1))))"

definition SetRightChild :: "nat \<Rightarrow> PageId \<Rightarrow> NodeData \<Rightarrow> NodeData res" where
  "SetRightChild i child n =
     bind_res (assert_res (i < node_count n)) (\<lambda>_.
     if i = node_count n - 1 then Inr (n\<lparr>tail_child := child\<rparr>)
     else Inr (n\<lparr>slots := (slots n)(i + 1 := (slots n (i + 1))\<lparr>child_or_size := child\<rparr>)\<rparr>))"

definition SetTailChild :: "PageId \<Rightarrow> NodeData \<Rightarrow> NodeData res" where
  "SetTailChild child n = Inr (n\<lparr>tail_child := child\<rparr>)"

text \<open>
  \<^verbatim>\<open>BranchNode::Update(slot_id, key)\<close>. After the space was granted the code once more subtracts
  the key size that it finds in the slot.
\<close>

definition BranchNode_UpdateKey ::
    "PageId \<Rightarrow> nat \<Rightarrow> key \<Rightarrow> 'a pager_db_scheme \<Rightarrow> (bool \<times> 'a pager_db_scheme) res" where
  "BranchNode_UpdateKey pid i key s =
     (let n = nodes s pid; saved_slot = slots n i in
      bind_res (DeleteRecord i n) (\<lambda>n1.
      bind_res (RequestSpaceFor (pg_size s) (length key) 0 False n1) (\<lambda>(ok, n2).
      if \<not> ok then bind_res (RestoreRecord i saved_slot n2) (\<lambda>n3. Inr (False, set_node pid n3 s))
      else
        let n3 = n2\<lparr>space_used := sub16 (space_used n2) (key_size (slots n2 i))\<rparr>
        in bind_res (StoreRecord pid i key [] (set_node pid n3 s)) (\<lambda>s1.
           bind_res (check_layout (pg_size s) (nodes s1 pid)) (\<lambda>_. Inr (True, s1))))))"

definition BranchNode_Update ::
    "PageId \<Rightarrow> nat \<Rightarrow> key \<Rightarrow> PageId \<Rightarrow> bool \<Rightarrow> 'a pager_db_scheme \<Rightarrow> (bool \<times> 'a pager_db_scheme) res" where
  "BranchNode_Update pid i key child is_right_child s =
     bind_res (assert_res (i < node_count (nodes s pid))) (\<lambda>_.
     bind_res (BranchNode_UpdateKey pid i key s) (\<lambda>(ok, s1).
     if \<not> ok then Inr (False, s1)
     else bind_res (on_node pid (if is_right_child then SetRightChild i child else
            (\<lambda>n. Inr (n\<lparr>slots := (slots n)(i := (slots n i)\<lparr>child_or_size := child\<rparr>)\<rparr>))) s1) (\<lambda>s2.
          Inr (True, s2))))"

text \<open>The slots and the tail child after the children of \<^verbatim>\<open>BranchNode::Insert\<close> were set.\<close>

definition insert_child :: "nat \<Rightarrow> PageId \<Rightarrow> bool \<Rightarrow> NodeData \<Rightarrow> NodeData" where
  "insert_child i child is_right_child n =
     (let sl = slots_up i (node_count n) (slots n) in
      if is_right_child
      then (if i = node_count n
            then n\<lparr>slots := sl(i := (sl i)\<lparr>child_or_size := tail_child n\<rparr>), tail_child := child\<rparr>
            else n\<lparr>slots := sl(i := (sl i)\<lparr>child_or_size := left_child (sl (i + 1))\<rparr>,
                               i + 1 := (sl (i + 1))\<lparr>child_or_size := child\<rparr>)\<rparr>)
      else n\<lparr>slots := sl(i := (sl i)\<lparr>child_or_size := child\<rparr>)\<rparr>)"

definition BranchNode_Insert ::
    "PageId \<Rightarrow> nat \<Rightarrow> key \<Rightarrow> PageId \<Rightarrow> bool \<Rightarrow> 'a pager_db_scheme \<Rightarrow> (bool \<times> 'a pager_db_scheme) res" where
  "BranchNode_Insert pid i key child is_right_child s =
     bind_res (assert_res (i \<le> node_count (nodes s pid))) (\<lambda>_.
     bind_res (RequestSpaceFor (pg_size s) (length key) 0 True (nodes s pid)) (\<lambda>(ok, n1).
     if \<not> ok then Inr (False, s)
     else let n2 = insert_child i child is_right_child n1;
              n3 = n2\<lparr>node_count := u14 (node_count n2 + 1)\<rparr>
          in bind_res (StoreRecord pid i key [] (set_node pid n3 s)) (\<lambda>s1. Inr (True, s1))))"

definition BranchNode_Append ::
    "PageId \<Rightarrow> key \<Rightarrow> PageId \<Rightarrow> bool \<Rightarrow> 'a pager_db_scheme \<Rightarrow> (bool \<times> 'a pager_db_scheme) res" where
  "BranchNode_Append pid key child is_right_child s =
     BranchNode_Insert pid (node_count (nodes s pid)) key child is_right_child s"

text \<open>
  The start of both \<^verbatim>\<open>Delete\<close> functions: the space of the record is given back, with the overflow
  pages that hold \<open>sz\<close> bytes.
\<close>

definition release_record :: "PageId \<Rightarrow> nat \<Rightarrow> nat \<Rightarrow> 'a pager_db_scheme \<Rightarrow> 'a pager_db_scheme res" where
  "release_record pid i sz s =
     (let n = nodes s pid in
      if is_overflow_pages (slots n i)
      then Free (overflow_pgid n i) (GetPageCount sz s)
             (set_node pid (n\<lparr>space_used := sub16 (space_used n) sizeof_OverflowRecord,
                slots := (slots n)(i := (slots n i)\<lparr>is_overflow_pages := False\<rparr>)\<rparr>) s)
      else Inr (set_node pid (n\<lparr>space_used := sub16 (space_used n) sz\<rparr>) s))"

definition delete_child :: "nat \<Rightarrow> bool \<Rightarrow> NodeData \<Rightarrow> NodeData" where
  "delete_child i right_child n =
     (let sl = slots n; c = node_count n in
      if right_child
      then let n1 = (if i + 1 < c
                     then n\<lparr>slots := sl(i := (sl (i + 1))\<lparr>child_or_size := left_child (sl i)\<rparr>,
                                     i + 1 := (sl (i + 1))\<lparr>child_or_size := left_child (sl i)\<rparr>)\<rparr>
                     else n\<lparr>tail_child := left_child (sl (c - 1))\<rparr>)
           in if c - i > 1 then n1\<lparr>slots := slots_down (i + 1) c (slots n1)\<rparr> else n1
      else n\<lparr>slots := slots_down i c sl\<rparr>)"

definition BranchNode_Delete :: "PageId \<Rightarrow> nat \<Rightarrow> bool \<Rightarrow> 'a pager_db_scheme \<Rightarrow> 'a pager_db_scheme res" where
  "BranchNode_Delete pid i right_child s =
     bind_res (assert_res (i < node_count (nodes s pid))) (\<lambda>_.
     bind_res (release_record pid i (key_size (slots (nodes s pid) i)) s) (\<lambda>s1.
     on_node pid (\<lambda>n.
       let n1 = delete_child i right_child n; n2 = n1\<lparr>node_count := node_count n1 - 1\<rparr>
       in bind_res (check_layout (pg_size s) n2) (\<lambda>_. Inr n2)) s1))"

text \<open>\<^verbatim>\<open>Pop\<close> of an empty node reaches \<^verbatim>\<open>slots[-1]\<close>: the signed assertion lets it through.\<close>

definition BranchNode_Pop :: "PageId \<Rightarrow> bool \<Rightarrow> 'a pager_db_scheme \<Rightarrow> 'a pager_db_scheme res" where
  "BranchNode_Pop pid right_child s =
     (if node_count (nodes s pid) = 0 then Inl Undefined_behaviour
      else BranchNode_Delete pid (node_count (nodes s pid) - 1) right_child s)"


section \<open>Leaf nodes\<close>

definition LeafNode_Build :: "PageId \<Rightarrow> 'a pager_db_scheme \<Rightarrow> 'a pager_db_scheme res" where
  "LeafNode_Build pid s =
     bind_res (update_tx s) (\<lambda>m.
     Inr (set_node pid ((nodes s pid)\<lparr>node_type := kLeaf, node_count := 0,
       data_offset := s16 (int (pg_size s)), space_used := 0, last_modified_txid := txid m\<rparr>) s))"

definition IsBucket :: "nat \<Rightarrow> NodeData \<Rightarrow> bool res" where
  "IsBucket i n = bind_res (assert_res (i < node_count n)) (\<lambda>_. Inr (is_bucket (slots n i)))"

definition SetIsBucket :: "nat \<Rightarrow> bool \<Rightarrow> NodeData \<Rightarrow> NodeData res" where
  "SetIsBucket i b n =
     bind_res (assert_res (i < node_count n)) (\<lambda>_.
     Inr (n\<lparr>slots := (slots n)(i := (slots n i)\<lparr>is_bucket := b\<rparr>)\<rparr>))"

definition LeafNode_Update ::
    "PageId \<Rightarrow> nat \<Rightarrow> key \<Rightarrow> byte list \<Rightarrow> 'a pager_db_scheme \<Rightarrow> (bool \<times> 'a pager_db_scheme) res" where
  "LeafNode_Update pid i key value s =
     (let n = nodes s pid; saved_slot = slots n i in
      bind_res (DeleteRecord i n) (\<lambda>n1.
      bind_res (RequestSpaceFor (pg_size s) (length key) (length value) False n1) (\<lambda>(ok, n2).
      if \<not> ok then bind_res (RestoreRecord i saved_slot n2) (\<lambda>n3. Inr (False, set_node pid n3 s))
      else bind_res (StoreRecord pid i key value (set_node pid n2 s)) (\<lambda>s1.
           bind_res (check_layout (pg_size s) (nodes s1 pid)) (\<lambda>_. Inr (True, s1))))))"

definition LeafNode_Insert ::
    "PageId \<Rightarrow> nat \<Rightarrow> key \<Rightarrow> byte list \<Rightarrow> 'a pager_db_scheme \<Rightarrow> (bool \<times> 'a pager_db_scheme) res" where
  "LeafNode_Insert pid i key value s =
     bind_res (assert_res (i \<le> node_count (nodes s pid))) (\<lambda>_.
     bind_res (RequestSpaceFor (pg_size s) (length key) (length value) True (nodes s pid)) (\<lambda>(ok, n1).
     if \<not> ok then Inr (False, s)
     else let n2 = n1\<lparr>slots := slots_up i (node_count n1) (slots n1), node_count := u14 (node_count n1 + 1)\<rparr>
          in bind_res (StoreRecord pid i key value (set_node pid n2 s)) (\<lambda>s1. Inr (True, s1))))"

definition LeafNode_Append ::
    "PageId \<Rightarrow> key \<Rightarrow> byte list \<Rightarrow> 'a pager_db_scheme \<Rightarrow> (bool \<times> 'a pager_db_scheme) res" where
  "LeafNode_Append pid key value s = LeafNode_Insert pid (node_count (nodes s pid)) key value s"

definition LeafNode_Delete :: "PageId \<Rightarrow> nat \<Rightarrow> 'a pager_db_scheme \<Rightarrow> 'a pager_db_scheme res" where
  "LeafNode_Delete pid i s =
     bind_res (assert_res (i < node_count (nodes s pid))) (\<lambda>_.
     let sl = slots (nodes s pid) i in
     bind_res (release_record pid i (u32 (key_size sl + value_size sl)) s) (\<lambda>s1.
     on_node pid (\<lambda>n.
       let n2 = n\<lparr>slots := slots_down i (node_count n) (slots n), node_count := node_count n - 1\<rparr>
       in bind_res (check_layout (pg_size s) n2) (\<lambda>_. Inr n2)) s1))"

definition LeafNode_Pop :: "PageId \<Rightarrow> 'a pager_db_scheme \<Rightarrow> 'a pager_db_scheme res" where
  "LeafNode_Pop pid s =
     (if node_count (nodes s pid) = 0 then Inl Undefined_behaviour
      else LeafNode_Delete pid (node_count (nodes s pid) - 1) s)"

end
