(* ===== verification/Atomkv_Node_Props.thy ===== *)
theory Atomkv_Node_Props
  imports Atomkv_Node
begin

text \<open>
  The properties of the slotted pages. A node stands for the list of its cells: for each slot its
  header without the offset, and the bytes it points to. The invariant \<open>wf_node\<close> is what the
  assertions of the code check piecemeal; under it every operation has a simple effect on the
  cells, compaction has none, and the free space is exactly what the counters say.
\<close>

section \<open>Cells and the invariant\<close>

type_synonym cell = "Slot \<times> byte list"

definition raw :: "NodeData \<Rightarrow> nat \<Rightarrow> byte list" where
  "raw n i = mem_read (records n) (record_offset (slots n i)) (raw_size n (slots n i))"

definition cell_at :: "NodeData \<Rightarrow> nat \<Rightarrow> cell" where
  "cell_at n i = ((slots n i)\<lparr>record_offset := 0\<rparr>, raw n i)"

definition cells :: "NodeData \<Rightarrow> cell list" where
  "cells n = map (cell_at n) [0..<node_count n]"

definition page_ok :: "nat \<Rightarrow> bool" where
  "page_ok ps \<longleftrightarrow> 256 \<le> ps \<and> ps < 32768 \<and> even ps"

abbreviation slot_end :: "nat \<Rightarrow> nat" where
  "slot_end c \<equiv> 18 + 8 * c"

text \<open>The records of the slots in \<open>I\<close> are in place and \<open>space_used\<close> counts exactly them.\<close>

definition layout :: "nat \<Rightarrow> nat set \<Rightarrow> NodeData \<Rightarrow> bool" where
  "layout ps I n \<longleftrightarrow> slot_end (node_count n) < ps \<and> int (slot_end (node_count n)) \<le> data_offset n \<and>
     data_offset n + int (space_used n) \<le> int ps \<and>
     space_used n = (\<Sum>j\<in>I. raw_size n (slots n j)) \<and>
     (\<forall>j\<in>I. data_offset n \<le> int (record_offset (slots n j)) \<and>
        record_offset (slots n j) + raw_size n (slots n j) \<le> ps)"

definition wf_node :: "nat \<Rightarrow> NodeData \<Rightarrow> bool" where
  "wf_node ps n \<longleftrightarrow> page_ok ps \<and> layout ps {..<node_count n} n"

text \<open>Slot \<open>i\<close> is about to get a record.\<close>

definition wf_but :: "nat \<Rightarrow> nat \<Rightarrow> NodeData \<Rightarrow> bool" where
  "wf_but ps i n \<longleftrightarrow> page_ok ps \<and> i < node_count n \<and> layout ps ({..<node_count n} - {i}) n"

lemma length_raw [simp]: "length (raw n i) = raw_size n (slots n i)"
  by (simp add: raw_def)

lemma length_cells [simp]: "length (cells n) = node_count n"
  by (simp add: cells_def)

lemma nth_cells [simp]: "i < node_count n \<Longrightarrow> cells n ! i = cell_at n i"
  by (simp add: cells_def)

lemma cells_eqI:
  "node_count n' = node_count n \<Longrightarrow> (\<And>i. i < node_count n \<Longrightarrow> cell_at n' i = cell_at n i) \<Longrightarrow> cells n' = cells n"
  by (rule nth_equalityI) simp_all

lemma raw_size_update [simp]:
  "raw_size (n\<lparr>slots := a\<rparr>) = raw_size n" "raw_size (n\<lparr>records := b\<rparr>) = raw_size n"
  "raw_size (n\<lparr>data_offset := c\<rparr>) = raw_size n" "raw_size (n\<lparr>space_used := d\<rparr>) = raw_size n"
  "raw_size (n\<lparr>node_count := e\<rparr>) = raw_size n" "raw_size (n\<lparr>tail_child := f\<rparr>) = raw_size n"
  "raw_size (n\<lparr>last_modified_txid := g\<rparr>) = raw_size n"
  by (rule ext, simp add: raw_size_def IsLeaf_def)+

lemma raw_size_record_offset [simp]: "raw_size n (sl\<lparr>record_offset := a\<rparr>) = raw_size n sl"
  by (simp add: raw_size_def)

lemma layout_cong:
  assumes "node_count n' = node_count n" "data_offset n' = data_offset n" "space_used n' = space_used n"
    "\<And>j. j \<in> I \<Longrightarrow> raw_size n' (slots n' j) = raw_size n (slots n j)"
    "\<And>j. j \<in> I \<Longrightarrow> record_offset (slots n' j) = record_offset (slots n j)"
  shows "layout ps I n' = layout ps I n"
proof -
  have "(\<Sum>j\<in>I. raw_size n' (slots n' j)) = (\<Sum>j\<in>I. raw_size n (slots n j))"
    using assms(4) by (rule sum.cong[OF refl])
  then show ?thesis unfolding layout_def using assms by simp
qed

lemma wf_node_bounds:
  assumes "wf_node ps n"
  shows "node_count n < 4096" "slot_end (node_count n) < ps" "space_used n \<le> ps" "ps < 32768"
    "0 \<le> data_offset n" "data_offset n \<le> int ps"
  using assms by (auto simp: wf_node_def layout_def page_ok_def)


section \<open>Free space\<close>

lemma SlotSpace_eq: "slot_end (node_count n) < ps \<Longrightarrow> SlotSpace ps n = Inr (slot_end (node_count n))"
  by (simp add: SlotSpace_def node_sizes)

lemma FreeSpace_eq:
  assumes "slot_end (node_count n) < ps" "int (slot_end (node_count n)) \<le> data_offset n" "data_offset n \<le> int ps"
  shows "FreeSpace ps n = Inr (nat (data_offset n) - slot_end (node_count n))"
proof -
  define ss where "ss = slot_end (node_count n)"
  have "nat (data_offset n - int ss) = nat (data_offset n) - ss" "nat (data_offset n) - ss < ps" "int ss \<le> data_offset n"
    using assms by (simp_all add: ss_def; linarith)+
  then show ?thesis using assms(1) by (simp add: FreeSpace_def SlotSpace_eq Let_def flip: ss_def)
qed

lemma check_layout_eq:
  assumes "slot_end (node_count n) < ps" "int (slot_end (node_count n)) \<le> data_offset n" "data_offset n \<le> int ps"
  shows "check_layout ps n = Inr ()"
  using assms by (auto simp: check_layout_def SlotSpace_eq FreeSpace_eq)

lemma FreeSpaceAfterCompaction_eq:
  assumes "wf_node ps n"
  shows "FreeSpaceAfterCompaction ps n = Inr (ps - slot_end (node_count n) - space_used n)"
  using assms wf_node_bounds(2)[OF assms]
  by (auto simp: FreeSpaceAfterCompaction_def SlotSpace_eq wf_node_def layout_def)

lemma MaxInlineRecordSize_eq: "page_ok ps \<Longrightarrow> MaxInlineRecordSize ps = Inr ((ps - 34) div 2)"
  by (auto simp: MaxInlineRecordSize_def page_ok_def node_sizes)


section \<open>Compaction\<close>

text \<open>The bytes of the first \<open>k\<close> records.\<close>

definition used_by :: "NodeData \<Rightarrow> nat \<Rightarrow> nat" where
  "used_by n k = (\<Sum>j<k. raw_size n (slots n j))"

lemma used_by_simps [simp]: "used_by n 0 = 0" "used_by n (Suc k) = used_by n k + raw_size n (slots n k)"
  by (simp_all add: used_by_def)

lemma used_by_mono: "j \<le> k \<Longrightarrow> used_by n j \<le> used_by n k"
  unfolding used_by_def by (rule sum_mono2) auto

lemma wf_used_by: "wf_node ps n \<Longrightarrow> used_by n (node_count n) = space_used n"
  by (simp add: wf_node_def layout_def used_by_def)

definition packed :: "nat \<Rightarrow> nat \<Rightarrow> NodeData \<Rightarrow> nat \<Rightarrow> Slot" where
  "packed ps k n = (\<lambda>j. if j < k then (slots n j)\<lparr>record_offset := ps - used_by n (Suc j)\<rparr> else slots n j)"

lemma copy_records:
  assumes us: "used_by n (node_count n) \<le> ps" and ps: "ps < 32768" and k: "k \<le> node_count n"
  shows "\<exists>tmp. fold_res copy_record [0..<k] (n, int ps, 0, tmp0) =
      Inr (n\<lparr>slots := packed ps k n\<rparr>, int (ps - used_by n k), used_by n k, tmp) \<and>
    (\<forall>j<k. mem_read tmp (ps - used_by n (Suc j)) (raw_size n (slots n j)) = raw n j)"
  using k
proof (induction k)
  case 0
  then show ?case by (simp add: packed_def)
next
  case (Suc k)
  then obtain tmp where IH: "fold_res copy_record [0..<k] (n, int ps, 0, tmp0) =
      Inr (n\<lparr>slots := packed ps k n\<rparr>, int (ps - used_by n k), used_by n k, tmp)"
    "\<forall>j<k. mem_read tmp (ps - used_by n (Suc j)) (raw_size n (slots n j)) = raw n j" by auto
  let ?r = "raw_size n (slots n k)" and ?o = "ps - used_by n (Suc k)"
  have b: "used_by n (Suc k) \<le> ps" "ps < 32768"
    using used_by_mono[OF Suc.prems, of n] us ps by linarith+
  have off: "s16 (int (ps - used_by n k) - int ?r) = int ?o" using b by simp
  have us16: "u16 (used_by n k + ?r) = used_by n (Suc k)" using b by simp
  have u15: "u15 ?o = ?o" using b by (simp add: u15_def)
  have sl: "(packed ps k n)(k := (slots n k)\<lparr>record_offset := ?o\<rparr>) = packed ps (Suc k) n"
    by (rule ext) (auto simp: packed_def less_Suc_eq)
  define tmp' where "tmp' = mem_copy tmp ?o (records n) (record_offset (slots n k)) ?r"
  have pk: "packed ps k n k = slots n k" by (simp add: packed_def)
  have "copy_record k (n\<lparr>slots := packed ps k n\<rparr>, int (ps - used_by n k), used_by n k, tmp) =
      Inr (n\<lparr>slots := packed ps (Suc k) n\<rparr>, int ?o, used_by n (Suc k), tmp')"
    unfolding copy_record_def Let_def prod.case
    using off us16 u15 sl by (simp add: pk tmp'_def del: used_by_simps)
  moreover have "mem_read tmp' (ps - used_by n (Suc j)) (raw_size n (slots n j)) = raw n j" if "j < Suc k" for j
  proof (cases "j = k")
    case True
    then show ?thesis by (simp add: tmp'_def mem_copy_inside raw_def del: used_by_simps)
  next
    case False
    then have "j < k" using that by simp
    then have "used_by n (Suc j) \<le> used_by n k" by (intro used_by_mono) simp
    then have "?o + ?r \<le> ps - used_by n (Suc j)" using b(1) by simp
    then show ?thesis using IH(2) \<open>j < k\<close> by (simp add: tmp'_def mem_copy_outside del: used_by_simps)
  qed
  ultimately show ?case using IH(1) by (auto simp: fold_res_append fold_res_single simp del: used_by_simps)
qed

lemma Compactify_result:
  assumes wf: "wf_node ps n"
  obtains n' where "Compactify ps n = Inr n'" "wf_node ps n'" "cells n' = cells n"
    "data_offset n' = int (ps - space_used n)" "node_count n' = node_count n" "space_used n' = space_used n"
    "node_type n' = node_type n" "tail_child n' = tail_child n" "last_modified_txid n' = last_modified_txid n"
proof -
  let ?c = "node_count n" and ?u = "space_used n"
  obtain tmp where t: "fold_res copy_record [0..<?c] (n, int ps, 0, \<lambda>_. 0) =
      Inr (n\<lparr>slots := packed ps ?c n\<rparr>, int (ps - ?u), ?u, tmp)"
    "\<forall>j<?c. mem_read tmp (ps - used_by n (Suc j)) (raw_size n (slots n j)) = raw n j"
    using copy_records[of n ps ?c "\<lambda>_. 0"] wf_used_by[OF wf] wf_node_bounds(3,4)[OF wf] by auto
  note b = wf_node_bounds[OF wf]
  define n' where "n' = n\<lparr>slots := packed ps ?c n, data_offset := int (ps - ?u),
    records := mem_copy (records n) (ps - ?u) tmp (ps - ?u) ?u\<rparr>"
  have r: "Compactify ps n = Inr n'"
    using t(1) b by (simp add: Compactify_def CopyRecordRange_def n'_def del: of_nat_diff)
  have le: "used_by n (Suc j) \<le> ?u" if "j < ?c" for j
    using used_by_mono[of "Suc j" ?c n] that wf_used_by[OF wf] by simp
  have rawe: "raw n' j = raw n j" if j: "j < ?c" for j
  proof -
    have "mem_read (mem_copy (records n) (ps - ?u) tmp (ps - ?u) ?u) (ps - used_by n (Suc j)) (raw_size n (slots n j))
        = mem_read tmp (ps - used_by n (Suc j)) (raw_size n (slots n j))"
      using le[OF j] b(3) by (subst mem_copy_inside) (auto simp del: used_by_simps simp: used_by_simps(2))
    then show ?thesis using t(2) j by (simp add: raw_def n'_def packed_def del: used_by_simps)
  qed
  have "(slots n' j)\<lparr>record_offset := 0\<rparr> = (slots n j)\<lparr>record_offset := 0\<rparr>" for j
    by (simp add: n'_def packed_def)
  then have cellse: "cells n' = cells n"
    by (intro cells_eqI) (simp_all add: cell_at_def rawe, simp add: n'_def)
  have "layout ps {..<?c} n'"
    unfolding layout_def
  proof (intro conjI ballI)
    show "slot_end (node_count n') < ps" using b(2) by (simp add: n'_def)
    show "int (slot_end (node_count n')) \<le> data_offset n'"
      using wf b(3) by (auto simp: n'_def wf_node_def layout_def)
    show "data_offset n' + int (space_used n') \<le> int ps" using b(3) by (simp add: n'_def)
    have "raw_size n' (slots n' j) = raw_size n (slots n j)" for j by (simp add: n'_def packed_def)
    then have "(\<Sum>j\<in>{..<?c}. raw_size n' (slots n' j)) = space_used n"
      using wf by (simp add: wf_node_def layout_def)
    then show "space_used n' = (\<Sum>j\<in>{..<?c}. raw_size n' (slots n' j))" by (simp add: n'_def)
    fix j assume "j \<in> {..<?c}"
    then show "data_offset n' \<le> int (record_offset (slots n' j))"
      "record_offset (slots n' j) + raw_size n' (slots n' j) \<le> ps"
      using le[of j] b(3) by (simp_all add: n'_def packed_def)
  qed
  then have "wf_node ps n'" using wf by (simp add: wf_node_def n'_def)
  then show thesis using that[OF r] cellse by (simp add: n'_def)
qed


section \<open>Requesting space\<close>

text \<open>The bytes a record needs in the page, and whether they fit.\<close>

definition record_need :: "nat \<Rightarrow> nat \<Rightarrow> bool \<Rightarrow> nat" where
  "record_need ps len slot_needed =
     (if len > (ps - 34) div 2 then 4 else len) + (if slot_needed then 8 else 0)"

definition fits :: "nat \<Rightarrow> nat \<Rightarrow> bool \<Rightarrow> NodeData \<Rightarrow> bool" where
  "fits ps len slot_needed n \<longleftrightarrow> slot_end (node_count n) + space_used n + record_need ps len slot_needed \<le> ps"

text \<open>The page as \<^verbatim>\<open>RequestSpaceFor\<close> leaves it: the same cells, perhaps packed.\<close>

definition same_cells :: "NodeData \<Rightarrow> NodeData \<Rightarrow> bool" where
  "same_cells n n' \<longleftrightarrow> cells n' = cells n \<and> node_count n' = node_count n \<and> space_used n' = space_used n \<and>
     node_type n' = node_type n \<and> tail_child n' = tail_child n \<and> last_modified_txid n' = last_modified_txid n"

lemma RequestSpaceFor_eq:
  assumes wf: "wf_node ps n"
  shows "if fits ps (kl + vl) sn n
    then \<exists>n'. RequestSpaceFor ps kl vl sn n = Inr (True, n') \<and> wf_node ps n' \<and> same_cells n n' \<and>
      int (slot_end (node_count n) + record_need ps (kl + vl) sn) \<le> data_offset n'
    else RequestSpaceFor ps kl vl sn n = Inr (False, n)"
proof -
  note b = wf_node_bounds[OF wf]
  define need where "need = record_need ps (kl + vl) sn"
  define fs where "fs = nat (data_offset n) - slot_end (node_count n)"
  define fc where "fc = ps - slot_end (node_count n) - space_used n"
  have lo: "int (slot_end (node_count n)) \<le> data_offset n" "data_offset n + int (space_used n) \<le> int ps"
    using wf by (auto simp: wf_node_def layout_def)
  have R: "RequestSpaceFor ps kl vl sn n = (if need \<le> fs then Inr (True, n)
      else if need \<le> fc then bind_res (Compactify ps n) (\<lambda>n'. Inr (True, n')) else Inr (False, n))"
    using wf FreeSpace_eq[OF b(2) lo(1) b(6)] FreeSpaceAfterCompaction_eq[OF wf]
    by (auto simp: RequestSpaceFor_def MaxInlineRecordSize_eq wf_node_def Let_def SpaceNeeded_def
        need_def record_need_def fs_def fc_def node_sizes)
  have le: "fs \<le> fc" using lo by (simp add: fs_def fc_def)
  have fit: "fits ps (kl + vl) sn n \<longleftrightarrow> need \<le> fc"
    using lo by (auto simp: fits_def fc_def need_def)
  show ?thesis
  proof (cases "need \<le> fc")
    case False
    then show ?thesis using R le fit by simp
  next
    case True
    show ?thesis
    proof (cases "need \<le> fs")
      case fit': True
      have "int (slot_end (node_count n) + need) \<le> data_offset n" using fit' lo by (simp add: fs_def)
      then show ?thesis using True fit' R fit wf by (auto simp: same_cells_def need_def)
    next
      case False
      obtain n' where n': "Compactify ps n = Inr n'" "wf_node ps n'" "same_cells n n'"
        "data_offset n' = int (ps - space_used n)"
        by (rule Compactify_result[OF wf]) (auto simp: same_cells_def)
      have "int (slot_end (node_count n) + need) \<le> data_offset n'" using True lo n'(4) by (simp add: fc_def)
      then show ?thesis using True False R fit n' by (auto simp: need_def)
    qed
  qed
qed


section \<open>Placing a record\<close>

lemma place_record_result:
  assumes wf: "wf_but ps i n" and rec: "length rec = raw_size n ((slots n i)\<lparr>is_overflow_pages := ov\<rparr>)"
    and room: "int (slot_end (node_count n) + length rec) \<le> data_offset n"
  obtains n' where "place_record ps i ov rec n = Inr n'" "wf_node ps n'" "node_count n' = node_count n"
    "cell_at n' i = ((slots n i)\<lparr>record_offset := 0, is_overflow_pages := ov\<rparr>, rec)"
    "\<forall>j < node_count n. j \<noteq> i \<longrightarrow> cell_at n' j = cell_at n j"
    "node_type n' = node_type n" "tail_child n' = tail_child n" "last_modified_txid n' = last_modified_txid n"
proof -
  let ?c = "node_count n" and ?l = "length rec"
  have w: "page_ok ps" "i < ?c" "slot_end ?c < ps" "data_offset n + int (space_used n) \<le> int ps"
    "space_used n = (\<Sum>j\<in>{..<?c} - {i}. raw_size n (slots n j))"
    and inn: "\<And>j. j < ?c \<Longrightarrow> j \<noteq> i \<Longrightarrow> data_offset n \<le> int (record_offset (slots n j)) \<and>
        record_offset (slots n j) + raw_size n (slots n j) \<le> ps"
    using wf by (auto simp: wf_but_def layout_def)
  define off where "off = nat (data_offset n) - ?l"
  have o: "data_offset n - int ?l = int off" "off + ?l \<le> ps" "slot_end ?c \<le> off" "ps < 32768"
    "off + ?l + space_used n \<le> ps"
    using room w(4) w(1) by (auto simp: off_def page_ok_def)
  have e: "s16 (data_offset n - int ?l) = int off" "u15 (nat (int off mod 65536)) = off"
    "u16 (space_used n + ?l) = space_used n + ?l"
    using o by (simp_all add: u15_def)
  define sl where "sl = (slots n i)\<lparr>record_offset := off, is_overflow_pages := ov\<rparr>"
  define n' where "n' = n\<lparr>data_offset := int off, space_used := space_used n + ?l,
     slots := (slots n)(i := sl), records := mem_write (records n) off rec\<rparr>"
  have rs: "raw_size n sl = ?l" by (simp add: rec sl_def raw_size_def)
  have cl: "check_layout ps n' = Inr ()"
    by (rule check_layout_eq) (use o w(3) in \<open>simp_all add: n'_def\<close>)
  have r: "place_record ps i ov rec n = Inr n'"
    using room w(2) o(2) cl e by (simp add: place_record_def Let_def sl_def n'_def)
  have ci: "cell_at n' i = ((slots n i)\<lparr>record_offset := 0, is_overflow_pages := ov\<rparr>, rec)"
    using rs by (simp add: cell_at_def raw_def n'_def) (simp add: sl_def)
  have cj: "cell_at n' j = cell_at n j" if j: "j < ?c" "j \<noteq> i" for j
  proof -
    have "off + ?l \<le> record_offset (slots n j)" using inn[OF j] o(1) by linarith
    then show ?thesis using j by (simp add: cell_at_def raw_def n'_def mem_read_write_other)
  qed
  have "layout ps {..<?c} n'"
    unfolding layout_def
  proof (intro conjI ballI)
    show "slot_end (node_count n') < ps" "int (slot_end (node_count n')) \<le> data_offset n'"
      "data_offset n' + int (space_used n') \<le> int ps"
      using w(3) o by (simp_all add: n'_def)
    have "(\<Sum>j\<in>{..<?c}. raw_size n' (slots n' j)) = raw_size n' (slots n' i) + (\<Sum>j\<in>{..<?c} - {i}. raw_size n' (slots n' j))"
      using w(2) by (intro sum.remove) simp_all
    also have "\<dots> = ?l + space_used n" using w(5) rs by (simp add: n'_def)
    finally show "space_used n' = (\<Sum>j\<in>{..<?c}. raw_size n' (slots n' j))" by (simp add: n'_def)
    fix j assume j: "j \<in> {..<?c}"
    show "data_offset n' \<le> int (record_offset (slots n' j))"
      using inn[of j] j o(1) by (cases "j = i") (auto simp: n'_def sl_def)
    show "record_offset (slots n' j) + raw_size n' (slots n' j) \<le> ps"
      using inn[of j] j o(2) rs by (cases "j = i") (auto simp: n'_def, simp add: sl_def)
  qed
  then have "wf_node ps n'" using w(1) by (simp add: wf_node_def n'_def)
  then show thesis using that[OF r] ci cj by (simp add: n'_def)
qed


section \<open>Storing a record\<close>

lemma set_node_simps [simp]:
  "nodes (set_node pid n s) pid = n" "pg_size (set_node pid n s) = pg_size s" "mem (set_node pid n s) = mem s"
  "map_size (set_node pid n s) = map_size s" "set_node pid n' (set_node pid n s) = set_node pid n' s"
  "update_meta (set_node pid n s) = update_meta s"
  by (simp_all add: set_node_def)

lemma IsLeaf_update [simp]:
  "IsLeaf (n\<lparr>slots := a\<rparr>) = IsLeaf n" "IsLeaf (n\<lparr>node_count := e\<rparr>) = IsLeaf n"
  "IsLeaf (n\<lparr>space_used := d\<rparr>) = IsLeaf n" "IsLeaf (n\<lparr>tail_child := f\<rparr>) = IsLeaf n"
  by (simp_all add: IsLeaf_def)

lemma raw_size_cong: "node_type n' = node_type n \<Longrightarrow> raw_size n' = raw_size n"
  by (rule ext) (simp add: raw_size_def IsLeaf_def)

text \<open>The slot header that \<^verbatim>\<open>StoreRecord\<close> leaves, without its offset.\<close>

definition stored_slot :: "NodeData \<Rightarrow> Slot \<Rightarrow> bool \<Rightarrow> nat \<Rightarrow> nat \<Rightarrow> Slot" where
  "stored_slot n sl ov kl vl = (if IsLeaf n
     then sl\<lparr>record_offset := 0, is_overflow_pages := ov, key_size := kl, child_or_size := vl\<rparr>
     else sl\<lparr>record_offset := 0, is_overflow_pages := ov, key_size := kl\<rparr>)"

lemma set_sizes_wf_but: "wf_but ps i n \<Longrightarrow> wf_but ps i (set_sizes i kl vl n)"
  unfolding wf_but_def
  by (subst layout_cong[of _ n]) (simp_all add: set_sizes_def)

lemma StoreRecord_inline:
  assumes wf: "wf_but (pg_size s) i (nodes s pid)"
    and len: "length key + length value \<le> (pg_size s - 34) div 2"
    and leaf: "IsLeaf (nodes s pid) \<or> value = []"
    and room: "int (slot_end (node_count (nodes s pid)) + length key + length value) \<le> data_offset (nodes s pid)"
  obtains n' where "StoreRecord pid i key value s = Inr (set_node pid n' s)" "wf_node (pg_size s) n'"
    "node_count n' = node_count (nodes s pid)"
    "cell_at n' i = (stored_slot (nodes s pid) (slots (nodes s pid) i) False (length key) (length value), key @ value)"
    "\<forall>j < node_count (nodes s pid). j \<noteq> i \<longrightarrow> cell_at n' j = cell_at (nodes s pid) j"
    "node_type n' = node_type (nodes s pid)" "tail_child n' = tail_child (nodes s pid)"
    "last_modified_txid n' = last_modified_txid (nodes s pid)"
proof -
  define n where "n = nodes s pid"
  define m where "m = set_sizes i (length key) (length value) n"
  let ?ps = "pg_size s"
  have ps: "page_ok ?ps" using wf by (simp add: wf_but_def)
  then have b: "length key < 32768" "length value < 4294967296" "length key \<le> ?ps" "?ps < 32768"
    using len by (auto simp: page_ok_def)
  have sl: "slots m i = (if IsLeaf n then (slots n i)\<lparr>key_size := length key, child_or_size := length value\<rparr>
      else (slots n i)\<lparr>key_size := length key\<rparr>)"
    using b by (simp add: m_def set_sizes_def u15_def)
  have f: "node_count m = node_count n" "data_offset m = data_offset n" "node_type m = node_type n"
    "tail_child m = tail_child n" "last_modified_txid m = last_modified_txid n"
    "\<And>j. j \<noteq> i \<Longrightarrow> cell_at m j = cell_at n j" "IsLeaf m = IsLeaf n"
    by (simp_all add: m_def set_sizes_def cell_at_def raw_def)
  have wm: "wf_but ?ps i m" using set_sizes_wf_but[OF wf] by (simp add: m_def n_def)
  have lr: "length (key @ value) = raw_size m ((slots m i)\<lparr>is_overflow_pages := False\<rparr>)"
    using leaf by (auto simp: raw_size_def sl f(7) n_def)
  have rm: "int (slot_end (node_count m) + length (key @ value)) \<le> data_offset m"
    using room by (simp add: f n_def)
  obtain n' where p: "place_record ?ps i False (key @ value) m = Inr n'" "wf_node ?ps n'"
    "node_count n' = node_count m"
    "cell_at n' i = ((slots m i)\<lparr>record_offset := 0, is_overflow_pages := False\<rparr>, key @ value)"
    "\<forall>j < node_count m. j \<noteq> i \<longrightarrow> cell_at n' j = cell_at m j"
    "node_type n' = node_type m" "tail_child n' = tail_child m" "last_modified_txid n' = last_modified_txid m"
    by (rule place_record_result[OF wm lr rm])
  have "StoreRecord pid i key value s = Inr (set_node pid n' s)"
    using b len p(1) MaxInlineRecordSize_eq[OF ps]
    by (simp add: StoreRecord_def throw_if_def kKeyMaxSize_def kValueMaxSize_def on_node_def m_def n_def)
  moreover have "cell_at n' i = (stored_slot n (slots n i) False (length key) (length value), key @ value)"
    using p(4) by (simp add: sl stored_slot_def)
  ultimately show thesis using that p f by (simp add: n_def)
qed


section \<open>Inserting into a leaf\<close>

lemma slots_up_nth: "i \<le> c \<Longrightarrow> j < Suc c \<Longrightarrow> j \<noteq> i \<Longrightarrow> slots_up i c sl j = sl (if j < i then j else j - 1)"
  by (auto simp: slots_up_def)

lemma slots_down_nth: "j + 1 < c \<Longrightarrow> slots_down i c sl j = sl (if j < i then j else j + 1)"
  by (auto simp: slots_down_def)

text \<open>Room for a slot at \<open>i\<close>: all other slots keep their records. The slot may have been filled already.\<close>

lemma make_room:
  assumes wf: "wf_node ps n" and i: "i \<le> node_count n" and rm: "int (slot_end (node_count n) + 8) \<le> data_offset n"
    and lt: "slot_end (node_count n) + 8 < ps"
    and sl: "\<And>j. j < Suc (node_count n) \<Longrightarrow> j \<noteq> i \<Longrightarrow>
      raw_size n (sl j) = raw_size n (slots n (if j < i then j else j - 1)) \<and>
      record_offset (sl j) = record_offset (slots n (if j < i then j else j - 1))"
  shows "wf_but ps i (n\<lparr>slots := sl, node_count := Suc (node_count n), tail_child := tc\<rparr>)"
proof -
  let ?c = "node_count n"
  have w: "page_ok ps" "data_offset n + int (space_used n) \<le> int ps"
    "space_used n = (\<Sum>j<?c. raw_size n (slots n j))"
    and inn: "\<And>j. j < ?c \<Longrightarrow> data_offset n \<le> int (record_offset (slots n j)) \<and>
        record_offset (slots n j) + raw_size n (slots n j) \<le> ps"
    using wf by (auto simp: wf_node_def layout_def)
  have "(\<Sum>j\<in>{..<Suc ?c} - {i}. raw_size n (sl j)) =
      (\<Sum>j\<in>{..<Suc ?c} - {i}. raw_size n (slots n (if j < i then j else j - 1)))"
    using sl by (intro sum.cong) auto
  also have "\<dots> = space_used n" using sum_shift_up[OF i, of "\<lambda>j. raw_size n (slots n j)"] w(3) by simp
  finally have su: "space_used n = (\<Sum>j\<in>{..<Suc ?c} - {i}. raw_size n (sl j))" by simp
  have pl: "data_offset n \<le> int (record_offset (sl j)) \<and> record_offset (sl j) + raw_size n (sl j) \<le> ps"
    if "j \<in> {..<Suc ?c} - {i}" for j
    using sl[of j] that inn[of "if j < i then j else j - 1"] i by auto
  show ?thesis
    unfolding wf_but_def layout_def using w(1,2) i rm lt su pl by simp
qed

text \<open>An insertion that fits: the page has the new cell at \<open>i\<close> and the others around it.\<close>

lemma cells_insert:
  assumes "node_count n' = Suc (node_count n)" "i \<le> node_count n" "cell_at n' i = x"
    "\<And>j. j < Suc (node_count n) \<Longrightarrow> j \<noteq> i \<Longrightarrow> cell_at n' j = cell_at n (if j < i then j else j - 1)"
  shows "cells n' = insert_at i x (cells n)"
proof (rule nth_equalityI)
  fix j assume "j < length (cells n')"
  then have j: "j < Suc (node_count n)" using assms(1) by simp
  show "cells n' ! j = insert_at i x (cells n) ! j"
    using assms(1,2,3) assms(4)[OF j] j by (auto simp: nth_insert_at)
qed (simp add: assms(1))

lemma cells_delete:
  assumes "node_count n' = node_count n - 1" "i < node_count n"
    "\<And>j. j + 1 < node_count n \<Longrightarrow> cell_at n' j = cell_at n (if j < i then j else j + 1)"
  shows "cells n' = erase_at i (cells n)"
proof (rule nth_equalityI)
  fix j assume "j < length (cells n')"
  then have j: "j + 1 < node_count n" using assms(1) by simp
  show "cells n' ! j = erase_at i (cells n) ! j"
    using assms(1,2) assms(3)[OF j] j by (auto simp: nth_erase_at)
qed (use assms in simp)

lemma same_cells_at: "same_cells n n' \<Longrightarrow> j < node_count n \<Longrightarrow> cell_at n' j = cell_at n j"
  unfolding same_cells_def by (metis nth_cells)

lemma record_need_slot: "len \<le> (ps - 34) div 2 \<Longrightarrow> record_need ps len True = len + 8"
  "len \<le> (ps - 34) div 2 \<Longrightarrow> record_need ps len False = len"
  by (simp_all add: record_need_def)

text \<open>The slot headers of a leaf record and of a branch record.\<close>

definition leaf_slot :: "bool \<Rightarrow> bool \<Rightarrow> nat \<Rightarrow> nat \<Rightarrow> Slot" where
  "leaf_slot ov b kl vl = \<lparr>record_offset = 0, is_overflow_pages = ov, key_size = kl, is_bucket = b, child_or_size = vl\<rparr>"

lemma stored_leaf: "IsLeaf n \<Longrightarrow> stored_slot n sl ov kl vl = leaf_slot ov (is_bucket sl) kl vl"
  by (cases sl) (simp add: stored_slot_def leaf_slot_def)

lemma stored_branch: "\<not> IsLeaf n \<Longrightarrow> stored_slot n sl ov kl vl = leaf_slot ov (is_bucket sl) kl (left_child sl)"
  by (cases sl) (simp add: stored_slot_def leaf_slot_def)

lemma LeafNode_Insert_result:
  assumes wf: "wf_node (pg_size s) (nodes s pid)" and leaf: "IsLeaf (nodes s pid)" and i: "i \<le> node_count (nodes s pid)"
    and len: "0 < length key + length value" "length key + length value \<le> (pg_size s - 34) div 2"
    and fit: "fits (pg_size s) (length key + length value) True (nodes s pid)"
  obtains n' b where "LeafNode_Insert pid i key value s = Inr (True, set_node pid n' s)" "wf_node (pg_size s) n'" "IsLeaf n'"
    "cells n' = insert_at i (leaf_slot False b (length key) (length value), key @ value) (cells (nodes s pid))"
    "last_modified_txid n' = last_modified_txid (nodes s pid)"
proof -
  define n where "n = nodes s pid"
  let ?ps = "pg_size s" and ?c = "node_count n" and ?l = "length key + length value"
  obtain n1 where r: "RequestSpaceFor ?ps (length key) (length value) True n = Inr (True, n1)"
    "wf_node ?ps n1" "same_cells n n1" "int (slot_end ?c + (?l + 8)) \<le> data_offset n1"
    using RequestSpaceFor_eq[OF wf, of "length key" "length value" True] fit record_need_slot(1)[OF len(2)]
    by (auto simp: n_def)
  have sc: "node_count n1 = ?c" "node_type n1 = node_type n" using r(3) by (simp_all add: same_cells_def)
  note b1 = wf_node_bounds[OF r(2)]
  define n2 where "n2 = n1\<lparr>slots := slots_up i ?c (slots n1), node_count := Suc ?c\<rparr>"
  have u14: "u14 (node_count n1 + 1) = Suc ?c" using b1(1) sc by (simp add: u14_def)
  have lt: "slot_end ?c + 8 < ?ps" using r(4) b1(6) len(1) by linarith
  have "wf_but ?ps i (n1\<lparr>slots := slots_up i ?c (slots n1), node_count := Suc (node_count n1), tail_child := tail_child n1\<rparr>)"
    by (rule make_room[OF r(2)]) (use i r(4) lt sc in \<open>auto simp: slots_up_nth n_def\<close>)
  then have w2: "wf_but ?ps i n2" by (simp add: n2_def sc)
  have c2: "cell_at n2 j = cell_at n (if j < i then j else j - 1)" if "j < Suc ?c" "j \<noteq> i" for j
  proof -
    have "cell_at n2 j = cell_at n1 (if j < i then j else j - 1)"
      using that i by (simp add: cell_at_def raw_def n2_def slots_up_nth n_def)
    then show ?thesis using same_cells_at[OF r(3)] that i by (auto simp: n_def)
  qed
  have leaf2: "IsLeaf n2" using leaf sc by (simp add: n2_def n_def IsLeaf_def)
  let ?s = "set_node pid n2 s"
  have n2f: "nodes ?s pid = n2" "pg_size ?s = ?ps" by simp_all
  have rm: "int (slot_end (node_count n2) + length key + length value) \<le> data_offset n2"
    using r(4) by (simp add: n2_def)
  obtain n' where p: "StoreRecord pid i key value ?s = Inr (set_node pid n' ?s)" "wf_node ?ps n'"
    "node_count n' = node_count n2"
    "cell_at n' i = (stored_slot n2 (slots n2 i) False (length key) (length value), key @ value)"
    "\<forall>j < node_count n2. j \<noteq> i \<longrightarrow> cell_at n' j = cell_at n2 j"
    "node_type n' = node_type n2" "last_modified_txid n' = last_modified_txid n2"
    by (rule StoreRecord_inline[of ?s i pid key "value", unfolded n2f, OF w2 len(2) _ rm]) (use leaf2 in auto)
  have "LeafNode_Insert pid i key value s = Inr (True, set_node pid n' s)"
    using i r(1) p(1) u14 sc by (simp add: LeafNode_Insert_def n_def n2_def)
  moreover have "cells n' = insert_at i (leaf_slot False (is_bucket (slots n2 i)) (length key) (length value), key @ value) (cells n)"
    by (rule cells_insert) (use p c2 i leaf2 stored_leaf in \<open>auto simp: n2_def n_def\<close>)
  moreover have "IsLeaf n'" using leaf2 p(6) by (simp add: IsLeaf_def)
  moreover have "last_modified_txid n' = last_modified_txid n"
    using p(7) r(3) by (simp add: n2_def same_cells_def)
  ultimately show thesis using that p(2) by (auto simp: n_def)
qed

lemma LeafNode_Insert_full:
  assumes "wf_node (pg_size s) (nodes s pid)" "i \<le> node_count (nodes s pid)"
    "\<not> fits (pg_size s) (length key + length value) True (nodes s pid)"
  shows "LeafNode_Insert pid i key value s = Inr (False, s)"
  using RequestSpaceFor_eq[OF assms(1), of "length key" "length value" True] assms(2,3)
  by (simp add: LeafNode_Insert_def)


section \<open>Inserting into a branch\<close>

text \<open>
  A branch node stands for its separators (the cells without their children) and its children,
  one more than separators.
\<close>

definition separator :: "cell \<Rightarrow> cell" where
  "separator c = ((fst c)\<lparr>child_or_size := 0\<rparr>, snd c)"

definition separators :: "NodeData \<Rightarrow> cell list" where
  "separators n = map separator (cells n)"

definition children :: "NodeData \<Rightarrow> PageId list" where
  "children n = map (\<lambda>c. left_child (fst c)) (cells n) @ [tail_child n]"

lemma length_children [simp]: "length (children n) = Suc (node_count n)"
  by (simp add: children_def)

lemma length_separators [simp]: "length (separators n) = node_count n"
  by (simp add: separators_def)

lemma nth_children: "j \<le> node_count n \<Longrightarrow> children n ! j = (if j = node_count n then tail_child n else left_child (slots n j))"
  by (auto simp: children_def nth_append cell_at_def)

lemma nth_separators [simp]: "j < node_count n \<Longrightarrow> separators n ! j = separator (cell_at n j)"
  by (simp add: separators_def)

lemma children_cong: "cells n' = cells n \<Longrightarrow> tail_child n' = tail_child n \<Longrightarrow> children n' = children n"
  by (simp add: children_def)

lemma insert_child_frame:
  "insert_child i child r n =
     n\<lparr>slots := slots (insert_child i child r n), tail_child := tail_child (insert_child i child r n)\<rparr>"
  by (simp add: insert_child_def Let_def)

lemma insert_child_slot:
  assumes "i \<le> node_count n" "j < Suc (node_count n)" "j \<noteq> i"
  shows "(slots (insert_child i child r n) j)\<lparr>child_or_size := 0\<rparr> =
    (slots n (if j < i then j else j - 1))\<lparr>child_or_size := 0\<rparr>"
  using assms by (auto simp: insert_child_def Let_def slots_up_nth)

lemma insert_child_children:
  assumes "i \<le> node_count n"
  shows "children ((insert_child i child r n)\<lparr>node_count := Suc (node_count n)\<rparr>) =
    insert_at (if r then Suc i else i) child (children n)"
proof (rule nth_equalityI)
  fix j assume "j < length (children ((insert_child i child r n)\<lparr>node_count := Suc (node_count n)\<rparr>))"
  then have "j \<le> Suc (node_count n)" by simp
  then show "children ((insert_child i child r n)\<lparr>node_count := Suc (node_count n)\<rparr>) ! j =
      insert_at (if r then Suc i else i) child (children n) ! j"
    using assms by (cases r) (auto simp: nth_children nth_insert_at insert_child_def Let_def slots_up_def)
qed simp

lemma slot_child_fields:
  assumes "a\<lparr>child_or_size := 0\<rparr> = b\<lparr>child_or_size := 0\<rparr>"
  shows "record_offset a = record_offset b" "\<not> IsLeaf n \<Longrightarrow> raw_size n a = raw_size n b"
    "a\<lparr>record_offset := 0, child_or_size := 0\<rparr> = b\<lparr>record_offset := 0, child_or_size := 0\<rparr>"
  using assms by (cases a; cases b; simp add: raw_size_def)+

lemma separators_insert:
  assumes "node_count n' = Suc (node_count n)" "i \<le> node_count n" "separator (cell_at n' i) = x"
    "\<And>j. j < Suc (node_count n) \<Longrightarrow> j \<noteq> i \<Longrightarrow>
      separator (cell_at n' j) = separator (cell_at n (if j < i then j else j - 1))"
  shows "separators n' = insert_at i x (separators n)"
proof (rule nth_equalityI)
  fix j assume "j < length (separators n')"
  then have j: "j < Suc (node_count n)" using assms(1) by simp
  show "separators n' ! j = insert_at i x (separators n) ! j"
    using assms(1,2,3) assms(4)[OF j] j by (auto simp: nth_insert_at)
qed (simp add: assms(1))

lemma BranchNode_Insert_result:
  assumes wf: "wf_node (pg_size s) (nodes s pid)" and br: "\<not> IsLeaf (nodes s pid)" and i: "i \<le> node_count (nodes s pid)"
    and len: "0 < length key" "length key \<le> (pg_size s - 34) div 2"
    and fit: "fits (pg_size s) (length key) True (nodes s pid)"
  obtains n' b where "BranchNode_Insert pid i key child r s = Inr (True, set_node pid n' s)" "wf_node (pg_size s) n'"
    "node_type n' = node_type (nodes s pid)" "last_modified_txid n' = last_modified_txid (nodes s pid)"
    "separators n' = insert_at i (leaf_slot False b (length key) 0, key) (separators (nodes s pid))"
    "children n' = insert_at (if r then Suc i else i) child (children (nodes s pid))"
proof -
  define n where "n = nodes s pid"
  let ?ps = "pg_size s" and ?c = "node_count n" and ?l = "length key"
  obtain n1 where rq: "RequestSpaceFor ?ps ?l 0 True n = Inr (True, n1)"
    "wf_node ?ps n1" "same_cells n n1" "int (slot_end ?c + (?l + 8)) \<le> data_offset n1"
    using RequestSpaceFor_eq[OF wf, of "length key" 0 True] fit record_need_slot(1)[OF len(2)]
    by (auto simp: n_def)
  have sc: "node_count n1 = ?c" "node_type n1 = node_type n" "tail_child n1 = tail_child n" "cells n1 = cells n"
    using rq(3) by (simp_all add: same_cells_def)
  note b1 = wf_node_bounds[OF rq(2)]
  define m where "m = insert_child i child r n1"
  define n2 where "n2 = m\<lparr>node_count := Suc ?c\<rparr>"
  have i1: "i \<le> node_count n1" using i sc by (simp add: n_def)
  have mf: "m = n1\<lparr>slots := slots m, tail_child := tail_child m\<rparr>" unfolding m_def by (rule insert_child_frame)
  have mc: "node_count m = ?c" "data_offset m = data_offset n1" "node_type m = node_type n"
    "records m = records n1" "last_modified_txid m = last_modified_txid n1"
    using sc by (subst mf, simp)+
  have u14: "u14 (node_count m + 1) = Suc ?c" using b1(1) sc mc by (simp add: u14_def)
  have lt: "slot_end ?c + 8 < ?ps" using rq(4) b1(6) len(1) by linarith
  have br1: "\<not> IsLeaf n1" using br sc by (simp add: n_def IsLeaf_def)
  note sl = slot_child_fields[OF insert_child_slot[OF i1, of _ child r, folded m_def]]
  have "wf_but ?ps i (n1\<lparr>slots := slots m, node_count := Suc (node_count n1), tail_child := tail_child m\<rparr>)"
    by (rule make_room[OF rq(2) i1]) (use rq(4) lt sc sl(1) sl(2)[OF _ _ br1] in auto)
  moreover have "n2 = n1\<lparr>slots := slots m, node_count := Suc (node_count n1), tail_child := tail_child m\<rparr>"
    unfolding n2_def by (subst mf) (simp add: sc)
  ultimately have w2: "wf_but ?ps i n2" by simp
  have n2f: "node_count n2 = Suc ?c" "data_offset n2 = data_offset n1" "node_type n2 = node_type n"
    "records n2 = records n1" "slots n2 = slots m" "last_modified_txid n2 = last_modified_txid n"
    "tail_child n2 = tail_child m"
    using mc rq(3) by (simp_all add: n2_def same_cells_def)
  have c2: "separator (cell_at n2 j) = separator (cell_at n (if j < i then j else j - 1))" if j: "j < Suc ?c" "j \<noteq> i" for j
  proof -
    let ?k = "if j < i then j else j - 1"
    have j': "j < Suc (node_count n1)" using j sc by simp
    have "raw_size n2 (slots m j) = raw_size n1 (slots n1 ?k)"
      using sl(2)[OF j' j(2) br1] raw_size_cong[of n2 n1] n2f(3) sc(2) by simp
    then have "raw n2 j = raw n1 ?k" unfolding raw_def n2f(4,5) using sl(1)[OF j' j(2)] by simp
    then have "separator (cell_at n2 j) = separator (cell_at n1 ?k)"
      using sl(3)[OF j' j(2)] by (simp add: separator_def cell_at_def n2f)
    then show ?thesis using same_cells_at[OF rq(3)] j i by (auto simp: n_def)
  qed
  let ?s = "set_node pid n2 s"
  have nf: "nodes ?s pid = n2" "pg_size ?s = ?ps" by simp_all
  have rm: "int (slot_end (node_count n2) + length key + length []) \<le> data_offset n2"
    using rq(4) by (simp add: n2f)
  have len': "length key + length [] \<le> (?ps - 34) div 2" using len by simp
  obtain n' where p: "StoreRecord pid i key [] ?s = Inr (set_node pid n' ?s)" "wf_node ?ps n'"
    "node_count n' = node_count n2"
    "cell_at n' i = (stored_slot n2 (slots n2 i) False (length key) (length []), key @ [])"
    "\<forall>j < node_count n2. j \<noteq> i \<longrightarrow> cell_at n' j = cell_at n2 j"
    "node_type n' = node_type n2" "tail_child n' = tail_child n2" "last_modified_txid n' = last_modified_txid n2"
    by (rule StoreRecord_inline[of ?s i pid key "[]", unfolded nf, OF w2 len' _ rm]) auto
  have br2: "\<not> IsLeaf n2" using br n2f(3) by (simp add: n_def IsLeaf_def)
  have "BranchNode_Insert pid i key child r s = Inr (True, set_node pid n' s)"
    using i rq(1) p(1) u14 by (simp add: BranchNode_Insert_def n_def n2_def m_def)
  moreover have "separators n' = insert_at i (leaf_slot False (is_bucket (slots n2 i)) (length key) 0, key) (separators n)"
  proof (rule separators_insert)
    show "separator (cell_at n' i) = (leaf_slot False (is_bucket (slots n2 i)) (length key) 0, key)"
      unfolding p(4) by (simp add: separator_def stored_branch[OF br2] leaf_slot_def)
    fix j assume "j < Suc ?c" "j \<noteq> i"
    then show "separator (cell_at n' j) = separator (cell_at n (if j < i then j else j - 1))"
      using p(5) n2f(1) c2 by auto
  qed (use p n2f i in \<open>simp_all add: n_def\<close>)
  moreover have "children n' = children n2"
  proof (rule nth_equalityI)
    fix j assume "j < length (children n')"
    then have j: "j \<le> Suc ?c" using p(3) n2f(1) by simp
    have "left_child (slots n' i) = left_child (slots n2 i)"
      using p(4) by (auto simp: cell_at_def stored_branch[OF br2] leaf_slot_def dest!: arg_cong[where f = child_or_size])
    moreover have "left_child (slots n' j) = left_child (slots n2 j)" if "j < Suc ?c" "j \<noteq> i"
      using p(5) that n2f(1) by (auto simp: cell_at_def dest!: spec[of _ j] arg_cong[where f = child_or_size])
    ultimately show "children n' ! j = children n2 ! j"
      using j p(3,7) n2f(1) by (cases "j = i") (auto simp: nth_children)
  qed (use p in simp)
  moreover have "children n2 = insert_at (if r then Suc i else i) child (children n1)"
    using insert_child_children[OF i1, of child r] sc(1) by (simp add: n2_def m_def)
  moreover have "children n1 = children n" using sc by (intro children_cong) simp_all
  ultimately show thesis using that p(2,6,8) n2f(3,6) by (auto simp: n_def)
qed


section \<open>Deleting\<close>

text \<open>
  Giving back the record of slot \<open>i\<close>: the space counter drops by its bytes, and the pages of an
  overflow record become pending.
\<close>

definition freed_node :: "nat \<Rightarrow> NodeData \<Rightarrow> NodeData" where
  "freed_node i n = n\<lparr>space_used := space_used n - raw_size n (slots n i),
     slots := (slots n)(i := (slots n i)\<lparr>is_overflow_pages := False\<rparr>)\<rparr>"

lemma raw_size_le_used:
  assumes "wf_node ps n" "i < node_count n"
  shows "raw_size n (slots n i) \<le> space_used n"
  using assms member_le_sum[of i "{..<node_count n}" "\<lambda>j. raw_size n (slots n j)"]
  by (auto simp: wf_node_def layout_def)

lemma release_record_result:
  assumes wf: "wf_node (pg_size s) (nodes s pid)" and i: "i < node_count (nodes s pid)"
    and sz: "is_overflow_pages (slots (nodes s pid) i) \<or> raw_size (nodes s pid) (slots (nodes s pid) i) = sz"
  shows "release_record pid i sz s =
    (if is_overflow_pages (slots (nodes s pid) i)
     then Free (overflow_pgid (nodes s pid) i) (GetPageCount sz s) (set_node pid (freed_node i (nodes s pid)) s)
     else Inr (set_node pid (freed_node i (nodes s pid)) s))"
proof -
  define n where "n = nodes s pid"
  have le: "raw_size n (slots n i) \<le> space_used n" "space_used n < 65536"
    using raw_size_le_used[OF wf i] wf_node_bounds[OF wf] by (simp_all add: n_def)
  have "(slots n)(i := (slots n i)\<lparr>is_overflow_pages := False\<rparr>) = slots n" if "\<not> is_overflow_pages (slots n i)"
    using that by (cases "slots n i") (simp add: fun_upd_idem)
  then have id: "freed_node i n = n\<lparr>space_used := space_used n - raw_size n (slots n i)\<rparr>" if "\<not> is_overflow_pages (slots n i)"
    using that by (cases n) (simp add: freed_node_def)
  show ?thesis
  proof (cases "is_overflow_pages (slots n i)")
    case True
    then show ?thesis using le unfolding release_record_def Let_def n_def[symmetric]
      by (simp add: freed_node_def raw_size_def node_sizes)
  next
    case False
    then have "sub16 (space_used n) sz = space_used n - raw_size n (slots n i)" using le sz by (simp add: n_def)
    then show ?thesis using False id[OF False] unfolding release_record_def Let_def n_def[symmetric] by simp
  qed
qed

lemma freed_node_fields [simp]:
  "node_count (freed_node i n) = node_count n" "node_type (freed_node i n) = node_type n"
  "tail_child (freed_node i n) = tail_child n" "data_offset (freed_node i n) = data_offset n"
  "records (freed_node i n) = records n" "last_modified_txid (freed_node i n) = last_modified_txid n"
  "j \<noteq> i \<Longrightarrow> slots (freed_node i n) j = slots n j" "raw_size (freed_node i n) = raw_size n"
  "left_child (slots (freed_node i n) i) = left_child (slots n i)"
  "space_used (freed_node i n) = space_used n - raw_size n (slots n i)"
  by (simp_all add: freed_node_def)

text \<open>A page from which slot \<open>i\<close> was taken out, whatever the new slot array is built from.\<close>

lemma wf_after_delete:
  assumes wf: "wf_node ps n" and i: "i < node_count n"
    and f: "node_count n' = node_count n - 1" "data_offset n' = data_offset n" "node_type n' = node_type n"
    and su: "space_used n' = space_used n - raw_size n (slots n i)"
    and sl: "\<And>j. j + 1 < node_count n \<Longrightarrow>
      raw_size n (slots n' j) = raw_size n (slots n (if j < i then j else j + 1)) \<and>
      record_offset (slots n' j) = record_offset (slots n (if j < i then j else j + 1))"
  shows "wf_node ps n'" "check_layout ps n' = Inr ()"
proof -
  let ?c = "node_count n"
  have w: "page_ok ps" "slot_end ?c < ps" "int (slot_end ?c) \<le> data_offset n"
    "data_offset n + int (space_used n) \<le> int ps" "space_used n = (\<Sum>j<?c. raw_size n (slots n j))"
    and inn: "\<And>j. j < ?c \<Longrightarrow> data_offset n \<le> int (record_offset (slots n j)) \<and>
        record_offset (slots n j) + raw_size n (slots n j) \<le> ps"
    using wf by (auto simp: wf_node_def layout_def)
  have rs: "raw_size n' = raw_size n" using f(3) by (rule raw_size_cong)
  have "(\<Sum>j<?c - 1. raw_size n (slots n' j)) = (\<Sum>j<?c - 1. raw_size n (slots n (if j < i then j else j + 1)))"
    using sl by (intro sum.cong) auto
  also have "\<dots> = (\<Sum>j\<in>{..<?c} - {i}. raw_size n (slots n j))"
    by (rule sum_shift_down[OF i, of "\<lambda>j. raw_size n (slots n j)"])
  also have "\<dots> = space_used n - raw_size n (slots n i)"
    using i sum.remove[of "{..<?c}" i "\<lambda>j. raw_size n (slots n j)"] w(5) by simp
  finally have "space_used n' = (\<Sum>j<?c - 1. raw_size n' (slots n' j))" using su rs by simp
  moreover have "data_offset n \<le> int (record_offset (slots n' j)) \<and> record_offset (slots n' j) + raw_size n' (slots n' j) \<le> ps"
    if "j < ?c - 1" for j
    using sl[of j] inn[of "if j < i then j else j + 1"] that rs by auto
  moreover have "int (space_used n') \<le> int (space_used n)" using su by simp
  then have "data_offset n' + int (space_used n') \<le> int ps" using w(4) f(2) by linarith
  moreover have "slot_end (node_count n') < ps" "int (slot_end (node_count n')) \<le> data_offset n'" using w f by auto
  ultimately show "wf_node ps n'"
    unfolding wf_node_def layout_def using w(1) f(1,2) by simp
  show "check_layout ps n' = Inr ()"
    by (rule check_layout_eq) (use w(2,3) f(1,2) wf_node_bounds(6)[OF wf] in auto)
qed

text \<open>When the record has overflow pages, giving them back needs a running transaction.\<close>

definition deletable :: "PageId \<Rightarrow> nat \<Rightarrow> 'a pager_db_scheme \<Rightarrow> bool" where
  "deletable pid i s \<longleftrightarrow> \<not> is_overflow_pages (slots (nodes s pid) i) \<or>
     tx_open s \<and> overflow_pgid (nodes s pid) i \<noteq> kPageInvalidId"

lemma Free_frame: "Free p c s = Inr t \<Longrightarrow> \<exists>pm. t = s\<lparr>pending_map := pm\<rparr>"
  by (auto simp: Free_result)

lemma Free_returns: "tx_open s \<Longrightarrow> p \<noteq> kPageInvalidId \<Longrightarrow> \<exists>t. Free p c s = Inr t"
  by (auto simp: Free_result tx_open_def)

lemma release_record_returns:
  assumes "wf_node (pg_size s) (nodes s pid)" "i < node_count (nodes s pid)" "deletable pid i s"
    "is_overflow_pages (slots (nodes s pid) i) \<or> raw_size (nodes s pid) (slots (nodes s pid) i) = sz"
  obtains pm where "release_record pid i sz s = Inr ((set_node pid (freed_node i (nodes s pid)) s)\<lparr>pending_map := pm\<rparr>)"
    "is_overflow_pages (slots (nodes s pid) i) \<Longrightarrow>
       Free (overflow_pgid (nodes s pid) i) (GetPageCount sz s) s = Inr (s\<lparr>pending_map := pm\<rparr>)"
    "\<not> is_overflow_pages (slots (nodes s pid) i) \<Longrightarrow> pm = pending_map s"
proof (cases "is_overflow_pages (slots (nodes s pid) i)")
  case False
  have "(set_node pid (freed_node i (nodes s pid)) s)\<lparr>pending_map := pending_map s\<rparr> = set_node pid (freed_node i (nodes s pid)) s"
    by (simp add: set_node_def)
  then show ?thesis using that[of "pending_map s"] False release_record_result[OF assms(1,2,4)] by simp
next
  case True
  then obtain t where t: "Free (overflow_pgid (nodes s pid) i) (GetPageCount sz s) s = Inr t"
    using Free_returns[of s] assms(3) unfolding deletable_def by blast
  then obtain pm where pm: "t = s\<lparr>pending_map := pm\<rparr>" using Free_frame by blast
  have "Free (overflow_pgid (nodes s pid) i) (GetPageCount sz s) (set_node pid (freed_node i (nodes s pid)) s) =
      Inr ((set_node pid (freed_node i (nodes s pid)) s)\<lparr>pending_map := pm\<rparr>)"
    using t unfolding pm by (auto simp: Free_result set_node_def dest: arg_cong[where f = pending_map])
  then show ?thesis using that[of pm] True t pm release_record_result[OF assms(1,2,4)] by simp
qed

lemma LeafNode_Delete_result:
  assumes wf: "wf_node (pg_size s) (nodes s pid)" and leaf: "IsLeaf (nodes s pid)"
    and i: "i < node_count (nodes s pid)" and del: "deletable pid i s"
  obtains n' pm where "LeafNode_Delete pid i s = Inr ((set_node pid n' s)\<lparr>pending_map := pm\<rparr>)"
    "wf_node (pg_size s) n'" "IsLeaf n'" "cells n' = erase_at i (cells (nodes s pid))"
    "last_modified_txid n' = last_modified_txid (nodes s pid)"
    "\<not> is_overflow_pages (slots (nodes s pid) i) \<longrightarrow> pm = pending_map s"
proof -
  define n where "n = nodes s pid"
  let ?sz = "u32 (key_size (slots n i) + value_size (slots n i))" and ?c = "node_count n"
  have inn: "raw_size n (slots n i) \<le> pg_size s" "pg_size s < 32768"
    using raw_size_le_used[OF wf i] wf_node_bounds[OF wf] by (simp_all add: n_def)
  have sz: "is_overflow_pages (slots n i) \<or> raw_size n (slots n i) = ?sz"
    using inn leaf by (auto simp: raw_size_def n_def)
  obtain pm where pm: "release_record pid i ?sz s = Inr ((set_node pid (freed_node i n) s)\<lparr>pending_map := pm\<rparr>)"
    "\<not> is_overflow_pages (slots n i) \<Longrightarrow> pm = pending_map s"
    using release_record_returns[OF wf i del] sz by (auto simp: n_def)
  define n' where "n' = (freed_node i n)\<lparr>slots := slots_down i ?c (slots (freed_node i n)), node_count := ?c - 1\<rparr>"
  have sl: "slots n' j = slots n (if j < i then j else j + 1)" if "j + 1 < ?c" for j
    using that by (auto simp: n'_def slots_down_nth)
  have f: "node_count n' = ?c - 1" "data_offset n' = data_offset n" "node_type n' = node_type n"
    "space_used n' = space_used n - raw_size n (slots n i)" "records n' = records n"
    "last_modified_txid n' = last_modified_txid n"
    by (simp_all add: n'_def)
  have w: "wf_node (pg_size s) n'" "check_layout (pg_size s) n' = Inr ()"
    by (rule wf_after_delete[OF wf i]; use f sl in \<open>auto simp: n_def\<close>)+
  have "LeafNode_Delete pid i s = Inr ((set_node pid n' s)\<lparr>pending_map := pm\<rparr>)"
    using i pm(1) w(2) by (simp add: LeafNode_Delete_def n_def on_node_def Let_def n'_def) (simp add: set_node_def)
  moreover have "cells n' = erase_at i (cells n)"
  proof (rule cells_delete)
    fix j assume "j + 1 < ?c"
    then show "cell_at n' j = cell_at n (if j < i then j else j + 1)"
      using sl[of j] raw_size_cong[OF f(3)] by (simp add: cell_at_def raw_def f(5))
  qed (use f i in \<open>simp_all add: n_def\<close>)
  moreover have "IsLeaf n'" using leaf f(3) by (simp add: IsLeaf_def n_def)
  ultimately show thesis using that w(1) f(6) pm(2) by (simp add: n_def)
qed

lemma separators_delete:
  assumes "node_count n' = node_count n - 1" "i < node_count n"
    "\<And>j. j + 1 < node_count n \<Longrightarrow> separator (cell_at n' j) = separator (cell_at n (if j < i then j else j + 1))"
  shows "separators n' = erase_at i (separators n)"
proof (rule nth_equalityI)
  fix j assume "j < length (separators n')"
  then have j: "j + 1 < node_count n" using assms(1) by simp
  show "separators n' ! j = erase_at i (separators n) ! j"
    using assms(1,2) assms(3)[OF j] j by (auto simp: nth_erase_at)
qed (use assms in simp)

lemma delete_child_frame:
  "delete_child i r n = n\<lparr>slots := slots (delete_child i r n), tail_child := tail_child (delete_child i r n)\<rparr>"
  by (simp add: delete_child_def Let_def)

lemma delete_child_slot:
  assumes "i < node_count n" "j + 1 < node_count n"
  shows "(slots (delete_child i r n) j)\<lparr>child_or_size := 0\<rparr> =
    (slots n (if j < i then j else j + 1))\<lparr>child_or_size := 0\<rparr>"
  using assms by (cases "j = i") (auto simp: delete_child_def Let_def slots_down_def)

lemma delete_child_children:
  assumes "i < node_count n"
  shows "children ((delete_child i r n)\<lparr>node_count := node_count n - 1\<rparr>) =
    erase_at (if r then Suc i else i) (children n)"
proof (rule nth_equalityI)
  fix j assume "j < length (children ((delete_child i r n)\<lparr>node_count := node_count n - 1\<rparr>))"
  then have j: "j < node_count n" using assms by simp
  then show "children ((delete_child i r n)\<lparr>node_count := node_count n - 1\<rparr>) ! j =
      erase_at (if r then Suc i else i) (children n) ! j"
    using assms by (cases r) (auto simp: nth_children nth_erase_at delete_child_def Let_def slots_down_def)
qed (use assms in simp)

lemma BranchNode_Delete_result:
  assumes wf: "wf_node (pg_size s) (nodes s pid)" and br: "\<not> IsLeaf (nodes s pid)"
    and i: "i < node_count (nodes s pid)" and del: "deletable pid i s"
  obtains n' pm where "BranchNode_Delete pid i r s = Inr ((set_node pid n' s)\<lparr>pending_map := pm\<rparr>)"
    "wf_node (pg_size s) n'" "node_type n' = node_type (nodes s pid)"
    "separators n' = erase_at i (separators (nodes s pid))"
    "children n' = erase_at (if r then Suc i else i) (children (nodes s pid))"
    "\<not> is_overflow_pages (slots (nodes s pid) i) \<longrightarrow> pm = pending_map s"
    "last_modified_txid n' = last_modified_txid (nodes s pid)"
proof -
  define n where "n = nodes s pid"
  let ?c = "node_count n" and ?sz = "key_size (slots n i)"
  have sz: "is_overflow_pages (slots n i) \<or> raw_size n (slots n i) = ?sz"
    using br by (auto simp: raw_size_def n_def)
  obtain pm where pm: "release_record pid i ?sz s = Inr ((set_node pid (freed_node i n) s)\<lparr>pending_map := pm\<rparr>)"
    "\<not> is_overflow_pages (slots n i) \<Longrightarrow> pm = pending_map s"
    using release_record_returns[OF wf i del] sz by (auto simp: n_def)
  define m where "m = delete_child i r (freed_node i n)"
  define n' where "n' = m\<lparr>node_count := ?c - 1\<rparr>"
  have mf: "m = (freed_node i n)\<lparr>slots := slots m, tail_child := tail_child m\<rparr>" unfolding m_def by (rule delete_child_frame)
  have mc: "node_count m = ?c" "data_offset m = data_offset n" "node_type m = node_type n" "records m = records n"
    "space_used m = space_used n - raw_size n (slots n i)" "last_modified_txid m = last_modified_txid n"
    by (subst mf, simp)+
  have i': "i < node_count (freed_node i n)" using i by (simp add: n_def)
  have sl: "(slots m j)\<lparr>child_or_size := 0\<rparr> = (slots n (if j < i then j else j + 1))\<lparr>child_or_size := 0\<rparr>"
    if "j + 1 < ?c" for j
    using delete_child_slot[OF i', of j r] that by (auto simp: m_def split: if_splits)
  note sf = slot_child_fields[OF sl]
  have br': "\<not> IsLeaf n" using br by (simp add: n_def)
  have w: "wf_node (pg_size s) n'" "check_layout (pg_size s) n' = Inr ()"
    by (rule wf_after_delete[OF wf i]; use mc sf(1) sf(2)[OF _ br'] in \<open>auto simp: n'_def n_def\<close>)+
  have "BranchNode_Delete pid i r s = Inr ((set_node pid n' s)\<lparr>pending_map := pm\<rparr>)"
    using i pm(1) w(2) mc(1)
    by (simp add: BranchNode_Delete_def n_def on_node_def Let_def n'_def m_def) (simp add: set_node_def)
  moreover have "separators n' = erase_at i (separators n)"
  proof (rule separators_delete)
    fix j assume j: "j + 1 < ?c"
    have "raw_size n' (slots n' j) = raw_size n (slots n (if j < i then j else j + 1))"
      using sf(2)[OF j br'] raw_size_cong[of n' n] mc(3) by (simp add: n'_def)
    then show "separator (cell_at n' j) = separator (cell_at n (if j < i then j else j + 1))"
      using sf(1,3)[OF j] mc(4) by (simp add: separator_def cell_at_def raw_def n'_def)
  qed (use i in \<open>simp_all add: n'_def n_def\<close>)
  moreover have "children n' = erase_at (if r then Suc i else i) (children n)"
  proof -
    have "children (freed_node i n) = children n"
      by (rule nth_equalityI) (auto simp: nth_children less_Suc_eq_le, metis freed_node_fields(7,9))
    then show ?thesis using delete_child_children[OF i', of r] by (simp add: n'_def m_def)
  qed
  ultimately show thesis using that w(1) pm(2) mc(3,6) by (simp add: n_def n'_def)
qed


section \<open>Reading\<close>

text \<open>What \<^verbatim>\<open>GetKey\<close> and \<^verbatim>\<open>GetValue\<close> show depends on the cell and, for an overflow record, on the file.\<close>

definition cell_read :: "cell \<Rightarrow> nat \<Rightarrow> nat \<Rightarrow> 'a pager_db_scheme \<Rightarrow> byte list res" where
  "cell_read c off len s =
     (if is_overflow_pages (fst c) then ReadBytes (le_nat (snd c)) off len s
      else Inr (take len (drop off (snd c))))"

definition cell_key :: "cell \<Rightarrow> 'a pager_db_scheme \<Rightarrow> key res" where
  "cell_key c s = cell_read c 0 (key_size (fst c)) s"

definition cell_value :: "cell \<Rightarrow> 'a pager_db_scheme \<Rightarrow> byte list res" where
  "cell_value c s = cell_read c (key_size (fst c)) (value_size (fst c)) s"

lemma mem_read_sub: "off + len \<le> n \<Longrightarrow> mem_read m (a + off) len = take len (drop off (mem_read m a n))"
  by (rule nth_equalityI) (simp_all add: add.assoc)

lemma GetRecord_cell:
  assumes "wf_node (pg_size s) (nodes s pid)" "i < node_count (nodes s pid)"
    "\<not> is_overflow_pages (slots (nodes s pid) i) \<Longrightarrow> off + len \<le> raw_size (nodes s pid) (slots (nodes s pid) i)"
  shows "GetRecord pid i off len s = cell_read (cell_at (nodes s pid) i) off len s"
proof -
  define n where "n = nodes s pid"
  have b: "record_offset (slots n i) + raw_size n (slots n i) \<le> pg_size s"
    using assms(1,2) by (auto simp: wf_node_def layout_def n_def)
  show ?thesis
  proof (cases "is_overflow_pages (slots n i)")
    case True
    then have "overflow_pgid n i = le_nat (raw n i)"
      by (simp add: overflow_pgid_def raw_def raw_size_def node_sizes)
    then show ?thesis using True assms(2) by (simp add: GetRecord_def cell_read_def cell_at_def flip: n_def)
  next
    case False
    then have "off + len \<le> raw_size n (slots n i)" using assms(3) by (simp add: n_def)
    then show ?thesis using False assms(2) b mem_read_sub[of off len "raw_size n (slots n i)"]
      by (simp add: GetRecord_def cell_read_def cell_at_def raw_def Let_def flip: n_def)
  qed
qed

lemma GetKey_cell:
  "wf_node (pg_size s) (nodes s pid) \<Longrightarrow> i < node_count (nodes s pid) \<Longrightarrow>
     GetKey pid i s = cell_key (cells (nodes s pid) ! i) s"
  by (simp add: GetKey_def cell_key_def GetRecord_cell raw_size_def) (simp add: cell_at_def)

lemma GetValue_cell:
  "wf_node (pg_size s) (nodes s pid) \<Longrightarrow> IsLeaf (nodes s pid) \<Longrightarrow> i < node_count (nodes s pid) \<Longrightarrow>
     GetValue pid i s = cell_value (cells (nodes s pid) ! i) s"
  by (simp add: GetValue_def cell_value_def GetRecord_cell raw_size_def) (simp add: cell_at_def)

text \<open>The records of a leaf as the code reads them, slot by slot.\<close>

definition leaf_entries :: "PageId \<Rightarrow> 'a pager_db_scheme \<Rightarrow> (key res \<times> byte list res) list" where
  "leaf_entries pid s = map (\<lambda>i. (GetKey pid i s, GetValue pid i s)) [0..<node_count (nodes s pid)]"

definition branch_keys :: "PageId \<Rightarrow> 'a pager_db_scheme \<Rightarrow> key res list" where
  "branch_keys pid s = map (\<lambda>i. GetKey pid i s) [0..<node_count (nodes s pid)]"

definition branch_children :: "NodeData \<Rightarrow> PageId res list" where
  "branch_children n = map (\<lambda>i. GetLeftChild i n) [0..<Suc (node_count n)]"

lemma leaf_entries_cells:
  assumes "wf_node (pg_size s) (nodes s pid)" "IsLeaf (nodes s pid)"
  shows "leaf_entries pid s = map (\<lambda>c. (cell_key c s, cell_value c s)) (cells (nodes s pid))"
  unfolding leaf_entries_def
  by (rule nth_equalityI) (use GetKey_cell[OF assms(1)] GetValue_cell[OF assms] in auto)

lemma separator_key [simp]: "cell_key (separator c) s = cell_key c s"
  by (simp add: cell_key_def separator_def cell_read_def)

lemma branch_keys_separators:
  assumes "wf_node (pg_size s) (nodes s pid)"
  shows "branch_keys pid s = map (\<lambda>c. cell_key c s) (separators (nodes s pid))"
  unfolding branch_keys_def separators_def
  by (rule nth_equalityI) (use GetKey_cell[OF assms] in auto)

lemma branch_children_eq: "branch_children n = map Inr (children n)"
  unfolding branch_children_def
  by (rule nth_equalityI) (auto simp: GetLeftChild_def nth_children less_Suc_eq_le simp del: upt_Suc)

lemma cell_key_cong:
  "mem s' = mem s \<Longrightarrow> pg_size s' = pg_size s \<Longrightarrow> map_size s' = map_size s \<Longrightarrow>
     cell_key c s' = cell_key c s \<and> cell_value c s' = cell_value c s"
  by (simp add: cell_key_def cell_value_def cell_read_def ReadBytes_def GetPtr_def)

lemma cell_key_set_node [simp]:
  "cell_key c (set_node pid n s) = cell_key c s" "cell_value c (set_node pid n s) = cell_value c s"
  "cell_key c (s\<lparr>pending_map := pm\<rparr>) = cell_key c s" "cell_value c (s\<lparr>pending_map := pm\<rparr>) = cell_value c s"
  using cell_key_cong[of "set_node pid n s" s c] cell_key_cong[of "s\<lparr>pending_map := pm\<rparr>" s c] by simp_all

lemma inline_cell [simp]:
  "cell_key (leaf_slot False b (length key) vl, key @ value) s = Inr key"
  "cell_value (leaf_slot False b (length key) (length value), key @ value) s = Inr value"
  "cell_key (leaf_slot False b (length key) vl, key) s = Inr key"
  by (simp_all add: cell_key_def cell_value_def cell_read_def leaf_slot_def)

lemma map_insert_at: "map f (insert_at i x xs) = insert_at i (f x) (map f xs)"
  by (simp add: insert_at_def take_map drop_map)

lemma map_erase_at: "map f (erase_at i xs) = erase_at i (map f xs)"
  by (simp add: erase_at_def take_map drop_map)

end
