(* ===== verification/Atomkv_Node_Spec.thy ===== *)
theory Atomkv_Node_Spec
  imports Atomkv_Node_Props Atomkv_Pager_Props
begin

text \<open>
  The properties of the slotted pages, stated over what the code itself reads: the keys and
  values slot by slot (\<open>leaf_entries\<close>), the separators and children of a branch
  (\<open>branch_keys\<close>, \<open>branch_children\<close>).
\<close>

section \<open>Updating a record in place\<close>

text \<open>\<^verbatim>\<open>DeleteRecord\<close> on an inline record of a leaf: the slot stays, with sizes 0.\<close>

definition emptied :: "nat \<Rightarrow> NodeData \<Rightarrow> NodeData" where
  "emptied i n = n\<lparr>space_used := space_used n - raw_size n (slots n i),
     slots := (slots n)(i := (slots n i)\<lparr>key_size := 0, child_or_size := 0\<rparr>)\<rparr>"

text \<open>A slot whose record takes no bytes any more.\<close>

lemma wf_empty_slot:
  assumes wf: "wf_node ps n" and i: "i < node_count n" and z: "raw_size n sl = 0" "record_offset sl = record_offset (slots n i)"
  shows "wf_node ps (n\<lparr>space_used := space_used n - raw_size n (slots n i), slots := (slots n)(i := sl)\<rparr>)" (is "wf_node ps ?m")
proof -
  let ?c = "node_count n"
  have f: "node_count ?m = ?c" "data_offset ?m = data_offset n" "raw_size ?m = raw_size n"
    "space_used ?m = space_used n - raw_size n (slots n i)" by (simp_all add: fun_eq_iff raw_size_def IsLeaf_def)
  have z': "raw_size n (slots ?m j) = (if j = i then 0 else raw_size n (slots n j))" for j using z(1) by simp
  have ro: "record_offset (slots ?m j) = record_offset (slots n j)" for j using z(2) by simp
  have "(\<Sum>j<?c. raw_size n (slots ?m j)) = (\<Sum>j\<in>{..<?c} - {i}. raw_size n (slots n j))"
    using i z(1) by (subst sum.remove[of _ i]) (auto simp: z' intro!: sum.cong)
  also have "\<dots> = space_used ?m"
    using i wf sum.remove[of "{..<?c}" i "\<lambda>j. raw_size n (slots n j)"]
    by (simp add: f wf_node_def layout_def)
  finally have su: "space_used ?m = (\<Sum>j<?c. raw_size n (slots ?m j))" by simp
  have w: "slot_end ?c < ps" "int (slot_end ?c) \<le> data_offset n" "data_offset n + int (space_used n) \<le> int ps"
    "\<forall>j<?c. data_offset n \<le> int (record_offset (slots n j)) \<and> record_offset (slots n j) + raw_size n (slots n j) \<le> ps"
    using wf by (auto simp: wf_node_def layout_def)
  have "data_offset ?m + int (space_used ?m) \<le> int ps" using w(3) f(2,4) by linarith
  moreover have "record_offset (slots ?m j) + raw_size ?m (slots ?m j) \<le> ps" if "j < ?c" for j
    using w(4) that unfolding f(3) z' ro by (cases "j = i") auto
  ultimately show ?thesis
    unfolding wf_node_def layout_def using wf w su ro by (simp add: f(1-3) wf_node_def)
qed

lemma DeleteRecord_leaf:
  assumes wf: "wf_node ps n" and leaf: "IsLeaf n" and i: "i < node_count n" and il: "\<not> is_overflow_pages (slots n i)"
  shows "DeleteRecord i n = Inr (emptied i n)" "wf_node ps (emptied i n)"
proof -
  have le: "key_size (slots n i) + value_size (slots n i) \<le> space_used n" "space_used n < 65536"
    using raw_size_le_used[OF wf i] wf_node_bounds[OF wf] leaf il by (simp_all add: raw_size_def)
  have rs: "raw_size n (slots n i) = key_size (slots n i) + value_size (slots n i)"
    using leaf il by (simp add: raw_size_def)
  show "DeleteRecord i n = Inr (emptied i n)"
    using i leaf il le by (simp add: DeleteRecord_def emptied_def rs Let_def)
  show "wf_node ps (emptied i n)" unfolding emptied_def by (rule wf_empty_slot[OF wf i]) (use il in \<open>simp_all add: raw_size_def\<close>)
qed

lemma wf_but_of_empty:
  assumes "wf_node ps n" "i < node_count n" "raw_size n (slots n i) = 0"
  shows "wf_but ps i n"
proof -
  have "(\<Sum>j<node_count n. raw_size n (slots n j)) = (\<Sum>j\<in>{..<node_count n} - {i}. raw_size n (slots n j))"
    using assms(2,3) by (subst sum.remove[of _ i]) auto
  then show ?thesis using assms(1,2) unfolding wf_node_def wf_but_def layout_def by auto
qed

lemma RestoreRecord_leaf:
  assumes wf: "wf_node ps n" and leaf: "IsLeaf n" and i: "i < node_count n" and il: "\<not> is_overflow_pages (slots n i)"
  shows "RestoreRecord i (slots n i) (emptied i n) = Inr n"
proof -
  have le: "key_size (slots n i) + value_size (slots n i) \<le> space_used n" "space_used n < 65536"
    using raw_size_le_used[OF wf i] wf_node_bounds[OF wf] leaf il by (simp_all add: raw_size_def)
  have "(slots (emptied i n))(i := (slots (emptied i n) i)\<lparr>key_size := key_size (slots n i), child_or_size := value_size (slots n i)\<rparr>)
      = slots n"
    by (cases "slots n i") (auto simp: emptied_def fun_eq_iff)
  moreover have "u16 (u16 (space_used (emptied i n) + key_size (slots n i)) + value_size (slots n i)) = space_used n"
    using le leaf il by (simp add: emptied_def raw_size_def)
  ultimately show ?thesis
    using i leaf il by (cases n) (simp add: RestoreRecord_def Let_def emptied_def IsLeaf_def)
qed

lemma same_cells_raw_size:
  assumes "same_cells n n'" "j < node_count n"
  shows "raw_size n' (slots n' j) = raw_size n (slots n j)"
  using same_cells_at[OF assms] by (metis cell_at_def length_raw snd_conv)

lemma same_cells_slot:
  assumes "same_cells n n'" "j < node_count n"
  shows "stored_slot n' (slots n' j) ov kl vl = stored_slot n (slots n j) ov kl vl"
proof -
  have "(slots n' j)\<lparr>record_offset := 0\<rparr> = (slots n j)\<lparr>record_offset := 0\<rparr>"
    using same_cells_at[OF assms] by (simp add: cell_at_def)
  moreover have "stored_slot m sl ov kl vl = stored_slot m (sl\<lparr>record_offset := 0\<rparr>) ov kl vl" for m sl
    by (simp add: stored_slot_def)
  moreover have "IsLeaf n' = IsLeaf n" using assms(1) by (simp add: same_cells_def IsLeaf_def)
  ultimately show ?thesis by (simp add: stored_slot_def)
qed

lemma set_node_id [simp]: "set_node pid (nodes s pid) s = s"
  by (simp add: set_node_def)

text \<open>The update in a leaf, with room for the new record and without.\<close>

lemma LeafNode_Update_result:
  assumes wf: "wf_node (pg_size s) (nodes s pid)" and leaf: "IsLeaf (nodes s pid)"
    and i: "i < node_count (nodes s pid)" and il: "\<not> is_overflow_pages (slots (nodes s pid) i)"
    and len: "length key + length value \<le> (pg_size s - 34) div 2"
    and fit: "fits (pg_size s) (length key + length value) False (emptied i (nodes s pid))"
  obtains n' b where "LeafNode_Update pid i key value s = Inr (True, set_node pid n' s)"
    "wf_node (pg_size s) n'" "IsLeaf n'" "b = is_bucket (slots (nodes s pid) i)"
    "cells n' = (cells (nodes s pid))[i := (leaf_slot False b (length key) (length value), key @ value)]"
    "last_modified_txid n' = last_modified_txid (nodes s pid)"
proof -
  define n where "n = nodes s pid"
  let ?ps = "pg_size s" and ?m = "emptied i n"
  note d = DeleteRecord_leaf[OF wf leaf i il, folded n_def]
  have mf: "node_count ?m = node_count n" "node_type ?m = node_type n" by (simp_all add: emptied_def)
  obtain n2 where r: "RequestSpaceFor ?ps (length key) (length value) False ?m = Inr (True, n2)" "wf_node ?ps n2"
    "same_cells ?m n2" "int (slot_end (node_count n) + (length key + length value)) \<le> data_offset n2"
    using RequestSpaceFor_eq[OF d(2), of "length key" "length value" False] fit record_need_slot(2)[OF len] mf
    by (auto simp: n_def)
  have i': "i < node_count ?m" using i mf by (simp add: n_def)
  have f2: "node_count n2 = node_count n" "node_type n2 = node_type n" using r(3) mf by (simp_all add: same_cells_def)
  have "raw_size ?m (slots ?m i) = 0" using il by (simp add: emptied_def raw_size_def n_def)
  then have wb: "wf_but ?ps i n2"
    using wf_but_of_empty[OF r(2)] same_cells_raw_size[OF r(3) i'] f2 i by (simp add: n_def)
  let ?s = "set_node pid n2 s"
  have nf: "nodes ?s pid = n2" "pg_size ?s = ?ps" by simp_all
  have leaf2: "IsLeaf n2" using leaf f2 by (simp add: IsLeaf_def n_def)
  have rm: "int (slot_end (node_count n2) + length key + length value) \<le> data_offset n2" using r(4) f2 by simp
  obtain n' where p: "StoreRecord pid i key value ?s = Inr (set_node pid n' ?s)" "wf_node ?ps n'"
    "node_count n' = node_count n2"
    "cell_at n' i = (stored_slot n2 (slots n2 i) False (length key) (length value), key @ value)"
    "\<forall>j < node_count n2. j \<noteq> i \<longrightarrow> cell_at n' j = cell_at n2 j" "node_type n' = node_type n2"
    "last_modified_txid n' = last_modified_txid n2"
    by (rule StoreRecord_inline[of ?s i pid key "value", unfolded nf, OF wb len _ rm]) (use leaf2 in auto)
  have cl: "check_layout ?ps n' = Inr ()"
    using p(2) wf_node_bounds(6)[OF p(2)] by (intro check_layout_eq) (auto simp: wf_node_def layout_def)
  have "LeafNode_Update pid i key value s = Inr (True, set_node pid n' s)"
    using d(1) r(1) p(1) cl by (simp add: LeafNode_Update_def Let_def n_def)
  moreover have ci: "cell_at n' i = (leaf_slot False (is_bucket (slots n i)) (length key) (length value), key @ value)"
    using p(4) same_cells_slot[OF r(3) i'] leaf
    by (simp add: stored_leaf IsLeaf_def emptied_def n_def)
  moreover have "cells n' = (cells n)[i := (leaf_slot False (is_bucket (slots n i)) (length key) (length value), key @ value)]"
  proof (rule nth_equalityI)
    fix j assume "j < length (cells n')"
    then have j: "j < node_count n" using p(3) f2 by simp
    show "cells n' ! j = (cells n)[i := (leaf_slot False (is_bucket (slots n i)) (length key) (length value), key @ value)] ! j"
    proof (cases "j = i")
      case True
      then show ?thesis using ci j p(3) f2 by simp
    next
      case False
      have "cell_at ?m j = cell_at n j" using False by (simp add: cell_at_def raw_def emptied_def)
      then show ?thesis using False j p(3,5) f2 same_cells_at[OF r(3), of j] mf by simp
    qed
  qed (use p f2 in simp)
  moreover have "IsLeaf n'" using leaf2 p(6) by (simp add: IsLeaf_def)
  moreover have "last_modified_txid n' = last_modified_txid n" using p(7) r(3) by (simp add: same_cells_def emptied_def)
  ultimately show thesis using that p(2) by (simp add: n_def)
qed

lemma LeafNode_Update_full:
  assumes wf: "wf_node (pg_size s) (nodes s pid)" and leaf: "IsLeaf (nodes s pid)"
    and i: "i < node_count (nodes s pid)" and il: "\<not> is_overflow_pages (slots (nodes s pid) i)"
    and fit: "\<not> fits (pg_size s) (length key + length value) False (emptied i (nodes s pid))"
  shows "LeafNode_Update pid i key value s = Inr (False, s)"
  using RequestSpaceFor_eq[OF DeleteRecord_leaf(2)[OF wf leaf i il], of "length key" "length value" False] fit
    DeleteRecord_leaf(1)[OF wf leaf i il] RestoreRecord_leaf[OF wf leaf i il]
  by (simp add: LeafNode_Update_def Let_def)


text \<open>The update of a separator: its key changes, its child stays.\<close>

definition emptied_key :: "nat \<Rightarrow> NodeData \<Rightarrow> NodeData" where
  "emptied_key i n = n\<lparr>space_used := space_used n - raw_size n (slots n i), slots := (slots n)(i := (slots n i)\<lparr>key_size := 0\<rparr>)\<rparr>"

lemma DeleteRecord_branch:
  assumes wf: "wf_node ps n" and br: "\<not> IsLeaf n" and i: "i < node_count n" and il: "\<not> is_overflow_pages (slots n i)"
  shows "DeleteRecord i n = Inr (emptied_key i n)" "wf_node ps (emptied_key i n)" "RestoreRecord i (slots n i) (emptied_key i n) = Inr n"
proof -
  have rs: "raw_size n (slots n i) = key_size (slots n i)" using br il by (simp add: raw_size_def)
  have le: "key_size (slots n i) \<le> space_used n" "space_used n < 65536"
    using raw_size_le_used[OF wf i] wf_node_bounds[OF wf] rs by simp_all
  show "DeleteRecord i n = Inr (emptied_key i n)" using i br il le by (simp add: DeleteRecord_def emptied_key_def rs Let_def)
  show "wf_node ps (emptied_key i n)" unfolding emptied_key_def by (rule wf_empty_slot[OF wf i]) (use br il in \<open>simp_all add: raw_size_def\<close>)
  have "(slots n)(i := (slots n i)\<lparr>key_size := key_size (slots n i)\<rparr>) = slots n" by simp
  then show "RestoreRecord i (slots n i) (emptied_key i n) = Inr n"
    using i br il le rs by (cases n) (simp add: RestoreRecord_def Let_def emptied_key_def IsLeaf_def raw_size_def)
qed

lemma BranchNode_UpdateKey_full:
  assumes wf: "wf_node (pg_size s) (nodes s pid)" and br: "\<not> IsLeaf (nodes s pid)"
    and i: "i < node_count (nodes s pid)" and il: "\<not> is_overflow_pages (slots (nodes s pid) i)"
    and fit: "\<not> fits (pg_size s) (length key) False (emptied_key i (nodes s pid))"
  shows "BranchNode_UpdateKey pid i key s = Inr (False, s)"
  using RequestSpaceFor_eq[OF DeleteRecord_branch(2)[OF wf br i il], of "length key" 0 False] fit DeleteRecord_branch(1,3)[OF wf br i il]
  by (simp add: BranchNode_UpdateKey_def Let_def)

lemma BranchNode_UpdateKey_result:
  assumes wf: "wf_node (pg_size s) (nodes s pid)" and br: "\<not> IsLeaf (nodes s pid)"
    and i: "i < node_count (nodes s pid)" and il: "\<not> is_overflow_pages (slots (nodes s pid) i)"
    and len: "length key \<le> (pg_size s - 34) div 2"
    and fit: "fits (pg_size s) (length key) False (emptied_key i (nodes s pid))"
  obtains n' b where "BranchNode_UpdateKey pid i key s = Inr (True, set_node pid n' s)" "wf_node (pg_size s) n'"
    "node_type n' = node_type (nodes s pid)" "last_modified_txid n' = last_modified_txid (nodes s pid)"
    "separators n' = (separators (nodes s pid))[i := (leaf_slot False b (length key) 0, key)]" "children n' = children (nodes s pid)"
proof -
  define n where "n = nodes s pid"
  let ?ps = "pg_size s" and ?m = "emptied_key i n"
  note d = DeleteRecord_branch[OF wf br i il, folded n_def]
  have mf: "node_count ?m = node_count n" "node_type ?m = node_type n" "tail_child ?m = tail_child n" "last_modified_txid ?m = last_modified_txid n"
    by (simp_all add: emptied_key_def)
  obtain n2 where r: "RequestSpaceFor ?ps (length key) 0 False ?m = Inr (True, n2)" "wf_node ?ps n2"
    "same_cells ?m n2" "int (slot_end (node_count n) + length key) \<le> data_offset n2"
    using RequestSpaceFor_eq[OF d(2), of "length key" 0 False] fit record_need_slot(2)[of "length key" ?ps] len mf
    by (auto simp: n_def)
  have i': "i < node_count ?m" using i mf by (simp add: n_def)
  have f2: "node_count n2 = node_count n" "node_type n2 = node_type n" "tail_child n2 = tail_child n" "last_modified_txid n2 = last_modified_txid n"
    using r(3) mf by (simp_all add: same_cells_def)
  have br2: "\<not> IsLeaf n2" "\<not> IsLeaf ?m" using br f2(2) mf(2) by (simp_all add: IsLeaf_def n_def)
  have z: "raw_size ?m (slots ?m i) = 0" using il br by (simp add: emptied_key_def raw_size_def n_def IsLeaf_def)
  have z2: "raw_size n2 (slots n2 i) = 0" using same_cells_raw_size[OF r(3) i'] z by simp
  have c2: "cell_at n2 j = cell_at ?m j" if "j < node_count n" for j using same_cells_at[OF r(3), of j] that mf by simp
  have sl2: "(slots n2 i)\<lparr>record_offset := 0\<rparr> = (slots ?m i)\<lparr>record_offset := 0\<rparr>" using c2[of i] i by (simp add: cell_at_def n_def)
  have k0: "key_size (slots n2 i) = 0" "left_child (slots n2 i) = left_child (slots n i)"
  proof -
    have "key_size (slots n2 i) = key_size (slots ?m i)" "left_child (slots n2 i) = left_child (slots ?m i)"
      using arg_cong[OF sl2, of key_size] arg_cong[OF sl2, of child_or_size] by simp_all
    then show "key_size (slots n2 i) = 0" "left_child (slots n2 i) = left_child (slots n i)" by (simp_all add: emptied_key_def)
  qed
  have wb: "wf_but ?ps i n2" using wf_but_of_empty[OF r(2)] z2 f2 i by (simp add: n_def)
  have b2: "space_used n2 < 65536" using wf_node_bounds[OF r(2)] by simp
  have s2: "n2\<lparr>space_used := sub16 (space_used n2) (key_size (slots n2 i))\<rparr> = n2" using b2 k0(1) by (simp add: sub16_def u16_def)
  let ?s = "set_node pid n2 s"
  have nf: "nodes ?s pid = n2" "pg_size ?s = ?ps" by simp_all
  have rm: "int (slot_end (node_count n2) + length key + length []) \<le> data_offset n2" using r(4) f2 by simp
  have len': "length key + length [] \<le> (?ps - 34) div 2" using len by simp
  obtain n' where p: "StoreRecord pid i key [] ?s = Inr (set_node pid n' ?s)" "wf_node ?ps n'" "node_count n' = node_count n2"
    "cell_at n' i = (stored_slot n2 (slots n2 i) False (length key) (length []), key @ [])"
    "\<forall>j < node_count n2. j \<noteq> i \<longrightarrow> cell_at n' j = cell_at n2 j"
    "node_type n' = node_type n2" "tail_child n' = tail_child n2" "last_modified_txid n' = last_modified_txid n2"
    by (rule StoreRecord_inline[of ?s i pid key "[]", unfolded nf, OF wb len' _ rm]) auto
  have cl: "check_layout ?ps n' = Inr ()"
    using p(2) wf_node_bounds(6)[OF p(2)] by (intro check_layout_eq) (auto simp: wf_node_def layout_def)
  have ci: "cell_at n' i = (leaf_slot False (is_bucket (slots n2 i)) (length key) (left_child (slots n i)), key)"
    unfolding p(4) stored_branch[OF br2(1)] k0(2) by simp
  have cj: "cell_at n' j = cell_at n j" if "j < node_count n" "j \<noteq> i" for j
    using p(5) f2(1) that c2[of j] by (simp add: cell_at_def raw_def emptied_key_def)
  show thesis
  proof (rule that)
    show "BranchNode_UpdateKey pid i key s = Inr (True, set_node pid n' s)"
      using d(1) r(1) p(1) cl s2 by (simp add: BranchNode_UpdateKey_def Let_def n_def)
    show "separators n' = (separators (nodes s pid))[i := (leaf_slot False (is_bucket (slots n2 i)) (length key) 0, key)]"
    proof (rule nth_equalityI)
      fix j assume "j < length (separators n')"
      then show "separators n' ! j = (separators (nodes s pid))[i := (leaf_slot False (is_bucket (slots n2 i)) (length key) 0, key)] ! j"
        using p(3) f2(1) ci cj[of j] by (cases "j = i") (simp_all add: separator_def leaf_slot_def flip: n_def)
    qed (use p(3) f2(1) in \<open>simp add: n_def\<close>)
    show "children n' = children (nodes s pid)"
    proof (rule nth_equalityI)
      fix j assume "j < length (children n')"
      then have j: "j \<le> node_count n" using p(3) f2(1) by simp
      have "left_child (slots n' j) = left_child (slots n j)" if "j < node_count n"
        using arg_cong[OF ci, of "\<lambda>c. child_or_size (fst c)"] arg_cong[OF cj[OF that], of "\<lambda>c. child_or_size (fst c)"]
        by (cases "j = i") (simp_all add: cell_at_def leaf_slot_def)
      then show "children n' ! j = children (nodes s pid) ! j"
        using j p(3,7) f2(1,3) by (simp add: nth_children flip: n_def)
    qed (use p(3) f2(1) in \<open>simp add: n_def\<close>)
  qed (use p(2,6,8) f2 in \<open>simp_all add: n_def\<close>)
qed


section \<open>Sample pages\<close>

definition sample_leaf :: NodeData where
  "sample_leaf = \<lparr>last_modified_txid = 4, node_type = kLeaf, node_count = 1, space_used = 3, data_offset = 253,
     tail_child = 0, slots = (\<lambda>_. \<lparr>record_offset = 253, is_overflow_pages = False, key_size = 1,
       is_bucket = False, child_or_size = 2\<rparr>),
     records = (\<lambda>i. if i = 253 then 7 else 9)\<rparr>"

definition sample_branch :: NodeData where
  "sample_branch = sample_leaf\<lparr>node_type := kBranch, space_used := 1, tail_child := 6\<rparr>"

definition sample_nodes :: pager_db where
  "sample_nodes = sample_pager\<lparr>pg_size := 256, nodes := (\<lambda>p. if p = 3 then sample_leaf else sample_branch)\<rparr>"

lemma sample_nodes_facts [simp]:
  "nodes sample_nodes 3 = sample_leaf" "nodes sample_nodes 4 = sample_branch" "pg_size sample_nodes = 256"
  "wf_node 256 sample_leaf" "wf_node 256 sample_branch" "IsLeaf sample_leaf" "\<not> IsLeaf sample_branch"
  "node_count sample_leaf = 1" "node_count sample_branch = 1"
  "\<not> is_overflow_pages (slots sample_leaf i)" "\<not> is_overflow_pages (slots sample_branch i)"
  by (simp_all add: sample_nodes_def sample_leaf_def sample_branch_def wf_node_def page_ok_def layout_def
      IsLeaf_def raw_size_def)


section \<open>Properties\<close>

text \<open>
  C18: \<^verbatim>\<open>LeafNode::Insert\<close> of a record that is stored in the page. When header, slots, records and
  the new record fit into the page, it returns true and the leaf reads as before with the new
  key and value at the given slot, even if the page had to be compacted first; otherwise it returns
  false and nothing changed. Other pages are untouched.
\<close>

theorem leaf_insert_entries:
  assumes "wf_node (pg_size s) (nodes s pid)" "IsLeaf (nodes s pid)" "i \<le> node_count (nodes s pid)"
    "0 < length key + length value" "length key + length value \<le> (pg_size s - 34) div 2"
  shows "if fits (pg_size s) (length key + length value) True (nodes s pid)
    then \<exists>s'. LeafNode_Insert pid i key value s = Inr (True, s') \<and>
      leaf_entries pid s' = insert_at i (Inr key, Inr value) (leaf_entries pid s) \<and>
      wf_node (pg_size s) (nodes s' pid) \<and> (\<forall>q. q \<noteq> pid \<longrightarrow> nodes s' q = nodes s q)
    else LeafNode_Insert pid i key value s = Inr (False, s)"
proof (cases "fits (pg_size s) (length key + length value) True (nodes s pid)")
  case True
  obtain n' b where r: "LeafNode_Insert pid i key value s = Inr (True, set_node pid n' s)" "wf_node (pg_size s) n'" "IsLeaf n'"
    "cells n' = insert_at i (leaf_slot False b (length key) (length value), key @ value) (cells (nodes s pid))"
    by (rule LeafNode_Insert_result[OF assms True])
  have "leaf_entries pid (set_node pid n' s) = insert_at i (Inr key, Inr value) (leaf_entries pid s)"
    using leaf_entries_cells[of "set_node pid n' s" pid] leaf_entries_cells[OF assms(1,2)] r(2-4)
    by (simp add: map_insert_at)
  moreover have "\<forall>q. q \<noteq> pid \<longrightarrow> nodes (set_node pid n' s) q = nodes s q" by (simp add: set_node_def)
  ultimately show ?thesis using True r(1,2) by auto
next
  case False
  then show ?thesis using LeafNode_Insert_full[OF assms(1,3)] by simp
qed

theorem leaf_insert_entries_witness:
  "\<exists>s'. LeafNode_Insert 3 0 [8] [1, 2] sample_nodes = Inr (True, s') \<and>
     leaf_entries 3 s' = insert_at 0 (Inr [8], Inr [1, 2]) (leaf_entries 3 sample_nodes)"
proof -
  have "fits 256 (Suc (Suc (Suc 0))) True sample_leaf"
    by (simp add: fits_def record_need_def) (simp add: sample_leaf_def)
  then show ?thesis using leaf_insert_entries[of sample_nodes 3 0 "[8]" "[1, 2]"] by auto
qed

text \<open>
  C19: \<^verbatim>\<open>LeafNode::Delete\<close> removes exactly the record of the slot: the remaining records read as
  before, the page stays well-formed, and for a record stored in the page nothing else changes; an
  overflow record only adds its pages to the pending ones.
\<close>

theorem leaf_delete_entries:
  assumes "wf_node (pg_size s) (nodes s pid)" "IsLeaf (nodes s pid)" "i < node_count (nodes s pid)" "deletable pid i s"
  shows "\<exists>s'. LeafNode_Delete pid i s = Inr s' \<and> leaf_entries pid s' = erase_at i (leaf_entries pid s) \<and>
    wf_node (pg_size s) (nodes s' pid) \<and> free_map s' = free_map s \<and> mem s' = mem s \<and>
    (\<not> is_overflow_pages (slots (nodes s pid) i) \<longrightarrow> pending_map s' = pending_map s)"
proof -
  obtain n' pm where r: "LeafNode_Delete pid i s = Inr ((set_node pid n' s)\<lparr>pending_map := pm\<rparr>)"
    "wf_node (pg_size s) n'" "IsLeaf n'" "cells n' = erase_at i (cells (nodes s pid))"
    "\<not> is_overflow_pages (slots (nodes s pid) i) \<longrightarrow> pm = pending_map s"
    by (rule LeafNode_Delete_result[OF assms])
  have "leaf_entries pid ((set_node pid n' s)\<lparr>pending_map := pm\<rparr>) = erase_at i (leaf_entries pid s)"
    using leaf_entries_cells[of "(set_node pid n' s)\<lparr>pending_map := pm\<rparr>" pid] leaf_entries_cells[OF assms(1,2)] r(2-4)
    by (simp add: map_erase_at)
  then show ?thesis using r(1,2,5) by (auto simp: set_node_def)
qed

theorem leaf_delete_entries_witness:
  "\<exists>s'. LeafNode_Delete 3 0 sample_nodes = Inr s' \<and> leaf_entries 3 s' = erase_at 0 (leaf_entries 3 sample_nodes)"
  using leaf_delete_entries[of sample_nodes 3 0] by (auto simp: deletable_def)

text \<open>
  C20: \<^verbatim>\<open>LeafNode::Update\<close> of a record that is stored in the page replaces exactly that record when
  the new one fits into the space without the old one. When it does not fit, the update returns
  false and the page is restored bit for bit.
\<close>

theorem leaf_update_entries:
  assumes "wf_node (pg_size s) (nodes s pid)" "IsLeaf (nodes s pid)" "i < node_count (nodes s pid)"
    "\<not> is_overflow_pages (slots (nodes s pid) i)" "length key + length value \<le> (pg_size s - 34) div 2"
  shows "if slot_end (node_count (nodes s pid)) + space_used (nodes s pid) - raw_size (nodes s pid) (slots (nodes s pid) i)
       + length key + length value \<le> pg_size s
    then \<exists>s'. LeafNode_Update pid i key value s = Inr (True, s') \<and>
      leaf_entries pid s' = (leaf_entries pid s)[i := (Inr key, Inr value)] \<and> wf_node (pg_size s) (nodes s' pid)
    else LeafNode_Update pid i key value s = Inr (False, s)"
proof -
  have le: "raw_size (nodes s pid) (slots (nodes s pid) i) \<le> space_used (nodes s pid)"
    by (rule raw_size_le_used[OF assms(1,3)])
  have fit: "fits (pg_size s) (length key + length value) False (emptied i (nodes s pid)) \<longleftrightarrow>
      slot_end (node_count (nodes s pid)) + space_used (nodes s pid) - raw_size (nodes s pid) (slots (nodes s pid) i)
       + length key + length value \<le> pg_size s"
    using le record_need_slot(2)[OF assms(5)] by (auto simp: fits_def emptied_def)
  show ?thesis
  proof (cases "fits (pg_size s) (length key + length value) False (emptied i (nodes s pid))")
    case True
    obtain n' b where r: "LeafNode_Update pid i key value s = Inr (True, set_node pid n' s)"
      "wf_node (pg_size s) n'" "IsLeaf n'"
      "cells n' = (cells (nodes s pid))[i := (leaf_slot False b (length key) (length value), key @ value)]"
      by (rule LeafNode_Update_result[OF assms True])
    have "leaf_entries pid (set_node pid n' s) = (leaf_entries pid s)[i := (Inr key, Inr value)]"
      using leaf_entries_cells[of "set_node pid n' s" pid] leaf_entries_cells[OF assms(1,2)] r(2-4)
      by (simp add: map_update)
    then show ?thesis using True fit r(1,2) by auto
  next
    case False
    then show ?thesis using fit LeafNode_Update_full[OF assms(1-4)] by simp
  qed
qed

theorem leaf_update_entries_witness:
  "\<exists>s'. LeafNode_Update 3 0 [7] [1, 2, 3] sample_nodes = Inr (True, s') \<and>
     leaf_entries 3 s' = (leaf_entries 3 sample_nodes)[0 := (Inr [7], Inr [1, 2, 3])]"
proof -
  have "slot_end 1 + space_used sample_leaf - raw_size sample_leaf (slots sample_leaf 0) + 1 + 3 \<le> 256"
    by (simp add: sample_leaf_def)
  then show ?thesis using leaf_update_entries[of sample_nodes 3 0 "[7]" "[1, 2, 3]"] by auto
qed

text \<open>
  C21: Compaction is invisible: it always succeeds on a well-formed page, every record reads as before,
  and afterwards the free space is exactly what \<^verbatim>\<open>FreeSpaceAfterCompaction\<close> promised before.
\<close>

theorem compactify_equivalent:
  assumes "wf_node (pg_size s) (nodes s pid)" "IsLeaf (nodes s pid)"
  shows "\<exists>n'. Compactify (pg_size s) (nodes s pid) = Inr n' \<and> wf_node (pg_size s) n' \<and>
    leaf_entries pid (set_node pid n' s) = leaf_entries pid s \<and>
    FreeSpace (pg_size s) n' = FreeSpaceAfterCompaction (pg_size s) (nodes s pid)"
proof -
  obtain n' where r: "Compactify (pg_size s) (nodes s pid) = Inr n'" "wf_node (pg_size s) n'" "cells n' = cells (nodes s pid)"
    "data_offset n' = int (pg_size s - space_used (nodes s pid))" "node_count n' = node_count (nodes s pid)"
    "node_type n' = node_type (nodes s pid)"
    by (rule Compactify_result[OF assms(1)])
  have "IsLeaf n'" using assms(2) r(6) by (simp add: IsLeaf_def)
  then have "leaf_entries pid (set_node pid n' s) = leaf_entries pid s"
    using leaf_entries_cells[of "set_node pid n' s" pid] leaf_entries_cells[OF assms] r(2,3) by simp
  moreover have "FreeSpace (pg_size s) n' = Inr (nat (data_offset n') - slot_end (node_count n'))"
    using r(2) wf_node_bounds[OF r(2)] by (intro FreeSpace_eq) (auto simp: wf_node_def layout_def)
  then have "FreeSpace (pg_size s) n' = FreeSpaceAfterCompaction (pg_size s) (nodes s pid)"
    unfolding FreeSpaceAfterCompaction_eq[OF assms(1)] r(4,5) by simp
  ultimately show ?thesis using r(1,2) by blast
qed

theorem compactify_equivalent_witness:
  "\<exists>n'. Compactify 256 sample_leaf = Inr n' \<and> FreeSpace 256 n' = FreeSpaceAfterCompaction 256 sample_leaf"
  using compactify_equivalent[of sample_nodes 3] by auto

text \<open>
  C22: \<^verbatim>\<open>BranchNode::Insert\<close> of a separator that is stored in the page. When it fits, the separator
  appears at the slot and the child right or left of it; otherwise it returns false and nothing
  changed.
\<close>

theorem branch_insert_entries:
  assumes "wf_node (pg_size s) (nodes s pid)" "\<not> IsLeaf (nodes s pid)" "i \<le> node_count (nodes s pid)"
    "0 < length key" "length key \<le> (pg_size s - 34) div 2"
  shows "if fits (pg_size s) (length key) True (nodes s pid)
    then \<exists>s'. BranchNode_Insert pid i key child r s = Inr (True, s') \<and>
      branch_keys pid s' = insert_at i (Inr key) (branch_keys pid s) \<and>
      branch_children (nodes s' pid) = insert_at (if r then i + 1 else i) (Inr child) (branch_children (nodes s pid)) \<and>
      wf_node (pg_size s) (nodes s' pid)
    else BranchNode_Insert pid i key child r s = Inr (False, s)"
proof (cases "fits (pg_size s) (length key) True (nodes s pid)")
  case True
  obtain n' b where n': "BranchNode_Insert pid i key child r s = Inr (True, set_node pid n' s)" "wf_node (pg_size s) n'"
    "separators n' = insert_at i (leaf_slot False b (length key) 0, key) (separators (nodes s pid))"
    "children n' = insert_at (if r then Suc i else i) child (children (nodes s pid))"
    by (rule BranchNode_Insert_result[OF assms True])
  have "branch_keys pid (set_node pid n' s) = insert_at i (Inr key) (branch_keys pid s)"
    using branch_keys_separators[of "set_node pid n' s" pid] branch_keys_separators[OF assms(1)] n'(2,3)
    by (simp add: map_insert_at)
  moreover have "branch_children n' = insert_at (if r then i + 1 else i) (Inr child) (branch_children (nodes s pid))"
    using n'(4) by (simp add: branch_children_eq map_insert_at)
  ultimately show ?thesis using True n'(1,2) by auto
next
  case False
  then show ?thesis using RequestSpaceFor_eq[OF assms(1), of "length key" 0 True] assms(3)
    by (simp add: BranchNode_Insert_def)
qed

theorem branch_insert_entries_witness:
  "\<exists>s'. BranchNode_Insert 4 0 [1, 1] 9 True sample_nodes = Inr (True, s') \<and>
     branch_children (nodes s' 4) = insert_at 1 (Inr 9) (branch_children sample_branch)"
proof -
  have "fits 256 (Suc (Suc 0)) True sample_branch"
    by (simp add: fits_def record_need_def) (simp add: sample_branch_def)
  then show ?thesis using branch_insert_entries[of sample_nodes 4 0 "[1, 1]" 9 True] by auto
qed

text \<open>
  C23: \<^verbatim>\<open>BranchNode::Delete\<close> removes the separator of the slot and the child right of it, or left of
  it, and no other.
\<close>

theorem branch_delete_entries:
  assumes "wf_node (pg_size s) (nodes s pid)" "\<not> IsLeaf (nodes s pid)" "i < node_count (nodes s pid)" "deletable pid i s"
  shows "\<exists>s'. BranchNode_Delete pid i r s = Inr s' \<and> branch_keys pid s' = erase_at i (branch_keys pid s) \<and>
    branch_children (nodes s' pid) = erase_at (if r then i + 1 else i) (branch_children (nodes s pid)) \<and>
    wf_node (pg_size s) (nodes s' pid)"
proof -
  obtain n' pm where n': "BranchNode_Delete pid i r s = Inr ((set_node pid n' s)\<lparr>pending_map := pm\<rparr>)" "wf_node (pg_size s) n'"
    "separators n' = erase_at i (separators (nodes s pid))"
    "children n' = erase_at (if r then Suc i else i) (children (nodes s pid))"
    by (rule BranchNode_Delete_result[OF assms])
  let ?t = "(set_node pid n' s)\<lparr>pending_map := pm\<rparr>"
  have t: "nodes ?t pid = n'" "pg_size ?t = pg_size s" by (simp_all add: set_node_def)
  have "branch_keys pid ?t = erase_at i (branch_keys pid s)"
    using branch_keys_separators[of ?t pid] branch_keys_separators[OF assms(1)] n'(2,3)
    by (simp add: map_erase_at)
  moreover have "branch_children n' = erase_at (if r then i + 1 else i) (branch_children (nodes s pid))"
    using n'(4) by (simp add: branch_children_eq map_erase_at)
  ultimately show ?thesis using n'(1,2) t by auto
qed

theorem branch_delete_entries_witness:
  "\<exists>s'. BranchNode_Delete 4 0 True sample_nodes = Inr s' \<and> branch_keys 4 s' = [] \<and>
     branch_children (nodes s' 4) = [Inr 2]"
proof -
  have "branch_children sample_branch = [Inr 2, Inr 6]" "length (branch_keys 4 sample_nodes) = 1"
    by (simp_all add: branch_children_def GetLeftChild_def branch_keys_def) (simp_all add: sample_branch_def sample_leaf_def)
  then show ?thesis using branch_delete_entries[of sample_nodes 4 0 True]
    by (cases "branch_keys 4 sample_nodes") (auto simp: deletable_def erase_at_def)
qed

lemma node_search_bytes:
  assumes "length ks = node_count (nodes s pid)" "\<forall>i < length ks. GetKey pid i s = Inr (ks ! i)"
    "sorted_wrt (<) ks" "\<forall>x \<in> set (k # ks). short_key x"
  shows "\<exists>p \<le> length ks. Node_LowerBound ByteArrayComparator pid k s = Inr (p, k \<in> set ks) \<and>
    (\<forall>i < p. ks ! i < k) \<and> (\<forall>i. p \<le> i \<and> i < length ks \<longrightarrow> k \<le> ks ! i)"
proof -
  have "Node_LowerBound ByteArrayComparator pid k s =
      lower_bound_loop (\<lambda>i. ByteArrayComparator (ks ! i) k) 0 (length ks) False"
    unfolding Node_LowerBound_def assms(1)[symmetric]
    by (rule lower_bound_loop_cong) (simp add: assms(2))
  then show ?thesis using bytes_lower_bound[OF assms(3,4)] by simp
qed

text \<open>
  The search in a node. When the keys that the slots show are strictly increasing, \<^verbatim>\<open>LowerBound\<close>
  returns the first slot whose key is not below the searched key and reports whether it is equal.
\<close>

theorem node_lower_bound:
  assumes "length ks = node_count (nodes s pid)" "\<forall>i < length ks. GetKey pid i s = Inr (ks ! i)"
    "sorted_wrt (<) ks" "\<forall>x \<in> set (k # ks). short_key x"
  shows "\<exists>p \<le> length ks. Node_LowerBound ByteArrayComparator pid k s = Inr (p, k \<in> set ks) \<and>
    (\<forall>i < p. ks ! i < k) \<and> (\<forall>i. p \<le> i \<and> i < length ks \<longrightarrow> k \<le> ks ! i)"
  by (rule node_search_bytes[OF assms])

theorem node_lower_bound_witness:
  "\<exists>p \<le> 1. Node_LowerBound ByteArrayComparator 3 [8] sample_nodes = Inr (p, False)"
proof -
  have "GetKey 3 0 sample_nodes = Inr [7]"
    by (simp add: GetKey_def GetRecord_def) (simp add: sample_leaf_def mem_read_def)
  then show ?thesis using node_lower_bound[of "[[7]]" sample_nodes 3 "[8]"] by (auto simp: short_key_def)
qed

text \<open>
  Every node can hold two records: a page with at most one record has room for any further
  record, whatever its size, since larger ones go to overflow pages.
\<close>

theorem two_records_fit:
  assumes "wf_node ps n" "node_count n \<le> 1" "raw_size n (slots n 0) \<le> (ps - 34) div 2"
  shows "\<exists>n'. RequestSpaceFor ps kl vl True n = Inr (True, n')"
proof -
  have "space_used n \<le> (ps - 34) div 2"
    using assms by (cases "node_count n") (auto simp: wf_node_def layout_def)
  moreover have "record_need ps (kl + vl) True \<le> (ps - 34) div 2 + 8"
    using assms(1) by (auto simp: record_need_def wf_node_def page_ok_def)
  moreover have "34 \<le> ps" using assms(1) by (simp add: wf_node_def page_ok_def)
  ultimately have "fits ps (kl + vl) True n" using assms(2) by (simp add: fits_def)
  then show ?thesis using RequestSpaceFor_eq[OF assms(1), of kl vl True] by auto
qed

theorem two_records_fit_witness: "\<exists>n'. RequestSpaceFor 256 1000 20000 True sample_leaf = Inr (True, n')"
proof -
  have "raw_size sample_leaf (slots sample_leaf 0) \<le> (256 - 34) div 2"
    by (simp add: sample_leaf_def raw_size_def IsLeaf_def)
  then show ?thesis using two_records_fit[of 256 sample_leaf 1000 20000] by simp
qed

text \<open>
  C24: A record in overflow pages reads back as it was stored: the key from its start and the value
  right behind it, across page borders, as long as the file stays below 4 GiB.
\<close>

theorem overflow_roundtrip:
  assumes st: "StoreRecordToOverflowPages key value s = Inr (pgid, t)"
    and ps: "0 < pg_size s" "pgid * pg_size s + length key < 4294967296" and len: "length key < 32768"
  shows "ReadBytes pgid 0 (length key) t = Inr key \<and> ReadBytes pgid (length key) (length value) t = Inr value \<and>
    nodes t = nodes s"
proof -
  obtain s1 s2 where a: "Alloc (GetPageCount (length key + length value) s) s = Inr (pgid, s1)"
    and w1: "WriteByBytes pgid 0 key s1 = Inr s2"
    and w2: "(if value \<noteq> [] then WriteByBytes (u32 (pgid + u32 (length key div pg_size s))) (length key mod pg_size s) value s2
      else Inr s2) = Inr t"
    using st by (auto simp: StoreRecordToOverflowPages_def bind_res_Inr_iff)
  have f1: "pg_size s1 = pg_size s" "nodes s1 = nodes s" using Alloc_frame[OF a] by simp_all
  let ?a = "pgid * pg_size s" and ?k = "length key"
  have s2: "s2 = s1\<lparr>mem := mem_write (mem s1) ?a key\<rparr>" "?a + ?k \<le> map_size s1"
    using w1 ps f1 by (auto simp: WriteByBytes_def GetPtr_def split: if_splits)
  have le: "pgid \<le> ?a" "?k div pg_size s \<le> ?k" using ps(1) by (cases "pg_size s", auto)
  have "(pgid + ?k div pg_size s) * pg_size s + ?k mod pg_size s = ?a + ?k"
    by (simp add: add_mult_distrib)
  moreover have "(pgid + ?k div pg_size s) * pg_size s \<le> ?a + ?k" by (simp add: add_mult_distrib)
  moreover have "u32 (?k div pg_size s) = ?k div pg_size s" "u32 (pgid + ?k div pg_size s) = pgid + ?k div pg_size s"
    by (rule u32_eq_iff_small, rule le_less_trans[OF le(2)], use len in simp)
      (rule u32_eq_iff_small, rule le_less_trans[OF add_mono[OF le] ps(2)])
  ultimately have g: "GetPtr (u32 (pgid + u32 (?k div pg_size s))) (?k mod pg_size s) s2 = ?a + ?k"
    using ps(2) f1 s2 by (simp add: GetPtr_def u32_eq_iff_small)
  have t: "t = s1\<lparr>mem := mem_write (mem_write (mem s1) ?a key) (?a + ?k) value\<rparr>" "?a + ?k + length value \<le> map_size s1"
    using w2 g s2 by (auto simp: WriteByBytes_def split: if_splits)
  have p0: "GetPtr pgid i t = ?a + i" for i using ps f1 by (simp add: t GetPtr_def)
  have "ReadBytes pgid ?k (length value) t = Inr value"
    unfolding ReadBytes_def p0 using t(2) by (simp add: t(1))
  moreover have "ReadBytes pgid 0 ?k t = Inr key"
    unfolding ReadBytes_def p0 using t(2) by (simp add: t(1) mem_read_write_other)
  ultimately show ?thesis using f1 by (simp add: t(1))
qed

theorem overflow_roundtrip_witness:
  "\<exists>t. StoreRecordToOverflowPages [7] [8, 9] sample_nodes = Inr (2, t) \<and>
     ReadBytes 2 0 1 t = Inr [7] \<and> ReadBytes 2 1 2 t = Inr [8, 9]"
proof -
  obtain t where t: "StoreRecordToOverflowPages [7] [8, 9] sample_nodes = Inr (2, t)"
    by (simp add: StoreRecordToOverflowPages_def GetPageCount_def sample_nodes_def Let_def Alloc_def AllocFromMap_def
        take_run_def debug_erase_def erase_at_def WriteByBytes_def GetPtr_def sample_eval)
  then show ?thesis using overflow_roundtrip[OF t] by (auto simp: numeral_2_eq_2)
qed

text \<open>\<^verbatim>\<open>DeleteRecord\<close> of an overflow slot, and \<^verbatim>\<open>RequestSpaceFor\<close> in the page it leaves.\<close>

lemma DeleteRecord_overflow:
  assumes "wf_node ps n" "i < node_count n" "is_overflow_pages (slots n i)"
  shows "DeleteRecord i n = Inr (n\<lparr>space_used := space_used n - 4\<rparr>)" "4 \<le> space_used n"
proof -
  show "4 \<le> space_used n" using raw_size_le_used[OF assms(1,2)] assms(3) by (simp add: raw_size_def node_sizes)
  then show "DeleteRecord i n = Inr (n\<lparr>space_used := space_used n - 4\<rparr>)"
    using assms(2,3) wf_node_bounds[OF assms(1)] by (simp add: DeleteRecord_def node_sizes Let_def)
qed

lemma Compactify_after_overflow:
  assumes "wf_node ps n" "4 \<le> space_used n"
  shows "Compactify ps (n\<lparr>space_used := space_used n - 4\<rparr>) = Inl Assert_failed"
proof -
  define n1 where "n1 = n\<lparr>space_used := space_used n - 4\<rparr>"
  note b = wf_node_bounds[OF assms(1)]
  have u: "used_by n1 k = used_by n k" for k by (simp add: used_by_def n1_def)
  have c: "node_count n1 = node_count n" by (simp add: n1_def)
  obtain tmp where t: "fold_res copy_record [0..<node_count n1] (n1, int ps, 0, \<lambda>_. 0) =
      Inr (n1\<lparr>slots := packed ps (node_count n1) n1\<rparr>, int (ps - space_used n), space_used n, tmp)"
    using copy_records[of n1 ps "node_count n1" "\<lambda>_. 0"] wf_used_by[OF assms(1)] b u c by auto
  show ?thesis unfolding n1_def[symmetric]
    using t assms(2) b by (simp add: Compactify_def CopyRecordRange_def c) (simp add: n1_def assert_res_def)
qed

lemma RequestSpaceFor_after_overflow:
  assumes wf: "wf_node ps n" and u: "4 \<le> space_used n"
    and tight: "data_offset n < int (slot_end (node_count n) + record_need ps (kl + vl) False)"
    and fits: "slot_end (node_count n) + (space_used n - 4) + record_need ps (kl + vl) False \<le> ps"
  shows "RequestSpaceFor ps kl vl False (n\<lparr>space_used := space_used n - 4\<rparr>) = Inl Assert_failed"
proof -
  define n1 where "n1 = n\<lparr>space_used := space_used n - 4\<rparr>"
  define need where "need = record_need ps (kl + vl) False"
  note b = wf_node_bounds[OF wf]
  have c: "node_count n1 = node_count n" "data_offset n1 = data_offset n" "space_used n1 = space_used n - 4"
    by (simp_all add: n1_def)
  have lo: "int (slot_end (node_count n)) \<le> data_offset n" using wf by (auto simp: wf_node_def layout_def)
  have f: "FreeSpace ps n1 = Inr (nat (data_offset n) - slot_end (node_count n))"
    using FreeSpace_eq[of n1 ps] b lo unfolding c by simp
  have g: "FreeSpaceAfterCompaction ps n1 = Inr (ps - slot_end (node_count n) - (space_used n - 4))"
    using SlotSpace_eq[of n1 ps] b fits unfolding c by (auto simp: FreeSpaceAfterCompaction_def c)
  have "\<not> need \<le> nat (data_offset n) - slot_end (node_count n)" using tight lo by (simp add: need_def)
  moreover have "need \<le> ps - slot_end (node_count n) - (space_used n - 4)" using fits by (simp add: need_def)
  moreover have "RequestSpaceFor ps kl vl False n1 =
      (if need \<le> nat (data_offset n) - slot_end (node_count n) then Inr (True, n1)
       else if need \<le> ps - slot_end (node_count n) - (space_used n - 4)
       then bind_res (Compactify ps n1) (\<lambda>n'. Inr (True, n')) else Inr (False, n1))"
    using wf f g by (auto simp: RequestSpaceFor_def MaxInlineRecordSize_eq wf_node_def Let_def SpaceNeeded_def
        need_def record_need_def node_sizes)
  ultimately show ?thesis using Compactify_after_overflow[OF wf u] by (simp add: n1_def[symmetric])
qed

text \<open>
  C27: \<^verbatim>\<open>LeafNode::Update\<close> of an overflow record fails an assertion whenever the new record does not
  fit the gap of the page, but would fit after compaction. \<^verbatim>\<open>DeleteRecord\<close> takes the four bytes of
  the record off \<^verbatim>\<open>space_used\<close> but leaves the slot as it is; \<^verbatim>\<open>RequestSpaceFor\<close> then compacts, and
  \<^verbatim>\<open>Compactify\<close> copies and counts the slot.
\<close>

theorem overflow_update_compaction_fails:
  assumes "wf_node (pg_size s) (nodes s pid)" "i < node_count (nodes s pid)" "is_overflow_pages (slots (nodes s pid) i)"
    and "data_offset (nodes s pid) <
      int (slot_end (node_count (nodes s pid)) + record_need (pg_size s) (length key + length value) False)"
    and "slot_end (node_count (nodes s pid)) + (space_used (nodes s pid) - 4) +
      record_need (pg_size s) (length key + length value) False \<le> pg_size s"
  shows "LeafNode_Update pid i key value s = Inl Assert_failed"
  using DeleteRecord_overflow[OF assms(1-3)] RequestSpaceFor_after_overflow[OF assms(1) _ assms(4,5)]
  by (simp add: LeafNode_Update_def Let_def)

definition sample_overflow :: NodeData where
  "sample_overflow = sample_leaf\<lparr>space_used := 4, data_offset := 60, slots := (\<lambda>_.
     \<lparr>record_offset = 60, is_overflow_pages = True, key_size = 1, is_bucket = False, child_or_size = 900\<rparr>)\<rparr>"

theorem overflow_update_compaction_fails_witness:
  "LeafNode_Update 3 0 [7] (replicate 99 8) (sample_nodes\<lparr>nodes := (\<lambda>_. sample_overflow)\<rparr>) = Inl Assert_failed"
  by (rule overflow_update_compaction_fails)
    (simp_all add: sample_nodes_def sample_overflow_def sample_leaf_def wf_node_def page_ok_def layout_def raw_size_def
      node_sizes record_need_def)

text \<open>
  With pages of the documented maximum, 32768 bytes, no record can be stored: the signed 16-bit
  \<^verbatim>\<open>data_offset\<close> of an empty node becomes -32768 and the first insertion fails an assertion.
\<close>

theorem max_page_size_unusable:
  assumes "pg_size s = kPageMaxSize" "update_meta s = Some m"
  shows "\<exists>t. LeafNode_Build pid s = Inr t \<and> LeafNode_Insert pid 0 key value t = Inl Assert_failed"
proof -
  have "s16 32768 = - 32768" by (simp add: s16_def)
  then show ?thesis using assms
    by (simp add: LeafNode_Build_def update_tx_def kPageMaxSize_def LeafNode_Insert_def RequestSpaceFor_def
        MaxInlineRecordSize_def node_sizes FreeSpace_def SlotSpace_def Let_def)
qed

theorem max_page_size_unusable_witness:
  "\<exists>t. LeafNode_Build 3 (sample_pager\<lparr>pg_size := 32768\<rparr>) = Inr t \<and>
     LeafNode_Insert 3 0 [7] [8] t = Inl Assert_failed"
  using max_page_size_unusable[of "sample_pager\<lparr>pg_size := 32768\<rparr>"] by (simp add: kPageMaxSize_def sample_pager_def)

end
