(* ===== verification/Atomkv_Tx.thy ===== *)
theory Atomkv_Tx
  imports Atomkv_Meta Atomkv_Pager_Props Atomkv_Comparator
begin

text \<open>
  The transaction manager of \<^verbatim>\<open>src/tx_manager.cpp\<close>, the parts of \<^verbatim>\<open>src/logger.cpp\<close> it calls, and the
  transaction-level guards of \<^verbatim>\<open>src/tx_impl.cpp\<close> and \<^verbatim>\<open>src/db_impl.cpp\<close>. One update transaction runs at
  a time (\<^verbatim>\<open>update_lock\<close>); readers are counted per version in \<^verbatim>\<open>view_tx_map_\<close>. A call that would
  wait for a lock is the value \<open>Blocked\<close>. The write-ahead log writer belongs to the \<^verbatim>\<open>wal\<close>
  submodule and is a parameter.
\<close>

section \<open>State\<close>

text \<open>The operations of \<^verbatim>\<open>wal::Writer\<close> on its state \<open>'w\<close>; \<open>wr_reset\<close> is \<^verbatim>\<open>Close\<close> and \<^verbatim>\<open>Open\<close>.\<close>

record 'w wal_writer =
  wr_append :: "byte list \<Rightarrow> 'w \<Rightarrow> 'w"
  wr_flush :: "'w \<Rightarrow> 'w"
  wr_sync :: "'w \<Rightarrow> 'w"
  wr_size :: "'w \<Rightarrow> nat"
  wr_reset :: "'w \<Rightarrow> 'w"

text \<open>
  \<open>update_meta\<close> of the pager record is \<^verbatim>\<open>update_tx_\<close>: the meta struct of the open update transaction.
\<close>

record 'w tx_db = meta_db +
  options :: Options
  view_tx_map :: "(TxId, nat) omap"
  min_view_txid :: TxId
  persisted_txid :: TxId
  update_lock :: bool
  writer :: 'w
  disable_writing :: bool
  checkpoint_needed :: bool

text \<open>The two parts of the \<^verbatim>\<open>wal\<close> submodule together.\<close>

type_synonym ('c, 'w) wal_env = "'c wal_lib \<times> 'w wal_writer"


section \<open>Log records\<close>

fun log_type_byte :: "LogType \<Rightarrow> byte" where
  "log_type_byte kWalTxId = 0"
| "log_type_byte kBegin = 1"
| "log_type_byte kRollback = 2"
| "log_type_byte kCommit = 3"
| "log_type_byte kSubBucket = 4"
| "log_type_byte kPut_IsBucket = 5"
| "log_type_byte kPut_NotBucket = 6"
| "log_type_byte kDelete = 7"

definition bucket_log_header :: "LogType \<Rightarrow> BucketId \<Rightarrow> byte list" where
  "bucket_log_header t bucket_id = log_type_byte t # le_bytes 4 bucket_id"

definition AppendLog :: "'w wal_writer \<Rightarrow> byte list list \<Rightarrow> ('w, 'a) tx_db_scheme \<Rightarrow> ('w, 'a) tx_db_scheme" where
  "AppendLog w recs s =
     (if disable_writing s then s
      else let wr = fold (wr_append w) recs (writer s)
           in s\<lparr>writer := wr,
                checkpoint_needed := checkpoint_needed s \<or> max_wal_size (options s) \<le> wr_size w wr\<rparr>)"

definition FlushLog :: "'w wal_writer \<Rightarrow> ('w, 'a) tx_db_scheme \<Rightarrow> ('w, 'a) tx_db_scheme" where
  "FlushLog w s =
     (if disable_writing s then s
      else let wr = wr_flush w (writer s)
           in s\<lparr>writer := (if sync (options s) then wr_sync w wr else wr)\<rparr>)"

definition Logger_Reset :: "'w wal_writer \<Rightarrow> ('w, 'a) tx_db_scheme \<Rightarrow> ('w, 'a) tx_db_scheme" where
  "Logger_Reset w s = s\<lparr>writer := wr_reset w (writer s)\<rparr>"

definition AppendWalTxIdLog :: "'w wal_writer \<Rightarrow> ('w, 'a) tx_db_scheme \<Rightarrow> ('w, 'a) tx_db_scheme" where
  "AppendWalTxIdLog w s = AppendLog w [log_type_byte kWalTxId # le_bytes 8 (unat (txid (db_meta s)))] s"

definition AppendBeginLog :: "'w wal_writer \<Rightarrow> ('w, 'a) tx_db_scheme \<Rightarrow> ('w, 'a) tx_db_scheme" where
  "AppendBeginLog w = AppendLog w [[log_type_byte kBegin]]"

definition AppendRollbackLog :: "'w wal_writer \<Rightarrow> ('w, 'a) tx_db_scheme \<Rightarrow> ('w, 'a) tx_db_scheme" where
  "AppendRollbackLog w = AppendLog w [[log_type_byte kRollback]]"

definition AppendCommitLog :: "'w wal_writer \<Rightarrow> ('w, 'a) tx_db_scheme \<Rightarrow> ('w, 'a) tx_db_scheme" where
  "AppendCommitLog w s = FlushLog w (AppendLog w [[log_type_byte kCommit]] s)"

text \<open>\<^verbatim>\<open>AppendSubBucketLog\<close> does not look at the mode.\<close>

definition AppendSubBucketLog :: "'w wal_writer \<Rightarrow> BucketId \<Rightarrow> key \<Rightarrow> ('w, 'a) tx_db_scheme \<Rightarrow> ('w, 'a) tx_db_scheme" where
  "AppendSubBucketLog w bucket_id key = AppendLog w [bucket_log_header kSubBucket bucket_id, key]"

definition AppendPutLog ::
    "'w wal_writer \<Rightarrow> BucketId \<Rightarrow> key \<Rightarrow> byte list \<Rightarrow> bool \<Rightarrow> ('w, 'a) tx_db_scheme \<Rightarrow> ('w, 'a) tx_db_scheme" where
  "AppendPutLog w bucket_id key value bucket s =
     (if mode (options s) \<noteq> kWal then s
      else AppendLog w [bucket_log_header (if bucket then kPut_IsBucket else kPut_NotBucket) bucket_id, key, value] s)"

definition AppendDeleteLog :: "'w wal_writer \<Rightarrow> BucketId \<Rightarrow> key \<Rightarrow> ('w, 'a) tx_db_scheme \<Rightarrow> ('w, 'a) tx_db_scheme" where
  "AppendDeleteLog w bucket_id key s =
     (if mode (options s) \<noteq> kWal then s else AppendLog w [bucket_log_header kDelete bucket_id, key] s)"

definition Checkpoint :: "('c, 'w) wal_env \<Rightarrow> ('w, 'a) tx_db_scheme \<Rightarrow> ('w, 'a) tx_db_scheme res" where
  "Checkpoint env s =
     bind_res (throw_if (update_meta s = None)
       (Runtime_error ''Checkpoint can only be invoked within a write transaction.'')) (\<lambda>_.
     bind_res (SaveFreeList s) (\<lambda>s1.
     bind_res (WriteAllDirtyPages s1) (\<lambda>_.
     let s2 = Meta_Save (fst env) (Meta_Switch s1);
         s3 = Logger_Reset (snd env) (s2\<lparr>persisted_txid := txid (db_meta s2)\<rparr>);
         s4 = AppendWalTxIdLog (snd env) s3
     in Inr (s4\<lparr>checkpoint_needed := False\<rparr>))))"


section \<open>The transaction manager\<close>

text \<open>\<^verbatim>\<open>DBImpl::ClearPendingMmap\<close>: unmapping waits for the readers, which hold the lock shared.\<close>

definition ClearPendingMmap :: "('w, 'a) tx_db_scheme \<Rightarrow> ('w, 'a) tx_db_scheme res" where
  "ClearPendingMmap s =
     (if mmap_pending s = [] then Inr s
      else if view_tx_map s \<noteq> [] then Inl Blocked
      else Inr (s\<lparr>mmap_pending := []\<rparr>))"

text \<open>
  \<^verbatim>\<open>TxManager::Update\<close>. The meta struct of the transaction is a copy of the committed one (the
  fields that \<^verbatim>\<open>CopyMetaInfo\<close> does not copy are never read).
\<close>

definition TxManager_Update :: "'w wal_writer \<Rightarrow> ('w, 'a) tx_db_scheme \<Rightarrow> ('w, 'a) tx_db_scheme res" where
  "TxManager_Update w s =
     (if update_lock s then Inl Blocked
      else bind_res (ClearPendingMmap (s\<lparr>update_lock := True\<rparr>)) (\<lambda>s1.
        bind_res (assert_res (update_meta s1 = None)) (\<lambda>_.
        let s2 = (if mode (options s1) = kWal then AppendBeginLog w s1 else s1);
            m = CopyMetaInfo (db_meta s2) (db_meta s2);
            s3 = s2\<lparr>update_meta := Some (m\<lparr>txid := txid m + 1\<rparr>)\<rparr>
        in bind_res (throw_if (txid m + 1 = kTxInvalidId) (Runtime_error ''Txid overflow.'')) (\<lambda>_.
           let mv = (if view_tx_map s3 = [] then txid (db_meta s3) else fst (hd (view_tx_map s3)))
           in Release (mv - 1) (s3\<lparr>min_view_txid := mv\<rparr>)))))"

definition TxManager_View :: "('w, 'a) tx_db_scheme \<Rightarrow> MetaStruct \<times> ('w, 'a) tx_db_scheme" where
  "TxManager_View s =
     (let t = txid (db_meta s);
          c = (case map_of (view_tx_map s) t of None \<Rightarrow> 1 | Some c \<Rightarrow> u32 (c + 1))
      in (db_meta s, s\<lparr>view_tx_map := map_assign t c (view_tx_map s)\<rparr>))"

text \<open>\<^verbatim>\<open>RollBack(view_txid)\<close>, which the destructor of a \<^verbatim>\<open>ViewTx\<close> calls.\<close>

definition TxManager_RollBackView :: "TxId \<Rightarrow> ('w, 'a) tx_db_scheme \<Rightarrow> ('w, 'a) tx_db_scheme res" where
  "TxManager_RollBackView t s =
     (case map_of (view_tx_map s) t of
        None \<Rightarrow> Inl Assert_failed
      | Some c \<Rightarrow>
          bind_res (assert_res (c > 0)) (\<lambda>_.
          Inr (s\<lparr>view_tx_map := (if c - 1 = 0 then map_erase t (view_tx_map s)
                                 else map_assign t (c - 1) (view_tx_map s))\<rparr>)))"

definition TxManager_RollBack :: "('c, 'w) wal_env \<Rightarrow> ('w, 'a) tx_db_scheme \<Rightarrow> ('w, 'a) tx_db_scheme res" where
  "TxManager_RollBack env s =
     bind_res (if mode (options s) = kWal
       then let s1 = AppendRollbackLog (snd env) s
            in if checkpoint_needed s1 then Checkpoint env s1 else Inr s1
       else Inr s) (\<lambda>s2.
     bind_res (Rollback s2) (\<lambda>s3. Inr (s3\<lparr>update_meta := None, update_lock := False\<rparr>)))"

definition TxManager_Commit :: "('c, 'w) wal_env \<Rightarrow> ('w, 'a) tx_db_scheme \<Rightarrow> ('w, 'a) tx_db_scheme res" where
  "TxManager_Commit env s =
     (case update_meta s of
        None \<Rightarrow> Inl Undefined_behaviour
      | Some m \<Rightarrow>
          let s1 = Meta_Reset m s in
          bind_res (case mode (options s) of
              kWal \<Rightarrow> (let s2 = AppendCommitLog (snd env) s1
                      in if checkpoint_needed s2 then Checkpoint env s2 else Inr s2)
            | kUpdateInPlace \<Rightarrow>
                bind_res (SaveFreeList s1) (\<lambda>s2.
                bind_res (WriteAllDirtyPages s2) (\<lambda>_.
                Inr (Meta_Save (fst env) (Meta_Switch s2))))) (\<lambda>s3.
          Inr (s3\<lparr>update_meta := None, update_lock := False\<rparr>)))"

definition IsTxExpired :: "TxId \<Rightarrow> ('w, 'a) tx_db_scheme \<Rightarrow> bool" where
  "IsTxExpired t s \<longleftrightarrow> t < min_view_txid s"

definition CopyNeeded :: "TxId \<Rightarrow> ('w, 'a) tx_db_scheme \<Rightarrow> bool res" where
  "CopyNeeded t s =
     bind_res (update_tx s) (\<lambda>m.
     Inr (if IsTxExpired t s \<and> t > persisted_txid s then False else t < txid m))"


section \<open>Transactions and the database object\<close>

text \<open>\<^verbatim>\<open>DBImpl::Update\<close>, and the guards of an \<^verbatim>\<open>UpdateTx\<close> whose pointer may have been given up.\<close>

definition DBImpl_Update :: "'w wal_writer \<Rightarrow> ('w, 'a) tx_db_scheme \<Rightarrow> ('w, 'a) tx_db_scheme res" where
  "DBImpl_Update w s =
     bind_res (throw_if (read_only (options s)) (Runtime_error ''the database is read-only.'')) (\<lambda>_.
     TxManager_Update w s)"

definition UpdateTx_RollBack :: "('c, 'w) wal_env \<Rightarrow> bool \<Rightarrow> ('w, 'a) tx_db_scheme \<Rightarrow> (bool \<times> ('w, 'a) tx_db_scheme) res" where
  "UpdateTx_RollBack env has_tx s =
     bind_res (throw_if (\<not> has_tx) (Runtime_error ''Invalid tx.'')) (\<lambda>_.
     bind_res (TxManager_RollBack env s) (\<lambda>s1. Inr (False, s1)))"

text \<open>The constructor of \<^verbatim>\<open>TxManager\<close> and the check of its destructor.\<close>

definition TxManager_init :: "('w, 'a) tx_db_scheme \<Rightarrow> ('w, 'a) tx_db_scheme res" where
  "TxManager_init s =
     bind_res (LoadFreeList s) (\<lambda>s1. Inr (s1\<lparr>min_view_txid := txid (db_meta s1)\<rparr>))"

definition TxManager_destroy :: "('w, 'a) tx_db_scheme \<Rightarrow> unit res" where
  "TxManager_destroy s = (if update_meta s \<noteq> None \<or> view_tx_map s \<noteq> [] then Inl Abort else Inr ())"

end
