(* ===== verification/Atomkv_Tx_Props.thy ===== *)
theory Atomkv_Tx_Props
  imports Atomkv_Tx
begin

text \<open>
  Snapshot isolation at the level of pages: the invariant of the transaction manager and the pager
  over every sequence of begins, views, allocations, frees, commits and rollbacks, and the proof
  that no page of a version that a reader has open is handed out again.
\<close>

section \<open>The invariant\<close>

text \<open>
  \<open>L\<close> are the pages the running transaction may still reach (or the committed version, when none
  runs), \<open>L0\<close> those of the committed version. \<open>undo\<close> is what a rollback of the transaction with
  meta struct \<open>m\<close> relies on: the pages it took from the free map, the pending entries of others.
\<close>

definition others_pending :: "TxId \<Rightarrow> 'a pager_db_scheme \<Rightarrow> PagePair list" where
  "others_pending t s = concat (map snd (map_erase t (pending_map s)))"

definition undo :: "PageId set \<Rightarrow> TxId \<Rightarrow> 'a pager_db_scheme \<Rightarrow> bool" where
  "undo L0 t s \<longleftrightarrow>
     runs_ok (page_count (db_meta s)) (alloc_records s) \<and>
     pages_of (free_map s) \<inter> pages_of (alloc_records s) = {} \<and>
     pages_of (free_map s) \<subseteq> {..<page_count (db_meta s)} \<and>
     runs_ok (page_count (db_meta s)) (others_pending t s) \<and>
     pages_of (alloc_records s) \<inter> pages_of (others_pending t s) = {} \<and>
     L0 \<subseteq> {..<page_count (db_meta s)} \<and>
     L0 \<inter> (pages_of (free_map s) \<union> pages_of (alloc_records s) \<union> pages_of (others_pending t s)) = {}"

definition tx_inv :: "PageId set \<Rightarrow> PageId set \<Rightarrow> ('w, 'a) tx_db_scheme \<Rightarrow> bool" where
  "tx_inv L0 L s \<longleftrightarrow> page_inv L s \<and> 256 \<le> pg_size s \<and> 1 \<le> txid (db_meta s) \<and> txid (db_meta s) < kTxInvalidId \<and>
     page_count (db_meta s) < 4294967296 \<and>
     omap_ok (view_tx_map s) \<and> (\<forall>u \<in> fst ` set (view_tx_map s). 1 \<le> u \<and> u \<le> txid (db_meta s)) \<and>
     (case update_meta s of
        None \<Rightarrow> L0 = L \<and> (\<forall>e \<in> set (pending_map s). fst e \<le> txid (db_meta s))
      | Some m \<Rightarrow> txid (db_meta s) < txid m \<and> txid m < kTxInvalidId \<and>
          page_count (db_meta s) \<le> page_count m \<and>
          (\<forall>e \<in> set (pending_map s). fst e \<le> txid (db_meta s) \<or> fst e = txid m) \<and> undo L0 (txid m) s)"

text \<open>No free list is on record: neither the committed nor the running meta names one.\<close>

definition no_list :: "'a pager_db_scheme \<Rightarrow> bool" where
  "no_list s \<longleftrightarrow> free_list_pgid (db_meta s) = kPageInvalidId \<and>
     (\<forall>m. update_meta s = Some m \<longrightarrow> free_list_pgid m = kPageInvalidId)"

text \<open>A reader of version \<open>v\<close> whose pages are \<open>X\<close>.\<close>

definition snap :: "TxId \<Rightarrow> PageId set \<Rightarrow> ('w, 'a) tx_db_scheme \<Rightarrow> bool" where
  "snap v X s \<longleftrightarrow> v \<in> fst ` set (view_tx_map s) \<and> X \<subseteq> {..<page_count (db_meta s)} \<and>
     X \<inter> pages_of (free_map s) = {} \<and>
     (update_meta s \<noteq> None \<longrightarrow> X \<inter> pages_of (alloc_records s) = {}) \<and>
     (\<forall>e \<in> set (pending_map s). pages_of (snd e) \<inter> X \<noteq> {} \<longrightarrow> v < fst e)"

text \<open>What both depend on.\<close>

definition same_core :: "('w, 'a) tx_db_scheme \<Rightarrow> ('w, 'a) tx_db_scheme \<Rightarrow> bool" where
  "same_core s t \<longleftrightarrow> free_map t = free_map s \<and> pending_map t = pending_map s \<and> alloc_records t = alloc_records s \<and>
     debug_free_set t = debug_free_set s \<and> pg_size t = pg_size s \<and> view_tx_map t = view_tx_map s \<and>
     txid (db_meta t) = txid (db_meta s) \<and> page_count (db_meta t) = page_count (db_meta s) \<and>
     free_list_pgid (db_meta t) = free_list_pgid (db_meta s) \<and> user_root (db_meta t) = user_root (db_meta s) \<and>
     (case update_meta s of None \<Rightarrow> update_meta t = None
      | Some m \<Rightarrow> \<exists>m'. update_meta t = Some m' \<and> txid m' = txid m \<and> page_count m' = page_count m)"

lemma same_core_limit: "same_core s t \<Longrightarrow> limit t = limit s"
  by (auto simp: same_core_def limit_def split: option.splits)

lemma same_core_page_inv: "same_core s t \<Longrightarrow> page_inv L t = page_inv L s"
  using same_core_limit[of s t]
  by (simp add: page_inv_def map_inv_def pending_pairs_def same_core_def)

lemma same_core_undo: "same_core s t \<Longrightarrow> undo L0 x t = undo L0 x s"
  by (simp add: undo_def others_pending_def same_core_def)

lemma same_core_tx_inv: "same_core s t \<Longrightarrow> tx_inv L0 L t = tx_inv L0 L s"
  unfolding tx_inv_def same_core_page_inv same_core_undo
  by (auto simp: same_core_def same_core_undo split: option.splits)

lemma same_core_snap: "same_core s t \<Longrightarrow> snap v X t = snap v X s"
  by (auto simp: snap_def same_core_def split: option.splits)

lemma same_core_trans: "same_core s t \<Longrightarrow> same_core t u \<Longrightarrow> same_core s u"
  unfolding same_core_def by (auto split: option.splits)

lemma same_core_refl [simp]: "same_core s s"
  by (auto simp: same_core_def split: option.splits)

lemma same_core_frames:
  "same_core s (AppendLog w r s)" "same_core s (FlushLog w s)" "same_core s (Logger_Reset w s)"
  "same_core s (Meta_Save lib s)" "same_core s (Meta_Switch s)"
  "same_core s (s\<lparr>nodes := ns\<rparr>)" "same_core s (s\<lparr>mem := mm\<rparr>)"
  "same_core s (s\<lparr>persisted_txid := a\<rparr>)" "same_core s (s\<lparr>checkpoint_needed := b\<rparr>)"
  "same_core s (s\<lparr>update_lock := c\<rparr>)"  "same_core s (s\<lparr>mmap_pending := d\<rparr>)" "same_core s (s\<lparr>min_view_txid := e\<rparr>)"
  by (simp_all add: same_core_def AppendLog_def FlushLog_def Logger_Reset_def Meta_Save_def Meta_Switch_def Let_def
      split: option.splits)

lemma nodes_frames [simp]:
  "nodes (AppendLog w r s) = nodes s" "nodes (FlushLog w s) = nodes s" "nodes (Logger_Reset w s) = nodes s"
  "nodes (Meta_Save lib s) = nodes s" "nodes (Meta_Switch s) = nodes s" "nodes (Meta_Reset m s) = nodes s"
  by (simp_all add: AppendLog_def FlushLog_def Logger_Reset_def Meta_Save_def Meta_Switch_def Meta_Reset_def Let_def)

lemma tx_inv_map_inv: "tx_inv L0 L s \<Longrightarrow> map_inv s"
  by (simp add: tx_inv_def page_inv_def)

lemma page_inv_subset: "page_inv L s \<Longrightarrow> K \<subseteq> L \<Longrightarrow> page_inv K s"
  by (auto simp: page_inv_def)

lemma tx_inv_subset: "tx_inv L0 L s \<Longrightarrow> update_meta s \<noteq> None \<Longrightarrow> K \<subseteq> L \<Longrightarrow> tx_inv L0 K s"
  by (auto simp: tx_inv_def intro: page_inv_subset)


section \<open>Allocating and freeing in a transaction\<close>

lemma tx_inv_Alloc:
  assumes inv: "tx_inv L0 L s" and a: "Alloc n s = Inr (p, t)" and n: "0 < n" "n < 4294967296"
  shows "tx_inv L0 (L \<union> run (p, n)) t" "snap v X s \<Longrightarrow> snap v X t"
    "snap v X s \<Longrightarrow> run (p, n) \<inter> X = {}"
proof -
  note mi = tx_inv_map_inv[OF inv]
  have pi: "page_inv (L \<union> run (p, n)) t" using Alloc_keeps(1)[OF _ a n] inv by (simp add: tx_inv_def)
  have "tx_inv L0 (L \<union> run (p, n)) t \<and> (snap v X s \<longrightarrow> snap v X t \<and> run (p, n) \<inter> X = {})"
    using mi a n
  proof (cases rule: Alloc_cases)
    case (reused fm)
    obtain m where m: "update_meta s = Some m" using reused(6) by (auto simp: tx_open_def)
    have u: "undo L0 (txid m) s" using inv m by (simp add: tx_inv_def)
    have pe: "p + n \<le> page_count (db_meta s)"
    proof -
      have "p + n - 1 \<in> pages_of (free_map s)" using reused(2) n by auto
      then show ?thesis using u n by (auto simp: undo_def)
    qed
    have op: "others_pending (txid m) t = others_pending (txid m) s" by (simp add: others_pending_def reused(1))
    have dp: "pages_of (free_map s) \<inter> pages_of (others_pending (txid m) s) = {}"
      using inv by (auto simp: tx_inv_def page_inv_def pending_pairs_def others_pending_def map_erase_def pages_of_def)
    have ar: "alloc_records t = alloc_records s @ [(p, n)]" "free_map t = fm" "db_meta t = db_meta s"
      "pending_map t = pending_map s" "view_tx_map t = view_tx_map s" "update_meta t = Some m" "pg_size t = pg_size s"
      using m by (simp_all add: reused(1))
    have "undo L0 (txid m) t"
      unfolding undo_def op ar pages_of_simps runs_ok_append
      using u pe n reused(2,4) dp unfolding undo_def by (auto simp del: Int_atLeastLessThan)
    then have "tx_inv L0 (L \<union> run (p, n)) t" using inv pi m by (simp add: tx_inv_def ar)
    moreover have "snap v X t \<and> run (p, n) \<inter> X = {}" if "snap v X s"
      using that reused(2,4) m by (auto simp: snap_def ar)
    ultimately show ?thesis by blast
  next
    case (fresh m ms pm mm)
    have f: "alloc_records t = alloc_records s" "free_map t = free_map s" "db_meta t = db_meta s"
      "pending_map t = pending_map s" "view_tx_map t = view_tx_map s" "update_meta t = Some (m\<lparr>page_count := p + n\<rparr>)"
      "pg_size t = pg_size s" by (simp_all add: fresh(4))
    have "undo L0 (txid m) t = undo L0 (txid m) s" by (simp add: undo_def others_pending_def f)
    then have "tx_inv L0 (L \<union> run (p, n)) t" using inv pi fresh(1,2) by (simp add: tx_inv_def f)
    moreover have "run (p, n) \<inter> X = {}" if "snap v X s"
      using that inv fresh(1,2) by (auto simp: snap_def tx_inv_def)
    moreover have "snap v X t" if "snap v X s" using that fresh(1) by (simp add: snap_def f)
    ultimately show ?thesis by blast
  qed
  then show "tx_inv L0 (L \<union> run (p, n)) t" "snap v X s \<Longrightarrow> snap v X t" "snap v X s \<Longrightarrow> run (p, n) \<inter> X = {}"
    by blast+
qed

lemma set_map_assign: "set (map_assign k v m) \<subseteq> insert (k, v) (set m)"
  by (induction k v m rule: map_assign.induct) auto

lemma snap_version: "tx_inv L0 L s \<Longrightarrow> snap v X s \<Longrightarrow> 1 \<le> v \<and> v \<le> txid (db_meta s)"
  by (auto simp: tx_inv_def snap_def)

lemma tx_inv_Free:
  assumes inv: "tx_inv L0 L s" and f: "Free p c s = Inr t" and own: "run (p, c) \<subseteq> L" "0 < c"
  shows "tx_inv L0 (L - run (p, c)) t" "snap v X s \<Longrightarrow> snap v X t"
proof -
  have pi: "page_inv (L - run (p, c)) t" using Free_keeps(1)[OF _ f own] inv by (simp add: tx_inv_def)
  obtain m pm where m: "update_meta s = Some m" and t: "t = s\<lparr>pending_map := pm\<rparr>"
    and pm: "pm = map_assign (txid m) ((case map_of (pending_map s) (txid m) of None \<Rightarrow> [] | Some l \<Rightarrow> l) @ [(p, c)])
      (pending_map s)"
    using f by (auto simp: Free_result)
  have pd: "e \<in> set pm \<Longrightarrow> e \<in> set (pending_map s) \<or> fst e = txid m" for e
    unfolding pm using set_map_assign by fastforce
  have op: "others_pending (txid m) t = others_pending (txid m) s"
    by (simp add: others_pending_def t pm map_erase_assign)
  have "undo L0 (txid m) t = undo L0 (txid m) s" unfolding undo_def op by (simp add: t)
  moreover have "fst e \<le> txid (db_meta s) \<or> fst e = txid m" if "e \<in> set pm" for e using pd[OF that] inv m by (fastforce simp: tx_inv_def)
  ultimately show "tx_inv L0 (L - run (p, c)) t"
    using inv pi m by (simp add: tx_inv_def t)
  show "snap v X t" if sn: "snap v X s"
  proof -
    have "v < txid m" using snap_version[OF inv sn] inv m by (auto simp: tx_inv_def intro: le_less_trans)
    then have "v < fst e" if "e \<in> set pm" "pages_of (snd e) \<inter> X \<noteq> {}" for e
      using pd[OF that(1)] that(2) sn by (cases "fst e = txid m") (simp_all add: snap_def)
    then show ?thesis using sn by (simp add: snap_def t)
  qed
qed


section \<open>Readers\<close>

lemma map_of_fst: "map_of m k = Some v \<Longrightarrow> k \<in> fst ` set m"
  by (metis fst_conv image_eqI map_of_SomeD)

lemma pages_of_entry: "e \<in> set pm \<Longrightarrow> pages_of (snd e) \<subseteq> pages_of (concat (map snd pm))"
  by (auto simp: pages_of_def)

lemma tx_inv_views:
  assumes "tx_inv L0 L s" "omap_ok vm" "\<forall>u \<in> fst ` set vm. 1 \<le> u \<and> u \<le> txid (db_meta s)"
  shows "tx_inv L0 L (s\<lparr>view_tx_map := vm\<rparr>)"
proof -
  have "limit (s\<lparr>view_tx_map := vm\<rparr>) = limit s" by (cases "update_meta s") (simp_all add: limit_def)
  then have "page_inv L (s\<lparr>view_tx_map := vm\<rparr>) = page_inv L s" "undo L0 x (s\<lparr>view_tx_map := vm\<rparr>) = undo L0 x s" for x
    by (simp_all add: page_inv_def map_inv_def pending_pairs_def undo_def others_pending_def)
  then show ?thesis using assms by (simp add: tx_inv_def split: option.splits)
qed

lemma tx_inv_View:
  assumes inv: "tx_inv L0 L s" and vw: "TxManager_View s = (m, t)"
  shows "tx_inv L0 L t" "m = db_meta s" "snap v X s \<Longrightarrow> snap v X t" "snap (txid (db_meta s)) L0 t"
proof -
  define c where "c = (case map_of (view_tx_map s) (txid (db_meta s)) of None \<Rightarrow> 1 | Some c \<Rightarrow> u32 (c + 1))"
  have t: "t = s\<lparr>view_tx_map := map_assign (txid (db_meta s)) c (view_tx_map s)\<rparr>" and m: "m = db_meta s"
    using vw by (auto simp: TxManager_View_def Let_def c_def)
  show "m = db_meta s" by (rule m)
  show "tx_inv L0 L t" unfolding t
    by (rule tx_inv_views[OF inv]) (use inv in \<open>auto simp: tx_inv_def fst_set_map_assign intro: omap_ok_map_assign\<close>)
  show "snap v X s \<Longrightarrow> snap v X t" by (auto simp: snap_def t fst_set_map_assign)
  show "snap (txid (db_meta s)) L0 t"
  proof (cases "update_meta s")
    case None
    then have d: "L0 \<inter> (pages_of (free_map s) \<union> pages_of (pending_pairs s)) = {}" "L0 \<subseteq> {..<page_count (db_meta s)}"
      using inv by (simp_all add: tx_inv_def page_inv_def limit_def)
    then have "pages_of (snd e) \<inter> L0 = {}" if "e \<in> set (pending_map s)" for e
      using pages_of_entry[OF that] unfolding pending_pairs_def by blast
    then show ?thesis using d None by (auto simp: snap_def t fst_set_map_assign)
  next
    case (Some x)
    have "txid (db_meta s) < fst e" if e: "e \<in> set (pending_map s)" "pages_of (snd e) \<inter> L0 \<noteq> {}" for e
    proof (cases "fst e = txid x")
      case True
      then show ?thesis using inv Some by (simp add: tx_inv_def)
    next
      case False
      then have "pages_of (snd e) \<subseteq> pages_of (others_pending (txid x) s)"
        using e by (auto simp: others_pending_def map_erase_def pages_of_def)
      then show ?thesis using inv Some e(2) by (auto simp: tx_inv_def undo_def)
    qed
    then show ?thesis using inv Some by (auto simp: snap_def t fst_set_map_assign tx_inv_def undo_def)
  qed
qed

lemma tx_inv_RollBackView:
  assumes inv: "tx_inv L0 L s" and r: "TxManager_RollBackView u s = Inr t"
  shows "tx_inv L0 L t" "snap v X s \<Longrightarrow> v \<in> fst ` set (view_tx_map t) \<Longrightarrow> snap v X t"
proof -
  obtain vm where t: "t = s\<lparr>view_tx_map := vm\<rparr>" and vm: "omap_ok vm" "fst ` set vm \<subseteq> fst ` set (view_tx_map s)"
  proof -
    obtain c where c: "map_of (view_tx_map s) u = Some c"
      and t: "t = s\<lparr>view_tx_map := (if c - 1 = 0 then map_erase u (view_tx_map s) else map_assign u (c - 1) (view_tx_map s))\<rparr>"
      using r by (auto simp: TxManager_RollBackView_def bind_res_Inr_iff split: option.splits)
    have ok: "omap_ok (view_tx_map s)" using inv by (simp add: tx_inv_def)
    show thesis
    proof (rule that[OF t])
      show "omap_ok (if c - 1 = 0 then map_erase u (view_tx_map s) else map_assign u (c - 1) (view_tx_map s))"
        using ok by (simp add: omap_ok_map_erase omap_ok_map_assign)
      show "fst ` set (if c - 1 = 0 then map_erase u (view_tx_map s) else map_assign u (c - 1) (view_tx_map s))
          \<subseteq> fst ` set (view_tx_map s)"
        using map_of_fst[OF c] by (auto simp: fst_set_map_assign map_erase_def)
    qed
  qed
  have "\<forall>u \<in> fst ` set (view_tx_map s). 1 \<le> u \<and> u \<le> txid (db_meta s)" using inv by (simp add: tx_inv_def)
  then show "tx_inv L0 L t" unfolding t using vm(2) by (intro tx_inv_views[OF inv vm(1)]) blast
  show "snap v X s \<Longrightarrow> v \<in> fst ` set (view_tx_map t) \<Longrightarrow> snap v X t"
    by (auto simp: snap_def t)
qed


section \<open>Beginning a transaction\<close>

lemma txid_pred: "1 \<le> (x :: TxId) \<Longrightarrow> x - 1 < x"
proof -
  assume "1 \<le> x"
  then have "x \<noteq> 0" by auto
  then show ?thesis using measure_unat[of x] by (simp add: word_less_nat_alt)
qed

lemma txid_succ:
  assumes "(x :: TxId) < y"
  shows "x < x + 1"
proof -
  have "unat x < unat y" using assms by (simp add: word_less_nat_alt)
  moreover have "unat y < 18446744073709551616" using unsigned_less[of y, where 'a = nat] by simp
  ultimately have "unat (x + 1) = unat x + 1" by (simp add: unat_word_ariths)
  then show ?thesis by (simp add: word_less_nat_alt)
qed

lemma txid_less_succ:
  assumes "(x :: TxId) < x + 1"
  shows "y < x + 1 \<longleftrightarrow> y \<le> x"
proof -
  have "unat (x + 1) = unat x + 1"
    using assms by (metis Suc_eq_plus1 add.commute less_numeral_extra(3) unatSuc word_not_simps(1) add_0 less_irrefl)
  then show ?thesis by (simp add: word_less_nat_alt word_le_nat_alt less_Suc_eq_le)
qed

lemma txid_valid: "(x :: TxId) \<noteq> kTxInvalidId \<Longrightarrow> x < kTxInvalidId"
proof -
  have "kTxInvalidId = (- 1 :: TxId)" by (simp add: kTxInvalidId_def)
  then show "x \<noteq> kTxInvalidId \<Longrightarrow> x < kTxInvalidId" by (metis word_order.not_eq_extremum)
qed

lemma Release_frame:
  assumes inv: "page_inv L s" and rel: "Release r s = Inr (t :: ('w, 'a) tx_db_scheme)"
  shows "view_tx_map t = view_tx_map s" "pg_size t = pg_size s" "nodes t = nodes s"
    "min_view_txid t = min_view_txid s" "persisted_txid t = persisted_txid s"
proof -
  let ?s = "s\<lparr>alloc_records := []\<rparr>"
  have m: "map_inv ?s" and om: "omap_ok (pending_map s)" using inv by (simp_all add: page_inv_def map_inv_def)
  have "t = ?s\<lparr>free_map := free_map t, debug_free_set := debug_free_set t, pending_map := pending_map t\<rparr>"
    using release_loop_result[OF m _ om, of r t] inv rel
    by (auto simp: Release_def page_inv_def pending_pairs_def Int_commute)
  from arg_cong[OF this, of view_tx_map] arg_cong[OF this, of pg_size] arg_cong[OF this, of nodes]
    arg_cong[OF this, of min_view_txid] arg_cong[OF this, of persisted_txid]
  show "view_tx_map t = view_tx_map s" "pg_size t = pg_size s" "nodes t = nodes s"
    "min_view_txid t = min_view_txid s" "persisted_txid t = persisted_txid s" by simp_all
qed

text \<open>The oldest open version is what the manager releases up to.\<close>

definition oldest :: "('w, 'a) tx_db_scheme \<Rightarrow> TxId" where
  "oldest s = (if view_tx_map s = [] then txid (db_meta s) else fst (hd (view_tx_map s)))"

lemma oldest_bounds:
  assumes "tx_inv L0 L s"
  shows "1 \<le> oldest s" "u \<in> fst ` set (view_tx_map s) \<Longrightarrow> oldest s \<le> u"
proof -
  show "1 \<le> oldest s" using assms by (cases "view_tx_map s") (auto simp: oldest_def tx_inv_def)
  have "omap_ok (view_tx_map s)" using assms by (simp add: tx_inv_def)
  then show "u \<in> fst ` set (view_tx_map s) \<Longrightarrow> oldest s \<le> u"
    by (cases "view_tx_map s") (auto simp: oldest_def less_imp_le)
qed

lemma TxManager_Update_result:
  assumes "TxManager_Update w s = Inr t"
  obtains s1 m where "same_core s s1" "db_meta s1 = db_meta s" "update_meta s = None"
    "txid m = txid (db_meta s) + 1" "page_count m = page_count (db_meta s)" "free_list_pgid m = free_list_pgid (db_meta s)"
    "txid m \<noteq> kTxInvalidId" "Release (oldest s - 1) (s1\<lparr>update_meta := Some m\<rparr>) = Inr t"
    "nodes s1 = nodes s" "min_view_txid s1 = oldest s" "persisted_txid s1 = persisted_txid s" "user_root m = user_root (db_meta s)"
proof -
  obtain s1 where c: "ClearPendingMmap (s\<lparr>update_lock := True\<rparr>) = Inr s1" and none: "update_meta s1 = None"
    using assms by (auto simp: TxManager_Update_def bind_res_Inr_iff split: if_splits)
  define s2 where "s2 = (if mode (options s1) = kWal then AppendBeginLog w s1 else s1)"
  define m where "m = (CopyMetaInfo (db_meta s2) (db_meta s2))\<lparr>txid := txid (db_meta s2) + 1\<rparr>"
  have s1: "same_core s s1" "db_meta s1 = db_meta s" "view_tx_map s1 = view_tx_map s"
    using c by (auto simp: ClearPendingMmap_def same_core_def split: if_splits option.splits)
  have s2: "same_core s1 s2" "db_meta s2 = db_meta s" "view_tx_map s2 = view_tx_map s"
    using same_core_frames(1)[of s1] s1(2,3) by (simp_all add: s2_def AppendBeginLog_def AppendLog_def Let_def)
  have ns: "nodes s2 = nodes s" "persisted_txid s2 = persisted_txid s"
    using c by (auto simp: s2_def AppendBeginLog_def AppendLog_def Let_def ClearPendingMmap_def split: if_splits)
  have um: "update_meta s = None" using s1(1) none by (cases "update_meta s") (auto simp: same_core_def)
  have r: "txid m \<noteq> kTxInvalidId" "Release (oldest s - 1) (s2\<lparr>update_meta := Some m, min_view_txid := oldest s\<rparr>) = Inr t"
    using assms c none s2(2,3)
    by (auto simp: TxManager_Update_def bind_res_Inr_iff Let_def throw_if_def s2_def[symmetric] m_def
        CopyMetaInfo_def oldest_def split: if_splits)
  have "same_core s (s2\<lparr>min_view_txid := oldest s\<rparr>)"
    by (rule same_core_trans[OF same_core_trans[OF s1(1) s2(1)] same_core_frames(12)])
  moreover have sw: "s2\<lparr>update_meta := Some m, min_view_txid := oldest s\<rparr> = (s2\<lparr>min_view_txid := oldest s\<rparr>)\<lparr>update_meta := Some m\<rparr>"
    by (rule tx_db.equality) simp_all
  ultimately show thesis
    using that[of "s2\<lparr>min_view_txid := oldest s\<rparr>" m] r(1) r(2)[unfolded sw] um s2(2) ns by (simp add: m_def CopyMetaInfo_def)
qed

lemma tx_inv_Update:
  assumes inv: "tx_inv L0 L s" and up: "TxManager_Update w s = Inr t"
  shows "tx_inv L L t" "snap v X s \<Longrightarrow> snap v X t" "no_list s \<Longrightarrow> no_list t" "L0 = L" "nodes t = nodes s"
    "min_view_txid t = oldest s" "persisted_txid t = persisted_txid s" "update_meta t \<noteq> None"
    "update_meta t = Some m \<Longrightarrow> txid m = txid (db_meta s) + 1"
    "update_meta t = Some m \<Longrightarrow> user_root m = user_root (db_meta s) \<and> page_count m = page_count (db_meta s)" "db_meta t = db_meta s"
proof -
  obtain s1 m where 1: "same_core s s1" "db_meta s1 = db_meta s" "update_meta s = None"
    "txid m = txid (db_meta s) + 1" "page_count m = page_count (db_meta s)" "free_list_pgid m = free_list_pgid (db_meta s)"
    "txid m \<noteq> kTxInvalidId" "Release (oldest s - 1) (s1\<lparr>update_meta := Some m\<rparr>) = Inr t"
    "nodes s1 = nodes s" "min_view_txid s1 = oldest s" "persisted_txid s1 = persisted_txid s" "user_root m = user_root (db_meta s)"
    using up by (rule TxManager_Update_result)
  let ?s = "s1\<lparr>update_meta := Some m\<rparr>" and ?r = "oldest s - 1"
  have i1: "tx_inv L0 L s1" using inv same_core_tx_inv[OF 1(1)] by simp
  have n1: "update_meta s1 = None" using 1(1,3) by (simp add: same_core_def)
  have L: "L0 = L" using inv 1(3) by (simp add: tx_inv_def)
  have pi: "page_inv L ?s"
    using i1 n1 1(2,5) by (subst page_inv_update_meta) (simp_all add: tx_inv_def limit_def)
  note k = Release_keeps[OF pi 1(8)]
  have vm: "view_tx_map t = view_tx_map s" "pg_size t = pg_size s"
    using Release_frame[OF pi 1(8)] 1(1) by (simp_all add: same_core_def)
  have f: "update_meta t = Some m" "db_meta t = db_meta s" using k(5,6) 1(2) by simp_all
  have lim: "limit t = page_count (db_meta s)" using f 1(5) by (simp add: limit_def)
  have lt: "txid (db_meta s) < txid m" using txid_succ inv 1(4) by (auto simp: tx_inv_def)
  have mx: "txid m < kTxInvalidId"
    using 1(7) by (rule txid_valid)
  have kt: "\<forall>e \<in> set (pending_map t). fst e \<le> txid (db_meta s)"
    using k(2) inv 1(1,3) by (auto simp: tx_inv_def same_core_def)
  have "others_pending (txid m) t = concat (map snd (filter (\<lambda>e. fst e \<noteq> txid m) (pending_map t)))"
    by (simp add: others_pending_def map_erase_def)
  moreover have "runs_ok (limit t) (concat (map snd (pending_map t)))" using k(1) by (simp add: page_inv_def pending_pairs_def)
  ultimately have op: "runs_ok (limit t) (others_pending (txid m) t)" "pages_of (others_pending (txid m) t) \<subseteq> pages_of (pending_pairs t)"
    using runs_ok_concat_filter[of "limit t" "pending_map t" "\<lambda>e. fst e \<noteq> txid m"]
    by (auto simp: pending_pairs_def pages_of_def)
  have "pages_of (free_map t) \<subseteq> {..<limit t}" using k(1) pages_of_bound by (auto simp: page_inv_def map_inv_def)
  then have un: "undo L (txid m) t"
    using op k(1,4) lim f unfolding undo_def by (auto simp: page_inv_def)
  show "tx_inv L L t"
    using kt inv k(1) un f lt mx 1(5) vm by (simp add: tx_inv_def)
  show "L0 = L" by (rule L)
  show "nodes t = nodes s" "min_view_txid t = oldest s" "persisted_txid t = persisted_txid s" "update_meta t \<noteq> None"
    "update_meta t = Some m' \<Longrightarrow> txid m' = txid (db_meta s) + 1"
    "update_meta t = Some m' \<Longrightarrow> user_root m' = user_root (db_meta s) \<and> page_count m' = page_count (db_meta s)" "db_meta t = db_meta s" for m'
    using Release_frame(3-5)[OF pi 1(8)] 1(4,5,9-12) f by simp_all
  show "no_list s \<Longrightarrow> no_list t" using f 1(6) by (simp add: no_list_def)
  show "snap v X t" if sn: "snap v X s"
  proof -
    have "oldest s \<le> v" "1 \<le> oldest s" using oldest_bounds[OF inv] sn by (simp_all add: snap_def)
    then have le: "?r \<le> v" using txid_pred[of "oldest s"] by (meson less_imp_le le_trans less_le_trans)
    have s1f: "pending_map s1 = pending_map s" "free_map s1 = free_map s" using 1(1) by (simp_all add: same_core_def)
    have "pages_of (snd e) \<inter> X = {}" if "e \<in> set (pending_map s)" "fst e < ?r" for e
      using sn that le by (auto simp: snap_def)
    then have "pages_of (concat (map snd (filter (\<lambda>e. fst e < ?r) (pending_map s)))) \<inter> X = {}"
      by (auto simp: pages_of_def)
    then show ?thesis using sn k(2,3,4) f vm s1f by (auto simp: snap_def)
  qed
qed


section \<open>Saving the free list\<close>

lemma Alloc_none:
  assumes "free_map s = []" "update_meta s = Some m" "page_count m < 4294967296" "Alloc 0 s = Inr (p, t)"
  shows "free_map t = []" "pending_map t = pending_map s" "alloc_records t = alloc_records s"
    "debug_free_set t = debug_free_set s" "pg_size t = pg_size s" "db_meta t = db_meta s" "update_meta t = Some m"
    "\<exists>ms pm mm. t = s\<lparr>update_meta := Some m, map_size := ms, mmap_pending := pm, mem := mm\<rparr>"
proof -
  have af: "AllocFromMap 0 s = Inr (kPageInvalidId, s)" using assms(1) by (simp add: AllocFromMap_def)
  have "(if map_size s < u32 (page_count m * pg_size s) then Remmap (u32 (page_count m * pg_size s)) (s\<lparr>update_meta := Some m\<rparr>)
      else Inr (s\<lparr>update_meta := Some m\<rparr>)) = Inr t"
    using assms(2-4) af by (auto simp: Alloc_def update_tx_def bind_res_Inr_iff Let_def)
  then obtain ms pm mm where "t = s\<lparr>update_meta := Some m, map_size := ms, mmap_pending := pm, mem := mm\<rparr>"
  proof (cases "map_size s < u32 (page_count m * pg_size s)")
    case False
    then have "t = s\<lparr>update_meta := Some m, map_size := map_size s, mmap_pending := mmap_pending s, mem := mem s\<rparr>"
      using \<open>(if _ then _ else _) = _\<close> by auto
    then show ?thesis by (rule that)
  qed (use that Remmap_frame in fastforce)
  then show "free_map t = []" "pending_map t = pending_map s" "alloc_records t = alloc_records s"
    "debug_free_set t = debug_free_set s" "pg_size t = pg_size s" "db_meta t = db_meta s" "update_meta t = Some m"
    "\<exists>ms pm mm. t = s\<lparr>update_meta := Some m, map_size := ms, mmap_pending := pm, mem := mm\<rparr>"
    using assms(1) by auto
qed

lemma AllocFromMap_metas: "AllocFromMap n s = Inr (p, t) \<Longrightarrow> db_meta t = db_meta s \<and> update_meta t = update_meta s"
  by (auto simp: AllocFromMap_def Let_def bind_res_Inr_iff split: if_splits)

lemma Remmap_metas: "Remmap n s = Inr t \<Longrightarrow> db_meta t = db_meta s \<and> update_meta t = update_meta s"
  by (auto dest: Remmap_frame)

lemma Alloc_metas:
  assumes "Alloc n s = Inr (p, t)"
  shows "db_meta t = db_meta s \<and> update_meta t \<noteq> None"
proof -
  obtain m q s1 where m: "update_tx s = Inr m" and a: "AllocFromMap n s = Inr (q, s1)"
    and t: "t = s1 \<or> (\<exists>s2 k m'. s2 = s1\<lparr>update_meta := Some m'\<rparr> \<and> (t = s2 \<or> Remmap k s2 = Inr t))"
    using assms unfolding Alloc_def Let_def
    by (elim bind_res_pairE bind_res_InrE) (rule that, assumption+, auto elim!: bind_res_InrE split: if_splits)
  then show ?thesis using AllocFromMap_metas[OF a] by (auto simp: update_tx_Inr dest!: Remmap_metas)
qed

lemma SaveFreeList_frame:
  assumes "SaveFreeList s = Inr t"
  shows "update_meta t \<noteq> None \<and> db_meta t = db_meta s \<and> nodes t = nodes s"
proof -
  obtain m :: MetaStruct and s1 n p s3 m3 mm bs where 1: "(if free_list_pgid m \<noteq> kPageInvalidId
      then Free (free_list_pgid m) (free_list_page_count m) s else Inr s) = Inr s1"
    "Alloc n (s1\<lparr>update_meta := Some mm\<rparr>) = Inr (p, s3)" "WriteByBytes p 0 bs (s3\<lparr>update_meta := Some m3\<rparr>) = Inr t"
    using assms unfolding SaveFreeList_def Let_def
    by (elim bind_res_pairE bind_res_InrE) (rule that, assumption+)
  have "db_meta s1 = db_meta s \<and> nodes s1 = nodes s" using 1(1) by (auto simp: Free_def bind_res_Inr_iff Let_def split: if_splits)
  then show ?thesis using Alloc_metas[OF 1(2)] Alloc_frame[OF 1(2)] 1(3) by (auto simp: WriteByBytes_def split: if_splits)
qed

lemma SaveFreeList_steps:
  fixes s :: "('w, 'a) tx_db_scheme"
  assumes inv: "page_inv L s" and m: "update_meta s = Some m" "free_list_pgid m = kPageInvalidId"
    and ps: "256 \<le> pg_size s" and save: "SaveFreeList s = Inr t"
  obtains s2 n p s3 where "same_core s s2" "db_meta s2 = db_meta s" "Alloc n s2 = Inr (p, s3)" "same_core s3 t"
    "db_meta t = db_meta s3" "0 < n \<and> n < 4294967296 \<or> n = 0 \<and> free_map s2 = []"
proof -
  define k where "k = length (saved_pairs s)"
  define n where "n = u32 (k * 8 div pg_size s + (if k * 8 mod pg_size s = 0 then 0 else 1))"
  let ?s2 = "s\<lparr>update_meta := Some (m\<lparr>free_list_page_count := n\<rparr>)\<rparr>"
  have k: "k < 4294967296" using page_inv_saved_pairs(2)[OF inv] by (simp add: k_def)
  have len: "length (free_map s) + sum_list (map (length \<circ> snd) (pending_map s)) = k"
    by (simp add: k_def saved_pairs_def pending_pairs_def length_concat comp_def)
  obtain p s3 m3 where a: "Alloc n ?s2 = Inr (p, s3)" and m3: "update_meta s3 = Some m3"
    and w: "WriteByBytes p 0 (concat (map pair_bytes (saved_pairs s3)))
      (s3\<lparr>update_meta := Some (m3\<lparr>free_list_pgid := p, free_pair_count := u32 (length (saved_pairs s3))\<rparr>)\<rparr>) = Inr t"
    using save m k
    by (auto simp: SaveFreeList_def bind_res_Inr_iff update_tx_Inr Let_def len n_def
        saved_pairs_def pending_pairs_def split: if_splits)
  have "same_core s ?s2" using m by (simp add: same_core_def)
  moreover have "same_core s3 t" "db_meta t = db_meta s3"
    using w m3 by (auto simp: WriteByBytes_def same_core_def split: if_splits)
  moreover have "0 < n \<and> n < 4294967296 \<or> n = 0 \<and> free_map ?s2 = []"
  proof (cases "k = 0")
    case True
    then show ?thesis by (simp add: n_def k_def saved_pairs_def)
  next
    case False
    then show ?thesis using list_pages_bounds[of k "pg_size s"] k ps by (simp add: n_def)
  qed
  ultimately show thesis using that[of ?s2 n p s3] a by simp
qed

lemma tx_inv_SaveFreeList:
  assumes inv: "tx_inv L0 L s" and m: "update_meta s = Some m" "free_list_pgid m = kPageInvalidId"
    and save: "SaveFreeList s = Inr t"
  shows "tx_inv L0 L t" "snap v X s \<Longrightarrow> snap v X t"
proof -
  have pi: "page_inv L s" "256 \<le> pg_size s" using inv by (simp_all add: tx_inv_def)
  have "tx_inv L0 L t \<and> (snap v X s \<longrightarrow> snap v X t)"
    using pi(1) m pi(2) save
  proof (cases rule: SaveFreeList_steps)
    case (1 s2 n p s3)
    have i2: "tx_inv L0 L s2" using inv same_core_tx_inv[OF 1(1)] by simp
    obtain m2 where m2: "update_meta s2 = Some m2" "page_count m2 = page_count m" using 1(1) m by (auto simp: same_core_def)
    have "tx_inv L0 L s3 \<and> (snap v X s2 \<longrightarrow> snap v X s3)"
    proof (cases "0 < n")
      case True
      then have n: "0 < n" "n < 4294967296" using 1(6) by auto
      note k = tx_inv_Alloc[OF i2 1(3) n]
      have "update_meta s3 \<noteq> None" using 1(3) tx_inv_map_inv[OF i2] n m2
        by (cases rule: Alloc_cases[OF _ 1(3) n]) auto
      then show ?thesis using tx_inv_subset[OF k(1)] k(2) by blast
    next
      case False
      have "page_count m2 < 4294967296" using inv m m2 by (simp add: tx_inv_def page_inv_def map_inv_def limit_def)
      then obtain ms pm mm where "s3 = s2\<lparr>update_meta := Some m2, map_size := ms, mmap_pending := pm, mem := mm\<rparr>"
        using Alloc_none(8)[of s2 m2 p s3] 1(3,6) False m2 by auto
      then have "same_core s2 s3" using m2 by (simp add: same_core_def)
      then show ?thesis using i2 same_core_tx_inv same_core_snap by blast
    qed
    then show ?thesis using same_core_tx_inv[OF 1(4)] same_core_snap[OF 1(4)] same_core_snap[OF 1(1)] by blast
  qed
  then show "tx_inv L0 L t" "snap v X s \<Longrightarrow> snap v X t" by blast+
qed


section \<open>Ending a transaction\<close>

text \<open>The state without its transaction, as a commit or a rollback leaves it.\<close>

abbreviation closed :: "('w, 'a) tx_db_scheme \<Rightarrow> ('w, 'a) tx_db_scheme" where
  "closed s \<equiv> s\<lparr>update_meta := None\<rparr>"

lemma free_ok_bound: "free_ok B fm \<Longrightarrow> pages_of fm \<subseteq> {..<C} \<Longrightarrow> free_ok C fm"
proof (induction fm)
  case (Cons x fm)
  have "0 < snd x" using Cons.prems(1) by (simp add: free_ok_Cons)
  then have "fst x + snd x - 1 \<in> run x" by auto
  then have "fst x + snd x - 1 < C" using Cons.prems(2) by auto
  then show ?case using Cons by (auto simp: free_ok_Cons)
qed simp

lemma same_core_closed: "same_core s t \<Longrightarrow> same_core (closed s) (closed t)"
  by (simp add: same_core_def)

lemma same_core_ended: "same_core (closed s) (s\<lparr>update_meta := None, update_lock := b\<rparr>)"
  by (simp add: same_core_def)

lemma Rollback_closed:
  assumes inv: "tx_inv L0 L s" and m: "update_meta s = Some m" and rb: "Rollback s = Inr t"
  shows "tx_inv L0 L0 (closed t)" "snap v X s \<Longrightarrow> snap v X (closed t)" "db_meta t = db_meta s"
    "nodes t = nodes s"
proof -
  define P where "P = map_erase (txid m) (pending_map s)"
  let ?s = "s\<lparr>pending_map := P\<rparr>"
  have un: "undo L0 (txid m) s" and pi: "page_inv L s" and le: "page_count (db_meta s) \<le> limit s"
    and pk: "\<forall>e \<in> set (pending_map s). fst e \<le> txid (db_meta s) \<or> fst e = txid m"
    using inv m by (simp_all add: tx_inv_def limit_def)
  obtain u where u: "fold_res (\<lambda>pc. FreeToMap (fst pc) (snd pc)) (alloc_records s) ?s = Inr u"
    and t: "t = u\<lparr>alloc_records := []\<rparr>"
    using rb m by (auto simp: Rollback_def bind_res_Inr_iff update_tx_Inr P_def)
  have ms: "map_inv ?s" using pi omap_ok_map_erase[of "pending_map s" "txid m"]
    by (simp add: page_inv_def map_inv_def P_def)
  have ar: "runs_ok (limit ?s) (alloc_records s)" "pages_of (alloc_records s) \<inter> pages_of (free_map ?s) = {}"
    using un runs_ok_mono[OF _ le] by (auto simp: undo_def)
  note k = free_all_keeps[OF ms ar u]
  have ur: "u = ?s\<lparr>free_map := free_map u, debug_free_set := debug_free_set u\<rparr>" using k by blast
  have f: "pending_map t = P" "db_meta t = db_meta s" "view_tx_map t = view_tx_map s" "pg_size t = pg_size s"
    using arg_cong[OF ur, of pending_map] arg_cong[OF ur, of db_meta] arg_cong[OF ur, of view_tx_map]
      arg_cong[OF ur, of pg_size] by (simp_all add: t)
  show "nodes t = nodes s" using arg_cong[OF ur, of nodes] by (simp add: t)
  have fm: "free_map t = free_map u" "debug_free_set t = debug_free_set u" by (simp_all add: t)
  have pf: "pages_of (free_map t) = pages_of (free_map s) \<union> pages_of (alloc_records s)" using k by (simp add: fm)
  have op: "others_pending (txid m) s = concat (map snd P)" by (simp add: others_pending_def P_def)
  have sub: "pages_of (free_map t) \<subseteq> {..<page_count (db_meta s)}"
    using un runs_ok_bound unfolding pf undo_def by blast
  then have fo: "free_ok (page_count (db_meta s)) (free_map t)"
    using k free_ok_bound[of "limit u" "free_map u"] by (simp add: map_inv_def fm)
  have "pages_of (free_map s) \<inter> pages_of (concat (map snd P)) = {}"
    using pi by (auto simp: page_inv_def pending_pairs_def P_def map_erase_def pages_of_def)
  then have "page_inv L0 (closed t)"
    using fo k inv un omap_ok_map_erase[of "pending_map s" "txid m"] pi unfolding undo_def op
    by (auto simp: page_inv_def map_inv_def limit_def pending_pairs_def f fm pf[unfolded fm] tx_inv_def P_def)
  moreover have "fst e \<le> txid (db_meta s)" if "e \<in> set P" for e
    using that pk by (auto simp: P_def map_erase_def)
  ultimately show "tx_inv L0 L0 (closed t)" using inv by (simp add: tx_inv_def f)
  show "snap v X s \<Longrightarrow> snap v X (closed t)"
    using m by (auto simp: snap_def f pf P_def map_erase_def)
  show "db_meta t = db_meta s" by (rule f)
qed

lemma Checkpoint_steps:
  assumes "Checkpoint env s = Inr t"
  obtains s1 where "SaveFreeList s = Inr s1" "same_core s1 t" "nodes t = nodes s1"
proof -
  obtain s1 where s1: "SaveFreeList s = Inr s1"
    and t: "t = (AppendWalTxIdLog (snd env) (Logger_Reset (snd env)
      ((Meta_Save (fst env) (Meta_Switch s1))\<lparr>persisted_txid := txid (db_meta (Meta_Save (fst env) (Meta_Switch s1)))\<rparr>)))
      \<lparr>checkpoint_needed := False\<rparr>"
    using assms by (auto simp: Checkpoint_def bind_res_Inr_iff Let_def)
  have "same_core s1 t" unfolding t AppendWalTxIdLog_def
    by (rule same_core_trans[OF _ same_core_frames(9)], rule same_core_trans[OF _ same_core_frames(1)],
        rule same_core_trans[OF _ same_core_frames(3)], rule same_core_trans[OF _ same_core_frames(8)],
        rule same_core_trans[OF same_core_frames(5) same_core_frames(4)])
  moreover have "nodes t = nodes s1" by (simp add: t AppendWalTxIdLog_def)
  ultimately show thesis using that s1 by blast
qed

lemma tx_inv_RollBack:
  assumes inv: "tx_inv L0 L s" and m: "update_meta s = Some m" and nl: "no_list s"
    and rb: "TxManager_RollBack env s = Inr t"
  shows "tx_inv L0 L0 t" "snap v X s \<Longrightarrow> snap v X t" "update_meta t = None" "no_list t" "nodes t = nodes s"
    "user_root (db_meta t) = user_root (db_meta s)" "page_count (db_meta t) = page_count (db_meta s)"
    "txid (db_meta t) = txid (db_meta s)"
proof -
  obtain s2 where s2: "(if mode (options s) = kWal
       then let s1 = AppendRollbackLog (snd env) s
            in if checkpoint_needed s1 then Checkpoint env s1 else Inr s1
       else Inr s) = Inr s2"
    and r: "bind_res (Rollback s2) (\<lambda>s3. Inr (s3\<lparr>update_meta := None, update_lock := False\<rparr>)) = Inr t"
    using rb by (auto simp: TxManager_RollBack_def bind_res_Inr_iff)
  let ?s1 = "AppendRollbackLog (snd env) s"
  have c1: "same_core s ?s1" "update_meta ?s1 = Some m"
    using m by (simp_all add: AppendRollbackLog_def same_core_frames(1)) (simp add: AppendLog_def Let_def)
  have i1: "tx_inv L0 L ?s1" using inv same_core_tx_inv[OF c1(1)] by simp
  have fl: "free_list_pgid m = kPageInvalidId" using nl m by (simp add: no_list_def)
  have "tx_inv L0 L s2 \<and> (snap v X s \<longrightarrow> snap v X s2) \<and> update_meta s2 \<noteq> None \<and>
    free_list_pgid (db_meta s2) = free_list_pgid (db_meta s) \<and> nodes s2 = nodes s \<and>
    user_root (db_meta s2) = user_root (db_meta s) \<and> page_count (db_meta s2) = page_count (db_meta s) \<and>
    txid (db_meta s2) = txid (db_meta s)"
  proof (cases "mode (options s) = kWal \<and> checkpoint_needed ?s1")
    case True
    then have "Checkpoint env ?s1 = Inr s2" using s2 by (simp add: Let_def)
    then obtain a where a: "SaveFreeList ?s1 = Inr a" "same_core a s2" "nodes s2 = nodes a" by (rule Checkpoint_steps)
    note k = tx_inv_SaveFreeList[OF i1 c1(2) fl a(1)]
    have "update_meta a \<noteq> None \<and> db_meta a = db_meta ?s1 \<and> nodes a = nodes s"
      using SaveFreeList_frame[OF a(1)] by (simp add: AppendRollbackLog_def)
    then show ?thesis using a(3) k same_core_tx_inv[OF a(2)] same_core_snap[OF a(2)] same_core_snap[OF c1(1)] a(2) c1(1)
      by (auto simp: same_core_def split: option.splits)
  next
    case False
    then have "s2 = s \<or> s2 = ?s1" using s2 by (auto simp: Let_def split: if_splits)
    then show ?thesis using inv i1 c1 same_core_snap[OF c1(1)] m by (auto simp: same_core_def AppendRollbackLog_def)
  qed
  then obtain m2 where i2: "tx_inv L0 L s2" "snap v X s \<longrightarrow> snap v X s2" "update_meta s2 = Some m2"
    "free_list_pgid (db_meta s2) = free_list_pgid (db_meta s)" "nodes s2 = nodes s"
    "user_root (db_meta s2) = user_root (db_meta s)" "page_count (db_meta s2) = page_count (db_meta s)"
    "txid (db_meta s2) = txid (db_meta s)" by blast
  obtain s3 where s3: "Rollback s2 = Inr s3" and t: "t = s3\<lparr>update_meta := None, update_lock := False\<rparr>"
    using r by (auto simp: bind_res_Inr_iff)
  note k = Rollback_closed[OF i2(1,3) s3]
  have "same_core (closed s3) t" unfolding t by (rule same_core_ended)
  then show "tx_inv L0 L0 t" "snap v X s \<Longrightarrow> snap v X t"
    using k i2(2) same_core_tx_inv same_core_snap by blast+
  show "update_meta t = None" "nodes t = nodes s" "user_root (db_meta t) = user_root (db_meta s)"
    "page_count (db_meta t) = page_count (db_meta s)" "txid (db_meta t) = txid (db_meta s)"
    using k(3,4) i2(5-8) by (simp_all add: t)
  show "no_list t" using k(3) i2(4) nl by (simp add: no_list_def t)
qed

lemma closed_Alloc:
  assumes inv: "tx_inv L L (closed s)" and mi: "map_inv s" and a: "Alloc n s = Inr (p, t)" "0 < n" "n < 4294967296"
  shows "tx_inv L L (closed t)" "snap v X (closed s) \<Longrightarrow> snap v X (closed t)"
proof -
  have "tx_inv L L (closed t) \<and> (snap v X (closed s) \<longrightarrow> snap v X (closed t))"
    using mi a
  proof (cases rule: Alloc_cases)
    case (reused fm)
    have "pages_of fm \<subseteq> {..<page_count (db_meta s)}"
      using reused(4) inv pages_of_bound by (fastforce simp: tx_inv_def page_inv_def map_inv_def limit_def)
    then have "free_ok (page_count (db_meta s)) fm" by (rule free_ok_bound[OF reused(3)])
    then have "page_inv L (closed t)"
      using inv reused(1,4) by (auto simp: tx_inv_def page_inv_def map_inv_def limit_def pending_pairs_def)
    then show ?thesis using inv reused(4) by (auto simp: tx_inv_def reused(1) snap_def)
  next
    case (fresh m ms pm mm)
    have "same_core (closed s) (closed t)" by (simp add: same_core_def fresh(4))
    then show ?thesis using inv same_core_tx_inv same_core_snap by blast
  qed
  then show "tx_inv L L (closed t)" "snap v X (closed s) \<Longrightarrow> snap v X (closed t)" by blast+
qed

lemma closed_SaveFreeList:
  assumes inv: "tx_inv L L (closed s)" and m: "update_meta s = Some m" "free_list_pgid m = kPageInvalidId"
    and pi: "page_inv L s" and save: "SaveFreeList s = Inr t"
  shows "tx_inv L L (closed t)" "snap v X (closed s) \<Longrightarrow> snap v X (closed t)"
proof -
  have ps: "256 \<le> pg_size s" using inv by (simp add: tx_inv_def)
  have "tx_inv L L (closed t) \<and> (snap v X (closed s) \<longrightarrow> snap v X (closed t))"
    using pi m ps save
  proof (cases rule: SaveFreeList_steps)
    case (1 s2 n p s3)
    note c2 = same_core_closed[OF 1(1)] and c3 = same_core_closed[OF 1(4)]
    have i2: "tx_inv L L (closed s2)" using inv same_core_tx_inv[OF c2] by simp
    have "page_inv L s2" using pi same_core_page_inv[OF 1(1)] by simp
    then have mi: "map_inv s2" by (simp add: page_inv_def)
    obtain m2 where m2: "update_meta s2 = Some m2" "page_count m2 = page_count m" using 1(1) m by (auto simp: same_core_def)
    have "tx_inv L L (closed s3) \<and> (snap v X (closed s2) \<longrightarrow> snap v X (closed s3))"
    proof (cases "0 < n")
      case True
      then show ?thesis using closed_Alloc[OF i2 mi 1(3)] 1(6) by blast
    next
      case False
      have "page_count m2 < 4294967296" using mi m2 by (simp add: map_inv_def limit_def)
      then obtain ms pm mm where "s3 = s2\<lparr>update_meta := Some m2, map_size := ms, mmap_pending := pm, mem := mm\<rparr>"
        using Alloc_none(8)[of s2 m2 p s3] 1(3,6) False m2 by auto
      then have "same_core (closed s2) (closed s3)" by (simp add: same_core_def)
      then show ?thesis using i2 same_core_tx_inv same_core_snap by blast
    qed
    then show ?thesis using same_core_tx_inv[OF c3] same_core_snap[OF c3] same_core_snap[OF c2] by blast
  qed
  then show "tx_inv L L (closed t)" "snap v X (closed s) \<Longrightarrow> snap v X (closed t)" by blast+
qed

lemma Commit_steps:
  assumes m: "update_meta s = Some m" and c: "TxManager_Commit env s = Inr t"
  obtains s1 s2 s3 where "same_core (Meta_Reset m s) s1" "update_meta s1 = Some m" "SaveFreeList s1 = Inr s2 \<or> s2 = s1"
    "same_core s2 s3" "t = s3\<lparr>update_meta := None, update_lock := False\<rparr>" "nodes s1 = nodes s" "nodes s3 = nodes s2"
proof -
  let ?r = "Meta_Reset m s" and ?a = "AppendCommitLog (snd env) (Meta_Reset m s)"
  have a: "same_core ?r ?a" unfolding AppendCommitLog_def
    by (rule same_core_trans[OF same_core_frames(1) same_core_frames(2)])
  have u: "update_meta ?a = Some m" "update_meta ?r = Some m"
    using m by (simp_all add: AppendCommitLog_def FlushLog_def AppendLog_def Meta_Reset_def Let_def)
  obtain s3 where s3: "(case mode (options s) of
              kWal \<Rightarrow> (if checkpoint_needed ?a then Checkpoint env ?a else Inr ?a)
            | kUpdateInPlace \<Rightarrow>
                bind_res (SaveFreeList ?r) (\<lambda>s2.
                bind_res (WriteAllDirtyPages s2) (\<lambda>_.
                Inr (Meta_Save (fst env) (Meta_Switch s2))))) = Inr s3"
    and t: "t = s3\<lparr>update_meta := None, update_lock := False\<rparr>"
    using c m unfolding TxManager_Commit_def Let_def
    by (simp only: option.case) (elim bind_res_InrE, rule that, assumption, simp)
  have na: "nodes ?a = nodes s" by (simp add: AppendCommitLog_def)
  show thesis
  proof (cases "mode (options s)")
    case kUpdateInPlace
    then obtain s2 where "SaveFreeList ?r = Inr s2" "s3 = Meta_Save (fst env) (Meta_Switch s2)"
      using s3 by (auto simp: bind_res_Inr_iff)
    then show ?thesis using that[OF same_core_refl u(2) _ _ t] same_core_trans[OF same_core_frames(5) same_core_frames(4)]
      by (metis nodes_frames(4-6))
  next
    case kWal
    show ?thesis
    proof (cases "checkpoint_needed ?a")
      case True
      then have "Checkpoint env ?a = Inr s3" using s3 kWal by simp
      then obtain s2 where "SaveFreeList ?a = Inr s2" "same_core s2 s3" "nodes s3 = nodes s2" by (rule Checkpoint_steps)
      then show ?thesis using that[OF a u(1) _ _ t na] by blast
    next
      case False
      then show ?thesis using that[OF a u(1) _ same_core_refl t na] s3 kWal by auto
    qed
  qed
qed

lemma tx_inv_Commit:
  assumes inv: "tx_inv L0 L s" and m: "update_meta s = Some m" and nl: "no_list s"
    and c: "TxManager_Commit env s = Inr t"
  shows "tx_inv L L t" "snap v X s \<Longrightarrow> snap v X t" "update_meta t = None" "no_list t" "txid (db_meta t) = txid m"
    "nodes t = nodes s" "user_root (db_meta t) = user_root m" "page_count (db_meta t) = page_count m"
proof -
  obtain s1 s2 s3 where s: "same_core (Meta_Reset m s) s1" "update_meta s1 = Some m" "SaveFreeList s1 = Inr s2 \<or> s2 = s1"
    "same_core s2 s3" "t = s3\<lparr>update_meta := None, update_lock := False\<rparr>" "nodes s1 = nodes s" "nodes s3 = nodes s2"
    using m c by (rule Commit_steps)
  let ?r = "Meta_Reset m s"
  have fl: "free_list_pgid m = kPageInvalidId" using nl m by (simp add: no_list_def)
  have rd: "db_meta ?r = CopyMetaInfo (db_meta s) m" by (simp add: Meta_Reset_def)
  have pr: "page_inv L ?r" "page_inv L (closed ?r)"
    using inv m by (auto simp: Meta_Reset_def tx_inv_def page_inv_def map_inv_def limit_def pending_pairs_def CopyMetaInfo_def)
  have tl: "txid (db_meta s) \<le> txid m" "1 \<le> txid m" using inv m by (auto simp: tx_inv_def intro: order_trans)
  have ir: "tx_inv L L (closed ?r)"
    using inv m pr(2) tl by (auto simp: tx_inv_def page_inv_def map_inv_def limit_def Meta_Reset_def CopyMetaInfo_def intro: order_trans)
  have sr: "snap v X (closed ?r)" if "snap v X s"
    using that inv m by (auto simp: tx_inv_def snap_def Meta_Reset_def CopyMetaInfo_def)
  note c1 = same_core_closed[OF s(1)] and c2 = same_core_closed[OF s(4)]
  have i1: "tx_inv L L (closed s1)" "page_inv L s1" using ir pr(1) same_core_tx_inv[OF c1] same_core_page_inv[OF s(1)] by simp_all
  have i2: "tx_inv L L (closed s2)" "snap v X (closed s1) \<longrightarrow> snap v X (closed s2)"
    using s(3) closed_SaveFreeList[OF i1(1) s(2) fl i1(2)] i1(1) by blast+
  have e: "same_core (closed s3) t" unfolding s(5) by (rule same_core_ended)
  show "tx_inv L L t" using i2(1) same_core_tx_inv[OF c2] same_core_tx_inv[OF e] by blast
  show "snap v X s \<Longrightarrow> snap v X t"
    using sr i2(2) same_core_snap[OF c1] same_core_snap[OF c2] same_core_snap[OF e] by blast
  have "db_meta s2 = db_meta s1" "nodes s2 = nodes s1" using s(3) SaveFreeList_frame by blast+
  then show "nodes t = nodes s" using s(5-7) by simp
  from \<open>db_meta s2 = db_meta s1\<close> have "txid (db_meta t) = txid (db_meta ?r)" "free_list_pgid (db_meta t) = free_list_pgid (db_meta ?r)"
    "user_root (db_meta t) = user_root (db_meta ?r)" "page_count (db_meta t) = page_count (db_meta ?r)"
    using s(1,4,5) by (simp_all add: same_core_def)
  then show "txid (db_meta t) = txid m" "no_list t" "update_meta t = None" "user_root (db_meta t) = user_root m"
    "page_count (db_meta t) = page_count m"
    using fl by (simp_all add: rd CopyMetaInfo_def no_list_def s(5))
qed

end
