(* ===== verification/Atomkv_Isolation.thy ===== *)
theory Atomkv_Isolation
  imports Atomkv_Tx_Props "HOL-Library.Multiset"
begin

text \<open>
  The bookkeeping of pages as a state machine over the transaction manager and the pager, under a write discipline: the step
  relation lets a transaction write only pages it allocated itself, any page can become the root, and there is no checkpoint
  inside a transaction. What the trees do with these operations is in \<^verbatim>\<open>Atomkv_API\<close> and
  \<^verbatim>\<open>Atomkv_Snapshots\<close>, where the discipline is proved for the writes of a program in the mode
  \<^verbatim>\<open>kUpdateInPlace\<close>; \<^verbatim>\<open>Atomkv_WAL_Spec\<close> and \<^verbatim>\<open>Atomkv_SubBucket_Spec\<close> show operations that break it.
\<close>

section \<open>The steps of the database\<close>

text \<open>
  A configuration: the pages of the committed version, the pages the transaction reaches, the
  pages it allocated, and the state.
\<close>

type_synonym ('w, 'a) config = "PageId set \<times> PageId set \<times> PageId set \<times> ('w, 'a) tx_db_scheme"

inductive db_step :: "('c, 'w) wal_env \<Rightarrow> ('w, 'a) config \<Rightarrow> ('w, 'a) config \<Rightarrow> bool" for env where
  begin_update: "TxManager_Update (snd env) s = Inr t \<Longrightarrow> db_step env (L0, L, W, s) (L, L, {}, t)"
| view: "TxManager_View s = (m, t) \<Longrightarrow> db_step env (L0, L, W, s) (L0, L, W, t)"
| end_view: "TxManager_RollBackView u s = Inr t \<Longrightarrow> db_step env (L0, L, W, s) (L0, L, W, t)"
| alloc: "Alloc n s = Inr (p, t) \<Longrightarrow> 0 < n \<Longrightarrow> n < 4294967296 \<Longrightarrow>
    db_step env (L0, L, W, s) (L0, L \<union> run (p, n), W \<union> run (p, n), t)"
| free: "Free p c s = Inr t \<Longrightarrow> run (p, c) \<subseteq> L \<Longrightarrow> 0 < c \<Longrightarrow>
    db_step env (L0, L, W, s) (L0, L - run (p, c), W, t)"
| copy: "Copy p s = Inr (q, t) \<Longrightarrow> p \<in> L \<Longrightarrow> db_step env (L0, L, W, s) (L0, insert q (L - {p}), insert q W, t)"
| write_node: "p \<in> W \<Longrightarrow> db_step env (L0, L, W, s) (L0, L, W, s\<lparr>nodes := (nodes s)(p := nd)\<rparr>)"
| set_root: "update_meta s = Some m \<Longrightarrow>
    db_step env (L0, L, W, s) (L0, L, W, s\<lparr>update_meta := Some (m\<lparr>user_root := r\<rparr>)\<rparr>)"
| rollback: "update_meta s \<noteq> None \<Longrightarrow> TxManager_RollBack env s = Inr t \<Longrightarrow> db_step env (L0, L, W, s) (L0, L0, {}, t)"
| commit: "update_meta s \<noteq> None \<Longrightarrow> TxManager_Commit env s = Inr t \<Longrightarrow> db_step env (L0, L, W, s) (L, L, {}, t)"

inductive db_run :: "('c, 'w) wal_env \<Rightarrow> ('w, 'a) config \<Rightarrow> ('w, 'a) config \<Rightarrow> bool" for env where
  refl: "db_run env c c"
| step: "db_run env c d \<Longrightarrow> db_step env d e \<Longrightarrow> db_run env c e"

text \<open>A run during which a reader of version \<open>v\<close> stays open.\<close>

inductive reader_run :: "('c, 'w) wal_env \<Rightarrow> TxId \<Rightarrow> ('w, 'a) config \<Rightarrow> ('w, 'a) config \<Rightarrow> bool" for env v where
  refl: "reader_run env v c c"
| step: "reader_run env v c d \<Longrightarrow> db_step env d (L0, L, W, t) \<Longrightarrow> v \<in> fst ` set (view_tx_map t) \<Longrightarrow>
    reader_run env v c (L0, L, W, t)"

text \<open>The invariant of a configuration.\<close>

fun config_ok :: "('w, 'a) config \<Rightarrow> bool" where
  "config_ok (L0, L, W, s) \<longleftrightarrow> tx_inv L0 L s \<and> no_list s \<and> W \<inter> L0 = {}"

text \<open>A reader of version \<open>v\<close> with the pages \<open>X\<close>, none of which the transaction allocated.\<close>

fun reader_ok :: "TxId \<Rightarrow> PageId set \<Rightarrow> ('w, 'a) config \<Rightarrow> bool" where
  "reader_ok v X (L0, L, W, s) \<longleftrightarrow> snap v X s \<and> W \<inter> X = {}"

abbreviation node_of :: "('w, 'a) config \<Rightarrow> PageId \<Rightarrow> NodeData" where
  "node_of c \<equiv> nodes (snd (snd (snd c)))"


section \<open>Each step keeps the invariant\<close>

lemma Alloc_no_list:
  assumes "map_inv s" "Alloc n s = Inr (p, t)" "0 < n" "n < 4294967296" "no_list s"
  shows "no_list t"
  using assms(1-4) by (cases rule: Alloc_cases) (use assms(5) in \<open>auto simp: no_list_def\<close>)

lemma committed_not_allocated:
  assumes inv: "tx_inv L0 L s" and a: "Alloc n s = Inr (p, t)" "0 < n" "n < 4294967296"
  shows "run (p, n) \<inter> L0 = {}"
  using tx_inv_map_inv[OF inv] a
proof (cases rule: Alloc_cases)
  case (reused fm)
  then have "L0 \<inter> pages_of (free_map s) = {}" using inv by (auto simp: tx_inv_def undo_def tx_open_def)
  then show ?thesis using reused(2) by blast
next
  case (fresh m ms pm mm)
  then show ?thesis using inv by (auto simp: tx_inv_def undo_def)
qed

lemma config_ok_step:
  assumes "db_step env c d" "config_ok c"
  shows "config_ok d"
  using assms
proof (induction rule: db_step.induct)
  case (begin_update s t L0 L W)
  then show ?case using tx_inv_Update by auto
next
  case (view s m t L0 L W)
  then show ?case using tx_inv_View(1)[of L0 L s m t] by (auto simp: TxManager_View_def Let_def no_list_def)
next
  case (end_view u s t L0 L W)
  then show ?case using tx_inv_RollBackView(1)[of L0 L s u t]
    by (auto simp: TxManager_RollBackView_def bind_res_Inr_iff no_list_def split: option.splits)
next
  case (alloc n s p t L0 L W)
  then have i: "tx_inv L0 L s" by simp
  then show ?case using alloc tx_inv_Alloc(1)[OF i] committed_not_allocated[OF i]
      Alloc_no_list[OF tx_inv_map_inv[OF i]] by fastforce
next
  case (free p c s t L L0 W)
  then show ?case using tx_inv_Free(1)[of L0 L s p c t] by (auto simp: Free_result no_list_def)
next
  case (copy p s q t L L0 W)
  then have i: "tx_inv L0 L s" "no_list s" by simp_all
  obtain u mm where c: "Alloc 1 s = Inr (q, u)" "Free p 1 (u\<lparr>mem := mm, nodes := (nodes u)(q := nodes u p)\<rparr>) = Inr t"
    using copy(1) by (auto elim: Copy_result)
  let ?u = "u\<lparr>mem := mm, nodes := (nodes u)(q := nodes u p)\<rparr>"
  have sc: "same_core u ?u" by (rule same_core_trans[OF same_core_frames(7) same_core_frames(6)])
  have q: "tx_inv L0 (insert q L) ?u" "no_list u" "q \<notin> L0" "q \<notin> L"
    using tx_inv_Alloc(1)[OF i(1) c(1)] Alloc_no_list[OF tx_inv_map_inv[OF i(1)] c(1) _ _ i(2)]
      committed_not_allocated[OF i(1) c(1)] same_core_tx_inv[OF sc] Alloc_keeps(2)[OF _ c(1)] i(1)
    by (auto simp: tx_inv_def)
  have "tx_inv L0 (insert q L - {p}) t" using tx_inv_Free(1)[OF q(1) c(2)] copy(2) by simp
  moreover have "no_list t" using q(2) c(2) by (auto simp: Free_result no_list_def)
  moreover have "insert q L - {p} = insert q (L - {p})" using q(4) copy(2) by auto
  ultimately show ?case using copy(3) q(3) by simp
next
  case (write_node p W L0 L s nd)
  then show ?case using same_core_tx_inv[OF same_core_frames(6)] by (auto simp: no_list_def)
next
  case (set_root s m L0 L W r)
  have "same_core s (s\<lparr>update_meta := Some (m\<lparr>user_root := r\<rparr>)\<rparr>)" using set_root(1) by (simp add: same_core_def)
  then show ?case using set_root same_core_tx_inv by (auto simp: no_list_def)
next
  case (rollback s t L0 L W)
  then show ?case using tx_inv_RollBack[of L0 L s _ env t] by auto
next
  case (commit s t L0 L W)
  then show ?case using tx_inv_Commit[of L0 L s _ env t] by auto
qed

lemma config_ok_run: "db_run env c d \<Longrightarrow> config_ok c \<Longrightarrow> config_ok d"
  by (induction rule: db_run.induct) (auto intro: config_ok_step)


section \<open>A step leaves the readers alone\<close>

lemma reader_ok_step:
  assumes "db_step env c d" "config_ok c" "reader_ok v X c"
    "v \<in> fst ` set (view_tx_map (snd (snd (snd d))))"
  shows "reader_ok v X d \<and> (\<forall>p \<in> X. node_of d p = node_of c p)"
  using assms
proof (induction rule: db_step.induct)
  case (begin_update s t L0 L W)
  then show ?case using tx_inv_Update(2)[of L0 L s "snd env" t v X] tx_inv_Update(5)[of L0 L s "snd env" t] by simp
next
  case (view s m t L0 L W)
  then show ?case using tx_inv_View(3)[of L0 L s m t v X] by (auto simp: TxManager_View_def Let_def)
next
  case (end_view u s t L0 L W)
  then show ?case using tx_inv_RollBackView(2)[of L0 L s u t v X]
    by (auto simp: TxManager_RollBackView_def bind_res_Inr_iff split: option.splits)
next
  case (alloc n s p t L0 L W)
  then have i: "tx_inv L0 L s" "snap v X s" by simp_all
  then show ?case using alloc tx_inv_Alloc(2,3)[OF i(1) alloc(1-3), of v X] Alloc_frame[OF alloc(1)] by auto
next
  case (free p c s t L L0 W)
  then show ?case using tx_inv_Free(2)[of L0 L s p c t v X] by (auto simp: Free_result)
next
  case (copy p s q t L L0 W)
  then have i: "tx_inv L0 L s" "snap v X s" by simp_all
  obtain u mm where c: "Alloc 1 s = Inr (q, u)" "Free p 1 (u\<lparr>mem := mm, nodes := (nodes u)(q := nodes u p)\<rparr>) = Inr t"
    using copy(1) by (auto elim: Copy_result)
  let ?u = "u\<lparr>mem := mm, nodes := (nodes u)(q := nodes u p)\<rparr>"
  have sc: "same_core u ?u" by (rule same_core_trans[OF same_core_frames(7) same_core_frames(6)])
  note k = tx_inv_Alloc(1)[OF i(1) c(1)] tx_inv_Alloc(2,3)[OF i(1) c(1), of v X]
  have u: "tx_inv L0 (insert q L) ?u" "snap v X ?u" "q \<notin> X"
    using k i(2) same_core_tx_inv[OF sc] same_core_snap[OF sc] by (simp_all add: disjoint_iff)
  have "snap v X t" using tx_inv_Free(2)[OF u(1) c(2) _ _ u(2)] copy(2) by simp
  moreover have "nodes t = (nodes s)(q := nodes s p)" using Alloc_frame[OF c(1)] c(2) by (auto simp: Free_result)
  ultimately show ?case using copy(4) u(3) by auto
next
  case (write_node p W L0 L s nd)
  then show ?case using same_core_snap[OF same_core_frames(6)] by auto
next
  case (set_root s m L0 L W r)
  have "same_core s (s\<lparr>update_meta := Some (m\<lparr>user_root := r\<rparr>)\<rparr>)" using set_root(1) by (simp add: same_core_def)
  then show ?case using set_root same_core_snap by auto
next
  case (rollback s t L0 L W)
  then show ?case using tx_inv_RollBack(2)[of L0 L s _ env t v X] tx_inv_RollBack(5)[of L0 L s _ env t] by auto
next
  case (commit s t L0 L W)
  then show ?case using tx_inv_Commit(2)[of L0 L s _ env t v X] tx_inv_Commit(6)[of L0 L s _ env t] by auto
qed

lemma reader_ok_run:
  "reader_run env v c d \<Longrightarrow> config_ok c \<Longrightarrow> reader_ok v X c \<Longrightarrow>
   config_ok d \<and> reader_ok v X d \<and> (\<forall>p \<in> X. node_of d p = node_of c p)"
proof (induction rule: reader_run.induct)
  case (step c d L0 L W t)
  then have "config_ok d" "reader_ok v X d" "\<forall>p \<in> X. node_of d p = node_of c p" by blast+
  then show ?case using reader_ok_step[OF step(2), of v X] config_ok_step[OF step(2)] step(3) by simp
qed simp


section \<open>A sample database\<close>

definition sample_writer :: "byte list list wal_writer" where
  "sample_writer = \<lparr>wr_append = (\<lambda>bs w. w @ [bs]), wr_flush = (\<lambda>w. w), wr_sync = (\<lambda>w. w),
     wr_size = length \<circ> concat, wr_reset = (\<lambda>_. [])\<rparr>"

definition sample_env :: "(nat, byte list list) wal_env" where
  "sample_env = (sample_lib, sample_writer)"

definition sample_options :: "DbMode \<Rightarrow> Options" where
  "sample_options md = \<lparr>opt_page_size = 4096, read_only = False, sync = False, mode = md, max_wal_size = 1000000\<rparr>"

text \<open>Version 4 is committed; version 3 freed the pages 9 and 10.\<close>

definition sample_db :: "DbMode \<Rightarrow> byte list list tx_db" where
  "sample_db md = \<lparr>pg_size = 4096, free_map = [(2, 1), (5, 3)], pending_map = [(3, [(9, 2)])],
     alloc_records = [], debug_free_set = {2, 5, 6, 7}, update_meta = None,
     db_meta = sample_meta, map_size = 65536, mmap_pending = [], mem = (\<lambda>_. 0),
     nodes = undefined, io_fails = False, cur_meta_index = 0, options = sample_options md, view_tx_map = [],
     min_view_txid = 4, persisted_txid = (if md = kWal then 2 else kTxInvalidId), update_lock = False, writer = [],
     disable_writing = False, checkpoint_needed = False\<rparr>"

abbreviation sample_live :: "PageId set" where "sample_live \<equiv> {0, 1, 3, 4, 8, 11}"

lemma sample_config: "config_ok (sample_live, sample_live, {}, sample_db md)"
proof -
  have "page_inv sample_live (sample_db md)"
    by (auto simp: page_inv_def map_inv_def sample_db_def sample_meta_def limit_def free_ok_def sample_free_pages pending_pairs_def)
  then show ?thesis
    by (simp add: tx_inv_def no_list_def) (simp add: sample_db_def sample_meta_def kTxInvalidId_def)
qed


section \<open>Counting the readers\<close>

text \<open>The map of readers as a multiset of the versions that are open.\<close>

definition readers :: "TxId multiset \<Rightarrow> ('w, 'a) tx_db_scheme \<Rightarrow> bool" where
  "readers M s \<longleftrightarrow> omap_ok (view_tx_map s) \<and> (\<forall>v c. map_of (view_tx_map s) v = Some c \<longrightarrow> 0 < c) \<and>
     (\<forall>v. count M v = (case map_of (view_tx_map s) v of None \<Rightarrow> 0 | Some c \<Rightarrow> c))"

lemma readers_count: "readers M s \<Longrightarrow> map_of (view_tx_map s) v = (if v \<in># M then Some (count M v) else None)"
  by (auto simp: readers_def not_in_iff split: option.splits)

lemma readersI:
  assumes "omap_ok (view_tx_map s)" "\<forall>v. map_of (view_tx_map s) v = (if v \<in># M then Some (count M v) else None)"
  shows "readers M s"
  using assms by (auto simp: readers_def not_in_iff split: if_splits)

lemma readers_empty: "readers {#} s \<longleftrightarrow> view_tx_map s = []"
proof
  assume r: "readers {#} s"
  have "map_of (view_tx_map s) v = None" for v using readers_count[OF r, of v] by simp
  then show "view_tx_map s = []" by (metis list.set_intros(1) map_of_eq_None_iff neq_Nil_conv image_eqI)
qed (simp add: readers_def)

lemma readers_View:
  assumes "readers M s" "TxManager_View s = (m, t)" "size M < 4294967295"
  shows "readers (add_mset (txid m) M) t" "m = db_meta s"
proof -
  let ?v = "txid (db_meta s)"
  have "count M ?v < 4294967295" using assms(3) by (meson count_le_size le_less_trans)
  then have t: "t = s\<lparr>view_tx_map := map_assign ?v (Suc (count M ?v)) (view_tx_map s)\<rparr>" and m: "m = db_meta s"
    using assms(2) readers_count[OF assms(1), of ?v]
    by (auto simp: TxManager_View_def Let_def not_in_iff split: if_splits)
  then show "m = db_meta s" by simp
  show "readers (add_mset (txid m) M) t"
    using assms(1) unfolding readers_def m t by (auto simp: omap_ok_map_assign map_of_assign)
qed

lemma readers_RollBackView:
  assumes "readers M s" "v \<in># M"
  obtains t where "TxManager_RollBackView v s = Inr t" "readers (M - {#v#}) t"
    "t = s\<lparr>view_tx_map := view_tx_map t\<rparr>"
proof -
  have mo: "map_of (view_tx_map s) v = Some (count M v)" using readers_count[OF assms(1)] assms(2) by simp
  define vm where "vm = (if count M v - 1 = 0 then map_erase v (view_tx_map s)
    else map_assign v (count M v - 1) (view_tx_map s))"
  have "TxManager_RollBackView v s = Inr (s\<lparr>view_tx_map := vm\<rparr>)"
    using mo assms(2) by (simp add: TxManager_RollBackView_def vm_def)
  moreover have ok: "omap_ok (view_tx_map s)" using assms(1) by (simp add: readers_def)
  have "map_of vm u = (if u \<in># M - {#v#} then Some (count (M - {#v#}) u) else None)" for u
    using readers_count[OF assms(1), of u] ok
    by (auto simp: vm_def map_of_assign map_of_erase in_diff_count not_in_iff)
  then have "readers (M - {#v#}) (s\<lparr>view_tx_map := vm\<rparr>)"
    using ok by (intro readersI) (simp_all add: vm_def omap_ok_map_erase omap_ok_map_assign)
  ultimately show thesis using that by simp
qed


section \<open>Properties\<close>

text \<open>
  Under the write discipline of the steps, the pages \<open>L0\<close> of the version that a reader has opened keep their images and are not
  handed out while it stays open.
\<close>

lemma disciplined_snapshot:
  assumes "config_ok (L0, L, W, s)" "TxManager_View s = (m, t)"
    and "reader_run env (txid m) (L0, L, W, t) (K0, K, V, u)"
  shows "(\<forall>p \<in> L0. nodes u p = nodes s p) \<and>
    (\<forall>n q u'. 0 < n \<and> n < 4294967296 \<and> Alloc n u = Inr (q, u') \<longrightarrow> run (q, n) \<inter> L0 = {})"
proof -
  have ok: "config_ok (L0, L, W, t)" by (rule config_ok_step[OF db_step.view[OF assms(2)] assms(1)])
  have i: "tx_inv L0 L s" using assms(1) by simp
  have "reader_ok (txid m) L0 (L0, L, W, t)"
    using tx_inv_View(4)[OF i assms(2)] tx_inv_View(2)[OF i assms(2)] assms(1) by simp
  then have r: "config_ok (K0, K, V, u)" "reader_ok (txid m) L0 (K0, K, V, u)" "\<forall>p \<in> L0. nodes u p = nodes t p"
    using reader_ok_run[OF assms(3) ok] by auto
  have "nodes t = nodes s" using assms(2) by (auto simp: TxManager_View_def Let_def)
  then have "\<forall>p \<in> L0. nodes u p = nodes s p" using r(3) by simp
  moreover have "run (q, n) \<inter> L0 = {}" if "Alloc n u = Inr (q, u')" "0 < n" "n < 4294967296" for n q u'
    using tx_inv_Alloc(3)[OF _ that, of K0 K "txid m" L0] r(1,2) by simp
  ultimately show ?thesis by blast
qed

text \<open>A reader opens version 4, a transaction begins: page 3 is untouched and not handed out.\<close>

lemma sample_begin:
  "\<exists>u. TxManager_Update sample_writer (snd (TxManager_View (sample_db md))) = Inr u \<and>
     view_tx_map u = [(4, 1)] \<and> free_map u = [(2, 1), (5, 3)] \<and> pending_map u = [(3, [(9, 2)])] \<and>
     map_size u = 65536 \<and> pg_size u = 4096 \<and> alloc_records u = [] \<and> debug_free_set u = {2, 5, 6, 7} \<and>
     update_meta u = Some (sample_meta\<lparr>txid := 5\<rparr>)"
  by (cases md)
    (simp_all add: TxManager_Update_def TxManager_View_def sample_db_def sample_meta_def sample_options_def Let_def u32_def
      ClearPendingMmap_def CopyMetaInfo_def throw_if_def kTxInvalidId_def Release_def assert_res_def
      AppendBeginLog_def AppendLog_def)

lemma disciplined_snapshot_sample:
  "\<exists>t u. TxManager_View (sample_db kUpdateInPlace) = (sample_meta, t) \<and> TxManager_Update sample_writer t = Inr u \<and>
     nodes u 3 = nodes (sample_db kUpdateInPlace) 3 \<and> (\<exists>u'. Alloc 2 u = Inr (5, u') \<and> run (5, 2) \<inter> sample_live = {})"
proof -
  let ?s = "sample_db kUpdateInPlace"
  define t where "t = snd (TxManager_View ?s)"
  have v: "TxManager_View ?s = (sample_meta, t)"
    by (simp add: t_def TxManager_View_def Let_def) (simp add: sample_db_def)
  obtain u where u: "TxManager_Update sample_writer t = Inr u" "view_tx_map u = [(4, 1)]" "free_map u = [(2, 1), (5, 3)]"
    "debug_free_set u = {2, 5, 6, 7}" "update_meta u = Some (sample_meta\<lparr>txid := 5\<rparr>)"
    using sample_begin[of kUpdateInPlace] by (auto simp: t_def)
  have r: "reader_run sample_env (txid sample_meta) (sample_live, sample_live, {}, t) (sample_live, sample_live, {}, u)"
    by (rule reader_run.step[OF reader_run.refl db_step.begin_update])
      (use u in \<open>simp_all add: sample_env_def sample_meta_def\<close>)
  have "config_ok (sample_live, sample_live, {}, t)"
    by (rule config_ok_step[OF db_step.view[OF v] sample_config])
  then have "tx_inv sample_live sample_live u"
    using tx_inv_Update(1) u(1) by (simp del: One_nat_def) blast
  then have "map_inv u" by (rule tx_inv_map_inv)
  then obtain u' where a: "Alloc 2 u = Inr (5, u')"
  proof (cases rule: AllocFromMap_cases[of u 2])
    case none
    then show ?thesis using u(3) by simp
  next
    case (fit p fm)
    then have "p = 5" using u(3) by auto
    then show ?thesis using that fit(1) u(5) by (auto simp: Alloc_def update_tx_def kPageInvalidId_def)
  qed
  note k = disciplined_snapshot[OF sample_config v r]
  have "run (5, 2) \<inter> sample_live = {}" "nodes u 3 = nodes ?s 3" using k a by force+
  then show ?thesis using v u(1) a by blast
qed


text \<open>
  The free pages, the pages that wait for readers and the pages that the transaction owns are pairwise disjoint and
  inside the file, and no page of the committed version is free or was allocated by the running transaction. \<open>K0\<close> and \<open>K\<close> are
  the sets of the step relation.
\<close>

lemma bookkeeping_partition:
  assumes "config_ok (L0, L, W, s)" "db_run env (L0, L, W, s) (K0, K, V, u)"
  shows "pages_of (free_map u) \<inter> pages_of (pending_pairs u) = {} \<and> K \<inter> pages_of (free_map u) = {} \<and>
    K \<inter> pages_of (pending_pairs u) = {} \<and> K0 \<inter> pages_of (free_map u) = {} \<and> K0 \<inter> V = {} \<and>
    pages_of (free_map u) \<union> pages_of (pending_pairs u) \<union> K \<union> K0 \<subseteq> {..<limit u}"
proof -
  have ok: "tx_inv K0 K u" "V \<inter> K0 = {}" using config_ok_run[OF assms(2,1)] by simp_all
  have pi: "page_inv K u" using ok(1) by (simp add: tx_inv_def)
  have "K0 \<inter> pages_of (free_map u) = {} \<and> K0 \<subseteq> {..<limit u}"
  proof (cases "update_meta u")
    case None
    then show ?thesis using ok(1) pi by (auto simp: tx_inv_def page_inv_def)
  next
    case (Some m)
    then have "undo K0 (txid m) u" "page_count (db_meta u) \<le> limit u" using ok(1) by (simp_all add: tx_inv_def limit_def)
    then show ?thesis by (auto simp: undo_def)
  qed
  moreover have "pages_of (pending_pairs u) \<subseteq> {..<limit u}" using pi runs_ok_bound by (simp add: page_inv_def)
  moreover have "pages_of (free_map u) \<subseteq> {..<limit u}" using pi pages_of_bound by (auto simp: page_inv_def map_inv_def)
  ultimately show ?thesis using pi ok(2) by (auto simp: page_inv_def)
qed

lemma bookkeeping_partition_sample:
  "\<exists>u. TxManager_Update sample_writer (snd (TxManager_View (sample_db kWal))) = Inr u \<and>
     pages_of (free_map u) \<inter> pages_of (pending_pairs u) = {}"
proof -
  obtain u where u: "TxManager_Update sample_writer (snd (TxManager_View (sample_db kWal))) = Inr u"
    using sample_begin[of kWal] by blast
  have "db_run sample_env (sample_live, sample_live, {}, sample_db kWal)
      (sample_live, sample_live, {}, snd (TxManager_View (sample_db kWal)))"
    by (rule db_run.step[OF db_run.refl db_step.view[OF surjective_pairing]])
  then have "db_run sample_env (sample_live, sample_live, {}, sample_db kWal) (sample_live, sample_live, {}, u)"
    by (rule db_run.step[OF _ db_step.begin_update]) (simp add: u sample_env_def)
  from bookkeeping_partition[OF sample_config this] u show ?thesis by (intro exI[of _ u]) simp
qed

text \<open>
  Readers are counted exactly. The map of \<^verbatim>\<open>TxManager\<close> refines the multiset \<open>M\<close> of open
  versions: \<^verbatim>\<open>View\<close> adds the committed version, the rollback of a reader removes its version and
  cannot fail while one is open, and fails an assertion otherwise; the destructor aborts exactly
  when a reader or a transaction is left.
\<close>

theorem view_counts_refine:
  assumes "readers M s" "size M < 4294967295"
  shows "readers (add_mset (txid (db_meta s)) M) (snd (TxManager_View s)) \<and>
    (if v \<in># M then \<exists>t. TxManager_RollBackView v s = Inr t \<and> readers (M - {#v#}) t
     else TxManager_RollBackView v s = Inl Assert_failed) \<and>
    (TxManager_destroy s = Inr () \<longleftrightarrow> M = {#} \<and> update_meta s = None)"
proof (intro conjI)
  obtain m t where vw: "TxManager_View s = (m, t)" by (cases "TxManager_View s")
  then show "readers (add_mset (txid (db_meta s)) M) (snd (TxManager_View s))"
    using readers_View[OF assms(1) vw assms(2)] by simp
  show "if v \<in># M then \<exists>t. TxManager_RollBackView v s = Inr t \<and> readers (M - {#v#}) t
     else TxManager_RollBackView v s = Inl Assert_failed"
  proof (cases "v \<in># M")
    case True
    then show ?thesis by (auto elim: readers_RollBackView[OF assms(1)])
  next
    case False
    then show ?thesis using readers_count[OF assms(1), of v] by (simp add: TxManager_RollBackView_def)
  qed
  have "M = {#} \<longleftrightarrow> view_tx_map s = []"
  proof
    assume "view_tx_map s = []"
    then have "count M x = 0" for x using assms(1) by (simp add: readers_def)
    then show "M = {#}" by (simp add: multiset_eq_iff)
  qed (use assms(1) readers_empty[of s] in simp)
  then show "TxManager_destroy s = Inr () \<longleftrightarrow> M = {#} \<and> update_meta s = None"
    by (auto simp: TxManager_destroy_def)
qed

theorem view_counts_refine_witness:
  "readers {#4#} (snd (TxManager_View (sample_db kWal))) \<and>
   TxManager_RollBackView 7 (sample_db kWal) = Inl Assert_failed \<and> TxManager_destroy (sample_db kWal) = Inr ()"
  using view_counts_refine[of "{#}" "sample_db kWal" 7] readers_empty[of "sample_db kWal"]
  by (simp add: sample_db_def sample_meta_def)


lemma ended_lock:
  "TxManager_Commit env s = Inr t \<Longrightarrow> \<not> update_lock t" "TxManager_RollBack env s = Inr t \<Longrightarrow> \<not> update_lock t"
  by (auto simp: TxManager_Commit_def TxManager_RollBack_def Let_def elim!: bind_res_InrE split: option.splits)

text \<open>
  C17: What ending a transaction leaves. A commit publishes the root, the page count and the version
  of the transaction as the committed ones, at a later version; a rollback leaves the committed
  root, page count and version as they were. Both close the transaction, give up the update lock
  and leave a database on which the next transaction can start.
\<close>

theorem commit_or_rollback_outcome:
  assumes "config_ok (L0, L, W, s)" "update_meta s = Some m"
  shows "(\<forall>t. TxManager_Commit env s = Inr t \<longrightarrow> config_ok (L, L, {}, t) \<and> update_meta t = None \<and> \<not> update_lock t \<and>
      user_root (db_meta t) = user_root m \<and> page_count (db_meta t) = page_count m \<and>
      txid (db_meta t) = txid m \<and> txid (db_meta s) < txid m) \<and>
    (\<forall>t. TxManager_RollBack env s = Inr t \<longrightarrow> config_ok (L0, L0, {}, t) \<and> update_meta t = None \<and> \<not> update_lock t \<and>
      user_root (db_meta t) = user_root (db_meta s) \<and> page_count (db_meta t) = page_count (db_meta s) \<and>
      txid (db_meta t) = txid (db_meta s))"
proof (intro conjI allI impI)
  have i: "tx_inv L0 L s" "no_list s" using assms(1) by simp_all
  fix t
  {
    assume c: "TxManager_Commit env s = Inr t"
    note k = tx_inv_Commit[OF i(1) assms(2) i(2) c]
    show "config_ok (L, L, {}, t)" "update_meta t = None" "\<not> update_lock t" "user_root (db_meta t) = user_root m"
      "page_count (db_meta t) = page_count m" "txid (db_meta t) = txid m"
      using k ended_lock(1)[OF c] by simp_all
    show "txid (db_meta s) < txid m" using i(1) assms(2) by (simp add: tx_inv_def)
  next
    assume r: "TxManager_RollBack env s = Inr t"
    note k = tx_inv_RollBack[OF i(1) assms(2) i(2) r]
    show "config_ok (L0, L0, {}, t)" "update_meta t = None" "\<not> update_lock t"
      "user_root (db_meta t) = user_root (db_meta s)" "page_count (db_meta t) = page_count (db_meta s)"
      "txid (db_meta t) = txid (db_meta s)"
      using k ended_lock(2)[OF r] by simp_all
  }
qed

lemma sample_open:
  obtains u where "TxManager_Update sample_writer (sample_db md) = Inr u" "config_ok (sample_live, sample_live, {}, u)"
    "update_meta u = Some (sample_meta\<lparr>txid := 5\<rparr>)" "options u = sample_options md" "alloc_records u = []"
    "pending_map u = [(3, [(9, 2)])]" "checkpoint_needed u = False" "max_wal_size (options u) = 1000000"
    "min_view_txid u = 4" "persisted_txid u = (if md = kWal then 2 else kTxInvalidId)" "db_meta u = sample_meta"
    "free_map u = [(2, 1), (5, 3)]" "debug_free_set u = {2, 5, 6, 7}" "length (concat (writer u)) \<le> 1"
    "map_size u = 65536" "pg_size u = 4096" "io_fails u = False" "disable_writing u = False"
proof -
  obtain u where u: "TxManager_Update sample_writer (sample_db md) = Inr u"
    "update_meta u = Some (sample_meta\<lparr>txid := 5\<rparr>)" "options u = sample_options md" "alloc_records u = []"
    "pending_map u = [(3, [(9, 2)])]" "checkpoint_needed u = False" "max_wal_size (options u) = 1000000"
    "min_view_txid u = 4" "persisted_txid u = (if md = kWal then 2 else kTxInvalidId)" "db_meta u = sample_meta"
    "free_map u = [(2, 1), (5, 3)]" "debug_free_set u = {2, 5, 6, 7}" "length (concat (writer u)) \<le> 1"
    "map_size u = 65536" "pg_size u = 4096" "io_fails u = False" "disable_writing u = False"
    by (cases md)
      (simp_all add: TxManager_Update_def sample_db_def sample_meta_def sample_options_def Let_def u32_def
        ClearPendingMmap_def CopyMetaInfo_def throw_if_def kTxInvalidId_def Release_def assert_res_def
        AppendBeginLog_def AppendLog_def sample_writer_def)
  moreover have "config_ok (sample_live, sample_live, {}, u)"
    using config_ok_step[OF db_step.begin_update sample_config] u(1) by (metis sample_env_def snd_conv)
  ultimately show thesis using that by blast
qed

theorem commit_or_rollback_outcome_witness:
  "\<exists>u t. TxManager_Update sample_writer (sample_db kUpdateInPlace) = Inr u \<and> TxManager_RollBack sample_env u = Inr t \<and>
     \<not> update_lock t \<and> txid (db_meta t) = 4"
proof (rule sample_open[of kUpdateInPlace])
  fix u
  assume u: "TxManager_Update sample_writer (sample_db kUpdateInPlace) = Inr u"
    "config_ok (sample_live, sample_live, {}, u)" "update_meta u = Some (sample_meta\<lparr>txid := 5\<rparr>)"
    "options u = sample_options kUpdateInPlace" "alloc_records u = []" "db_meta u = sample_meta"
  obtain t where t: "TxManager_RollBack sample_env u = Inr t"
    using u by (simp add: TxManager_RollBack_def sample_options_def Rollback_def update_tx_def)
  then have "\<not> update_lock t \<and> txid (db_meta t) = 4"
    using commit_or_rollback_outcome[OF u(2,3), of sample_env] u(6) by (simp add: sample_meta_def)
  then show ?thesis using u(1) t by blast
qed

text \<open>
  After any of these steps, which have no checkpoint inside a transaction, the committed meta struct names no free list.
\<close>

lemma steps_record_no_list:
  assumes "config_ok (L0, L, W, s)" "db_run env (L0, L, W, s) (K0, K, V, u)"
  shows "free_list_pgid (db_meta u) = kPageInvalidId \<and> LoadFreeList u = Inr u"
  using config_ok_run[OF assms(2,1)] by (simp add: no_list_def LoadFreeList_def Let_def)

lemma steps_record_no_list_sample:
  "\<exists>u. TxManager_Update sample_writer (sample_db kWal) = Inr u \<and> free_map u = [(2, 1), (5, 3)] \<and>
     free_list_pgid (db_meta u) = kPageInvalidId"
proof (rule sample_open[of kWal])
  fix u
  assume u: "TxManager_Update sample_writer (sample_db kWal) = Inr u" "free_map u = [(2, 1), (5, 3)]"
  have "db_run sample_env (sample_live, sample_live, {}, sample_db kWal) (sample_live, sample_live, {}, u)"
    by (rule db_run.step[OF db_run.refl db_step.begin_update]) (simp add: u sample_env_def)
  then show ?thesis using steps_record_no_list[OF sample_config] u by blast
qed

text \<open>
  C25: Which pages a transaction copies before it writes them. After \<^verbatim>\<open>TxManager::Update\<close> a page that
  transaction \<open>x\<close> wrote last is copied exactly when \<open>x\<close> is an earlier transaction, except when \<open>x\<close>
  lies after the last checkpoint and before the oldest open version. In the mode \<^verbatim>\<open>kUpdateInPlace\<close>,
  where no version counts as persisted, that is every page of an earlier transaction; in the
  mode \<^verbatim>\<open>kWal\<close> a page that \<open>x\<close> wrote, which is part of the committed version and of every version
  a reader has open, is overwritten in place.
\<close>

theorem copy_needed_rule:
  assumes "config_ok (L0, L, W, s)" "TxManager_Update w s = Inr t"
  shows "CopyNeeded x t = Inr (x < txid (db_meta s) + 1 \<and> \<not> (persisted_txid s < x \<and> x < oldest s)) \<and>
    (persisted_txid s = kTxInvalidId \<longrightarrow> CopyNeeded x t = Inr (x \<le> txid (db_meta s))) \<and>
    (persisted_txid s < x \<and> x < oldest s \<longrightarrow> CopyNeeded x t = Inr False \<and> x < txid (db_meta s) + 1 \<and>
       (\<forall>v \<in> fst ` set (view_tx_map s). x < v))"
proof -
  have i: "tx_inv L0 L s" using assms(1) by simp
  note k = tx_inv_Update(6-8)[OF i assms(2)]
  obtain m where m: "update_meta t = Some m" using k(3) by blast
  have tm: "txid m = txid (db_meta s) + 1" by (rule tx_inv_Update(9)[OF i assms(2) m])
  have c: "CopyNeeded x t = Inr (x < txid (db_meta s) + 1 \<and> \<not> (persisted_txid s < x \<and> x < oldest s))"
    using m tm k by (auto simp: CopyNeeded_def update_tx_def IsTxExpired_def)
  have lt: "txid (db_meta s) < txid (db_meta s) + 1" using i by (intro txid_succ[of _ kTxInvalidId]) (simp add: tx_inv_def)
  then have le: "x < txid (db_meta s) + 1 \<longleftrightarrow> x \<le> txid (db_meta s)"
    by (simp add: txid_less_succ)
  have "\<not> kTxInvalidId < x" by (metis less_asym less_irrefl txid_valid)
  then have p: "persisted_txid s = kTxInvalidId \<longrightarrow> CopyNeeded x t = Inr (x \<le> txid (db_meta s))" using c le by simp
  have o: "oldest s \<le> txid (db_meta s)"
    using i by (cases "view_tx_map s") (auto simp: oldest_def tx_inv_def)
  have "x < txid (db_meta s) + 1 \<and> (\<forall>v \<in> fst ` set (view_tx_map s). x < v)" if "x < oldest s"
    using that o lt oldest_bounds(2)[OF i] by (meson less_le_trans less_trans)
  then show ?thesis using c p by auto
qed

theorem copy_needed_rule_witness:
  "(\<exists>u. TxManager_Update sample_writer (sample_db kUpdateInPlace) = Inr u \<and> CopyNeeded 3 u = Inr True) \<and>
   (\<exists>u. TxManager_Update sample_writer (sample_db kWal) = Inr u \<and> CopyNeeded 3 u = Inr False)"
proof
  have o: "oldest (sample_db md) = 4" "txid (db_meta (sample_db md)) = 4"
      "persisted_txid (sample_db md) = (if md = kWal then 2 else kTxInvalidId)" for md
    by (simp_all add: oldest_def sample_db_def sample_meta_def)
  obtain u where "TxManager_Update sample_writer (sample_db kUpdateInPlace) = Inr u" by (rule sample_open)
  then show "\<exists>u. TxManager_Update sample_writer (sample_db kUpdateInPlace) = Inr u \<and> CopyNeeded 3 u = Inr True"
    using copy_needed_rule[OF sample_config, of sample_writer kUpdateInPlace u 3] by (auto simp: o)
  obtain u where "TxManager_Update sample_writer (sample_db kWal) = Inr u" by (rule sample_open)
  then show "\<exists>u. TxManager_Update sample_writer (sample_db kWal) = Inr u \<and> CopyNeeded 3 u = Inr False"
    using copy_needed_rule[OF sample_config, of sample_writer kWal u 3] by (simp add: o)
qed

text \<open>
  One transaction at a time. \<^verbatim>\<open>DBImpl::Update\<close> refuses a read-only database, waits while another
  transaction holds the lock or while readers still use a mapping that is to be closed, and throws
  when the version numbers are used up; when nothing is pending it returns with the lock held and
  a version one further than the committed one.
\<close>

theorem update_guards:
  "(read_only (options s) \<longrightarrow> DBImpl_Update w s = Inl (Runtime_error ''the database is read-only.'')) \<and>
   (\<not> read_only (options s) \<and> update_lock s \<longrightarrow> DBImpl_Update w s = Inl Blocked) \<and>
   (\<not> read_only (options s) \<and> \<not> update_lock s \<and> mmap_pending s \<noteq> [] \<and> view_tx_map s \<noteq> [] \<longrightarrow>
      DBImpl_Update w s = Inl Blocked) \<and>
   (\<not> read_only (options s) \<and> \<not> update_lock s \<and> (mmap_pending s = [] \<or> view_tx_map s = []) \<and> update_meta s = None \<longrightarrow>
      (txid (db_meta s) + 1 = kTxInvalidId \<longrightarrow> DBImpl_Update w s = Inl (Runtime_error ''Txid overflow.'')) \<and>
      (txid (db_meta s) + 1 \<noteq> kTxInvalidId \<and> pending_map s = [] \<longrightarrow>
         (\<exists>t m. DBImpl_Update w s = Inr t \<and> update_lock t \<and> update_meta t = Some m \<and>
            txid m = txid (db_meta s) + 1 \<and> user_root m = user_root (db_meta s))))"
  by (auto simp: DBImpl_Update_def TxManager_Update_def ClearPendingMmap_def AppendBeginLog_def AppendLog_def
      CopyMetaInfo_def Release_def Let_def throw_if_def assert_res_def)

theorem update_guards_witness:
  "DBImpl_Update sample_writer ((sample_db kWal)\<lparr>update_lock := True\<rparr>) = Inl Blocked \<and>
   (\<exists>t m. DBImpl_Update sample_writer ((sample_db kWal)\<lparr>pending_map := []\<rparr>) = Inr t \<and> update_lock t \<and>
      update_meta t = Some m \<and> txid m = 5)"
  using update_guards[of "(sample_db kWal)\<lparr>update_lock := True\<rparr>" sample_writer]
    update_guards[of "(sample_db kWal)\<lparr>pending_map := []\<rparr>" sample_writer]
  by (auto simp: sample_db_def sample_options_def sample_meta_def kTxInvalidId_def)

end
