(* ===== verification/Atomkv_Iterator.thy ===== *)
theory Atomkv_Iterator
  imports Atomkv_Stack Atomkv_Node Atomkv_Tx
begin

text \<open>
  The iterator of \<^verbatim>\<open>src/btree_iterator.cpp\<close>: a path of page ids and slots from the root to a leaf,
  kept in a stack of capacity 32. A loop that goes down the tree pushes one element per round, so
  the capacity of the stack bounds it; a loop that climbs pops one per round. The root of the tree
  is an argument where the code reads \<^verbatim>\<open>btree_->root_pgid_\<close>. The node that an iterator caches shows the
  same bytes as the page itself; the model keeps its page id where the code asserts on it.
\<close>

section \<open>State\<close>

datatype Status = kInvalidIter | kEq | kNe | kIter

record BTreeIterator =
  it_btree :: BucketId
  path :: "(PageId \<times> nat) stack"
  status :: Status
  cached_node :: "PageId option"

text \<open>An iterator of a tree, which is also \<^verbatim>\<open>BTree::end()\<close>.\<close>

definition new_iterator :: "BucketId \<Rightarrow> BTreeIterator" where
  "new_iterator b = \<lparr>it_btree = b, path = stack_new 32 (0, 0), status = kInvalidIter, cached_node = None\<rparr>"

definition iter_Empty :: "BTreeIterator \<Rightarrow> bool" where
  "iter_Empty it \<longleftrightarrow> stack_empty (path it)"

definition Front :: "BTreeIterator \<Rightarrow> (PageId \<times> nat) res" where
  "Front it = stack_front (path it)"

definition Push :: "PageId \<times> nat \<Rightarrow> BTreeIterator \<Rightarrow> BTreeIterator res" where
  "Push v it = bind_res (stack_push_back v (path it)) (\<lambda>p. Inr (it\<lparr>path := p\<rparr>))"

definition Pop :: "BTreeIterator \<Rightarrow> BTreeIterator res" where
  "Pop it = bind_res (stack_pop_back (path it)) (\<lambda>p. Inr (it\<lparr>path := p\<rparr>))"

text \<open>Assignment through the reference that \<^verbatim>\<open>Front\<close> returns.\<close>

definition set_front :: "PageId \<times> nat \<Rightarrow> BTreeIterator \<Rightarrow> BTreeIterator res" where
  "set_front v it = bind_res (stack_set_front v (path it)) (\<lambda>p. Inr (it\<lparr>path := p\<rparr>))"

text \<open>\<^verbatim>\<open>operator==\<close>\<close>

definition iter_eq :: "BTreeIterator \<Rightarrow> BTreeIterator \<Rightarrow> bool" where
  "iter_eq it right =
     (if it_btree it \<noteq> it_btree right then False
      else if iter_Empty it then status right = kInvalidIter
      else if iter_Empty right then status it = kInvalidIter
      else Front it = Front right)"

text \<open>\<^verbatim>\<open>operator=\<close>\<close>

definition iter_assign :: "BTreeIterator \<Rightarrow> BTreeIterator \<Rightarrow> BTreeIterator" where
  "iter_assign right it =
     it\<lparr>it_btree := it_btree right, path := stack_assign (path right) (path it), status := status right,
        cached_node := (if cached_node right \<noteq> None then cached_node right else cached_node it)\<rparr>"


section \<open>Reading the entry\<close>

definition GetLeafNode :: "BTreeIterator \<Rightarrow> 'a pager_db_scheme \<Rightarrow> (PageId \<times> nat) res" where
  "GetLeafNode it s =
     bind_res (throw_if (iter_eq it (new_iterator (it_btree it))) (Invalid_argument ''invalid iterator.'')) (\<lambda>_.
     bind_res (Front it) (\<lambda>(pgid, slot_id).
     bind_res (Reference pgid s) (\<lambda>_.
     bind_res (assert_res (IsLeaf (nodes s pgid))) (\<lambda>_. Inr (pgid, slot_id)))))"

definition iter_GetKey :: "BTreeIterator \<Rightarrow> 'a pager_db_scheme \<Rightarrow> key res" where
  "iter_GetKey it s = bind_res (GetLeafNode it s) (\<lambda>(pgid, slot_id). GetKey pgid slot_id s)"

definition iter_GetValue :: "BTreeIterator \<Rightarrow> 'a pager_db_scheme \<Rightarrow> byte list res" where
  "iter_GetValue it s = bind_res (GetLeafNode it s) (\<lambda>(pgid, slot_id). GetValue pgid slot_id s)"

definition iter_is_bucket :: "BTreeIterator \<Rightarrow> 'a pager_db_scheme \<Rightarrow> bool res" where
  "iter_is_bucket it s = bind_res (GetLeafNode it s) (\<lambda>(pgid, slot_id). IsBucket slot_id (nodes s pgid))"

text \<open>\<^verbatim>\<open>key<KeyT>()\<close> and \<^verbatim>\<open>value<ValueT>()\<close> for an unsigned integer of \<open>n\<close> bytes.\<close>

definition iter_key_as :: "nat \<Rightarrow> BTreeIterator \<Rightarrow> 'a pager_db_scheme \<Rightarrow> nat res" where
  "iter_key_as n it s =
     bind_res (iter_GetKey it s) (\<lambda>k.
     bind_res (throw_if (length k \<noteq> n) (Invalid_argument ''The size of the key does not match.'')) (\<lambda>_. Inr (le_nat k)))"

definition iter_value_as :: "nat \<Rightarrow> BTreeIterator \<Rightarrow> 'a pager_db_scheme \<Rightarrow> nat res" where
  "iter_value_as n it s =
     bind_res (iter_GetValue it s) (\<lambda>v.
     bind_res (throw_if (length v \<noteq> n) (Invalid_argument ''The size of the value does not match.'')) (\<lambda>_. Inr (le_nat v)))"


section \<open>Moving\<close>

text \<open>The room left on the stack.\<close>

definition room :: "BTreeIterator \<Rightarrow> nat" where
  "room it = length (array (path it)) - cur_pos (path it)"

lemma Push_room: "Push v it = Inr it' \<Longrightarrow> room it' < room it"
  by (auto simp: Push_def room_def stack_push_back_def bind_res_Inr_iff)

lemma Pop_depth: "Pop it = Inr it' \<Longrightarrow> cur_pos (path it') < cur_pos (path it)"
  by (auto simp: Pop_def stack_pop_back_def bind_res_Inr_iff)

lemma set_front_depth: "set_front v it = Inr it' \<Longrightarrow> cur_pos (path it') = cur_pos (path it)"
  by (auto simp: set_front_def stack_set_front_def bind_res_Inr_iff)

function First_loop :: "PageId \<Rightarrow> BTreeIterator \<Rightarrow> 'a pager_db_scheme \<Rightarrow> BTreeIterator res" where
  "First_loop pgid it s =
     bind_res (Reference pgid s) (\<lambda>_.
     let n = nodes s pgid in
     if IsLeaf n then (if node_count n = 0 then Inr it else Push (pgid, 0) it)
     else bind_res (Push (pgid, 0) it) (\<lambda>it1.
       bind_res (assert_res (node_count n > 0)) (\<lambda>_.
       bind_res (GetLeftChild 0 n) (\<lambda>child. First_loop child it1 s))))"
  by pat_completeness auto
termination by (relation "measure (\<lambda>(pgid, it, s). room it)") (auto dest: Push_room)

declare First_loop.simps [simp del]

definition First :: "PageId \<Rightarrow> BTreeIterator \<Rightarrow> 'a pager_db_scheme \<Rightarrow> BTreeIterator res" where
  "First pgid it s = (if pgid = kPageInvalidId then Inr it else First_loop pgid (it\<lparr>status := kIter\<rparr>) s)"

function Last_loop :: "PageId \<Rightarrow> BTreeIterator \<Rightarrow> 'a pager_db_scheme \<Rightarrow> BTreeIterator res" where
  "Last_loop pgid it s =
     bind_res (Reference pgid s) (\<lambda>_.
     let n = nodes s pgid in
     if IsLeaf n then (if node_count n = 0 then Inr it else Push (pgid, node_count n - 1) it)
     else bind_res (Push (pgid, node_count n - 1) it) (\<lambda>it1.
       bind_res (assert_res (node_count n > 0)) (\<lambda>_.
       bind_res (GetLeftChild (node_count n - 1) n) (\<lambda>child. Last_loop child it1 s))))"
  by pat_completeness auto
termination by (relation "measure (\<lambda>(pgid, it, s). room it)") (auto dest: Push_room)

declare Last_loop.simps [simp del]

definition Last :: "PageId \<Rightarrow> BTreeIterator \<Rightarrow> 'a pager_db_scheme \<Rightarrow> BTreeIterator res" where
  "Last pgid it s = Last_loop pgid (it\<lparr>status := kIter\<rparr>) s"

function Next_loop :: "BTreeIterator \<Rightarrow> 'a pager_db_scheme \<Rightarrow> BTreeIterator res" where
  "Next_loop it s =
     bind_res (Front it) (\<lambda>(pgid, slot_id).
     bind_res (Reference pgid s) (\<lambda>_.
     let n = nodes s pgid in
     bind_res (set_front (pgid, slot_id + 1) it) (\<lambda>it1.
     if slot_id + 1 < node_count n
     then (if IsLeaf n then Inr it1
           else bind_res (GetLeftChild (slot_id + 1) n) (\<lambda>child. First child it1 s))
     else if IsBranch n \<and> slot_id + 1 = node_count n then First (tail_child n) it1 s
     else bind_res (Pop it1) (\<lambda>it2. if iter_Empty it2 then Inr it2 else Next_loop it2 s))))"
  by pat_completeness auto
termination by (relation "measure (\<lambda>(it, s). cur_pos (path it))") (auto dest!: Pop_depth set_front_depth)

declare Next_loop.simps [simp del]

definition Next :: "BTreeIterator \<Rightarrow> 'a pager_db_scheme \<Rightarrow> BTreeIterator res" where
  "Next it s = bind_res (assert_res (\<not> iter_Empty it)) (\<lambda>_. Next_loop it s)"

function Prev_loop :: "BTreeIterator \<Rightarrow> 'a pager_db_scheme \<Rightarrow> BTreeIterator res" where
  "Prev_loop it s =
     bind_res (Front it) (\<lambda>(pgid, slot_id).
     bind_res (Reference pgid s) (\<lambda>_.
     let n = nodes s pgid in
     if slot_id > 0
     then bind_res (set_front (pgid, slot_id - 1) it) (\<lambda>it1.
            if IsLeaf n then Inr it1
            else bind_res (GetLeftChild (slot_id - 1) n) (\<lambda>child. Last child it1 s))
     else bind_res (Pop it) (\<lambda>it2. if iter_Empty it2 then Inr it2 else Prev_loop it2 s)))"
  by pat_completeness auto
termination by (relation "measure (\<lambda>(it, s). cur_pos (path it))") (auto dest!: Pop_depth)

declare Prev_loop.simps [simp del]

definition Prev :: "PageId \<Rightarrow> BTreeIterator \<Rightarrow> 'a pager_db_scheme \<Rightarrow> BTreeIterator res" where
  "Prev root it s = (if iter_Empty it then Last root it s else Prev_loop it s)"

text \<open>The postfix operators return the moved copy.\<close>

definition iter_post_incr :: "BTreeIterator \<Rightarrow> 'a pager_db_scheme \<Rightarrow> BTreeIterator res" where
  "iter_post_incr it s = Next (iter_assign it (new_iterator (it_btree it))) s"

definition iter_post_decr :: "PageId \<Rightarrow> BTreeIterator \<Rightarrow> 'a pager_db_scheme \<Rightarrow> BTreeIterator res" where
  "iter_post_decr root it s = Prev root (iter_assign it (new_iterator (it_btree it))) s"


section \<open>Searching\<close>

text \<open>The page that \<^verbatim>\<open>Down\<close> visits next, if there is one.\<close>

definition down_target :: "PageId \<Rightarrow> BTreeIterator \<Rightarrow> 'a pager_db_scheme \<Rightarrow> PageId option res" where
  "down_target root it s =
     (if iter_Empty it then Inr (if root = kPageInvalidId then None else Some root)
      else bind_res (Front it) (\<lambda>(parent_pgid, slot_id).
        bind_res (assert_res (cached_node it = Some parent_pgid)) (\<lambda>_.
        if IsLeaf (nodes s parent_pgid) then Inr None
        else bind_res (GetLeftChild slot_id (nodes s parent_pgid)) (\<lambda>pgid. Inr (Some pgid)))))"

definition Down ::
    "(key \<Rightarrow> key \<Rightarrow> strong_ordering res) \<Rightarrow> PageId \<Rightarrow> key \<Rightarrow> BTreeIterator \<Rightarrow> 'a pager_db_scheme \<Rightarrow>
     (bool \<times> BTreeIterator) res" where
  "Down cmp root key it s =
     bind_res (down_target root it s) (\<lambda>target.
     case target of
       None \<Rightarrow> Inr (False, it)
     | Some pgid \<Rightarrow>
         bind_res (Reference pgid s) (\<lambda>_.
         let n = nodes s pgid; it0 = it\<lparr>cached_node := Some pgid\<rparr> in
         bind_res (if node_count n > 0
                   then bind_res (Node_LowerBound cmp pgid key s) (\<lambda>(slot_id, eq).
                     Inr (if eq \<and> IsBranch n then slot_id + 1 else slot_id,
                          if eq then kEq else if slot_id = node_count n \<and> IsLeaf n then kInvalidIter else kNe))
                   else Inr (0, kNe)) (\<lambda>(slot_id, st).
         bind_res (Push (pgid, slot_id) (it0\<lparr>status := st\<rparr>)) (\<lambda>it1. Inr (True, it1)))))"

definition Top ::
    "(key \<Rightarrow> key \<Rightarrow> strong_ordering res) \<Rightarrow> PageId \<Rightarrow> key \<Rightarrow> BTreeIterator \<Rightarrow> 'a pager_db_scheme \<Rightarrow>
     (bool \<times> BTreeIterator) res" where
  "Top cmp root key it s = Down cmp root key it s"

lemma Down_room: "Down cmp root key it s = Inr (True, it') \<Longrightarrow> room it' < room it"
proof -
  assume "Down cmp root key it s = Inr (True, it')"
  then obtain v b st where "Push v (it\<lparr>cached_node := b, status := st\<rparr>) = Inr it'"
    by (auto simp: Down_def Let_def bind_res_Inr_iff split: option.splits)
  then show ?thesis by (auto dest: Push_room simp: room_def)
qed


section \<open>Copying the path\<close>

text \<open>
  \<^verbatim>\<open>CopyAllPagesByPath\<close> from the leaf up: a page that does not belong to the running transaction is
  copied and its parent is pointed at the copy; the first page that needs no copy ends the loop.
\<close>

definition relink :: "PageId \<Rightarrow> nat \<Rightarrow> PageId \<Rightarrow> 'a pager_db_scheme \<Rightarrow> 'a pager_db_scheme res" where
  "relink pgid slot_id lower_pgid s =
     (if IsBranch (nodes s pgid)
      then bind_res (assert_res (lower_pgid \<noteq> kPageInvalidId)) (\<lambda>_. on_node pgid (SetLeftChild slot_id lower_pgid) s)
      else Inr s)"

fun copy_path :: "nat \<Rightarrow> PageId \<Rightarrow> PageId \<Rightarrow> BTreeIterator \<Rightarrow> ('w, 'a) tx_db_scheme \<Rightarrow>
    (PageId \<times> BTreeIterator \<times> ('w, 'a) tx_db_scheme) res" where
  "copy_path 0 lower_pgid root it s = Inr (lower_pgid, it, s)"
| "copy_path (Suc i) lower_pgid root it s =
     bind_res (stack_at (path it) i) (\<lambda>(pgid, slot_id).
     bind_res (Reference pgid s) (\<lambda>_.
     bind_res (CopyNeeded (last_modified_txid (nodes s pgid)) s) (\<lambda>copy_needed.
     if \<not> copy_needed
     then bind_res (relink pgid slot_id lower_pgid s) (\<lambda>s1. Inr (root, it, s1))
     else bind_res (Node_Copy pgid s) (\<lambda>(new_pgid, s1).
       bind_res (relink new_pgid slot_id lower_pgid s1) (\<lambda>s2.
       bind_res (stack_set_at i (new_pgid, slot_id) (path it)) (\<lambda>p.
       copy_path i new_pgid root (it\<lparr>path := p\<rparr>) s2))))))"

definition CopyAllPagesByPath :: "PageId \<Rightarrow> BTreeIterator \<Rightarrow> ('w, 'a) tx_db_scheme \<Rightarrow>
    (PageId \<times> BTreeIterator \<times> ('w, 'a) tx_db_scheme) res" where
  "CopyAllPagesByPath root it s =
     (if iter_Empty it then Inr (root, it, s)
      else copy_path (stack_size (path it)) kPageInvalidId root it s)"

end
