(* ===== verification/Atomkv_BTree.thy ===== *)
theory Atomkv_BTree
  imports Atomkv_Iterator
begin

text \<open>
  The B+ tree of \<^verbatim>\<open>src/btree.cpp\<close>. \<^verbatim>\<open>root_pgid_\<close> is a reference into the meta struct of the transaction
  or into the map of sub-buckets: operations that change it take the root and return it. Nodes
  are named by their page ids. The recursions towards the root pop one element of the iterator
  path per round.
\<close>

section \<open>Searching\<close>

function down_loop ::
    "(key \<Rightarrow> key \<Rightarrow> strong_ordering res) \<Rightarrow> PageId \<Rightarrow> key \<Rightarrow> BTreeIterator \<Rightarrow> 'a pager_db_scheme \<Rightarrow>
     BTreeIterator res" where
  "down_loop cmp root key it s =
     bind_res (Down cmp root key it s) (\<lambda>(continue, it1).
     if continue then down_loop cmp root key it1 s else Inr it1)"
  by pat_completeness auto
termination by (relation "measure (\<lambda>(cmp, root, key, it, s). room it)") (auto dest: Down_room)

declare down_loop.simps [simp del]

definition BTree_Empty :: "PageId \<Rightarrow> bool" where
  "BTree_Empty root \<longleftrightarrow> root = kPageInvalidId"

definition BTree_LowerBound ::
    "(key \<Rightarrow> key \<Rightarrow> strong_ordering res) \<Rightarrow> BucketId \<Rightarrow> PageId \<Rightarrow> key \<Rightarrow> 'a pager_db_scheme \<Rightarrow> BTreeIterator res" where
  "BTree_LowerBound cmp b root key s =
     bind_res (Top cmp root key (new_iterator b) s) (\<lambda>(continue, it).
     if continue then down_loop cmp root key it s else Inr it)"

definition BTree_Get ::
    "(key \<Rightarrow> key \<Rightarrow> strong_ordering res) \<Rightarrow> BucketId \<Rightarrow> PageId \<Rightarrow> key \<Rightarrow> 'a pager_db_scheme \<Rightarrow> BTreeIterator res" where
  "BTree_Get cmp b root key s =
     bind_res (BTree_LowerBound cmp b root key s) (\<lambda>it.
     Inr (if status it \<noteq> kEq then new_iterator b else it))"

definition BTree_begin :: "BucketId \<Rightarrow> PageId \<Rightarrow> 'a pager_db_scheme \<Rightarrow> BTreeIterator res" where
  "BTree_begin b root s = First root (new_iterator b) s"


section \<open>Splitting\<close>

text \<open>The fill rate of a page after the operations so far.\<close>

definition fill_rate :: "PageId \<Rightarrow> 'a pager_db_scheme \<Rightarrow> (nat \<times> nat) res" where
  "fill_rate pid s = GetFillRate (pg_size s) (nodes s pid)"

text \<open>\<^verbatim>\<open>auto success = ...; assert(success);\<close>\<close>

definition must :: "(bool \<times> 's) res \<Rightarrow> 's res" where
  "must r = bind_res r (\<lambda>(ok, s). bind_res (assert_res ok) (\<lambda>_. Inr s))"

text \<open>\<^verbatim>\<open>std::reverse(right.slots(), right.slots() + right.count())\<close>\<close>

definition reverse_slots :: "NodeData \<Rightarrow> NodeData" where
  "reverse_slots n = n\<lparr>slots := (\<lambda>i. if i < node_count n then slots n (node_count n - 1 - i) else slots n i)\<rparr>"

text \<open>The loop that moves the last separators of a branch to its new right sibling, in reverse order.\<close>

fun split_branch_loop :: "nat \<Rightarrow> PageId \<Rightarrow> PageId \<Rightarrow> 'a pager_db_scheme \<Rightarrow> 'a pager_db_scheme res" where
  "split_branch_loop 0 left right s = Inr s"
| "split_branch_loop (Suc i) left right s =
     bind_res (GetKey left i s) (\<lambda>k.
     bind_res (GetLeftChild i (nodes s left)) (\<lambda>c.
     bind_res (must (BranchNode_Append right k c False s)) (\<lambda>s1.
     bind_res (BranchNode_Pop left False s1) (\<lambda>s2.
     bind_res (fill_rate left s2) (\<lambda>r.
     if \<not> fill_above_50 r then Inr s2 else split_branch_loop i left right s2)))))"

text \<open>The new separator goes to the half that holds its slot.\<close>

definition split_branch_insert :: "PageId \<Rightarrow> PageId \<Rightarrow> nat \<Rightarrow> key \<Rightarrow> PageId \<Rightarrow> 'a pager_db_scheme \<Rightarrow> 'a pager_db_scheme res" where
  "split_branch_insert left right insert_slot_id insert_key insert_left_child s =
     (if insert_slot_id > node_count (nodes s left)
      then bind_res (BranchNode_Insert right (insert_slot_id - node_count (nodes s left)) insert_key insert_left_child False s)
        (\<lambda>(success, s1).
         if success then Inr s1
         else bind_res (GetKey right 0 s1) (\<lambda>k.
           bind_res (GetLeftChild 0 (nodes s1 right)) (\<lambda>c.
           bind_res (must (BranchNode_Append left k c True s1)) (\<lambda>s2.
           bind_res (BranchNode_Delete right 0 False s2) (\<lambda>s3.
           must (BranchNode_Insert right (insert_slot_id - node_count (nodes s3 left)) insert_key insert_left_child False s3))))))
      else must (BranchNode_Insert left insert_slot_id insert_key insert_left_child False s))"

text \<open>The separator that moves up.\<close>

definition split_branch_up :: "PageId \<Rightarrow> PageId \<Rightarrow> 'a pager_db_scheme \<Rightarrow> (key \<times> 'a pager_db_scheme) res" where
  "split_branch_up left right s =
     (if node_count (nodes s left) \<ge> 2
      then bind_res (assert_res (node_count (nodes s right) \<ge> 1)) (\<lambda>_.
           bind_res (GetKey left (node_count (nodes s left) - 1) s) (\<lambda>up_key.
           bind_res (BranchNode_Pop left True s) (\<lambda>s1. Inr (up_key, s1))))
      else bind_res (assert_res (node_count (nodes s right) \<ge> 2)) (\<lambda>_.
           bind_res (GetKey right 0 s) (\<lambda>up_key.
           bind_res (GetLeftChild 0 (nodes s right)) (\<lambda>left_child.
           bind_res (BranchNode_Delete right 0 False s) (\<lambda>s1.
           bind_res (on_node left (SetTailChild left_child) s1) (\<lambda>s2. Inr (up_key, s2)))))))"

definition Split_Branch ::
    "PageId \<Rightarrow> nat \<Rightarrow> key \<Rightarrow> PageId \<Rightarrow> 'a pager_db_scheme \<Rightarrow> (key \<times> PageId \<times> 'a pager_db_scheme) res" where
  "Split_Branch left insert_slot_id insert_key insert_right_child s =
     bind_res (assert_res (insert_slot_id \<le> node_count (nodes s left))) (\<lambda>_.
     bind_res (Alloc 1 s) (\<lambda>(right, s1).
     bind_res (Reference right s1) (\<lambda>_.
     bind_res (BranchNode_Build right kPageInvalidId s1) (\<lambda>s2.
     let saved_left_count = node_count (nodes s2 left) in
     bind_res (assert_res (saved_left_count \<ge> 2)) (\<lambda>_.
     bind_res (fill_rate left s2) (\<lambda>r0.
     bind_res (assert_res (fill_above_50 r0)) (\<lambda>_.
     bind_res (GetLeftChild insert_slot_id (nodes s2 left)) (\<lambda>insert_left_child.
     bind_res (on_node left (SetLeftChild insert_slot_id insert_right_child) s2) (\<lambda>s3.
     bind_res (split_branch_loop saved_left_count left right s3) (\<lambda>s4.
     let s5 = set_node right (reverse_slots (nodes s4 right)) s4 in
     bind_res (fill_rate left s5) (\<lambda>r1.
     bind_res (assert_res (\<not> fill_above_50 r1)) (\<lambda>_.
     bind_res (on_node right (SetTailChild (tail_child (nodes s5 left))) s5) (\<lambda>s6.
     bind_res (split_branch_insert left right insert_slot_id insert_key insert_left_child s6) (\<lambda>s7.
     bind_res (split_branch_up left right s7) (\<lambda>(up_key, s8).
     Inr (up_key, right, s8))))))))))))))))"

text \<open>The leaf: entries move with their bucket flag.\<close>

definition append_entry :: "PageId \<Rightarrow> PageId \<Rightarrow> nat \<Rightarrow> 'a pager_db_scheme \<Rightarrow> 'a pager_db_scheme res" where
  "append_entry dst src i s =
     bind_res (GetKey src i s) (\<lambda>k.
     bind_res (GetValue src i s) (\<lambda>v.
     bind_res (must (LeafNode_Append dst k v s)) (\<lambda>s1.
     bind_res (IsBucket i (nodes s1 src)) (\<lambda>b.
     on_node dst (SetIsBucket (node_count (nodes s1 dst) - 1) b) s1))))"

fun split_leaf_loop :: "nat \<Rightarrow> PageId \<Rightarrow> PageId \<Rightarrow> 'a pager_db_scheme \<Rightarrow> 'a pager_db_scheme res" where
  "split_leaf_loop 0 left right s = Inr s"
| "split_leaf_loop (Suc i) left right s =
     bind_res (append_entry right left i s) (\<lambda>s1.
     bind_res (LeafNode_Pop left s1) (\<lambda>s2.
     bind_res (fill_rate left s2) (\<lambda>r.
     if \<not> fill_above_50 r then Inr s2 else split_leaf_loop i left right s2)))"

definition split_leaf_insert ::
    "PageId \<Rightarrow> PageId \<Rightarrow> nat \<Rightarrow> key \<Rightarrow> byte list \<Rightarrow> bool \<Rightarrow> 'a pager_db_scheme \<Rightarrow> 'a pager_db_scheme res" where
  "split_leaf_insert left right insert_slot_id key value bucket s =
     (if insert_slot_id > node_count (nodes s left)
      then bind_res (LeafNode_Insert right (insert_slot_id - node_count (nodes s left)) key value s) (\<lambda>(success, s1).
           bind_res (if success then Inr s1
             else bind_res (append_entry left right 0 s1) (\<lambda>s2.
                  bind_res (LeafNode_Delete right 0 s2) (\<lambda>s3.
                  must (LeafNode_Insert right (insert_slot_id - node_count (nodes s3 left)) key value s3)))) (\<lambda>s4.
           on_node right (SetIsBucket (insert_slot_id - node_count (nodes s4 left)) bucket) s4))
      else bind_res (must (LeafNode_Insert left insert_slot_id key value s)) (\<lambda>s1.
           on_node left (SetIsBucket insert_slot_id bucket) s1))"

definition Split_Leaf ::
    "PageId \<Rightarrow> nat \<Rightarrow> key \<Rightarrow> byte list \<Rightarrow> bool \<Rightarrow> 'a pager_db_scheme \<Rightarrow> (PageId \<times> 'a pager_db_scheme) res" where
  "Split_Leaf left insert_slot_id key value bucket s =
     bind_res (assert_res (insert_slot_id \<le> node_count (nodes s left))) (\<lambda>_.
     bind_res (Alloc 1 s) (\<lambda>(right, s1).
     bind_res (Reference right s1) (\<lambda>_.
     bind_res (LeafNode_Build right s1) (\<lambda>s2.
     let saved_left_count = node_count (nodes s2 left) in
     bind_res (assert_res (saved_left_count \<ge> 2)) (\<lambda>_.
     bind_res (fill_rate left s2) (\<lambda>r0.
     bind_res (assert_res (fill_above_50 r0)) (\<lambda>_.
     bind_res (split_leaf_loop saved_left_count left right s2) (\<lambda>s3.
     let s4 = set_node right (reverse_slots (nodes s3 right)) s3 in
     bind_res (fill_rate left s4) (\<lambda>r1.
     bind_res (assert_res (\<not> fill_above_50 r1)) (\<lambda>_.
     bind_res (split_leaf_insert left right insert_slot_id key value bucket s4) (\<lambda>s5.
     bind_res (assert_res (node_count (nodes s5 left) \<ge> 1 \<and> node_count (nodes s5 right) \<ge> 2 \<or>
       node_count (nodes s5 left) \<ge> 2 \<and> node_count (nodes s5 right) \<ge> 1)) (\<lambda>_.
     Inr (right, s5)))))))))))))"


section \<open>Inserting\<close>

text \<open>\<^verbatim>\<open>Put(iter, left, right, key)\<close>: the separator of a split goes to the parent on top of the path.\<close>

function Put_Branch ::
    "BTreeIterator \<Rightarrow> PageId \<Rightarrow> PageId \<Rightarrow> key \<Rightarrow> PageId \<Rightarrow> 'a pager_db_scheme \<Rightarrow> (PageId \<times> 'a pager_db_scheme) res" where
  "Put_Branch it left right key root s =
     (if iter_Empty it
      then bind_res (Alloc 1 s) (\<lambda>(new_root, s1).
           bind_res (Reference new_root s1) (\<lambda>_.
           bind_res (BranchNode_Build new_root left s1) (\<lambda>s2.
           bind_res (BranchNode_Append new_root key right True s2) (\<lambda>(_, s3). Inr (new_root, s3)))))
      else bind_res (Front it) (\<lambda>(pgid, slot_id).
           bind_res (Reference pgid s) (\<lambda>_.
           bind_res (BranchNode_Insert pgid slot_id key right True s) (\<lambda>(success, s1).
           if success then Inr (root, s1)
           else bind_res (Split_Branch pgid slot_id key right s1) (\<lambda>(branch_key, branch_right, s2).
                bind_res (Pop it) (\<lambda>it1. Put_Branch it1 pgid branch_right branch_key root s2))))))"
  by pat_completeness auto
termination by (relation "measure (\<lambda>(it, left, right, key, root, s). cur_pos (path it))") (auto dest!: Pop_depth)

declare Put_Branch.simps [simp del]

definition Put_Leaf ::
    "BTreeIterator \<Rightarrow> key \<Rightarrow> byte list \<Rightarrow> bool \<Rightarrow> bool \<Rightarrow> PageId \<Rightarrow> 'a pager_db_scheme \<Rightarrow> (PageId \<times> 'a pager_db_scheme) res" where
  "Put_Leaf it key value insert_only bucket root s =
     (if iter_Empty it
      then bind_res (Alloc 1 s) (\<lambda>(new_root, s1).
           bind_res (Reference new_root s1) (\<lambda>_.
           bind_res (LeafNode_Build new_root s1) (\<lambda>s2.
           bind_res (must (LeafNode_Insert new_root 0 key value s2)) (\<lambda>s3.
           bind_res (on_node new_root (SetIsBucket 0 bucket) s3) (\<lambda>s4. Inr (new_root, s4))))))
      else bind_res (Front it) (\<lambda>(pgid, slot_id).
           bind_res (Reference pgid s) (\<lambda>_.
           if \<not> insert_only \<and> status it = kEq
           then bind_res (iter_is_bucket it s) (\<lambda>b.
                bind_res (assert_res (b = bucket)) (\<lambda>_.
                bind_res (LeafNode_Update pgid slot_id key value s) (\<lambda>(_, s1).
                bind_res (on_node pgid (SetIsBucket slot_id bucket) s1) (\<lambda>s2. Inr (root, s2)))))
           else bind_res (LeafNode_Insert pgid slot_id key value s) (\<lambda>(success, s1).
                if success then bind_res (on_node pgid (SetIsBucket slot_id bucket) s1) (\<lambda>s2. Inr (root, s2))
                else bind_res (Split_Leaf pgid slot_id key value bucket s1) (\<lambda>(right, s2).
                     bind_res (Pop it) (\<lambda>it1.
                     bind_res (GetKey right 0 s2) (\<lambda>up_key. Put_Branch it1 pgid right up_key root s2)))))))"

definition BTree_Insert ::
    "(key \<Rightarrow> key \<Rightarrow> strong_ordering res) \<Rightarrow> BucketId \<Rightarrow> key \<Rightarrow> byte list \<Rightarrow> bool \<Rightarrow> PageId \<Rightarrow> ('w, 'a) tx_db_scheme \<Rightarrow>
     (PageId \<times> ('w, 'a) tx_db_scheme) res" where
  "BTree_Insert cmp b key value bucket root s =
     bind_res (BTree_LowerBound cmp b root key s) (\<lambda>it.
     bind_res (CopyAllPagesByPath root it s) (\<lambda>(root1, it1, s1).
     Put_Leaf it1 key value True bucket root1 s1))"

definition BTree_Put ::
    "(key \<Rightarrow> key \<Rightarrow> strong_ordering res) \<Rightarrow> BucketId \<Rightarrow> key \<Rightarrow> byte list \<Rightarrow> bool \<Rightarrow> PageId \<Rightarrow> ('w, 'a) tx_db_scheme \<Rightarrow>
     (PageId \<times> ('w, 'a) tx_db_scheme) res" where
  "BTree_Put cmp b key value bucket root s =
     bind_res (BTree_LowerBound cmp b root key s) (\<lambda>it.
     bind_res (CopyAllPagesByPath root it s) (\<lambda>(root1, it1, s1).
     Put_Leaf it1 key value False bucket root1 s1))"


section \<open>Deleting\<close>

text \<open>
  \<^verbatim>\<open>GetSibling\<close> on a parent without separators reads \<^verbatim>\<open>slots[-1]\<close>.
\<close>

definition GetSibling :: "BTreeIterator \<Rightarrow> 'a pager_db_scheme \<Rightarrow> (PageId \<times> nat \<times> PageId \<times> bool \<times> BTreeIterator) res" where
  "GetSibling it s =
     bind_res (Front it) (\<lambda>(parent_pgid, parent_slot_id).
     bind_res (Reference parent_pgid s) (\<lambda>_.
     let parent = nodes s parent_pgid in
     bind_res (if parent_slot_id = node_count parent
               then (if parent_slot_id = 0 then Inl Undefined_behaviour
                     else bind_res (GetLeftChild (parent_slot_id - 1) parent) (\<lambda>c. Inr (c, True)))
               else bind_res (GetRightChild parent_slot_id parent) (\<lambda>c. Inr (c, False))) (\<lambda>(sibling_pgid, left_sibling).
     bind_res (Pop it) (\<lambda>it1.
     Inr (parent_pgid, parent_slot_id, sibling_pgid, left_sibling, it1)))))"

text \<open>The sibling belongs to the running transaction afterwards; \<open>slot\<close> is the separator between it and the node.\<close>

definition own_sibling :: "PageId \<Rightarrow> nat \<Rightarrow> PageId \<Rightarrow> bool \<Rightarrow> ('w, 'a) tx_db_scheme \<Rightarrow> (PageId \<times> ('w, 'a) tx_db_scheme) res" where
  "own_sibling parent slot sibling_id left_sibling s =
     bind_res (Reference sibling_id s) (\<lambda>_.
     bind_res (CopyNeeded (last_modified_txid (nodes s sibling_id)) s) (\<lambda>copy_needed.
     if copy_needed
     then bind_res (Node_Copy sibling_id s) (\<lambda>(new_id, s1).
          bind_res (on_node parent (SetLeftChild (if left_sibling then slot else slot + 1) new_id) s1) (\<lambda>s2.
          Inr (new_id, s2)))
     else Inr (sibling_id, s)))"

definition Merge_Leaf :: "PageId \<Rightarrow> PageId \<Rightarrow> 'a pager_db_scheme \<Rightarrow> 'a pager_db_scheme res" where
  "Merge_Leaf left right s =
     bind_res (fold_res (append_entry left right) [0..<node_count (nodes s right)] s) (\<lambda>s1. Free right 1 s1)"

definition Merge_Branch :: "PageId \<Rightarrow> PageId \<Rightarrow> key \<Rightarrow> 'a pager_db_scheme \<Rightarrow> 'a pager_db_scheme res" where
  "Merge_Branch left right down_key s =
     bind_res (must (BranchNode_Append left down_key kPageInvalidId True s)) (\<lambda>s1.
     bind_res (fold_res (\<lambda>i t.
         bind_res (GetKey right i t) (\<lambda>k.
         bind_res (GetLeftChild i (nodes t right)) (\<lambda>c.
         must (BranchNode_Append left k c False t)))) [0..<node_count (nodes s1 right)] s1) (\<lambda>s2.
     bind_res (on_node left (SetTailChild (tail_child (nodes s2 right))) s2) (\<lambda>s3.
     Free right 1 s3)))"

text \<open>
  When the parent has no room for the new separator, the separator is removed and inserted
  anew from the parent upwards.
\<close>

definition reinsert ::
    "bool \<times> 'a pager_db_scheme \<Rightarrow> BTreeIterator \<Rightarrow> PageId \<Rightarrow> nat \<Rightarrow> PageId \<Rightarrow> PageId \<Rightarrow> key \<Rightarrow> PageId \<Rightarrow>
     (PageId \<times> 'a pager_db_scheme) res" where
  "reinsert res it parent slot left right new_key root =
     (case res of (success, s) \<Rightarrow>
        if success then Inr (root, s)
        else bind_res (BranchNode_Delete parent slot True s) (\<lambda>s1.
             bind_res (Push (parent, slot) it) (\<lambda>it1. Put_Branch it1 left right new_key root s1)))"

text \<open>One separator of a branch sibling moves through the parent.\<close>

definition borrow_branch :: "PageId \<Rightarrow> PageId \<Rightarrow> nat \<Rightarrow> PageId \<Rightarrow> bool \<Rightarrow> 'a pager_db_scheme \<Rightarrow> (key \<times> 'a pager_db_scheme) res" where
  "borrow_branch node parent slot sibling left_sibling s =
     (if left_sibling
      then bind_res (GetKey parent slot s) (\<lambda>down_key.
           bind_res (must (BranchNode_Insert node 0 down_key (tail_child (nodes s sibling)) False s)) (\<lambda>s1.
           bind_res (GetKey sibling (node_count (nodes s1 sibling) - 1) s1) (\<lambda>new_key.
           bind_res (BranchNode_Pop sibling True s1) (\<lambda>s2. Inr (new_key, s2)))))
      else bind_res (on_node parent (SetLeftChild (slot + 1) sibling) s) (\<lambda>s0.
           bind_res (GetKey parent slot s0) (\<lambda>down_key.
           bind_res (GetLeftChild 0 (nodes s0 sibling)) (\<lambda>c.
           bind_res (must (BranchNode_Append node down_key c True s0)) (\<lambda>s1.
           bind_res (GetKey sibling 0 s1) (\<lambda>new_key.
           bind_res (BranchNode_Delete sibling 0 False s1) (\<lambda>s2. Inr (new_key, s2))))))))"

text \<open>One entry of a leaf sibling moves to the node.\<close>

definition borrow_leaf :: "PageId \<Rightarrow> PageId \<Rightarrow> bool \<Rightarrow> 'a pager_db_scheme \<Rightarrow> (key \<times> 'a pager_db_scheme) res" where
  "borrow_leaf node sibling left_sibling s =
     (if left_sibling
      then let tail_slot_id = node_count (nodes s sibling) - 1 in
           bind_res (GetKey sibling tail_slot_id s) (\<lambda>k.
           bind_res (GetValue sibling tail_slot_id s) (\<lambda>v.
           bind_res (must (LeafNode_Insert node 0 k v s)) (\<lambda>s1.
           bind_res (IsBucket tail_slot_id (nodes s1 sibling)) (\<lambda>b.
           bind_res (on_node node (SetIsBucket 0 b) s1) (\<lambda>s2.
           bind_res (LeafNode_Pop sibling s2) (\<lambda>s3.
           bind_res (GetKey node 0 s3) (\<lambda>new_key. Inr (new_key, s3))))))))
      else bind_res (append_entry node sibling 0 s) (\<lambda>s1.
           bind_res (LeafNode_Delete sibling 0 s1) (\<lambda>s2.
           bind_res (GetKey sibling 0 s2) (\<lambda>new_key. Inr (new_key, s2)))))"

lemma GetSibling_depth:
  "GetSibling it s = Inr (p, sl, sib, l, it') \<Longrightarrow> cur_pos (path it') < cur_pos (path it)"
  by (auto simp: GetSibling_def Let_def bind_res_Inr_iff dest: Pop_depth)

function Delete_Branch ::
    "BTreeIterator \<Rightarrow> PageId \<Rightarrow> nat \<Rightarrow> PageId \<Rightarrow> ('w, 'a) tx_db_scheme \<Rightarrow> (PageId \<times> ('w, 'a) tx_db_scheme) res" where
  "Delete_Branch it node left_del_slot_id root s =
     bind_res (BranchNode_Delete node left_del_slot_id True s) (\<lambda>s1.
     if iter_Empty it
     then (if node_count (nodes s1 node) = 0
           then bind_res (assert_res (node = root)) (\<lambda>_.
                bind_res (Free root 1 s1) (\<lambda>s2. Inr (tail_child (nodes s1 node), s2)))
           else Inr (root, s1))
     else bind_res (fill_rate node s1) (\<lambda>r.
       if fill_at_least_40 r then Inr (root, s1)
       else bind_res (GetSibling it s1) (\<lambda>(parent, parent_slot_id, sibling_id, left_sibling, it1).
         let slot = (if left_sibling then parent_slot_id - 1 else parent_slot_id) in
         bind_res (own_sibling parent slot sibling_id left_sibling s1) (\<lambda>(sibling, s2).
         bind_res (fill_rate sibling s2) (\<lambda>r2.
         if fill_above_50 r2 \<and> node_count (nodes s2 sibling) \<ge> 2
         then bind_res (borrow_branch node parent slot sibling left_sibling s2) (\<lambda>(new_key, s3).
              bind_res (BranchNode_UpdateKey parent slot new_key s3) (\<lambda>res.
              if left_sibling then reinsert res it1 parent slot sibling node new_key root
              else reinsert res it1 parent slot node sibling new_key root))
         else bind_res (GetKey parent slot s2) (\<lambda>down_key.
              bind_res (if left_sibling then Merge_Branch sibling node down_key s2 else Merge_Branch node sibling down_key s2) (\<lambda>s3.
              Delete_Branch it1 parent slot root s3)))))))"
  by pat_completeness auto
termination by (relation "measure (\<lambda>(it, node, slot, root, s). cur_pos (path it))") (auto dest!: GetSibling_depth)

declare Delete_Branch.simps [simp del]

definition Delete_Iter :: "BTreeIterator \<Rightarrow> PageId \<Rightarrow> ('w, 'a) tx_db_scheme \<Rightarrow> (PageId \<times> ('w, 'a) tx_db_scheme) res" where
  "Delete_Iter it root s =
     bind_res (iter_is_bucket it s) (\<lambda>b.
     bind_res (if b then bind_res (iter_value_as 4 it s) (\<lambda>v. assert_res (v = kPageInvalidId)) else Inr ()) (\<lambda>_.
     bind_res (Front it) (\<lambda>(node, pos).
     bind_res (Reference node s) (\<lambda>_.
     bind_res (LeafNode_Delete node pos s) (\<lambda>s1.
     bind_res (fill_rate node s1) (\<lambda>r.
     if fill_at_least_40 r then Inr (root, s1)
     else bind_res (Pop it) (\<lambda>it0.
       if iter_Empty it0 then Inr (root, s1)
       else bind_res (GetSibling it0 s1) (\<lambda>(parent, parent_slot_id, sibling_id, left_sibling, it1).
         let slot = (if left_sibling then parent_slot_id - 1 else parent_slot_id) in
         bind_res (own_sibling parent slot sibling_id left_sibling s1) (\<lambda>(sibling, s2).
         bind_res (fill_rate sibling s2) (\<lambda>r2.
         if fill_above_50 r2 \<and> node_count (nodes s2 sibling) \<ge> 2
         then bind_res (borrow_leaf node sibling left_sibling s2) (\<lambda>(new_key, s3).
              bind_res (GetLeftChild slot (nodes s3 parent)) (\<lambda>c.
              bind_res (BranchNode_Update parent slot new_key c False s3) (\<lambda>res.
              if left_sibling then reinsert res it1 parent slot sibling node new_key root
              else reinsert res it1 parent slot node sibling new_key root)))
         else bind_res (if left_sibling then Merge_Leaf sibling node s2 else Merge_Leaf node sibling s2) (\<lambda>s3.
              Delete_Branch it1 parent slot root s3)))))))))))"

definition BTree_Delete ::
    "(key \<Rightarrow> key \<Rightarrow> strong_ordering res) \<Rightarrow> BucketId \<Rightarrow> key \<Rightarrow> PageId \<Rightarrow> ('w, 'a) tx_db_scheme \<Rightarrow>
     (bool \<times> PageId \<times> ('w, 'a) tx_db_scheme) res" where
  "BTree_Delete cmp b key root s =
     bind_res (BTree_LowerBound cmp b root key s) (\<lambda>it.
     if status it \<noteq> kEq then Inr (False, root, s)
     else bind_res (CopyAllPagesByPath root it s) (\<lambda>(root1, it1, s1).
          bind_res (Delete_Iter it1 root1 s1) (\<lambda>(root2, s2). Inr (True, root2, s2))))"


section \<open>Updating in place\<close>

text \<open>
  \<^verbatim>\<open>Update\<close> passes the span of the key inside the page to \<^verbatim>\<open>LeafNode::Update\<close>: when the page is compacted
  before the record is stored, the key is read from where it was, and a copy onto itself that
  overlaps is undefined.
\<close>

definition aliased_key :: "PageId \<Rightarrow> nat \<Rightarrow> nat \<Rightarrow> NodeData \<Rightarrow> 'a pager_db_scheme \<Rightarrow> key res" where
  "aliased_key pid i value_len n2 s =
     (let sl = slots (nodes s pid) i; len = key_size sl in
      bind_res (MaxInlineRecordSize (pg_size s)) (\<lambda>mx.
      if is_overflow_pages sl then ReadBytes (overflow_pgid (nodes s pid) i) 0 len s
      else let dst = data_offset n2 - int (len + value_len) in
        if len + value_len \<le> mx \<and> dst < int (record_offset sl + len) \<and> int (record_offset sl) < dst + int len
        then Inl Undefined_behaviour
        else Inr (mem_read (records n2) (record_offset sl) len)))"

definition BTree_Update :: "BTreeIterator \<Rightarrow> byte list \<Rightarrow> 'a pager_db_scheme \<Rightarrow> 'a pager_db_scheme res" where
  "BTree_Update it value s =
     bind_res (Front it) (\<lambda>(pid, i).
     bind_res (Reference pid s) (\<lambda>_.
     let n = nodes s pid; saved_slot = slots n i in
     bind_res (assert_res (IsLeaf n)) (\<lambda>_.
     bind_res (DeleteRecord i n) (\<lambda>n1.
     bind_res (RequestSpaceFor (pg_size s) (key_size saved_slot) (length value) False n1) (\<lambda>(ok, n2).
     if \<not> ok then bind_res (RestoreRecord i saved_slot n2) (\<lambda>n3. Inr (set_node pid n3 s))
     else bind_res (aliased_key pid i (length value) n2 s) (\<lambda>key.
          bind_res (StoreRecord pid i key value (set_node pid n2 s)) (\<lambda>s1.
          bind_res (check_layout (pg_size s) (nodes s1 pid)) (\<lambda>_. Inr s1))))))))"

end
