(* ===== verification/Atomkv_Tree.thy ===== *)
theory Atomkv_Tree
  imports Atomkv_BTree Atomkv_Node_Spec
begin

text \<open>
  The abstract B+ tree: leaves with entries, branches with subtrees and separators, and the
  relation between such a tree and the pages that hold it. \<open>entries\<close> is the content of the tree in
  key order. The search of \<^verbatim>\<open>BTree::LowerBound\<close> and the iteration with \<^verbatim>\<open>First\<close> and \<^verbatim>\<open>Next\<close> are
  proved against it.
\<close>

section \<open>Abstract trees\<close>

type_synonym entry = "key \<times> byte list \<times> bool"

datatype bt = BLeaf "entry list" | BNode "(bt \<times> key) list" bt

fun entries :: "bt \<Rightarrow> entry list" where
  "entries (BLeaf es) = es"
| "entries (BNode ts t) = concat (map (\<lambda>x. entries (fst x)) ts) @ entries t"

abbreviation bt_keys :: "bt \<Rightarrow> key list" where
  "bt_keys t \<equiv> map fst (entries t)"

text \<open>The subtree number \<open>i\<close> of a branch.\<close>

definition kid :: "(bt \<times> key) list \<Rightarrow> bt \<Rightarrow> nat \<Rightarrow> bt" where
  "kid ts t i = (if i < length ts then fst (ts ! i) else t)"

fun height :: "bt \<Rightarrow> nat" where
  "height (BLeaf es) = 0"
| "height (BNode ts t) = Suc (fold max (map (\<lambda>x. height (fst x)) ts) (height t))"

text \<open>
  The order: separators increase, keys left of a separator are below it, the others not.
\<close>

fun ordered_bt :: "bt \<Rightarrow> bool" where
  "ordered_bt (BLeaf es) \<longleftrightarrow> sorted_wrt (<) (map fst es) \<and> (\<forall>e \<in> set es. short_key (fst e))"
| "ordered_bt (BNode ts t) \<longleftrightarrow> ts \<noteq> [] \<and> (\<forall>x \<in> set ts. ordered_bt (fst x)) \<and> ordered_bt t \<and>
     sorted_wrt (<) (map snd ts) \<and> (\<forall>x \<in> set ts. short_key (snd x)) \<and>
     (\<forall>i < length ts. \<forall>j \<le> length ts. \<forall>k \<in> set (bt_keys (kid ts t j)).
        if j \<le> i then k < snd (ts ! i) else snd (ts ! i) \<le> k)"

lemma kid_last [simp]: "kid ts t (length ts) = t"
  by (simp add: kid_def)

lemma height_kid: "i \<le> length ts \<Longrightarrow> height (kid ts t i) < height (BNode ts t)"
proof -
  have m: "x \<in> set (h # hs) \<Longrightarrow> x \<le> fold max hs h" for x h :: nat and hs
    unfolding Max.set_eq_fold[symmetric] by (rule Max_ge) simp_all
  assume "i \<le> length ts"
  then show ?thesis
    using m[of "height (kid ts t i)" "height t" "map (\<lambda>x. height (fst x)) ts"]
    by (auto simp: kid_def less_Suc_eq_le)
qed

lemma ordered_kid: "ordered_bt (BNode ts t) \<Longrightarrow> ordered_bt (kid ts t i)"
  by (auto simp: kid_def)

lemma separator_order:
  assumes "ordered_bt (BNode ts t)" "j < length ts" "l \<le> length ts" "k \<in> fst ` set (entries (kid ts t l))"
  shows "l \<le> j \<Longrightarrow> k < snd (ts ! j)" "j < l \<Longrightarrow> snd (ts ! j) \<le> k"
proof -
  obtain e where e: "e \<in> set (entries (kid ts t l))" "k = fst e" using assms(4) by blast
  have "if l \<le> j then fst e < snd (ts ! j) else snd (ts ! j) \<le> fst e"
    using assms(1-3) e(1) by simp
  then show "l \<le> j \<Longrightarrow> k < snd (ts ! j)" "j < l \<Longrightarrow> snd (ts ! j) \<le> k" using e(2) by simp_all
qed

lemma entries_kid_split:
  assumes "i \<le> length ts"
  shows "entries (BNode ts t) = concat (map (\<lambda>j. entries (kid ts t j)) [0..<i]) @ entries (kid ts t i) @
    concat (map (\<lambda>j. entries (kid ts t j)) [Suc i..<Suc (length ts)])"
proof -
  have "map (\<lambda>x. entries (fst x)) ts = map (\<lambda>j. entries (kid ts t j)) [0..<length ts]"
    by (intro nth_equalityI) (simp_all add: kid_def)
  then have "entries (BNode ts t) = concat (map (\<lambda>j. entries (kid ts t j)) [0..<Suc (length ts)])"
    by simp
  also have "[0..<Suc (length ts)] = [0..<i] @ i # [Suc i..<Suc (length ts)]"
    using assms upt_add_eq_append[of 0 i "Suc (length ts) - i"] upt_conv_Cons[of i "Suc (length ts)"] by simp
  finally show ?thesis by simp
qed

text \<open>Induction over the subtrees by number.\<close>

lemma bt_kid_induct [case_names Leaf Branch]:
  assumes "\<And>es. P (BLeaf es)" "\<And>ts t. (\<And>i. i \<le> length ts \<Longrightarrow> P (kid ts t i)) \<Longrightarrow> P (BNode ts t)"
  shows "P t"
proof (induction t)
  case (BNode ts t)
  have "P (kid ts t i)" if "i \<le> length ts" for i
  proof (cases "i < length ts")
    case True
    then show ?thesis using BNode.IH(1)[OF nth_mem[OF True], of "fst (ts ! i)"] by (simp add: kid_def fsts.simps)
  qed (use BNode.IH(2) that in \<open>simp add: kid_def\<close>)
  then show ?case by (rule assms(2))
qed (rule assms(1))


section \<open>Trees in pages\<close>

text \<open>The page of the subtree number \<open>i\<close>.\<close>

definition kid_page :: "NodeData \<Rightarrow> nat \<Rightarrow> PageId" where
  "kid_page n i = (if i < node_count n then left_child (slots n i) else tail_child n)"

lemma GetLeftChild_kid: "i \<le> node_count n \<Longrightarrow> GetLeftChild i n = Inr (kid_page n i)"
  by (auto simp: GetLeftChild_def kid_page_def)

definition leaf_view :: "'a pager_db_scheme \<Rightarrow> PageId \<Rightarrow> entry list \<Rightarrow> bool" where
  "leaf_view s pid es \<longleftrightarrow> pid < kPageMaxCount \<and> IsLeaf (nodes s pid) \<and> node_count (nodes s pid) = length es \<and>
     (\<forall>i < length es. GetKey pid i s = Inr (fst (es ! i)) \<and> GetValue pid i s = Inr (fst (snd (es ! i))) \<and>
        is_bucket (slots (nodes s pid) i) = snd (snd (es ! i)))"

definition branch_view :: "'a pager_db_scheme \<Rightarrow> PageId \<Rightarrow> key list \<Rightarrow> bool" where
  "branch_view s pid ks \<longleftrightarrow> pid < kPageMaxCount \<and> IsBranch (nodes s pid) \<and> node_count (nodes s pid) = length ks \<and>
     ks \<noteq> [] \<and> (\<forall>i < length ks. GetKey pid i s = Inr (ks ! i))"

lemma kid_size: "i \<le> length ts \<Longrightarrow> size (kid ts t i) < size (BNode ts t)"
proof (cases "i < length ts")
  case True
  then have "size (fst (ts ! i)) < Suc (size_list (size_prod size (\<lambda>_. 0)) ts)"
    using size_list_estimation'[OF nth_mem[OF True], of "size (fst (ts ! i))" "size_prod size (\<lambda>_. 0)"]
    by (simp add: size_prod_simp)
  then show ?thesis using True by (simp add: kid_def)
qed (simp add: kid_def)

function tree_at :: "'a pager_db_scheme \<Rightarrow> bt \<Rightarrow> PageId \<Rightarrow> bool" where
  "tree_at s (BLeaf es) pid \<longleftrightarrow> leaf_view s pid es"
| "tree_at s (BNode ts t) pid \<longleftrightarrow> branch_view s pid (map snd ts) \<and>
     (\<forall>i \<le> length ts. tree_at s (kid ts t i) (kid_page (nodes s pid) i))"
  by pat_completeness auto
termination by (relation "measure (\<lambda>(s, t, pid). size t)") (auto dest: kid_size)


section \<open>Paths\<close>

text \<open>The entries of the leaf that the separators lead a key to.\<close>

definition slot_for :: "(bt \<times> key) list \<Rightarrow> key \<Rightarrow> nat" where
  "slot_for ts key = length (takeWhile (\<lambda>x. snd x \<le> key) ts)"

lemma slot_for_le: "slot_for ts key \<le> length ts"
  by (simp add: slot_for_def length_takeWhile_le)

function home :: "bt \<Rightarrow> key \<Rightarrow> entry list" where
  "home (BLeaf es) key = es"
| "home (BNode ts t) key = home (kid ts t (slot_for ts key)) key"
  by pat_completeness auto
termination by (relation "measure (\<lambda>(t, key). size t)") (simp_all add: kid_size[OF slot_for_le, simplified])

lemma slot_for_eq:
  assumes "i \<le> length ts" "\<forall>j < i. snd (ts ! j) \<le> key" "\<forall>j. i \<le> j \<and> j < length ts \<longrightarrow> key < snd (ts ! j)"
  shows "slot_for ts key = i"
proof -
  have "takeWhile (\<lambda>x. snd x \<le> key) ts = take i ts"
    using assms(2,3) by (intro takeWhile_eq_take_P_nth) (auto simp: not_le)
  then show ?thesis using assms(1) by (simp add: slot_for_def)
qed

text \<open>
  A path of an iterator in a tree: page and slot per level; at a leaf the slot may be one past
  the last entry. It cuts the entries of the tree in two.
\<close>

fun path_to :: "'a pager_db_scheme \<Rightarrow> bt \<Rightarrow> PageId \<Rightarrow> (PageId \<times> nat) list \<Rightarrow> bool" where
  "path_to s t pid [] \<longleftrightarrow> False"
| "path_to s (BLeaf es) pid ((q, i) # p) \<longleftrightarrow> q = pid \<and> p = [] \<and> i \<le> length es"
| "path_to s (BNode ts t) pid ((q, i) # p) \<longleftrightarrow> q = pid \<and> i \<le> length ts \<and>
     path_to s (kid ts t i) (kid_page (nodes s pid) i) p"

fun before :: "bt \<Rightarrow> (PageId \<times> nat) list \<Rightarrow> entry list" where
  "before t [] = []"
| "before (BLeaf es) ((q, i) # p) = take i es"
| "before (BNode ts t) ((q, i) # p) = concat (map (\<lambda>j. entries (kid ts t j)) [0..<i]) @ before (kid ts t i) p"

fun after :: "bt \<Rightarrow> (PageId \<times> nat) list \<Rightarrow> entry list" where
  "after t [] = []"
| "after (BLeaf es) ((q, i) # p) = drop i es"
| "after (BNode ts t) ((q, i) # p) =
     after (kid ts t i) p @ concat (map (\<lambda>j. entries (kid ts t j)) [Suc i..<Suc (length ts)])"

text \<open>The entries of the leaf at the end of a path.\<close>

fun focus :: "bt \<Rightarrow> (PageId \<times> nat) list \<Rightarrow> entry list" where
  "focus t [] = []"
| "focus (BLeaf es) ((q, i) # p) = es"
| "focus (BNode ts t) ((q, i) # p) = focus (kid ts t i) p"

text \<open>The path follows the separators of a key.\<close>

fun on_home :: "bt \<Rightarrow> key \<Rightarrow> (PageId \<times> nat) list \<Rightarrow> bool" where
  "on_home t key [] \<longleftrightarrow> False"
| "on_home (BLeaf es) key (x # p) \<longleftrightarrow> True"
| "on_home (BNode ts t) key (x # p) \<longleftrightarrow> snd x = slot_for ts key \<and> on_home (kid ts t (slot_for ts key)) key p"

lemma home_focus: "on_home t key p \<Longrightarrow> focus t p = home t key"
  by (induction t p rule: focus.induct) auto

text \<open>The entries of the leaves left and right of that leaf.\<close>

fun leftward :: "bt \<Rightarrow> (PageId \<times> nat) list \<Rightarrow> entry list" where
  "leftward t [] = []"
| "leftward (BLeaf es) ((q, i) # p) = []"
| "leftward (BNode ts t) ((q, i) # p) = concat (map (\<lambda>j. entries (kid ts t j)) [0..<i]) @ leftward (kid ts t i) p"

fun rightward :: "bt \<Rightarrow> (PageId \<times> nat) list \<Rightarrow> entry list" where
  "rightward t [] = []"
| "rightward (BLeaf es) ((q, i) # p) = []"
| "rightward (BNode ts t) ((q, i) # p) =
     rightward (kid ts t i) p @ concat (map (\<lambda>j. entries (kid ts t j)) [Suc i..<Suc (length ts)])"

lemma path_cuts: "path_to s t pid p \<Longrightarrow> entries t = before t p @ after t p"
proof (induction s t pid p rule: path_to.induct)
  case (3 s ts t pid q i p)
  then have "entries (kid ts t i) = before (kid ts t i) p @ after (kid ts t i) p" "i \<le> length ts" by simp_all
  then show ?case using entries_kid_split[of i ts t] by simp
qed simp_all

lemma path_nonempty: "path_to s t pid p \<Longrightarrow> p \<noteq> []"
  by auto

lemma path_length: "path_to s t pid p \<Longrightarrow> length p \<le> Suc (height t)"
proof (induction s t pid p rule: path_to.induct)
  case (3 s ts t pid q i p)
  then show ?case using height_kid[of i ts t] by auto
qed simp_all

text \<open>What the leaf under a path shows.\<close>

lemma path_leaf:
  assumes "path_to s t pid p"
  shows "tree_at s t pid \<Longrightarrow> leaf_view s (fst (last p)) (focus t p)" "snd (last p) \<le> length (focus t p)"
    "before t p = leftward t p @ take (snd (last p)) (focus t p)" "after t p = drop (snd (last p)) (focus t p) @ rightward t p"
proof -
  have "(tree_at s t pid \<longrightarrow> leaf_view s (fst (last p)) (focus t p)) \<and> snd (last p) \<le> length (focus t p) \<and>
    before t p = leftward t p @ take (snd (last p)) (focus t p) \<and> after t p = drop (snd (last p)) (focus t p) @ rightward t p"
    using assms
  proof (induction s t pid p rule: path_to.induct)
    case (3 s ts t pid q i p)
    then show ?case using path_nonempty[of s "kid ts t i" _ p] by auto
  qed auto
  then show "tree_at s t pid \<Longrightarrow> leaf_view s (fst (last p)) (focus t p)" "snd (last p) \<le> length (focus t p)"
    "before t p = leftward t p @ take (snd (last p)) (focus t p)" "after t p = drop (snd (last p)) (focus t p) @ rightward t p"
    by auto
qed

lemma path_focus: "path_to s t pid p \<Longrightarrow> entries t = leftward t p @ focus t p @ rightward t p"
  using path_cuts path_leaf(3,4) by (metis append.assoc append_take_drop_id)


section \<open>The search\<close>

abbreviation bcmp :: "key \<Rightarrow> key \<Rightarrow> strong_ordering res" where
  "bcmp \<equiv> ByteArrayComparator"

definition iter_wf :: "BTreeIterator \<Rightarrow> bool" where
  "iter_wf it \<longleftrightarrow> stack_inv 32 (path it)"

abbreviation trail :: "BTreeIterator \<Rightarrow> (PageId \<times> nat) list" where
  "trail it \<equiv> stack_list (path it)"

lemma iter_Empty_trail: "iter_wf it \<Longrightarrow> iter_Empty it \<longleftrightarrow> trail it = []"
  by (auto simp: iter_wf_def iter_Empty_def stack_empty_def stack_list_def stack_inv_def)

lemma Front_trail: "iter_wf it \<Longrightarrow> trail it \<noteq> [] \<Longrightarrow> Front it = Inr (last (trail it))"
  using stack_front_spec[of 32 "path it"] by (simp add: iter_wf_def Front_def)

lemma Push_trail:
  assumes "iter_wf it" "length (trail it) < 32"
  obtains it' where "Push v it = Inr it'" "iter_wf it'" "trail it' = trail it @ [v]" "status it' = status it"
    "cached_node it' = cached_node it" "it_btree it' = it_btree it"
proof -
  obtain q where "stack_push_back v (path it) = Inr q" "stack_inv 32 q" "stack_list q = trail it @ [v]"
    using stack_push_back_spec[of 32 "path it" v] assms by (auto simp: iter_wf_def)
  then show thesis using that[of "it\<lparr>path := q\<rparr>"] by (simp add: Push_def iter_wf_def)
qed

lemma Pop_trail:
  assumes "iter_wf it" "trail it \<noteq> []"
  obtains it' where "Pop it = Inr it'" "iter_wf it'" "trail it' = butlast (trail it)" "status it' = status it"
    "cached_node it' = cached_node it" "it_btree it' = it_btree it"
proof -
  obtain q where "stack_pop_back (path it) = Inr q" "stack_inv 32 q" "stack_list q = butlast (trail it)"
    using stack_pop_back_spec[of 32 "path it"] assms by (auto simp: iter_wf_def)
  then show thesis using that[of "it\<lparr>path := q\<rparr>"] by (simp add: Pop_def iter_wf_def)
qed

text \<open>The slot and the flag that the search in one node yields.\<close>

lemma node_search:
  assumes "length ks = node_count (nodes s pid)" "\<forall>i < length ks. GetKey pid i s = Inr (ks ! i)"
    "sorted_wrt (<) ks" "\<forall>x \<in> set (k # ks). short_key x"
  obtains p where "Node_LowerBound bcmp pid k s = Inr (p, k \<in> set ks)" "p \<le> length ks"
    "\<forall>i < p. ks ! i < k" "\<forall>i. p \<le> i \<and> i < length ks \<longrightarrow> k \<le> ks ! i" "k \<in> set ks \<longleftrightarrow> p < length ks \<and> ks ! p = k"
proof -
  obtain p where p: "p \<le> length ks" "Node_LowerBound bcmp pid k s = Inr (p, k \<in> set ks)" "\<forall>i < p. ks ! i < k"
    "\<forall>i. p \<le> i \<and> i < length ks \<longrightarrow> k \<le> ks ! i"
    using node_search_bytes[OF assms] by blast
  have "p < length ks \<and> ks ! p = k" if mem: "k \<in> set ks"
  proof -
    obtain i where i: "i < length ks" "ks ! i = k" using mem by (auto simp: in_set_conv_nth)
    have "p \<le> i" using p(3) i by (metis less_irrefl not_le)
    moreover have "\<not> p < i" using sorted_wrt_nth_less[OF assms(3), of p i] p(4) i by fastforce
    ultimately show ?thesis using i by simp
  qed
  then show thesis using that p by (metis nth_mem)
qed

text \<open>The status that the search leaves at a leaf.\<close>

definition leaf_status :: "key \<Rightarrow> entry list \<Rightarrow> nat \<Rightarrow> Status" where
  "leaf_status key es i = (if key \<in> fst ` set es then kEq
     else if es \<noteq> [] \<and> i = length es then kInvalidIter else kNe)"

lemma Reference_ok: "pid < kPageMaxCount \<Longrightarrow> Reference pid s = Inr pid"
  by (simp add: Reference_def kPageMaxCount_def kPageInvalidId_def)

lemma Down_leaf:
  assumes wf: "iter_wf it" "length (trail it) < 32" and tgt: "down_target root it s = Inr (Some pid)"
    and lf: "leaf_view s pid es" "sorted_wrt (<) (map fst es)" "\<forall>e \<in> set es. short_key (fst e)" "short_key key"
  obtains it' i where "Down bcmp root key it s = Inr (True, it')" "iter_wf it'" "trail it' = trail it @ [(pid, i)]"
    "cached_node it' = Some pid" "it_btree it' = it_btree it" "i \<le> length es" "status it' = leaf_status key es i"
    "\<forall>e \<in> set (take i es). fst e < key" "\<forall>e \<in> set (drop i es). key \<le> fst e"
proof -
  let ?n = "nodes s pid" and ?ks = "map fst es"
  have n: "node_count ?n = length es" "IsLeaf ?n" "\<not> IsBranch ?n" "Reference pid s = Inr pid"
    using lf(1) Reference_ok by (auto simp: leaf_view_def IsLeaf_def IsBranch_def)
  obtain i where i: "i \<le> length es" "\<forall>j < i. ?ks ! j < key" "\<forall>j. i \<le> j \<and> j < length es \<longrightarrow> key \<le> ?ks ! j"
    and d: "Down bcmp root key it s = bind_res (Push (pid, i) (it\<lparr>cached_node := Some pid, status := leaf_status key es i\<rparr>))
      (\<lambda>it1. Inr (True, it1))"
  proof (cases "es = []")
    case True
    then show ?thesis using that[of 0] tgt n by (simp add: Down_def Let_def leaf_status_def)
  next
    case False
    have g: "length ?ks = node_count ?n" "\<forall>j < length ?ks. GetKey pid j s = Inr (?ks ! j)"
      using lf(1) by (simp_all add: leaf_view_def)
    obtain p where p: "Node_LowerBound bcmp pid key s = Inr (p, key \<in> set ?ks)" "p \<le> length ?ks"
      "\<forall>j < p. ?ks ! j < key" "\<forall>j. p \<le> j \<and> j < length ?ks \<longrightarrow> key \<le> ?ks ! j" "key \<in> set ?ks \<longleftrightarrow> p < length ?ks \<and> ?ks ! p = key"
      by (rule node_search[OF g lf(2), of key]) (use lf(3,4) in auto)
    then show ?thesis using that[of p] tgt n False by (auto simp: Down_def Let_def leaf_status_def)
  qed
  obtain it' where it': "Push (pid, i) (it\<lparr>cached_node := Some pid, status := leaf_status key es i\<rparr>) = Inr it'"
    "iter_wf it'" "trail it' = trail it @ [(pid, i)]" "status it' = leaf_status key es i" "cached_node it' = Some pid"
    "it_btree it' = it_btree it"
    by (rule Push_trail[of "it\<lparr>cached_node := Some pid, status := leaf_status key es i\<rparr>"]) (use wf in \<open>auto simp: iter_wf_def\<close>)
  have "\<forall>e \<in> set (take i es). fst e < key" "\<forall>e \<in> set (drop i es). key \<le> fst e"
    unfolding all_set_conv_all_nth using i by simp_all
  then show thesis using that[of it' i] d it' i(1) by simp
qed

lemma Down_branch:
  assumes wf: "iter_wf it" "length (trail it) < 32" and tgt: "down_target root it s = Inr (Some pid)"
    and br: "branch_view s pid ks" "sorted_wrt (<) ks" "\<forall>x \<in> set ks. short_key x" "short_key key"
  obtains it' i where "Down bcmp root key it s = Inr (True, it')" "iter_wf it'" "trail it' = trail it @ [(pid, i)]"
    "cached_node it' = Some pid" "it_btree it' = it_btree it" "i \<le> length ks"
    "\<forall>j < i. ks ! j \<le> key" "\<forall>j. i \<le> j \<and> j < length ks \<longrightarrow> key < ks ! j"
proof -
  let ?n = "nodes s pid"
  have n: "node_count ?n = length ks" "0 < node_count ?n" "IsBranch ?n" "\<not> IsLeaf ?n" "Reference pid s = Inr pid"
    using br(1) Reference_ok by (auto simp: branch_view_def IsLeaf_def IsBranch_def)
  have g: "length ks = node_count ?n" "\<forall>j < length ks. GetKey pid j s = Inr (ks ! j)"
    using br(1) by (simp_all add: branch_view_def)
  obtain p where p: "Node_LowerBound bcmp pid key s = Inr (p, key \<in> set ks)" "p \<le> length ks"
    "\<forall>j < p. ks ! j < key" "\<forall>j. p \<le> j \<and> j < length ks \<longrightarrow> key \<le> ks ! j" "key \<in> set ks \<longleftrightarrow> p < length ks \<and> ks ! p = key"
    by (rule node_search[OF g br(2), of key]) (use br(3,4) in auto)
  define i where "i = (if key \<in> set ks then p + 1 else p)"
  define st where "st = (if key \<in> set ks then kEq else kNe)"
  have d: "Down bcmp root key it s = bind_res (Push (pid, i) (it\<lparr>cached_node := Some pid, status := st\<rparr>)) (\<lambda>it1. Inr (True, it1))"
    using tgt n p(1) by (simp add: Down_def Let_def i_def st_def)
  obtain it' where it': "Push (pid, i) (it\<lparr>cached_node := Some pid, status := st\<rparr>) = Inr it'"
    "iter_wf it'" "trail it' = trail it @ [(pid, i)]" "status it' = st" "cached_node it' = Some pid" "it_btree it' = it_btree it"
    by (rule Push_trail[of "it\<lparr>cached_node := Some pid, status := st\<rparr>"]) (use wf in \<open>auto simp: iter_wf_def\<close>)
  have "i \<le> length ks" using p(2,5) by (auto simp: i_def)
  moreover have "ks ! j \<le> key" if "j < i" for j
    using that p(3,5) by (cases "j < p") (auto simp: i_def less_Suc_eq split: if_splits)
  moreover have "key < ks ! j" if j: "i \<le> j" "j < length ks" for j
  proof (cases "key \<in> set ks")
    case True
    then show ?thesis using p(5) j sorted_wrt_nth_less[OF br(2), of p j] by (simp add: i_def)
  next
    case False
    then have "key \<noteq> ks ! j" "key \<le> ks ! j" using p(4) j by (auto simp: i_def)
    then show ?thesis by simp
  qed
  ultimately show thesis using that[of it' i] d it' by simp
qed

lemma down_after_leaf:
  assumes "iter_wf it" "trail it \<noteq> []" "cached_node it = Some (fst (last (trail it)))" "IsLeaf (nodes s (fst (last (trail it))))"
  shows "down_loop cmp root key it s = Inr it"
  using assms Front_trail[OF assms(1,2)] iter_Empty_trail[OF assms(1)]
  by (subst down_loop.simps) (simp add: Down_def down_target_def split_beta)

lemma down_target_branch:
  assumes "iter_wf it" "trail it = xs @ [(pid, i)]" "cached_node it = Some pid" "branch_view s pid ks" "i \<le> length ks"
  shows "down_target root it s = Inr (Some (kid_page (nodes s pid) i))"
proof -
  have "IsBranch (nodes s pid)" "i \<le> node_count (nodes s pid)" using assms(4,5) by (auto simp: branch_view_def)
  then show ?thesis
    using assms Front_trail[OF assms(1)] iter_Empty_trail[OF assms(1)] GetLeftChild_kid
    by (simp add: down_target_def IsLeaf_def IsBranch_def)
qed

lemma search_tree:
  assumes "tree_at s t pid" "ordered_bt t" "short_key key" "iter_wf it" "length (trail it) + height t < 32"
    "down_target root it s = Inr (Some pid)"
  shows "\<exists>it' p. down_loop bcmp root key it s = Inr it' \<and> iter_wf it' \<and> trail it' = trail it @ p \<and> path_to s t pid p \<and>
    (\<forall>e \<in> set (before t p). fst e < key) \<and> (\<forall>e \<in> set (after t p). key \<le> fst e) \<and> (\<forall>e \<in> set (rightward t p). key < fst e) \<and>
    status it' = leaf_status key (focus t p) (snd (last p)) \<and> it_btree it' = it_btree it \<and> on_home t key p"
  using assms
proof (induction t arbitrary: pid it rule: bt_kid_induct)
  case (Leaf es)
  obtain it' i where d: "Down bcmp root key it s = Inr (True, it')" "iter_wf it'" "trail it' = trail it @ [(pid, i)]"
    "cached_node it' = Some pid" "it_btree it' = it_btree it" "i \<le> length es" "status it' = leaf_status key es i"
    "\<forall>e \<in> set (take i es). fst e < key" "\<forall>e \<in> set (drop i es). key \<le> fst e"
    by (rule Down_leaf[of it root s pid es key]) (use Leaf in auto)
  have "down_loop bcmp root key it' s = Inr it'"
    using d Leaf.prems(1) by (intro down_after_leaf) (simp_all add: leaf_view_def)
  then have "down_loop bcmp root key it s = Inr it'" using d(1) by (subst down_loop.simps) simp
  then show ?case using d by (intro exI[of _ it'] exI[of _ "[(pid, i)]"]) simp
next
  case (Branch ts t)
  let ?ks = "map snd ts"
  have bv: "branch_view s pid ?ks" and kids: "\<forall>i \<le> length ts. tree_at s (kid ts t i) (kid_page (nodes s pid) i)"
    using Branch.prems(1) by auto
  obtain it1 i where d: "Down bcmp root key it s = Inr (True, it1)" "iter_wf it1" "trail it1 = trail it @ [(pid, i)]"
    "cached_node it1 = Some pid" "it_btree it1 = it_btree it" "i \<le> length ?ks"
    "\<forall>j < i. ?ks ! j \<le> key" "\<forall>j. i \<le> j \<and> j < length ?ks \<longrightarrow> key < ?ks ! j"
    by (rule Down_branch[of it root s pid ?ks key]) (use Branch.prems bv in auto)
  have i: "i \<le> length ts" using d(6) by simp
  have h: "length (trail it1) + height (kid ts t i) < 32" using height_kid[OF i, of t] Branch.prems(5) d(3) by simp
  have "\<exists>it' p. down_loop bcmp root key it1 s = Inr it' \<and> iter_wf it' \<and> trail it' = trail it1 @ p \<and>
      path_to s (kid ts t i) (kid_page (nodes s pid) i) p \<and>
      (\<forall>e \<in> set (before (kid ts t i) p). fst e < key) \<and> (\<forall>e \<in> set (after (kid ts t i) p). key \<le> fst e) \<and>
      (\<forall>e \<in> set (rightward (kid ts t i) p). key < fst e) \<and> status it' = leaf_status key (focus (kid ts t i) p) (snd (last p)) \<and> it_btree it' = it_btree it1 \<and>
      on_home (kid ts t i) key p"
    by (rule Branch.IH[OF i _ _ Branch.prems(3) d(2) h down_target_branch[OF d(2,3,4) bv d(6)]])
      (use kids i ordered_kid[OF Branch.prems(2)] in auto)
  then obtain it' p where r: "down_loop bcmp root key it1 s = Inr it'" "iter_wf it'" "trail it' = trail it1 @ p"
    "path_to s (kid ts t i) (kid_page (nodes s pid) i) p" "\<forall>e \<in> set (before (kid ts t i) p). fst e < key"
    "\<forall>e \<in> set (after (kid ts t i) p). key \<le> fst e" "status it' = leaf_status key (focus (kid ts t i) p) (snd (last p))"
    "it_btree it' = it_btree it1" "\<forall>e \<in> set (rightward (kid ts t i) p). key < fst e"
    "on_home (kid ts t i) key p" by blast
  have "slot_for ts key = i" using i d(7,8) by (intro slot_for_eq) auto
  then have home: "on_home (BNode ts t) key ((pid, i) # p)" using r(10) by simp
  note sep = separator_order[OF Branch.prems(2)]
  have lo: "fst e < key" if "l < i" "e \<in> set (entries (kid ts t l))" for l e
    using sep(1)[of l l "fst e"] d(7) that i by fastforce
  have hi: "key < fst e" if "i < l" "l \<le> length ts" "e \<in> set (entries (kid ts t l))" for l e
    using sep(2)[of "l - 1" l "fst e"] d(8)[rule_format, of "l - 1"] that i by fastforce
  have "down_loop bcmp root key it s = Inr it'" using d(1) r(1) by (subst down_loop.simps) simp
  moreover have "\<forall>e \<in> set (before (BNode ts t) ((pid, i) # p)). fst e < key"
    using r(5) lo by fastforce
  moreover have right: "key < fst e" if m: "e \<in> set (concat (map (\<lambda>j. entries (kid ts t j)) [Suc i..<Suc (length ts)]))" for e
  proof -
    obtain l where "i < l" "l \<le> length ts" "e \<in> set (entries (kid ts t l))"
      using m by (auto simp: less_Suc_eq_le Suc_le_eq simp del: upt_Suc)
    then show ?thesis using hi by blast
  qed
  have "\<forall>e \<in> set (after (BNode ts t) ((pid, i) # p)). key \<le> fst e" "\<forall>e \<in> set (rightward (BNode ts t) ((pid, i) # p)). key < fst e"
    unfolding after.simps rightward.simps set_append using r(6,9) right less_imp_le by blast+
  ultimately show ?case
    using r d(3,5) i path_nonempty[OF r(4)] home
    by (intro exI[of _ it'] exI[of _ "(pid, i) # p"]) (simp del: before.simps after.simps rightward.simps on_home.simps)
qed

lemma LowerBound_down_loop: "BTree_LowerBound cmp b root key s = down_loop cmp root key (new_iterator b) s"
  by (subst down_loop.simps) (simp add: BTree_LowerBound_def Top_def)

lemma new_iterator_simps [simp]:
  "iter_wf (new_iterator b)" "trail (new_iterator b) = []" "status (new_iterator b) = kInvalidIter" "it_btree (new_iterator b) = b"
  by (simp_all add: iter_wf_def new_iterator_def)

lemma iter_end_iff:
  assumes "iter_wf it" "it_btree it = b"
  shows "iter_eq it (new_iterator b) \<longleftrightarrow> trail it = [] \<or> status it = kInvalidIter"
  using iter_Empty_trail[OF assms(1)] iter_Empty_trail[of "new_iterator b"] assms(2) by (auto simp: iter_eq_def)

text \<open>Where an iterator stands in a tree, and what it reads there.\<close>

definition stands :: "'a pager_db_scheme \<Rightarrow> bt \<Rightarrow> PageId \<Rightarrow> BTreeIterator \<Rightarrow> bool" where
  "stands s t root it \<longleftrightarrow> iter_wf it \<and> path_to s t root (trail it) \<and> snd (last (trail it)) < length (focus t (trail it)) \<and>
     status it \<noteq> kInvalidIter"

lemma stands_reads:
  assumes t: "tree_at s t root" and it: "stands s t root it"
  obtains e r where "after t (trail it) = e # r" "GetLeafNode it s = Inr (last (trail it))"
    "iter_GetKey it s = Inr (fst e)" "iter_GetValue it s = Inr (fst (snd e))" "iter_is_bucket it s = Inr (snd (snd e))"
    "e = focus t (trail it) ! snd (last (trail it))"
proof -
  have wf: "iter_wf it" "path_to s t root (trail it)" "trail it \<noteq> []" "status it \<noteq> kInvalidIter"
    using it path_nonempty by (auto simp: stands_def)
  obtain q i where l: "last (trail it) = (q, i)" by (cases "last (trail it)")
  have i: "i < length (focus t (trail it))" using it l by (simp add: stands_def)
  have v: "leaf_view s q (focus t (trail it))" using path_leaf(1)[OF wf(2) t] l by simp
  let ?e = "focus t (trail it) ! i"
  have a: "after t (trail it) = ?e # drop (Suc i) (focus t (trail it)) @ rightward t (trail it)"
    using path_leaf(4)[OF wf(2)] l Cons_nth_drop_Suc[OF i] by (metis append_Cons snd_conv)
  have "\<not> iter_eq it (new_iterator (it_btree it))" using iter_end_iff[OF wf(1) refl] wf by simp
  then have g: "GetLeafNode it s = Inr (q, i)"
    using v Front_trail[OF wf(1,3)] l Reference_ok[of q s] by (simp add: GetLeafNode_def leaf_view_def throw_if_def)
  show thesis
    by (rule that[OF a]) (use g v i l in \<open>auto simp: iter_GetKey_def iter_GetValue_def iter_is_bucket_def IsBucket_def leaf_view_def\<close>)
qed

lemma ordered_entries: "ordered_bt t \<Longrightarrow> sorted_wrt (<) (bt_keys t)"
proof (induction t rule: bt_kid_induct)
  case (Branch ts t)
  have kid_s: "sorted_wrt (<) (bt_keys (kid ts t i))" if "i \<le> length ts" for i
    using Branch.IH[OF that] ordered_kid[OF Branch.prems] by blast
  have lt: "a < b" if "j < i" "i \<le> length ts" "a \<in> set (bt_keys (kid ts t j))" "b \<in> set (bt_keys (kid ts t i))" for i j a b
  proof -
    have "a < snd (ts ! j)" "snd (ts ! j) \<le> b"
      using separator_order(1)[OF Branch.prems, of j j a] separator_order(2)[OF Branch.prems, of j i b] that by auto
    then show ?thesis by simp
  qed
  have "sorted_wrt (<) (map fst (concat (map (\<lambda>j. entries (kid ts t j)) [0..<n])))" if "n \<le> Suc (length ts)" for n
    using that
  proof (induction n)
    case (Suc n)
    have "a < b" if ab: "a \<in> set (map fst (concat (map (\<lambda>j. entries (kid ts t j)) [0..<n])))" "b \<in> set (bt_keys (kid ts t n))" for a b
    proof -
      obtain e where e: "e \<in> set (concat (map (\<lambda>j. entries (kid ts t j)) [0..<n]))" "a = fst e" using ab(1) by auto
      then obtain j where "j < n" "e \<in> set (entries (kid ts t j))" by auto
      then have "j < n" "a \<in> set (bt_keys (kid ts t j))" using e(2) by simp_all
      then show ?thesis using lt[of j n a b] ab(2) Suc.prems by simp
    qed
    then show ?case using Suc kid_s[of n] by (simp add: sorted_wrt_append)
  qed simp
  from this[of "Suc (length ts)"] show ?case
    using entries_kid_split[of "length ts" ts t] by simp
qed simp

end
