(* ===== verification/Atomkv_Tree_Spec.thy ===== *)
theory Atomkv_Tree_Spec
  imports Atomkv_Tree
begin

text \<open>
  Reading a tree: lookup, lower bound and iteration over the whole tree or from a key on, against the
  list of entries of the abstract tree.
\<close>

section \<open>Going to the first entry\<close>

fun full_leaves :: "bt \<Rightarrow> bool" where
  "full_leaves (BLeaf es) \<longleftrightarrow> es \<noteq> []"
| "full_leaves (BNode ts t) \<longleftrightarrow> (\<forall>x \<in> set ts. full_leaves (fst x)) \<and> full_leaves t"

lemma full_kid: "full_leaves (BNode ts t) \<Longrightarrow> full_leaves (kid ts t i)"
  by (auto simp: kid_def)

lemma full_entries: "full_leaves t \<Longrightarrow> entries t \<noteq> []"
  by (induction t) auto

lemma full_focus: "path_to s t pid p \<Longrightarrow> full_leaves t \<Longrightarrow> focus t p \<noteq> []"
  by (induction s t pid p rule: path_to.induct) (auto simp: kid_def split: if_splits)

lemma tree_page: "tree_at s t pid \<Longrightarrow> pid < kPageMaxCount"
  by (cases t) (auto simp: leaf_view_def branch_view_def)

lemma tree_page_valid: "tree_at s t pid \<Longrightarrow> pid \<noteq> kPageInvalidId"
  using tree_page[of s t pid] by (auto simp: kPageMaxCount_def kPageInvalidId_def)

text \<open>An entry is under the end of the path.\<close>

definition on_entry :: "bt \<Rightarrow> (PageId \<times> nat) list \<Rightarrow> bool" where
  "on_entry t p \<longleftrightarrow> snd (last p) < length (focus t p)"

lemma on_entry_Cons [simp]: "p \<noteq> [] \<Longrightarrow> on_entry (BNode ts t) ((q, i) # p) \<longleftrightarrow> on_entry (kid ts t i) p"
  by (simp add: on_entry_def)

lemma First_tree:
  assumes "tree_at s t pid" "full_leaves t" "iter_wf it" "length (trail it) + height t < 32"
  shows "\<exists>it' p. First_loop pid it s = Inr it' \<and> iter_wf it' \<and> trail it' = trail it @ p \<and> path_to s t pid p \<and>
    before t p = [] \<and> on_entry t p \<and> status it' = status it \<and> it_btree it' = it_btree it"
  using assms
proof (induction t arbitrary: pid it rule: bt_kid_induct)
  case (Leaf es)
  obtain it' where it': "Push (pid, 0) it = Inr it'" "iter_wf it'" "trail it' = trail it @ [(pid, 0)]" "status it' = status it"
    "it_btree it' = it_btree it"
    by (rule Push_trail[of it "(pid, 0)"]) (use Leaf in auto)
  then have "First_loop pid it s = Inr it'"
    using Leaf.prems Reference_ok[of pid s] by (subst First_loop.simps) (simp add: leaf_view_def)
  then show ?case using it' Leaf.prems by (intro exI[of _ it'] exI[of _ "[(pid, 0)]"]) (simp add: on_entry_def)
next
  case (Branch ts t)
  have bv: "branch_view s pid (map snd ts)" and kid0: "tree_at s (kid ts t 0) (kid_page (nodes s pid) 0)"
    using Branch.prems(1) by auto
  obtain it1 where it1: "Push (pid, 0) it = Inr it1" "iter_wf it1" "trail it1 = trail it @ [(pid, 0)]" "status it1 = status it"
    "it_btree it1 = it_btree it"
    by (rule Push_trail[of it "(pid, 0)"]) (use Branch.prems in auto)
  have step: "First_loop pid it s = First_loop (kid_page (nodes s pid) 0) it1 s"
    using bv it1(1) Reference_ok[of pid s] GetLeftChild_kid[of 0 "nodes s pid"]
    by (subst First_loop.simps) (auto simp: branch_view_def IsLeaf_def IsBranch_def)
  have "length (trail it1) + height (kid ts t 0) < 32" using height_kid[of 0 ts t] Branch.prems(4) it1(3) by simp
  from Branch.IH[OF _ kid0 full_kid[OF Branch.prems(2)] it1(2) this] obtain it' p where
    r: "First_loop (kid_page (nodes s pid) 0) it1 s = Inr it'" "iter_wf it'" "trail it' = trail it1 @ p"
    "path_to s (kid ts t 0) (kid_page (nodes s pid) 0) p" "before (kid ts t 0) p = []" "on_entry (kid ts t 0) p"
    "status it' = status it1" "it_btree it' = it_btree it1" by auto
  then show ?case
    using step it1 path_nonempty[OF r(4)] by (intro exI[of _ it'] exI[of _ "(pid, 0) # p"]) simp
qed

lemma First_subtree:
  assumes "tree_at s t pid" "full_leaves t" "iter_wf it" "length (trail it) + height t < 32"
  obtains it' p where "First pid it s = Inr it'" "iter_wf it'" "trail it' = trail it @ p" "path_to s t pid p"
    "before t p = []" "after t p = entries t" "on_entry t p" "status it' = kIter" "it_btree it' = it_btree it"
proof -
  obtain it' p where r: "First_loop pid (it\<lparr>status := kIter\<rparr>) s = Inr it'" "iter_wf it'" "trail it' = trail it @ p"
    "path_to s t pid p" "before t p = []" "on_entry t p" "status it' = kIter" "it_btree it' = it_btree it"
    using First_tree[of s t pid "it\<lparr>status := kIter\<rparr>"] assms by (auto simp: iter_wf_def)
  moreover have "First pid it s = Inr it'" using r(1) tree_page_valid[OF assms(1)] by (simp add: First_def)
  moreover have "after t p = entries t" using path_cuts[OF r(4)] r(5) by simp
  ultimately show thesis using that by blast
qed


section \<open>Going to the next entry\<close>

lemma set_front_trail:
  assumes "iter_wf it" "trail it = xs @ [u]"
  obtains it' where "set_front v it = Inr it'" "iter_wf it'" "trail it' = xs @ [v]" "status it' = status it"
    "it_btree it' = it_btree it"
proof -
  have "length (trail it) = Suc (length xs)" using assms(2) by simp
  then have len: "cur_pos (path it) = Suc (length xs)" "cur_pos (path it) \<le> length (array (path it))"
    using assms(1) by (simp_all add: iter_wf_def stack_inv_def stack_list_def)
  obtain q where q: "stack_set_front v (path it) = Inr q" "stack_inv 32 q" "stack_list q = xs @ [v]"
    using assms len by (auto simp: stack_set_front_def iter_wf_def stack_inv_def stack_list_def stack_empty_def take_Suc_conv_app_nth)
  then show thesis using that[of "it\<lparr>path := q\<rparr>"] by (simp add: set_front_def iter_wf_def)
qed

text \<open>The move of an iterator between two paths.\<close>

definition moved :: "BTreeIterator \<Rightarrow> (PageId \<times> nat) list \<Rightarrow> BTreeIterator \<Rightarrow> bool" where
  "moved it p it' \<longleftrightarrow> iter_wf it' \<and> trail it' = p \<and> status it' \<in> {status it, kIter} \<and> it_btree it' = it_btree it"

lemma path_rest:
  assumes "path_to s t pid p" "on_entry t p"
  obtains e r where "after t p = e # r"
proof -
  have "after t p \<noteq> []" using path_leaf(4)[OF assms(1)] assms(2) by (simp add: on_entry_def)
  then show thesis using that by (cases "after t p") auto
qed

lemma Next_at_leaf:
  assumes "leaf_view s pid es" "iter_wf it" "trail it = xs @ [(pid, i)]" "i < length es"
  shows "if Suc i < length es then \<exists>it'. Next_loop it s = Inr it' \<and> moved it (xs @ [(pid, Suc i)]) it'
    else \<exists>it'. moved it xs it' \<and> Next_loop it s = (if xs = [] then Inr it' else Next_loop it' s)"
proof -
  obtain it1 where it1: "set_front (pid, Suc i) it = Inr it1" "iter_wf it1" "trail it1 = xs @ [(pid, Suc i)]" "status it1 = status it"
    "it_btree it1 = it_btree it" by (rule set_front_trail[OF assms(2,3)])
  obtain it2 where it2: "Pop it1 = Inr it2" "iter_wf it2" "trail it2 = xs" "status it2 = status it1" "it_btree it2 = it_btree it1"
    by (rule Pop_trail[OF it1(2)]) (use it1(3) in auto)
  have n: "node_count (nodes s pid) = length es" "IsLeaf (nodes s pid)" "\<not> IsBranch (nodes s pid)" "Reference pid s = Inr pid"
    "Front it = Inr (pid, i)" "iter_Empty it2 \<longleftrightarrow> xs = []"
    using assms Reference_ok[of pid s] Front_trail[OF assms(2)] iter_Empty_trail[OF it2(2)] it2(3)
    by (auto simp: leaf_view_def IsLeaf_def IsBranch_def)
  have "Next_loop it s = (if Suc i < length es then Inr it1 else if xs = [] then Inr it2 else Next_loop it2 s)"
    by (subst Next_loop.simps) (simp add: n it1(1) it2(1))
  then show ?thesis using it1 it2 by (auto simp: moved_def)
qed

lemma Next_at_branch:
  assumes "branch_view s pid ks" "iter_wf it" "trail it = xs @ [(pid, i)]" "i \<le> length ks"
  shows "if i < length ks
    then \<exists>it'. moved it (xs @ [(pid, Suc i)]) it' \<and> Next_loop it s = First (kid_page (nodes s pid) (Suc i)) it' s
    else \<exists>it'. moved it xs it' \<and> Next_loop it s = (if xs = [] then Inr it' else Next_loop it' s)"
proof -
  obtain it1 where it1: "set_front (pid, Suc i) it = Inr it1" "iter_wf it1" "trail it1 = xs @ [(pid, Suc i)]" "status it1 = status it"
    "it_btree it1 = it_btree it" by (rule set_front_trail[OF assms(2,3)])
  obtain it2 where it2: "Pop it1 = Inr it2" "iter_wf it2" "trail it2 = xs" "status it2 = status it1" "it_btree it2 = it_btree it1"
    by (rule Pop_trail[OF it1(2)]) (use it1(3) in auto)
  have n: "node_count (nodes s pid) = length ks" "\<not> IsLeaf (nodes s pid)" "IsBranch (nodes s pid)" "Reference pid s = Inr pid"
    "Front it = Inr (pid, i)" "iter_Empty it2 \<longleftrightarrow> xs = []"
    using assms Reference_ok[of pid s] Front_trail[OF assms(2)] iter_Empty_trail[OF it2(2)] it2(3)
    by (auto simp: branch_view_def IsLeaf_def IsBranch_def)
  have g: "Suc i < length ks \<Longrightarrow> GetLeftChild (Suc i) (nodes s pid) = Inr (kid_page (nodes s pid) (Suc i))"
    "Suc i = length ks \<Longrightarrow> tail_child (nodes s pid) = kid_page (nodes s pid) (Suc i)"
    "i < length ks \<Longrightarrow> \<not> Suc i < length ks \<Longrightarrow> length ks = Suc i"
    using GetLeftChild_kid[of "Suc i" "nodes s pid"] n(1) by (auto simp: kid_page_def)
  have "Next_loop it s = (if i < length ks then First (kid_page (nodes s pid) (Suc i)) it1 s
      else if xs = [] then Inr it2 else Next_loop it2 s)"
    using assms(4) g n by (subst Next_loop.simps, cases "Suc i < length ks") (auto simp: it1(1) it2(1) Let_def intro!: arg_cong[of _ _ "\<lambda>c. First (kid_page _ c) _ _"])
  then show ?thesis using it1 it2 by (auto simp: moved_def)
qed

lemma Next_tree:
  assumes "tree_at s t pid" "full_leaves t" "iter_wf it" "trail it = xs @ p" "path_to s t pid p" "on_entry t p"
    "length xs + height t < 32" "after t p = e # r"
  shows "if r = [] then \<exists>it'. moved it xs it' \<and> Next_loop it s = (if xs = [] then Inr it' else Next_loop it' s)
    else \<exists>it' p'. Next_loop it s = Inr it' \<and> moved it (xs @ p') it' \<and> path_to s t pid p' \<and> on_entry t p' \<and> after t p' = r"
  using assms
proof (induction t arbitrary: pid it xs p r rule: bt_kid_induct)
  case (Leaf es)
  obtain i where p: "p = [(pid, i)]" "i < length es" using Leaf.prems(5,6) by (cases p) (auto simp: on_entry_def)
  have r: "r = drop (Suc i) es" using Leaf.prems(8) p Cons_nth_drop_Suc[of i es] by simp
  show ?case
  proof (cases "Suc i < length es")
    case True
    then obtain it' where "Next_loop it s = Inr it'" "moved it (xs @ [(pid, Suc i)]) it'"
      using Next_at_leaf[of s pid es it xs i] Leaf.prems p by auto
    then show ?thesis
      using True r by (auto simp: on_entry_def intro!: exI[of _ it'] exI[of _ "[(pid, Suc i)]"])
  next
    case False
    then show ?thesis using Next_at_leaf[of s pid es it xs i] Leaf.prems p r by simp
  qed
next
  case (Branch ts t)
  have bv: "branch_view s pid (map snd ts)" and kids: "\<forall>i \<le> length ts. tree_at s (kid ts t i) (kid_page (nodes s pid) i)"
    using Branch.prems(1) by auto
  obtain i p2 where p: "p = (pid, i) # p2" "i \<le> length ts" "path_to s (kid ts t i) (kid_page (nodes s pid) i) p2"
    using Branch.prems(5) by (cases p) auto
  have on: "on_entry (kid ts t i) p2" using Branch.prems(6) p path_nonempty[OF p(3)] by simp
  let ?R = "concat (map (\<lambda>j. entries (kid ts t j)) [Suc i..<Suc (length ts)])"
  obtain e2 r2 where "after (kid ts t i) p2 = e2 # r2" by (rule path_rest[OF p(3) on])
  then have r2: "after (kid ts t i) p2 = e # r2" "r = r2 @ ?R" using Branch.prems(8) p(1) by (simp_all del: upt_Suc)
  have h: "length (xs @ [(pid, i)]) + height (kid ts t i) < 32" using height_kid[OF p(2), of t] Branch.prems(7) by simp
  note IH = Branch.IH[OF p(2) kids[rule_format, OF p(2)] full_kid[OF Branch.prems(2)] Branch.prems(3), of "xs @ [(pid, i)]" p2 r2,
      OF _ p(3) on h r2(1)]
  show ?case
  proof (cases "r2 = []")
    case False
    then obtain it' p' where n: "Next_loop it s = Inr it'" "moved it ((xs @ [(pid, i)]) @ p') it'"
      "path_to s (kid ts t i) (kid_page (nodes s pid) i) p'" "on_entry (kid ts t i) p'" "after (kid ts t i) p' = r2"
      using IH Branch.prems(4) p(1) by auto
    then show ?thesis
      using False r2(2) p(2) path_nonempty[OF n(3)] by (auto simp del: upt_Suc intro!: exI[of _ it'] exI[of _ "(pid, i) # p'"])
  next
    case True
    then obtain it2 where it2: "moved it (xs @ [(pid, i)]) it2" "Next_loop it s = Next_loop it2 s"
      using IH Branch.prems(4) p(1) by auto
    note up = Next_at_branch[OF bv, of it2 xs i]
    show ?thesis
    proof (cases "i < length ts")
      case lt: True
      let ?k = "kid ts t (Suc i)"
      obtain it3 where it3: "moved it2 (xs @ [(pid, Suc i)]) it3" "Next_loop it2 s = First (kid_page (nodes s pid) (Suc i)) it3 s"
        using up it2(1) lt by (auto simp: moved_def)
      have "length (trail it3) + height ?k < 32"
        using height_kid[of "Suc i" ts t] lt Branch.prems(7) it3(1) by (simp add: moved_def)
      then obtain it' p' where f: "First (kid_page (nodes s pid) (Suc i)) it3 s = Inr it'" "iter_wf it'" "trail it' = trail it3 @ p'"
        "path_to s ?k (kid_page (nodes s pid) (Suc i)) p'" "after ?k p' = entries ?k" "on_entry ?k p'" "status it' = kIter"
        "it_btree it' = it_btree it3"
        by (rule First_subtree[OF kids[rule_format] full_kid[OF Branch.prems(2)], rotated 2]) (use lt it3(1) in \<open>auto simp: moved_def\<close>)
      have R: "?R = entries ?k @ concat (map (\<lambda>j. entries (kid ts t j)) [Suc (Suc i)..<Suc (length ts)])"
        using lt by (subst upt_conv_Cons) simp_all
      then have "r \<noteq> []" using r2(2) full_entries[OF full_kid[OF Branch.prems(2)], of "Suc i"] by simp
      moreover have "moved it (xs @ (pid, Suc i) # p') it'" using f it3(1) it2(1) by (simp add: moved_def)
      moreover have "after (BNode ts t) ((pid, Suc i) # p') = r" using R True r2(2) f(5) by simp
      ultimately show ?thesis
        using f it2(2) it3(2) lt path_nonempty[OF f(4)] by (auto simp del: upt_Suc after.simps intro!: exI[of _ it'] exI[of _ "(pid, Suc i) # p'"])
    next
      case False
      then have "r = []" using True r2(2) p(2) by simp
      then show ?thesis using up it2 False p(2) by (auto simp: moved_def)
    qed
  qed
qed


section \<open>Reading a range\<close>

text \<open>
  The loop \<^verbatim>\<open>for (; iter != end(); ++iter)\<close> that reads key, value and kind of every entry, for at most
  \<open>n\<close> tests of its condition.
\<close>

fun scan :: "nat \<Rightarrow> BTreeIterator \<Rightarrow> 'a pager_db_scheme \<Rightarrow> entry list res" where
  "scan 0 it s = Inl Diverges"
| "scan (Suc n) it s =
     (if iter_eq it (new_iterator (it_btree it)) then Inr []
      else bind_res (iter_GetKey it s) (\<lambda>k.
           bind_res (iter_GetValue it s) (\<lambda>v.
           bind_res (iter_is_bucket it s) (\<lambda>b.
           bind_res (Next it s) (\<lambda>it'.
           bind_res (scan n it' s) (\<lambda>es. Inr ((k, v, b) # es)))))))"

lemma stands_iff:
  "stands s t root it \<longleftrightarrow> iter_wf it \<and> path_to s t root (trail it) \<and> on_entry t (trail it) \<and> status it \<noteq> kInvalidIter"
  by (auto simp: stands_def on_entry_def)

lemma scan_end: "iter_eq it (new_iterator (it_btree it)) \<Longrightarrow> 0 < n \<Longrightarrow> scan n it s = Inr []"
  by (cases n) simp_all

lemma scan_after:
  assumes "tree_at s t root" "full_leaves t" "height t < 32"
  shows "stands s t root it \<Longrightarrow> length (after t (trail it)) < n \<Longrightarrow> scan n it s = Inr (after t (trail it))"
proof (induction n arbitrary: it)
  case (Suc n)
  have wf: "iter_wf it" "path_to s t root (trail it)" "on_entry t (trail it)" "status it \<noteq> kInvalidIter" "trail it \<noteq> []"
    using Suc.prems(1) path_nonempty by (auto simp: stands_iff)
  obtain e r where e: "after t (trail it) = e # r" "iter_GetKey it s = Inr (fst e)" "iter_GetValue it s = Inr (fst (snd e))"
    "iter_is_bucket it s = Inr (snd (snd e))"
    by (rule stands_reads[OF assms(1) Suc.prems(1)])
  have ne: "\<not> iter_eq it (new_iterator (it_btree it))" "Next it s = Next_loop it s"
    using iter_end_iff[OF wf(1) refl] iter_Empty_trail[OF wf(1)] wf(4,5) by (simp_all add: Next_def)
  have "\<exists>it'. Next it s = Inr it' \<and> scan n it' s = Inr r"
  proof (cases "r = []")
    case True
    then obtain it' where it': "Next it s = Inr it'" "moved it [] it'"
      using Next_tree[OF assms(1,2) wf(1) _ wf(2,3) _ e(1), of "[]"] assms(3) ne(2) by auto
    then have "iter_eq it' (new_iterator (it_btree it'))" using iter_end_iff[of it'] by (simp add: moved_def)
    then show ?thesis using True it'(1) scan_end[of it' n s] Suc.prems(2) e(1) by simp
  next
    case False
    then obtain it' p' where it': "Next it s = Inr it'" "moved it p' it'" "path_to s t root p'" "on_entry t p'" "after t p' = r"
      using Next_tree[OF assms(1,2) wf(1) _ wf(2,3) _ e(1), of "[]"] assms(3) ne(2) by auto
    then have "stands s t root it'" "trail it' = p'" using wf(4) by (auto simp: stands_iff moved_def)
    then show ?thesis using Suc.IH[of it'] Suc.prems(2) it' e(1) by simp
  qed
  then show ?case using e ne(1) by auto
qed simp


section \<open>Going to the last entry\<close>

text \<open>\<^verbatim>\<open>Last\<close> goes down the child left of the last separator of every branch.\<close>

lemma Last_tree:
  assumes "tree_at s t pid" "full_leaves t" "iter_wf it" "length (trail it) + height t < 32"
  shows "\<exists>it' p. Last_loop pid it s = Inr it' \<and> iter_wf it' \<and> trail it' = trail it @ p \<and> path_to s t pid p \<and> on_entry t p \<and>
    status it' = status it \<and> it_btree it' = it_btree it \<and>
    (case t of BLeaf es \<Rightarrow> p = [(pid, length es - 1)] | BNode ts t' \<Rightarrow> \<exists>p'. p = (pid, length ts - 1) # p')"
  using assms
proof (induction t arbitrary: pid it rule: bt_kid_induct)
  case (Leaf es)
  obtain it' where it': "Push (pid, length es - 1) it = Inr it'" "iter_wf it'" "trail it' = trail it @ [(pid, length es - 1)]"
    "status it' = status it" "it_btree it' = it_btree it"
    by (rule Push_trail[of it "(pid, length es - 1)"]) (use Leaf in auto)
  then have "Last_loop pid it s = Inr it'"
    using Leaf.prems Reference_ok[of pid s] by (subst Last_loop.simps) (simp add: leaf_view_def)
  then show ?case using it' Leaf.prems by (intro exI[of _ it'] exI[of _ "[(pid, length es - 1)]"]) (simp add: on_entry_def)
next
  case (Branch ts t)
  let ?i = "length ts - 1"
  have bv: "branch_view s pid (map snd ts)" and k: "tree_at s (kid ts t ?i) (kid_page (nodes s pid) ?i)"
    using Branch.prems(1) by auto
  obtain it1 where it1: "Push (pid, ?i) it = Inr it1" "iter_wf it1" "trail it1 = trail it @ [(pid, ?i)]" "status it1 = status it"
    "it_btree it1 = it_btree it"
    by (rule Push_trail[of it "(pid, ?i)"]) (use Branch.prems in auto)
  have step: "Last_loop pid it s = Last_loop (kid_page (nodes s pid) ?i) it1 s"
    using bv it1(1) Reference_ok[of pid s] GetLeftChild_kid[of ?i "nodes s pid"]
    by (subst Last_loop.simps) (auto simp: branch_view_def IsLeaf_def IsBranch_def)
  have "length (trail it1) + height (kid ts t ?i) < 32" using height_kid[of ?i ts t] Branch.prems(4) it1(3) by simp
  from Branch.IH[OF _ k full_kid[OF Branch.prems(2)] it1(2) this] obtain it' p where
    r: "Last_loop (kid_page (nodes s pid) ?i) it1 s = Inr it'" "iter_wf it'" "trail it' = trail it1 @ p"
    "path_to s (kid ts t ?i) (kid_page (nodes s pid) ?i) p" "on_entry (kid ts t ?i) p"
    "status it' = status it1" "it_btree it' = it_btree it1" by auto
  then show ?case
    using step it1 path_nonempty[OF r(4)] by (intro exI[of _ it'] exI[of _ "(pid, ?i) # p"]) simp
qed


section \<open>Contents of a bucket\<close>

text \<open>
  The root page of a bucket holds a list of entries: there is no root, or it is the root of an
  ordered tree that fits the path stack of the iterator.
\<close>

definition tree_root :: "'a pager_db_scheme \<Rightarrow> bt option \<Rightarrow> PageId \<Rightarrow> bool" where
  "tree_root s ot root \<longleftrightarrow>
     (case ot of None \<Rightarrow> root = kPageInvalidId | Some t \<Rightarrow> tree_at s t root \<and> ordered_bt t \<and> height t < 32)"

definition contents :: "bt option \<Rightarrow> entry list" where
  "contents ot = (case ot of None \<Rightarrow> [] | Some t \<Rightarrow> entries t)"

definition no_empty_leaf :: "bt option \<Rightarrow> bool" where
  "no_empty_leaf ot \<longleftrightarrow> (case ot of None \<Rightarrow> True | Some t \<Rightarrow> full_leaves t)"

lemma LowerBound_tree:
  assumes "tree_at s t root" "ordered_bt t" "height t < 32" "short_key key"
  obtains it where "BTree_LowerBound bcmp b root key s = Inr it" "iter_wf it" "path_to s t root (trail it)"
    "\<forall>e \<in> set (before t (trail it)). fst e < key" "\<forall>e \<in> set (after t (trail it)). key \<le> fst e"
    "\<forall>e \<in> set (rightward t (trail it)). key < fst e"
    "status it = leaf_status key (focus t (trail it)) (snd (last (trail it)))" "it_btree it = b"
    "on_home t key (trail it)"
proof -
  have "down_target root (new_iterator b) s = Inr (Some root)"
    using tree_page_valid[OF assms(1)] iter_Empty_trail[of "new_iterator b"] by (simp add: down_target_def)
  then show thesis
    using that search_tree[OF assms(1,2,4), of "new_iterator b" root] assms(3) by (auto simp: LowerBound_down_loop)
qed

lemma LowerBound_no_root: "BTree_LowerBound cmp b kPageInvalidId key s = Inr (new_iterator b)"
  using iter_Empty_trail[of "new_iterator b"]
  by (simp add: BTree_LowerBound_def Top_def Down_def down_target_def)

lemma iter_end_refl [simp]: "iter_eq (new_iterator b) (new_iterator b)"
  using iter_end_iff[of "new_iterator b" b] by simp

text \<open>The iterator of a search stands on an entry unless it is at the end of its leaf.\<close>

lemma leaf_status_on:
  assumes "path_to s t root p" "\<forall>e \<in> set (before t p). fst e < key" "\<not> on_entry t p"
  shows "leaf_status key (focus t p) (snd (last p)) = (if focus t p = [] then kNe else kInvalidIter)"
    "after t p = rightward t p"
proof -
  have l: "snd (last p) = length (focus t p)" using path_leaf(2)[OF assms(1)] assms(3) by (simp add: on_entry_def)
  then have "key \<notin> fst ` set (focus t p)" using path_leaf(3)[OF assms(1)] assms(2) by fastforce
  then show "leaf_status key (focus t p) (snd (last p)) = (if focus t p = [] then kNe else kInvalidIter)"
    using l by (auto simp: leaf_status_def)
  show "after t p = rightward t p" using path_leaf(4)[OF assms(1)] l by simp
qed

lemma leaf_status_valid: "on_entry t p \<Longrightarrow> leaf_status key (focus t p) (snd (last p)) \<noteq> kInvalidIter"
  by (auto simp: leaf_status_def on_entry_def)

lemma search_hit:
  assumes "path_to s t root p" "ordered_bt t" "\<forall>e \<in> set (before t p). fst e < key" "\<forall>e \<in> set (after t p). key \<le> fst e"
    "\<forall>e \<in> set (rightward t p). key < fst e"
  shows "key \<in> fst ` set (focus t p) \<longleftrightarrow> key \<in> fst ` set (entries t)"
    "key \<in> fst ` set (entries t) \<Longrightarrow> on_entry t p \<and> (\<exists>e r. after t p = e # r \<and> fst e = key \<and> map_of (entries t) key = Some (snd e))"
proof -
  have l: "set (leftward t p) \<subseteq> set (before t p)" using path_leaf(3)[OF assms(1)] by simp
  show iff: "key \<in> fst ` set (focus t p) \<longleftrightarrow> key \<in> fst ` set (entries t)"
    using path_focus[OF assms(1)] l assms(3,5) by (auto simp: image_iff)
  assume k: "key \<in> fst ` set (entries t)"
  have on: "on_entry t p"
  proof (rule ccontr)
    assume "\<not> on_entry t p"
    then show False using leaf_status_on(1)[OF assms(1,3)] k iff by (auto simp: leaf_status_def split: if_splits)
  qed
  obtain e r where e: "after t p = e # r" by (rule path_rest[OF assms(1) on])
  have ent: "entries t = before t p @ e # r" using path_cuts[OF assms(1)] e by simp
  have "\<forall>x \<in> set r. fst e < fst x"
    using ordered_entries[OF assms(2)] ent by (auto simp: sorted_wrt_append)
  then have "fst e = key" using k ent assms(3,4) e by fastforce
  moreover have "map_of (before t p) key = None" using assms(3) by (auto simp: map_of_eq_None_iff)
  ultimately show "on_entry t p \<and> (\<exists>e r. after t p = e # r \<and> fst e = key \<and> map_of (entries t) key = Some (snd e))"
    using on e ent by (cases e) (auto simp: map_add_def)
qed


text \<open>What an iterator shows for the result of a lookup.\<close>

definition finds :: "BTreeIterator \<Rightarrow> BucketId \<Rightarrow> key \<Rightarrow> 'a pager_db_scheme \<Rightarrow> (byte list \<times> bool) option \<Rightarrow> bool" where
  "finds it b key s r \<longleftrightarrow> (case r of None \<Rightarrow> iter_eq it (new_iterator b)
     | Some (v, f) \<Rightarrow> \<not> iter_eq it (new_iterator b) \<and> iter_GetKey it s = Inr key \<and> iter_GetValue it s = Inr v \<and>
         iter_is_bucket it s = Inr f)"

lemma BTree_Get_finds:
  assumes "tree_root s ot root" "short_key key"
  shows "\<exists>it. BTree_Get bcmp b root key s = Inr it \<and> finds it b key s (map_of (contents ot) key)"
proof (cases ot)
  case None
  then show ?thesis using assms(1) by (simp add: tree_root_def contents_def BTree_Get_def LowerBound_no_root finds_def)
next
  case (Some t)
  then have t: "tree_at s t root" "ordered_bt t" "height t < 32" using assms(1) by (simp_all add: tree_root_def)
  obtain it where it: "BTree_LowerBound bcmp b root key s = Inr it" "iter_wf it" "path_to s t root (trail it)"
    "\<forall>e \<in> set (before t (trail it)). fst e < key" "\<forall>e \<in> set (after t (trail it)). key \<le> fst e"
    "\<forall>e \<in> set (rightward t (trail it)). key < fst e"
    "status it = leaf_status key (focus t (trail it)) (snd (last (trail it)))" "it_btree it = b"
    by (rule LowerBound_tree[OF t assms(2)])
  note hit = search_hit[OF it(3) t(2) it(4-6)]
  show ?thesis
  proof (cases "key \<in> fst ` set (entries t)")
    case True
    then have eq: "status it = kEq" using it(7) hit(1) by (simp add: leaf_status_def)
    obtain e r where e: "after t (trail it) = e # r" "fst e = key" "map_of (entries t) key = Some (snd e)" "on_entry t (trail it)"
      using hit(2)[OF True] by blast
    have st: "stands s t root it" using it(2,3) e(4) eq by (simp add: stands_iff)
    have "\<not> iter_eq it (new_iterator b)" using iter_end_iff[OF it(2,8)] eq path_nonempty[OF it(3)] by simp
    moreover obtain "iter_GetKey it s = Inr (fst e)" "iter_GetValue it s = Inr (fst (snd e))" "iter_is_bucket it s = Inr (snd (snd e))"
      by (rule stands_reads[OF t(1) st]) (use e(1) in auto)
    ultimately show ?thesis using it(1) eq e Some by (auto simp: BTree_Get_def contents_def finds_def split: prod.splits)
  next
    case False
    then have "status it \<noteq> kEq" using it(7) hit(1) by (simp add: leaf_status_def)
    moreover have "map_of (contents ot) key = None" using False Some by (simp add: contents_def map_of_eq_None_iff)
    ultimately show ?thesis using it(1) by (simp add: BTree_Get_def finds_def)
  qed
qed


section \<open>Sample pages\<close>

text \<open>A root with one separator over two leaves.\<close>

definition sample_pair :: "byte \<Rightarrow> byte \<Rightarrow> NodeData" where
  "sample_pair a b = \<lparr>last_modified_txid = 4, node_type = kLeaf, node_count = 2, space_used = 4, data_offset = 252,
     tail_child = 0, slots = (\<lambda>i. \<lparr>record_offset = 252 + 2 * i, is_overflow_pages = False, key_size = 1,
       is_bucket = False, child_or_size = 1\<rparr>),
     records = (\<lambda>i. if i = 252 then a else if i = 254 then b else if i = 253 then a + 10 else b + 10)\<rparr>"

definition sample_root :: NodeData where
  "sample_root = \<lparr>last_modified_txid = 4, node_type = kBranch, node_count = 1, space_used = 1, data_offset = 255,
     tail_child = 4, slots = (\<lambda>i. \<lparr>record_offset = 255, is_overflow_pages = False, key_size = 1,
       is_bucket = False, child_or_size = 3\<rparr>),
     records = (\<lambda>i. 5)\<rparr>"

definition sample_tree_db :: pager_db where
  "sample_tree_db = sample_pager\<lparr>pg_size := 256,
     nodes := (\<lambda>p. if p = 8 then sample_root else if p = 3 then sample_pair 1 2 else sample_pair 5 9)\<rparr>"

definition sample_bt :: bt where
  "sample_bt = BNode [(BLeaf [([1], [11], False), ([2], [12], False)], [5])] (BLeaf [([5], [15], False), ([9], [19], False)])"

lemma sample_views:
  assumes "pg_size s = 256" "nodes s = nodes sample_tree_db"
  shows "leaf_view s 3 [([1], [11], False), ([2], [12], False)]" "leaf_view s 4 [([5], [15], False), ([9], [19], False)]"
    "branch_view s 8 [[5]]" "kid_page (nodes s 8) 0 = 3" "kid_page (nodes s 8) (Suc 0) = 4"
  using assms
  by (simp_all add: leaf_view_def branch_view_def kid_page_def sample_tree_db_def sample_pair_def sample_root_def kPageMaxCount_def
      IsLeaf_def IsBranch_def GetKey_def GetValue_def GetRecord_def mem_read_def All_less_Suc)

lemma sample_tree_root [simp]: "tree_root sample_tree_db (Some sample_bt) 8" "no_empty_leaf (Some sample_bt)"
proof -
  have "pg_size sample_tree_db = 256" by (simp add: sample_tree_db_def)
  note v = sample_views[OF this refl]
  have "tree_at sample_tree_db sample_bt 8"
    using v by (auto simp: sample_bt_def kid_def le_Suc_eq)
  moreover have "ordered_bt sample_bt"
    by (auto simp: sample_bt_def kid_def le_Suc_eq short_key_def)
  moreover have "height sample_bt < 32" "full_leaves sample_bt" by (simp_all add: sample_bt_def)
  ultimately show "tree_root sample_tree_db (Some sample_bt) 8" "no_empty_leaf (Some sample_bt)"
    by (simp_all add: tree_root_def no_empty_leaf_def)
qed


section \<open>Properties\<close>

text \<open>
  C5: \<^verbatim>\<open>BTree::Get\<close> is the lookup in the contents of the tree. On the pages of an ordered tree, or
  on an empty bucket, it always returns: the end iterator when the key is absent, otherwise an
  iterator that reads the key, its value and its kind. The search never overflows the path stack.
\<close>

theorem btree_get_correct:
  assumes "tree_root s ot root" "short_key key"
  shows "\<exists>it. BTree_Get bcmp b root key s = Inr it \<and>
    (case map_of (contents ot) key of None \<Rightarrow> iter_eq it (new_iterator b)
     | Some (v, f) \<Rightarrow> \<not> iter_eq it (new_iterator b) \<and> iter_GetKey it s = Inr key \<and> iter_GetValue it s = Inr v \<and>
         iter_is_bucket it s = Inr f)"
  using BTree_Get_finds[OF assms, of b] by (simp add: finds_def)

theorem btree_get_correct_witness:
  "(\<exists>it. BTree_Get bcmp 1 8 [9] sample_tree_db = Inr it \<and> iter_GetValue it sample_tree_db = Inr [19]) \<and>
   (\<exists>it. BTree_Get bcmp 1 8 [3] sample_tree_db = Inr it \<and> iter_eq it (new_iterator 1))"
proof -
  have "short_key [9]" "short_key [3]" "map_of (contents (Some sample_bt)) [9] = Some ([19], False)"
    "map_of (contents (Some sample_bt)) [3] = None"
    by (simp_all add: short_key_def contents_def sample_bt_def)
  then show ?thesis
    using btree_get_correct[OF sample_tree_root(1), of "[9]" 1] btree_get_correct[OF sample_tree_root(1), of "[3]" 1] by auto
qed

text \<open>
  C10: Iteration. From \<^verbatim>\<open>begin()\<close> the loop over a bucket without empty leaves visits every entry of
  the tree exactly once, in key order, and ends at \<^verbatim>\<open>end()\<close> after as many steps as there are entries.
\<close>

theorem iteration_complete:
  assumes "tree_root s ot root" "no_empty_leaf ot"
  shows "\<exists>it. BTree_begin b root s = Inr it \<and> scan (Suc (length (contents ot))) it s = Inr (contents ot) \<and>
    sorted_wrt (<) (map fst (contents ot))"
proof (cases ot)
  case None
  then show ?thesis
    using assms(1) by (simp add: tree_root_def contents_def BTree_begin_def First_def)
next
  case (Some t)
  then have t: "tree_at s t root" "ordered_bt t" "height t < 32" "full_leaves t"
    using assms by (simp_all add: tree_root_def no_empty_leaf_def)
  obtain it p where it: "First root (new_iterator b) s = Inr it" "iter_wf it" "trail it = trail (new_iterator b) @ p" "path_to s t root p"
    "after t p = entries t" "on_entry t p" "status it = kIter"
    by (rule First_subtree[OF t(1,4), of "new_iterator b"]) (use t(3) in auto)
  then have "stands s t root it" "trail it = p" by (simp_all add: stands_iff)
  then have "scan (Suc (length (entries t))) it s = Inr (entries t)"
    using scan_after[OF t(1,4,3), of it "Suc (length (entries t))"] it(5) by simp
  then show ?thesis using it(1) Some ordered_entries[OF t(2)] by (simp add: BTree_begin_def contents_def)
qed

theorem iteration_complete_witness:
  "\<exists>it. BTree_begin 1 8 sample_tree_db = Inr it \<and>
     scan 5 it sample_tree_db = Inr [([1], [11], False), ([2], [12], False), ([5], [15], False), ([9], [19], False)]"
proof -
  have c: "contents (Some sample_bt) = [([1], [11], False), ([2], [12], False), ([5], [15], False), ([9], [19], False)]"
    by (simp add: contents_def sample_bt_def)
  have n: "Suc (length (contents (Some sample_bt))) = 5" by (simp add: c)
  show ?thesis using iteration_complete[OF sample_tree_root, of 1, unfolded n, unfolded c] by blast
qed

text \<open>
  C11: \<^verbatim>\<open>BTree::LowerBound\<close> and the range read from it, for a tree without empty leaves. If the leaf
  that the separators lead the key to has an entry with that key or a greater one, the range is
  exactly the entries from the key on. Otherwise the result equals \<^verbatim>\<open>end()\<close>, although the following leaf
  may hold greater keys: a lower bound that falls between two leaves is lost.
\<close>

theorem lower_bound_range:
  assumes "tree_root s (Some t) root" "full_leaves t" "short_key key"
  shows "\<exists>it. BTree_LowerBound bcmp b root key s = Inr it \<and>
    (if \<forall>e \<in> set (home t key). fst e < key then iter_eq it (new_iterator b)
     else scan (Suc (length (entries t))) it s = Inr (filter (\<lambda>e. key \<le> fst e) (entries t)))"
proof -
  have t: "tree_at s t root" "ordered_bt t" "height t < 32" using assms(1) by (simp_all add: tree_root_def)
  obtain it where it: "BTree_LowerBound bcmp b root key s = Inr it" "iter_wf it" "path_to s t root (trail it)"
    "\<forall>e \<in> set (before t (trail it)). fst e < key" "\<forall>e \<in> set (after t (trail it)). key \<le> fst e"
    "\<forall>e \<in> set (rightward t (trail it)). key < fst e"
    "status it = leaf_status key (focus t (trail it)) (snd (last (trail it)))" "it_btree it = b" "focus t (trail it) = home t key"
    by (rule LowerBound_tree[OF t assms(3)]) (use home_focus in blast)
  let ?i = "snd (last (trail it))"
  have cut: "entries t = before t (trail it) @ after t (trail it)" by (rule path_cuts[OF it(3)])
  show ?thesis
  proof (cases "on_entry t (trail it)")
    case True
    have "focus t (trail it) ! ?i \<in> set (after t (trail it))"
      using path_leaf(4)[OF it(3)] True Cons_nth_drop_Suc[of ?i "focus t (trail it)"]
      by (metis list.set_intros(1) append_Cons on_entry_def)
    then have "\<not> (\<forall>e \<in> set (home t key). fst e < key)"
      using it(5,9) True by (metis not_le nth_mem on_entry_def)
    moreover have "stands s t root it" using True it(2,3,7) leaf_status_valid by (simp add: stands_iff)
    then have "scan (Suc (length (entries t))) it s = Inr (after t (trail it))"
      by (intro scan_after[OF t(1) assms(2) t(3)]) (simp_all add: cut)
    moreover have "filter (\<lambda>e. key \<le> fst e) (entries t) = after t (trail it)"
      using it(4,5) by (auto simp: cut filter_empty_conv filter_id_conv not_le)
    ultimately show ?thesis using it(1) by auto
  next
    case False
    have "focus t (trail it) \<noteq> []" by (rule full_focus[OF it(3) assms(2)])
    then have "status it = kInvalidIter" using leaf_status_on(1)[OF it(3,4) False] it(7) by simp
    then have "iter_eq it (new_iterator b)" using iter_end_iff[OF it(2,8)] by simp
    moreover have "set (home t key) \<subseteq> set (before t (trail it))"
      using path_leaf(2,3)[OF it(3)] False it(9) by (simp add: on_entry_def)
    ultimately show ?thesis using it(1,4) by auto
  qed
qed

theorem lower_bound_range_witness:
  "(\<exists>it. BTree_LowerBound bcmp 1 8 [2] sample_tree_db = Inr it \<and>
      scan 5 it sample_tree_db = Inr [([2], [12], False), ([5], [15], False), ([9], [19], False)]) \<and>
   (\<exists>it. BTree_LowerBound bcmp 1 8 [3] sample_tree_db = Inr it \<and> iter_eq it (new_iterator 1))"
proof -
  have f: "full_leaves sample_bt" "short_key [2]" "short_key [3]" "Suc (length (entries sample_bt)) = 5"
    "filter (\<lambda>e. [2] \<le> fst e) (entries sample_bt) = [([2], [12], False), ([5], [15], False), ([9], [19], False)]"
    by (simp_all add: sample_bt_def short_key_def)
  have "home sample_bt [2] = [([1], [11], False), ([2], [12], False)]" "home sample_bt [3] = [([1], [11], False), ([2], [12], False)]"
    by (simp_all add: sample_bt_def slot_for_def kid_def)
  then show ?thesis
    using lower_bound_range[OF sample_tree_root(1) f(1,2), of 1] lower_bound_range[OF sample_tree_root(1) f(1,3), of 1] f(4,5) by auto
qed

text \<open>
  C39: Decrementing \<^verbatim>\<open>end()\<close>. In a tree that is a single leaf it yields the last entry. In a tree with a
  branch root it yields an entry left of the last separator: all entries of the tail child,
  at least one, are greater, so backward iteration never visits them.
\<close>

theorem decrement_end:
  assumes "tree_root s (Some t) root" "full_leaves t"
  shows "\<exists>it k. Prev root (new_iterator b) s = Inr it \<and> iter_GetKey it s = Inr k \<and>
    (case t of BLeaf es \<Rightarrow> k = fst (last es)
     | BNode ts u \<Rightarrow> k \<in> set (bt_keys (fst (last ts))) \<and> bt_keys u \<noteq> [] \<and> (\<forall>k' \<in> set (bt_keys u). k < k'))"
proof -
  have t: "tree_at s t root" "ordered_bt t" "height t < 32" using assms(1) by (simp_all add: tree_root_def)
  obtain it p where it: "Last_loop root (new_iterator b\<lparr>status := kIter\<rparr>) s = Inr it" "iter_wf it" "trail it = p" "path_to s t root p"
    "on_entry t p" "status it = kIter"
    "case t of BLeaf es \<Rightarrow> p = [(root, length es - 1)] | BNode ts t' \<Rightarrow> \<exists>p'. p = (root, length ts - 1) # p'"
    using Last_tree[OF t(1) assms(2), of "new_iterator b\<lparr>status := kIter\<rparr>"] t(3) new_iterator_simps(1,2)[of b]
    by (auto simp: iter_wf_def)
  have "Prev root (new_iterator b) s = Inr it"
    using it(1) iter_Empty_trail[of "new_iterator b"] by (simp add: Prev_def Last_def)
  moreover obtain e r where e: "after t p = e # r" "iter_GetKey it s = Inr (fst e)" "e = focus t p ! snd (last p)"
    by (rule stands_reads[OF t(1), of it]) (use it in \<open>auto simp: stands_iff\<close>)
  moreover have "case t of BLeaf es \<Rightarrow> fst e = fst (last es)
    | BNode ts u \<Rightarrow> fst e \<in> set (bt_keys (fst (last ts))) \<and> bt_keys u \<noteq> [] \<and> (\<forall>k' \<in> set (bt_keys u). fst e < k')"
  proof (cases t)
    case (BLeaf es)
    then show ?thesis using e(3) it(7) assms(2) by (simp add: last_conv_nth)
  next
    case (BNode ts u)
    let ?i = "length ts - 1"
    have ts: "ts \<noteq> []" "kid ts u ?i = fst (last ts)" using t(2) BNode by (auto simp: kid_def last_conv_nth)
    obtain p' where p': "p = (root, ?i) # p'" "path_to s (kid ts u ?i) (kid_page (nodes s root) ?i) p'"
      using it(4,7) BNode by auto
    have "e \<in> set (focus t p)" using e(3) it(5) by (simp add: on_entry_def)
    then have "e \<in> set (entries (fst (last ts)))" using path_focus[OF p'(2)] p'(1) BNode ts(2) by simp
    then have k: "fst e \<in> fst ` set (entries (kid ts u ?i))" using ts(2) by simp
    have "fst e < k'" if k': "k' \<in> set (bt_keys u)" for k'
    proof -
      have "fst e < snd (ts ! ?i)" using separator_order(1)[of ts u ?i ?i "fst e"] t(2) k ts(1) BNode by simp
      also have "snd (ts ! ?i) \<le> k'" using separator_order(2)[of ts u ?i "length ts" k'] t(2) k' ts(1) BNode by simp
      finally show ?thesis .
    qed
    moreover have "bt_keys u \<noteq> []" using full_entries[of u] assms(2) BNode by simp
    ultimately show ?thesis using BNode k ts(2) by simp
  qed
  ultimately show ?thesis by (intro exI[of _ it] exI[of _ "fst e"]) auto
qed

theorem decrement_end_witness:
  "\<exists>it k. Prev 8 (new_iterator 1) sample_tree_db = Inr it \<and> iter_GetKey it sample_tree_db = Inr k \<and> k \<in> {[1], [2]}"
proof -
  have "full_leaves sample_bt" by (simp add: sample_bt_def)
  from decrement_end[OF sample_tree_root(1) this, of 1] show ?thesis by (auto simp: sample_bt_def)
qed

end
