(* ===== verification/Atomkv_Bucket.thy ===== *)
theory Atomkv_Bucket
  imports Atomkv_BTree "HOL-Library.List_Lexorder"
begin

text \<open>
  Buckets (\<^verbatim>\<open>src/bucket_impl.cpp\<close>) and the update transaction that holds them (\<^verbatim>\<open>src/tx_impl.cpp\<close>). A
  bucket is named by its id: the user bucket by \<^verbatim>\<open>kUserRootBucketId\<close>, a sub-bucket by its position in
  \<^verbatim>\<open>sub_bucket_cache_\<close>. The pointer to the root page of a bucket is the place it points to: the
  meta struct of the transaction, or an entry of the map of the parent bucket. The functions
  take the operations of the log writer \<open>w\<close> and the comparator \<open>cmp\<close> of the options as
  arguments.
\<close>

section \<open>State\<close>

datatype root_ref = User_root | Sub_root BucketId key

type_synonym sub_bucket_map = "(key, BucketId \<times> PageId) omap"

record BucketImpl =
  bk_root :: root_ref
  bk_writable :: bool
  bk_sub_map :: "sub_bucket_map option"

record 'w txn_db = "'w tx_db" +
  user_sub_map :: "sub_bucket_map option"
  sub_bucket_cache :: "BucketImpl option list"

type_synonym comparator = "key \<Rightarrow> key \<Rightarrow> strong_ordering res"

text \<open>The two members of \<^verbatim>\<open>TxImpl\<close> that a new transaction starts with.\<close>

definition TxImpl_init :: "('w, 'a) txn_db_scheme \<Rightarrow> ('w, 'a) txn_db_scheme" where
  "TxImpl_init s = s\<lparr>user_sub_map := None, sub_bucket_cache := []\<rparr>"

text \<open>\<^verbatim>\<open>operator[]\<close> of the vector and the dereference of the pointer are unchecked.\<close>

definition AtSubBucket :: "BucketId \<Rightarrow> ('w, 'a) txn_db_scheme \<Rightarrow> BucketImpl res" where
  "AtSubBucket bucket_id s =
     (if bucket_id < length (sub_bucket_cache s)
      then (case sub_bucket_cache s ! bucket_id of None \<Rightarrow> Inl Undefined_behaviour | Some bk \<Rightarrow> Inr bk)
      else Inl Undefined_behaviour)"

definition NewSubBucket :: "root_ref \<Rightarrow> bool \<Rightarrow> ('w, 'a) txn_db_scheme \<Rightarrow> BucketId \<times> ('w, 'a) txn_db_scheme" where
  "NewSubBucket root writable s =
     (u32 (length (sub_bucket_cache s)),
      s\<lparr>sub_bucket_cache := sub_bucket_cache s @ [Some \<lparr>bk_root = root, bk_writable = writable, bk_sub_map = None\<rparr>]\<rparr>)"

definition TxImpl_DeleteSubBucket :: "BucketId \<Rightarrow> ('w, 'a) txn_db_scheme \<Rightarrow> ('w, 'a) txn_db_scheme res" where
  "TxImpl_DeleteSubBucket bucket_id s =
     (if bucket_id < length (sub_bucket_cache s)
      then bind_res (assert_res (sub_bucket_cache s ! bucket_id \<noteq> None)) (\<lambda>_.
           Inr (s\<lparr>sub_bucket_cache := (sub_bucket_cache s)[bucket_id := None]\<rparr>))
      else Inl Undefined_behaviour)"

definition sub_map :: "BucketId \<Rightarrow> ('w, 'a) txn_db_scheme \<Rightarrow> sub_bucket_map option res" where
  "sub_map b s =
     (if b = kUserRootBucketId then Inr (user_sub_map s)
      else bind_res (AtSubBucket b s) (\<lambda>bk. Inr (bk_sub_map bk)))"

definition set_sub_map :: "BucketId \<Rightarrow> sub_bucket_map \<Rightarrow> ('w, 'a) txn_db_scheme \<Rightarrow> ('w, 'a) txn_db_scheme res" where
  "set_sub_map b m s =
     (if b = kUserRootBucketId then Inr (s\<lparr>user_sub_map := Some m\<rparr>)
      else bind_res (AtSubBucket b s) (\<lambda>bk.
           Inr (s\<lparr>sub_bucket_cache := (sub_bucket_cache s)[b := Some (bk\<lparr>bk_sub_map := Some m\<rparr>)]\<rparr>)))"

text \<open>An entry of the map of a bucket; a place that does not exist any more is undefined.\<close>

definition map_entry :: "BucketId \<Rightarrow> key \<Rightarrow> ('w, 'a) txn_db_scheme \<Rightarrow> (BucketId \<times> PageId) res" where
  "map_entry b k s =
     bind_res (sub_map b s) (\<lambda>m.
     case m of None \<Rightarrow> Inl Undefined_behaviour
     | Some m \<Rightarrow> (case map_of m k of None \<Rightarrow> Inl Undefined_behaviour | Some e \<Rightarrow> Inr e))"

definition root_place :: "BucketId \<Rightarrow> ('w, 'a) txn_db_scheme \<Rightarrow> root_ref res" where
  "root_place b s = (if b = kUserRootBucketId then Inr User_root else bind_res (AtSubBucket b s) (\<lambda>bk. Inr (bk_root bk)))"

definition bucket_root :: "BucketId \<Rightarrow> ('w, 'a) txn_db_scheme \<Rightarrow> PageId res" where
  "bucket_root b s =
     bind_res (root_place b s) (\<lambda>r.
     case r of User_root \<Rightarrow> bind_res (update_tx s) (\<lambda>m. Inr (user_root m))
     | Sub_root p k \<Rightarrow> bind_res (map_entry p k s) (\<lambda>e. Inr (snd e)))"

definition set_bucket_root :: "BucketId \<Rightarrow> PageId \<Rightarrow> ('w, 'a) txn_db_scheme \<Rightarrow> ('w, 'a) txn_db_scheme res" where
  "set_bucket_root b pgid s =
     bind_res (root_place b s) (\<lambda>r.
     case r of User_root \<Rightarrow> bind_res (update_tx s) (\<lambda>m. Inr (s\<lparr>update_meta := Some (m\<lparr>user_root := pgid\<rparr>)\<rparr>))
     | Sub_root p k \<Rightarrow>
         bind_res (map_entry p k s) (\<lambda>e.
         bind_res (sub_map p s) (\<lambda>m. set_sub_map p (map_assign k (fst e, pgid) (the m)) s)))"


section \<open>Operations of a bucket\<close>

definition Bucket_Empty :: "BucketId \<Rightarrow> ('w, 'a) txn_db_scheme \<Rightarrow> bool res" where
  "Bucket_Empty b s = bind_res (bucket_root b s) (\<lambda>root. Inr (BTree_Empty root))"

definition Bucket_Get :: "comparator \<Rightarrow> BucketId \<Rightarrow> key \<Rightarrow> ('w, 'a) txn_db_scheme \<Rightarrow> BTreeIterator res" where
  "Bucket_Get cmp b key s = bind_res (bucket_root b s) (\<lambda>root. BTree_Get cmp b root key s)"

definition Bucket_LowerBound :: "comparator \<Rightarrow> BucketId \<Rightarrow> key \<Rightarrow> ('w, 'a) txn_db_scheme \<Rightarrow> BTreeIterator res" where
  "Bucket_LowerBound cmp b key s = bind_res (bucket_root b s) (\<lambda>root. BTree_LowerBound cmp b root key s)"

definition Bucket_begin :: "BucketId \<Rightarrow> ('w, 'a) txn_db_scheme \<Rightarrow> BTreeIterator res" where
  "Bucket_begin b s = bind_res (bucket_root b s) (\<lambda>root. BTree_begin b root s)"

definition Bucket_Put ::
    "'w wal_writer \<Rightarrow> comparator \<Rightarrow> BucketId \<Rightarrow> key \<Rightarrow> byte list \<Rightarrow> bool \<Rightarrow> ('w, 'a) txn_db_scheme \<Rightarrow> ('w, 'a) txn_db_scheme res" where
  "Bucket_Put w cmp b key value bucket s =
     (let s0 = AppendPutLog w b key value bucket s in
      bind_res (bucket_root b s0) (\<lambda>root.
      bind_res (BTree_Put cmp b key value bucket root s0) (\<lambda>(root1, s1). set_bucket_root b root1 s1)))"

text \<open>\<^verbatim>\<open>Update\<close> and \<^verbatim>\<open>Delete\<close> through an iterator do not copy the pages of its path.\<close>

definition Bucket_Update ::
    "'w wal_writer \<Rightarrow> BucketId \<Rightarrow> BTreeIterator \<Rightarrow> byte list \<Rightarrow> ('w, 'a) txn_db_scheme \<Rightarrow> ('w, 'a) txn_db_scheme res" where
  "Bucket_Update w b it value s =
     bind_res (iter_GetKey it s) (\<lambda>key.
     bind_res (iter_is_bucket it s) (\<lambda>bucket.
     BTree_Update it value (AppendPutLog w b key value bucket s)))"

definition Bucket_Delete ::
    "'w wal_writer \<Rightarrow> comparator \<Rightarrow> BucketId \<Rightarrow> key \<Rightarrow> ('w, 'a) txn_db_scheme \<Rightarrow> (bool \<times> ('w, 'a) txn_db_scheme) res" where
  "Bucket_Delete w cmp b key s =
     (let s0 = AppendDeleteLog w b key s in
      bind_res (bucket_root b s0) (\<lambda>root.
      bind_res (BTree_Delete cmp b key root s0) (\<lambda>(found, root1, s1).
      bind_res (set_bucket_root b root1 s1) (\<lambda>s2. Inr (found, s2)))))"

definition Bucket_DeleteIter :: "BucketId \<Rightarrow> BTreeIterator \<Rightarrow> ('w, 'a) txn_db_scheme \<Rightarrow> ('w, 'a) txn_db_scheme res" where
  "Bucket_DeleteIter b it s =
     bind_res (bucket_root b s) (\<lambda>root.
     bind_res (Delete_Iter it root s) (\<lambda>(root1, s1). set_bucket_root b root1 s1))"


section \<open>Sub-buckets\<close>

text \<open>The branch of \<^verbatim>\<open>SubBucket\<close> for a name that is not in the map yet.\<close>

definition open_sub_bucket ::
    "'w wal_writer \<Rightarrow> comparator \<Rightarrow> BucketId \<Rightarrow> key \<Rightarrow> bool \<Rightarrow> sub_bucket_map \<Rightarrow> ('w, 'a) txn_db_scheme \<Rightarrow>
     (BucketId \<times> ('w, 'a) txn_db_scheme) res" where
  "open_sub_bucket w cmp b key writable m s =
     bind_res (set_sub_map b (map_assign key (0, kPageInvalidId) m) s) (\<lambda>s1.
     bind_res (Bucket_Get cmp b key s1) (\<lambda>it.
     bind_res (if iter_eq it (new_iterator b)
        then bind_res (Bucket_Put w cmp b key (le_bytes 4 kPageInvalidId) True s1) (\<lambda>s2.
             bind_res (Bucket_Get cmp b key s2) (\<lambda>it2.
             bind_res (iter_is_bucket it2 s2) (\<lambda>is_b.
             bind_res (assert_res is_b) (\<lambda>_. Inr (kPageInvalidId, s2)))))
        else bind_res (iter_is_bucket it s1) (\<lambda>is_b.
             bind_res (throw_if (\<not> is_b)
               (Invalid_argument ''attempt to open a key value pair that is not a sub bucket.'')) (\<lambda>_.
             bind_res (iter_value_as 4 it s1) (\<lambda>pgid. Inr (pgid, s1))))) (\<lambda>(pgid, s3).
     bind_res (sub_map b s3) (\<lambda>m3.
     let (bucket_id, s4) = NewSubBucket (Sub_root b key) writable s3 in
     bind_res (set_sub_map b (map_assign key (bucket_id, pgid) (the m3)) s4) (\<lambda>s5.
     Inr (bucket_id, s5))))))"

definition SubBucket ::
    "'w wal_writer \<Rightarrow> comparator \<Rightarrow> BucketId \<Rightarrow> key \<Rightarrow> bool \<Rightarrow> ('w, 'a) txn_db_scheme \<Rightarrow>
     (BucketId \<times> ('w, 'a) txn_db_scheme) res" where
  "SubBucket w cmp b key writable s =
     bind_res (sub_map b s) (\<lambda>m0.
     let m = (case m0 of None \<Rightarrow> [] | Some m \<Rightarrow> m) in
     bind_res (set_sub_map b m s) (\<lambda>s1.
     bind_res (case map_of m key of
         None \<Rightarrow> open_sub_bucket w cmp b key writable m s1
       | Some e \<Rightarrow> Inr (fst e, s1)) (\<lambda>(bucket_id, s2).
     bind_res (AtSubBucket bucket_id s2) (\<lambda>_. Inr (bucket_id, s2)))))"

text \<open>
  \<^verbatim>\<open>DeleteSubBucket(iter)\<close>. The nested call runs on the same bucket \<open>b\<close>, with an iterator of the
  sub-bucket; the entry of the nested bucket is looked up in the map of the sub-bucket before,
  and the reference to a missing map or entry is undefined. The fuel bounds the loop and the
  recursion together.
\<close>

fun delete_sub_loop ::
    "nat \<Rightarrow> 'w wal_writer \<Rightarrow> comparator \<Rightarrow> BucketId \<Rightarrow> BucketId \<Rightarrow> ('w, 'a) txn_db_scheme \<Rightarrow> ('w, 'a) txn_db_scheme res"
  and DeleteSubBucket_iter ::
    "nat \<Rightarrow> 'w wal_writer \<Rightarrow> comparator \<Rightarrow> BucketId \<Rightarrow> BTreeIterator \<Rightarrow> ('w, 'a) txn_db_scheme \<Rightarrow> ('w, 'a) txn_db_scheme res" where
  "delete_sub_loop 0 w cmp b sub s = Inl Diverges"
| "delete_sub_loop (Suc n) w cmp b sub s =
     bind_res (Bucket_begin sub s) (\<lambda>first.
     if iter_eq first (new_iterator sub) then Inr s
     else bind_res (iter_is_bucket first s) (\<lambda>is_b.
       bind_res (if is_b
         then bind_res (iter_GetKey first s) (\<lambda>k.
              bind_res (sub_map sub s) (\<lambda>m0.
              if m0 = None then Inl Undefined_behaviour
              else bind_res (DeleteSubBucket_iter n w cmp b first s) (\<lambda>s1.
                bind_res (map_entry sub k s1) (\<lambda>e.
                bind_res (TxImpl_DeleteSubBucket (fst e) s1) (\<lambda>s2.
                bind_res (sub_map sub s2) (\<lambda>m.
                bind_res (set_sub_map sub (map_erase k (the m)) s2) (\<lambda>s3.
                Bucket_Update w sub first (le_bytes 4 kPageInvalidId) s3)))))))
         else Inr s) (\<lambda>s4.
       bind_res (Bucket_DeleteIter sub first s4) (\<lambda>s5. delete_sub_loop n w cmp b sub s5))))"
| "DeleteSubBucket_iter 0 w cmp b it s = Inl Diverges"
| "DeleteSubBucket_iter (Suc n) w cmp b it s =
     bind_res (iter_is_bucket it s) (\<lambda>is_b.
     bind_res (throw_if (\<not> is_b)
       (Invalid_argument ''attempt to delete a key value pair that is not a sub bucket.'')) (\<lambda>_.
     bind_res (iter_GetKey it s) (\<lambda>key.
     bind_res (SubBucket w cmp b key True s) (\<lambda>(sub, s1).
     bind_res (delete_sub_loop n w cmp b sub s1) (\<lambda>s2.
     bind_res (map_entry b key s2) (\<lambda>e.
     if snd e \<noteq> kPageInvalidId then Free (snd e) 1 s2 else Inr s2))))))"

definition DeleteSubBucket ::
    "nat \<Rightarrow> 'w wal_writer \<Rightarrow> comparator \<Rightarrow> BucketId \<Rightarrow> key \<Rightarrow> ('w, 'a) txn_db_scheme \<Rightarrow> (bool \<times> ('w, 'a) txn_db_scheme) res" where
  "DeleteSubBucket fuel w cmp b key s =
     bind_res (Bucket_Get cmp b key s) (\<lambda>it.
     if iter_eq it (new_iterator b) then Inr (False, s)
     else bind_res (DeleteSubBucket_iter fuel w cmp b it s) (\<lambda>s1. Inr (True, s1)))"


section \<open>Committing\<close>

text \<open>
  \<^verbatim>\<open>TxImpl::Commit\<close>: the root of every sub-bucket goes into its parent, first those of the user
  bucket, then those of the cached buckets in order; the root is read when its turn comes.
\<close>

definition put_roots :: "'w wal_writer \<Rightarrow> comparator \<Rightarrow> BucketId \<Rightarrow> ('w, 'a) txn_db_scheme \<Rightarrow> ('w, 'a) txn_db_scheme res" where
  "put_roots w cmp b s =
     bind_res (sub_map b s) (\<lambda>m.
     case m of None \<Rightarrow> Inr s
     | Some m \<Rightarrow> fold_res (\<lambda>k t.
         bind_res (map_entry b k t) (\<lambda>e. Bucket_Put w cmp b k (le_bytes 4 (snd e)) True t)) (map fst m) s)"

definition TxImpl_Commit :: "('c, 'w) wal_env \<Rightarrow> comparator \<Rightarrow> ('w, 'a) txn_db_scheme \<Rightarrow> ('w, 'a) txn_db_scheme res" where
  "TxImpl_Commit env cmp s =
     bind_res (put_roots (snd env) cmp kUserRootBucketId s) (\<lambda>s1.
     bind_res (fold_res (\<lambda>b t. if sub_bucket_cache t ! b = None then Inr t else put_roots (snd env) cmp b t)
       [0..<length (sub_bucket_cache s1)] s1) (\<lambda>s2.
     TxManager_Commit env s2))"

definition UpdateTx_Commit ::
    "('c, 'w) wal_env \<Rightarrow> comparator \<Rightarrow> bool \<Rightarrow> ('w, 'a) txn_db_scheme \<Rightarrow> (bool \<times> ('w, 'a) txn_db_scheme) res" where
  "UpdateTx_Commit env cmp has_tx s =
     bind_res (throw_if (\<not> has_tx) (Runtime_error ''Invalid tx.'')) (\<lambda>_.
     bind_res (TxImpl_Commit env cmp s) (\<lambda>s1. Inr (False, s1)))"

end
