(* ===== verification/Atomkv_DB.thy ===== *)
theory Atomkv_DB
  imports Atomkv_Bucket
begin

text \<open>
  Opening and closing a database (\<^verbatim>\<open>src/db_impl.cpp\<close>) and the replay of the write-ahead log
  (\<^verbatim>\<open>Logger::Recover\<close>). The reader of the \<^verbatim>\<open>wal\<close> submodule is a parameter: the list of records
  it returns before it returns none. The system page size, the size of the database file and the size
  of the log file are parameters too.
\<close>

section \<open>Beginning a transaction with its buckets\<close>

definition Begin_Update :: "'w wal_writer \<Rightarrow> ('w, 'a) txn_db_scheme \<Rightarrow> ('w, 'a) txn_db_scheme res" where
  "Begin_Update w s = bind_res (TxManager_Update w s) (\<lambda>s1. Inr (TxImpl_init s1))"


section \<open>Recovery\<close>

definition log_txid :: "byte list \<Rightarrow> TxId" where
  "log_txid rec = word_of_nat (le_nat (take 8 (drop 1 rec)))"

definition log_bucket_id :: "byte list \<Rightarrow> BucketId" where
  "log_bucket_id rec = le_nat (take 4 (drop 1 rec))"

text \<open>\<^verbatim>\<open>assert(record->size() == ...)\<close> and the bucket that a record names.\<close>

definition log_bucket :: "byte list \<Rightarrow> ('w, 'a) txn_db_scheme \<Rightarrow> BucketId res" where
  "log_bucket rec s =
     bind_res (assert_res (length rec = 5)) (\<lambda>_.
     bind_res (update_tx s) (\<lambda>_.
     if log_bucket_id rec = kUserRootBucketId then Inr kUserRootBucketId
     else bind_res (AtSubBucket (log_bucket_id rec) s) (\<lambda>_. Inr (log_bucket_id rec))))"

text \<open>\<^verbatim>\<open>key->data()\<close> becomes a \<^verbatim>\<open>string_view\<close> up to its first zero byte; without one the scan leaves the record.\<close>

definition c_string :: "byte list \<Rightarrow> byte list res" where
  "c_string bs = (if 0 \<in> set bs then Inr (takeWhile (\<lambda>x. x \<noteq> 0) bs) else Inl Undefined_behaviour)"

abbreviation unrecoverable :: error where
  "unrecoverable \<equiv> Runtime_error ''unrecoverable logs.''"

text \<open>\<open>init\<close> and \<open>cur\<close> are the variables \<^verbatim>\<open>init\<close> and \<^verbatim>\<open>current_tx.has_value()\<close>; the result is the latter.\<close>

fun recover_loop ::
    "('c, 'w) wal_env \<Rightarrow> comparator \<Rightarrow> byte list list \<Rightarrow> bool \<Rightarrow> bool \<Rightarrow> ('w, 'a) txn_db_scheme \<Rightarrow>
     (bool \<times> ('w, 'a) txn_db_scheme) res" where
  "recover_loop env cmp [] init cur s = Inr (cur, s)"
| "recover_loop env cmp (rec # rest) init cur s =
     (if length rec < 1 then Inr (cur, s)
      else let type = hd rec in
      if type = log_type_byte kWalTxId
      then bind_res (throw_if init (Runtime_error ''Unrecoverable logs.'')) (\<lambda>_.
           if length rec < 9 then Inl Undefined_behaviour
           else if txid (db_meta s) > log_txid rec then Inr (cur, s)
           else recover_loop env cmp rest True cur s)
      else if type = log_type_byte kBegin
      then bind_res (throw_if (\<not> init) unrecoverable) (\<lambda>_.
           bind_res (throw_if cur unrecoverable) (\<lambda>_.
           bind_res (Begin_Update (snd env) s) (\<lambda>s1. recover_loop env cmp rest init True s1)))
      else if type = log_type_byte kRollback
      then bind_res (throw_if (\<not> init) unrecoverable) (\<lambda>_.
           bind_res (throw_if (\<not> cur) unrecoverable) (\<lambda>_.
           bind_res (UpdateTx_RollBack env True s) (\<lambda>(_, s1). recover_loop env cmp rest init False s1)))
      else if type = log_type_byte kCommit
      then bind_res (throw_if (\<not> init) unrecoverable) (\<lambda>_.
           bind_res (throw_if (\<not> cur) unrecoverable) (\<lambda>_.
           bind_res (UpdateTx_Commit env cmp True s) (\<lambda>(_, s1). recover_loop env cmp rest init False s1)))
      else if type = log_type_byte kSubBucket
      then bind_res (throw_if (\<not> init) unrecoverable) (\<lambda>_.
           bind_res (log_bucket rec s) (\<lambda>b.
           case rest of [] \<Rightarrow> Inr (cur, s)
           | key # rest1 \<Rightarrow>
               bind_res (c_string key) (\<lambda>name.
               bind_res (SubBucket (snd env) cmp b name True s) (\<lambda>(_, s1). recover_loop env cmp rest1 init cur s1))))
      else if type = log_type_byte kPut_IsBucket \<or> type = log_type_byte kPut_NotBucket
      then bind_res (throw_if (\<not> init) unrecoverable) (\<lambda>_.
           bind_res (log_bucket rec s) (\<lambda>b.
           case rest of key # value # rest2 \<Rightarrow>
               bind_res (Bucket_Put (snd env) cmp b key value (type = log_type_byte kPut_IsBucket) s) (\<lambda>s1.
               recover_loop env cmp rest2 init cur s1)
           | _ \<Rightarrow> Inr (cur, s)))
      else if type = log_type_byte kDelete
      then bind_res (throw_if (\<not> init) unrecoverable) (\<lambda>_.
           bind_res (log_bucket rec s) (\<lambda>b.
           case rest of [] \<Rightarrow> Inr (cur, s)
           | key # rest1 \<Rightarrow>
               bind_res (Bucket_Delete (snd env) cmp b key s) (\<lambda>(_, s1). recover_loop env cmp rest1 init cur s1)))
      else recover_loop env cmp rest init cur s)"

text \<open>
  The end of \<^verbatim>\<open>Recover\<close>. \<^verbatim>\<open>raw_txid\<close> is a reference to the same field that it is compared with.
\<close>

definition Recover :: "('c, 'w) wal_env \<Rightarrow> comparator \<Rightarrow> byte list list \<Rightarrow> ('w, 'a) txn_db_scheme \<Rightarrow> ('w, 'a) txn_db_scheme res" where
  "Recover env cmp recs s =
     bind_res (recover_loop env cmp recs False False (s\<lparr>disable_writing := True\<rparr>)) (\<lambda>(cur, s1).
     let s2 = s1\<lparr>disable_writing := False\<rparr> in
     bind_res (WriteAllDirtyPages s2) (\<lambda>_.
     bind_res (if cur then bind_res (UpdateTx_RollBack env True s2) (\<lambda>(_, s3). Inr s3) else Inr s2) (\<lambda>s4.
     if txid (db_meta s4) > txid (db_meta s4)
     then bind_res (throw_if (io_fails s4) (System_error ''Failed to sync db file.'')) (\<lambda>_.
          let s5 = Meta_Save (fst env) (Meta_Switch s4)
          in Inr (s5\<lparr>persisted_txid := txid (db_meta s5)\<rparr>))
     else Inr s4)))"


section \<open>Opening and closing\<close>

definition InitLogFile ::
    "('c, 'w) wal_env \<Rightarrow> comparator \<Rightarrow> nat \<Rightarrow> byte list list \<Rightarrow> ('w, 'a) txn_db_scheme \<Rightarrow> ('w, 'a) txn_db_scheme res" where
  "InitLogFile env cmp log_size recs s =
     (if read_only (options s) then Inr s
      else bind_res (if log_size > 0
             then bind_res (Recover env cmp recs s) (\<lambda>s1. Inr (Logger_Reset (snd env) s1)) else Inr s) (\<lambda>s2.
           Inr (AppendWalTxIdLog (snd env) s2)))"

text \<open>The check of the page size at the start of \<^verbatim>\<open>DB::Open\<close>.\<close>

definition resolve_page_size :: "nat \<Rightarrow> Options \<Rightarrow> Options res" where
  "resolve_page_size sys_page_size opts =
     bind_res (throw_if (sys_page_size > kPageMaxSize) (Runtime_error ''Page size exceeds maximum limit: '')) (\<lambda>_.
     if opt_page_size opts = 0 then Inr (opts\<lparr>opt_page_size := sys_page_size\<rparr>)
     else bind_res (throw_if (opt_page_size opts \<noteq> sys_page_size) (Invalid_argument ''Options page size mismatch.'')) (\<lambda>_.
          Inr opts))"

text \<open>
  \<^verbatim>\<open>DB::Open\<close> on the file whose bytes are \<open>mem\<close> of the given state: a new file gets two pages and fresh meta
  slots, an existing one is loaded; the pager and the transaction manager start empty.
\<close>

definition Open ::
    "('c, 'w) wal_env \<Rightarrow> comparator \<Rightarrow> nat \<Rightarrow> nat \<Rightarrow> nat \<Rightarrow> byte list list \<Rightarrow> Options \<Rightarrow> ('w, 'a) txn_db_scheme \<Rightarrow>
     ('w, 'a) txn_db_scheme res" where
  "Open env cmp sys_page_size file_size log_size recs opts s =
     bind_res (resolve_page_size sys_page_size opts) (\<lambda>opts1.
     let init_meta = (\<not> read_only opts1 \<and> file_size = 0);
         size1 = (if init_meta then opt_page_size opts1 * kPageInitCount else file_size);
         s0 = s\<lparr>options := opts1, pg_size := opt_page_size opts1, map_size := size1, mmap_pending := []\<rparr>
     in bind_res (throw_if (io_fails s0) (System_error ''Unable to map db file.'')) (\<lambda>_.
     bind_res (if init_meta then Inr (Meta_Init (fst env) s0) else Meta_Load (fst env) s0) (\<lambda>s1.
     let s2 = s1\<lparr>free_map := [], pending_map := [], alloc_records := [], debug_free_set := {},
                 update_meta := None, view_tx_map := [], persisted_txid := kTxInvalidId,
                 update_lock := False, disable_writing := False, checkpoint_needed := False\<rparr>
     in bind_res (TxManager_init s2) (\<lambda>s3.
     if mode opts1 = kWal then InitLogFile env cmp log_size recs s3 else Inr s3))))"

text \<open>The destructor of \<^verbatim>\<open>Logger\<close>: one more transaction around a checkpoint.\<close>

definition Logger_destroy :: "('c, 'w) wal_env \<Rightarrow> comparator \<Rightarrow> ('w, 'a) txn_db_scheme \<Rightarrow> ('w, 'a) txn_db_scheme res" where
  "Logger_destroy env cmp s =
     (if read_only (options s) then Inr s
      else bind_res (DBImpl_Update (snd env) s) (\<lambda>s1.
           bind_res (Checkpoint env (TxImpl_init s1)) (\<lambda>s2. TxImpl_Commit env cmp s2)))"

text \<open>\<^verbatim>\<open>DBImpl::~DBImpl\<close>: the size of the file is cut to the pages of the committed version.\<close>

definition Close :: "('c, 'w) wal_env \<Rightarrow> comparator \<Rightarrow> ('w, 'a) txn_db_scheme \<Rightarrow> ('w, 'a) txn_db_scheme res" where
  "Close env cmp s =
     bind_res (if mode (options s) = kWal then Logger_destroy env cmp s else Inr s) (\<lambda>s1.
     bind_res (TxManager_destroy s1) (\<lambda>_.
     bind_res (ClearPendingMmap s1) (\<lambda>s2.
     let new_size = u32 (opt_page_size (options s2) * page_count (db_meta s2))
     in Inr (if new_size > 0 then s2\<lparr>map_size := new_size\<rparr> else s2))))"

end
