(* ===== verification/Atomkv_Handles.thy ===== *)
theory Atomkv_Handles
  imports Atomkv_DB
begin

text \<open>
  The objects a program uses: \<^verbatim>\<open>DB::Update\<close> and \<^verbatim>\<open>DB::View\<close>, the transactions \<^verbatim>\<open>UpdateTx\<close> and \<^verbatim>\<open>ViewTx\<close>
  (\<^verbatim>\<open>src/tx_impl.cpp\<close>), the buckets \<^verbatim>\<open>UpdateBucket\<close> and \<^verbatim>\<open>ViewBucket\<close> (\<^verbatim>\<open>src/bucket_impl.cpp\<close>) and
  \<^verbatim>\<open>BucketIterator\<close> (\<^verbatim>\<open>include/atomkv/bucket_iterator.h\<close>). An \<^verbatim>\<open>UpdateTx\<close> is the pointer to the running
  transaction or null: a truth value. A \<^verbatim>\<open>ViewTx\<close> holds a transaction of its own, with a copy of the
  meta struct it was opened on.
\<close>

section \<open>Functions that do not throw\<close>

text \<open>An exception that leaves a function declared \<^verbatim>\<open>noexcept\<close>, or a destructor, ends the program.\<close>

fun no_throw :: "'a res \<Rightarrow> 'a res" where
  "no_throw (Inl (Invalid_argument _)) = Inl Abort"
| "no_throw (Inl (Runtime_error _)) = Inl Abort"
| "no_throw (Inl (System_error _)) = Inl Abort"
| "no_throw r = r"

lemma no_throw_Inr [simp]: "no_throw r = Inr x \<longleftrightarrow> r = Inr x"
  by (cases r rule: no_throw.cases) auto


section \<open>Read transactions\<close>

record ViewTx =
  view_meta :: MetaStruct
  view_sub_map :: "sub_bucket_map option"
  view_cache :: "BucketImpl option list"

definition DBImpl_View :: "('w, 'a) txn_db_scheme \<Rightarrow> ViewTx \<times> ('w, 'a) txn_db_scheme" where
  "DBImpl_View s =
     (let (m, s1) = TxManager_View s
      in (\<lparr>view_meta = CopyMetaInfo m m, view_sub_map = None, view_cache = []\<rparr>, s1))"

text \<open>
  The state as the buckets of a read transaction see it: \<^verbatim>\<open>tx_\<close> of their \<^verbatim>\<open>BucketImpl\<close> is the read transaction. Only the
  functions that read the tree are run on it.
\<close>

definition as_tx :: "ViewTx \<Rightarrow> ('w, 'a) txn_db_scheme \<Rightarrow> ('w, 'a) txn_db_scheme" where
  "as_tx v s = s\<lparr>update_meta := Some (view_meta v), user_sub_map := view_sub_map v, sub_bucket_cache := view_cache v\<rparr>"

text \<open>\<^verbatim>\<open>TxImpl::RollBack\<close>: the version of a reader is given back, an update transaction is undone.\<close>

definition TxImpl_RollBack :: "('c, 'w) wal_env \<Rightarrow> bool \<Rightarrow> TxId \<Rightarrow> ('w, 'a) txn_db_scheme \<Rightarrow> ('w, 'a) txn_db_scheme res" where
  "TxImpl_RollBack env writable t s = (if writable then TxManager_RollBack env s else TxManager_RollBackView t s)"

definition ViewTx_destroy :: "('c, 'w) wal_env \<Rightarrow> ViewTx \<Rightarrow> ('w, 'a) txn_db_scheme \<Rightarrow> ('w, 'a) txn_db_scheme res" where
  "ViewTx_destroy env v s = no_throw (TxImpl_RollBack env False (txid (view_meta v)) s)"

definition ViewTx_UserBucket :: "ViewTx \<Rightarrow> BucketId" where
  "ViewTx_UserBucket v = kUserRootBucketId"

definition ViewBucket_Get :: "comparator \<Rightarrow> ViewTx \<Rightarrow> BucketId \<Rightarrow> key \<Rightarrow> ('w, 'a) txn_db_scheme \<Rightarrow> BTreeIterator res" where
  "ViewBucket_Get cmp v b key s = Bucket_Get cmp b key (as_tx v s)"

definition ViewBucket_LowerBound :: "comparator \<Rightarrow> ViewTx \<Rightarrow> BucketId \<Rightarrow> key \<Rightarrow> ('w, 'a) txn_db_scheme \<Rightarrow> BTreeIterator res" where
  "ViewBucket_LowerBound cmp v b key s = Bucket_LowerBound cmp b key (as_tx v s)"

definition ViewBucket_begin :: "ViewTx \<Rightarrow> BucketId \<Rightarrow> ('w, 'a) txn_db_scheme \<Rightarrow> BTreeIterator res" where
  "ViewBucket_begin v b s = no_throw (Bucket_begin b (as_tx v s))"

definition ViewBucket_end :: "BucketId \<Rightarrow> BTreeIterator" where
  "ViewBucket_end b = new_iterator b"

text \<open>
  \<^verbatim>\<open>SubViewBucket\<close>. For a name that the bucket does not hold, \<^verbatim>\<open>SubBucket\<close> goes on to put it through the read
  transaction, into pages that are not its own; the result \<open>None\<close> stands for this case.
\<close>

definition SubViewBucket ::
    "'w wal_writer \<Rightarrow> comparator \<Rightarrow> BucketId \<Rightarrow> key \<Rightarrow> ViewTx \<Rightarrow> ('w, 'a) txn_db_scheme \<Rightarrow> (BucketId \<times> ViewTx) option res" where
  "SubViewBucket w cmp b key v s =
     (let u = as_tx v s in
      bind_res (sub_map b u) (\<lambda>m0.
      bind_res (case map_of (case m0 of None \<Rightarrow> [] | Some m \<Rightarrow> m) key of
          Some e \<Rightarrow> Inr False
        | None \<Rightarrow> bind_res (Bucket_Get cmp b key u) (\<lambda>it. Inr (iter_eq it (new_iterator b)))) (\<lambda>missing.
      if missing then Inr None
      else bind_res (SubBucket w cmp b key False u) (\<lambda>(c, u1).
        Inr (Some (c, v\<lparr>view_sub_map := user_sub_map u1, view_cache := sub_bucket_cache u1\<rparr>))))))"


section \<open>Update transactions\<close>

text \<open>\<^verbatim>\<open>DBImpl::Update\<close> returns a handle on the transaction that it starts.\<close>

definition DB_Update :: "'w wal_writer \<Rightarrow> ('w, 'a) txn_db_scheme \<Rightarrow> (bool \<times> ('w, 'a) txn_db_scheme) res" where
  "DB_Update w s = bind_res (DBImpl_Update w s) (\<lambda>s1. Inr (True, TxImpl_init s1))"

text \<open>
  The move constructor asserts that its own pointer is null before it has a value; \<open>junk\<close> says whether the memory of the new
  object happens to hold something else. The result is the new handle and the one moved from.
\<close>

definition UpdateTx_move :: "bool \<Rightarrow> bool \<Rightarrow> (bool \<times> bool) res" where
  "UpdateTx_move junk right = no_throw (bind_res (assert_res (\<not> junk)) (\<lambda>_. Inr (right, False)))"

definition UpdateTx_destroy :: "('c, 'w) wal_env \<Rightarrow> bool \<Rightarrow> ('w, 'a) txn_db_scheme \<Rightarrow> ('w, 'a) txn_db_scheme res" where
  "UpdateTx_destroy env has_tx s =
     (if has_tx then no_throw (bind_res (UpdateTx_RollBack env has_tx s) (\<lambda>(_, s1). Inr s1)) else Inr s)"

definition UpdateTx_UserBucket :: "bool \<Rightarrow> BucketId res" where
  "UpdateTx_UserBucket has_tx = (if has_tx then Inr kUserRootBucketId else Inl Undefined_behaviour)"

definition SubUpdateBucket ::
    "'w wal_writer \<Rightarrow> comparator \<Rightarrow> BucketId \<Rightarrow> key \<Rightarrow> ('w, 'a) txn_db_scheme \<Rightarrow> (BucketId \<times> ('w, 'a) txn_db_scheme) res" where
  "SubUpdateBucket w cmp b key s = SubBucket w cmp b key True s"

definition UpdateBucket_DeleteSubBucket ::
    "nat \<Rightarrow> 'w wal_writer \<Rightarrow> comparator \<Rightarrow> BucketId \<Rightarrow> key \<Rightarrow> ('w, 'a) txn_db_scheme \<Rightarrow> (bool \<times> ('w, 'a) txn_db_scheme) res" where
  "UpdateBucket_DeleteSubBucket fuel w cmp b key s = DeleteSubBucket fuel w cmp b key s"

definition UpdateBucket_Put ::
    "'w wal_writer \<Rightarrow> comparator \<Rightarrow> BucketId \<Rightarrow> key \<Rightarrow> byte list \<Rightarrow> ('w, 'a) txn_db_scheme \<Rightarrow> ('w, 'a) txn_db_scheme res" where
  "UpdateBucket_Put w cmp b key val s = Bucket_Put w cmp b key val False s"

definition UpdateBucket_Delete ::
    "'w wal_writer \<Rightarrow> comparator \<Rightarrow> BucketId \<Rightarrow> key \<Rightarrow> ('w, 'a) txn_db_scheme \<Rightarrow> (bool \<times> ('w, 'a) txn_db_scheme) res" where
  "UpdateBucket_Delete w cmp b key s = Bucket_Delete w cmp b key s"


section \<open>Iterators of a bucket\<close>

text \<open>The postfix operators return a moved copy and leave the iterator itself, the first part of the result, where it is.\<close>

definition BucketIterator_incr :: "BTreeIterator \<Rightarrow> 'a pager_db_scheme \<Rightarrow> BTreeIterator res" where
  "BucketIterator_incr it s = no_throw (Next it s)"

definition BucketIterator_decr :: "PageId \<Rightarrow> BTreeIterator \<Rightarrow> 'a pager_db_scheme \<Rightarrow> BTreeIterator res" where
  "BucketIterator_decr root it s = no_throw (Prev root it s)"

definition BucketIterator_post_incr :: "BTreeIterator \<Rightarrow> 'a pager_db_scheme \<Rightarrow> (BTreeIterator \<times> BTreeIterator) res" where
  "BucketIterator_post_incr it s =
     bind_res (BucketIterator_incr (iter_assign it (new_iterator (it_btree it))) s) (\<lambda>tmp. Inr (it, tmp))"

definition BucketIterator_post_decr :: "PageId \<Rightarrow> BTreeIterator \<Rightarrow> 'a pager_db_scheme \<Rightarrow> (BTreeIterator \<times> BTreeIterator) res" where
  "BucketIterator_post_decr root it s =
     bind_res (BucketIterator_decr root (iter_assign it (new_iterator (it_btree it))) s) (\<lambda>tmp. Inr (it, tmp))"

definition BucketIterator_eq :: "BTreeIterator \<Rightarrow> BTreeIterator \<Rightarrow> bool" where
  "BucketIterator_eq it right = iter_eq it right"

definition BucketIterator_key :: "BTreeIterator \<Rightarrow> 'a pager_db_scheme \<Rightarrow> key res" where
  "BucketIterator_key it s = iter_GetKey it s"

definition BucketIterator_value :: "BTreeIterator \<Rightarrow> 'a pager_db_scheme \<Rightarrow> byte list res" where
  "BucketIterator_value it s = iter_GetValue it s"

definition BucketIterator_key_as :: "nat \<Rightarrow> BTreeIterator \<Rightarrow> 'a pager_db_scheme \<Rightarrow> nat res" where
  "BucketIterator_key_as n it s = iter_key_as n it s"

definition BucketIterator_value_as :: "nat \<Rightarrow> BTreeIterator \<Rightarrow> 'a pager_db_scheme \<Rightarrow> nat res" where
  "BucketIterator_value_as n it s = iter_value_as n it s"

definition BucketIterator_is_bucket :: "BTreeIterator \<Rightarrow> 'a pager_db_scheme \<Rightarrow> bool res" where
  "BucketIterator_is_bucket it s = iter_is_bucket it s"

end
