(* ===== verification/Atomkv_Tree_Copy.thy ===== *)
theory Atomkv_Tree_Copy
  imports Atomkv_Tree_Spec Atomkv_Tx_Props
begin

text \<open>
  Copy on write along a path: \<^verbatim>\<open>CopyAllPagesByPath\<close> leaves the same tree under a root that may be new,
  and changes no page that belongs to an earlier version. Trees with records in overflow pages are
  left out here: the content of a page is then its node alone.
\<close>

section \<open>Pages of a tree\<close>

definition inline_node :: "'a pager_db_scheme \<Rightarrow> PageId \<Rightarrow> bool" where
  "inline_node s pid \<longleftrightarrow> wf_node (pg_size s) (nodes s pid) \<and>
     (\<forall>i < node_count (nodes s pid). \<not> is_overflow_pages (slots (nodes s pid) i))"

text \<open>The tree under a page, and the set of pages it occupies: no page is used twice.\<close>

function owns :: "'a pager_db_scheme \<Rightarrow> bt \<Rightarrow> PageId \<Rightarrow> PageId set \<Rightarrow> bool" where
  "owns s (BLeaf es) pid P \<longleftrightarrow> P = {pid} \<and> leaf_view s pid es \<and> inline_node s pid"
| "owns s (BNode ts t) pid P \<longleftrightarrow> branch_view s pid (map snd ts) \<and> inline_node s pid \<and>
     (\<exists>Q. P = insert pid (\<Union>i \<in> {..length ts}. Q i) \<and> pid \<notin> (\<Union>i \<in> {..length ts}. Q i) \<and>
       (\<forall>i \<le> length ts. \<forall>j \<le> length ts. i \<noteq> j \<longrightarrow> Q i \<inter> Q j = {}) \<and>
       (\<forall>i \<le> length ts. owns s (kid ts t i) (kid_page (nodes s pid) i) (Q i)))"
  by pat_completeness auto
termination by (relation "measure (\<lambda>(s, t, pid, P). size t)") (auto dest: kid_size)

declare owns.simps [simp del]

lemma owns_leaf: "owns s (BLeaf es) pid P \<longleftrightarrow> P = {pid} \<and> leaf_view s pid es \<and> inline_node s pid"
  by (rule owns.simps(1))

text \<open>A branch whose subtrees occupy the pages \<open>Q\<close>.\<close>

definition apart :: "PageId \<Rightarrow> nat \<Rightarrow> (nat \<Rightarrow> PageId set) \<Rightarrow> bool" where
  "apart pid n Q \<longleftrightarrow> pid \<notin> (\<Union>i \<in> {..n}. Q i) \<and> (\<forall>i \<le> n. \<forall>j \<le> n. i \<noteq> j \<longrightarrow> Q i \<inter> Q j = {})"

lemma owns_branchE:
  assumes "owns s (BNode ts t) pid P"
  obtains Q where "branch_view s pid (map snd ts)" "inline_node s pid" "P = insert pid (\<Union>i \<in> {..length ts}. Q i)"
    "apart pid (length ts) Q" "\<forall>i \<le> length ts. owns s (kid ts t i) (kid_page (nodes s pid) i) (Q i)"
  using assms unfolding owns.simps apart_def by blast

lemma owns_branchI:
  assumes "branch_view s pid (map snd ts)" "inline_node s pid" "P = insert pid (\<Union>i \<in> {..length ts}. Q i)"
    "apart pid (length ts) Q" "\<forall>i \<le> length ts. owns s (kid ts t i) (kid_page (nodes s pid) i) (Q i)"
  shows "owns s (BNode ts t) pid P"
  using assms unfolding owns.simps apart_def by blast

lemma owns_tree: "owns s t pid P \<Longrightarrow> tree_at s t pid"
proof (induction t arbitrary: pid P rule: bt_kid_induct)
  case (Leaf es)
  then show ?case by (simp add: owns_leaf)
next
  case (Branch ts t)
  then show ?case by (elim owns_branchE) auto
qed

lemma owns_root: "owns s t pid P \<Longrightarrow> pid \<in> P"
  by (cases t) (auto simp: owns_leaf elim: owns_branchE)

text \<open>Reading a page without overflow records depends on its node only.\<close>

lemma inline_cong:
  assumes "nodes s' pid = nodes s pid" "pg_size s' = pg_size s"
  shows "inline_node s' pid = inline_node s pid"
    "inline_node s pid \<Longrightarrow> leaf_view s' pid es = leaf_view s pid es"
    "inline_node s pid \<Longrightarrow> branch_view s' pid ks = branch_view s pid ks"
proof -
  show "inline_node s' pid = inline_node s pid" using assms by (simp add: inline_node_def)
  assume "inline_node s pid"
  then have "GetKey pid i s' = GetKey pid i s" "GetValue pid i s' = GetValue pid i s" if "i < node_count (nodes s pid)" for i
    using assms that by (simp_all add: inline_node_def GetKey_def GetValue_def GetRecord_def)
  then show "leaf_view s' pid es = leaf_view s pid es" "branch_view s' pid ks = branch_view s pid ks"
    using assms(1) by (auto simp: leaf_view_def branch_view_def)
qed

lemma owns_frame:
  assumes "owns s t pid P" "\<forall>q \<in> P. nodes s' q = nodes s q" "pg_size s' = pg_size s"
  shows "owns s' t pid P"
  using assms(1,2)
proof (induction t arbitrary: pid P rule: bt_kid_induct)
  case (Leaf es)
  then show ?case using inline_cong[of s' pid s] assms(3) by (simp add: owns_leaf)
next
  case (Branch ts t)
  obtain Q where q: "branch_view s pid (map snd ts)" "inline_node s pid" "P = insert pid (\<Union>i \<in> {..length ts}. Q i)"
    "apart pid (length ts) Q" "\<forall>i \<le> length ts. owns s (kid ts t i) (kid_page (nodes s pid) i) (Q i)"
    by (rule owns_branchE[OF Branch.prems(1)])
  have n: "nodes s' pid = nodes s pid" using Branch.prems(2) q(3) by simp
  have "\<forall>i \<le> length ts. owns s' (kid ts t i) (kid_page (nodes s' pid) i) (Q i)"
    using Branch.IH q(3,5) Branch.prems(2) n by auto
  then show ?case using inline_cong[OF n assms(3)] q(1-4) by (intro owns_branchI) auto
qed

lemma path_to_frame:
  assumes "path_to s t pid p" "owns s t pid P" "\<forall>q \<in> P. nodes s' q = nodes s q"
  shows "path_to s' t pid p"
  using assms
proof (induction s t pid p arbitrary: P rule: path_to.induct)
  case (3 s ts t pid q i p)
  obtain Q where q: "P = insert pid (\<Union>i \<in> {..length ts}. Q i)" "\<forall>i \<le> length ts. owns s (kid ts t i) (kid_page (nodes s pid) i) (Q i)"
    by (rule owns_branchE[OF "3.prems"(2)])
  then have "nodes s' pid = nodes s pid" "path_to s' (kid ts t i) (kid_page (nodes s pid) i) p"
    using 3 by auto
  then show ?case using "3.prems"(1) by simp
qed simp_all


section \<open>One copied page\<close>

text \<open>
  The states that differ only in what the pager and the tree change inside a transaction: single pages move from the free map to the
  list of allocations, or the file grows and is mapped again; pages are freed under the number of the transaction, and a page carries the
  number of the transaction or the one it had.
\<close>

definition restamped :: "'a pager_db_scheme \<Rightarrow> (PageId \<Rightarrow> NodeData) \<Rightarrow> bool" where
  "restamped s nn \<longleftrightarrow> (\<forall>q. last_modified_txid (nn q) = last_modified_txid (nodes s q) \<or>
     (\<exists>m. update_meta s = Some m \<and> last_modified_txid (nn q) = txid m))"

definition taken :: "'a pager_db_scheme \<Rightarrow> (PageId, nat) omap \<Rightarrow> PagePair list \<Rightarrow> bool" where
  "taken s fm ar \<longleftrightarrow> (\<exists>ps. ar = alloc_records s @ ps \<and> disjoint_runs ps \<and> (\<forall>x \<in> set ps. snd x = 1) \<and>
     pages_of ps \<subseteq> pages_of (free_map s) \<and> pages_of fm = pages_of (free_map s) - pages_of ps)"

definition own_pending :: "'a pager_db_scheme \<Rightarrow> (TxId, PagePair list) omap \<Rightarrow> bool" where
  "own_pending s pm \<longleftrightarrow> (\<forall>m. update_meta s = Some m \<longrightarrow> map_erase (txid m) pm = map_erase (txid m) (pending_map s)) \<and>
     ([] \<notin> snd ` set (pending_map s) \<longrightarrow> [] \<notin> snd ` set pm)"

definition grown :: "'a pager_db_scheme \<Rightarrow> MetaStruct option \<Rightarrow> bool" where
  "grown s um \<longleftrightarrow> (case update_meta s of None \<Rightarrow> um = None | Some m \<Rightarrow> \<exists>c \<ge> page_count m. um = Some (m\<lparr>page_count := c\<rparr>))"

definition paged :: "'a pager_db_scheme \<Rightarrow> 'a pager_db_scheme \<Rightarrow> bool" where
  "paged s s' \<longleftrightarrow> (\<exists>fm ar df pm mm nn um ms mp. s' = s\<lparr>free_map := fm, alloc_records := ar, debug_free_set := df,
     pending_map := pm, mem := mm, nodes := nn, update_meta := um, map_size := ms, mmap_pending := mp\<rparr>) \<and> grown s (update_meta s') \<and> restamped s (nodes s') \<and> taken s (free_map s') (alloc_records s') \<and> own_pending s (pending_map s') \<and>
     mapped s s'"

lemma paged_same [simp]: "restamped s (nodes s)" "taken s (free_map s) (alloc_records s)" "own_pending s (pending_map s)" "grown s (update_meta s)"
  by (auto simp: restamped_def taken_def own_pending_def pages_of_def disjoint_runs_def grown_def split: option.splits intro!: exI[of _ "[]"])

lemma pagedI: "s' = s\<lparr>free_map := free_map s', alloc_records := alloc_records s', debug_free_set := debug_free_set s',
     pending_map := pending_map s', mem := mem s', nodes := nodes s', update_meta := update_meta s', map_size := map_size s', mmap_pending := mmap_pending s'\<rparr> \<Longrightarrow>
     grown s (update_meta s') \<Longrightarrow> restamped s (nodes s') \<Longrightarrow>
     taken s (free_map s') (alloc_records s') \<Longrightarrow> own_pending s (pending_map s') \<Longrightarrow> mapped s s' \<Longrightarrow> paged s s'"
  unfolding paged_def by blast

lemma taken_trans:
  assumes "taken s (free_map t) (alloc_records t)" "taken t fm ar"
  shows "taken s fm ar"
proof -
  obtain ps where p: "alloc_records t = alloc_records s @ ps" "disjoint_runs ps" "\<forall>x \<in> set ps. snd x = 1"
    "pages_of ps \<subseteq> pages_of (free_map s)" "pages_of (free_map t) = pages_of (free_map s) - pages_of ps"
    using assms(1) by (auto simp: taken_def)
  obtain qs where q: "ar = alloc_records t @ qs" "disjoint_runs qs" "\<forall>x \<in> set qs. snd x = 1"
    "pages_of qs \<subseteq> pages_of (free_map t)" "pages_of fm = pages_of (free_map t) - pages_of qs"
    using assms(2) by (auto simp: taken_def)
  have a: "pages_of (ps @ qs) = pages_of ps \<union> pages_of qs" by (auto simp: pages_of_def)
  have "pages_of ps \<inter> pages_of qs = {}" using p(5) q(4) by blast
  then have "run x \<inter> run y = {}" if "x \<in> set ps" "y \<in> set qs" for x y using that unfolding pages_of_def by blast
  then have "disjoint_runs (ps @ qs)" using p(2) q(2) unfolding disjoint_runs_def sorted_wrt_append by blast
  moreover have "pages_of fm = pages_of (free_map s) - pages_of (ps @ qs)" "pages_of (ps @ qs) \<subseteq> pages_of (free_map s)"
    unfolding a using p(4,5) q(4,5) by blast+
  ultimately show ?thesis using p(1,3) q(1,3) unfolding taken_def by (intro exI[of _ "ps @ qs"]) auto
qed

lemma grown_txid: "grown s um \<Longrightarrow> map_option txid um = map_option txid (update_meta s)"
  by (auto simp: grown_def split: option.splits)

abbreviation running :: "'a pager_db_scheme \<Rightarrow> TxId option" where
  "running s \<equiv> map_option txid (update_meta s)"

lemma txid_Some: "map_option txid a = map_option txid b \<Longrightarrow> (\<exists>m. a = Some m \<and> P (txid m)) = (\<exists>m. b = Some m \<and> P (txid m))"
  by (cases a; cases b) simp_all

lemma grown_trans:
  assumes "grown s (update_meta t)" "grown t um"
  shows "grown s um"
proof (cases "update_meta s")
  case (Some m)
  then obtain c where c: "page_count m \<le> c" "update_meta t = Some (m\<lparr>page_count := c\<rparr>)" using assms(1) by (auto simp: grown_def)
  then obtain d where d: "c \<le> d" "um = Some (m\<lparr>page_count := c\<rparr>\<lparr>page_count := d\<rparr>)" using assms(2) by (auto simp: grown_def)
  have "page_count m \<le> d" "um = Some (m\<lparr>page_count := d\<rparr>)" using c(1) d by simp_all
  then show ?thesis using Some by (auto simp: grown_def simp del: MetaStruct.ext_inject)
qed (use assms in \<open>simp add: grown_def\<close>)

lemma paged_trans:
  assumes "paged s t" "paged t u"
  shows "paged s u"
proof -
  have g: "grown s (update_meta t)" "grown t (update_meta u)" using assms by (simp_all add: paged_def)
  then have m: "map_option txid (update_meta t) = map_option txid (update_meta s)" "grown s (update_meta u)" using grown_txid grown_trans by blast+
  have "taken s (free_map u) (alloc_records u)" using assms taken_trans by (auto simp: paged_def)
  moreover have "restamped s (nodes u)"
  proof -
    have r: "restamped s (nodes t)" "restamped t (nodes u)" using assms by (simp_all add: paged_def)
    have "\<exists>m. update_meta s = Some m \<and> last_modified_txid n = txid m" if "\<exists>m. update_meta t = Some m \<and> last_modified_txid n = txid m" for n
      using that txid_Some[OF m(1), of "\<lambda>x. last_modified_txid n = x"] by simp
    then show ?thesis using r unfolding restamped_def by metis
  qed
  moreover have "own_pending s (pending_map u)" using assms m(1) by (cases "update_meta s"; cases "update_meta t") (auto simp: paged_def own_pending_def)
  moreover have "\<exists>fm ar df pm mm nn um ms mp. u = s\<lparr>free_map := fm, alloc_records := ar, debug_free_set := df, pending_map := pm, mem := mm, nodes := nn,
      update_meta := um, map_size := ms, mmap_pending := mp\<rparr>"
    using assms by (clarsimp simp: paged_def) ((rule exI)+, rule refl)
  moreover have "mapped s u" using assms by (auto simp: paged_def intro: mapped_trans)
  ultimately show ?thesis using m(2) unfolding paged_def by blast
qed

lemma paged_refl [simp]: "paged s s"
  by (rule pagedI) simp_all

lemma restamped_upd: "restamped s nn \<Longrightarrow> last_modified_txid n = last_modified_txid (nodes s pid) \<or> (\<exists>m. update_meta s = Some m \<and> last_modified_txid n = txid m) \<Longrightarrow>
    restamped s (nn(pid := n))"
  by (auto simp: restamped_def)

lemma paged_set_node: "last_modified_txid n = last_modified_txid (nodes s pid) \<or> (\<exists>m. update_meta s = Some m \<and> last_modified_txid n = txid m) \<Longrightarrow>
    paged s (set_node pid n s)"
  by (rule pagedI) (simp_all add: set_node_def restamped_upd)

lemma paged_fields:
  assumes "paged s s'"
  shows "pg_size s' = pg_size s" "running s' = running s" "tx_open s' = tx_open s" "limit s \<le> limit s'"
    "io_fails s' = io_fails s"
proof -
  have g: "grown s (update_meta s')" using assms by (simp add: paged_def)
  then show "running s' = running s" by (rule grown_txid)
  show "pg_size s' = pg_size s" "io_fails s' = io_fails s" using assms by (auto simp: paged_def)
  have "db_meta s' = db_meta s" using assms by (auto simp: paged_def)
  then show "tx_open s' = tx_open s" "limit s \<le> limit s'" using g by (auto simp: grown_def limit_def tx_open_def split: option.splits)
qed

lemma paged_txid:
  assumes "paged s s'" "update_meta s = Some m"
  obtains m' where "update_meta s' = Some m'" "txid m' = txid m"
  using paged_fields(2)[OF assms(1)] assms(2) by auto

lemma paged_CopyNeeded:
  fixes s s' :: "('w, 'a) tx_db_scheme"
  assumes "paged s s'"
  shows "CopyNeeded x s' = CopyNeeded x s"
proof -
  have t: "persisted_txid s' = persisted_txid s" "min_view_txid s' = min_view_txid s" "options s' = options s" using assms by (auto simp: paged_def)
  show ?thesis using t paged_fields(2)[OF assms] by (cases "update_meta s"; cases "update_meta s'") (auto simp: CopyNeeded_def IsTxExpired_def update_tx_def)
qed


section \<open>Pages to allocate\<close>

text \<open>
  The pages the allocator can still hand out: those of the free map, and those the file can grow by as long as its size in bytes is
  below \<open>2 ^ 32\<close>, where the code's 32-bit product would wrap around.
\<close>

definition top_page :: "'a pager_db_scheme \<Rightarrow> nat" where
  "top_page s = (if io_fails s \<or> (\<forall>k \<le> 15. pg_size s \<noteq> 2 ^ k) then 0 else min kPageMaxCount (4294967295 div pg_size s))"

definition stock :: "'a pager_db_scheme \<Rightarrow> PageId set" where
  "stock s = pages_of (free_map s) \<union> {limit s..<top_page s}"

lemma limit_cong: "update_meta s' = update_meta s \<Longrightarrow> db_meta s' = db_meta s \<Longrightarrow> limit s' = limit s"
  by (cases "update_meta s") (simp_all add: limit_def)

lemma top_page_cong: "pg_size s' = pg_size s \<Longrightarrow> io_fails s' = io_fails s \<Longrightarrow> top_page s' = top_page s"
  unfolding top_page_def by (simp only:)

lemma stock_cong:
  "free_map s' = free_map s \<Longrightarrow> limit s' = limit s \<Longrightarrow> pg_size s' = pg_size s \<Longrightarrow> io_fails s' = io_fails s \<Longrightarrow> stock s' = stock s"
  by (simp add: stock_def top_page_cong[of s' s])

lemma limit_set_node [simp]: "limit (set_node p n s) = limit s"
  by (rule limit_cong) (simp_all add: set_node_def)

lemma stock_set_node [simp]: "stock (set_node p n s) = stock s"
  by (rule stock_cong) (simp_all, simp_all add: set_node_def)

lemma finite_stock [simp]: "finite (stock s)"
  by (simp add: stock_def pages_of_def)

lemma free_stock: "pages_of (free_map s) \<subseteq> stock s"
  by (simp add: stock_def)

lemma stock_owned: "page_inv L s \<Longrightarrow> q \<in> L \<Longrightarrow> q \<notin> stock s"
  by (auto simp: page_inv_def stock_def)

text \<open>With such a page at hand, \<^verbatim>\<open>Alloc\<close> of one page returns one.\<close>

lemma Alloc_fresh:
  assumes "map_inv s" "update_meta s = Some m" "free_map s = []" "limit s < top_page s"
  obtains t where "Alloc 1 s = Inr (limit s, t)"
proof -
  obtain k where k: "k \<le> 15" "pg_size s = 2 ^ k" "\<not> io_fails s" "limit s < 4294967295 div pg_size s"
    using assms(4) by (auto simp: top_page_def split: if_splits)
  have "(limit s + 1) * pg_size s \<le> 4294967295"
  proof -
    have "(limit s + 1) * pg_size s \<le> (4294967295 div pg_size s) * pg_size s" using k(4) by (intro mult_right_mono) simp_all
    then show ?thesis using div_times_less_eq_dividend[of 4294967295 "pg_size s"] by linarith
  qed
  then have f: "(page_count m + 1) * pg_size s < 4294967296" using assms(2) by (simp add: limit_def)
  have "\<forall>x \<in> set (free_map s). snd x < 1" using assms(3) by simp
  from Alloc_grows[OF assms(1,2) this _ k(2,1,3) f] show thesis using that assms(2) by (auto simp: limit_def)
qed

lemma Alloc_reuses:
  assumes "page_inv L s" "tx_open s" "stock s \<noteq> {}" "limit s \<le> kPageMaxCount"
  obtains q t where "Alloc 1 s = Inr (q, t)" "q \<in> stock s" "stock t = stock s - {q}"
    "page_inv (insert q L) t" "paged s t" "nodes t = nodes s" "q < kPageMaxCount" "limit t \<le> kPageMaxCount"
proof -
  have m: "map_inv s" using assms(1) by (simp add: page_inv_def)
  obtain mt where mt: "update_meta s = Some mt" using assms(2) by (auto simp: tx_open_def)
  have "\<exists>q t. Alloc 1 s = Inr (q, t)"
  proof (cases "free_map s = []")
    case True
    then have "limit s < top_page s" using assms(3) by (auto simp: stock_def pages_of_def)
    then show ?thesis using Alloc_fresh[OF m mt True] by metis
  next
    case False
    then obtain x where x: "x \<in> set (free_map s)" by (cases "free_map s") auto
    have "0 < snd x" using m x by (auto simp: map_inv_def free_ok_def)
    from m show ?thesis
    proof (cases rule: AllocFromMap_cases[of s 1])
      case none
      then show ?thesis using x \<open>0 < snd x\<close> by fastforce
    next
      case (fit p fm)
      then show ?thesis using mt by (auto simp: Alloc_def update_tx_def kPageInvalidId_def)
    qed
  qed
  then obtain q t where a: "Alloc 1 s = Inr (q, t)" by blast
  have r: "run (q, 1) = {q}" by auto
  have inv: "page_inv (insert q L) t" using Alloc_keeps(1)[OF assms(1) a] r by simp
  have one: "0 < (1::nat)" "(1::nat) < 4294967296" by simp_all
  from m a one have "q \<in> stock s \<and> stock t = stock s - {q} \<and> paged s t \<and> nodes t = nodes s \<and> q < kPageMaxCount \<and> limit t \<le> kPageMaxCount"
  proof (cases rule: Alloc_cases)
    case (reused fm)
    have l: "limit t = limit s" "top_page t = top_page s" using limit_cong[of t s] top_page_cong[of t s] by (simp_all add: reused(1))
    have q: "q \<in> pages_of (free_map s)" using reused(2) r by auto
    then have "q < limit s" using pages_of_bound[of "limit s" "free_map s"] m by (auto simp: map_inv_def)
    moreover have "paged s t"
    proof (rule pagedI)
      show "taken s (free_map t) (alloc_records t)" using reused(2,4) r unfolding taken_def
        by (intro exI[of _ "[(q, 1)]"]) (simp add: reused(1) disjoint_runs_def pages_of_def)
      show "mapped s t" by (rule Alloc_mapped[OF a])
    qed (simp_all add: reused(1))
    moreover have "nodes t = nodes s" "free_map t = fm" by (simp_all add: reused(1))
    moreover from this have "stock t = pages_of (free_map s) - {q} \<union> {limit s..<top_page s}" using reused(4) l r by (simp add: stock_def)
    moreover from this have "stock t = stock s - {q}" using \<open>q < limit s\<close> by (auto simp: stock_def)
    ultimately show ?thesis using q assms(4) l free_stock by auto
  next
    case (fresh m ms pm mm)
    have e: "free_map s = []"
    proof (rule ccontr)
      assume "free_map s \<noteq> []"
      then obtain x where "x \<in> set (free_map s)" by (cases "free_map s") auto
      then show False using fresh(5) m(1) by (fastforce simp: map_inv_def free_ok_def)
    qed
    have l: "limit s = q" "limit t = q + 1" "top_page t = top_page s" using fresh top_page_cong[of t s] by (simp_all add: limit_def)
    have top: "q < top_page s" "top_page s \<le> kPageMaxCount" using assms(3) e l(1) by (auto simp: stock_def pages_of_def top_page_def)
    have "paged s t" by (rule pagedI) (use fresh(1,2) Alloc_mapped[OF a] in \<open>auto simp: fresh(4) grown_def intro!: exI[of _ "Suc (page_count m)"]\<close>)
    moreover have "stock t = stock s - {q}" using l e by (auto simp: stock_def fresh(4) pages_of_def)
    ultimately show ?thesis using top l e by (simp add: stock_def fresh(4))
  qed
  then show thesis using that[OF a] inv by blast
qed

lemma Free_own_pending:
  assumes "Free p c s = Inr t"
  shows "\<exists>pm. t = s\<lparr>pending_map := pm\<rparr> \<and> own_pending s pm"
  proof -
  obtain m where m: "t = s\<lparr>pending_map := map_assign (txid m) ((case map_of (pending_map s) (txid m) of None \<Rightarrow> [] | Some l \<Rightarrow> l) @ [(p, c)]) (pending_map s)\<rparr>"
    "update_meta s = Some m" using assms by (auto simp: Free_result)
  have "[] \<notin> snd ` set (pending_map t)" if "[] \<notin> snd ` set (pending_map s)"
    using that snd_set_map_assign[of "txid m" "(case map_of (pending_map s) (txid m) of None \<Rightarrow> [] | Some l \<Rightarrow> l) @ [(p, c)]" "pending_map s"] m(1) by auto
  then show ?thesis using m by (auto simp: own_pending_def map_erase_assign)
qed

lemma Node_Copy_reuses:
  assumes "page_inv L s" "tx_open s" "stock s \<noteq> {}" "limit s \<le> kPageMaxCount" "pid \<in> L"
  obtains q s' m where "Node_Copy pid s = Inr (q, s')" "q \<in> stock s"
    "stock s' = stock s - {q}" "page_inv (insert q (L - {pid})) s'" "paged s s'"
    "nodes s' = (nodes s)(q := (nodes s pid)\<lparr>last_modified_txid := txid m\<rparr>)" "update_meta s = Some m" "q < kPageMaxCount" "limit s' \<le> kPageMaxCount"
proof -
  obtain q t where a: "Alloc 1 s = Inr (q, t)" "q \<in> stock s" "stock t = stock s - {q}"
    "page_inv (insert q L) t" "paged s t" "nodes t = nodes s" "q < kPageMaxCount" "limit t \<le> kPageMaxCount"
    by (rule Alloc_reuses[OF assms(1-4)])
  obtain m where m: "update_meta s = Some m" using assms(2) by (auto simp: tx_open_def)
  obtain m' where mt: "update_meta t = Some m'" "txid m' = txid m" by (rule paged_txid[OF a(5) m])
  have ne: "q \<noteq> pid" "pid < kPageMaxCount" using a(2) assms stock_owned by (auto simp: page_inv_def)
  define u where "u = t\<lparr>mem := mem_copy (mem t) (GetPtr q 0 t) (mem t) (GetPtr pid 0 t) (pg_size t), nodes := (nodes t)(q := nodes t pid)\<rparr>"
  have inv_u: "page_inv (insert q L) u" using a(4) by (simp add: u_def page_inv_def map_inv_def)
  obtain v where v: "Free pid 1 u = Inr v"
    using Free_returns[of u pid 1] mt ne(2) by (auto simp: u_def tx_open_def kPageMaxCount_def kPageInvalidId_def)
  have c: "Copy pid s = Inr (q, v)"
    using a(1,7) v Reference_ok[of q t] Reference_ok[OF ne(2), of s] by (simp add: Copy_def u_def)
  obtain pm where pm: "v = u\<lparr>pending_map := pm\<rparr>" "own_pending u pm" using v Free_own_pending by blast
  have vf: "update_meta v = Some m'" "nodes v = (nodes s)(q := nodes s pid)" "free_map v = free_map t" "limit v = limit t" "pg_size v = pg_size t" "io_fails v = io_fails t"
    using pm mt a(6) limit_cong[of v t] by (simp_all add: u_def)
  have inv_v: "page_inv (insert q (L - {pid})) v"
  proof -
    have "run (pid, 1) = {pid}" by auto
    then show ?thesis using Free_keeps(1)[OF inv_u v] assms(5) ne(1) by (simp add: insert_Diff_if)
  qed
  define s' where "s' = set_node q ((nodes v q)\<lparr>last_modified_txid := txid m\<rparr>) v"
  have ls: "limit s' = limit t" "stock s' = stock t"
  proof -
    show "limit s' = limit t" using vf(4) limit_cong[of s' v] by (simp add: s'_def set_node_def)
    then show "stock s' = stock t" using vf by (intro stock_cong) (simp_all add: s'_def set_node_def)
  qed
  have "Node_Copy pid s = Inr (q, s')" using c vf(1) using mt(2) by (simp add: Node_Copy_def update_tx_def s'_def)
  moreover have "page_inv (insert q (L - {pid})) s'" using inv_v by (simp add: s'_def set_node_def page_inv_def map_inv_def)
  moreover have "paged s s'"
  proof (rule paged_trans[OF a(5)], rule pagedI)
    show "restamped t (nodes s')" using mt vf(2) a(6) by (simp add: s'_def set_node_def restamped_def)
    show "own_pending t (pending_map s')" using pm by (simp add: s'_def set_node_def u_def own_pending_def)
    show "taken t (free_map s') (alloc_records s')" using pm by (simp add: s'_def set_node_def u_def)
    show "grown t (update_meta s')" using pm by (simp add: s'_def set_node_def u_def)
    show "mapped t s'" using pm by (simp add: s'_def set_node_def u_def)
  qed (simp add: s'_def set_node_def pm u_def)
  moreover have "nodes s' = (nodes s)(q := (nodes s pid)\<lparr>last_modified_txid := txid m\<rparr>)" "stock s' = stock s - {q}"
    using vf(2) ls a(3) by (auto simp: s'_def set_node_def fun_eq_iff)
  ultimately show thesis using that a(2,7,8) m ls by metis
qed


section \<open>Copying a path\<close>

text \<open>
  The state of a transaction that owns the pages \<open>L\<close> and has at least \<open>n\<close> pages to allocate.
\<close>

definition tx_pages :: "PageId set \<Rightarrow> nat \<Rightarrow> 'a pager_db_scheme \<Rightarrow> bool" where
  "tx_pages L n s \<longleftrightarrow> page_inv L s \<and> tx_open s \<and> limit s \<le> kPageMaxCount \<and> n \<le> card (stock s)"

text \<open>The page belongs to an earlier version.\<close>

definition needed :: "('w, 'a) tx_db_scheme \<Rightarrow> PageId \<Rightarrow> bool" where
  "needed s q \<longleftrightarrow> CopyNeeded (last_modified_txid (nodes s q)) s = Inr True"

text \<open>A step of the transaction leaves every page alone that an earlier version needs and that is not free.\<close>

definition spares :: "('w, 'a) tx_db_scheme \<Rightarrow> ('w, 'a) tx_db_scheme \<Rightarrow> bool" where
  "spares s s' \<longleftrightarrow> (\<forall>q. q \<notin> stock s \<longrightarrow> needed s q \<longrightarrow> nodes s' q = nodes s q)"

lemma CopyNeeded_returns: "tx_open s \<Longrightarrow> CopyNeeded (last_modified_txid (nodes s q)) s = Inr (needed s q)"
  by (auto simp: needed_def CopyNeeded_def tx_open_def update_tx_def)

lemma tx_pages_set_node: "tx_pages L n s \<Longrightarrow> tx_pages L n (set_node pid m s)"
  using limit_set_node[of pid m s] stock_set_node[of pid m s]
  by (simp add: tx_pages_def set_node_def page_inv_def map_inv_def tx_open_def)

lemma tx_running: "tx_pages L n s \<Longrightarrow> \<exists>x. running s = Some x"
  by (auto simp: tx_pages_def tx_open_def)

lemma Node_Copy_tx:
  fixes s :: "('w, 'a) tx_db_scheme"
  assumes "tx_pages L (Suc n) s" "pid \<in> L"
  obtains q s' x where "Node_Copy pid s = Inr (q, s')" "q \<in> stock s" "tx_pages (insert q (L - {pid})) n s'"
    "stock s' \<subseteq> stock s" "paged s s'"
    "nodes s' = (nodes s)(q := (nodes s pid)\<lparr>last_modified_txid := x\<rparr>)" "q < kPageMaxCount" "\<not> needed s' q"
proof -
  have a: "page_inv L s" "tx_open s" "stock s \<noteq> {}" "limit s \<le> kPageMaxCount" "Suc n \<le> card (stock s)"
    using assms(1) by (auto simp: tx_pages_def)
  obtain q s' m where c: "Node_Copy pid s = Inr (q, s')" "q \<in> stock s"
    "stock s' = stock s - {q}" "page_inv (insert q (L - {pid})) s'" "paged s s'"
    "nodes s' = (nodes s)(q := (nodes s pid)\<lparr>last_modified_txid := txid m\<rparr>)" "update_meta s = Some m" "q < kPageMaxCount" "limit s' \<le> kPageMaxCount"
    by (rule Node_Copy_reuses[OF a(1-4) assms(2)])
  have "tx_pages (insert q (L - {pid})) n s'"
    using a c(2-5,9) paged_fields[OF c(5)] by (simp add: tx_pages_def)
  moreover have "\<not> needed s' q"
    using c(5,6,7) paged_CopyNeeded[OF c(5)] by (simp add: needed_def CopyNeeded_def update_tx_def)
  ultimately show thesis using that c by blast
qed

lemma copied_views:
  assumes "nodes s' q = (nodes s pid)\<lparr>last_modified_txid := x\<rparr>" "pg_size s' = pg_size s" "q < kPageMaxCount" "inline_node s pid"
  shows "inline_node s' q" "leaf_view s pid es \<Longrightarrow> leaf_view s' q es" "branch_view s pid ks \<Longrightarrow> branch_view s' q ks"
    "kid_page (nodes s' q) i = kid_page (nodes s pid) i"
proof -
  have "layout (pg_size s) {..<node_count (nodes s pid)} (nodes s' q) = layout (pg_size s) {..<node_count (nodes s pid)} (nodes s pid)"
    by (rule layout_cong) (simp_all add: assms(1))
  then show "inline_node s' q" using assms by (simp add: inline_node_def wf_node_def)
  have "GetKey q i s' = GetKey pid i s" "GetValue q i s' = GetValue pid i s" if "i < node_count (nodes s pid)" for i
    using assms that by (simp_all add: inline_node_def GetKey_def GetValue_def GetRecord_def Let_def)
  then show "leaf_view s pid es \<Longrightarrow> leaf_view s' q es" "branch_view s pid ks \<Longrightarrow> branch_view s' q ks"
    using assms(1,3) by (auto simp: leaf_view_def branch_view_def IsLeaf_def IsBranch_def)
  show "kid_page (nodes s' q) i = kid_page (nodes s pid) i" using assms(1) by (simp add: kid_page_def)
qed

lemma relink_branch:
  assumes "branch_view s pid ks" "inline_node s pid" "i \<le> length ks" "c \<noteq> kPageInvalidId"
  obtains n' where "relink pid i c s = Inr (set_node pid n' s)" "branch_view (set_node pid n' s) pid ks" "inline_node (set_node pid n' s) pid"
    "\<forall>j \<le> length ks. kid_page n' j = (if j = i then c else kid_page (nodes s pid) j)"
    "last_modified_txid n' = last_modified_txid (nodes s pid)"
proof -
  define n where "n = nodes s pid"
  have br: "IsBranch n" "\<not> IsLeaf n" "node_count n = length ks" using assms(1) by (auto simp: branch_view_def IsBranch_def IsLeaf_def n_def)
  define n' where "n' = (if i = node_count n then n\<lparr>tail_child := c\<rparr>
    else n\<lparr>slots := (slots n)(i := (slots n i)\<lparr>child_or_size := c\<rparr>)\<rparr>)"
  have "SetLeftChild i c n = Inr n'" using assms(3) br(3) by (simp add: SetLeftChild_def n'_def)
  then have r: "relink pid i c s = Inr (set_node pid n' s)" using br(1) assms(4) by (simp add: relink_def on_node_def n_def)
  have f: "node_count n' = node_count n" "node_type n' = node_type n" "records n' = records n" "last_modified_txid n' = last_modified_txid n"
    "data_offset n' = data_offset n" "space_used n' = space_used n"
    "\<And>j. key_size (slots n' j) = key_size (slots n j)" "\<And>j. record_offset (slots n' j) = record_offset (slots n j)"
    "\<And>j. is_overflow_pages (slots n' j) = is_overflow_pages (slots n j)"
    by (simp_all add: n'_def)
  have "layout (pg_size s) {..<node_count n} n' = layout (pg_size s) {..<node_count n} n"
    using br(2) f by (intro layout_cong) (simp_all add: raw_size_def IsLeaf_def)
  then have "inline_node (set_node pid n' s) pid" using assms(2) f by (simp add: inline_node_def wf_node_def n_def)
  moreover have "GetKey pid j (set_node pid n' s) = GetKey pid j s" if "j < node_count n" for j
    using assms(2) f that by (simp add: inline_node_def GetKey_def GetRecord_def Let_def n_def)
  then have "branch_view (set_node pid n' s) pid ks" using assms(1) f by (simp add: branch_view_def IsBranch_def n_def)
  moreover have "\<forall>j \<le> length ks. kid_page n' j = (if j = i then c else kid_page (nodes s pid) j)"
    using br(3) by (auto simp: kid_page_def n'_def n_def)
  ultimately show thesis using that r f(4) by (simp add: n_def)
qed

lemma stack_at_list: "stack_inv n st \<Longrightarrow> i < length (stack_list st) \<Longrightarrow> stack_at st i = Inr (stack_list st ! i)"
  by (auto simp: stack_inv_def stack_list_def stack_at_def)

lemma stack_set_at_list:
  assumes "stack_inv n st" "i < length (stack_list st)"
  obtains st' where "stack_set_at i v st = Inr st'" "stack_inv n st'" "stack_list st' = (stack_list st)[i := v]"
  using assms by (auto simp: stack_inv_def stack_list_def stack_set_at_def take_update_swap)

text \<open>One round of the loop.\<close>

lemma copy_path_round:
  fixes s :: "('w, 'a) tx_db_scheme"
  assumes "iter_wf it" "trail it = xs @ (pid, i) # ys" "tx_pages L (Suc n) s" "pid \<in> L" "pid < kPageMaxCount"
  shows "\<not> needed s pid \<Longrightarrow> copy_path (Suc (length xs)) lower root it s = bind_res (relink pid i lower s) (\<lambda>s1. Inr (root, it, s1))"
    "needed s pid \<Longrightarrow> Node_Copy pid s = Inr (q, s1) \<Longrightarrow> \<exists>it1. copy_path (Suc (length xs)) lower root it s =
        bind_res (relink q i lower s1) (copy_path (length xs) q root it1) \<and> iter_wf it1 \<and> trail it1 = xs @ (q, i) # ys \<and>
        status it1 = status it \<and> it_btree it1 = it_btree it"
proof -
  have wf: "stack_inv 32 (path it)" using assms(1) by (simp add: iter_wf_def)
  have at: "stack_at (path it) (length xs) = Inr (pid, i)" using stack_at_list[OF wf, of "length xs"] assms(2) by simp
  have cn: "CopyNeeded (last_modified_txid (nodes s pid)) s = Inr (needed s pid)"
    using assms(3) CopyNeeded_returns by (auto simp: tx_pages_def)
  show "\<not> needed s pid \<Longrightarrow> copy_path (Suc (length xs)) lower root it s = bind_res (relink pid i lower s) (\<lambda>s1. Inr (root, it, s1))"
    using at cn Reference_ok[OF assms(5), of s] by simp
  assume nd: "needed s pid" and cp: "Node_Copy pid s = Inr (q, s1)"
  obtain st' where st': "stack_set_at (length xs) (q, i) (path it) = Inr st'" "stack_inv 32 st'"
    "stack_list st' = (trail it)[length xs := (q, i)]"
    by (rule stack_set_at_list[OF wf, of "length xs"]) (use assms(2) in auto)
  then have "copy_path (Suc (length xs)) lower root it s = bind_res (relink q i lower s1) (copy_path (length xs) q root (it\<lparr>path := st'\<rparr>))"
    using at cn cp nd Reference_ok[OF assms(5), of s] by simp
  moreover have "iter_wf (it\<lparr>path := st'\<rparr>)" "trail (it\<lparr>path := st'\<rparr>) = xs @ (q, i) # ys"
    using st' assms(2) by (simp_all add: iter_wf_def)
  ultimately show "\<exists>it1. copy_path (Suc (length xs)) lower root it s = bind_res (relink q i lower s1) (copy_path (length xs) q root it1) \<and>
      iter_wf it1 \<and> trail it1 = xs @ (q, i) # ys \<and> status it1 = status it \<and> it_btree it1 = it_btree it"
    by (intro exI[of _ "it\<lparr>path := st'\<rparr>"]) simp
qed

declare copy_path.simps(2) [simp del]

text \<open>A branch page over subtrees of which number \<open>i\<close> has moved to the page \<open>c\<close>.\<close>

lemma owns_moved_kid:
  assumes "branch_view u r (map snd ts)" "inline_node u r"
    "\<forall>j \<le> length ts. kid_page (nodes u r) j = (if j = i then c else g j)"
    "owns u (kid ts t i) c C" "\<forall>j \<le> length ts. j \<noteq> i \<longrightarrow> owns u (kid ts t j) (g j) (Q j)" "apart r (length ts) (Q(i := C))"
  shows "owns u (BNode ts t) r (insert r (\<Union>j \<in> {..length ts}. (Q(i := C)) j))"
  using assms by (intro owns_branchI[OF assms(1,2) refl assms(6)]) auto

text \<open>The pages of \<open>L\<close> that keep their content: those outside of \<open>P\<close> and those of earlier versions.\<close>

definition kept :: "PageId set \<Rightarrow> ('w, 'a) tx_db_scheme \<Rightarrow> ('w, 'a) tx_db_scheme \<Rightarrow> bool" where
  "kept P s s' \<longleftrightarrow> (\<forall>q. q \<notin> stock s \<longrightarrow> q \<notin> P \<or> needed s q \<longrightarrow> nodes s' q = nodes s q)"

lemma needed_cong: "paged s s' \<Longrightarrow> nodes s' q = nodes s q \<Longrightarrow> needed s' q = needed s q"
  using paged_CopyNeeded[of s s'] by (simp add: needed_def)

text \<open>A page of the running transaction is below a page of the running transaction.\<close>

function fresh_up :: "('w, 'a) tx_db_scheme \<Rightarrow> bt \<Rightarrow> PageId \<Rightarrow> bool" where
  "fresh_up s (BLeaf es) pid \<longleftrightarrow> True"
| "fresh_up s (BNode ts t) pid \<longleftrightarrow> (\<forall>i \<le> length ts. (needed s pid \<longrightarrow> needed s (kid_page (nodes s pid) i)) \<and>
     fresh_up s (kid ts t i) (kid_page (nodes s pid) i))"
  by pat_completeness auto
termination by (relation "measure (\<lambda>(s, t, pid). size t)") (auto dest: kid_size)

declare fresh_up.simps(2) [simp del]

lemma fresh_branchI:
  "\<not> needed s pid \<Longrightarrow> (\<And>i. i \<le> length ts \<Longrightarrow> fresh_up s (kid ts t i) (kid_page (nodes s pid) i)) \<Longrightarrow> fresh_up s (BNode ts t) pid"
  by (simp add: fresh_up.simps(2))

lemma fresh_frame:
  assumes "fresh_up s t pid" "owns s t pid P" "\<forall>q \<in> P. nodes s' q = nodes s q" "paged s s'"
  shows "fresh_up s' t pid"
  using assms(1-3)
proof (induction t arbitrary: pid P rule: bt_kid_induct)
  case (Branch ts t)
  obtain Q where q: "P = insert pid (\<Union>i \<in> {..length ts}. Q i)" "\<forall>i \<le> length ts. owns s (kid ts t i) (kid_page (nodes s pid) i) (Q i)"
    by (rule owns_branchE[OF Branch.prems(2)])
  have n: "nodes s' pid = nodes s pid" using Branch.prems(3) q(1) by simp
  have nd: "needed s' (kid_page (nodes s pid) i) = needed s (kid_page (nodes s pid) i)" if "i \<le> length ts" for i
  proof (rule needed_cong[OF assms(4)])
    show "nodes s' (kid_page (nodes s pid) i) = nodes s (kid_page (nodes s pid) i)"
      using Branch.prems(3) q owns_root that by fastforce
  qed
  have "fresh_up s' (kid ts t i) (kid_page (nodes s pid) i)" if "i \<le> length ts" for i
    by (rule Branch.IH[OF that, of _ "Q i"]) (use Branch.prems q that in \<open>auto simp: fresh_up.simps(2)\<close>)
  then show ?case using Branch.prems(1) n nd needed_cong[OF assms(4) n] by (simp add: fresh_up.simps(2))
qed simp

lemma path_head: "path_to s t pid p \<Longrightarrow> fst (hd p) = pid"
  by (cases t; cases p) auto

lemma path_pages: "path_to s t pid p \<Longrightarrow> owns s t pid P \<Longrightarrow> fst ` set p \<subseteq> P"
proof (induction s t pid p arbitrary: P rule: path_to.induct)
  case (3 s ts t pid q i p)
  obtain Q where q: "P = insert pid (\<Union>i \<in> {..length ts}. Q i)" "\<forall>i \<le> length ts. owns s (kid ts t i) (kid_page (nodes s pid) i) (Q i)"
    by (rule owns_branchE[OF "3.prems"(2)])
  then have "fst ` set p \<subseteq> Q i" "i \<le> length ts" using 3 by auto
  then show ?case using q(1) "3.prems"(1) by auto
qed (auto simp: owns_leaf)

lemma path_page: "path_to s t pid p \<Longrightarrow> owns s t pid P \<Longrightarrow> fst (last p) \<in> P"
  using path_pages[of s t pid p P] path_nonempty[of s t pid p] last_in_set by blast

text \<open>A branch page of the running transaction over a subtree that was copied and others that were not.\<close>

lemma fresh_moved_kid:
  assumes "owns s2 (kid ts t i) c C" "path_to s2 (kid ts t i) c p2" "fresh_up s2 (kid ts t i) c" "\<forall>x \<in> set p2. \<not> needed s2 (fst x)"
    "\<forall>j \<le> length ts. j \<noteq> i \<longrightarrow> owns s2 (kid ts t j) (g j) (Q j) \<and> fresh_up s2 (kid ts t j) (g j)"
    "paged s2 u" "\<forall>q \<in> C. nodes u q = nodes s2 q" "\<forall>j \<le> length ts. j \<noteq> i \<longrightarrow> (\<forall>q \<in> Q j. nodes u q = nodes s2 q)"
    "\<forall>j \<le> length ts. kid_page (nodes u r) j = (if j = i then c else g j)" "\<not> needed u r"
  shows "fresh_up u (BNode ts t) r \<and> (\<forall>x \<in> set ((r, k) # p2). \<not> needed u (fst x))"
proof -
  have "fresh_up u (kid ts t j) (kid_page (nodes u r) j)" if "j \<le> length ts" for j
    using fresh_frame[OF assms(3,1,7,6)] fresh_frame[of s2 "kid ts t j" "g j" "Q j" u] assms(5,6,8,9) that by (cases "j = i") auto
  then have "fresh_up u (BNode ts t) r" using assms(10) by (intro fresh_branchI)
  moreover have "needed u (fst x) = needed s2 (fst x)" if "x \<in> set p2" for x
    using needed_cong[OF assms(6)] assms(7) path_pages[OF assms(2,1)] that by blast
  ultimately show ?thesis using assms(4,10) by auto
qed

text \<open>What the loop leaves of the subtree \<open>t\<close> with the pages \<open>P\<close> under the path \<open>p\<close>.\<close>

definition recopied ::
    "('w, 'a) tx_db_scheme \<Rightarrow> PageId set \<Rightarrow> PageId set \<Rightarrow> bt \<Rightarrow> nat \<Rightarrow> (PageId \<times> nat) list \<Rightarrow> (PageId \<times> nat) list \<Rightarrow> BTreeIterator \<Rightarrow>
     PageId \<Rightarrow> PageId set \<Rightarrow> PageId set \<Rightarrow> BTreeIterator \<Rightarrow> ('w, 'a) tx_db_scheme \<Rightarrow> (PageId \<times> nat) list \<Rightarrow> bool" where
  "recopied s L P t n xs p it pid' P' L' it' s' p' \<longleftrightarrow>
     owns s' t pid' P' \<and> tx_pages L' n s' \<and> paged s s' \<and> stock s' \<subseteq> stock s \<and>
     (iter_wf it' \<and> status it' = status it \<and> it_btree it' = it_btree it) \<and> trail it' = xs @ p' \<and>
     path_to s' t pid' p' \<and> map snd p' = map snd p \<and>
     P' \<subseteq> L' \<and> L - P \<subseteq> L' \<and> P' \<inter> (L - P) = {} \<and> kept P s s' \<and> \<not> needed s' (fst (last p')) \<and>
     (\<exists>x. nodes s' (fst (last p')) = (nodes s (fst (last p)))\<lparr>last_modified_txid := x\<rparr>) \<and>
     (fresh_up s t (fst (hd p)) \<longrightarrow> fresh_up s' t pid' \<and> (\<forall>x \<in> set p'. \<not> needed s' (fst x)) \<and> (needed s (fst (hd p)) \<longrightarrow> pid' \<noteq> fst (hd p)))"

lemma copy_path_leaf:
  fixes s :: "('w, 'a) tx_db_scheme"
  assumes "owns s (BLeaf es) pid P" "P \<subseteq> L" "tx_pages L (Suc n) s" "iter_wf it" "trail it = xs @ [(pid, i)]" "i \<le> length es"
  shows "\<exists>pid' P' L' it' s' p'. recopied s L P (BLeaf es) n xs [(pid, i)] it pid' P' L' it' s' p' \<and>
    copy_path (Suc (length xs)) lower root it s = (if pid' = pid then Inr (root, it', s') else copy_path (length xs) pid' root it' s')"
proof -
  have v: "P = {pid}" "leaf_view s pid es" "inline_node s pid" "pid < kPageMaxCount" "pid \<in> L" "\<not> IsBranch (nodes s pid)"
    using assms(1,2) by (auto simp: owns_leaf leaf_view_def IsLeaf_def IsBranch_def)
  note round = copy_path_round[OF assms(4,5,3) v(5,4)]
  show ?thesis
  proof (cases "needed s pid")
    case False
    then have "copy_path (Suc (length xs)) lower root it s = Inr (root, it, s)" using round(1) v(6) by (simp add: relink_def)
    moreover have "recopied s L P (BLeaf es) n xs [(pid, i)] it pid P L it s [(pid, i)]"
      using False assms by (auto simp: recopied_def tx_pages_def kept_def intro!: exI[of _ "last_modified_txid (nodes s pid)"])
    ultimately show ?thesis by fastforce
  next
    case True
    obtain q s1 x where c: "Node_Copy pid s = Inr (q, s1)" "q \<in> stock s" "tx_pages (insert q (L - {pid})) n s1"
      "stock s1 \<subseteq> stock s" "paged s s1"
      "nodes s1 = (nodes s)(q := (nodes s pid)\<lparr>last_modified_txid := x\<rparr>)" "q < kPageMaxCount" "\<not> needed s1 q"
      by (rule Node_Copy_tx[OF assms(3) v(5)])
    have qL: "q \<notin> L" using c(2) assms(3) stock_owned by (auto simp: tx_pages_def)
    have nq: "nodes s1 q = (nodes s pid)\<lparr>last_modified_txid := x\<rparr>" using c(6) by simp
    note cv = copied_views[OF nq paged_fields(1)[OF c(5)] c(7) v(3)]
    obtain it1 where it1: "copy_path (Suc (length xs)) lower root it s = bind_res (relink q i lower s1) (copy_path (length xs) q root it1)"
      "iter_wf it1" "trail it1 = xs @ [(q, i)]" "status it1 = status it" "it_btree it1 = it_btree it"
      using round(2)[OF True c(1)] by blast
    have "relink q i lower s1 = Inr s1" using v(6) nq by (simp add: relink_def IsBranch_def)
    then have "copy_path (Suc (length xs)) lower root it s = copy_path (length xs) q root it1 s1" using it1(1) by simp
    moreover have "kept P s s1" using c(2,6) by (auto simp: kept_def)
    then have "recopied s L P (BLeaf es) n xs [(pid, i)] it q {q} (insert q (L - {pid})) it1 s1 [(q, i)]"
      using it1 c cv(1) cv(2)[OF v(2)] v(1,5) qL assms(6) by (auto simp: recopied_def owns_leaf)
    ultimately show ?thesis using qL v(5) by fastforce
  qed
qed

text \<open>
  The state after the loop has passed the subtree number \<open>i\<close> of a branch: the other subtrees are
  where they were.
\<close>

lemma recopied_kid:
  fixes s :: "('w, 'a) tx_db_scheme"
  assumes "owns s (BNode ts t) pid P" "P \<subseteq> L" "i \<le> length ts" "page_inv L s"
    and Q: "P = insert pid (\<Union>i \<in> {..length ts}. Q i)" "apart pid (length ts) Q"
      "\<forall>i \<le> length ts. owns s (kid ts t i) (kid_page (nodes s pid) i) (Q i)"
    and r: "recopied s L (Q i) (kid ts t i) (Suc n) (xs @ [(pid, i)]) p it c C L2 it2 s2 p2"
  shows "nodes s2 pid = nodes s pid" "apart pid (length ts) (Q(i := C))"
    "\<forall>j \<le> length ts. j \<noteq> i \<longrightarrow> owns s2 (kid ts t j) (kid_page (nodes s pid) j) (Q j)"
    "insert pid (\<Union>j \<in> {..length ts}. (Q(i := C)) j) \<subseteq> L2" "L - P \<subseteq> L2"
    "insert pid (\<Union>j \<in> {..length ts}. (Q(i := C)) j) \<inter> (L - P) = {}" "kept P s s2" "needed s2 pid = needed s pid"
    "\<forall>q. q \<in> stock s2 \<longrightarrow> q \<notin> L \<and> q \<notin> L2"
    "fresh_up s (BNode ts t) pid \<Longrightarrow> \<forall>j \<le> length ts. j \<noteq> i \<longrightarrow> fresh_up s2 (kid ts t j) (kid_page (nodes s pid) j)"
proof -
  have f: "paged s s2" "C \<subseteq> L2" "L - Q i \<subseteq> L2" "C \<inter> (L - Q i) = {}" "kept (Q i) s s2" "tx_pages L2 (Suc n) s2"
    "stock s2 \<subseteq> stock s"
    using r by (auto simp: recopied_def)
  have sub: "Q i \<subseteq> P" "pid \<in> L - Q i" using Q assms(2,3) by (auto simp: apart_def)
  have oth: "Q j \<subseteq> L - Q i" if "j \<le> length ts" "j \<noteq> i" for j
  proof -
    have "Q j \<subseteq> P" using Q(1) that by auto
    moreover have "Q j \<inter> Q i = {}" using Q(2) that assms(3) by (simp add: apart_def)
    ultimately show ?thesis using assms(2) by blast
  qed
  have same: "nodes s2 q = nodes s q" if "q \<in> L - Q i" for q using f(5) that stock_owned[OF assms(4), of q] by (simp add: kept_def)
  show n: "nodes s2 pid = nodes s pid" using same sub(2) by blast
  show "needed s2 pid = needed s pid" by (rule needed_cong[OF f(1) n])
  have "pid \<notin> (Q(i := C)) j" if "j \<le> length ts" for j using that Q(2) sub(2) f(4) by (auto simp: apart_def)
  moreover have "C \<inter> Q j = {}" if "j \<le> length ts" "j \<noteq> i" for j using oth[OF that] f(4) by blast
  then have "(Q(i := C)) j \<inter> (Q(i := C)) k = {}" if "j \<le> length ts" "k \<le> length ts" "j \<noteq> k" for j k
    using that Q(2) by (cases "j = i"; cases "k = i") (auto simp: apart_def)
  ultimately show "apart pid (length ts) (Q(i := C))" unfolding apart_def by blast
  show "\<forall>j \<le> length ts. j \<noteq> i \<longrightarrow> owns s2 (kid ts t j) (kid_page (nodes s pid) j) (Q j)"
  proof (intro allI impI)
    fix j assume j: "j \<le> length ts" "j \<noteq> i"
    have "owns s (kid ts t j) (kid_page (nodes s pid) j) (Q j)" using Q(3) j(1) by blast
    then show "owns s2 (kid ts t j) (kid_page (nodes s pid) j) (Q j)"
      by (rule owns_frame) (use same oth[OF j] paged_fields(1)[OF f(1)] in auto)
  qed
  show "\<forall>j \<le> length ts. j \<noteq> i \<longrightarrow> fresh_up s2 (kid ts t j) (kid_page (nodes s pid) j)" if fr: "fresh_up s (BNode ts t) pid"
  proof (intro allI impI)
    fix j assume j: "j \<le> length ts" "j \<noteq> i"
    have "fresh_up s (kid ts t j) (kid_page (nodes s pid) j)" using fr j(1) by (simp add: fresh_up.simps(2))
    then show "fresh_up s2 (kid ts t j) (kid_page (nodes s pid) j)"
      by (rule fresh_frame[OF _ _ _ f(1)]) (use Q(3) j(1) same oth[OF j] in auto)
  qed
  show "insert pid (\<Union>j \<in> {..length ts}. (Q(i := C)) j) \<subseteq> L2" using sub(2) f(2,3) oth by (auto split: if_splits)
  show "L - P \<subseteq> L2" using sub(1) f(3) by blast
  have "(Q(i := C)) j \<inter> (L - P) = {}" if "j \<le> length ts" for j using Q(1) sub(1) f(4) that by auto
  moreover have "pid \<in> P" using Q(1) by blast
  ultimately show "insert pid (\<Union>j \<in> {..length ts}. (Q(i := C)) j) \<inter> (L - P) = {}" by blast
  show "kept P s s2" using f(5) sub(1) by (auto simp: kept_def)
  have "page_inv L2 s2" using f(6) by (simp add: tx_pages_def)
  moreover have "q \<notin> L" if "q \<in> stock s2" for q using that f(7) stock_owned[OF assms(4)] by blast
  ultimately show "\<forall>q. q \<in> stock s2 \<longrightarrow> q \<notin> L \<and> q \<notin> L2" using stock_owned by blast
qed

lemma relinked:
  assumes "branch_view u r (map snd ts)" "inline_node u r" "\<forall>j \<le> length ts. kid_page (nodes u r) j = g j" "i \<le> length ts"
    "owns u (kid ts t i) c C" "path_to u (kid ts t i) c p" "\<forall>j \<le> length ts. j \<noteq> i \<longrightarrow> owns u (kid ts t j) (g j) (Q j)"
    "apart r (length ts) (Q(i := C))"
  obtains n' where "relink r i c u = Inr (set_node r n' u)" "last_modified_txid n' = last_modified_txid (nodes u r)"
    "owns (set_node r n' u) (BNode ts t) r (insert r (\<Union>j \<in> {..length ts}. (Q(i := C)) j))"
    "path_to (set_node r n' u) (BNode ts t) r ((r, i) # p)" "\<forall>j \<le> length ts. kid_page n' j = (if j = i then c else g j)"
proof -
  obtain n' where n': "relink r i c u = Inr (set_node r n' u)" "branch_view (set_node r n' u) r (map snd ts)"
    "inline_node (set_node r n' u) r" "\<forall>j \<le> length ts. kid_page n' j = (if j = i then c else kid_page (nodes u r) j)"
    "last_modified_txid n' = last_modified_txid (nodes u r)"
    by (rule relink_branch[OF assms(1,2), of i c]) (use assms(4) tree_page_valid[OF owns_tree[OF assms(5)]] in auto)
  let ?u = "set_node r n' u"
  have out: "r \<notin> C" "\<forall>j \<le> length ts. j \<noteq> i \<longrightarrow> r \<notin> Q j" using assms(4,8) by (auto simp: apart_def split: if_splits)
  have C: "\<forall>q \<in> C. nodes ?u q = nodes u q" using out(1) by (auto simp: set_node_def)
  have "owns ?u (BNode ts t) r (insert r (\<Union>j \<in> {..length ts}. (Q(i := C)) j))"
  proof (rule owns_moved_kid[OF n'(2,3)])
    show "\<forall>j \<le> length ts. kid_page (nodes ?u r) j = (if j = i then c else g j)" using n'(4) assms(3) by simp
    show "owns ?u (kid ts t i) c C" by (rule owns_frame[OF assms(5) C]) simp
    show "\<forall>j \<le> length ts. j \<noteq> i \<longrightarrow> owns ?u (kid ts t j) (g j) (Q j)"
    proof (intro allI impI)
      fix j assume j: "j \<le> length ts" "j \<noteq> i"
      then have "\<forall>q \<in> Q j. nodes ?u q = nodes u q" using out(2) by (auto simp: set_node_def)
      then show "owns ?u (kid ts t j) (g j) (Q j)" using owns_frame[of u "kid ts t j" "g j" "Q j" ?u] assms(7) j by simp
    qed
  qed (rule assms(8))
  moreover have "path_to ?u (kid ts t i) c p" by (rule path_to_frame[OF assms(6,5) C])
  then have "path_to ?u (BNode ts t) r ((r, i) # p)" using n'(4) assms(4) by simp
  moreover have "\<forall>j \<le> length ts. kid_page n' j = (if j = i then c else g j)" using n'(4) assms(3) by simp
  ultimately show thesis using that n'(1,5) by blast
qed

lemma recopied_branch:
  fixes s :: "('w, 'a) tx_db_scheme"
  assumes own: "owns s (BNode ts t) pid P" "P \<subseteq> L" "i \<le> length ts" "page_inv L s"
    and Q: "P = insert pid (\<Union>i \<in> {..length ts}. Q i)" "apart pid (length ts) Q"
      "\<forall>i \<le> length ts. owns s (kid ts t i) (kid_page (nodes s pid) i) (Q i)"
    and r: "recopied s L (Q i) (kid ts t i) (Suc n) (xs @ [(pid, i)]) p it c C L2 it2 s2 p2"
    and pth: "path_to s (kid ts t i) (kid_page (nodes s pid) i) p"
  shows "\<exists>pid' P' L' it' s' p'. recopied s L P (BNode ts t) n xs ((pid, i) # p) it pid' P' L' it' s' p' \<and>
    (if c = kid_page (nodes s pid) i then Inr (root, it2, s2) else copy_path (Suc (length xs)) c root it2 s2) =
      (if pid' = pid then Inr (root, it', s') else copy_path (length xs) pid' root it' s')"
proof -
  note k = recopied_kid[OF own Q r]
  have rf: "owns s2 (kid ts t i) c C" "tx_pages L2 (Suc n) s2" "paged s s2" "stock s2 \<subseteq> stock s" "iter_wf it2"
    "status it2 = status it" "it_btree it2 = it_btree it" "trail it2 = xs @ (pid, i) # p2" "path_to s2 (kid ts t i) c p2"
    "map snd p2 = map snd p" "\<not> needed s2 (fst (last p2))" "p2 \<noteq> []" "p \<noteq> []"
    "\<exists>x. nodes s2 (fst (last p2)) = (nodes s (fst (last p)))\<lparr>last_modified_txid := x\<rparr>"
    using r path_nonempty by (auto simp: recopied_def)
  have fk: "fresh_up s2 (kid ts t i) c" "\<forall>x \<in> set p2. \<not> needed s2 (fst x)" "needed s pid \<Longrightarrow> c \<noteq> kid_page (nodes s pid) i"
    if fr: "fresh_up s (BNode ts t) pid"
  proof -
    have h: "fst (hd p) = kid_page (nodes s pid) i" by (rule path_head[OF pth])
    have "fresh_up s (kid ts t i) (kid_page (nodes s pid) i)" "needed s pid \<longrightarrow> needed s (kid_page (nodes s pid) i)"
      using fr own(3) by (auto simp: fresh_up.simps(2))
    then show "fresh_up s2 (kid ts t i) c" "\<forall>x \<in> set p2. \<not> needed s2 (fst x)" "needed s pid \<Longrightarrow> c \<noteq> kid_page (nodes s pid) i"
      using r unfolding recopied_def h by blast+
  qed
  have kd: "\<forall>j \<le> length ts. j \<noteq> i \<longrightarrow> owns s2 (kid ts t j) (kid_page (nodes s pid) j) (Q j) \<and> fresh_up s2 (kid ts t j) (kid_page (nodes s pid) j)"
    if "fresh_up s (BNode ts t) pid" using k(3) k(10)[OF that] by blast
  let ?P = "\<lambda>q. insert q (\<Union>j \<in> {..length ts}. (Q(i := C)) j)"
  have bv: "branch_view s2 pid (map snd ts)" "inline_node s2 pid" "pid < kPageMaxCount" "pid \<in> L"
  proof -
    obtain Q' where b: "branch_view s pid (map snd ts)" "inline_node s pid" by (rule owns_branchE[OF own(1)])
    then show "branch_view s2 pid (map snd ts)" "inline_node s2 pid"
      using inline_cong[OF k(1) paged_fields(1)[OF rf(3)]] by simp_all
    show "pid < kPageMaxCount" "pid \<in> L" using b own(2) Q(1) by (auto simp: branch_view_def)
  qed
  have pL2: "pid \<in> L2" using k(4) by blast
  show ?thesis
  proof (cases "c = kid_page (nodes s pid) i")
    case True
    have "owns s2 (BNode ts t) pid (?P pid)"
      by (rule owns_moved_kid[OF bv(1,2) _ rf(1) k(3,2)]) (use k(1) True in simp)
    moreover have "path_to s2 (BNode ts t) pid ((pid, i) # p2)" using rf(9) k(1) True own(3) by simp
    moreover have "fresh_up s2 (BNode ts t) pid \<and> (\<forall>x \<in> set ((pid, i) # p2). \<not> needed s2 (fst x)) \<and> \<not> needed s pid" if fr: "fresh_up s (BNode ts t) pid"
    proof -
      have "\<not> needed s2 pid" "\<not> needed s pid" using fk(3)[OF fr] True k(8) by auto
      then show ?thesis
        using fresh_moved_kid[OF rf(1,9) fk(1,2)[OF fr] kd[OF fr] paged_refl, of pid i] k(1) True by auto
    qed
    ultimately have rc: "recopied s L P (BNode ts t) n xs ((pid, i) # p) it pid (?P pid) L2 it2 s2 ((pid, i) # p2)"
      using rf k(4-7) by (simp add: recopied_def tx_pages_def)
    show ?thesis by (intro exI conjI, rule rc) (simp add: True)
  next
    case False
    note round = copy_path_round[OF rf(5,8,2) pL2 bv(3), where lower = c and root = root]
    have pC: "pid \<notin> C" "pid \<notin> (\<Union>j \<in> {..length ts}. (Q(i := C)) j)" "fst (last p2) \<in> C"
      using k(2) own(3) path_page[OF rf(9,1)] by (auto simp: apart_def split: if_splits)
    show ?thesis
    proof (cases "needed s2 pid")
      case nn: False
      obtain n' where n': "relink pid i c s2 = Inr (set_node pid n' s2)" "owns (set_node pid n' s2) (BNode ts t) pid (?P pid)"
        "path_to (set_node pid n' s2) (BNode ts t) pid ((pid, i) # p2)" "last_modified_txid n' = last_modified_txid (nodes s2 pid)"
        "\<forall>j \<le> length ts. kid_page n' j = (if j = i then c else kid_page (nodes s pid) j)"
        by (rule relinked[OF bv(1,2) _ own(3) rf(1,9) k(3,2)]) (use k(1) in auto)
      let ?u = "set_node pid n' s2"
      have fr: "nodes ?u q = nodes s2 q" if "q \<noteq> pid" for q using that by (simp add: set_node_def)
      have ps: "paged s2 ?u" by (rule paged_set_node) (simp add: n'(4))
      have pg: "paged s ?u" by (rule paged_trans[OF rf(3) ps])
      have "\<not> needed s pid" "pid \<in> P" using k(8) nn Q(1) by auto
      then have "kept P s ?u" using k(7) fr unfolding kept_def by metis
      moreover have lp: "nodes ?u (fst (last p2)) = nodes s2 (fst (last p2))" by (rule fr) (use pC(1,3) in blast)
      moreover have "needed ?u (fst (last p2)) = needed s2 (fst (last p2))" by (rule needed_cong[OF ps lp])
      moreover have "tx_pages L2 n ?u" using tx_pages_set_node[OF rf(2), of pid n'] by (simp add: tx_pages_def)
      moreover have "stock ?u = stock s2" by simp
      moreover have "fresh_up ?u (BNode ts t) pid \<and> (\<forall>x \<in> set ((pid, i) # p2). \<not> needed ?u (fst x))" if fr: "fresh_up s (BNode ts t) pid"
      proof -
        have "\<not> needed ?u pid" using nn n'(4) paged_CopyNeeded[OF ps] by (simp add: needed_def)
        moreover have "\<forall>q \<in> C. nodes ?u q = nodes s2 q" "\<forall>j \<le> length ts. j \<noteq> i \<longrightarrow> (\<forall>q \<in> Q j. nodes ?u q = nodes s2 q)"
          using pC(1,2) fr by (auto simp: set_node_def split: if_splits)
        ultimately show ?thesis
          using fresh_moved_kid[OF rf(1,9) fk(1,2)[OF fr] kd[OF fr] ps, of pid i] n'(5) by auto
      qed
      ultimately have rc: "recopied s L P (BNode ts t) n xs ((pid, i) # p) it pid (?P pid) L2 it2 ?u ((pid, i) # p2)"
        using rf(4-8,10-14) k(4-6,8) n'(2,3) pg nn by (simp add: recopied_def)
      show ?thesis by (intro exI conjI, rule rc) (simp add: False round(1)[OF nn] n'(1))
    next
      case nd: True
      obtain q s3 x where c: "Node_Copy pid s2 = Inr (q, s3)" "q \<in> stock s2" "tx_pages (insert q (L2 - {pid})) n s3"
        "stock s3 \<subseteq> stock s2" "paged s2 s3"
        "nodes s3 = (nodes s2)(q := (nodes s2 pid)\<lparr>last_modified_txid := x\<rparr>)" "q < kPageMaxCount" "\<not> needed s3 q"
        by (rule Node_Copy_tx[OF rf(2) pL2])
      have qn: "q \<notin> L" "q \<notin> L2" using k(9) c(2) by auto
      have nq: "nodes s3 q = (nodes s2 pid)\<lparr>last_modified_txid := x\<rparr>" using c(6) by simp
      note cv = copied_views[OF nq paged_fields(1)[OF c(5)] c(7) bv(2)]
      have same: "nodes s3 y = nodes s2 y" if "y \<in> L2" for y using c(6) qn(2) that by auto
      have in2: "C \<subseteq> L2" "\<forall>j \<le> length ts. j \<noteq> i \<longrightarrow> Q j \<subseteq> L2" using k(4) own(3) by (auto split: if_splits)
      have kids3: "owns s3 (kid ts t i) c C" "path_to s3 (kid ts t i) c p2"
        "\<forall>j \<le> length ts. j \<noteq> i \<longrightarrow> owns s3 (kid ts t j) (kid_page (nodes s pid) j) (Q j)"
        using owns_frame[OF rf(1)] path_to_frame[OF rf(9,1)] owns_frame[of s2 _ _ _ s3] k(3) in2 same paged_fields(1)[OF c(5)] by blast+
      have ap: "apart q (length ts) (Q(i := C))" using k(2,4) qn(2) by (auto simp: apart_def)
      obtain n' where n': "relink q i c s3 = Inr (set_node q n' s3)" "owns (set_node q n' s3) (BNode ts t) q (?P q)"
        "path_to (set_node q n' s3) (BNode ts t) q ((q, i) # p2)" "last_modified_txid n' = last_modified_txid (nodes s3 q)"
        "\<forall>j \<le> length ts. kid_page n' j = (if j = i then c else kid_page (nodes s pid) j)"
        by (rule relinked[OF cv(3)[OF bv(1)] cv(1) _ own(3) kids3 ap]) (use k(1) cv(4) in auto)
      let ?u = "set_node q n' s3"
      have fr: "nodes ?u y = nodes s2 y" if "y \<noteq> q" for y using that c(6) by (simp add: set_node_def)
      obtain it1 where it1: "copy_path (Suc (length xs)) c root it2 s2 = bind_res (relink q i c s3) (copy_path (length xs) q root it1)"
        "iter_wf it1" "trail it1 = xs @ (q, i) # p2" "status it1 = status it2" "it_btree it1 = it_btree it2"
        using round(2)[OF nd c(1)] by blast
      have ps: "paged s3 ?u" by (rule paged_set_node) (simp add: n'(4))
      have pg: "paged s2 ?u" "paged s ?u" using rf(3) c(5) paged_trans ps by blast+
      have "q \<in> stock s" using c(2) rf(4) by blast
      then have "kept P s ?u" using k(7) fr unfolding kept_def by metis
      moreover have lp: "nodes ?u (fst (last p2)) = nodes s2 (fst (last p2))" by (rule fr) (use pC(3) in2(1) qn(2) in blast)
      moreover have "needed ?u (fst (last p2)) = needed s2 (fst (last p2))" by (rule needed_cong[OF pg(1) lp])
      moreover have "tx_pages (insert q (L2 - {pid})) n ?u" by (rule tx_pages_set_node[OF c(3)])
      moreover have "stock ?u \<subseteq> stock s" using c(4) rf(4) by simp
      moreover have "?P q \<subseteq> insert q (L2 - {pid})" "L - P \<subseteq> insert q (L2 - {pid})" "?P q \<inter> (L - P) = {}"
        using k(4-6) pC(2) qn(1) Q(1) by blast+
      moreover have qp: "q \<noteq> pid" using qn(1) bv(4) by blast
      moreover have "fresh_up ?u (BNode ts t) q \<and> (\<forall>x \<in> set ((q, i) # p2). \<not> needed ?u (fst x))" if fu: "fresh_up s (BNode ts t) pid"
      proof -
        have eq: "\<forall>y \<in> L2. nodes ?u y = nodes s2 y" using fr qn(2) by metis
        have "\<not> needed ?u q" using c(8) n'(4) paged_CopyNeeded[OF ps] by (simp add: needed_def)
        moreover have "\<forall>y \<in> C. nodes ?u y = nodes s2 y" "\<forall>j \<le> length ts. j \<noteq> i \<longrightarrow> (\<forall>y \<in> Q j. nodes ?u y = nodes s2 y)"
          using in2 eq by blast+
        ultimately show ?thesis
          using fresh_moved_kid[OF rf(1,9) fk(1,2)[OF fu] kd[OF fu] pg(1), of q i] n'(5) by auto
      qed
      ultimately have rc: "recopied s L P (BNode ts t) n xs ((pid, i) # p) it q (?P q) (insert q (L2 - {pid})) it1 ?u ((q, i) # p2)"
        using rf(6,7,10-14) n'(2,3) pg(2) it1 by (simp add: recopied_def)
      show ?thesis using False qp it1(1) n'(1) by - (intro exI conjI, rule rc, simp)
    qed
  qed
qed

lemma copy_path_subtree:
  fixes s :: "('w, 'a) tx_db_scheme"
  assumes "owns s t pid P" "P \<subseteq> L" "tx_pages L (n + length p) s" "iter_wf it" "trail it = xs @ p" "path_to s t pid p"
  shows "\<exists>pid' P' L' it' s' p'. recopied s L P t n xs p it pid' P' L' it' s' p' \<and>
    copy_path (length xs + length p) lower root it s = (if pid' = pid then Inr (root, it', s') else copy_path (length xs) pid' root it' s')"
  using assms
proof (induction t arbitrary: pid P n xs p rule: bt_kid_induct)
  case (Leaf es)
  then obtain i where "p = [(pid, i)]" "i \<le> length es" by (cases p) auto
  then show ?case using copy_path_leaf[of s es pid P L n it xs i lower root] Leaf.prems by auto
next
  case (Branch ts t)
  obtain i p2 where p: "p = (pid, i) # p2" "i \<le> length ts" "path_to s (kid ts t i) (kid_page (nodes s pid) i) p2"
    using Branch.prems(6) by (cases p) auto
  obtain Q where Q: "P = insert pid (\<Union>i \<in> {..length ts}. Q i)" "apart pid (length ts) Q"
    "\<forall>i \<le> length ts. owns s (kid ts t i) (kid_page (nodes s pid) i) (Q i)"
    by (rule owns_branchE[OF Branch.prems(1)])
  have "\<exists>c C L2 it2 s2 p2'. recopied s L (Q i) (kid ts t i) (Suc n) (xs @ [(pid, i)]) p2 it c C L2 it2 s2 p2' \<and>
      copy_path (length (xs @ [(pid, i)]) + length p2) lower root it s =
        (if c = kid_page (nodes s pid) i then Inr (root, it2, s2) else copy_path (length (xs @ [(pid, i)])) c root it2 s2)"
    by (rule Branch.IH[OF p(2)]) (use Q p Branch.prems in auto)
  then obtain c C L2 it2 s2 p2' where r: "recopied s L (Q i) (kid ts t i) (Suc n) (xs @ [(pid, i)]) p2 it c C L2 it2 s2 p2'"
    "copy_path (length xs + length p) lower root it s =
       (if c = kid_page (nodes s pid) i then Inr (root, it2, s2) else copy_path (Suc (length xs)) c root it2 s2)"
    using p(1) by auto
  have "page_inv L s" using Branch.prems(3) by (simp add: tx_pages_def)
  from recopied_branch[OF Branch.prems(1,2) p(2) this Q r(1) p(3), of root] show ?case using r(2) p(1) by simp
qed

lemma CopyAllPages_tree:
  fixes s :: "('w, 'a) tx_db_scheme"
  assumes "owns s t root P" "P \<subseteq> L" "tx_pages L (n + length (trail it)) s" "iter_wf it" "path_to s t root (trail it)"
  obtains root' P' L' it' s' where "CopyAllPagesByPath root it s = Inr (root', it', s')"
    "recopied s L P t n [] (trail it) it root' P' L' it' s' (trail it')"
proof -
  have "\<not> iter_Empty it" "stack_size (path it) = length (trail it)"
    using iter_Empty_trail[OF assms(4)] path_nonempty[OF assms(5)] assms(4)
    by (auto simp: stack_size_def iter_wf_def stack_inv_def stack_list_def)
  moreover obtain pid' P' L' it' s' p' where r: "recopied s L P t n [] (trail it) it pid' P' L' it' s' p'"
    "copy_path (length (trail it)) kPageInvalidId root it s = (if pid' = root then Inr (root, it', s') else copy_path 0 pid' root it' s')"
    using copy_path_subtree[OF assms(1-4) _ assms(5), of "[]" kPageInvalidId root] by auto
  ultimately have "CopyAllPagesByPath root it s = Inr (pid', it', s')" by (simp add: CopyAllPagesByPath_def)
  moreover have "trail it' = p'" using r(1) by (simp add: recopied_def)
  ultimately show thesis using that r(1) by simp
qed

end
