(* ===== verification/Atomkv_Leaf_View.thy ===== *)
theory Atomkv_Leaf_View
  imports Atomkv_Tree_Copy Atomkv_Isolation
begin

text \<open>
  Leaf pages as lists of entries: insertion and update of a page without overflow records, with the kind of the
  entry, and the cut of a tree by a path.
\<close>

section \<open>Separators and slots\<close>

lemma ordered_bt_kids:
  "ordered_bt (BNode ts t) \<longleftrightarrow> ts \<noteq> [] \<and> (\<forall>i \<le> length ts. ordered_bt (kid ts t i)) \<and>
     sorted_wrt (<) (map snd ts) \<and> (\<forall>k \<in> set (map snd ts). short_key k) \<and>
     (\<forall>i < length ts. \<forall>j \<le> length ts. \<forall>k \<in> set (bt_keys (kid ts t j)).
        if j \<le> i then k < snd (ts ! i) else snd (ts ! i) \<le> k)"
proof -
  have "(\<forall>x \<in> set ts. ordered_bt (fst x)) \<and> ordered_bt t \<longleftrightarrow> (\<forall>i \<le> length ts. ordered_bt (kid ts t i))"
    by (fastforce simp: kid_def in_set_conv_nth le_less)
  then show ?thesis by auto
qed

lemma slot_for_bounds:
  "j < slot_for ts key \<Longrightarrow> snd (ts ! j) \<le> key"
  "sorted_wrt (<) (map snd ts) \<Longrightarrow> slot_for ts key \<le> j \<Longrightarrow> j < length ts \<Longrightarrow> key < snd (ts ! j)"
proof -
  show "j < slot_for ts key \<Longrightarrow> snd (ts ! j) \<le> key"
    using nth_mem[of j "takeWhile (\<lambda>x. snd x \<le> key) ts"] set_takeWhileD[of _ "\<lambda>x. snd x \<le> key" ts]
    by (auto simp: slot_for_def takeWhile_nth)
  assume a: "sorted_wrt (<) (map snd ts)" "slot_for ts key \<le> j" "j < length ts"
  let ?i = "slot_for ts key"
  have "\<not> snd (ts ! ?i) \<le> key" using a(2,3) nth_length_takeWhile[of "\<lambda>x. snd x \<le> key" ts] by (simp add: slot_for_def)
  moreover have "snd (ts ! ?i) \<le> snd (ts ! j)"
    using sorted_wrt_nth_less[OF a(1), of ?i j] a(2,3) by (cases "?i = j") auto
  ultimately show "key < snd (ts ! j)" by auto
qed

section \<open>The leaf page\<close>

text \<open>A leaf without overflow records shows the entries of its cells.\<close>

definition cell_entry :: "cell \<Rightarrow> entry" where
  "cell_entry c = (take (key_size (fst c)) (snd c), take (value_size (fst c)) (drop (key_size (fst c)) (snd c)), is_bucket (fst c))"

lemma inline_cells: "inline_node s pid \<longleftrightarrow> wf_node (pg_size s) (nodes s pid) \<and> (\<forall>c \<in> set (cells (nodes s pid)). \<not> is_overflow_pages (fst c))"
  by (auto simp: inline_node_def all_set_conv_all_nth cell_at_def)

lemma leaf_view_cells:
  assumes "inline_node s pid"
  shows "leaf_view s pid es \<longleftrightarrow> pid < kPageMaxCount \<and> IsLeaf (nodes s pid) \<and> es = map cell_entry (cells (nodes s pid))"
proof (cases "IsLeaf (nodes s pid)")
  case True
  let ?n = "nodes s pid"
  have wf: "wf_node (pg_size s) ?n" using assms by (simp add: inline_node_def)
  have r: "GetKey pid i s = Inr (fst (cell_entry (cell_at ?n i)))" "GetValue pid i s = Inr (fst (snd (cell_entry (cell_at ?n i))))"
    "is_bucket (slots ?n i) = snd (snd (cell_entry (cell_at ?n i)))" if "i < node_count ?n" for i
    using assms that GetKey_cell[OF wf that] GetValue_cell[OF wf True that]
    by (simp_all add: inline_node_def cell_key_def cell_value_def cell_read_def cell_entry_def cell_at_def)
  show ?thesis
  proof
    assume v: "leaf_view s pid es"
    then have "es = map cell_entry (cells ?n)"
      using r by (intro nth_equalityI) (auto simp: leaf_view_def prod_eq_iff)
    then show "pid < kPageMaxCount \<and> IsLeaf ?n \<and> es = map cell_entry (cells ?n)" using v by (simp add: leaf_view_def)
  qed (use r in \<open>auto simp: leaf_view_def\<close>)
qed (simp add: leaf_view_def)

text \<open>Setting the kind of an entry.\<close>

lemma SetIsBucket_cells:
  assumes "inline_node s pid" "i < node_count (nodes s pid)"
  obtains n' where "on_node pid (SetIsBucket i b) s = Inr (set_node pid n' s)" "inline_node (set_node pid n' s) pid"
    "IsLeaf n' = IsLeaf (nodes s pid)" "last_modified_txid n' = last_modified_txid (nodes s pid)"
    "cells n' = (cells (nodes s pid))[i := ((fst (cells (nodes s pid) ! i))\<lparr>is_bucket := b\<rparr>, snd (cells (nodes s pid) ! i))]"
proof -
  define n where "n = nodes s pid"
  define n' where "n' = n\<lparr>slots := (slots n)(i := (slots n i)\<lparr>is_bucket := b\<rparr>)\<rparr>"
  have f: "node_count n' = node_count n" "IsLeaf n' = IsLeaf n" "last_modified_txid n' = last_modified_txid n"
    "\<And>j. raw_size n' (slots n' j) = raw_size n (slots n j)" "\<And>j. record_offset (slots n' j) = record_offset (slots n j)"
    "\<And>j. is_overflow_pages (slots n' j) = is_overflow_pages (slots n j)" "records n' = records n"
    by (simp_all add: n'_def raw_size_def IsLeaf_def)
  have "on_node pid (SetIsBucket i b) s = Inr (set_node pid n' s)"
    using assms(2) by (simp add: on_node_def SetIsBucket_def n'_def n_def)
  moreover have "layout (pg_size s) {..<node_count n} n' = layout (pg_size s) {..<node_count n} n"
    by (rule layout_cong) (use f in \<open>simp_all add: n'_def\<close>)
  then have "inline_node (set_node pid n' s) pid"
    using assms(1) f by (simp add: inline_node_def wf_node_def n_def)
  moreover have "cells n' = (cells n)[i := ((fst (cells n ! i))\<lparr>is_bucket := b\<rparr>, snd (cells n ! i))]"
    using assms(2) f by (intro nth_equalityI) (auto simp: cell_at_def raw_def nth_list_update n_def[symmetric], auto simp: n'_def)
  ultimately show thesis using that f(2,3) by (simp add: n_def)
qed

lemma set_node_twice [simp]: "set_node pid a (set_node pid b s) = set_node pid a s"
  by (simp add: set_node_def)

lemma cell_entry_new: "cell_entry (leaf_slot False f (length k) (length v)\<lparr>is_bucket := b\<rparr>, k @ v) = (k, v, b)"
  by (simp add: cell_entry_def leaf_slot_def)

lemma inline_view_cells:
  assumes "wf_node (pg_size s) n" "IsLeaf n" "pid < kPageMaxCount" "\<forall>c \<in> set (cells n). \<not> is_overflow_pages (fst c)"
  shows "inline_node (set_node pid n s) pid" "leaf_view (set_node pid n s) pid (map cell_entry (cells n))"
proof -
  show i: "inline_node (set_node pid n s) pid" using assms by (simp add: inline_cells)
  show "leaf_view (set_node pid n s) pid (map cell_entry (cells n))" unfolding leaf_view_cells[OF i] using assms by simp
qed

lemma set_kind_view:
  assumes "wf_node (pg_size s) n" "IsLeaf n" "pid < kPageMaxCount" "\<forall>c \<in> set (cells n). \<not> is_overflow_pages (fst c)"
    "i < node_count n" "cells n ! i = (leaf_slot False f (length k) (length v), k @ v)"
  obtains n' where "on_node pid (SetIsBucket i b) (set_node pid n s) = Inr (set_node pid n' s)" "inline_node (set_node pid n' s) pid"
    "leaf_view (set_node pid n' s) pid ((map cell_entry (cells n))[i := (k, v, b)])" "last_modified_txid n' = last_modified_txid n"
proof -
  note iv = inline_view_cells[OF assms(1-4)]
  have nn: "nodes (set_node pid n s) pid = n" by simp
  obtain n' where n': "on_node pid (SetIsBucket i b) (set_node pid n s) = Inr (set_node pid n' s)" "inline_node (set_node pid n' s) pid"
    "IsLeaf n' = IsLeaf n" "cells n' = (cells n)[i := ((fst (cells n ! i))\<lparr>is_bucket := b\<rparr>, snd (cells n ! i))]"
    "last_modified_txid n' = last_modified_txid n"
    by (rule SetIsBucket_cells[OF iv(1), of i b, unfolded nn set_node_twice]) (use assms(5) in auto)
  have "map cell_entry (cells n') = (map cell_entry (cells n))[i := (k, v, b)]"
    unfolding n'(4) assms(6) fst_conv snd_conv map_update cell_entry_new ..
  then have "leaf_view (set_node pid n' s) pid ((map cell_entry (cells n))[i := (k, v, b)])"
    unfolding leaf_view_cells[OF n'(2)] using n'(3) assms(2,3) by simp
  then show thesis using that n'(1,2,5) by blast
qed

lemma LeafNode_Insert_view:
  assumes "inline_node s pid" "leaf_view s pid es" "i \<le> length es" "0 < length key + length value"
    "length key + length value \<le> (pg_size s - 34) div 2" "fits (pg_size s) (length key + length value) True (nodes s pid)"
  obtains s1 n' where "LeafNode_Insert pid i key value s = Inr (True, s1)" "on_node pid (SetIsBucket i b) s1 = Inr (set_node pid n' s)"
    "inline_node (set_node pid n' s) pid" "leaf_view (set_node pid n' s) pid (insert_at i (key, value, b) es)"
    "last_modified_txid n' = last_modified_txid (nodes s pid)" "s1 = set_node pid (nodes s1 pid) s"
proof -
  have v: "pid < kPageMaxCount" "IsLeaf (nodes s pid)" "es = map cell_entry (cells (nodes s pid))"
    using assms(2) unfolding leaf_view_cells[OF assms(1)] by blast+
  have wf: "wf_node (pg_size s) (nodes s pid)" and no: "\<forall>c \<in> set (cells (nodes s pid)). \<not> is_overflow_pages (fst c)"
    using assms(1) by (simp_all add: inline_cells)
  have i: "i \<le> node_count (nodes s pid)" using assms(3) v(3) by simp
  obtain n1 f where r: "LeafNode_Insert pid i key value s = Inr (True, set_node pid n1 s)" "wf_node (pg_size s) n1" "IsLeaf n1"
    "cells n1 = insert_at i (leaf_slot False f (length key) (length value), key @ value) (cells (nodes s pid))"
    "last_modified_txid n1 = last_modified_txid (nodes s pid)"
    by (rule LeafNode_Insert_result[OF wf v(2) i assms(4-6)])
  have c: "node_count n1 = Suc (node_count (nodes s pid))" using arg_cong[OF r(4), of length] i by simp
  have ci: "cells n1 ! i = (leaf_slot False f (length key) (length value), key @ value)" using r(4) i by (simp add: nth_insert_at)
  have no1: "\<forall>x \<in> set (cells n1). \<not> is_overflow_pages (fst x)"
    using no unfolding r(4) by (auto simp: insert_at_def leaf_slot_def dest: in_set_takeD in_set_dropD)
  have lt: "i < node_count n1" using c i by simp
  have "(map cell_entry (cells n1))[i := (key, value, b)] = insert_at i (key, value, b) es"
    unfolding r(4) map_insert_at v(3) using i by (simp add: insert_at_def list_update_append)
  then show thesis using that r(1,5) by (metis set_kind_view[OF r(2,3) v(1) no1 lt ci] set_node_simps(1))
qed

lemma LeafNode_Update_view:
  assumes "inline_node s pid" "leaf_view s pid es" "i < length es"
    "length key + length value \<le> (pg_size s - 34) div 2" "fits (pg_size s) (length key + length value) False (emptied i (nodes s pid))"
  obtains s1 n' where "LeafNode_Update pid i key value s = Inr (True, s1)" "on_node pid (SetIsBucket i b) s1 = Inr (set_node pid n' s)"
    "inline_node (set_node pid n' s) pid" "leaf_view (set_node pid n' s) pid (es[i := (key, value, b)])"
    "last_modified_txid n' = last_modified_txid (nodes s pid)"
proof -
  have v: "pid < kPageMaxCount" "IsLeaf (nodes s pid)" "es = map cell_entry (cells (nodes s pid))"
    using assms(2) unfolding leaf_view_cells[OF assms(1)] by blast+
  have wf: "wf_node (pg_size s) (nodes s pid)" and no: "\<forall>c \<in> set (cells (nodes s pid)). \<not> is_overflow_pages (fst c)"
    using assms(1) by (simp_all add: inline_cells)
  have i: "i < node_count (nodes s pid)" "\<not> is_overflow_pages (slots (nodes s pid) i)"
    using assms(1,3) v(3) by (simp_all add: inline_node_def)
  obtain n1 f where r: "LeafNode_Update pid i key value s = Inr (True, set_node pid n1 s)" "wf_node (pg_size s) n1" "IsLeaf n1"
    "cells n1 = (cells (nodes s pid))[i := (leaf_slot False f (length key) (length value), key @ value)]"
    "last_modified_txid n1 = last_modified_txid (nodes s pid)"
    by (rule LeafNode_Update_result[OF wf v(2) i assms(4,5)])
  have c: "node_count n1 = node_count (nodes s pid)" using arg_cong[OF r(4), of length] by simp
  have ci: "cells n1 ! i = (leaf_slot False f (length key) (length value), key @ value)" using r(4) i by simp
  have no1: "\<forall>x \<in> set (cells n1). \<not> is_overflow_pages (fst x)"
    using no unfolding r(4) by (auto simp: leaf_slot_def dest!: set_update_subset_insert[THEN subsetD])
  have lt: "i < node_count n1" using c i by simp
  have "(map cell_entry (cells n1))[i := (key, value, b)] = es[i := (key, value, b)]"
    unfolding r(4) v(3) by (simp add: map_update)
  then show thesis using that r(1,5) by (metis set_kind_view[OF r(2,3) v(1) no1 lt ci])
qed


section \<open>The tree around the leaf\<close>

text \<open>The cut of a tree by a path depends on the slots of the path only.\<close>

lemma path_slots:
  assumes "map snd p' = map snd p"
  shows "before t p' = before t p" "after t p' = after t p" "focus t p' = focus t p" "on_home t key p' = on_home t key p"
    "leftward t p' = leftward t p" "rightward t p' = rightward t p"
proof -
  have "before t p' = before t p \<and> after t p' = after t p \<and> focus t p' = focus t p \<and> on_home t key p' = on_home t key p \<and>
    leftward t p' = leftward t p \<and> rightward t p' = rightward t p"
    using assms
  proof (induction t arbitrary: p p' rule: bt_kid_induct)
    case (Leaf es)
    then show ?case by (cases p; cases p') auto
  next
    case (Branch ts t)
    show ?case
    proof (cases p)
      case (Cons x q)
      then obtain x' q' where c: "p' = x' # q'" "snd x' = snd x" "map snd q' = map snd q" using Branch.prems by (cases p') auto
      show ?thesis
      proof (cases "snd x \<le> length ts")
        case True
        then show ?thesis using Branch.IH[OF True c(3)] Branch.IH[OF slot_for_le[of ts key] c(3)] c(1,2) Cons by (cases x; cases x') auto
      next
        case False
        have "kid ts t (snd x) = kid ts t (length ts)" using False by (simp add: kid_def)
        then show ?thesis
          using Branch.IH[OF order_refl c(3)] Branch.IH[OF slot_for_le[of ts key] c(3)] c(1,2) Cons by (cases x; cases x') auto
      qed
    qed (use Branch.prems in simp)
  qed
  then show "before t p' = before t p" "after t p' = after t p" "focus t p' = focus t p" "on_home t key p' = on_home t key p"
    "leftward t p' = leftward t p" "rightward t p' = rightward t p" by blast+
qed

lemma map_of_replace:
  assumes "\<forall>e \<in> set xs. fst e \<noteq> key" "ys = zs \<or> (\<exists>v. ys = (key, v) # zs)"
  shows "map_of (xs @ (key, w) # zs) = (map_of (xs @ ys))(key \<mapsto> w)"
proof -
  have "map_of xs key = None" using assms(1) by (auto simp: map_of_eq_None_iff)
  then show ?thesis using assms(2) by (auto simp: fun_eq_iff map_add_def split: option.splits)
qed

section \<open>A sample transaction\<close>

text \<open>An update transaction, version 5, on the tree with the pages 8, 3 and 4 of version 4.\<close>

definition sample_update :: "'a \<Rightarrow> (byte list list, 'a) tx_db_scheme" where
  "sample_update x = \<lparr>pg_size = 256, free_map = [(2, 1), (5, 3)], pending_map = [(3, [(9, 2)])],
     alloc_records = [], debug_free_set = {2, 5, 6, 7}, update_meta = Some (sample_meta\<lparr>txid := 5, user_root := 8\<rparr>),
     db_meta = sample_meta, map_size = 65536, mmap_pending = [], mem = (\<lambda>_. 0),
     nodes = nodes sample_tree_db, io_fails = False, cur_meta_index = 0, options = sample_options kUpdateInPlace, view_tx_map = [],
     min_view_txid = 4, persisted_txid = kTxInvalidId, update_lock = True, writer = [],
     disable_writing = False, checkpoint_needed = False, \<dots> = x\<rparr>"

lemma sample_inline:
  assumes "pg_size s = 256" "nodes s = nodes sample_tree_db"
  shows "inline_node s 3" "inline_node s 4" "inline_node s 8"
proof -
  have two: "{..<2::nat} = {0, 1}" by auto
  show "inline_node s 3" "inline_node s 4" "inline_node s 8"
    using assms by (simp_all add: inline_node_def wf_node_def page_ok_def layout_def sample_tree_db_def sample_pair_def sample_root_def
        raw_size_def IsLeaf_def two)
qed

lemma sample_update_owns: "owns (sample_update x) sample_bt 8 {8, 3, 4}"
proof -
  have n: "pg_size (sample_update x) = 256" "nodes (sample_update x) = nodes sample_tree_db" by (simp_all add: sample_update_def)
  note v = sample_views[OF n] and il = sample_inline[OF n]
  let ?Q = "\<lambda>i::nat. if i = 0 then {3::PageId} else {4}"
  have "owns (sample_update x) (BNode [(BLeaf [([1], [11], False), ([2], [12], False)], [5])] (BLeaf [([5], [15], False), ([9], [19], False)])) 8 {8, 3, 4}"
    by (rule owns_branchI[where Q = ?Q]) (use v il in \<open>auto simp: apart_def kid_def le_Suc_eq owns_leaf atMost_Suc\<close>)
  then show ?thesis by (simp add: sample_bt_def)
qed


end
