(* ===== verification/Atomkv_Split.thy ===== *)
theory Atomkv_Split
  imports Atomkv_Leaf_View
begin

text \<open>
  Splitting a page. A page without overflow records is described by its entries (a leaf) or by its separators
  and children (a branch); what it holds is weighed against the room of a page, and the two
  halves of a split hold the old entries with the new one in its place.
\<close>

section \<open>Steps that only change pages of a set\<close>

definition touches :: "PageId set \<Rightarrow> 'a pager_db_scheme \<Rightarrow> 'a pager_db_scheme \<Rightarrow> bool" where
  "touches A s s' \<longleftrightarrow> (\<exists>nn. s' = s\<lparr>nodes := nn\<rparr> \<and> (\<forall>q. q \<notin> A \<longrightarrow> nn q = nodes s q) \<and> restamped s nn)"

lemma touches_refl [simp]: "touches A s s"
  unfolding touches_def by (rule exI[of _ "nodes s"]) simp

lemma touches_set_node [simp]: "pid \<in> A \<Longrightarrow> last_modified_txid n = last_modified_txid (nodes s pid) \<Longrightarrow> touches A s (set_node pid n s)"
  unfolding touches_def by (rule exI[of _ "(nodes s)(pid := n)"]) (auto simp: set_node_def intro: restamped_upd)

lemma touches_stamp: "pid \<in> A \<Longrightarrow> running s = Some x \<Longrightarrow> last_modified_txid n = x \<Longrightarrow> touches A s (set_node pid n s)"
  unfolding touches_def by (rule exI[of _ "(nodes s)(pid := n)"]) (auto simp: set_node_def intro: restamped_upd)

lemma touches_trans: "touches A s t \<Longrightarrow> touches B t u \<Longrightarrow> A \<subseteq> C \<Longrightarrow> B \<subseteq> C \<Longrightarrow> touches C s u"
  unfolding touches_def restamped_def by (clarsimp, intro exI conjI, rule HOL.refl) (metis subset_iff)+

lemma touches_join: "touches A s t \<Longrightarrow> touches B t u \<Longrightarrow> touches (A \<union> B) s u"
  by (rule touches_trans) auto

lemma touches_mono: "touches A s t \<Longrightarrow> A \<subseteq> B \<Longrightarrow> touches B s t"
  by (rule touches_trans[OF _ touches_refl[of "{}"]]) auto

lemma touches_fields:
  assumes "touches A s s'"
  shows "pg_size s' = pg_size s" "update_meta s' = update_meta s" "q \<notin> A \<Longrightarrow> nodes s' q = nodes s q" "paged s s'"
    "tx_pages L n s' = tx_pages L n s" "stock s' = stock s" "update_tx s' = update_tx s"
proof -
  obtain nn where nn: "s' = s\<lparr>nodes := nn\<rparr>" "\<forall>q. q \<notin> A \<longrightarrow> nn q = nodes s q" "restamped s nn" using assms by (auto simp: touches_def)
  show "pg_size s' = pg_size s" "update_meta s' = update_meta s" "q \<notin> A \<Longrightarrow> nodes s' q = nodes s q" "update_tx s' = update_tx s"
    using nn by (simp_all add: update_tx_def)
  have l: "limit s' = limit s" by (rule limit_cong) (simp_all add: nn)
  then show st: "stock s' = stock s" by (rule stock_cong[rotated]) (simp_all add: nn)
  show "paged s s'" by (rule pagedI) (simp_all add: nn)
  show "tx_pages L n s' = tx_pages L n s" using l st nn(1) by (simp add: tx_pages_def page_inv_def map_inv_def tx_open_def)
qed


section \<open>Leaf pages\<close>

definition leaf_page :: "'a pager_db_scheme \<Rightarrow> PageId \<Rightarrow> TxId \<Rightarrow> entry list \<Rightarrow> bool" where
  "leaf_page s pid x es \<longleftrightarrow> leaf_view s pid es \<and> inline_node s pid \<and> last_modified_txid (nodes s pid) = x"

lemma leaf_page_cong:
  "nodes s' pid = nodes s pid \<Longrightarrow> pg_size s' = pg_size s \<Longrightarrow> leaf_page s' pid x es = leaf_page s pid x es"
  using inline_cong(1)[of s' pid s] inline_cong(2)[of s' pid s es] by (auto simp: leaf_page_def)

lemma leaf_page_touches: "touches A s s' \<Longrightarrow> pid \<notin> A \<Longrightarrow> leaf_page s' pid x es = leaf_page s pid x es"
  using touches_fields(1,3) by (intro leaf_page_cong) blast+

text \<open>The bytes that an entry takes in a page, with its slot; the room of a page is its size without header.\<close>

definition entry_cost :: "entry \<Rightarrow> nat" where
  "entry_cost e = 8 + length (fst e) + length (fst (snd e))"

abbreviation leaf_cost :: "entry list \<Rightarrow> nat" where
  "leaf_cost es \<equiv> sum_list (map entry_cost es)"

lemma leaf_page_cost:
  assumes "leaf_page s pid x es"
  shows "8 * node_count (nodes s pid) + space_used (nodes s pid) = leaf_cost es"
proof -
  let ?n = "nodes s pid"
  have il: "inline_node s pid" and v: "IsLeaf ?n" "es = map cell_entry (cells ?n)"
    using assms leaf_view_cells by (auto simp: leaf_page_def)
  have c: "entry_cost (cell_entry (cell_at ?n i)) = 8 + raw_size ?n (slots ?n i)" if "i < node_count ?n" for i
    using il v(1) that by (simp add: entry_cost_def cell_entry_def cell_at_def inline_node_def raw_size_def)
  have "leaf_cost es = (\<Sum>i<node_count ?n. 8 + raw_size ?n (slots ?n i))"
    unfolding v(2) using c by (auto simp: cells_def sum_list_sum_nth atLeast0LessThan intro!: sum.cong)
  also have "\<dots> = 8 * node_count ?n + space_used ?n"
    using il by (simp add: sum.distrib inline_node_def wf_node_def layout_def)
  finally show ?thesis by simp
qed

lemma leaf_page_wf: "leaf_page s pid x es \<Longrightarrow> wf_node (pg_size s) (nodes s pid) \<and> page_ok (pg_size s) \<and> pid < kPageMaxCount"
  by (auto simp: leaf_page_def inline_node_def wf_node_def leaf_view_def)

lemma wf_room: "wf_node ps n \<Longrightarrow> 8 * node_count n + space_used n \<le> ps - 18"
  by (simp add: wf_node_def layout_def) linarith

lemma leaf_page_room: "leaf_page s pid x es \<Longrightarrow> leaf_cost es \<le> pg_size s - 18"
  using leaf_page_cost[of s pid x es] leaf_page_wf[of s pid x es] wf_room by metis

lemma fill_rate_leaf: "leaf_page s pid x es \<Longrightarrow> fill_rate pid s = Inr (leaf_cost es, pg_size s - 18)"
  using leaf_page_cost[of s pid x es] leaf_page_wf[of s pid x es] leaf_page_room[of s pid x es]
  by (simp add: fill_rate_def GetFillRate_def FreeSpaceAfterCompaction_eq node_sizes)

lemma fits_leaf:
  assumes "leaf_page s pid x es" "len \<le> (pg_size s - 34) div 2"
  shows "fits (pg_size s) len True (nodes s pid) \<longleftrightarrow> leaf_cost es + 8 + len \<le> pg_size s - 18"
  using leaf_page_cost[OF assms(1)] leaf_page_wf[OF assms(1)] assms(2) by (auto simp: fits_def record_need_def page_ok_def)

text \<open>The operations of a leaf on its entries; \<open>fit_entry\<close> is an entry that is stored in the page.\<close>

definition fit_entry :: "nat \<Rightarrow> entry \<Rightarrow> bool" where
  "fit_entry ps e \<longleftrightarrow> 0 < length (fst e) + length (fst (snd e)) \<and> length (fst e) + length (fst (snd e)) \<le> (ps - 34) div 2"

lemma leaf_insert:
  assumes "leaf_page s pid x es" "i \<le> length es" "fit_entry (pg_size s) (k, v, b)" "leaf_cost es + entry_cost (k, v, b) \<le> pg_size s - 18"
  obtains s1 s' where "LeafNode_Insert pid i k v s = Inr (True, s1)" "on_node pid (SetIsBucket i b) s1 = Inr s'"
    "touches {pid} s s1" "touches {pid} s s'" "leaf_page s' pid x (insert_at i (k, v, b) es)"
proof -
  have v: "inline_node s pid" "leaf_view s pid es" using assms(1) by (simp_all add: leaf_page_def)
  have "fits (pg_size s) (length k + length v) True (nodes s pid)"
    using fits_leaf[OF assms(1), of "length k + length v"] assms(3,4) by (simp add: fit_entry_def entry_cost_def)
  then obtain s1 n' where r: "LeafNode_Insert pid i k v s = Inr (True, s1)" "on_node pid (SetIsBucket i b) s1 = Inr (set_node pid n' s)"
    "inline_node (set_node pid n' s) pid" "leaf_view (set_node pid n' s) pid (insert_at i (k, v, b) es)"
    "last_modified_txid n' = last_modified_txid (nodes s pid)" "s1 = set_node pid (nodes s1 pid) s"
    using LeafNode_Insert_view[OF v assms(2)] assms(3) by (metis fit_entry_def fst_conv snd_conv)
  have "last_modified_txid (nodes (set_node pid n' s) pid) = last_modified_txid (nodes s1 pid)"
    using r(2) by (auto simp: on_node_def SetIsBucket_def bind_res_Inr_iff set_node_def dest!: arg_cong[where f = nodes] fun_cong[where x = pid])
  then have "last_modified_txid (nodes s1 pid) = last_modified_txid (nodes s pid)" using r(5) by (simp add: set_node_def)
  then have "touches {pid} s s1" by (subst r(6)) simp
  then show thesis using that[OF r(1,2)] r(3-5) assms(1) by (simp add: leaf_page_def)
qed

lemma leaf_full:
  assumes "leaf_page s pid x es" "i \<le> length es" "fit_entry (pg_size s) (k, v, b)" "\<not> leaf_cost es + entry_cost (k, v, b) \<le> pg_size s - 18"
  shows "LeafNode_Insert pid i k v s = Inr (False, s)"
proof (rule LeafNode_Insert_full)
  show "\<not> fits (pg_size s) (length k + length v) True (nodes s pid)"
    using fits_leaf[OF assms(1), of "length k + length v"] assms(3,4) by (simp add: fit_entry_def entry_cost_def)
  show "i \<le> node_count (nodes s pid)" using assms(1,2) by (simp add: leaf_page_def leaf_view_def)
qed (use leaf_page_wf[OF assms(1)] in blast)

lemma leaf_delete:
  assumes "leaf_page s pid x es" "i < length es"
  obtains s' where "LeafNode_Delete pid i s = Inr s'" "touches {pid} s s'" "leaf_page s' pid x (erase_at i es)"
proof -
  let ?n = "nodes s pid"
  have il: "inline_node s pid" using assms(1) by (simp add: leaf_page_def)
  have v: "IsLeaf ?n" "es = map cell_entry (cells ?n)" "pid < kPageMaxCount"
    using assms(1) leaf_view_cells[OF il] by (auto simp: leaf_page_def)
  have i: "i < node_count ?n" "\<not> is_overflow_pages (slots ?n i)" using assms(2) v(2) il by (simp_all add: inline_node_def)
  obtain n' pm where r: "LeafNode_Delete pid i s = Inr ((set_node pid n' s)\<lparr>pending_map := pm\<rparr>)" "wf_node (pg_size s) n'" "IsLeaf n'"
    "cells n' = erase_at i (cells ?n)" "last_modified_txid n' = last_modified_txid ?n" "\<not> is_overflow_pages (slots ?n i) \<longrightarrow> pm = pending_map s"
    by (rule LeafNode_Delete_result[OF _ v(1) i(1)]) (use il i(2) in \<open>auto simp: inline_node_def deletable_def\<close>)
  have "(set_node pid n' s)\<lparr>pending_map := pm\<rparr> = set_node pid n' s" using r(6) i(2) by (simp add: set_node_def)
  moreover have "\<forall>c \<in> set (cells n'). \<not> is_overflow_pages (fst c)"
    using il unfolding inline_cells r(4) erase_at_def by (auto dest: in_set_takeD in_set_dropD)
  then have "leaf_page (set_node pid n' s) pid x (erase_at i es)"
    using inline_view_cells[OF r(2,3) v(3)] r(4,5) assms(1) unfolding v(2) leaf_page_def by (simp add: map_erase_at)
  ultimately show thesis using that r(1,5) by simp
qed

lemma leaf_reads:
  assumes "leaf_page s pid x es" "i < length es"
  shows "GetKey pid i s = Inr (fst (es ! i))" "GetValue pid i s = Inr (fst (snd (es ! i)))" "IsBucket i (nodes s pid) = Inr (snd (snd (es ! i)))"
  using assms by (simp_all add: leaf_page_def leaf_view_def IsBucket_def)

lemma leaf_count: "leaf_page s pid x es \<Longrightarrow> node_count (nodes s pid) = length es"
  by (simp add: leaf_page_def leaf_view_def)

lemma append_entry_page:
  assumes "leaf_page s dst x ds" "leaf_page s src y es" "dst \<noteq> src" "i < length es" "fit_entry (pg_size s) (es ! i)"
    "leaf_cost ds + entry_cost (es ! i) \<le> pg_size s - 18"
  obtains s' where "append_entry dst src i s = Inr s'" "touches {dst} s s'" "leaf_page s' dst x (ds @ [es ! i])"
proof -
  obtain k v b where e: "es ! i = (k, v, b)" by (cases "es ! i")
  obtain s1 s' where r: "LeafNode_Insert dst (length ds) k v s = Inr (True, s1)" "on_node dst (SetIsBucket (length ds) b) s1 = Inr s'"
    "touches {dst} s s1" "touches {dst} s s'" "leaf_page s' dst x (insert_at (length ds) (k, v, b) ds)"
    by (rule leaf_insert[OF assms(1), of "length ds" k v b]) (use assms(5,6) e in auto)
  have c: "node_count (nodes s1 dst) = Suc (length ds)"
    using r(2,5) by (auto simp: on_node_def SetIsBucket_def bind_res_Inr_iff leaf_page_def leaf_view_def)
  have "append_entry dst src i s = Inr s'"
    using leaf_reads[OF assms(2,4)] leaf_count[OF assms(1)] e r(1,2) touches_fields(3)[OF r(3), of src] assms(3) c
    by (simp add: append_entry_def must_def LeafNode_Append_def)
  then show thesis using that r(4,5) e by (simp add: insert_at_def)
qed

text \<open>The slots of a page in reverse order.\<close>

lemma reverse_slots_node:
  assumes "wf_node ps n"
  shows "wf_node ps (reverse_slots n)" "cells (reverse_slots n) = rev (cells n)"
proof -
  let ?c = "node_count n" and ?m = "reverse_slots n"
  have f: "node_count ?m = ?c" "data_offset ?m = data_offset n" "space_used ?m = space_used n" "raw_size ?m = raw_size n" "records ?m = records n"
    by (simp_all add: reverse_slots_def)
  have sl: "slots ?m i = slots n (?c - 1 - i)" if "i < ?c" for i using that by (simp add: reverse_slots_def)
  have "(\<Sum>j<?c. raw_size n (slots ?m j)) = (\<Sum>j<?c. raw_size n (slots n (?c - Suc j)))" using sl by (intro sum.cong) auto
  also have "\<dots> = (\<Sum>j<?c. raw_size n (slots n j))" by (rule sum.nat_diff_reindex)
  finally have s: "(\<Sum>j<?c. raw_size n (slots ?m j)) = (\<Sum>j<?c. raw_size n (slots n j))" .
  have "data_offset n \<le> int (record_offset (slots ?m j)) \<and> record_offset (slots ?m j) + raw_size n (slots ?m j) \<le> ps" if "j < ?c" for j
    using assms that sl[OF that] by (simp add: wf_node_def layout_def)
  then show "wf_node ps ?m" using assms unfolding wf_node_def layout_def f s by blast
  show "cells ?m = rev (cells n)"
    by (rule nth_equalityI) (simp_all add: f rev_nth sl cell_at_def raw_def)
qed

lemma leaf_reverse:
  assumes "leaf_page s pid x es"
  shows "leaf_page (set_node pid (reverse_slots (nodes s pid)) s) pid x (rev es)"
proof -
  let ?n = "nodes s pid"
  have il: "inline_node s pid" using assms(1) by (simp add: leaf_page_def)
  have v: "IsLeaf ?n" "es = map cell_entry (cells ?n)" "pid < kPageMaxCount"
    using assms(1) leaf_view_cells[OF il] by (auto simp: leaf_page_def)
  have wf: "wf_node (pg_size s) ?n" using il by (simp add: inline_node_def)
  note r = reverse_slots_node[OF wf]
  have l: "IsLeaf (reverse_slots ?n)" using v(1) by (simp add: reverse_slots_def)
  have "\<forall>c \<in> set (cells (reverse_slots ?n)). \<not> is_overflow_pages (fst c)" using il unfolding inline_cells r(2) by simp
  then show ?thesis
    using inline_view_cells[OF r(1) l v(3)] assms r(2) unfolding leaf_page_def v(2) by (simp add: rev_map reverse_slots_def)
qed

text \<open>
  The loop of \<^verbatim>\<open>Split\<close> moves entries from the end of the left page until it is at most half full. It ends before
  the first entry.
\<close>

lemma split_leaf_loop_page:
  assumes "leaf_page s left x (take k es)" "leaf_page s right y (rev (drop k es))" "left \<noteq> right" "k \<le> length es"
    "\<forall>e \<in> set es. 2 * entry_cost e \<le> pg_size s - 18" "\<forall>e \<in> set (tl es). fit_entry (pg_size s) e"
    "leaf_cost es \<le> pg_size s - 18" "pg_size s - 18 < 2 * leaf_cost (take k es)"
  shows "\<exists>m s'. split_leaf_loop k left right s = Inr s' \<and> touches {left, right} s s' \<and> 0 < m \<and> m < k \<and>
    leaf_page s' left x (take m es) \<and> leaf_page s' right y (rev (drop m es)) \<and>
    2 * leaf_cost (take m es) \<le> pg_size s - 18 \<and> pg_size s - 18 < 2 * leaf_cost (take (Suc m) es)"
  using assms
proof (induction k arbitrary: s)
  case 0
  then show ?case by simp
next
  case (Suc i)
  have i: "i < length es" using Suc.prems(4) by simp
  have "i \<noteq> 0"
  proof
    assume "i = 0"
    then have "take (Suc i) es = [es ! 0]" using i by (cases es) auto
    moreover have "2 * entry_cost (es ! 0) \<le> pg_size s - 18" using Suc.prems(5) i \<open>i = 0\<close> by auto
    ultimately show False using Suc.prems(8) by simp
  qed
  have "es ! i \<in> set (tl es)" using \<open>i \<noteq> 0\<close> i nth_tl[of "i - 1" es] nth_mem[of "i - 1" "tl es"] by (cases es) auto
  then have fe: "fit_entry (pg_size s) (es ! i)" using Suc.prems(6) by blast
  have dr: "drop i es = es ! i # drop (Suc i) es" using i by (simp add: Cons_nth_drop_Suc)
  have "leaf_cost (drop i es) \<le> leaf_cost es" by (metis append_take_drop_id le_add2 map_append sum_list.append)
  then have room: "leaf_cost (rev (drop (Suc i) es)) + entry_cost (es ! i) \<le> pg_size s - 18"
    using Suc.prems(7) dr by (simp add: sum_list_rev flip: rev_map)
  have nt: "take (Suc i) es ! i = es ! i" by simp
  obtain s1 where s1: "append_entry right left i s = Inr s1" "touches {right} s s1" "leaf_page s1 right y (rev (drop i es))"
    using append_entry_page[OF Suc.prems(2,1) Suc.prems(3)[symmetric], of i] i fe room dr nt by (metis (no_types, lifting) Suc.prems(4) length_take lessI min.absorb2 rev.simps(2))
  have l1: "leaf_page s1 left x (take (Suc i) es)" using Suc.prems(1,3) leaf_page_touches[OF s1(2), of left] by simp
  obtain s2 where s2: "LeafNode_Delete left i s1 = Inr s2" "touches {left} s1 s2" "leaf_page s2 left x (erase_at i (take (Suc i) es))"
    by (rule leaf_delete[OF l1, of i]) (use i in auto)
  have er: "erase_at i (take (Suc i) es) = take i es" by (simp add: erase_at_def)
  have r2: "leaf_page s2 right y (rev (drop i es))" using s1(3) Suc.prems(3) leaf_page_touches[OF s2(2), of right] by simp
  have pop: "LeafNode_Pop left s1 = Inr s2" using s2(1) leaf_count[OF l1] i by (simp add: LeafNode_Pop_def)
  have t: "touches {left, right} s s2" by (rule touches_trans[OF s1(2) s2(2)]) auto
  note l2 = s2(3)[unfolded er]
  have ps: "pg_size s2 = pg_size s" by (rule touches_fields(1)[OF t])
  note fr = fill_rate_leaf[OF l2, unfolded ps]
  show ?case
  proof (cases "pg_size s - 18 < 2 * leaf_cost (take i es)")
    case False
    have "split_leaf_loop (Suc i) left right s = Inr s2" using s1(1) pop fr False by (simp add: fill_above_50_def)
    then show ?thesis using t l2 r2 False Suc.prems(8) \<open>i \<noteq> 0\<close> by (intro exI[of _ i] exI[of _ s2]) simp
  next
    case True
    have "split_leaf_loop (Suc i) left right s = split_leaf_loop i left right s2" using s1(1) pop fr True by (simp add: fill_above_50_def)
    moreover obtain m s' where m: "split_leaf_loop i left right s2 = Inr s'" "touches {left, right} s2 s'" "0 < m" "m < i"
      "leaf_page s' left x (take m es)" "leaf_page s' right y (rev (drop m es))"
      "2 * leaf_cost (take m es) \<le> pg_size s - 18" "pg_size s - 18 < 2 * leaf_cost (take (Suc m) es)"
      using Suc.IH[OF l2 r2 Suc.prems(3)] i Suc.prems(5-7) True ps by auto
    moreover have "touches {left, right} s s'" by (rule touches_trans[OF t m(2)]) auto
    ultimately show ?thesis by (intro exI[of _ m] exI[of _ s']) simp
  qed
qed

lemma insert_at_left: "i \<le> m \<Longrightarrow> insert_at i e (take m es) @ drop m es = insert_at i e es"
  using drop_append[of i "take m es" "drop m es"] by (cases "m \<le> length es") (auto simp: insert_at_def min_absorb1)

lemma insert_at_right: "m \<le> i \<Longrightarrow> take m es @ insert_at (i - m) e (drop m es) = insert_at i e es"
  by (simp add: insert_at_def) (metis append.assoc le_add_diff_inverse take_add)

lemma sum_list_halves: "sum_list (map f xs) = sum_list (map f (take m xs)) + sum_list (map f (drop m xs))" for f :: "'b \<Rightarrow> nat"
  by (metis append_take_drop_id map_append sum_list.append)

lemma split_leaf_insert_page:
  assumes l: "leaf_page s left x (take m es)" and r: "leaf_page s right y (drop m es)" and lr: "left \<noteq> right"
    and m: "0 < m" "m < length es" "2 * leaf_cost (take m es) \<le> pg_size s - 18" "pg_size s - 18 < 2 * leaf_cost (take (Suc m) es)"
    and es: "\<forall>e \<in> set es. 2 * entry_cost e \<le> pg_size s - 18" "\<forall>e \<in> set (tl es). fit_entry (pg_size s) e" "leaf_cost es \<le> pg_size s - 18"
    and e: "i \<le> length es" "fit_entry (pg_size s) (k, v, b)" "2 * entry_cost (k, v, b) \<le> pg_size s - 18"
  shows "\<exists>s' as bs. split_leaf_insert left right i k v b s = Inr s' \<and> touches {left, right} s s' \<and>
    leaf_page s' left x as \<and> leaf_page s' right y bs \<and> as @ bs = insert_at i (k, v, b) es \<and> as \<noteq> [] \<and> bs \<noteq> []"
proof -
  have c: "node_count (nodes s left) = m" "m \<le> length es" using leaf_count[OF l] m(2) by simp_all
  show ?thesis
  proof (cases "i \<le> m")
    case True
    obtain s1 s' where a: "LeafNode_Insert left i k v s = Inr (True, s1)" "on_node left (SetIsBucket i b) s1 = Inr s'"
      "touches {left} s s1" "touches {left} s s'" "leaf_page s' left x (insert_at i (k, v, b) (take m es))"
      by (rule leaf_insert[OF l, of i k v b]) (use True e m c in auto)
    have "split_leaf_insert left right i k v b s = Inr s'" using True c(1) a(1,2) by (simp add: split_leaf_insert_def must_def)
    moreover have "leaf_page s' right y (drop m es)" using r lr leaf_page_touches[OF a(4), of right] by simp
    moreover have "touches {left, right} s s'" by (rule touches_mono[OF a(4)]) auto
    moreover have "insert_at i (k, v, b) (take m es) \<noteq> []" by (simp add: insert_at_def)
    ultimately show ?thesis using a(5) insert_at_left[OF True] m(2) by (metis drop_eq_Nil not_le)
  next
    case False
    show ?thesis
    proof (cases "leaf_cost (drop m es) + entry_cost (k, v, b) \<le> pg_size s - 18")
      case True
      obtain s1 s' where a: "LeafNode_Insert right (i - m) k v s = Inr (True, s1)" "on_node right (SetIsBucket (i - m) b) s1 = Inr s'"
        "touches {right} s s1" "touches {right} s s'" "leaf_page s' right y (insert_at (i - m) (k, v, b) (drop m es))"
        by (rule leaf_insert[OF r, of "i - m" k v b]) (use True e m c in auto)
      have "split_leaf_insert left right i k v b s = Inr s'"
        using False c(1) a(1,2) touches_fields(3)[OF a(3), of left] lr by (simp add: split_leaf_insert_def)
      moreover have "leaf_page s' left x (take m es)" using l lr leaf_page_touches[OF a(4), of left] by simp
      moreover have "touches {left, right} s s'" by (rule touches_mono[OF a(4)]) auto
      moreover have "take m es \<noteq> []" "insert_at (i - m) (k, v, b) (drop m es) \<noteq> []" using m by (auto simp: insert_at_def)
      ultimately show ?thesis using a(5) insert_at_right[of m i es] False by (metis nat_le_linear)
    next
      case full: False
      have f: "LeafNode_Insert right (i - m) k v s = Inr (False, s)"
        by (rule leaf_full[OF r, of "i - m" k v b]) (use full e m in auto)
      have em: "es ! m \<in> set (tl es)" "es ! m \<in> set es" using m nth_tl[of "m - 1" es] nth_mem[of "m - 1" "tl es"] by (cases es; auto)+
      have cm: "leaf_cost (take m es) + entry_cost (es ! m) \<le> pg_size s - 18" using bspec[OF es(1) em(2)] m(3) by linarith
      have d0: "drop m es ! 0 = es ! m" "take m es @ [es ! m] = take (Suc m) es" "erase_at 0 (drop m es) = drop (Suc m) es"
        using m(2) by (simp_all add: take_Suc_conv_app_nth erase_at_def)
      obtain s1 where s1: "append_entry left right 0 s = Inr s1" "touches {left} s s1" "leaf_page s1 left x (take m es @ [drop m es ! 0])"
        by (rule append_entry_page[OF l r lr, of 0]) (use em es(2) cm m(2) d0(1) in auto)
      have r1: "leaf_page s1 right y (drop m es)" using r lr leaf_page_touches[OF s1(2), of right] by simp
      obtain s2 where s2: "LeafNode_Delete right 0 s1 = Inr s2" "touches {right} s1 s2" "leaf_page s2 right y (erase_at 0 (drop m es))"
        by (rule leaf_delete[OF r1, of 0]) (use m in auto)
      have l2: "leaf_page s2 left x (take (Suc m) es)" using s1(3) lr leaf_page_touches[OF s2(2), of left] d0 by simp
      note r2 = s2(3)[unfolded d0(3)]
      have t2: "touches {left, right} s s2" by (rule touches_trans[OF s1(2) s2(2)]) auto
      have ps: "pg_size s2 = pg_size s" by (rule touches_fields(1)[OF t2])
      have cost: "leaf_cost (drop (Suc m) es) + entry_cost (k, v, b) \<le> pg_size s - 18"
        using m(4) es(3) e(3) sum_list_halves[of entry_cost es "Suc m"] by linarith
      have i: "i - Suc m \<le> length (drop (Suc m) es)" using e(1) by auto
      obtain s3 s' where a: "LeafNode_Insert right (i - Suc m) k v s2 = Inr (True, s3)" "on_node right (SetIsBucket (i - Suc m) b) s3 = Inr s'"
        "touches {right} s2 s3" "touches {right} s2 s'" "leaf_page s' right y (insert_at (i - Suc m) (k, v, b) (drop (Suc m) es))"
        by (rule leaf_insert[OF r2 i, of k v b]) (use e(2) cost ps in auto)
      have c2: "node_count (nodes s2 left) = Suc m" "nodes s3 left = nodes s2 left"
        using leaf_count[OF l2] m(2) touches_fields(3)[OF a(3), of left] lr by simp_all
      have "split_leaf_insert left right i k v b s = Inr s'"
        using False c(1) f s1(1) s2(1) a(1,2) c2 by (simp add: split_leaf_insert_def must_def)
      moreover have "leaf_page s' left x (take (Suc m) es)" using l2 lr leaf_page_touches[OF a(4), of left] by simp
      moreover have "touches {left, right} s s'" by (rule touches_trans[OF t2 a(4)]) auto
      moreover have "take (Suc m) es \<noteq> []" "insert_at (i - Suc m) (k, v, b) (drop (Suc m) es) \<noteq> []" using m by (auto simp: insert_at_def)
      ultimately show ?thesis using a(5) insert_at_right[of "Suc m" i es] False by (metis not_less_eq_eq)
    qed
  qed
qed

section \<open>A new page\<close>

text \<open>
  What a step may do inside a transaction: it takes pages from the free ones, and of the other pages it
  changes those of \<open>A\<close> only.
\<close>

definition grows :: "PageId set \<Rightarrow> PageId set \<Rightarrow> nat \<Rightarrow> ('w, 'a) tx_db_scheme \<Rightarrow> PageId set \<Rightarrow> ('w, 'a) tx_db_scheme \<Rightarrow> bool" where
  "grows A L n s L' s' \<longleftrightarrow> tx_pages L' n s' \<and> paged s s' \<and> L \<subseteq> L' \<and> L' - L \<subseteq> stock s \<and>
     stock s' \<subseteq> stock s \<and> (\<forall>q. q \<notin> A \<union> (L' - L) \<longrightarrow> nodes s' q = nodes s q)"

lemma grows_trans:
  assumes "grows A L n s L1 s1" "grows B L1 n' s1 L2 s2" "A \<subseteq> C" "B \<subseteq> C \<union> (L1 - L)"
  shows "grows C L n' s L2 s2"
proof -
  have a: "paged s s1" "L \<subseteq> L1" "L1 - L \<subseteq> stock s" "stock s1 \<subseteq> stock s"
    "\<forall>q. q \<notin> A \<union> (L1 - L) \<longrightarrow> nodes s1 q = nodes s q"
    using assms(1) by (simp_all add: grows_def)
  have b: "tx_pages L2 n' s2" "paged s1 s2" "L1 \<subseteq> L2" "L2 - L1 \<subseteq> stock s1" "stock s2 \<subseteq> stock s1"
    "\<forall>q. q \<notin> B \<union> (L2 - L1) \<longrightarrow> nodes s2 q = nodes s1 q" using assms(2) by (simp_all add: grows_def)
  have "nodes s2 q = nodes s q" if "q \<notin> C \<union> (L2 - L)" for q
  proof -
    have "q \<notin> A \<union> (L1 - L)" "q \<notin> B \<union> (L2 - L1)" using that a(2) b(3) assms(3,4) by auto
    then show ?thesis using a(5) b(6) by simp
  qed
  then show ?thesis using a b paged_trans unfolding grows_def by blast
qed

lemma grows_touches: "tx_pages L n s \<Longrightarrow> touches A s s' \<Longrightarrow> grows A L n s L s'"
  using touches_fields[of A s s'] by (simp add: grows_def)

lemma grows_fields:
  assumes "grows A L n s L' s'"
  shows "pg_size s' = pg_size s" "running s' = running s" "paged s s'" "tx_pages L' n s'" "L \<subseteq> L'"
    "q \<in> L \<Longrightarrow> q \<notin> A \<Longrightarrow> nodes s' q = nodes s q"
  using assms paged_fields[of s s'] by (simp_all add: grows_def)

lemma new_page:
  fixes s :: "('w, 'a) tx_db_scheme"
  assumes "tx_pages L (Suc n) s"
  obtains q t where "Alloc 1 s = Inr (q, t)" "Reference q t = Inr q" "q < kPageMaxCount" "q \<notin> L" "grows {} L n s (insert q L) t"
proof -
  have a: "page_inv L s" "tx_open s" "stock s \<noteq> {}" "limit s \<le> kPageMaxCount" "Suc n \<le> card (stock s)"
    using assms by (auto simp: tx_pages_def)
  obtain q t where t: "Alloc 1 s = Inr (q, t)" "q \<in> stock s" "stock t = stock s - {q}"
    "page_inv (insert q L) t" "paged s t" "nodes t = nodes s" "q < kPageMaxCount" "limit t \<le> kPageMaxCount"
    by (rule Alloc_reuses[OF a(1-4)])
  have "q \<notin> L" using t(2) stock_owned[OF a(1)] by blast
  moreover have "tx_pages (insert q L) n t" using a t paged_fields[OF t(5)] by (simp add: tx_pages_def)
  ultimately show thesis using that[OF t(1) Reference_ok[OF t(7)] t(7)] t(2,3,5,6) by (auto simp: grows_def)
qed

lemma empty_page:
  assumes "page_ok ps" "node_count n = 0" "data_offset n = s16 (int ps)" "space_used n = 0"
  shows "wf_node ps n" "cells n = []"
  using assms by (auto simp: wf_node_def layout_def page_ok_def s16_def cells_def)

lemma build_leaf:
  assumes "page_ok (pg_size s)" "running s = Some m" "q < kPageMaxCount"
  obtains s' where "LeafNode_Build q s = Inr s'" "touches {q} s s'" "leaf_page s' q m []"
proof -
  define n where "n = (nodes s q)\<lparr>node_type := kLeaf, node_count := 0, data_offset := s16 (int (pg_size s)), space_used := 0, last_modified_txid := m\<rparr>"
  have n: "wf_node (pg_size s) n" "cells n = []" by (rule empty_page[OF assms(1)]; simp add: n_def)+
  have "leaf_page (set_node q n s) q m []"
    using inline_view_cells[OF n(1) _ assms(3)] n(2) by (simp add: leaf_page_def) (simp add: n_def IsLeaf_def)
  moreover have "LeafNode_Build q s = Inr (set_node q n s)" using assms(2) by (auto simp: LeafNode_Build_def update_tx_def n_def)
  ultimately show thesis using that touches_stamp[of q "{q}" s m n] assms(2) n_def by simp
qed


section \<open>Splitting a leaf\<close>

text \<open>
  The new entry does not fit. Two entries always fit in a page, so there are at least two, the page is more than half
  full, and every assertion of \<^verbatim>\<open>Split\<close> holds.
\<close>

lemma Split_Leaf_page:
  fixes s :: "('w, 'a) tx_db_scheme"
  assumes l: "leaf_page s left x es" "left \<in> L" "tx_pages L (Suc n) s"
    and es: "\<forall>e \<in> set es. 2 * entry_cost e \<le> pg_size s - 18" "\<forall>e \<in> set (tl es). fit_entry (pg_size s) e"
    and e: "i \<le> length es" "fit_entry (pg_size s) (k, v, b)" "2 * entry_cost (k, v, b) \<le> pg_size s - 18"
    and full: "\<not> leaf_cost es + entry_cost (k, v, b) \<le> pg_size s - 18"
  obtains right s' mt as bs where "Split_Leaf left i k v b s = Inr (right, s')" "right \<notin> L" "grows {left} L n s (insert right L) s'"
    "running s = Some mt" "leaf_page s' left x as" "leaf_page s' right mt bs" "as @ bs = insert_at i (k, v, b) es" "as \<noteq> []" "bs \<noteq> []"
proof -
  obtain right s1 where a: "Alloc 1 s = Inr (right, s1)" "Reference right s1 = Inr right" "right < kPageMaxCount" "right \<notin> L"
    "grows {} L n s (insert right L) s1"
    by (rule new_page[OF l(3)])
  note g1 = grows_fields[OF a(5)]
  have lr: "left \<noteq> right" using a(4) l(2) by blast
  obtain mt where mt: "running s = Some mt" using tx_running[OF l(3)] by blast
  have ok: "page_ok (pg_size s)" using leaf_page_wf[OF l(1)] by blast
  obtain s2 where b: "LeafNode_Build right s1 = Inr s2" "touches {right} s1 s2" "leaf_page s2 right mt []"
    by (rule build_leaf[of s1 mt right]) (use ok g1(1,2) mt a(3) in auto)
  have "leaf_page s1 left x es" using l(1,2) leaf_page_cong[of s1 left s] g1(1) g1(6)[of left] by simp
  then have l2: "leaf_page s2 left x es" using leaf_page_touches[OF b(2), of left] lr by simp
  have ps: "pg_size s2 = pg_size s" using touches_fields(1)[OF b(2)] g1(1) by simp
  have half: "pg_size s - 18 < 2 * leaf_cost es" using full e(3) by linarith
  have len: "2 \<le> length es"
  proof (rule ccontr)
    assume "\<not> 2 \<le> length es"
    then have "es = [] \<or> (\<exists>a. es = [a])" by (cases es; cases "tl es") auto
    then show False using half es(1) by auto
  qed
  have room: "leaf_cost es \<le> pg_size s - 18" using leaf_page_room[OF l(1)] .
  obtain m s3 where m: "split_leaf_loop (length es) left right s2 = Inr s3" "touches {left, right} s2 s3" "0 < m" "m < length es"
    "leaf_page s3 left x (take m es)" "leaf_page s3 right mt (rev (drop m es))"
    "2 * leaf_cost (take m es) \<le> pg_size s - 18" "pg_size s - 18 < 2 * leaf_cost (take (Suc m) es)"
    using split_leaf_loop_page[of s2 left x "length es" es right mt] l2 b(3) lr es room half ps by auto
  let ?s4 = "set_node right (reverse_slots (nodes s3 right)) s3"
  have t3: "touches {right} s3 ?s4" by (simp add: reverse_slots_def)
  have t4: "touches {left, right} s2 ?s4" by (rule touches_trans[OF m(2) t3]) auto
  have r4: "leaf_page ?s4 right mt (drop m es)" using leaf_reverse[OF m(6)] by simp
  have l4: "leaf_page ?s4 left x (take m es)" using m(5) leaf_page_touches[OF t3, of left] lr by simp
  have p4: "pg_size ?s4 = pg_size s" using touches_fields(1)[OF t4] ps by simp
  obtain s' as bs where s': "split_leaf_insert left right i k v b ?s4 = Inr s'" "touches {left, right} ?s4 s'"
    "leaf_page s' left x as" "leaf_page s' right mt bs" "as @ bs = insert_at i (k, v, b) es" "as \<noteq> []" "bs \<noteq> []"
    using split_leaf_insert_page[OF l4 r4 lr m(3,4), unfolded p4, OF m(7,8) es room e] by blast
  have "length as + length bs \<ge> 3" using arg_cong[OF s'(5), of length] len by simp
  then have cnt: "node_count (nodes s' left) \<ge> 1 \<and> node_count (nodes s' right) \<ge> 2 \<or> node_count (nodes s' left) \<ge> 2 \<and> node_count (nodes s' right) \<ge> 1"
    unfolding leaf_count[OF s'(3)] leaf_count[OF s'(4)] using s'(6,7) by (cases as; cases bs; cases "tl as"; cases "tl bs") auto
  have "Split_Leaf left i k v b s = Inr (right, s')"
    using a(1,2) b(1) m(1) s'(1) e(1) len half m(7) leaf_count[OF l(1)] leaf_count[OF l2] fill_rate_leaf[OF l2] fill_rate_leaf[OF l4] ps p4
    by (simp add: Split_Leaf_def fill_above_50_def Let_def cnt del: One_nat_def)
  moreover have "touches {left, right} s2 s'" by (rule touches_trans[OF t4 s'(2)]) auto
  then have "touches {left, right} s1 s'" by (rule touches_trans[OF b(2)]) auto
  then have "grows {left, right} (insert right L) n s1 (insert right L) s'" by (rule grows_touches[OF g1(4)])
  then have "grows {left} L n s (insert right L) s'" by (rule grows_trans[OF a(5)]) (use a(4) in auto)
  ultimately show thesis using that a(4) mt s'(3-7) by blast
qed

section \<open>Branch pages\<close>

definition sep_key :: "cell \<Rightarrow> key" where
  "sep_key c = take (key_size (fst c)) (snd c)"

definition branch_node :: "nat \<Rightarrow> NodeData \<Rightarrow> TxId \<Rightarrow> key list \<Rightarrow> PageId list \<Rightarrow> bool" where
  "branch_node ps n x ks cs \<longleftrightarrow> wf_node ps n \<and> node_type n = kBranch \<and> last_modified_txid n = x \<and> (\<forall>c \<in> set (separators n). \<not> is_overflow_pages (fst c)) \<and>
     ks = map sep_key (separators n) \<and> cs = children n"

definition branch_page :: "'a pager_db_scheme \<Rightarrow> PageId \<Rightarrow> TxId \<Rightarrow> key list \<Rightarrow> PageId list \<Rightarrow> bool" where
  "branch_page s pid x ks cs \<longleftrightarrow> pid < kPageMaxCount \<and> branch_node (pg_size s) (nodes s pid) x ks cs"

lemma branch_page_cong:
  "nodes s' pid = nodes s pid \<Longrightarrow> pg_size s' = pg_size s \<Longrightarrow> branch_page s' pid x ks cs = branch_page s pid x ks cs"
  by (simp add: branch_page_def)

lemma branch_page_touches: "touches A s s' \<Longrightarrow> pid \<notin> A \<Longrightarrow> branch_page s' pid x ks cs = branch_page s pid x ks cs"
  using touches_fields(1,3) by (intro branch_page_cong) blast+

abbreviation branch_cost :: "key list \<Rightarrow> nat" where
  "branch_cost ks \<equiv> sum_list (map (\<lambda>k. 8 + length k) ks)"

lemma branch_node_counts:
  assumes "branch_node ps n x ks cs"
  shows "node_count n = length ks" "length cs = Suc (length ks)" "\<not> IsLeaf n" "IsBranch n" "page_ok ps" "wf_node ps n"
    "i < length ks \<Longrightarrow> \<not> is_overflow_pages (slots n i)" "i \<le> length ks \<Longrightarrow> GetLeftChild i n = Inr (cs ! i)" "tail_child n = last cs"
    "i \<le> length ks \<Longrightarrow> kid_page n i = cs ! i"
proof -
  have b: "wf_node ps n" "node_type n = kBranch" "ks = map sep_key (separators n)" "cs = children n" using assms unfolding branch_node_def by blast+
  show c: "node_count n = length ks" "length cs = Suc (length ks)" unfolding b(3,4) by simp_all
  show "\<not> IsLeaf n" "IsBranch n" "page_ok ps" "wf_node ps n" using b(1,2) by (simp_all add: IsLeaf_def IsBranch_def wf_node_def)
  show "i < length ks \<Longrightarrow> \<not> is_overflow_pages (slots n i)"
  proof -
    assume i: "i < length ks"
    have "\<forall>c \<in> set (separators n). \<not> is_overflow_pages (fst c)" using assms unfolding branch_node_def by blast
    moreover have "separators n ! i \<in> set (separators n)" using i c(1) by (intro nth_mem) simp
    ultimately show ?thesis using i c(1) by (auto simp: separator_def cell_at_def)
  qed
  show "tail_child n = last cs" unfolding b(4) by (simp add: children_def)
  show k: "i \<le> length ks \<Longrightarrow> kid_page n i = cs ! i"
    unfolding b(4) using c(1) by (auto simp: kid_page_def nth_children)
  show "i \<le> length ks \<Longrightarrow> GetLeftChild i n = Inr (cs ! i)" using k c(1) by (simp add: GetLeftChild_kid)
qed

lemma branch_node_key:
  assumes "branch_node ps n x ks cs" "i < length ks"
  shows "ks ! i = sep_key (separator (cell_at n i))"
proof -
  have "i < node_count n" using assms branch_node_counts(1)[OF assms(1)] by simp
  then have "map sep_key (separators n) ! i = sep_key (separator (cell_at n i))" by simp
  then show ?thesis using assms(1) unfolding branch_node_def by metis
qed

lemma branch_node_cost:
  assumes "branch_node ps n x ks cs"
  shows "8 * node_count n + space_used n = branch_cost ks"
proof -
  note c = branch_node_counts[OF assms]
  have k: "ks ! i = sep_key (separator (cell_at n i))" "length (ks ! i) = raw_size n (slots n i)" if "i < node_count n" for i
  proof -
    show e: "ks ! i = sep_key (separator (cell_at n i))" using branch_node_key[OF assms] c(1) that by simp
    show "length (ks ! i) = raw_size n (slots n i)"
      unfolding e using c(3,7) c(1) that by (simp add: sep_key_def separator_def cell_at_def raw_size_def)
  qed
  have "branch_cost ks = (\<Sum>i<node_count n. 8 + length (ks ! i))"
    unfolding c(1) by (simp add: sum_list_sum_nth atLeast0LessThan)
  also have "\<dots> = (\<Sum>i<node_count n. 8 + raw_size n (slots n i))" using k(2) by (intro sum.cong) auto
  also have "\<dots> = 8 * node_count n + space_used n" using c(6) by (simp add: sum.distrib wf_node_def layout_def)
  finally show ?thesis ..
qed

lemma branch_page_reads:
  assumes "branch_page s pid x ks cs"
  shows "i < length ks \<Longrightarrow> GetKey pid i s = Inr (ks ! i)" "fill_rate pid s = Inr (branch_cost ks, pg_size s - 18)"
    "branch_cost ks \<le> pg_size s - 18" "ks \<noteq> [] \<Longrightarrow> branch_view s pid ks" "inline_node s pid"
proof -
  let ?n = "nodes s pid"
  have b: "branch_node (pg_size s) ?n x ks cs" "pid < kPageMaxCount" using assms by (simp_all add: branch_page_def)
  note c = branch_node_counts[OF b(1)]
  have wf: "wf_node (pg_size s) ?n" by (rule c(6))
  show g: "i < length ks \<Longrightarrow> GetKey pid i s = Inr (ks ! i)" for i
  proof -
    assume i: "i < length ks"
    from branch_node_key[OF b(1) this] show ?thesis using i c(1,7) GetKey_cell[OF wf, of i] by (simp add: cell_key_def cell_read_def cell_at_def sep_key_def separator_def)
  qed
  show "branch_cost ks \<le> pg_size s - 18" using branch_node_cost[OF b(1)] wf_room[OF wf] by simp
  then show "fill_rate pid s = Inr (branch_cost ks, pg_size s - 18)"
    using branch_node_cost[OF b(1)] FreeSpaceAfterCompaction_eq[OF wf] by (simp add: fill_rate_def GetFillRate_def node_sizes)
  show "ks \<noteq> [] \<Longrightarrow> branch_view s pid ks" using g b(2) c(1,4) by (simp add: branch_view_def)
  show "inline_node s pid" using wf c(1,7) by (simp add: inline_node_def)
qed

lemma branch_pageI:
  assumes "pid < kPageMaxCount" "wf_node (pg_size s) n" "node_type n = kBranch" "last_modified_txid n = x"
    "\<forall>c \<in> set (separators n). \<not> is_overflow_pages (fst c)" "ks = map sep_key (separators n)" "cs = children n"
  shows "branch_page (set_node pid n s) pid x ks cs"
  unfolding branch_page_def branch_node_def using assms by simp

lemma fits_branch:
  assumes "branch_page s pid x ks cs" "len \<le> (pg_size s - 34) div 2"
  shows "fits (pg_size s) len True (nodes s pid) \<longleftrightarrow> branch_cost ks + 8 + len \<le> pg_size s - 18"
proof -
  have b: "branch_node (pg_size s) (nodes s pid) x ks cs" using assms(1) by (simp add: branch_page_def)
  show ?thesis
    using branch_node_cost[OF b] branch_node_counts(5)[OF b] assms(2) by (auto simp: fits_def record_need_def page_ok_def)
qed

lemma branch_insert:
  assumes "branch_page s pid x ks cs" "i \<le> length ks" "k \<noteq> []" "length k \<le> (pg_size s - 34) div 2" "branch_cost ks + 8 + length k \<le> pg_size s - 18"
  obtains s' where "BranchNode_Insert pid i k c r s = Inr (True, s')" "touches {pid} s s'"
    "branch_page s' pid x (insert_at i k ks) (insert_at (if r then Suc i else i) c cs)"
proof -
  let ?n = "nodes s pid"
  have b: "branch_node (pg_size s) ?n x ks cs" "pid < kPageMaxCount" using assms(1) by (simp_all add: branch_page_def)
  note c = branch_node_counts[OF b(1)]
  have f: "node_type ?n = kBranch" "last_modified_txid ?n = x" "\<forall>c \<in> set (separators ?n). \<not> is_overflow_pages (fst c)"
    "ks = map sep_key (separators ?n)" "cs = children ?n" using b(1) unfolding branch_node_def by blast+
  obtain n' fl where r: "BranchNode_Insert pid i k c r s = Inr (True, set_node pid n' s)" "wf_node (pg_size s) n'"
    "node_type n' = node_type ?n" "last_modified_txid n' = last_modified_txid ?n"
    "separators n' = insert_at i (leaf_slot False fl (length k) 0, k) (separators ?n)"
    "children n' = insert_at (if r then Suc i else i) c (children ?n)"
    by (rule BranchNode_Insert_result[OF c(6,3), of i k c r]) (use assms fits_branch[OF assms(1,4)] c(1) in auto)
  have "sep_key (leaf_slot False fl (length k) 0, k) = k" by (simp add: sep_key_def leaf_slot_def)
  then have ks: "insert_at i k ks = map sep_key (separators n')" unfolding r(5) f(4) map_insert_at by simp
  have no: "\<forall>c \<in> set (separators n'). \<not> is_overflow_pages (fst c)"
    using f(3) unfolding r(5) insert_at_def by (auto simp: leaf_slot_def dest: in_set_takeD in_set_dropD)
  have "branch_page (set_node pid n' s) pid x (insert_at i k ks) (insert_at (if r then Suc i else i) c cs)"
    by (rule branch_pageI[OF b(2) r(2)]) (use r(3,4,6) f(1,2,5) ks no in auto)
  then show thesis using that[OF r(1)] r(4) by simp
qed

lemma branch_full:
  assumes "branch_page s pid x ks cs" "i \<le> length ks" "length k \<le> (pg_size s - 34) div 2" "\<not> branch_cost ks + 8 + length k \<le> pg_size s - 18"
  shows "BranchNode_Insert pid i k c r s = Inr (False, s)"
proof -
  have b: "branch_node (pg_size s) (nodes s pid) x ks cs" using assms(1) by (simp add: branch_page_def)
  note c = branch_node_counts[OF b]
  show ?thesis
    using RequestSpaceFor_eq[OF c(6), of "length k" 0 True] fits_branch[OF assms(1,3)] assms(2,4) c(1) by (simp add: BranchNode_Insert_def)
qed

lemma branch_delete:
  assumes "branch_page s pid x ks cs" "i < length ks"
  obtains s' where "BranchNode_Delete pid i r s = Inr s'" "touches {pid} s s'"
    "branch_page s' pid x (erase_at i ks) (erase_at (if r then Suc i else i) cs)"
proof -
  let ?n = "nodes s pid"
  have b: "branch_node (pg_size s) ?n x ks cs" "pid < kPageMaxCount" using assms(1) by (simp_all add: branch_page_def)
  note c = branch_node_counts[OF b(1)]
  have f: "node_type ?n = kBranch" "last_modified_txid ?n = x" "\<forall>c \<in> set (separators ?n). \<not> is_overflow_pages (fst c)"
    "ks = map sep_key (separators ?n)" "cs = children ?n" using b(1) unfolding branch_node_def by blast+
  have i: "\<not> is_overflow_pages (slots ?n i)" using c(7) assms(2) by blast
  obtain n' pm where r: "BranchNode_Delete pid i r s = Inr ((set_node pid n' s)\<lparr>pending_map := pm\<rparr>)"
    "wf_node (pg_size s) n'" "node_type n' = node_type ?n" "separators n' = erase_at i (separators ?n)"
    "children n' = erase_at (if r then Suc i else i) (children ?n)"
    "\<not> is_overflow_pages (slots ?n i) \<longrightarrow> pm = pending_map s" "last_modified_txid n' = last_modified_txid ?n"
    by (rule BranchNode_Delete_result[OF c(6,3), of i r]) (use assms(2) c(1) i in \<open>auto simp: deletable_def\<close>)
  have "(set_node pid n' s)\<lparr>pending_map := pm\<rparr> = set_node pid n' s" using r(6) i by (simp add: set_node_def)
  moreover have "erase_at i ks = map sep_key (separators n')" unfolding r(4) f(4) map_erase_at by simp
  moreover have "\<forall>c \<in> set (separators n'). \<not> is_overflow_pages (fst c)"
    using f(3) unfolding r(4) erase_at_def by (auto dest: in_set_takeD in_set_dropD)
  ultimately have "branch_page (set_node pid n' s) pid x (erase_at i ks) (erase_at (if r then Suc i else i) cs)"
    using r(2,3,5,7) f(1,2,5) by (intro branch_pageI[OF b(2)]) auto
  then show thesis using that r(1,7) \<open>_ = set_node pid n' s\<close> by simp
qed

text \<open>Changing a child.\<close>

lemma branch_set_child:
  assumes "branch_page s pid x ks cs" "i \<le> length ks"
  obtains s' where "on_node pid (SetLeftChild i c) s = Inr s'" "touches {pid} s s'" "branch_page s' pid x ks (cs[i := c])"
proof -
  define n where "n = nodes s pid"
  have b: "branch_node (pg_size s) n x ks cs" "pid < kPageMaxCount" using assms(1) by (simp_all add: branch_page_def n_def)
  note cc = branch_node_counts[OF b(1)]
  have f: "node_type n = kBranch" "last_modified_txid n = x" "\<forall>c \<in> set (separators n). \<not> is_overflow_pages (fst c)"
    "ks = map sep_key (separators n)" "cs = children n" using b(1) unfolding branch_node_def by blast+
  define n' where "n' = (if i = node_count n then n\<lparr>tail_child := c\<rparr> else n\<lparr>slots := (slots n)(i := (slots n i)\<lparr>child_or_size := c\<rparr>)\<rparr>)"
  have "on_node pid (SetLeftChild i c) s = Inr (set_node pid n' s)"
    using assms(2) cc(1) by (simp add: on_node_def SetLeftChild_def n'_def flip: n_def)
  moreover have g: "node_count n' = node_count n" "node_type n' = node_type n" "records n' = records n" "last_modified_txid n' = last_modified_txid n"
    "data_offset n' = data_offset n" "space_used n' = space_used n"
    "\<And>j. (slots n' j)\<lparr>child_or_size := 0\<rparr> = (slots n j)\<lparr>child_or_size := 0\<rparr>"
    by (simp_all add: n'_def)
  note sf = slot_child_fields[OF g(7)]
  have rs: "raw_size n' (slots n' j) = raw_size n (slots n j)" for j using sf(2)[OF cc(3)] raw_size_cong[OF g(2)] by simp
  have "layout (pg_size s) {..<node_count n} n' = layout (pg_size s) {..<node_count n} n"
    using g rs sf(1) by (intro layout_cong) auto
  then have wf: "wf_node (pg_size s) n'" using cc(6) g(1) by (simp add: wf_node_def)
  have sep: "separators n' = separators n"
    using g(1,3) rs sf(1,3) by (intro nth_equalityI) (simp_all add: separator_def cell_at_def raw_def)
  have ch: "children n' = (children n)[i := c]"
  proof (rule nth_equalityI)
    fix j assume "j < length (children n')"
    then have j: "j \<le> node_count n" using g(1) by simp
    then show "children n' ! j = (children n)[i := c] ! j"
      using assms(2) cc(1) g(1) by (cases "j = i") (simp_all add: nth_children nth_list_update, auto simp: n'_def)
  qed (use g(1) in simp)
  have "branch_page (set_node pid n' s) pid x ks (cs[i := c])"
    by (rule branch_pageI[OF b(2) wf]) (use g f sep ch in auto)
  ultimately show thesis using that g(4) by (simp add: n_def)
qed

lemma branch_set_tail:
  assumes "branch_page s pid x ks cs"
  obtains s' where "on_node pid (SetTailChild c) s = Inr s'" "touches {pid} s s'" "branch_page s' pid x ks (butlast cs @ [c])"
proof -
  have b: "branch_node (pg_size s) (nodes s pid) x ks cs" using assms(1) by (simp add: branch_page_def)
  have l: "length cs = Suc (length ks)" "node_count (nodes s pid) = length ks" using branch_node_counts[OF b] by simp_all
  obtain s' where "on_node pid (SetLeftChild (length ks) c) s = Inr s'" "touches {pid} s s'" "branch_page s' pid x ks (cs[length ks := c])"
    by (rule branch_set_child[OF assms order_refl])
  moreover have "cs[length ks := c] = butlast cs @ [c]" using l(1) by (cases cs rule: rev_cases) (simp_all add: list_update_append)
  moreover have "on_node pid (SetLeftChild (length ks) c) s = on_node pid (SetTailChild c) s"
    using l(2) by (simp add: on_node_def SetLeftChild_def SetTailChild_def)
  ultimately show thesis using that by metis
qed

lemma branch_reverse:
  assumes "branch_page s pid x ks cs"
  shows "branch_page (set_node pid (reverse_slots (nodes s pid)) s) pid x (rev ks) (rev (butlast cs) @ [last cs])"
proof -
  let ?n = "nodes s pid" and ?m = "reverse_slots (nodes s pid)"
  have b: "branch_node (pg_size s) ?n x ks cs" "pid < kPageMaxCount" using assms(1) by (simp_all add: branch_page_def)
  note c = branch_node_counts[OF b(1)]
  have f: "node_type ?n = kBranch" "last_modified_txid ?n = x" "\<forall>c \<in> set (separators ?n). \<not> is_overflow_pages (fst c)"
    "ks = map sep_key (separators ?n)" "cs = children ?n" using b(1) unfolding branch_node_def by blast+
  note r = reverse_slots_node[OF c(6)]
  have sep: "separators ?m = rev (separators ?n)" unfolding separators_def r(2) rev_map ..
  have "children ?m = rev (butlast cs) @ [last cs]" unfolding f(5) children_def r(2) by (simp add: rev_map reverse_slots_def)
  then show ?thesis
    using f(1-3) sep by (intro branch_pageI[OF b(2) r(1)]) (simp_all add: reverse_slots_def rev_map f(4))
qed

lemma build_branch:
  assumes "page_ok (pg_size s)" "running s = Some m" "q < kPageMaxCount"
  obtains s' where "BranchNode_Build q c s = Inr s'" "touches {q} s s'" "branch_page s' q m [] [c]"
proof -
  define n where "n = (nodes s q)\<lparr>node_type := kBranch, node_count := 0, data_offset := s16 (int (pg_size s)), space_used := 0,
    tail_child := c, last_modified_txid := m\<rparr>"
  have n: "wf_node (pg_size s) n" "cells n = []" by (rule empty_page[OF assms(1)]; simp add: n_def)+
  have "branch_page (set_node q n s) q m [] [c]"
    by (rule branch_pageI[OF assms(3) n(1)]) (simp_all add: n_def separators_def children_def n(2)[unfolded n_def])
  moreover have "BranchNode_Build q c s = Inr (set_node q n s)" using assms(2) by (auto simp: BranchNode_Build_def update_tx_def n_def)
  ultimately show thesis using that touches_stamp[of q "{q}" s m n] assms(2) n_def by simp
qed

section \<open>Splitting a branch\<close>

text \<open>
  A separator takes at most a quarter of the room. Then the branch of \<^verbatim>\<open>Split\<close> that moves the first separator
  back to the left page is not taken.
\<close>

definition small_key :: "nat \<Rightarrow> key \<Rightarrow> bool" where
  "small_key ps k \<longleftrightarrow> 4 * (8 + length k) \<le> ps - 18"

lemma small_key_inline: "page_ok ps \<Longrightarrow> small_key ps k \<Longrightarrow> length k \<le> (ps - 34) div 2"
  by (auto simp: small_key_def page_ok_def)

lemma split_branch_loop_page:
  assumes "branch_page s left x (take j ks) (take j ls @ [t])" "branch_page s right y (rev (drop j ks)) (rev (drop j ls) @ [z])"
    "left \<noteq> right" "j \<le> length ks" "length ls = length ks" "\<forall>k \<in> set ks. small_key (pg_size s) k" "\<forall>k \<in> set (tl ks). k \<noteq> []"
    "branch_cost ks \<le> pg_size s - 18" "pg_size s - 18 < 2 * branch_cost (take j ks)"
  shows "\<exists>m s'. split_branch_loop j left right s = Inr s' \<and> touches {left, right} s s' \<and> 0 < m \<and> m < j \<and>
    branch_page s' left x (take m ks) (take m ls @ [t]) \<and> branch_page s' right y (rev (drop m ks)) (rev (drop m ls) @ [z]) \<and>
    2 * branch_cost (take m ks) \<le> pg_size s - 18 \<and> pg_size s - 18 < 2 * branch_cost (take (Suc m) ks)"
  using assms
proof (induction j arbitrary: s)
  case 0
  then show ?case by simp
next
  case (Suc i)
  have i: "i < length ks" "i < length ls" using Suc.prems(4,5) by simp_all
  have bl: "branch_node (pg_size s) (nodes s left) x (take (Suc i) ks) (take (Suc i) ls @ [t])" using Suc.prems(1) by (simp add: branch_page_def)
  note cl = branch_node_counts[OF bl]
  have sk: "small_key (pg_size s) (ks ! i)" using Suc.prems(6) i(1) by simp
  have "i \<noteq> 0"
  proof
    assume "i = 0"
    then have "take (Suc i) ks = [ks ! 0]" using i by (cases ks) auto
    then show False using Suc.prems(9) sk \<open>i = 0\<close> by (simp add: small_key_def)
  qed
  have "ks ! i \<in> set (tl ks)" using \<open>i \<noteq> 0\<close> i nth_tl[of "i - 1" ks] nth_mem[of "i - 1" "tl ks"] by (cases ks) auto
  then have ne: "ks ! i \<noteq> []" using Suc.prems(7) by blast
  have dr: "drop i ks = ks ! i # drop (Suc i) ks" "drop i ls = ls ! i # drop (Suc i) ls" using i by (simp_all add: Cons_nth_drop_Suc)
  have room: "branch_cost (rev (drop (Suc i) ks)) + 8 + length (ks ! i) \<le> pg_size s - 18"
    using Suc.prems(8) dr(1) sum_list_halves[of "\<lambda>k. 8 + length k" ks i] by (simp add: sum_list_rev flip: rev_map)
  let ?c = "length (rev (drop (Suc i) ks))"
  obtain s1 where s1: "BranchNode_Insert right ?c (ks ! i) (ls ! i) False s = Inr (True, s1)" "touches {right} s s1"
    "branch_page s1 right y (insert_at ?c (ks ! i) (rev (drop (Suc i) ks))) (insert_at (if False then Suc ?c else ?c) (ls ! i) (rev (drop (Suc i) ls) @ [z]))"
    by (rule branch_insert[OF Suc.prems(2) order_refl ne small_key_inline[OF cl(5) sk] room])
  have ia: "insert_at ?c (ks ! i) (rev (drop (Suc i) ks)) = rev (drop i ks)"
    "insert_at (if False then Suc ?c else ?c) (ls ! i) (rev (drop (Suc i) ls) @ [z]) = rev (drop i ls) @ [z]"
    using dr Suc.prems(5) by (simp_all add: insert_at_def)
  note r1 = s1(3)[unfolded ia]
  have l1: "branch_page s1 left x (take (Suc i) ks) (take (Suc i) ls @ [t])" using Suc.prems(1,3) branch_page_touches[OF s1(2), of left] by simp
  obtain s2 where s2: "BranchNode_Delete left i False s1 = Inr s2" "touches {left} s1 s2"
    "branch_page s2 left x (erase_at i (take (Suc i) ks)) (erase_at (if False then Suc i else i) (take (Suc i) ls @ [t]))"
    by (rule branch_delete[OF l1, of i False]) (use i in auto)
  have er: "erase_at i (take (Suc i) ks) = take i ks" "erase_at (if False then Suc i else i) (take (Suc i) ls @ [t]) = take i ls @ [t]"
    using i by (simp_all add: erase_at_def)
  note l2 = s2(3)[unfolded er]
  have r2: "branch_page s2 right y (rev (drop i ks)) (rev (drop i ls) @ [z])" using r1 Suc.prems(3) branch_page_touches[OF s2(2), of right] by simp
  have cr: "node_count (nodes s right) = ?c" "node_count (nodes s1 left) = Suc i"
    using Suc.prems(2) l1 i branch_node_counts(1) by (auto simp: branch_page_def dest: branch_node_counts(1))
  have rd: "GetKey left i s = Inr (ks ! i)" "GetLeftChild i (nodes s left) = Inr (ls ! i)"
    using branch_page_reads(1)[OF Suc.prems(1), of i] cl(8)[of i] i by (simp_all add: nth_append)
  have t: "touches {left, right} s s2" by (rule touches_trans[OF s1(2) s2(2)]) auto
  have ps: "pg_size s2 = pg_size s" by (rule touches_fields(1)[OF t])
  note fr = branch_page_reads(2)[OF l2, unfolded ps]
  have step: "split_branch_loop (Suc i) left right s =
      (if \<not> fill_above_50 (branch_cost (take i ks), pg_size s - 18) then Inr s2 else split_branch_loop i left right s2)"
    using rd cr s1(1) s2(1) fr by (simp add: must_def BranchNode_Append_def BranchNode_Pop_def)
  show ?case
  proof (cases "pg_size s - 18 < 2 * branch_cost (take i ks)")
    case False
    then show ?thesis using step t l2 r2 Suc.prems(9) \<open>i \<noteq> 0\<close> by (intro exI[of _ i] exI[of _ s2]) (simp add: fill_above_50_def)
  next
    case True
    obtain m s' where m: "split_branch_loop i left right s2 = Inr s'" "touches {left, right} s2 s'" "0 < m" "m < i"
      "branch_page s' left x (take m ks) (take m ls @ [t])" "branch_page s' right y (rev (drop m ks)) (rev (drop m ls) @ [z])"
      "2 * branch_cost (take m ks) \<le> pg_size s - 18" "pg_size s - 18 < 2 * branch_cost (take (Suc m) ks)"
      using Suc.IH[OF l2 r2 Suc.prems(3) _ Suc.prems(5), unfolded ps, OF _ Suc.prems(6-8) True] i by auto
    moreover have "touches {left, right} s s'" by (rule touches_trans[OF t m(2)]) auto
    ultimately show ?thesis using step True by (intro exI[of _ m] exI[of _ s']) (simp add: fill_above_50_def)
  qed
qed

lemma take_insert_at: "i \<le> m \<Longrightarrow> m \<le> length xs \<Longrightarrow> take (Suc m) (insert_at i x xs) = insert_at i x (take m xs)"
  by (simp add: insert_at_def take_Cons' min_def drop_take Suc_diff_le)

lemma drop_insert_at: "i \<le> m \<Longrightarrow> m \<le> length xs \<Longrightarrow> drop (Suc m) (insert_at i x xs) = drop m xs"
  by (simp add: insert_at_def Suc_diff_le)

lemma take_insert_at_le: "m \<le> i \<Longrightarrow> i \<le> length xs \<Longrightarrow> take m (insert_at i x xs) = take m xs"
  by (simp add: insert_at_def min_def)

lemma drop_insert_at_le: "m \<le> i \<Longrightarrow> i \<le> length xs \<Longrightarrow> drop m (insert_at i x xs) = insert_at (i - m) x (drop m xs)"
  by (simp add: insert_at_def drop_take)

lemma split_branch_insert_page:
  assumes l: "branch_page s left x (take m ks) (take m ls @ [t])" and r: "branch_page s right y (drop m ks) (drop m ls @ [t])" and lr: "left \<noteq> right"
    and m: "0 < m" "m < length ks" "length ls = length ks" "2 * branch_cost (take m ks) \<le> pg_size s - 18"
      "pg_size s - 18 < 2 * branch_cost (take (Suc m) ks)"
    and ks: "\<forall>k \<in> set ks. small_key (pg_size s) k" "branch_cost ks \<le> pg_size s - 18"
    and k: "i \<le> length ks" "k \<noteq> []" "small_key (pg_size s) k"
  shows "\<exists>s' j. split_branch_insert left right i k c s = Inr s' \<and> touches {left, right} s s' \<and> 0 < j \<and> j \<le> length ks \<and>
    branch_page s' left x (take j (insert_at i k ks)) (take j (insert_at i c ls) @ [t]) \<and>
    branch_page s' right y (drop j (insert_at i k ks)) (drop j (insert_at i c ls) @ [t])"
proof -
  have bl: "branch_node (pg_size s) (nodes s left) x (take m ks) (take m ls @ [t])" using l by (simp add: branch_page_def)
  note cl = branch_node_counts[OF bl]
  have c: "node_count (nodes s left) = m" using cl(1) m(2) by simp
  note kl = small_key_inline[OF cl(5) k(3)]
  show ?thesis
  proof (cases "i \<le> m")
    case True
    obtain s' where a: "BranchNode_Insert left i k c False s = Inr (True, s')" "touches {left} s s'"
      "branch_page s' left x (insert_at i k (take m ks)) (insert_at (if False then Suc i else i) c (take m ls @ [t]))"
      by (rule branch_insert[OF l _ k(2) kl, of i c False]) (use True m k(3) in \<open>auto simp: small_key_def\<close>)
    have "insert_at i c (take m ls @ [t]) = insert_at i c (take m ls) @ [t]" using True m by (simp add: insert_at_def)
    then have "branch_page s' left x (take (Suc m) (insert_at i k ks)) (take (Suc m) (insert_at i c ls) @ [t])"
      using a(3) take_insert_at[OF True, of ks k] take_insert_at[OF True, of ls c] m by simp
    moreover have "branch_page s' right y (drop (Suc m) (insert_at i k ks)) (drop (Suc m) (insert_at i c ls) @ [t])"
      using r lr branch_page_touches[OF a(2), of right] drop_insert_at[OF True, of ks k] drop_insert_at[OF True, of ls c] m by simp
    moreover have "touches {left, right} s s'" by (rule touches_mono[OF a(2)]) auto
    moreover have "split_branch_insert left right i k c s = Inr s'" using True c a(1) by (simp add: split_branch_insert_def must_def)
    ultimately show ?thesis using m(2) by (intro exI[of _ s'] exI[of _ "Suc m"]) simp
  next
    case False
    have dm: "drop m ks = ks ! m # drop (Suc m) ks" using m(2) by (simp add: Cons_nth_drop_Suc)
    have "small_key (pg_size s) (ks ! m)" using ks(1) m(2) by simp
    then have room: "branch_cost (drop m ks) + 8 + length k \<le> pg_size s - 18"
      using k(3) m(5) ks(2) sum_list_halves[of "\<lambda>k. 8 + length k" ks "Suc m"] dm by (simp add: small_key_def)
    obtain s' where a: "BranchNode_Insert right (i - m) k c False s = Inr (True, s')" "touches {right} s s'"
      "branch_page s' right y (insert_at (i - m) k (drop m ks)) (insert_at (if False then Suc (i - m) else i - m) c (drop m ls @ [t]))"
      by (rule branch_insert[OF r _ k(2) kl room, of "i - m" c False]) (use k(1) in auto)
    have "insert_at (i - m) c (drop m ls @ [t]) = insert_at (i - m) c (drop m ls) @ [t]" using k(1) m(3) by (simp add: insert_at_def)
    then have "branch_page s' right y (drop m (insert_at i k ks)) (drop m (insert_at i c ls) @ [t])"
      using a(3) drop_insert_at_le[of m i ks k] drop_insert_at_le[of m i ls c] False m k(1) by simp
    moreover have "branch_page s' left x (take m (insert_at i k ks)) (take m (insert_at i c ls) @ [t])"
      using l lr branch_page_touches[OF a(2), of left] take_insert_at_le[of m i ks k] take_insert_at_le[of m i ls c] False k(1) m(3) by simp
    moreover have "touches {left, right} s s'" by (rule touches_mono[OF a(2)]) auto
    moreover have "split_branch_insert left right i k c s = Inr s'" using False c a(1) by (simp add: split_branch_insert_def)
    ultimately show ?thesis using m by (intro exI[of _ s'] exI[of _ m]) simp
  qed
qed

text \<open>The separator that rises: the last of the left page, or the first of the right page when the left one has a single separator.\<close>

lemma split_branch_up_page:
  assumes l: "branch_page s left x (take j ks) (take j ls @ [t])" and r: "branch_page s right y (drop j ks) (drop j ls @ [t])" and lr: "left \<noteq> right"
    and j: "0 < j" "j < length ks" "3 \<le> length ks" "length ls = length ks"
  shows "\<exists>s' i. split_branch_up left right s = Inr (ks ! i, s') \<and> touches {left, right} s s' \<and> 0 < i \<and> Suc i < length ks \<and>
    branch_page s' left x (take i ks) (take (Suc i) (ls @ [t])) \<and> branch_page s' right y (drop (Suc i) ks) (drop (Suc i) (ls @ [t]))"
proof -
  have bl: "branch_node (pg_size s) (nodes s left) x (take j ks) (take j ls @ [t])" using l by (simp add: branch_page_def)
  have br: "branch_node (pg_size s) (nodes s right) y (drop j ks) (drop j ls @ [t])" using r by (simp add: branch_page_def)
  have c: "node_count (nodes s left) = j" "node_count (nodes s right) = length ks - j"
    using branch_node_counts(1)[OF bl] branch_node_counts(1)[OF br] j(2) by simp_all
  show ?thesis
  proof (cases "2 \<le> j")
    case True
    obtain s' where a: "BranchNode_Delete left (j - 1) True s = Inr s'" "touches {left} s s'"
      "branch_page s' left x (erase_at (j - 1) (take j ks)) (erase_at (if True then Suc (j - 1) else j - 1) (take j ls @ [t]))"
      by (rule branch_delete[OF l, of "j - 1" True]) (use j in auto)
    have e: "erase_at (j - 1) (take j ks) = take (j - 1) ks" "erase_at (if True then Suc (j - 1) else j - 1) (take j ls @ [t]) = take j ls"
      using j by (simp_all add: erase_at_def min_def)
    have "Suc 0 \<le> length ks - j" using j(2) by simp
    then have "split_branch_up left right s = Inr (ks ! (j - 1), s')"
      using True c j a(1) branch_page_reads(1)[OF l, of "j - 1"] by (simp add: split_branch_up_def BranchNode_Pop_def)
    moreover have "branch_page s' right y (drop j ks) (drop j ls @ [t])" using r lr branch_page_touches[OF a(2), of right] by simp
    moreover have "touches {left, right} s s'" by (rule touches_mono[OF a(2)]) auto
    ultimately show ?thesis using a(3) e True j by (intro exI[of _ s'] exI[of _ "j - 1"]) simp
  next
    case False
    then have j1: "j = 1" using j(1) by simp
    have dk: "drop 1 ks ! 0 = ks ! 1" "(drop 1 ls @ [t]) ! 0 = ls ! 1" using j by (simp_all add: nth_append)
    obtain s1 where a: "BranchNode_Delete right 0 False s = Inr s1" "touches {right} s s1"
      "branch_page s1 right y (erase_at 0 (drop j ks)) (erase_at (if False then Suc 0 else 0) (drop j ls @ [t]))"
      by (rule branch_delete[OF r, of 0 False]) (use j in auto)
    have l1: "branch_page s1 left x (take j ks) (take j ls @ [t])" using l lr branch_page_touches[OF a(2), of left] by simp
    obtain s' where b: "on_node left (SetTailChild (ls ! 1)) s1 = Inr s'" "touches {left} s1 s'"
      "branch_page s' left x (take j ks) (butlast (take j ls @ [t]) @ [ls ! 1])"
      by (rule branch_set_tail[OF l1])
    have e: "erase_at 0 (drop j ks) = drop 2 ks" "erase_at (if False then Suc 0 else 0) (drop j ls @ [t]) = drop 2 (ls @ [t])"
      "butlast (take j ls @ [t]) @ [ls ! 1] = take 2 (ls @ [t])"
      using j1 j by (simp_all add: erase_at_def numeral_eq_Suc take_Suc_conv_app_nth nth_append)
    have "GetLeftChild 0 (nodes s right) = Inr (ls ! 1)" "GetKey right 0 s = Inr (ks ! 1)"
      using branch_node_counts(8)[OF br, of 0] branch_page_reads(1)[OF r, of 0] j j1 dk by simp_all
    moreover have "2 \<le> length ks - j" using j(3) j1 by simp
    ultimately have "split_branch_up left right s = Inr (ks ! 1, s')"
      using False c j a(1) b(1) by (simp add: split_branch_up_def)
    moreover have "branch_page s' right y (drop 2 ks) (drop 2 (ls @ [t]))"
      using a(3) e(1,2) lr branch_page_touches[OF b(2), of right] by simp
    moreover have "touches {left, right} s s'" by (rule touches_trans[OF a(2) b(2)]) auto
    moreover have "branch_page s' left x (take 1 ks) (take 2 (ls @ [t]))" using b(3) e(3) j1 by simp
    ultimately show ?thesis using j(3) by (intro exI[of _ s'] exI[of _ 1]) (simp add: numeral_eq_Suc)
  qed
qed

lemma insert_both_children:
  assumes "i < length cs"
  shows "insert_at i (cs ! i) (cs[i := d]) = insert_at (Suc i) d cs"
proof -
  have "drop i (cs[i := d]) = d # drop (Suc i) cs" using assms by (simp add: drop_update_swap Cons_nth_drop_Suc[symmetric])
  then show ?thesis using assms by (simp add: insert_at_def take_Suc_conv_app_nth)
qed

lemma Split_Branch_page:
  fixes s :: "('w, 'a) tx_db_scheme"
  assumes l: "branch_page s left x ks cs" "left \<in> L" "tx_pages L (Suc n) s"
    and ks: "\<forall>k \<in> set ks. small_key (pg_size s) k" "\<forall>k \<in> set (tl ks). k \<noteq> []"
    and k: "i \<le> length ks" "k \<noteq> []" "small_key (pg_size s) k"
    and full: "\<not> branch_cost ks + 8 + length k \<le> pg_size s - 18"
  obtains right s' mt j where "Split_Branch left i k d s = Inr (insert_at i k ks ! j, right, s')" "right \<notin> L" "grows {left} L n s (insert right L) s'"
    "running s = Some mt" "0 < j" "Suc j < length (insert_at i k ks)"
    "branch_page s' left x (take j (insert_at i k ks)) (take (Suc j) (insert_at (Suc i) d cs))"
    "branch_page s' right mt (drop (Suc j) (insert_at i k ks)) (drop (Suc j) (insert_at (Suc i) d cs))"
proof -
  have bl: "branch_node (pg_size s) (nodes s left) x ks cs" using l by (simp add: branch_page_def)
  note cl = branch_node_counts[OF bl]
  obtain right s1 where a: "Alloc 1 s = Inr (right, s1)" "Reference right s1 = Inr right" "right < kPageMaxCount" "right \<notin> L"
    "grows {} L n s (insert right L) s1"
    by (rule new_page[OF l(3)])
  note g1 = grows_fields[OF a(5)]
  have lr: "left \<noteq> right" using a(4) l(2) by blast
  obtain mt where mt: "running s = Some mt" using tx_running[OF l(3)] by blast
  obtain s2 where b: "BranchNode_Build right kPageInvalidId s1 = Inr s2" "touches {right} s1 s2" "branch_page s2 right mt [] [kPageInvalidId]"
    by (rule build_branch[of s1 mt right kPageInvalidId]) (use cl(5) g1(1,2) mt a(3) in auto)
  have "branch_page s1 left x ks cs" using l(1,2) branch_page_cong[of s1 left s] g1(1) g1(6)[of left] by simp
  then have l2: "branch_page s2 left x ks cs" using branch_page_touches[OF b(2), of left] lr by simp
  then have "branch_node (pg_size s2) (nodes s2 left) x ks cs" by (simp add: branch_page_def)
  note c2 = branch_node_counts[OF this]
  have half: "pg_size s - 18 < 2 * branch_cost ks" using full k(3) by (simp add: small_key_def)
  have len: "2 \<le> length ks"
  proof (rule ccontr)
    assume "\<not> 2 \<le> length ks"
    then have "ks = [] \<or> (\<exists>a. ks = [a])" by (cases ks; cases "tl ks") auto
    then show False using half ks(1) by (auto simp: small_key_def)
  qed
  note room = branch_page_reads(3)[OF l(1)]
  obtain s3 where s3: "on_node left (SetLeftChild i d) s2 = Inr s3" "touches {left} s2 s3" "branch_page s3 left x ks (cs[i := d])"
    by (rule branch_set_child[OF l2 k(1)])
  define ls t where "ls = butlast (cs[i := d])" and "t = last (cs[i := d])"
  have lt: "cs[i := d] = ls @ [t]" "length ls = length ks" using cl(2) by (simp_all add: ls_def t_def append_butlast_last_id[symmetric] del: append_butlast_last_id) (metis append_butlast_last_id length_0_conv length_list_update nat.distinct(1))
  have r3: "branch_page s3 right mt [] [kPageInvalidId]" using b(3) lr branch_page_touches[OF s3(2), of right] by simp
  have t3: "touches {left, right} s1 s3" by (rule touches_trans[OF b(2) s3(2)]) auto
  have ps: "pg_size s2 = pg_size s" "pg_size s3 = pg_size s" using touches_fields(1)[OF t3] touches_fields(1)[OF b(2)] g1(1) by simp_all
  obtain m s4 where m: "split_branch_loop (length ks) left right s3 = Inr s4" "touches {left, right} s3 s4" "0 < m" "m < length ks"
    "branch_page s4 left x (take m ks) (take m ls @ [t])" "branch_page s4 right mt (rev (drop m ks)) (rev (drop m ls) @ [kPageInvalidId])"
    "2 * branch_cost (take m ks) \<le> pg_size s - 18" "pg_size s - 18 < 2 * branch_cost (take (Suc m) ks)"
    using split_branch_loop_page[of s3 left x "length ks" ks ls t right mt kPageInvalidId, unfolded ps(2)] s3(3) r3 lr lt ks room half by auto
  let ?s5 = "set_node right (reverse_slots (nodes s4 right)) s4"
  have t5: "touches {right} s4 ?s5" by (simp add: reverse_slots_def)
  have r5: "branch_page ?s5 right mt (drop m ks) (drop m ls @ [kPageInvalidId])" using branch_reverse[OF m(6)] by simp
  have l5: "branch_page ?s5 left x (take m ks) (take m ls @ [t])" using m(5) branch_page_touches[OF t5, of left] lr by simp
  then have tl5: "tail_child (nodes ?s5 left) = t" using branch_node_counts(9) by (fastforce simp: branch_page_def)
  obtain s6 where s6: "on_node right (SetTailChild t) ?s5 = Inr s6" "touches {right} ?s5 s6"
    "branch_page s6 right mt (drop m ks) (butlast (drop m ls @ [kPageInvalidId]) @ [t])"
    by (rule branch_set_tail[OF r5])
  have r6: "branch_page s6 right mt (drop m ks) (drop m ls @ [t])" using s6(3) by simp
  have l6: "branch_page s6 left x (take m ks) (take m ls @ [t])" using l5 branch_page_touches[OF s6(2), of left] lr by simp
  have t6: "touches {left, right} s1 s6"
    by (rule touches_mono[OF touches_join[OF touches_join[OF touches_join[OF t3 m(2)] t5] s6(2)]]) auto
  have p6: "pg_size s6 = pg_size s" "pg_size ?s5 = pg_size s"
    using touches_fields(1)[OF t6] touches_fields(1)[OF s6(2)] g1(1) by simp_all
  let ?ks = "insert_at i k ks" and ?ls = "insert_at i (cs ! i) ls"
  obtain s7 j where s7: "split_branch_insert left right i k (cs ! i) s6 = Inr s7" "touches {left, right} s6 s7" "0 < j" "j \<le> length ks"
    "branch_page s7 left x (take j ?ks) (take j ?ls @ [t])" "branch_page s7 right mt (drop j ?ks) (drop j ?ls @ [t])"
    using split_branch_insert_page[OF l6 r6 lr m(3,4) lt(2), unfolded p6(1), OF m(7,8) ks(1) room k, of "cs ! i"] by blast
  obtain s8 u where s8: "split_branch_up left right s7 = Inr (?ks ! u, s8)" "touches {left, right} s7 s8" "0 < u" "Suc u < length ?ks"
    "branch_page s8 left x (take u ?ks) (take (Suc u) (?ls @ [t]))" "branch_page s8 right mt (drop (Suc u) ?ks) (drop (Suc u) (?ls @ [t]))"
    using split_branch_up_page[OF s7(5,6) lr s7(3)] s7(4) len lt(2) by auto
  have "?ls @ [t] = insert_at i (cs ! i) (cs[i := d])" using lt k(1) by (simp add: insert_at_def)
  also have "\<dots> = insert_at (Suc i) d cs" by (rule insert_both_children) (use k(1) cl(2) in simp)
  finally have chl: "?ls @ [t] = insert_at (Suc i) d cs" .
  have "Split_Branch left i k d s = Inr (?ks ! u, right, s8)"
    using a(1,2) b(1) m(1) k(1) len half m(7) cl(1) c2(1) c2(8)[OF k(1)] branch_page_reads(2)[OF l2] branch_page_reads(2)[OF l5] ps p6(2)
      s3(1) s6(1) s7(1) s8(1) tl5
    by (simp add: Split_Branch_def fill_above_50_def Let_def)
  moreover have "touches {left, right} s1 s8" by (rule touches_mono[OF touches_join[OF touches_join[OF t6 s7(2)] s8(2)]]) auto
  then have "grows {left, right} (insert right L) n s1 (insert right L) s8" by (rule grows_touches[OF g1(4)])
  then have "grows {left} L n s (insert right L) s8" by (rule grows_trans[OF a(5)]) (use a(4) in auto)
  ultimately show thesis using that a(4) mt s8(3-6) chl by metis
qed

end
