(* ===== verification/Atomkv_Forest.thy ===== *)
theory Atomkv_Forest
  imports Atomkv_Split
begin

text \<open>
  Abstract trees as separators and subtrees, the place of a new entry in a list in key order, and the
  subtrees under one branch page with the sets of pages they occupy: what a split
  cuts in two.
\<close>


section \<open>Entries in key order\<close>

definition ins_entry :: "key \<Rightarrow> byte list \<times> bool \<Rightarrow> entry list \<Rightarrow> entry list" where
  "ins_entry k w es = takeWhile (\<lambda>e. fst e < k) es @ (k, w) # dropWhile (\<lambda>e. fst e \<le> k) es"

lemma ins_entry_at:
  assumes "\<forall>e \<in> set xs. fst e < k" "\<forall>e \<in> set zs. k < fst e"
  shows "ins_entry k w (xs @ zs) = xs @ (k, w) # zs" "ins_entry k w (xs @ (k, v) # zs) = xs @ (k, w) # zs"
proof -
  have z: "takeWhile (\<lambda>e. fst e < k) zs = []" "dropWhile (\<lambda>e. fst e \<le> k) zs = zs"
    using assms(2) by (cases zs; simp add: not_less less_imp_le not_le)+
  have x: "takeWhile (\<lambda>e. fst e < k) (xs @ ys) = xs @ takeWhile (\<lambda>e. fst e < k) ys"
    "dropWhile (\<lambda>e. fst e \<le> k) (xs @ ys) = dropWhile (\<lambda>e. fst e \<le> k) ys" for ys
    using assms(1) by (simp_all add: takeWhile_append2 dropWhile_append2 less_imp_le)
  show "ins_entry k w (xs @ zs) = xs @ (k, w) # zs" "ins_entry k w (xs @ (k, v) # zs) = xs @ (k, w) # zs"
    using x[of zs] x[of "(k, v) # zs"] z by (simp_all add: ins_entry_def)
qed

lemma ins_entry_mid:
  assumes "\<forall>e \<in> set A. fst e < k" "\<forall>e \<in> set C. k < fst e"
  shows "ins_entry k w (A @ B @ C) = A @ ins_entry k w B @ C"
proof -
  have t: "takeWhile (\<lambda>e. fst e < k) (B @ C) = takeWhile (\<lambda>e. fst e < k) B"
    using assms(2) by (induction B) (cases C; force)+
  have d: "dropWhile (\<lambda>e. fst e \<le> k) (B @ C) = dropWhile (\<lambda>e. fst e \<le> k) B @ C"
    using assms(2) by (induction B) (cases C; force)+
  show ?thesis using assms(1) t d by (simp add: ins_entry_def takeWhile_append2 dropWhile_append2 less_imp_le)
qed

lemma ins_entry_split:
  assumes "sorted_wrt (<) (map fst es)"
  obtains xs ys zs where "es = xs @ ys @ zs" "ins_entry k w es = xs @ (k, w) # zs" "\<forall>e \<in> set xs. fst e < k" "\<forall>e \<in> set zs. k < fst e"
    "ys = [] \<or> (\<exists>v. ys = [(k, v)])"
proof -
  define xs r where "xs = takeWhile (\<lambda>e. fst e < k) es" and "r = dropWhile (\<lambda>e. fst e < k) es"
  have es: "es = xs @ r" by (simp add: xs_def r_def)
  have lt: "\<forall>e \<in> set xs. fst e < k" by (auto simp: xs_def dest: set_takeWhileD)
  have sr: "sorted_wrt (<) (map fst r)" using assms es by (simp add: sorted_wrt_append)
  show thesis
  proof (cases r)
    case Nil
    then show ?thesis using that[of xs "[]" "[]"] es lt ins_entry_at(1)[OF lt, of "[]"] by simp
  next
    case (Cons e zs)
    have ge: "k \<le> fst e" using hd_dropWhile[of "\<lambda>e. fst e < k" es] Cons unfolding r_def by (simp add: not_less)
    have zs: "\<forall>e' \<in> set zs. fst e < fst e'" using sr Cons by simp
    show ?thesis
    proof (cases "fst e = k")
      case True
      then obtain v where e: "e = (k, v)" by (cases e) simp
      have z: "\<forall>e' \<in> set zs. k < fst e'" using zs e by simp
      show ?thesis by (rule that[of xs "[e]" zs]) (use es Cons lt z e ins_entry_at(2)[OF lt z] in auto)
    next
      case False
      have z: "\<forall>e' \<in> set (e # zs). k < fst e'" using zs ge False by auto
      show ?thesis by (rule that[of xs "[]" "e # zs"]) (use es Cons lt z ins_entry_at(1)[OF lt z] in auto)
    qed
  qed
qed

lemma ins_entry_sorted:
  assumes "sorted_wrt (<) (map fst es)"
  shows "sorted_wrt (<) (map fst (ins_entry k w es))" "set (ins_entry k w es) \<subseteq> insert (k, w) (set es)"
    "map_of (ins_entry k w es) = (map_of es)(k \<mapsto> w)"
proof -
  obtain xs ys zs where e: "es = xs @ ys @ zs" "ins_entry k w es = xs @ (k, w) # zs" "\<forall>e \<in> set xs. fst e < k" "\<forall>e \<in> set zs. k < fst e"
    "ys = [] \<or> (\<exists>v. ys = [(k, v)])" by (rule ins_entry_split[OF assms])
  have "sorted_wrt (<) (map fst xs)" "sorted_wrt (<) (map fst zs)" using assms e(1) by (simp_all add: sorted_wrt_append)
  then show "sorted_wrt (<) (map fst (ins_entry k w es))" using e(2-4) by (fastforce simp: sorted_wrt_append)
  show "set (ins_entry k w es) \<subseteq> insert (k, w) (set es)" using e(1,2) by auto
  show "map_of (ins_entry k w es) = (map_of es)(k \<mapsto> w)"
    unfolding e(2) unfolding e(1) by (rule map_of_replace) (use e(3,5) in auto)
qed


section \<open>A branch as separators and subtrees\<close>

definition mk_node :: "key list \<Rightarrow> bt list \<Rightarrow> bt" where
  "mk_node ks us = BNode (zip us ks) (last us)"

lemma mk_node_kids: "BNode ts t = mk_node (map snd ts) (map fst ts @ [t])"
  by (simp add: mk_node_def zip_append1 zip_map_fst_snd)

lemma mk_node_parts:
  assumes "length us = Suc (length ks)"
  shows "map snd (zip us ks) = ks" "length (zip us ks) = length ks" "j \<le> length ks \<Longrightarrow> kid (zip us ks) (last us) j = us ! j"
    "entries (mk_node ks us) = concat (map entries us)" "map fst (zip us ks) @ [last us] = us"
proof -
  obtain vs u where us: "us = vs @ [u]" "length vs = length ks" using assms by (cases us rule: rev_cases) auto
  have z: "zip us ks = zip vs ks" using us by (simp add: zip_append1)
  show "map snd (zip us ks) = ks" "length (zip us ks) = length ks" "map fst (zip us ks) @ [last us] = us" using us z by simp_all
  show "j \<le> length ks \<Longrightarrow> kid (zip us ks) (last us) j = us ! j" using us z by (auto simp: kid_def nth_append)
  have "map (\<lambda>x. entries (fst x)) (zip vs ks) = map entries vs" using us(2) by (intro nth_equalityI) auto
  then show "entries (mk_node ks us) = concat (map entries us)" using us z by (simp add: mk_node_def)
qed

text \<open>A separator is above the subtree on its left and not above the one on its right.\<close>

fun adj :: "key list \<Rightarrow> bt list \<Rightarrow> bool" where
  "adj [] [u] \<longleftrightarrow> True"
| "adj (k # ks) (u # v # us) \<longleftrightarrow> (\<forall>e \<in> set (entries u). fst e < k) \<and> (\<forall>e \<in> set (entries v). k \<le> fst e) \<and> adj ks (v # us)"
| "adj ks us \<longleftrightarrow> False"

lemma adj_length: "adj ks us \<Longrightarrow> length us = Suc (length ks)"
  by (induction ks us rule: adj.induct) auto

lemma adj_append:
  "length us1 = length ks1 \<Longrightarrow> adj (ks1 @ ks2) (us1 @ u # us2) \<longleftrightarrow> adj ks1 (us1 @ [u]) \<and> adj ks2 (u # us2)"
proof (induction ks1 arbitrary: us1)
  case (Cons k ks1)
  then obtain v us where v: "us1 = v # us" "length us = length ks1" by (cases us1) auto
  then show ?case using Cons.IH[of us] by (cases us) auto
qed simp

lemma adj_last:
  "adj ks (us @ [u]) \<Longrightarrow> ks \<noteq> [] \<longrightarrow> (\<forall>e \<in> set (entries v). last ks \<le> fst e) \<Longrightarrow> adj ks (us @ [v])"
proof (induction ks arbitrary: us)
  case (Cons k ks)
  then obtain w ws where w: "us = w # ws" by (cases us) auto
  show ?case
  proof (cases ws)
    case Nil
    then show ?thesis using Cons.prems w by (cases ks) auto
  next
    case (Cons y ys)
    then show ?thesis using Cons.IH[of ws] Cons.prems w by (cases ks) auto
  qed
next
  case Nil
  then show ?case by (cases us; cases "List.tl us") auto
qed

lemma adj_first: "adj ks (u # us) \<Longrightarrow> ks \<noteq> [] \<longrightarrow> (\<forall>e \<in> set (entries v). fst e < hd ks) \<Longrightarrow> adj ks (v # us)"
  by (cases ks; cases us) auto

lemma adj_lower:
  assumes "adj ks us" "\<forall>u \<in> set us. entries u \<noteq> []" "i < length ks" "j \<le> i" "e \<in> set (entries (us ! j))"
  shows "fst e < ks ! i"
  using assms
proof (induction ks us arbitrary: i j e rule: adj.induct)
  case (2 k ks u v us)
  show ?case
  proof (cases i)
    case 0
    then show ?thesis using 2 by simp
  next
    case (Suc i')
    then have IH: "\<And>j e. j \<le> i' \<Longrightarrow> e \<in> set (entries ((v # us) ! j)) \<Longrightarrow> fst e < ks ! i'" using 2 by auto
    show ?thesis
    proof (cases j)
      case 0
      obtain e' where e': "e' \<in> set (entries v)" using 2(3) by (cases "entries v") auto
      have "fst e < k" "k \<le> fst e'" "fst e' < ks ! i'" using 2 0 e' IH[of 0 e'] by auto
      then show ?thesis using Suc by auto
    next
      case (Suc j')
      then show ?thesis using IH[of j' e] 2(5,6) \<open>i = Suc i'\<close> by simp
    qed
  qed
qed simp_all

lemma adj_upper:
  assumes "adj ks us" "\<forall>u \<in> set us. entries u \<noteq> []" "i < j" "j \<le> length ks" "e \<in> set (entries (us ! j))"
  shows "ks ! i \<le> fst e"
  using assms
proof (induction ks us arbitrary: i j e rule: adj.induct)
  case (2 k ks u v us)
  obtain j' where j: "j = Suc j'" using 2(4) by (cases j) auto
  show ?case
  proof (cases i)
    case 0
    show ?thesis
    proof (cases j')
      case 0
      then show ?thesis using 2 j \<open>i = 0\<close> by simp
    next
      case (Suc l)
      obtain e' where e': "e' \<in> set (entries v)" using 2(3) by (cases "entries v") auto
      have "k \<le> fst e'" "fst e' < ks ! 0" using 2 e' adj_lower[of ks "v # us" 0 0 e'] j Suc by (auto simp del: length_greater_0_conv)
      moreover have "ks ! 0 \<le> fst e" using 2(1)[of 0 "Suc l" e] 2(2-) j Suc by auto
      ultimately show ?thesis using \<open>i = 0\<close> by auto
    qed
  next
    case (Suc i')
    then show ?thesis using 2 j by auto
  qed
qed simp_all

lemma adj_cut:
  assumes "adj ks us" "j < length ks"
  shows "adj (take j ks) (take (Suc j) us)" "adj (drop (Suc j) ks) (drop (Suc j) us)"
proof -
  have l: "length us = Suc (length ks)" using adj_length[OF assms(1)] .
  have k: "ks = take j ks @ ks ! j # drop (Suc j) ks" using assms(2) by (simp add: id_take_nth_drop[symmetric])
  have u: "us = take j us @ us ! j # drop (Suc j) us" using assms(2) l by (simp add: id_take_nth_drop[symmetric])
  have "adj (take j ks) (take j us @ [us ! j]) \<and> adj (ks ! j # drop (Suc j) ks) (us ! j # drop (Suc j) us)"
    using assms k u l by (subst adj_append[symmetric]) auto
  then show "adj (take j ks) (take (Suc j) us)" "adj (drop (Suc j) ks) (drop (Suc j) us)"
    using assms(2) l by (simp_all add: take_Suc_conv_app_nth) (cases "drop (Suc j) us", auto)
qed

lemma adj_sorted: "adj ks us \<Longrightarrow> \<forall>u \<in> set us. entries u \<noteq> [] \<Longrightarrow> sorted_wrt (<) ks \<and> [] \<notin> set ks"
proof -
  assume a: "adj ks us" "\<forall>u \<in> set us. entries u \<noteq> []"
  have some: "\<exists>e. e \<in> set (entries (us ! j))" if "j \<le> length ks" for j
    using a(2) adj_length[OF a(1)] that by (metis last_in_set le_imp_less_Suc nth_mem)
  have "ks ! i < ks ! j" if "i < j" "j < length ks" for i j
  proof -
    have "\<exists>e. e \<in> set (entries (us ! j))" using some[of j] that by simp
    then obtain e where "e \<in> set (entries (us ! j))" ..
    then have "ks ! i \<le> fst e" "fst e < ks ! j" using adj_upper[OF a, of i j e] adj_lower[OF a, of j j e] that by auto
    then show ?thesis by auto
  qed
  moreover have "ks ! j \<noteq> []" if "j < length ks" for j
  proof -
    have "\<exists>e. e \<in> set (entries (us ! j))" using some[of j] that by simp
    then obtain e where "e \<in> set (entries (us ! j))" ..
    then have "fst e < ks ! j" by (rule adj_lower[OF a that order_refl])
    then show ?thesis by auto
  qed
  ultimately show ?thesis by (auto simp: sorted_wrt_iff_nth_less in_set_conv_nth)
qed


section \<open>Subtrees of a transaction\<close>

text \<open>
  Entries that are stored in their page, two to a page, with keys that take with their slot at most the part \<open>1 / f\<close>
  of the room of a page, a quarter at most.
\<close>

definition key_bound :: "nat \<Rightarrow> nat \<Rightarrow> key \<Rightarrow> bool" where
  "key_bound f ps k \<longleftrightarrow> 4 \<le> f \<and> f * (8 + length k) \<le> ps - 18"

lemma key_bound_small: "key_bound f ps k \<Longrightarrow> small_key ps k"
  using mult_le_mono1[of 4 f "8 + length k"] by (auto simp: key_bound_def small_key_def)

definition small_entry :: "nat \<Rightarrow> nat \<Rightarrow> entry \<Rightarrow> bool" where
  "small_entry f ps e \<longleftrightarrow> 2 * entry_cost e \<le> ps - 18 \<and> key_bound f ps (fst e) \<and> short_key (fst e)"

fun small_bt :: "nat \<Rightarrow> nat \<Rightarrow> bt \<Rightarrow> bool" where
  "small_bt f ps (BLeaf es) \<longleftrightarrow> (\<forall>e \<in> set es. small_entry f ps e)"
| "small_bt f ps (BNode ts t) \<longleftrightarrow> (\<forall>x \<in> set ts. small_bt f ps (fst x) \<and> key_bound f ps (snd x)) \<and> small_bt f ps t"

lemma small_entry_fit: "small_entry f ps e \<Longrightarrow> 0 < length (fst e) + length (fst (snd e)) \<Longrightarrow> fit_entry ps e"
  by (auto simp: small_entry_def entry_cost_def fit_entry_def)

text \<open>All leaves are at the same depth.\<close>

fun uniform :: "nat \<Rightarrow> bt \<Rightarrow> bool" where
  "uniform 0 (BLeaf es) \<longleftrightarrow> True"
| "uniform (Suc h) (BNode ts t) \<longleftrightarrow> (\<forall>x \<in> set ts. uniform h (fst x)) \<and> uniform h t"
| "uniform h t \<longleftrightarrow> False"

lemma uniform_kid: "uniform (Suc h) (BNode ts t) \<Longrightarrow> uniform h (kid ts t i)"
  by (auto simp: kid_def)

lemma uniform_height: "uniform h t \<Longrightarrow> height t = h"
proof (induction h t rule: uniform.induct)
  case (2 h ts t)
  have "fold max hs x = x" if "\<forall>y \<in> set hs. y = x" for hs and x :: nat using that by (induction hs) auto
  then show ?case using 2 by simp
qed simp_all

text \<open>A branch has at least two subtrees, so the number of pages bounds the height: the path stack is never too small.\<close>

lemma owns_pages:
  assumes "owns s t pid P" "uniform h t" "ordered_bt t"
  shows "P \<subseteq> {..<kPageMaxCount} \<and> 2 ^ h \<le> card P"
  using assms
proof (induction t arbitrary: pid P h rule: bt_kid_induct)
  case (Leaf es)
  then show ?case by (cases h) (auto simp: owns_leaf leaf_view_def)
next
  case (Branch ts t)
  obtain h' where h: "h = Suc h'" using Branch.prems(2) by (cases h) auto
  obtain Q where q: "branch_view s pid (map snd ts)" "P = insert pid (\<Union>i \<in> {..length ts}. Q i)" "apart pid (length ts) Q"
    "\<forall>i \<le> length ts. owns s (kid ts t i) (kid_page (nodes s pid) i) (Q i)"
    by (rule owns_branchE[OF Branch.prems(1)])
  have k: "Q i \<subseteq> {..<kPageMaxCount} \<and> 2 ^ h' \<le> card (Q i)" if "i \<le> length ts" for i
    using Branch.IH[OF that] q(4) uniform_kid Branch.prems(2) ordered_kid[OF Branch.prems(3)] that h by blast
  have sb: "P \<subseteq> {..<kPageMaxCount}" using k q(1,2) by (auto simp: branch_view_def)
  then have "finite P" using finite_subset by blast
  have l: "1 \<le> length ts" using Branch.prems(3) by (cases ts) auto
  then have d: "Q 0 \<inter> Q 1 = {}" "Q 0 \<union> Q 1 \<subseteq> P" using q(2,3) by (auto simp: apart_def)
  then have "finite (Q 0)" "finite (Q 1)" using \<open>finite P\<close> finite_subset by auto
  then have "card (Q 0) + card (Q 1) \<le> card P" using card_Un_disjoint[of "Q 0" "Q 1"] d card_mono[OF \<open>finite P\<close> d(2)] by simp
  then show ?case using k[of 0] k[of 1] l h sb by simp
qed

definition sub :: "('w, 'a) tx_db_scheme \<Rightarrow> nat \<Rightarrow> nat \<Rightarrow> bt \<Rightarrow> PageId \<Rightarrow> PageId set \<Rightarrow> bool" where
  "sub s f h t pid P \<longleftrightarrow> owns s t pid P \<and> fresh_up s t pid \<and> ordered_bt t \<and> (t = BLeaf [] \<or> full_leaves t) \<and>
     small_bt f (pg_size s) t \<and> uniform h t"

lemma sub_frame:
  assumes "sub s f h t pid P" "\<forall>q \<in> P. nodes s' q = nodes s q" "paged s s'"
  shows "sub s' f h t pid P"
  using assms owns_frame[of s t pid P s'] fresh_frame[of s t pid P s'] paged_fields(1)[OF assms(3)] by (auto simp: sub_def)

lemma sub_height: "sub s f h t pid P \<Longrightarrow> height t = h \<and> h < 32"
proof -
  assume "sub s f h t pid P"
  then have u: "uniform h t" "P \<subseteq> {..<kPageMaxCount}" "2 ^ h \<le> card P" using owns_pages[of s t pid P h] by (auto simp: sub_def)
  have "card P \<le> 2 ^ 31" using card_mono[OF _ u(2)] by (simp add: kPageMaxCount_def)
  then have "(2::nat) ^ h \<le> 2 ^ 31" using u(3) by (rule order_trans[rotated])
  then have "h \<le> 31" using power_le_imp_le_exp[of 2 h 31] by simp
  then show ?thesis using uniform_height[OF u(1)] by simp
qed

text \<open>The subtrees below a branch page: none is empty, no page is used twice.\<close>

fun forest :: "('w, 'a) tx_db_scheme \<Rightarrow> nat \<Rightarrow> nat \<Rightarrow> bt list \<Rightarrow> PageId list \<Rightarrow> PageId set list \<Rightarrow> bool" where
  "forest s f h [] [] [] \<longleftrightarrow> True"
| "forest s f h (u # us) (c # cs) (Q # Qs) \<longleftrightarrow> sub s f h u c Q \<and> full_leaves u \<and> Q \<inter> \<Union> (set Qs) = {} \<and> forest s f h us cs Qs"
| "forest s f h us cs Qs \<longleftrightarrow> False"

lemma forest_length: "forest s f h us cs Qs \<Longrightarrow> length cs = length us \<and> length Qs = length us"
  by (induction s f h us cs Qs rule: forest.induct) auto

lemma forest_append:
  "length cs1 = length us1 \<Longrightarrow> length Qs1 = length us1 \<Longrightarrow> forest s f h (us1 @ us2) (cs1 @ cs2) (Qs1 @ Qs2) \<longleftrightarrow>
     forest s f h us1 cs1 Qs1 \<and> forest s f h us2 cs2 Qs2 \<and> \<Union> (set Qs1) \<inter> \<Union> (set Qs2) = {}"
proof (induction us1 arbitrary: cs1 Qs1)
  case (Cons u us1)
  then obtain c cs Q Qs where "cs1 = c # cs" "Qs1 = Q # Qs" by (cases cs1; cases Qs1) auto
  then show ?case using Cons by auto
qed simp

lemma forest_cut:
  assumes "forest s f h us cs Qs"
  shows "forest s f h (take m us) (take m cs) (take m Qs)" "forest s f h (drop m us) (drop m cs) (drop m Qs)"
    "\<Union> (set (take m Qs)) \<inter> \<Union> (set (drop m Qs)) = {}" "\<Union> (set (take m Qs)) \<union> \<Union> (set (drop m Qs)) = \<Union> (set Qs)"
proof -
  have l: "length cs = length us" "length Qs = length us" using forest_length[OF assms] by auto
  show "forest s f h (take m us) (take m cs) (take m Qs)" "forest s f h (drop m us) (drop m cs) (drop m Qs)" "\<Union> (set (take m Qs)) \<inter> \<Union> (set (drop m Qs)) = {}"
    using assms forest_append[of "take m cs" "take m us" "take m Qs" s f h "drop m us" "drop m cs" "drop m Qs"] l by auto
  show "\<Union> (set (take m Qs)) \<union> \<Union> (set (drop m Qs)) = \<Union> (set Qs)" by (metis append_take_drop_id set_append Union_Un_distrib)
qed

lemma forest_nth:
  assumes "forest s f h us cs Qs" "i < length us"
  shows "sub s f h (us ! i) (cs ! i) (Qs ! i)" "full_leaves (us ! i)" "j < length us \<Longrightarrow> i \<noteq> j \<Longrightarrow> Qs ! i \<inter> Qs ! j = {}"
proof -
  have "sub s f h (us ! i) (cs ! i) (Qs ! i) \<and> full_leaves (us ! i) \<and> (\<forall>j < length us. i \<noteq> j \<longrightarrow> Qs ! i \<inter> Qs ! j = {})"
    using assms
  proof (induction s f h us cs Qs arbitrary: i rule: forest.induct)
    case (2 s f h u us c cs Q Qs)
    have l: "length Qs = length us" using 2 forest_length[of s f h us cs Qs] by auto
    have d: "Q \<inter> Qs ! j = {}" if "j < length us" for j
    proof -
      have "Qs ! j \<in> set Qs" using that l by simp
      then show ?thesis using 2(2) by auto
    qed
    show ?case
    proof (cases i)
      case 0
      then show ?thesis using 2 d by (auto simp: nth_Cons split: nat.split)
    next
      case (Suc i')
      then have "Qs ! i' \<inter> Q = {}" using d[of i'] 2 by auto
      then show ?thesis using 2 Suc by (auto simp: nth_Cons split: nat.split)
    qed
  qed auto
  then show "sub s f h (us ! i) (cs ! i) (Qs ! i)" "full_leaves (us ! i)" "j < length us \<Longrightarrow> i \<noteq> j \<Longrightarrow> Qs ! i \<inter> Qs ! j = {}" by auto
qed

lemma forestI:
  assumes "length cs = length us" "length Qs = length us" "\<And>i. i < length us \<Longrightarrow> sub s f h (us ! i) (cs ! i) (Qs ! i) \<and> full_leaves (us ! i)"
    "\<And>i j. i < j \<Longrightarrow> j < length us \<Longrightarrow> Qs ! i \<inter> Qs ! j = {}"
  shows "forest s f h us cs Qs"
  using assms
proof (induction us arbitrary: cs Qs)
  case (Cons u us)
  then obtain c cs' Q Qs' where c: "cs = c # cs'" "Qs = Q # Qs'" "length cs' = length us" "length Qs' = length us" by (cases cs; cases Qs) auto
  have "sub s f h ((u # us) ! i) (cs ! i) (Qs ! i) \<and> full_leaves ((u # us) ! i)" if "i \<le> length us" for i using Cons.prems(3)[of i] that by simp
  from this[of 0] this[of "Suc _"] have n: "sub s f h u c Q \<and> full_leaves u" "\<And>i. i < length us \<Longrightarrow> sub s f h (us ! i) (cs' ! i) (Qs' ! i) \<and> full_leaves (us ! i)"
    using c by auto
  have d: "Q \<inter> Qs' ! j = {}" if "j < length us" for j using Cons.prems(4)[of 0 "Suc j"] that c by simp
  have "Qs' ! i \<inter> Qs' ! j = {}" if "i < j" "j < length us" for i j using Cons.prems(4)[of "Suc i" "Suc j"] that c by simp
  then have "forest s f h us cs' Qs'" using Cons.IH c n(2) by blast
  moreover have "Q \<inter> \<Union> (set Qs') = {}" using d c(4) by (force simp: in_set_conv_nth)
  ultimately show ?case using c n(1) by simp
qed simp

lemma forest_frame:
  "forest s f h us cs Qs \<Longrightarrow> \<forall>q \<in> \<Union> (set Qs). nodes s' q = nodes s q \<Longrightarrow> paged s s' \<Longrightarrow> forest s' f h us cs Qs"
  by (induction s f h us cs Qs rule: forest.induct) (auto intro: sub_frame)

lemma forest_full: "forest s f h us cs Qs \<Longrightarrow> u \<in> set us \<Longrightarrow> full_leaves u \<and> entries u \<noteq> []"
  using forest_nth(2) full_entries by (metis in_set_conv_nth)

lemma uniform_mk_node: "length us = Suc (length ks) \<Longrightarrow> uniform (Suc h) (mk_node ks us) \<longleftrightarrow> (\<forall>u \<in> set us. uniform h u)"
proof -
  assume l: "length us = Suc (length ks)"
  then obtain vs u where us: "us = vs @ [u]" "length vs = length ks" by (cases us rule: rev_cases) auto
  have "map fst (zip us ks) = vs" using us by (simp add: zip_append1)
  then have "(\<forall>x \<in> set (zip us ks). uniform h (fst x)) \<longleftrightarrow> (\<forall>u \<in> set vs. uniform h u)" by (metis (no_types, lifting) image_iff list.set_map)
  then show ?thesis using us(1) by (auto simp: mk_node_def)
qed

lemma ordered_mk_node:
  assumes "adj ks us" "ks \<noteq> []" "\<forall>u \<in> set us. ordered_bt u \<and> full_leaves u" "\<forall>k \<in> set ks. short_key k"
  shows "ordered_bt (mk_node ks us)" "full_leaves (mk_node ks us)"
proof -
  have l: "length us = Suc (length ks)" using adj_length[OF assms(1)] .
  note p = mk_node_parts[OF l]
  have ne: "\<forall>u \<in> set us. entries u \<noteq> []" using assms(3) full_entries by blast
  have s: "sorted_wrt (<) ks" using adj_sorted[OF assms(1) ne] by blast
  have sep: "snd (zip us ks ! i) = ks ! i" if "i < length ks" for i using that l by simp
  have "if j \<le> i then k < snd (zip us ks ! i) else snd (zip us ks ! i) \<le> k"
    if "i < length ks" "j \<le> length ks" "k \<in> set (bt_keys (kid (zip us ks) (last us) j))" for i j k
    using that adj_lower[OF assms(1) ne, of i j] adj_upper[OF assms(1) ne, of i j] p(3)[of j] sep[of i] by auto
  moreover have "\<forall>j \<le> length ks. ordered_bt (kid (zip us ks) (last us) j)" using p(3) assms(3) l by simp
  ultimately show "ordered_bt (mk_node ks us)"
    unfolding mk_node_def ordered_bt_kids p(1,2) using assms(2,4) s p(2) by (metis length_0_conv)
  show "full_leaves (mk_node ks us)"
    using assms(3) l by (cases us rule: rev_cases) (auto simp: mk_node_def zip_append1 dest: set_zip_leftD)
qed

lemma small_mk_node: "length us = Suc (length ks) \<Longrightarrow> small_bt f ps (mk_node ks us) \<longleftrightarrow> (\<forall>u \<in> set us. small_bt f ps u) \<and> (\<forall>k \<in> set ks. key_bound f ps k)"
proof -
  assume l: "length us = Suc (length ks)"
  then obtain vs u where us: "us = vs @ [u]" "length vs = length ks" by (cases us rule: rev_cases) auto
  have "(\<forall>x \<in> set (zip vs ks). small_bt f ps (fst x) \<and> key_bound f ps (snd x)) \<longleftrightarrow> (\<forall>u \<in> set vs. small_bt f ps u) \<and> (\<forall>k \<in> set ks. key_bound f ps k)"
    using us(2) by (fastforce simp: set_zip in_set_conv_nth)
  moreover have "zip us ks = zip vs ks" using us by (simp add: zip_append1)
  ultimately show ?thesis using us(1) by (auto simp: mk_node_def)
qed

text \<open>A branch page of the running transaction over a forest.\<close>

definition branch_over :: "('w, 'a) tx_db_scheme \<Rightarrow> nat \<Rightarrow> nat \<Rightarrow> PageId \<Rightarrow> key list \<Rightarrow> bt list \<Rightarrow> PageId list \<Rightarrow> PageId set list \<Rightarrow> bool" where
  "branch_over s f h pid ks us cs Qs \<longleftrightarrow> (\<exists>x. branch_page s pid x ks cs) \<and> forest s f h us cs Qs \<and> adj ks us \<and> pid \<notin> \<Union> (set Qs) \<and>
     (\<forall>k \<in> set ks. short_key k \<and> key_bound f (pg_size s) k)"

lemma Union_nth: "length Qs = Suc n \<Longrightarrow> (\<Union>i \<in> {..n}. Qs ! i) = \<Union> (set Qs)"
  by (auto simp: set_conv_nth less_Suc_eq_le)

lemma sub_mk_node:
  assumes "branch_over s f h pid ks us cs Qs" "ks \<noteq> []" "\<not> needed s pid"
  shows "sub s f (Suc h) (mk_node ks us) pid (insert pid (\<Union> (set Qs)))" "full_leaves (mk_node ks us)"
proof -
  obtain x where b: "branch_page s pid x ks cs" and f: "forest s f h us cs Qs" and a: "adj ks us" "pid \<notin> \<Union> (set Qs)"
    "\<forall>k \<in> set ks. short_key k" "\<forall>k \<in> set ks. key_bound f (pg_size s) k"
    using assms(1) by (auto simp: branch_over_def)
  have l: "length us = Suc (length ks)" "length cs = Suc (length ks)" "length Qs = Suc (length ks)" using adj_length[OF a(1)] forest_length[OF f] by auto
  note p = mk_node_parts[OF l(1)]
  have bn: "branch_node (pg_size s) (nodes s pid) x ks cs" using b by (simp add: branch_page_def)
  have kp: "kid_page (nodes s pid) i = cs ! i" if "i \<le> length ks" for i using branch_node_counts(10)[OF bn that] .
  have n: "sub s f h (us ! i) (cs ! i) (Qs ! i)" "full_leaves (us ! i)" if "i \<le> length ks" for i using forest_nth[OF f, of i] that l(1) by auto
  have au: "\<forall>u \<in> set us. sub s f h u (cs ! 0) {} \<or> (ordered_bt u \<and> full_leaves u \<and> small_bt f (pg_size s) u \<and> uniform h u)"
    using n l(1) by (fastforce simp: in_set_conv_nth sub_def)
  then have su: "ordered_bt u \<and> full_leaves u \<and> small_bt f (pg_size s) u \<and> uniform h u" if "u \<in> set us" for u
    using that forest_full[OF f that] by (auto simp: sub_def)
  have "owns s (mk_node ks us) pid (insert pid (\<Union> (set Qs)))"
    unfolding mk_node_def
  proof (rule owns_branchI[where Q = "\<lambda>i. Qs ! i"], unfold p(1,2))
    show "branch_view s pid ks" "inline_node s pid" using branch_page_reads(4,5)[OF b] assms(2) by blast+
    show "insert pid (\<Union> (set Qs)) = insert pid (\<Union>i \<in> {..length ks}. Qs ! i)" using Union_nth[OF l(3)] by simp
    show "apart pid (length ks) ((!) Qs)" unfolding apart_def Union_nth[OF l(3)] using a(2) forest_nth(3)[OF f] l(1) by auto
    show "\<forall>i \<le> length ks. owns s (kid (zip us ks) (last us) i) (kid_page (nodes s pid) i) (Qs ! i)" using n(1) p(3) kp by (simp add: sub_def)
  qed
  moreover have "fresh_up s (mk_node ks us) pid"
    unfolding mk_node_def by (rule fresh_branchI[OF assms(3)], unfold p(2)) (use n(1) p(3) kp in \<open>simp add: sub_def\<close>)
  moreover note ordered_mk_node[OF a(1) assms(2) _ a(3)] small_mk_node[OF l(1), of f "pg_size s"] uniform_mk_node[OF l(1), of h]
  ultimately show "sub s f (Suc h) (mk_node ks us) pid (insert pid (\<Union> (set Qs)))" "full_leaves (mk_node ks us)"
    using su a(4) by (auto simp: sub_def)
qed

lemma branch_view_page:
  assumes "branch_view s pid ks" "inline_node s pid"
  shows "branch_page s pid (last_modified_txid (nodes s pid)) ks (children (nodes s pid))"
proof -
  let ?n = "nodes s pid"
  have v: "pid < kPageMaxCount" "node_type ?n = kBranch" "node_count ?n = length ks" "\<forall>i < length ks. GetKey pid i s = Inr (ks ! i)"
    using assms(1) by (auto simp: branch_view_def IsBranch_def)
  have wf: "wf_node (pg_size s) ?n" and il: "\<forall>i < length ks. \<not> is_overflow_pages (slots ?n i)" using assms(2) v(3) by (auto simp: inline_node_def)
  have "ks ! i = sep_key (separator (cell_at ?n i))" if "i < length ks" for i
    using v(3,4) il GetKey_cell[OF wf, of i] that by (simp add: cell_key_def cell_read_def cell_at_def sep_key_def separator_def)
  then have "ks = map sep_key (separators ?n)" using v(3) by (intro nth_equalityI) simp_all
  moreover have "\<forall>c \<in> set (separators ?n). \<not> is_overflow_pages (fst c)"
    using il v(3) by (auto simp: in_set_conv_nth separator_def cell_at_def)
  ultimately show ?thesis using v(1,2) wf unfolding branch_page_def branch_node_def by blast
qed

lemma adjI:
  assumes "length us = Suc (length ks)" "\<And>i e. i < length ks \<Longrightarrow> e \<in> set (entries (us ! i)) \<Longrightarrow> fst e < ks ! i"
    "\<And>i e. i < length ks \<Longrightarrow> e \<in> set (entries (us ! Suc i)) \<Longrightarrow> ks ! i \<le> fst e"
  shows "adj ks us"
  using assms
proof (induction ks arbitrary: us)
  case Nil
  then show ?case by (cases us) auto
next
  case (Cons k ks)
  then obtain u v vs where us: "us = u # v # vs" by (cases us; cases "List.tl us") auto
  have "adj ks (v # vs)"
  proof (rule Cons.IH)
    fix i e assume i: "i < length ks"
    show "e \<in> set (entries ((v # vs) ! i)) \<Longrightarrow> fst e < ks ! i" using Cons.prems(2)[of "Suc i" e] i us by simp
    show "e \<in> set (entries ((v # vs) ! Suc i)) \<Longrightarrow> ks ! i \<le> fst e" using Cons.prems(3)[of "Suc i" e] i us by simp
  qed (use Cons.prems(1) us in simp)
  moreover have "fst e < k" if "e \<in> set (entries u)" for e using Cons.prems(2)[of 0 e] that us by simp
  moreover have "k \<le> fst e" if "e \<in> set (entries v)" for e using Cons.prems(3)[of 0 e] that us by simp
  ultimately show ?case using us by simp
qed

lemma sub_branchE:
  assumes "sub s f h (BNode ts t) pid P"
  obtains h' us cs Qs where "h = Suc h'" "BNode ts t = mk_node (map snd ts) us" "branch_over s f h' pid (map snd ts) us cs Qs" "ts \<noteq> []"
    "P = insert pid (\<Union> (set Qs))" "\<And>i. i \<le> length ts \<Longrightarrow> us ! i = kid ts t i" "\<And>i. i \<le> length ts \<Longrightarrow> cs ! i = kid_page (nodes s pid) i"
proof -
  let ?ks = "map snd ts" and ?us = "map fst ts @ [t]" and ?cs = "children (nodes s pid)"
  have b: "owns s (BNode ts t) pid P" "fresh_up s (BNode ts t) pid" "ordered_bt (BNode ts t)" "full_leaves (BNode ts t)"
    "small_bt f (pg_size s) (BNode ts t)" "uniform h (BNode ts t)" using assms by (auto simp: sub_def)
  obtain h' where h: "h = Suc h'" using b(6) by (cases h) auto
  obtain Q where q: "branch_view s pid ?ks" "inline_node s pid" "P = insert pid (\<Union>i \<in> {..length ts}. Q i)"
    "apart pid (length ts) Q" "\<forall>i \<le> length ts. owns s (kid ts t i) (kid_page (nodes s pid) i) (Q i)"
    by (rule owns_branchE[OF b(1)])
  let ?Qs = "map Q [0..<Suc (length ts)]"
  note bp = branch_view_page[OF q(1,2)]
  then have bn: "branch_node (pg_size s) (nodes s pid) (last_modified_txid (nodes s pid)) ?ks ?cs" by (simp add: branch_page_def)
  have l: "length ?us = Suc (length ?ks)" "length ?cs = Suc (length ts)" using branch_node_counts(2)[OF bn] by simp_all
  have us: "?us ! i = kid ts t i" if "i \<le> length ts" for i using that by (auto simp: kid_def nth_append)
  have cs: "?cs ! i = kid_page (nodes s pid) i" if "i \<le> length ts" for i using branch_node_counts(10)[OF bn, of i] that by simp
  have ht: "\<forall>u \<in> set ?us. uniform h' u" using b(6) uniform_mk_node[OF l(1), of h'] h by (simp add: mk_node_kids)
  have sb: "\<forall>u \<in> set ?us. small_bt f (pg_size s) u" "\<forall>k \<in> set ?ks. key_bound f (pg_size s) k"
    using b(5) small_mk_node[OF l(1), of f "pg_size s"] by (simp_all add: mk_node_kids)
  have "forest s f h' ?us ?cs ?Qs"
  proof (rule forestI)
    fix i assume i: "i < length ?us"
    then have "?us ! i \<in> set ?us" by (rule nth_mem)
    then have "uniform h' (?us ! i)" "small_bt f (pg_size s) (?us ! i)" using ht sb(1) by blast+
    moreover have "fresh_up s (kid ts t i) (kid_page (nodes s pid) i)" using b(2) i by (simp add: fresh_up.simps(2))
    moreover have "?Qs ! i = Q i" using i by (simp del: upt_Suc)
    ultimately show "sub s f h' (?us ! i) (?cs ! i) (?Qs ! i) \<and> full_leaves (?us ! i)"
      using us[of i] cs[of i] i q(5) ordered_kid[OF b(3), of i] full_kid[OF b(4), of i] by (simp add: sub_def del: upt_Suc)
  next
    fix i j assume "i < j" "j < length ?us"
    then show "?Qs ! i \<inter> ?Qs ! j = {}" using q(4) by (simp add: apart_def del: upt_Suc)
  qed (use l in simp_all)
  moreover have "adj ?ks ?us"
  proof (rule adjI[OF l(1)])
    fix i e assume i: "i < length ?ks"
    show "e \<in> set (entries (?us ! i)) \<Longrightarrow> fst e < ?ks ! i" using separator_order(1)[OF b(3), of i i "fst e"] us[of i] i by simp
    show "e \<in> set (entries (?us ! Suc i)) \<Longrightarrow> ?ks ! i \<le> fst e" using separator_order(2)[OF b(3), of i "Suc i" "fst e"] us[of "Suc i"] i by simp
  qed
  moreover have u: "\<Union> (set ?Qs) = (\<Union>i \<in> {..length ts}. Q i)" by (auto simp: less_Suc_eq_le simp del: upt_Suc)
  ultimately have "branch_over s f h' pid ?ks ?us ?cs ?Qs"
    using bp sb(2) b(3) q(4) by (auto simp: branch_over_def apart_def simp del: upt_Suc)
  then show thesis using that[OF h mk_node_kids _ _ _ us cs] b(3) q(3) u by simp
qed

end
