(* ===== verification/Atomkv_Tree_Insert.thy ===== *)
theory Atomkv_Tree_Insert
  imports Atomkv_Forest
begin

text \<open>
  \<^verbatim>\<open>BTree::Put\<close> on a whole tree, with splits: the separator of a split goes into the parent,
  which may split in turn, up to a new root.
\<close>

section \<open>Putting into a leaf page\<close>

lemma own_page: "running s = Some mt \<Longrightarrow> last_modified_txid (nodes s q) = mt \<Longrightarrow> \<not> needed s q"
  by (auto simp: needed_def CopyNeeded_def update_tx_def split: if_splits)

lemma leaf_update_fits:
  assumes "leaf_page s pid x es" "i < length es" "fit_entry (pg_size s) (k, v, b)"
  shows "fits (pg_size s) (length k + length v) False (emptied i (nodes s pid)) \<longleftrightarrow> leaf_cost (es[i := (k, v, b)]) \<le> pg_size s - 18"
proof -
  let ?n = "nodes s pid"
  have v: "inline_node s pid" "leaf_view s pid es" using assms(1) by (simp_all add: leaf_page_def)
  have c: "es = map cell_entry (cells ?n)" "IsLeaf ?n" "i < node_count ?n" using v leaf_view_cells leaf_count[OF assms(1)] assms(2) by auto
  have "entry_cost (es ! i) = 8 + raw_size ?n (slots ?n i)"
    using v(1) c by (simp add: entry_cost_def cell_entry_def cell_at_def inline_node_def raw_size_def)
  moreover have "leaf_cost (es[i := (k, v, b)]) + entry_cost (es ! i) = leaf_cost es + entry_cost (k, v, b)"
    using sum_list_update[of i "map entry_cost es" "entry_cost (k, v, b)"] member_le_sum_list[of "entry_cost (es ! i)" "map entry_cost es"] assms(2)
    by (simp add: map_update)
  moreover have "raw_size ?n (slots ?n i) \<le> space_used ?n"
    using leaf_page_wf[OF assms(1)] c(3) by (auto simp: wf_node_def layout_def intro: member_le_sum)
  ultimately show ?thesis
    using leaf_page_cost[OF assms(1)] assms(3) leaf_page_wf[OF assms(1)]
    by (auto simp: fits_def record_need_def emptied_def entry_cost_def fit_entry_def page_ok_def)
qed

lemma leaf_update:
  assumes "leaf_page s pid x es" "i < length es" "fit_entry (pg_size s) (k, v, b)" "leaf_cost (es[i := (k, v, b)]) \<le> pg_size s - 18"
  obtains s1 s' where "LeafNode_Update pid i k v s = Inr (True, s1)" "on_node pid (SetIsBucket i b) s1 = Inr s'"
    "touches {pid} s s'" "leaf_page s' pid x (es[i := (k, v, b)])"
proof -
  have v: "inline_node s pid" "leaf_view s pid es" using assms(1) by (simp_all add: leaf_page_def)
  have "fits (pg_size s) (length k + length v) False (emptied i (nodes s pid))" using leaf_update_fits[OF assms(1-3)] assms(4) by blast
  from LeafNode_Update_view[OF v assms(2) _ this, of b] obtain s1 n' where r: "LeafNode_Update pid i k v s = Inr (True, s1)"
    "on_node pid (SetIsBucket i b) s1 = Inr (set_node pid n' s)" "inline_node (set_node pid n' s) pid"
    "leaf_view (set_node pid n' s) pid (es[i := (k, v, b)])" "last_modified_txid n' = last_modified_txid (nodes s pid)"
    using assms(3) by (auto simp: fit_entry_def)
  show thesis by (rule that[OF r(1,2)]) (use r(3-5) assms(1) in \<open>simp_all add: leaf_page_def\<close>)
qed

lemma leaf_update_full:
  assumes "leaf_page s pid x es" "i < length es" "fit_entry (pg_size s) (k, v, b)" "\<not> leaf_cost (es[i := (k, v, b)]) \<le> pg_size s - 18"
  shows "LeafNode_Update pid i k v s = Inr (False, s)"
proof (rule LeafNode_Update_full[OF conjunct1[OF leaf_page_wf[OF assms(1)]]])
  have v: "inline_node s pid" "leaf_view s pid es" using assms(1) by (simp_all add: leaf_page_def)
  then show "IsLeaf (nodes s pid)" "i < node_count (nodes s pid)" using leaf_view_cells leaf_count[OF assms(1)] assms(2) by auto
  then show "\<not> is_overflow_pages (slots (nodes s pid) i)" using v(1) by (simp add: inline_node_def)
  show "\<not> fits (pg_size s) (length k + length v) False (emptied i (nodes s pid))" using leaf_update_fits[OF assms(1-3)] assms(4) by blast
qed

lemma sub_leaf:
  assumes "leaf_page s pid x es" "sorted_wrt (<) (map fst es)" "\<forall>e \<in> set es. small_entry f (pg_size s) e"
  shows "sub s f 0 (BLeaf es) pid {pid}"
  using assms by (auto simp: sub_def leaf_page_def owns_leaf small_entry_def)

lemma sub_leafE:
  assumes "sub s f h (BLeaf es) pid P"
  obtains x where "leaf_page s pid x es" "sorted_wrt (<) (map fst es)" "\<forall>e \<in> set es. small_entry f (pg_size s) e" "P = {pid}" "h = 0"
  using assms by (cases h) (auto simp: sub_def leaf_page_def owns_leaf)

text \<open>Where the path cuts the entries of the leaf, the new entry goes.\<close>

lemma ins_entry_slot:
  assumes "sorted_wrt (<) (map fst es)" "i \<le> length es" "\<forall>e \<in> set (take i es). fst e < k" "\<forall>e \<in> set (drop i es). k \<le> fst e"
  shows "k \<in> fst ` set es \<Longrightarrow> i < length es \<and> fst (es ! i) = k \<and> ins_entry k w es = es[i := (k, w)]"
    "k \<notin> fst ` set es \<Longrightarrow> ins_entry k w es = insert_at i (k, w) es"
proof -
  have lt: "\<forall>e \<in> set (drop (Suc i) es). fst (es ! i) < fst e" if "i < length es"
  proof
    fix e assume "e \<in> set (drop (Suc i) es)"
    then obtain j where j: "j < length es - Suc i" "e = es ! (Suc i + j)" by (auto simp: in_set_conv_nth)
    then show "fst (es ! i) < fst e" using sorted_wrt_nth_less[OF assms(1), of i "Suc i + j"] that by simp
  qed
  show "i < length es \<and> fst (es ! i) = k \<and> ins_entry k w es = es[i := (k, w)]" if k: "k \<in> fst ` set es"
  proof -
    have "k \<in> fst ` set (take i es @ drop i es)" using k by simp
    then obtain e where e: "e \<in> set (drop i es)" "fst e = k" using assms(3) by (auto simp del: append_take_drop_id)
    then have i: "i < length es" by (cases "i < length es") auto
    note d = Cons_nth_drop_Suc[OF i, symmetric]
    have ek: "fst (es ! i) = k" using e assms(4) lt[OF i] unfolding d by fastforce
    have "es = take i es @ (k, snd (es ! i)) # drop (Suc i) es" using id_take_nth_drop[OF i] ek by (metis prod.collapse)
    then have "ins_entry k w es = take i es @ (k, w) # drop (Suc i) es"
      using ins_entry_at(2)[OF assms(3), of "drop (Suc i) es" w "snd (es ! i)"] lt[OF i] ek by metis
    then show ?thesis using i ek by (simp add: upd_conv_take_nth_drop)
  qed
  assume k: "k \<notin> fst ` set es"
  then have "\<forall>e \<in> set (drop i es). k < fst e" using assms(4) by (force simp: le_less dest: in_set_dropD)
  from ins_entry_at(1)[OF assms(3) this, of w] show "ins_entry k w es = insert_at i (k, w) es" by (simp add: insert_at_def)
qed

text \<open>
  What a put does below a path, with the entries \<open>es\<close> as the aim: it is finished in the subtree, or the
  subtree is split in two and the rest is \<^verbatim>\<open>Put\<close> of the separator in the parent.
\<close>

definition put_done where
  "put_done r root L L' s' f h pid P es \<longleftrightarrow> r = Inr (root, s') \<and>
     (\<exists>t' P'. sub s' f h t' pid P' \<and> P' \<subseteq> P \<union> (L' - L) \<and> entries t' = es)"

definition put_split where
  "put_split r root xs L L' s' f h pid P es \<longleftrightarrow> (\<exists>it' q k t1 t2 P1 P2. r = Put_Branch it' pid q k root s' \<and> iter_wf it' \<and> trail it' = xs \<and>
     sub s' f h t1 pid P1 \<and> sub s' f h t2 q P2 \<and> full_leaves t1 \<and> full_leaves t2 \<and> P1 \<inter> P2 = {} \<and> P1 \<union> P2 \<subseteq> P \<union> (L' - L) \<and>
     entries t1 @ entries t2 = es \<and> (\<forall>e \<in> set (entries t1). fst e < k) \<and> (\<forall>e \<in> set (entries t2). k \<le> fst e) \<and>
     short_key k \<and> key_bound f (pg_size s') k)"

definition put_ready :: "('w, 'a) tx_db_scheme \<Rightarrow> nat \<Rightarrow> bt \<Rightarrow> (PageId \<times> nat) list \<Rightarrow> BTreeIterator \<Rightarrow> key \<Rightarrow> byte list \<Rightarrow> bool \<Rightarrow> bool" where
  "put_ready s f t p it key v b \<longleftrightarrow> on_home t key p \<and> (\<forall>e \<in> set (before t p). fst e < key) \<and> (\<forall>e \<in> set (after t p). key \<le> fst e) \<and>
     status it = leaf_status key (focus t p) (snd (last p)) \<and> (\<forall>x \<in> set p. \<not> needed s (fst x)) \<and>
     small_entry f (pg_size s) (key, v, b) \<and> 0 < length key + length v \<and> (\<forall>e \<in> set (entries t). fst e = key \<longrightarrow> snd (snd e) = b) \<and>
     (key \<in> fst ` set (entries t) \<longrightarrow> leaf_cost (ins_entry key (v, b) (focus t p)) \<le> pg_size s - 18)"

lemma put_leaf:
  fixes s :: "('w, 'a) tx_db_scheme"
  assumes sub: "sub s f h (BLeaf es) pid P" "P \<subseteq> L" "tx_pages L (Suc n) s"
    and it: "iter_wf it" "trail it = xs @ [(pid, i)]" "i \<le> length es" and rdy: "put_ready s f (BLeaf es) [(pid, i)] it key v b"
  shows "\<exists>L' s'. grows {pid} L n s L' s' \<and> (put_done (Put_Leaf it key v False b root s) root L L' s' f h pid P (ins_entry key (v, b) es) \<or>
    put_split (Put_Leaf it key v False b root s) root xs L L' s' f h pid P (ins_entry key (v, b) es))"
proof -
  let ?e = "(key, v, b)" and ?es = "ins_entry key (v, b) es" and ?ps = "pg_size s"
  obtain x where x: "leaf_page s pid x es" "sorted_wrt (<) (map fst es)" "\<forall>e \<in> set es. small_entry f ?ps e" "P = {pid}" "h = 0"
    by (rule sub_leafE[OF sub(1)])
  have rd: "\<forall>e \<in> set (take i es). fst e < key" "\<forall>e \<in> set (drop i es). key \<le> fst e" "status it = leaf_status key es i"
    "small_entry f ?ps ?e" "0 < length key + length v" "\<forall>e \<in> set es. fst e = key \<longrightarrow> snd (snd e) = b"
    "key \<in> fst ` set es \<longrightarrow> leaf_cost ?es \<le> ?ps - 18" using rdy by (simp_all add: put_ready_def)
  have fit: "fit_entry ?ps ?e" using small_entry_fit[OF rd(4)] rd(5) by simp
  have n: "tx_pages L n s" using sub(3) by (simp add: tx_pages_def)
  have pidL: "pid \<in> L" using sub(2) x(4) by simp
  have fr: "\<not> iter_Empty it" "Front it = Inr (pid, i)" "Reference pid s = Inr pid"
    using iter_Empty_trail[OF it(1)] Front_trail[OF it(1)] it(2) Reference_ok[of pid s] leaf_page_wf[OF x(1)] by simp_all
  note slot = ins_entry_slot[OF x(2) it(3) rd(1,2), where w = "(v, b)"]
  have es': "sorted_wrt (<) (map fst ?es)" "\<forall>e \<in> set ?es. small_entry f ?ps e" using ins_entry_sorted(1,2)[OF x(2), of key "(v, b)"] x(3) rd(4) by auto
  have fin: "put_done (Inr (root, s')) root L L s' f h pid P ?es" if "leaf_page s' pid x ?es" "touches {pid} s s'" for s'
    unfolding put_done_def using sub_leaf[OF that(1) es'(1)] es'(2) touches_fields(1)[OF that(2)] x(4,5)
    by (intro conjI HOL.refl exI[of _ "BLeaf ?es"] exI[of _ "{pid}"]) simp_all
  show ?thesis
  proof (cases "key \<in> fst ` set es")
    case True
    then have u: "i < length es" "fst (es ! i) = key" "?es = es[i := ?e]" using slot(1) by blast+
    have st: "status it = kEq" using True rd(3) by (simp add: leaf_status_def)
    have "snd (snd (es ! i)) = b" using rd(6) u(1,2) nth_mem by blast
    then have bk: "iter_is_bucket it s = Inr b"
      using iter_end_iff[OF it(1) HOL.refl] it(2) st fr(2,3) leaf_reads(3)[OF x(1) u(1)] x(1)
      by (simp add: leaf_page_def leaf_view_def iter_is_bucket_def GetLeafNode_def throw_if_def)
    obtain s1 s' where r: "LeafNode_Update pid i key v s = Inr (True, s1)" "on_node pid (SetIsBucket i b) s1 = Inr s'" "touches {pid} s s'"
      "leaf_page s' pid x (es[i := ?e])"
      by (rule leaf_update[OF x(1) u(1) fit]) (use rd(7) True u(3) in auto)
    have "Put_Leaf it key v False b root s = Inr (root, s')" using fr st bk r(1,2) by (simp add: Put_Leaf_def)
    then show ?thesis using grows_touches[OF n r(3)] fin[of s'] r(3,4) u(3) by auto
  next
    case False
    have st: "status it \<noteq> kEq" using False rd(3) by (simp add: leaf_status_def)
    have ins: "?es = insert_at i ?e es" using slot(2)[OF False] .
    show ?thesis
    proof (cases "leaf_cost es + entry_cost ?e \<le> ?ps - 18")
      case True
      obtain s1 s' where r: "LeafNode_Insert pid i key v s = Inr (True, s1)" "on_node pid (SetIsBucket i b) s1 = Inr s'" "touches {pid} s s'"
        "leaf_page s' pid x (insert_at i ?e es)"
        by (rule leaf_insert[OF x(1) it(3) fit True])
      have "Put_Leaf it key v False b root s = Inr (root, s')" using fr st r(1,2) by (simp add: Put_Leaf_def)
      then show ?thesis using grows_touches[OF n r(3)] fin[of s'] r(3,4) ins by auto
    next
      case full: False
      have "\<forall>e \<in> set (tl es). fit_entry ?ps e"
      proof
        fix e assume e: "e \<in> set (tl es)"
        then have "fst (hd es) < fst e" "e \<in> set es" using x(2) by (cases es; auto)+
        then show "fit_entry ?ps e" using small_entry_fit[of f ?ps e] x(3) by (cases "fst e") auto
      qed
      moreover have "\<forall>e \<in> set es. 2 * entry_cost e \<le> ?ps - 18" "2 * entry_cost ?e \<le> ?ps - 18" using x(3) rd(4) by (auto simp: small_entry_def)
      ultimately obtain right s' mt as bs where r: "Split_Leaf pid i key v b s = Inr (right, s')" "right \<notin> L" "grows {pid} L n s (insert right L) s'"
        "running s = Some mt" "leaf_page s' pid x as" "leaf_page s' right mt bs" "as @ bs = insert_at i ?e es" "as \<noteq> []" "bs \<noteq> []"
        using Split_Leaf_page[OF x(1) pidL sub(3) _ _ it(3) fit _ full] by blast
      obtain it' where it': "Pop it = Inr it'" "iter_wf it'" "trail it' = xs" using Pop_trail[OF it(1)] it(2) by auto
      let ?k = "fst (hd bs)"
      have gk: "GetKey right 0 s' = Inr ?k" using leaf_reads(1)[OF r(6), of 0] r(9) by (simp add: hd_conv_nth)
      have eq: "Put_Leaf it key v False b root s = Put_Branch it' pid right ?k root s'"
        using fr st r(1) leaf_full[OF x(1) it(3) fit full] it'(1) gk by (simp add: Put_Leaf_def)
      have ps: "pg_size s' = ?ps" using grows_fields(1)[OF r(3)] .
      have ab: "as @ bs = ?es" using r(7) ins by simp
      have srt: "sorted_wrt (<) (map fst as)" "sorted_wrt (<) (map fst bs)" "\<forall>e \<in> set as. \<forall>e' \<in> set bs. fst e < fst e'"
        using es'(1) unfolding ab[symmetric] by (auto simp: sorted_wrt_append)
      have sml: "\<forall>e \<in> set as. small_entry f ?ps e" "\<forall>e \<in> set bs. small_entry f ?ps e" using es'(2) unfolding ab[symmetric] by auto
      have hd: "hd bs \<in> set bs" "\<forall>e \<in> set bs. ?k \<le> fst e" using r(9) srt(2) by (cases bs; auto)+
      have "put_split (Put_Leaf it key v False b root s) root xs L (insert right L) s' f h pid P ?es"
        unfolding put_split_def eq
        using it'(2,3) sub_leaf[OF r(5) srt(1)] sub_leaf[OF r(6) srt(2)] sml hd srt(3) r(2,8,9) ab ps x(4,5) pidL
        by (intro exI[of _ it'] exI[of _ right] exI[of _ ?k] exI[of _ "BLeaf as"] exI[of _ "BLeaf bs"] exI[of _ "{pid}"] exI[of _ "{right}"])
          (auto simp: small_entry_def)
      then show ?thesis using r(3) by blast
    qed
  qed
qed


section \<open>Putting a separator into a branch page\<close>

lemma forest_swap:
  assumes "forest s f h (us1 @ u # us2) (cs1 @ c # cs2) (Qs1 @ Q # Qs2)" "length cs1 = length us1" "length Qs1 = length us1"
    "\<forall>q \<in> \<Union> (set Qs1) \<union> \<Union> (set Qs2). nodes s' q = nodes s q" "paged s s'" "forest s' f h vs ds Rs"
    "\<Union> (set Rs) \<inter> (\<Union> (set Qs1) \<union> \<Union> (set Qs2)) = {}"
  shows "forest s' f h (us1 @ vs @ us2) (cs1 @ ds @ cs2) (Qs1 @ Rs @ Qs2)"
proof -
  have f: "forest s f h us1 cs1 Qs1" "forest s f h us2 cs2 Qs2" "\<Union> (set Qs1) \<inter> \<Union> (set Qs2) = {}"
    using assms(1) forest_append[OF assms(2,3), of s f h "u # us2" "c # cs2" "Q # Qs2"] by auto
  have "\<forall>q \<in> \<Union> (set Qs1). nodes s' q = nodes s q" "\<forall>q \<in> \<Union> (set Qs2). nodes s' q = nodes s q" using assms(4) by blast+
  then have g: "forest s' f h us1 cs1 Qs1" "forest s' f h us2 cs2 Qs2" using forest_frame[OF f(1)] forest_frame[OF f(2)] assms(5) by blast+
  have "length ds = length vs" "length Rs = length vs" using forest_length[OF assms(6)] by auto
  then show ?thesis using forest_append[OF assms(2,3), of s' f h] forest_append[of ds vs Rs s' f h] assms(6,7) f(3) g by auto
qed

lemma put_branch:
  fixes s :: "('w, 'a) tx_db_scheme"
  assumes page: "branch_page s pid x ks cs" "\<not> needed s pid" "i \<le> length ks"
    and fo: "forest s f h us (insert_at (Suc i) q cs) Qs" "adj (insert_at i k ks) us" "pid \<notin> \<Union> (set Qs)"
    and keys: "\<forall>k' \<in> set (insert_at i k ks). short_key k' \<and> key_bound f (pg_size s) k'"
    and tx: "insert pid (\<Union> (set Qs)) \<subseteq> L" "tx_pages L (Suc n) s" and it: "iter_wf it" "trail it = xs @ [(pid, i)]"
  shows "\<exists>L' s'. grows {pid} L n s L' s' \<and>
    (put_done (Put_Branch it c q k root s) root L L' s' f (Suc h) pid (insert pid (\<Union> (set Qs))) (concat (map entries us)) \<or>
     put_split (Put_Branch it c q k root s) root xs L L' s' f (Suc h) pid (insert pid (\<Union> (set Qs))) (concat (map entries us)))"
proof -
  let ?ks = "insert_at i k ks" and ?cs = "insert_at (Suc i) q cs" and ?ps = "pg_size s"
  have bn: "branch_node ?ps (nodes s pid) x ks cs" "pid < kPageMaxCount" using page(1) by (simp_all add: branch_page_def)
  note cnt = branch_node_counts[OF bn(1)]
  have ne: "\<forall>u \<in> set us. entries u \<noteq> []" using forest_full[OF fo(1)] by blast
  have srt: "sorted_wrt (<) ?ks" "[] \<notin> set ?ks" using adj_sorted[OF fo(2) ne] by blast+
  have kin: "k \<in> set ?ks" "set ks \<subseteq> set ?ks" by (auto simp: insert_at_def) (metis append_take_drop_id in_set_conv_decomp set_append Un_iff)
  moreover have "set (tl ks) \<subseteq> set ks" by (cases ks) auto
  ultimately have k: "k \<noteq> []" "small_key ?ps k" "\<forall>k' \<in> set ks. small_key ?ps k'" "\<forall>k' \<in> set (tl ks). k' \<noteq> []"
    using srt(2) keys key_bound_small by blast+
  have kl: "length k \<le> (?ps - 34) div 2" by (rule small_key_inline[OF cnt(5) k(2)])
  have fr: "\<not> iter_Empty it" "Front it = Inr (pid, i)" "Reference pid s = Inr pid"
    using iter_Empty_trail[OF it(1)] Front_trail[OF it(1)] it(2) Reference_ok[OF bn(2)] by simp_all
  have n: "tx_pages L n s" "pid \<in> L" using tx by (auto simp: tx_pages_def)
  have lu: "length us = Suc (length ?ks)" using adj_length[OF fo(2)] .
  have frame: "forest s' f h us ?cs Qs" if "grows {pid} L m s L' s'" for m L' s'
    using forest_frame[OF fo(1)] grows_fields(3,6)[OF that] tx(1) fo(3) by blast
  show ?thesis
  proof (cases "branch_cost ks + 8 + length k \<le> ?ps - 18")
    case True
    obtain s' where r: "BranchNode_Insert pid i k q True s = Inr (True, s')" "touches {pid} s s'" "branch_page s' pid x ?ks ?cs"
      using branch_insert[OF page(1,3) k(1) kl True, of q True] by auto
    have g: "grows {pid} L n s L s'" by (rule grows_touches[OF n(1) r(2)])
    have "branch_over s' f h pid ?ks us ?cs Qs"
      unfolding branch_over_def using r(3) frame[OF g] fo(2,3) keys grows_fields(1)[OF g] by auto
    moreover have "?ks \<noteq> []" by (simp add: insert_at_def)
    moreover have "last_modified_txid (nodes s' pid) = x" "last_modified_txid (nodes s pid) = x"
      using r(3) bn(1) by (simp_all add: branch_page_def branch_node_def)
    then have "\<not> needed s' pid" using page(2) paged_CopyNeeded[OF grows_fields(3)[OF g]] by (simp add: needed_def)
    ultimately have "sub s' f (Suc h) (mk_node ?ks us) pid (insert pid (\<Union> (set Qs)))" by (rule sub_mk_node(1))
    moreover have "Put_Branch it c q k root s = Inr (root, s')" using fr r(1) by (simp add: Put_Branch.simps[of it])
    ultimately have "put_done (Put_Branch it c q k root s) root L L s' f (Suc h) pid (insert pid (\<Union> (set Qs))) (concat (map entries us))"
      unfolding put_done_def using mk_node_parts(4)[OF lu] by blast
    then show ?thesis using g by blast
  next
    case False
    obtain right s' mt j where r: "Split_Branch pid i k q s = Inr (?ks ! j, right, s')" "right \<notin> L" "grows {pid} L n s (insert right L) s'"
      "running s = Some mt" "0 < j" "Suc j < length ?ks" "branch_page s' pid x (take j ?ks) (take (Suc j) ?cs)"
      "branch_page s' right mt (drop (Suc j) ?ks) (drop (Suc j) ?cs)"
      by (rule Split_Branch_page[OF page(1) n(2) tx(2) k(3,4) page(3) k(1,2) False])
    obtain it' where it': "Pop it = Inr it'" "iter_wf it'" "trail it' = xs" using Pop_trail[OF it(1)] it(2) by auto
    have eq: "Put_Branch it c q k root s = Put_Branch it' pid right (?ks ! j) root s'"
      using fr it'(1) r(1) branch_full[OF page(1,3) kl False, of q True] by (simp add: Put_Branch.simps[of it])
    let ?t1 = "mk_node (take j ?ks) (take (Suc j) us)" and ?t2 = "mk_node (drop (Suc j) ?ks) (drop (Suc j) us)"
    let ?P1 = "insert pid (\<Union> (set (take (Suc j) Qs)))" and ?P2 = "insert right (\<Union> (set (drop (Suc j) Qs)))"
    note g = grows_fields[OF r(3)] and fc = forest_cut[OF frame[OF r(3)], of "Suc j"]
    have jl: "j < length ?ks" using r(6) by simp
    note ac = adj_cut[OF fo(2) jl]
    have kk: "\<forall>k' \<in> set (take j ?ks) \<union> set (drop (Suc j) ?ks). short_key k' \<and> key_bound f (pg_size s') k'" "short_key (?ks ! j)" "key_bound f (pg_size s') (?ks ! j)"
      using keys g(1) nth_mem[OF jl] by (auto dest: in_set_takeD in_set_dropD)
    have o1: "branch_over s' f h pid (take j ?ks) (take (Suc j) us) (take (Suc j) ?cs) (take (Suc j) Qs)"
      unfolding branch_over_def using r(7) fc(1,4) ac(1) fo(3) kk(1) by blast
    have rn: "right \<notin> \<Union> (set (drop (Suc j) Qs))" "right \<notin> ?P1" using r(2) tx(1) fc(4) by blast+
    have o2: "branch_over s' f h right (drop (Suc j) ?ks) (drop (Suc j) us) (drop (Suc j) ?cs) (drop (Suc j) Qs)"
      unfolding branch_over_def using r(8) fc(2) ac(2) rn(1) kk(1) by blast
    have lm: "last_modified_txid (nodes s' pid) = x" "last_modified_txid (nodes s pid) = x" "last_modified_txid (nodes s' right) = mt"
      using r(7,8) bn(1) by (simp_all add: branch_page_def branch_node_def)
    have nd: "\<not> needed s' pid" "\<not> needed s' right"
      using page(2) lm(1,2) paged_CopyNeeded[OF g(3)] own_page[of s' mt right] lm(3) g(2) r(4) by (simp_all add: needed_def)
    have tn: "take j ?ks \<noteq> []" "drop (Suc j) ?ks \<noteq> []" using r(5,6) by (auto simp: insert_at_def)
    note s1 = sub_mk_node[OF o1 tn(1) nd(1)] and s2 = sub_mk_node[OF o2 tn(2) nd(2)]
    have en: "entries ?t1 = concat (map entries (take (Suc j) us))" "entries ?t2 = concat (map entries (drop (Suc j) us))"
      using mk_node_parts(4)[OF adj_length[OF ac(1)]] mk_node_parts(4)[OF adj_length[OF ac(2)]] by simp_all
    have "fst e < ?ks ! j" if e: "e \<in> set (entries ?t1)" for e
    proof -
      obtain m where m: "m < Suc j" "e \<in> set (entries (us ! m))"
        using e unfolding en(1) by (auto simp: set_conv_nth[of "take (Suc j) us"])
      then show ?thesis using adj_lower[OF fo(2) ne jl, of m e] by simp
    qed
    moreover have "?ks ! j \<le> fst e" if e: "e \<in> set (entries ?t2)" for e
    proof -
      obtain m where m: "m < length us - Suc j" "e \<in> set (entries (us ! (Suc j + m)))"
        using e unfolding en(2) by (auto simp: set_conv_nth[of "drop (Suc j) us"])
      then show ?thesis using adj_upper[OF fo(2) ne, of j "Suc j + m" e] lu by simp
    qed
    moreover have "entries ?t1 @ entries ?t2 = concat (map entries us)" unfolding en by (simp flip: concat_append map_append)
    moreover have "?P1 \<inter> ?P2 = {}" using fc(3,4) fo(3) rn(2) by blast
    moreover have "?P1 \<union> ?P2 \<subseteq> insert pid (\<Union> (set Qs)) \<union> (insert right L - L)" using fc(4) r(2) by blast
    ultimately have "put_split (Put_Branch it c q k root s) root xs L (insert right L) s' f (Suc h) pid (insert pid (\<Union> (set Qs))) (concat (map entries us))"
      unfolding put_split_def eq using it'(2,3) s1 s2 kk(2,3) by blast
    then show ?thesis using r(3) by blast
  qed
qed


section \<open>Putting into a subtree\<close>

text \<open>The separators around the slot that a key is led to.\<close>

text \<open>The subtree that a key leads to: the entries beside it are below or above the key, its own are between the separators.\<close>

lemma adj_outside:
  assumes "adj (ks1 @ ks2) (us1 @ u # us2)" "length us1 = length ks1" "\<forall>t \<in> set (us1 @ u # us2). entries t \<noteq> []"
    "ks1 \<noteq> [] \<longrightarrow> last ks1 \<le> key" "ks2 \<noteq> [] \<longrightarrow> key < hd ks2"
  shows "\<forall>e \<in> set (concat (map entries us1)). fst e < key" "\<forall>e \<in> set (concat (map entries us2)). key < fst e"
    "\<forall>e \<in> set (entries u). (ks1 \<noteq> [] \<longrightarrow> last ks1 \<le> fst e) \<and> (ks2 \<noteq> [] \<longrightarrow> fst e < hd ks2)"
proof -
  let ?ks = "ks1 @ ks2" and ?us = "us1 @ u # us2" and ?i = "length ks1"
  have l: "length us2 = length ks2" using adj_length[OF assms(1)] assms(2) by simp
  have lo: "fst e < ?ks ! i" if "i < length ?ks" "j \<le> i" "e \<in> set (entries (?us ! j))" for i j e by (rule adj_lower[OF assms(1,3) that])
  have up: "?ks ! i \<le> fst e" if "i < j" "j \<le> length ?ks" "e \<in> set (entries (?us ! j))" for i j e by (rule adj_upper[OF assms(1,3) that])
  have lk: "ks1 \<noteq> [] \<Longrightarrow> ?ks ! (?i - 1) = last ks1" "ks2 \<noteq> [] \<Longrightarrow> ?ks ! ?i = hd ks2" by (simp_all add: nth_append last_conv_nth hd_conv_nth)
  show "\<forall>e \<in> set (concat (map entries us1)). fst e < key"
  proof
    fix e assume "e \<in> set (concat (map entries us1))"
    then obtain j where j: "j < length us1" "e \<in> set (entries (?us ! j))" by (fastforce simp: in_set_conv_nth nth_append)
    then have "ks1 \<noteq> []" using assms(2) by auto
    moreover from this have "?i - 1 < length ?ks" "j \<le> ?i - 1" using j(1) assms(2) by (cases ks1; simp)+
    ultimately show "fst e < key" using lo[of "?i - 1" j e] j(2) assms(4) lk(1) by auto
  qed
  show "\<forall>e \<in> set (concat (map entries us2)). key < fst e"
  proof
    fix e assume "e \<in> set (concat (map entries us2))"
    then obtain j where j: "j < length us2" "e \<in> set (entries (?us ! (Suc ?i + j)))" using assms(2) by (fastforce simp: in_set_conv_nth nth_append)
    then have "ks2 \<noteq> []" using l by auto
    then show "key < fst e" using up[of ?i "Suc ?i + j" e] j assms(5) lk(2) l by auto
  qed
  have "?us ! ?i = u" using assms(2) by (simp add: nth_append)
  then show "\<forall>e \<in> set (entries u). (ks1 \<noteq> [] \<longrightarrow> last ks1 \<le> fst e) \<and> (ks2 \<noteq> [] \<longrightarrow> fst e < hd ks2)"
    using up[of "?i - 1" ?i] lo[of ?i ?i] lk by auto
qed

lemma adj_place:
  assumes "adj (ks1 @ ks2) (us1 @ u # us2)" "length us1 = length ks1" "\<forall>t \<in> set (us1 @ u # us2). entries t \<noteq> []"
    "ks1 \<noteq> [] \<longrightarrow> last ks1 \<le> key" "ks2 \<noteq> [] \<longrightarrow> key < hd ks2"
  shows "ins_entry key w (concat (map entries (us1 @ u # us2))) = concat (map entries us1) @ ins_entry key w (entries u) @ concat (map entries us2)"
    "\<And>e. e \<in> set (ins_entry key w (entries u)) \<Longrightarrow> (ks1 \<noteq> [] \<longrightarrow> last ks1 \<le> fst e) \<and> (ks2 \<noteq> [] \<longrightarrow> fst e < hd ks2)"
proof -
  note o = adj_outside[OF assms]
  show "ins_entry key w (concat (map entries (us1 @ u # us2))) = concat (map entries us1) @ ins_entry key w (entries u) @ concat (map entries us2)"
    using ins_entry_mid[OF o(1,2), of w "entries u"] by simp
  fix e assume "e \<in> set (ins_entry key w (entries u))"
  then have "e = (key, w) \<or> e \<in> set (entries u)" by (auto simp: ins_entry_def dest: set_takeWhileD set_dropWhileD)
  then show "(ks1 \<noteq> [] \<longrightarrow> last ks1 \<le> fst e) \<and> (ks2 \<noteq> [] \<longrightarrow> fst e < hd ks2)" using assms(4,5) o(3) by auto
qed

lemma adj_one:
  assumes "adj (ks1 @ ks2) (us1 @ u # us2)" "length us1 = length ks1" "\<forall>e \<in> set (entries t). (ks1 \<noteq> [] \<longrightarrow> last ks1 \<le> fst e) \<and> (ks2 \<noteq> [] \<longrightarrow> fst e < hd ks2)"
  shows "adj (ks1 @ ks2) (us1 @ t # us2)"
  using assms adj_append[OF assms(2)] adj_last[of ks1 us1 u t] adj_first[of ks2 u us2 t] by blast

lemma adj_two:
  assumes "adj (ks1 @ ks2) (us1 @ u # us2)" "length us1 = length ks1"
    "\<forall>e \<in> set (entries t1 @ entries t2). (ks1 \<noteq> [] \<longrightarrow> last ks1 \<le> fst e) \<and> (ks2 \<noteq> [] \<longrightarrow> fst e < hd ks2)"
    "\<forall>e \<in> set (entries t1). fst e < k" "\<forall>e \<in> set (entries t2). k \<le> fst e"
  shows "adj (ks1 @ k # ks2) (us1 @ t1 # t2 # us2)"
proof -
  have "adj ks1 (us1 @ [t1])" "adj ks2 (t2 # us2)"
    using assms(1,3) adj_append[OF assms(2)] adj_last[of ks1 us1 u t1] adj_first[of ks2 u us2 t2] by auto
  then show ?thesis using adj_append[OF assms(2), of "k # ks2" t1 "t2 # us2"] assms(4,5) by simp
qed

lemma put_done_mono: "put_done r root L1 L' s' f h pid P1 es \<Longrightarrow> P1 \<subseteq> P \<union> (L1 - L) \<Longrightarrow> L1 \<subseteq> L' \<Longrightarrow> L \<subseteq> L1 \<Longrightarrow> put_done r root L L' s' f h pid P es"
  unfolding put_done_def by (elim conjE exE, intro conjI exI) (assumption | blast)+

lemma put_split_mono:
  "put_split r root xs L1 L' s' f h pid P1 es \<Longrightarrow> P1 \<subseteq> P \<union> (L1 - L) \<Longrightarrow> L1 \<subseteq> L' \<Longrightarrow> L \<subseteq> L1 \<Longrightarrow> put_split r root xs L L' s' f h pid P es"
  unfolding put_split_def by (elim conjE exE, intro conjI exI) (assumption | blast)+

lemma put_done_full:
  assumes "put_done r root L L' s' f h pid P (ins_entry key w es)"
  obtains t' P' where "r = Inr (root, s')" "sub s' f h t' pid P'" "P' \<subseteq> P \<union> (L' - L)" "entries t' = ins_entry key w es" "full_leaves t'"
proof -
  obtain t' P' where t: "r = Inr (root, s')" "sub s' f h t' pid P'" "P' \<subseteq> P \<union> (L' - L)" "entries t' = ins_entry key w es"
    using assms by (auto simp: put_done_def)
  have "entries t' \<noteq> []" using t(4) by (simp add: ins_entry_def)
  then have "full_leaves t'" using t(2) by (auto simp: sub_def)
  then show thesis using that t by blast
qed

lemma put_below:
  fixes s :: "('w, 'a) tx_db_scheme"
  assumes over: "branch_over s f h pid ks us cs Qs" "ks \<noteq> []" "i \<le> length ks" "\<not> needed s pid"
    and place: "0 < i \<longrightarrow> ks ! (i - 1) \<le> key" "i < length ks \<longrightarrow> key < ks ! i"
    and P: "insert pid (\<Union> (set Qs)) \<subseteq> L" and g: "grows A L (Suc n) s L1 s1" "A \<subseteq> Qs ! i"
    and kid: "put_done r root L L1 s1 f h (cs ! i) (Qs ! i) (ins_entry key w (entries (us ! i))) \<or>
      put_split r root (xs @ [(pid, i)]) L L1 s1 f h (cs ! i) (Qs ! i) (ins_entry key w (entries (us ! i)))"
  shows "\<exists>L' s'. grows (insert pid A) L n s L' s' \<and>
    (put_done r root L L' s' f (Suc h) pid (insert pid (\<Union> (set Qs))) (ins_entry key w (concat (map entries us))) \<or>
     put_split r root xs L L' s' f (Suc h) pid (insert pid (\<Union> (set Qs))) (ins_entry key w (concat (map entries us))))"
proof -
  obtain x where o: "branch_page s pid x ks cs" "forest s f h us cs Qs" "adj ks us" "pid \<notin> \<Union> (set Qs)"
    "\<forall>k \<in> set ks. short_key k \<and> key_bound f (pg_size s) k" using over(1) by (auto simp: branch_over_def)
  define us1 u us2 where "us1 = take i us" and "u = us ! i" and "us2 = drop (Suc i) us"
  define cs1 c cs2 where "cs1 = take i cs" and "c = cs ! i" and "cs2 = drop (Suc i) cs"
  define Qs1 Q Qs2 where "Qs1 = take i Qs" and "Q = Qs ! i" and "Qs2 = drop (Suc i) Qs"
  define ks1 ks2 where "ks1 = take i ks" and "ks2 = drop i ks"
  have l: "length us = Suc (length ks)" "length cs = Suc (length ks)" "length Qs = Suc (length ks)" using adj_length[OF o(3)] forest_length[OF o(2)] by auto
  have d: "us = us1 @ u # us2" "cs = cs1 @ c # cs2" "Qs = Qs1 @ Q # Qs2" "ks = ks1 @ ks2"
    using over(3) l by (simp_all add: us1_def u_def us2_def cs1_def c_def cs2_def Qs1_def Q_def Qs2_def ks1_def ks2_def id_take_nth_drop[symmetric])
  have ln: "length us1 = i" "length cs1 = i" "length Qs1 = i" "length ks1 = i" using over(3) l by (simp_all add: us1_def cs1_def Qs1_def ks1_def)
  note fs = forest_append[of cs1 us1 Qs1 s f h "u # us2" "c # cs2" "Q # Qs2"]
  have dj: "Q \<inter> (\<Union> (set Qs1) \<union> \<Union> (set Qs2)) = {}" using o(2) fs ln unfolding d(1-3) by auto
  have un: "\<Union> (set Qs) = \<Union> (set Qs1) \<union> Q \<union> \<Union> (set Qs2)" unfolding d(3) by auto
  have AQ: "A \<subseteq> Q" "pid \<notin> Q" using g(2) o(4) un by (auto simp: Q_def)
  note gf = grows_fields[OF g(1)]
  have sib: "\<forall>q \<in> \<Union> (set Qs1) \<union> \<Union> (set Qs2). nodes s1 q = nodes s q"
  proof
    fix q assume "q \<in> \<Union> (set Qs1) \<union> \<Union> (set Qs2)"
    then have "q \<in> L" "q \<notin> A" using P AQ(1) dj unfolding un by blast+
    then show "nodes s1 q = nodes s q" by (rule gf(6))
  qed
  have pn: "nodes s1 pid = nodes s pid" using gf(6)[of pid] P AQ by blast
  have bp: "branch_page s1 pid x ks cs" "\<not> needed s1 pid"
    using o(1) branch_page_cong[OF pn gf(1)] over(4) needed_cong[OF gf(3) pn] by simp_all
  have ne: "\<forall>t \<in> set (us1 @ u # us2). entries t \<noteq> []" using forest_full[OF o(2)] d(1) by metis
  have kb: "ks1 \<noteq> [] \<longrightarrow> last ks1 \<le> key" "ks2 \<noteq> [] \<longrightarrow> key < hd ks2"
    using place over(3) by (auto simp: ks1_def ks2_def last_conv_nth hd_drop_conv_nth)
  note ap = adj_place[OF o(3)[unfolded d(1,4)] _ ne kb, where w = w]
  note swap = forest_swap[OF o(2)[unfolded d(1-3)] _ _ sib gf(3)]
  from kid show ?thesis
  proof
    assume "put_done r root L L1 s1 f h (cs ! i) (Qs ! i) (ins_entry key w (entries (us ! i)))"
    then obtain t' P' where t: "r = Inr (root, s1)" "sub s1 f h t' c P'" "P' \<subseteq> Q \<union> (L1 - L)" "entries t' = ins_entry key w (entries u)" "full_leaves t'"
      unfolding c_def Q_def u_def by (rule put_done_full)
    have "P' \<inter> (\<Union> (set Qs1) \<union> \<Union> (set Qs2)) = {}" "pid \<notin> P'" using t(3) dj P un AQ(2) by blast+
    then have "forest s1 f h (us1 @ [t'] @ us2) (cs1 @ [c] @ cs2) (Qs1 @ [P'] @ Qs2)" "pid \<notin> \<Union> (set (Qs1 @ [P'] @ Qs2))"
      using swap[of "[t']" "[c]" "[P']"] t(2,5) ln o(4) un by auto
    moreover have "adj ks (us1 @ t' # us2)"
      unfolding d(4) by (rule adj_one[OF o(3)[unfolded d(1,4)]]) (use ln ap(2) t(4) in auto)
    ultimately have "branch_over s1 f h pid ks (us1 @ t' # us2) cs (Qs1 @ P' # Qs2)"
      unfolding branch_over_def using bp(1) o(5) gf(1) d(2) by auto
    from sub_mk_node(1)[OF this over(2) bp(2)] have "sub s1 f (Suc h) (mk_node ks (us1 @ t' # us2)) pid (insert pid (\<Union> (set (Qs1 @ P' # Qs2))))" .
    moreover have "entries (mk_node ks (us1 @ t' # us2)) = ins_entry key w (concat (map entries us))"
      using mk_node_parts(4)[of "us1 @ t' # us2" ks] l(1) d(1) ap(1) t(4) ln by simp
    moreover have "insert pid (\<Union> (set (Qs1 @ P' # Qs2))) \<subseteq> insert pid (\<Union> (set Qs)) \<union> (L1 - L)" using t(3) un by auto
    ultimately have "put_done r root L L1 s1 f (Suc h) pid (insert pid (\<Union> (set Qs))) (ins_entry key w (concat (map entries us)))"
      unfolding put_done_def using t(1) by blast
    moreover have "grows (insert pid A) L n s L1 s1" using g(1) by (auto simp: grows_def tx_pages_def)
    ultimately show ?thesis by blast
  next
    assume "put_split r root (xs @ [(pid, i)]) L L1 s1 f h (cs ! i) (Qs ! i) (ins_entry key w (entries (us ! i)))"
    then obtain it' q k t1 t2 P1 P2 where t: "r = Put_Branch it' c q k root s1" "iter_wf it'" "trail it' = xs @ [(pid, i)]" "sub s1 f h t1 c P1" "sub s1 f h t2 q P2"
      "full_leaves t1" "full_leaves t2" "P1 \<inter> P2 = {}" "P1 \<union> P2 \<subseteq> Q \<union> (L1 - L)" "entries t1 @ entries t2 = ins_entry key w (entries u)"
      "\<forall>e \<in> set (entries t1). fst e < k" "\<forall>e \<in> set (entries t2). k \<le> fst e" "short_key k" "key_bound f (pg_size s1) k"
      unfolding put_split_def c_def Q_def u_def by blast
    let ?us = "us1 @ t1 # t2 # us2" and ?Qs = "Qs1 @ P1 # P2 # Qs2"
    have "(P1 \<union> P2) \<inter> (\<Union> (set Qs1) \<union> \<Union> (set Qs2)) = {}" "pid \<notin> P1 \<union> P2" using t(9) dj P un AQ(2) by blast+
    then have f: "forest s1 f h (us1 @ [t1, t2] @ us2) (cs1 @ [c, q] @ cs2) (Qs1 @ [P1, P2] @ Qs2)" "pid \<notin> \<Union> (set ?Qs)"
      using swap[of "[t1, t2]" "[c, q]" "[P1, P2]"] t(4-8) ln o(4) un by auto
    have ic: "insert_at (Suc i) q cs = cs1 @ c # q # cs2" "insert_at i k ks = ks1 @ k # ks2" unfolding d(2,4) insert_at_def using ln by simp_all
    have ad: "adj (insert_at i k ks) ?us"
      unfolding ic(2) by (rule adj_two[OF o(3)[unfolded d(1,4)]]) (use ln ap(2) t(10-12) in auto)
    have kk: "\<forall>k' \<in> set (insert_at i k ks). short_key k' \<and> key_bound f (pg_size s1) k'" unfolding ic(2) using o(5) gf(1) t(13,14) d(4) by auto
    have sb: "insert pid (\<Union> (set ?Qs)) \<subseteq> insert pid (\<Union> (set Qs)) \<union> (L1 - L)" using t(9) un by auto
    then have L1: "insert pid (\<Union> (set ?Qs)) \<subseteq> L1" using P gf(5) by blast
    have en: "concat (map entries ?us) = ins_entry key w (concat (map entries us))" unfolding d(1) using ap(1) t(10) ln by simp
    obtain L' s' where r: "grows {pid} L1 n s1 L' s'"
      "put_done r root L1 L' s' f (Suc h) pid (insert pid (\<Union> (set ?Qs))) (concat (map entries ?us)) \<or>
       put_split r root xs L1 L' s' f (Suc h) pid (insert pid (\<Union> (set ?Qs))) (concat (map entries ?us))"
      using put_branch[OF bp over(3), of f h ?us q ?Qs k L1 n it' xs c root] f ic(1) ad kk L1 gf(4) t(1-3) by auto
    note m = grows_fields(5)[OF r(1)] gf(5)
    from r(2) have "put_done r root L L' s' f (Suc h) pid (insert pid (\<Union> (set Qs))) (ins_entry key w (concat (map entries us))) \<or>
      put_split r root xs L L' s' f (Suc h) pid (insert pid (\<Union> (set Qs))) (ins_entry key w (concat (map entries us)))"
      unfolding en by (rule disj_forward) (erule put_done_mono[OF _ sb m], erule put_split_mono[OF _ sb m])
    moreover have "grows (insert pid A) L n s L' s'" by (rule grows_trans[OF g(1) r(1)]) auto
    ultimately show ?thesis by blast
  qed
qed

lemma put_subtree:
  fixes s :: "('w, 'a) tx_db_scheme"
  assumes "sub s f h t pid P" "P \<subseteq> L" "tx_pages L (n + length p) s" "iter_wf it" "trail it = xs @ p" "path_to s t pid p" "put_ready s f t p it key v b"
  shows "\<exists>L' s'. grows (fst ` set p) L n s L' s' \<and>
    (put_done (Put_Leaf it key v False b root s) root L L' s' f h pid P (ins_entry key (v, b) (entries t)) \<or>
     put_split (Put_Leaf it key v False b root s) root xs L L' s' f h pid P (ins_entry key (v, b) (entries t)))"
  using assms
proof (induction t arbitrary: h pid P n xs p rule: bt_kid_induct)
  case (Leaf es)
  then obtain i where p: "p = [(pid, i)]" "i \<le> length es" by (cases p) auto
  then show ?case using put_leaf[OF Leaf.prems(1,2) _ Leaf.prems(4) _ p(2), of n xs key v b root] Leaf.prems by simp
next
  case (Branch ts t)
  obtain i p2 where p: "p = (pid, i) # p2" "i \<le> length ts" "path_to s (kid ts t i) (kid_page (nodes s pid) i) p2"
    using Branch.prems(6) by (cases p) auto
  obtain h' us cs Qs where o: "h = Suc h'" "BNode ts t = mk_node (map snd ts) us" "branch_over s f h' pid (map snd ts) us cs Qs" "ts \<noteq> []"
    "P = insert pid (\<Union> (set Qs))" "\<And>i. i \<le> length ts \<Longrightarrow> us ! i = kid ts t i" "\<And>i. i \<le> length ts \<Longrightarrow> cs ! i = kid_page (nodes s pid) i"
    by (rule sub_branchE[OF Branch.prems(1)]) blast
  have f: "forest s f h' us cs Qs" "adj (map snd ts) us" using o(3) by (simp_all add: branch_over_def)
  have l: "length us = Suc (length ts)" "length Qs = Suc (length ts)" using adj_length[OF f(2)] forest_length[OF f(1)] by auto
  have sk: "sub s f h' (kid ts t i) (kid_page (nodes s pid) i) (Qs ! i)" "Qs ! i \<subseteq> P"
    using forest_nth(1)[OF f(1), of i] l p(2) o(5-7) nth_mem[of i Qs] by auto
  have p2: "p2 \<noteq> []" "fst ` set p2 \<subseteq> Qs ! i" using path_nonempty[OF p(3)] path_pages[OF p(3)] sk(1) by (auto simp: sub_def)
  have sub_e: "set (entries (kid ts t i)) \<subseteq> set (entries (BNode ts t))" using entries_kid_split[OF p(2), of t] by (auto simp del: entries.simps)
  have hi: "i = slot_for ts key" "\<not> needed s pid" using Branch.prems(7) p(1) by (auto simp: put_ready_def)
  have rdy: "put_ready s f (kid ts t i) p2 it key v b"
    using Branch.prems(7) p(1) p2(1) sub_e hi(1) unfolding put_ready_def by (auto simp del: entries.simps)
  have "ordered_bt (BNode ts t)" using Branch.prems(1) by (simp add: sub_def)
  then have srt: "sorted_wrt (<) (map snd ts)" by simp
  have pl: "0 < i \<longrightarrow> map snd ts ! (i - 1) \<le> key" "i < length (map snd ts) \<longrightarrow> key < map snd ts ! i"
    using slot_for_bounds(1)[of "i - 1" ts key] slot_for_bounds(2)[OF srt, of key i] hi(1) p(2) by auto
  obtain L1 s1 where k: "grows (fst ` set p2) L (Suc n) s L1 s1"
    "put_done (Put_Leaf it key v False b root s) root L L1 s1 f h' (cs ! i) (Qs ! i) (ins_entry key (v, b) (entries (us ! i))) \<or>
     put_split (Put_Leaf it key v False b root s) root (xs @ [(pid, i)]) L L1 s1 f h' (cs ! i) (Qs ! i) (ins_entry key (v, b) (entries (us ! i)))"
    using Branch.IH[OF p(2) sk(1) _ _ Branch.prems(4) _ p(3) rdy, of "Suc n" "xs @ [(pid, i)]"] Branch.prems(2,3,5) p(1,2) sk(2) o(6,7) by auto
  have "entries (BNode ts t) = concat (map entries us)" unfolding o(2) using mk_node_parts(4) l(1) by simp
  moreover have "fst ` set p = insert pid (fst ` set p2)" using p(1) by simp
  ultimately show ?case
    using put_below[OF o(3) _ _ hi(2) pl _ k(1) p2(2) k(2)] o(1,4,5) p(2) Branch.prems(2) by simp
qed

text \<open>A split of the root is finished by a new root.\<close>

lemma put_new_root:
  fixes s :: "('w, 'a) tx_db_scheme"
  assumes "put_split r root [] L L' s f h pid P es" "tx_pages L' (Suc n) s" "P \<subseteq> L" "L \<subseteq> L'"
  obtains root' s' L2 t' P' where "r = Inr (root', s')" "grows {} L' n s L2 s'" "sub s' f (Suc h) t' root' P'" "P' \<subseteq> L2" "P' \<subseteq> P \<union> (L2 - L)" "entries t' = es" "\<not> needed s' root'"
proof -
  obtain it' q k t1 t2 P1 P2 where t: "r = Put_Branch it' pid q k root s" "iter_wf it'" "trail it' = []" "sub s f h t1 pid P1" "sub s f h t2 q P2"
    "full_leaves t1" "full_leaves t2" "P1 \<inter> P2 = {}" "P1 \<union> P2 \<subseteq> P \<union> (L' - L)" "entries t1 @ entries t2 = es"
    "\<forall>e \<in> set (entries t1). fst e < k" "\<forall>e \<in> set (entries t2). k \<le> fst e" "short_key k" "key_bound f (pg_size s) k"
    using assms(1) unfolding put_split_def by blast
  obtain w s1 where a: "Alloc 1 s = Inr (w, s1)" "Reference w s1 = Inr w" "w < kPageMaxCount" "w \<notin> L'" "grows {} L' n s (insert w L') s1"
    by (rule new_page[OF assms(2)])
  note g1 = grows_fields[OF a(5)]
  have ok: "page_ok (pg_size s)" using t(4) by (cases t1) (auto simp: sub_def owns.simps inline_node_def wf_node_def)
  obtain mt where mt: "running s = Some mt" using tx_running[OF assms(2)] by blast
  obtain s2 where b: "BranchNode_Build w pid s1 = Inr s2" "touches {w} s1 s2" "branch_page s2 w mt [] [pid]"
    by (rule build_branch[of s1 mt w pid]) (use ok g1(1,2) mt a(3) in auto)
  have ps: "pg_size s2 = pg_size s" using touches_fields(1)[OF b(2)] g1(1) by simp
  obtain e where "e \<in> set (entries t1)" using full_entries[OF t(6)] by (cases "entries t1") auto
  then have k: "k \<noteq> []" "length k \<le> (pg_size s - 34) div 2" "8 + length k \<le> pg_size s - 18" using t(11) small_key_inline[OF ok key_bound_small[OF t(14)]] key_bound_small[OF t(14)] by (auto simp: small_key_def)
  obtain s3 where c: "BranchNode_Insert w 0 k q True s2 = Inr (True, s3)" "touches {w} s2 s3" "branch_page s3 w mt [k] [pid, q]"
    using branch_insert[OF b(3), of 0 k q True] k ps by (auto simp: insert_at_def)
  have cnt: "node_count (nodes s2 w) = 0" using b(3) branch_node_counts(1) by (fastforce simp: branch_page_def)
  have eq: "r = Inr (w, s3)"
    using t(1) iter_Empty_trail[OF t(2)] t(3) a(1,2) b(1) c(1) cnt by (simp add: Put_Branch.simps[of it'] BranchNode_Append_def)
  have "touches {w} s1 s3" by (rule touches_mono[OF touches_join[OF b(2) c(2)]]) simp
  then have "grows {w} (insert w L') n s1 (insert w L') s3" by (rule grows_touches[OF g1(4)])
  then have g: "grows {} L' n s (insert w L') s3" by (rule grows_trans[OF a(5)]) (use a(4) in auto)
  note gf = grows_fields[OF g]
  have PL: "P1 \<union> P2 \<subseteq> L'" using t(9) assms(3,4) by blast
  have "forest s f h [t1, t2] [pid, q] [P1, P2]" using t(4-8) by auto
  then have f: "forest s3 f h [t1, t2] [pid, q] [P1, P2]" by (rule forest_frame) (use PL gf(3,6) in auto)
  have "branch_over s3 f h w [k] [t1, t2] [pid, q] [P1, P2]"
    unfolding branch_over_def using c(3) f t(11-14) PL a(4) gf(1) by auto
  moreover have "\<not> needed s3 w" by (rule own_page[of _ mt]) (use c(3) gf(2) mt in \<open>simp_all add: branch_page_def branch_node_def\<close>)
  ultimately have "sub s3 f (Suc h) (mk_node [k] [t1, t2]) w (insert w (\<Union> (set [P1, P2])))" "\<not> needed s3 w" using sub_mk_node(1) by blast+
  moreover have "entries (mk_node [k] [t1, t2]) = es" using t(10) by (simp add: mk_node_parts)
  moreover have "insert w (\<Union> (set [P1, P2])) \<subseteq> insert w L'" "insert w (\<Union> (set [P1, P2])) \<subseteq> P \<union> (insert w L' - L)" using PL t(9) a(4) assms(4) by auto
  ultimately show thesis using that[OF eq g] by blast
qed

end
