(* ===== verification/Atomkv_Put_Spec.thy ===== *)
theory Atomkv_Put_Spec
  imports Atomkv_Tree_Insert
begin

text \<open>
  \<^verbatim>\<open>BTree::Put\<close> as a whole: search, copy of the path, insertion or update, splits up to a new root. The entries
  of the tree afterwards are those before with the new one in its place in key order.
\<close>

section \<open>The tree of a bucket\<close>

text \<open>
  The tree under a root page in an update transaction: ordered, all leaves at the same depth, no empty leaf
  but the root, entries and separators stored in their pages, no page used twice, and no page of the
  transaction below a page of an earlier version.
\<close>

definition bucket_tree :: "('w, 'a) tx_db_scheme \<Rightarrow> nat \<Rightarrow> bt option \<Rightarrow> PageId \<Rightarrow> PageId set \<Rightarrow> bool" where
  "bucket_tree s f ot root P \<longleftrightarrow> page_ok (pg_size s) \<and>
     (case ot of None \<Rightarrow> root = kPageInvalidId \<and> P = {} | Some t \<Rightarrow> sub s f (height t) t root P)"

text \<open>The entry can be put: its key has the same kind as before, and an update finds room in its leaf.\<close>

definition can_put :: "nat \<Rightarrow> nat \<Rightarrow> bt option \<Rightarrow> key \<Rightarrow> byte list \<Rightarrow> bool \<Rightarrow> bool" where
  "can_put f ps ot key v b \<longleftrightarrow> small_entry f ps (key, v, b) \<and> 0 < length key + length v \<and>
     (\<forall>e \<in> set (contents ot). fst e = key \<longrightarrow> snd (snd e) = b) \<and>
     (case ot of None \<Rightarrow> True | Some t \<Rightarrow>
        key \<in> fst ` set (entries t) \<longrightarrow> leaf_cost (ins_entry key (v, b) (home t key)) \<le> ps - 18)"

text \<open>Every page of the path may be copied and split, and there may be a new root.\<close>

definition pages_to_put :: "bt option \<Rightarrow> nat" where
  "pages_to_put ot = (case ot of None \<Rightarrow> 1 | Some t \<Rightarrow> 2 * height t + 3)"

lemma tx_pages_mono: "tx_pages L m s \<Longrightarrow> n \<le> m \<Longrightarrow> tx_pages L n s"
  by (simp add: tx_pages_def)

lemma spares_live: "spares s s' \<Longrightarrow> tx_pages L n s \<Longrightarrow> q \<in> L \<Longrightarrow> needed s q \<Longrightarrow> nodes s' q = nodes s q"
  using stock_owned[of L s q] by (simp add: spares_def tx_pages_def)

text \<open>The tree on \<open>P\<close> moves to \<open>P'\<close>; the other owned pages stay owned, are not in the tree and do not change.\<close>

definition confined :: "PageId set \<Rightarrow> PageId set \<Rightarrow> 'a pager_db_scheme \<Rightarrow> PageId set \<Rightarrow> PageId set \<Rightarrow> 'a pager_db_scheme \<Rightarrow> bool" where
  "confined P L s P' L' s' \<longleftrightarrow> L - P \<subseteq> L' \<and> P' \<inter> (L - P) = {} \<and> (\<forall>q \<in> L - P. nodes s' q = nodes s q)"

lemma confined_refl [simp]: "confined P L s P L s"
  by (auto simp: confined_def)

lemma confined_grows:
  assumes "kept P s s1" "grows A L1 n s1 L2 s2" "A \<subseteq> P1" "L - P \<subseteq> L1" "P1 \<inter> (L - P) = {}" "tx_pages L k s" "P' \<subseteq> P1 \<union> (L2 - L1)"
  shows "confined P L s P' L2 s2"
proof -
  have "nodes s2 q = nodes s q" if q: "q \<in> L - P" for q
  proof -
    have "q \<notin> stock s" using q assms(6) stock_owned[of L s q] by (simp add: tx_pages_def)
    then have "nodes s1 q = nodes s q" using assms(1) q by (simp add: kept_def)
    moreover have "q \<notin> A \<union> (L2 - L1)" using q assms(3-5) by blast
    ultimately show ?thesis using assms(2) by (simp add: grows_def)
  qed
  moreover have "L1 \<subseteq> L2" using assms(2) by (simp add: grows_def)
  ultimately show ?thesis unfolding confined_def using assms(4,5,7) by blast
qed

lemma confined_tree:
  fixes s :: "('w, 'a) tx_db_scheme"
  assumes "confined P L s P' L' s'" "paged s s'" "bucket_tree s g ou root Q" "Q \<subseteq> L - P"
  shows "bucket_tree s' g ou root Q \<and> Q \<subseteq> L' - P'"
proof -
  have "\<forall>q \<in> Q. nodes s' q = nodes s q" using assms(1,4) unfolding confined_def by blast
  then have "bucket_tree s' g ou root Q" using assms(3) paged_fields(1)[OF assms(2)] sub_frame[OF _ _ assms(2)] by (auto simp: bucket_tree_def split: option.splits)
  then show ?thesis using assms(1,4) unfolding confined_def by blast
qed

lemma spares_grows:
  assumes "kept P s s1" "grows A L1 n s1 L2 s2" "\<forall>q \<in> A. \<not> needed s1 q" "paged s s1" "stock s1 \<subseteq> stock s"
  shows "spares s s2"
  unfolding spares_def
proof (intro allI impI)
  fix q assume q: "q \<notin> stock s" "needed s q"
  have e: "nodes s1 q = nodes s q" using assms(1) q by (simp add: kept_def)
  then have "needed s1 q" using needed_cong[OF assms(4) e] q(2) by simp
  then have "q \<notin> A \<union> (L2 - L1)" using assms(2,3,5) q(1) by (auto simp: grows_def)
  then show "nodes s2 q = nodes s q" using assms(2) e by (simp add: grows_def)
qed

lemma kept_spares: "kept P s s1 \<Longrightarrow> spares s s1"
  by (simp add: kept_def spares_def)

text \<open>The first half of a put: the leaf is found, and the pages down to it are made pages of the transaction.\<close>

lemma put_path:
  fixes s :: "('w, 'a) tx_db_scheme"
  assumes "sub s f h t root P" "P \<subseteq> L" "tx_pages L (n + (2 * h + 3)) s" "short_key key"
  obtains it root1 s1 P1 L1 where "\<forall>v b. BTree_Put bcmp bid key v b root s = Put_Leaf it key v False b root1 s1"
    "sub s1 f h t root1 P1" "P1 \<subseteq> L1" "tx_pages L1 (Suc n + length (trail it)) s1" "paged s s1" "iter_wf it" "path_to s1 t root1 (trail it)"
    "\<forall>e \<in> set (before t (trail it)). fst e < key" "\<forall>e \<in> set (after t (trail it)). key \<le> fst e"
    "status it = leaf_status key (focus t (trail it)) (snd (last (trail it)))" "on_home t key (trail it)" "\<forall>x \<in> set (trail it). \<not> needed s1 (fst x)"
    "kept P s s1" "stock s1 \<subseteq> stock s" "L - P \<subseteq> L1" "P1 \<inter> (L - P) = {}"
proof -
  have t: "owns s t root P" "fresh_up s t root" "ordered_bt t" "t = BLeaf [] \<or> full_leaves t" "small_bt f (pg_size s) t" "height t = h" "h < 32" "uniform h t"
    using assms(1) sub_height[OF assms(1)] by (simp_all add: sub_def)
  obtain it where it: "BTree_LowerBound bcmp bid root key s = Inr it" "iter_wf it" "path_to s t root (trail it)"
    "\<forall>e \<in> set (before t (trail it)). fst e < key" "\<forall>e \<in> set (after t (trail it)). key \<le> fst e"
    "status it = leaf_status key (focus t (trail it)) (snd (last (trail it)))" "on_home t key (trail it)"
    by (rule LowerBound_tree[OF owns_tree[OF t(1)] t(3), of key bid]) (use t(6,7) assms(4) in auto)
  let ?m = "Suc n + length (trail it)"
  have "length (trail it) \<le> Suc h" using path_length[OF it(3)] t(6) by simp
  then have tx: "tx_pages L (?m + length (trail it)) s" by (intro tx_pages_mono[OF assms(3)]) simp
  obtain root1 P1 L1 it1 s1 where c: "CopyAllPagesByPath root it s = Inr (root1, it1, s1)" "recopied s L P t ?m [] (trail it) it root1 P1 L1 it1 s1 (trail it1)"
    by (rule CopyAllPages_tree[OF t(1) assms(2) tx it(2,3)])
  have hd: "fst (hd (trail it)) = root" using path_head[OF it(3)] .
  have r: "owns s1 t root1 P1" "tx_pages L1 ?m s1" "paged s s1" "iter_wf it1" "status it1 = status it" "path_to s1 t root1 (trail it1)"
    "map snd (trail it1) = map snd (trail it)" "P1 \<subseteq> L1" "kept P s s1" "fresh_up s1 t root1" "\<forall>x \<in> set (trail it1). \<not> needed s1 (fst x)"
    "stock s1 \<subseteq> stock s" "L - P \<subseteq> L1" "P1 \<inter> (L - P) = {}"
    using c(2) hd t(2) by (auto simp: recopied_def)
  note sl = path_slots[OF r(7)]
  have last: "snd (last (trail it1)) = snd (last (trail it))"
    using r(7) path_nonempty[OF r(6)] path_nonempty[OF it(3)] by (metis last_map)
  have len: "length (trail it1) = length (trail it)" using r(7) by (metis length_map)
  have sub1: "sub s1 f h t root1 P1" using r(1,10) t(3-5,8) paged_fields(1)[OF r(3)] by (simp add: sub_def)
  have eq: "\<forall>v b. BTree_Put bcmp bid key v b root s = Put_Leaf it1 key v False b root1 s1" using it(1) c(1) by (simp add: BTree_Put_def)
  show thesis
    by (rule that[OF eq sub1 r(8) _ r(3,4,6) _ _ _ _ r(11,9,12-14)]) (use r(2,5) it(4-7) sl last len in simp_all)
qed

lemma BTree_Put_root:
  fixes s :: "('w, 'a) tx_db_scheme"
  assumes "sub s f h t root P" "P \<subseteq> L" "tx_pages L (n + pages_to_put (Some t)) s" "can_put f (pg_size s) (Some t) key v b"
  shows "\<exists>root' s' h' t' P' L'. BTree_Put bcmp bid key v b root s = Inr (root', s') \<and> sub s' f h' t' root' P' \<and> h' \<in> {h, Suc h} \<and>
    P' \<subseteq> L' \<and> tx_pages L' n s' \<and> paged s s' \<and> entries t' = ins_entry key (v, b) (entries t) \<and> spares s s' \<and> confined P L s P' L' s'"
proof -
  have cp: "small_entry f (pg_size s) (key, v, b)" "0 < length key + length v" "\<forall>e \<in> set (entries t). fst e = key \<longrightarrow> snd (snd e) = b"
    "key \<in> fst ` set (entries t) \<longrightarrow> leaf_cost (ins_entry key (v, b) (home t key)) \<le> pg_size s - 18"
    using assms(4) by (simp_all add: can_put_def contents_def)
  have tx: "tx_pages L (n + (2 * h + 3)) s" using assms(3) sub_height[OF assms(1)] by (simp add: pages_to_put_def)
  have sk: "short_key key" using cp(1) by (simp add: small_entry_def)
  obtain it1 root1 s1 P1 L1 where r: "\<forall>v b. BTree_Put bcmp bid key v b root s = Put_Leaf it1 key v False b root1 s1"
    "sub s1 f h t root1 P1" "P1 \<subseteq> L1" "tx_pages L1 (Suc n + length (trail it1)) s1" "paged s s1" "iter_wf it1" "path_to s1 t root1 (trail it1)"
    "\<forall>e \<in> set (before t (trail it1)). fst e < key" "\<forall>e \<in> set (after t (trail it1)). key \<le> fst e"
    "status it1 = leaf_status key (focus t (trail it1)) (snd (last (trail it1)))" "on_home t key (trail it1)" "\<forall>x \<in> set (trail it1). \<not> needed s1 (fst x)"
    "kept P s s1" "stock s1 \<subseteq> stock s" "L - P \<subseteq> L1" "P1 \<inter> (L - P) = {}"
    by (rule put_path[OF assms(1,2) tx sk])
  have o1: "owns s1 t root1 P1" using r(2) by (simp add: sub_def)
  have rdy: "put_ready s1 f t (trail it1) it1 key v b"
    unfolding put_ready_def using r(8-12) cp paged_fields(1)[OF r(5)] home_focus[OF r(11)] by auto
  obtain L2 s2 where p: "grows (fst ` set (trail it1)) L1 (Suc n) s1 L2 s2"
    "put_done (Put_Leaf it1 key v False b root1 s1) root1 L1 L2 s2 f h root1 P1 (ins_entry key (v, b) (entries t)) \<or>
     put_split (Put_Leaf it1 key v False b root1 s1) root1 [] L1 L2 s2 f h root1 P1 (ins_entry key (v, b) (entries t))"
    using put_subtree[OF r(2,3) _ r(6) _ r(7) rdy, of "Suc n" "[]" root1] r(4) by auto
  note g = grows_fields[OF p(1)] and eq = r(1)[rule_format, of v b]
  have nd: "\<forall>q \<in> fst ` set (trail it1). \<not> needed s1 q" using r(12) by blast
  have keep: "spares s s3" if "grows (fst ` set (trail it1)) L1 m s1 L3 s3" for m L3 s3
    by (rule spares_grows[OF r(13) that nd r(5,14)])
  have own: "confined P L s P3 L3 s3" if "grows (fst ` set (trail it1)) L1 m s1 L3 s3" "P3 \<subseteq> P1 \<union> (L3 - L1)" for m P3 L3 s3
    by (rule confined_grows[OF r(13) that(1) path_pages[OF r(7) o1] r(15,16) tx that(2)])
  from p(2) show ?thesis
  proof
    assume "put_done (Put_Leaf it1 key v False b root1 s1) root1 L1 L2 s2 f h root1 P1 (ins_entry key (v, b) (entries t))"
    then obtain t' P' where d: "Put_Leaf it1 key v False b root1 s1 = Inr (root1, s2)" "sub s2 f h t' root1 P'" "P' \<subseteq> P1 \<union> (L2 - L1)"
      "entries t' = ins_entry key (v, b) (entries t)" by (auto simp: put_done_def)
    have "P' \<subseteq> L2" using d(3) r(3) g(5) by blast
    then show ?thesis
      using eq d(1,2,4) tx_pages_mono[OF g(4), of n] paged_trans[OF r(5) g(3)] keep[OF p(1)] own[OF p(1) d(3)]
      by (intro exI[of _ root1] exI[of _ s2] exI[of _ h] exI[of _ t'] exI[of _ P'] exI[of _ L2]) simp
  next
    assume "put_split (Put_Leaf it1 key v False b root1 s1) root1 [] L1 L2 s2 f h root1 P1 (ins_entry key (v, b) (entries t))"
    then obtain root' s' L3 t' P' where d: "Put_Leaf it1 key v False b root1 s1 = Inr (root', s')" "grows {} L2 n s2 L3 s'" "sub s' f (Suc h) t' root' P'"
      "P' \<subseteq> L3" "entries t' = ins_entry key (v, b) (entries t)" "P' \<subseteq> P1 \<union> (L3 - L1)"
      by (rule put_new_root[OF _ g(4) r(3) g(5)]) blast
    have g3: "grows (fst ` set (trail it1)) L1 n s1 L3 s'" by (rule grows_trans[OF p(1) d(2)]) auto
    show ?thesis
      using eq d(1,3-5) grows_fields(3,4)[OF g3] paged_trans[OF r(5)] keep[OF g3] own[OF g3 d(6)]
      by (intro exI[of _ root'] exI[of _ s'] exI[of _ "Suc h"] exI[of _ t'] exI[of _ P'] exI[of _ L3]) simp
  qed
qed

text \<open>
  An update without room in its leaf: \<^verbatim>\<open>LeafNode::Update\<close> answers that it has failed, nobody asks, and
  the put returns. The pages down to the leaf are copied, the entries are those before.
\<close>

lemma Put_Leaf_full:
  assumes "leaf_page s pid x es" "iter_wf it" "trail it = xs @ [(pid, i)]" "i < length es" "fst (es ! i) = key" "status it = kEq"
    "snd (snd (es ! i)) = b" "fit_entry (pg_size s) (key, v, b)" "\<not> leaf_cost (es[i := (key, v, b)]) \<le> pg_size s - 18"
  shows "Put_Leaf it key v False b root s = Inr (root, s)"
proof -
  have fr: "\<not> iter_Empty it" "Front it = Inr (pid, i)" "Reference pid s = Inr pid"
    using iter_Empty_trail[OF assms(2)] Front_trail[OF assms(2)] assms(3) Reference_ok[of pid s] leaf_page_wf[OF assms(1)] by simp_all
  have bk: "iter_is_bucket it s = Inr b"
    using iter_end_iff[OF assms(2) HOL.refl] assms(3,6,7) fr(2,3) leaf_reads(3)[OF assms(1,4)] assms(1)
    by (simp add: leaf_page_def leaf_view_def iter_is_bucket_def GetLeafNode_def throw_if_def)
  have "IsBucket i (nodes s pid) = Inr b" using leaf_reads(3)[OF assms(1,4)] assms(7) by simp
  then have "i < node_count (nodes s pid)" "is_bucket (slots (nodes s pid) i) = b" by (simp_all add: IsBucket_def bind_res_Inr_iff)
  moreover from this(2) have "(nodes s pid)\<lparr>slots := (slots (nodes s pid))(i := (slots (nodes s pid) i)\<lparr>is_bucket := b\<rparr>)\<rparr> = nodes s pid"
    by (cases "nodes s pid"; cases "slots (nodes s pid) i") (simp add: fun_upd_idem_iff)
  ultimately have "on_node pid (SetIsBucket i b) s = Inr s" by (simp add: on_node_def SetIsBucket_def set_node_def)
  then show ?thesis using fr bk assms(6) leaf_update_full[OF assms(1,4,8,9)] by (simp add: Put_Leaf_def)
qed

lemma BTree_Put_none:
  fixes s :: "('w, 'a) tx_db_scheme"
  assumes "tx_pages L (Suc n) s" "page_ok (pg_size s)" "small_entry f (pg_size s) (key, v, b)" "0 < length key + length v"
  shows "\<exists>root' s'. BTree_Put cmp bid key v b kPageInvalidId s = Inr (root', s') \<and> sub s' f 0 (BLeaf [(key, v, b)]) root' {root'} \<and>
    tx_pages (insert root' L) n s' \<and> paged s s' \<and> spares s s' \<and> confined {} L s {root'} (insert root' L) s'"
proof -
  obtain q s1 where a: "Alloc 1 s = Inr (q, s1)" "Reference q s1 = Inr q" "q < kPageMaxCount" "q \<notin> L" "grows {} L n s (insert q L) s1"
    by (rule new_page[OF assms(1)])
  note g1 = grows_fields[OF a(5)]
  obtain mt where mt: "running s = Some mt" using tx_running[OF assms(1)] by blast
  obtain s2 where b: "LeafNode_Build q s1 = Inr s2" "touches {q} s1 s2" "leaf_page s2 q mt []"
    by (rule build_leaf[of s1 mt q]) (use assms(2) g1(1,2) mt a(3) in auto)
  have ps: "pg_size s2 = pg_size s" using touches_fields(1)[OF b(2)] g1(1) by simp
  have fit: "fit_entry (pg_size s2) (key, v, b)" "leaf_cost [] + entry_cost (key, v, b) \<le> pg_size s2 - 18"
    using small_entry_fit[OF assms(3)] assms(3,4) ps by (simp_all add: small_entry_def)
  obtain s3 s4 where c: "LeafNode_Insert q 0 key v s2 = Inr (True, s3)" "on_node q (SetIsBucket 0 b) s3 = Inr s4" "touches {q} s2 s4"
    "leaf_page s4 q mt (insert_at 0 (key, v, b) [])"
    by (rule leaf_insert[OF b(3) _ fit]) auto
  have "BTree_Put cmp bid key v b kPageInvalidId s = Inr (q, s4)"
    using a(1,2) b(1) c(1,2) iter_Empty_trail[of "new_iterator bid"]
    by (simp add: BTree_Put_def LowerBound_no_root CopyAllPagesByPath_def Put_Leaf_def must_def)
  moreover have "touches {q} s1 s4" by (rule touches_mono[OF touches_join[OF b(2) c(3)]]) simp
  then have "grows {q} (insert q L) n s1 (insert q L) s4" by (rule grows_touches[OF g1(4)])
  then have "grows {} L n s (insert q L) s4" by (rule grows_trans[OF a(5)]) (use a(4) in auto)
  note g = grows_fields[OF this] and sp = spares_grows[OF _ this _ paged_refl order_refl]
  moreover have "spares s s4" by (rule sp[of "{}"]) (simp_all add: kept_def)
  moreover have "confined {} L s {q} (insert q L) s4" unfolding confined_def using g(6) a(4) by auto
  moreover have "sub s4 f 0 (BLeaf [(key, v, b)]) q {q}" by (rule sub_leaf) (use c(4) assms(3) g(1) in \<open>auto simp: insert_at_def\<close>)
  ultimately show ?thesis using g(3,4) by blast
qed

lemma sub_ordered: "sub s f h t root P \<Longrightarrow> sorted_wrt (<) (bt_keys t)"
  using ordered_entries by (auto simp: sub_def)

lemma sub_page_ok: "sub s f h t root P \<Longrightarrow> page_ok (pg_size s)"
  by (cases t) (auto simp: sub_def owns.simps inline_node_def wf_node_def)

text \<open>The whole operation, for the empty tree too.\<close>

lemma BTree_Put_tree:
  fixes s :: "('w, 'a) tx_db_scheme"
  assumes "bucket_tree s f ot root P" "P \<subseteq> L" "tx_pages L (n + pages_to_put ot) s" "can_put f (pg_size s) ot key v b"
  shows "\<exists>root' s' t' P' L'. BTree_Put bcmp bid key v b root s = Inr (root', s') \<and> bucket_tree s' f (Some t') root' P' \<and>
    P' \<subseteq> L' \<and> tx_pages L' n s' \<and> paged s s' \<and> entries t' = ins_entry key (v, b) (contents ot) \<and> height t' \<le> (case ot of None \<Rightarrow> 0 | Some t \<Rightarrow> Suc (height t)) \<and>
    spares s s' \<and> confined P L s P' L' s'"
proof (cases ot)
  case None
  then have r: "root = kPageInvalidId" "P = {}" "page_ok (pg_size s)" "tx_pages L (Suc n) s" "small_entry f (pg_size s) (key, v, b)" "0 < length key + length v"
    using assms by (simp_all add: bucket_tree_def pages_to_put_def can_put_def)
  obtain root' s' where p: "BTree_Put bcmp bid key v b kPageInvalidId s = Inr (root', s')" "sub s' f 0 (BLeaf [(key, v, b)]) root' {root'}"
    "tx_pages (insert root' L) n s'" "paged s s'" "spares s s'" "confined P L s {root'} (insert root' L) s'"
    using BTree_Put_none[OF r(4,3,5,6), of bcmp bid] r(2) by blast
  have "contents ot = []" "ins_entry key (v, b) [] = [(key, v, b)]" using None by (simp_all add: contents_def ins_entry_def)
  then show ?thesis using p r(1) sub_page_ok[OF p(2)]
    by (intro exI[of _ root'] exI[of _ s'] exI[of _ "BLeaf [(key, v, b)]"] exI[of _ "{root'}"] exI[of _ "insert root' L"]) (simp add: bucket_tree_def)
next
  case (Some t)
  then have r: "sub s f (height t) t root P" using assms(1) by (simp add: bucket_tree_def)
  obtain root' s' h' t' P' L' where p: "BTree_Put bcmp bid key v b root s = Inr (root', s')" "sub s' f h' t' root' P'" "h' \<in> {height t, Suc (height t)}"
    "P' \<subseteq> L'" "tx_pages L' n s'" "paged s s'" "entries t' = ins_entry key (v, b) (entries t)" "spares s s'" "confined P L s P' L' s'"
    using BTree_Put_root[OF r assms(2), of n key v b bid] assms(3,4) Some by blast
  have "height t' = h'" using sub_height[OF p(2)] by blast
  then show ?thesis using p sub_page_ok[OF p(2)] Some
    by (intro exI[of _ root'] exI[of _ s'] exI[of _ t'] exI[of _ P'] exI[of _ L']) (auto simp: bucket_tree_def contents_def)
qed

lemma bucket_tree_sorted: "bucket_tree s f ot root P \<Longrightarrow> sorted_wrt (<) (map fst (contents ot))"
  by (cases ot) (auto simp: bucket_tree_def contents_def sub_ordered)

lemma bucket_tree_root:
  assumes "bucket_tree s f ot root P"
  shows "tree_root s ot root" "contents ot \<noteq> [] \<Longrightarrow> no_empty_leaf ot"
proof -
  show "tree_root s ot root"
  proof (cases ot)
    case (Some t)
    then have "sub s f (height t) t root P" using assms by (simp add: bucket_tree_def)
    then show ?thesis using sub_height[of s f "height t" t root P] Some by (auto simp: tree_root_def sub_def intro: owns_tree)
  qed (use assms in \<open>simp add: bucket_tree_def tree_root_def\<close>)
  show "contents ot \<noteq> [] \<Longrightarrow> no_empty_leaf ot"
    using assms by (auto simp: bucket_tree_def sub_def contents_def no_empty_leaf_def split: option.splits)
qed


section \<open>A sample transaction with one free page\<close>

definition sample_wide :: "'a \<Rightarrow> (byte list list, 'a) tx_db_scheme" where
  "sample_wide x = (sample_update x)\<lparr>free_map := [(2, 1)], debug_free_set := {2}\<rparr>"

lemma stock_of_256:
  assumes "pg_size s = 256" "\<not> io_fails s" "limit s \<le> 12"
  shows "200 \<le> card (stock s)"
proof -
  have "pg_size s = 2 ^ 8" using assms(1) by simp
  then have "top_page s = 16777215" using assms(1,2) unfolding top_page_def by (auto simp: kPageMaxCount_def intro: exI[of _ 8])
  then have "{12..<212} \<subseteq> stock s" using assms(3) by (auto simp: stock_def)
  from card_mono[OF finite_stock this] show ?thesis by simp
qed

lemma sample_wide_pages: "tx_pages sample_live 200 (sample_wide x)"
proof -
  have p: "page_inv sample_live (sample_wide x)"
    by (auto simp: page_inv_def map_inv_def sample_wide_def sample_update_def sample_meta_def limit_def free_ok_def pending_pairs_def)
  have l: "limit (sample_wide x) = 12" by (simp add: sample_wide_def sample_update_def sample_meta_def limit_def)
  have "200 \<le> card (stock (sample_wide x))" by (rule stock_of_256) (simp_all add: l, simp_all add: sample_wide_def sample_update_def)
  moreover have "tx_open (sample_wide x)" by (simp add: tx_open_def sample_wide_def sample_update_def)
  ultimately show ?thesis using p l by (simp add: tx_pages_def kPageMaxCount_def)
qed

lemma sample_wide_bound:
  assumes "4 \<le> f" "f \<le> 10"
  shows "bucket_tree (sample_wide x) f (Some sample_bt) 8 {8, 3, 4}"
proof -
  have n: "nodes (sample_wide x) = nodes (sample_update x)" "pg_size (sample_wide x) = 256" "pg_size (sample_update x) = 256"
    by (simp_all add: sample_wide_def sample_update_def)
  have o: "owns (sample_wide x) sample_bt 8 {8, 3, 4}" by (rule owns_frame[OF sample_update_owns]) (use n in auto)
  have nd: "needed (sample_wide x) 3" "needed (sample_wide x) 4"
    by (simp_all add: needed_def CopyNeeded_def update_tx_def IsTxExpired_def sample_wide_def sample_update_def sample_tree_db_def sample_pair_def)
  have kp: "kid_page (nodes (sample_wide x) 8) 0 = 3" "kid_page (nodes (sample_wide x) 8) 1 = 4"
    by (simp_all add: kid_page_def sample_wide_def sample_update_def sample_tree_db_def sample_root_def)
  have "fresh_up (sample_wide x) sample_bt 8"
    using nd kp by (simp add: sample_bt_def fresh_up.simps(2) kid_def le_Suc_eq)
  moreover have "ordered_bt sample_bt" "full_leaves sample_bt" using sample_tree_root by (simp_all add: tree_root_def no_empty_leaf_def)
  moreover have "small_bt f 256 sample_bt" "uniform (height sample_bt) sample_bt"
    using assms by (simp_all add: sample_bt_def small_entry_def entry_cost_def key_bound_def short_key_def)
  ultimately show ?thesis using o n(2) by (simp add: bucket_tree_def sub_def page_ok_def)
qed

lemma sample_wide_tree: "bucket_tree (sample_wide x) 4 (Some sample_bt) 8 {8, 3, 4}"
  by (rule sample_wide_bound) simp_all

abbreviation big_entry :: "byte \<Rightarrow> entry" where
  "big_entry k \<equiv> ([k], replicate 110 0, False)"

lemma big_entry_put:
  assumes "[k] \<notin> fst ` set (contents ot)"
  shows "can_put 4 256 ot [k] (replicate 110 0) False"
proof -
  have "small_entry 4 256 (big_entry k)" by (simp add: small_entry_def entry_cost_def key_bound_def short_key_def)
  moreover have "\<forall>e \<in> set (contents ot). fst e \<noteq> [k]" using assms by (metis image_eqI)
  ultimately show ?thesis using assms by (auto simp: can_put_def contents_def split: option.splits)
qed


section \<open>Properties\<close>

text \<open>
  C8: \<^verbatim>\<open>BTree::Put\<close>. In an update transaction with enough pages to allocate (free, or the file can grow by them below 4 GiB), a put of an entry of at most half a page, with
  a key that takes with its slot at most the part \<open>1 / f\<close> of a page (\<open>f\<close> is 4 or more), into a tree of such entries returns. The entries under the
  new root are those before with the new one in its place in key order, replacing the entry of the same key:
  whether the leaf has room, is split, or the splits go on up to a new root. The tree is again ordered with all
  leaves at the same depth, its pages are disjoint from the free and pending pages and from each other,
  its height grows by one at most, and no page of an earlier version has changed. The excluded case is
  an update that finds no room in its leaf, whose failure the code ignores.
\<close>

theorem put_correct:
  fixes s :: "('w, 'a) tx_db_scheme"
  assumes "bucket_tree s f ot root P" "P \<subseteq> L" "tx_pages L (n + pages_to_put ot) s" "can_put f (pg_size s) ot key v b"
  shows "\<exists>root' s' t' P' L'. BTree_Put bcmp bid key v b root s = Inr (root', s') \<and> bucket_tree s' f (Some t') root' P' \<and>
    P' \<subseteq> L' \<and> tx_pages L' n s' \<and> entries t' = ins_entry key (v, b) (contents ot) \<and>
    map_of (entries t') = (map_of (contents ot))(key \<mapsto> (v, b)) \<and>
    height t' \<le> (case ot of None \<Rightarrow> 0 | Some t \<Rightarrow> Suc (height t)) \<and> pg_size s' = pg_size s \<and> spares s s'"
proof -
  note m = ins_entry_sorted(3)[OF bucket_tree_sorted[OF assms(1)], of key "(v, b)"]
  show ?thesis using BTree_Put_tree[OF assms, of bid] m paged_fields(1) by metis
qed

text \<open>Three entries of almost half a page each, into an empty tree: the third one splits the root leaf.\<close>

theorem put_correct_witness:
  "\<exists>r1 s1 r2 s2 r3 s3 t3 P3. BTree_Put bcmp 1 [1] (replicate 110 0) False kPageInvalidId (sample_wide ()) = Inr (r1, s1) \<and>
     BTree_Put bcmp 1 [3] (replicate 110 0) False r1 s1 = Inr (r2, s2) \<and> BTree_Put bcmp 1 [2] (replicate 110 0) False r2 s2 = Inr (r3, s3) \<and>
     bucket_tree s3 4 (Some t3) r3 P3 \<and> entries t3 = [big_entry 1, big_entry 2, big_entry 3] \<and> 0 < height t3"
proof -
  have b0: "bucket_tree (sample_wide ()) 4 None kPageInvalidId {}" "pg_size (sample_wide ()) = 256"
    by (simp_all add: bucket_tree_def sample_wide_def sample_update_def page_ok_def)
  have x0: "tx_pages sample_live (8 + pages_to_put None) (sample_wide ())"
    by (rule tx_pages_mono[OF sample_wide_pages]) (simp add: pages_to_put_def)
  obtain r1 s1 t1 P1 L1 where p1: "BTree_Put bcmp 1 [1] (replicate 110 0) False kPageInvalidId (sample_wide ()) = Inr (r1, s1)" "bucket_tree s1 4 (Some t1) r1 P1"
    "P1 \<subseteq> L1" "tx_pages L1 8 s1" "entries t1 = [big_entry 1]" "height t1 = 0" "pg_size s1 = 256"
    using put_correct[OF b0(1) empty_subsetI x0, of "[1]" "replicate 110 0" False 1] big_entry_put[of 1 None] b0(2) by (auto simp: contents_def ins_entry_def)
  have x1: "tx_pages L1 (5 + pages_to_put (Some t1)) s1" using p1(4,6) by (simp add: pages_to_put_def)
  obtain r2 s2 t2 P2 L2 where p2: "BTree_Put bcmp 1 [3] (replicate 110 0) False r1 s1 = Inr (r2, s2)" "bucket_tree s2 4 (Some t2) r2 P2" "P2 \<subseteq> L2"
    "tx_pages L2 5 s2" "entries t2 = [big_entry 1, big_entry 3]" "height t2 \<le> 1" "pg_size s2 = 256"
    using put_correct[OF p1(2,3) x1, of "[3]" "replicate 110 0" False 1] big_entry_put[of 3 "Some t1"] p1(5-7) by (auto simp: contents_def ins_entry_def)
  have x2: "tx_pages L2 (0 + pages_to_put (Some t2)) s2" by (rule tx_pages_mono[OF p2(4)]) (use p2(6) in \<open>simp add: pages_to_put_def\<close>)
  obtain r3 s3 t3 P3 L3 where p3: "BTree_Put bcmp 1 [2] (replicate 110 0) False r2 s2 = Inr (r3, s3)" "bucket_tree s3 4 (Some t3) r3 P3"
    "entries t3 = [big_entry 1, big_entry 2, big_entry 3]" "height t3 \<le> 2" "pg_size s3 = 256"
    using put_correct[OF p2(2,3) x2, of "[2]" "replicate 110 0" False 1] big_entry_put[of 2 "Some t2"] p2(5-7) by (auto simp: contents_def ins_entry_def)
  have "0 < height t3"
  proof (cases t3)
    case (BLeaf es)
    then have "sub s3 4 0 (BLeaf es) r3 P3" using p3(2) by (simp add: bucket_tree_def)
    then obtain x where "leaf_page s3 r3 x es" by (rule sub_leafE)
    from leaf_page_room[OF this] show ?thesis using p3(3,5) BLeaf by (simp add: entry_cost_def)
  qed simp
  then show ?thesis using p1(1) p2(1) p3(1-3) by blast
qed

end
