(* ===== verification/Atomkv_Bucket_Spec.thy ===== *)
theory Atomkv_Bucket_Spec
  imports Atomkv_DB Atomkv_Put_Spec
begin

text \<open>
  Buckets as key-value maps: what \<^verbatim>\<open>Put\<close> leaves for \<^verbatim>\<open>Get\<close>, what opening a sub-bucket does, and the replay of
  the log.
\<close>

section \<open>The root of a bucket\<close>

lemma map_of_assign_same: "map_of (map_assign k v m) k = Some v"
  by (induction k v m rule: map_assign.induct) auto

lemma AtSubBucket_Inr: "AtSubBucket b s = Inr bk \<longleftrightarrow> b < length (sub_bucket_cache s) \<and> sub_bucket_cache s ! b = Some bk"
  by (auto simp: AtSubBucket_def split: option.splits)

text \<open>States with the same pages.\<close>

definition same_pages :: "'a pager_db_scheme \<Rightarrow> 'a pager_db_scheme \<Rightarrow> bool" where
  "same_pages s s' \<longleftrightarrow> nodes s' = nodes s \<and> pg_size s' = pg_size s \<and> db_meta s' = db_meta s \<and> mem s' = mem s \<and> map_size s' = map_size s"

lemma set_sub_map_root:
  assumes "set_sub_map p m s = Inr s'"
  shows "root_place b s' = root_place b s" "same_pages s s'" "update_meta s' = update_meta s"
  using assms by (auto simp: set_sub_map_def root_place_def same_pages_def bind_res_Inr_iff AtSubBucket_Inr AtSubBucket_def nth_list_update
      split: if_splits option.splits)

lemma sub_map_set: "set_sub_map p m s = Inr s' \<Longrightarrow> sub_map p s' = Inr (Some m)"
  by (auto simp: set_sub_map_def sub_map_def bind_res_Inr_iff AtSubBucket_Inr split: if_splits)

lemma set_sub_map_returns: "sub_map p s = Inr m0 \<Longrightarrow> \<exists>s'. set_sub_map p m s = Inr s'"
  by (auto simp: set_sub_map_def sub_map_def bind_res_Inr_iff split: if_splits)

lemma set_bucket_root_result:
  assumes "bucket_root b s = Inr root"
  obtains s' where "set_bucket_root b root' s = Inr s'" "bucket_root b s' = Inr root'" "same_pages s s'"
proof -
  obtain r where r: "root_place b s = Inr r" using assms by (auto simp: bucket_root_def bind_res_Inr_iff)
  show thesis
  proof (cases r)
    case User_root
    then obtain m where m: "update_meta s = Some m" using assms r by (auto simp: bucket_root_def bind_res_Inr_iff update_tx_def split: option.splits)
    let ?s = "s\<lparr>update_meta := Some (m\<lparr>user_root := root'\<rparr>)\<rparr>"
    have "root_place b ?s = root_place b s" by (simp add: root_place_def AtSubBucket_def)
    then show thesis
      using that[of ?s] r User_root m by (simp add: set_bucket_root_def bucket_root_def update_tx_def same_pages_def)
  next
    case (Sub_root p k)
    then obtain e where e: "map_entry p k s = Inr e" using assms r by (auto simp: bucket_root_def bind_res_Inr_iff)
    then obtain m where m: "sub_map p s = Inr (Some m)" by (auto simp: map_entry_def bind_res_Inr_iff split: option.splits)
    let ?m = "map_assign k (fst e, root') m"
    obtain s' where s': "set_sub_map p ?m s = Inr s'" using set_sub_map_returns[OF m] by blast
    have "set_bucket_root b root' s = Inr s'" using r Sub_root e m s' by (simp add: set_bucket_root_def)
    moreover have "bucket_root b s' = Inr root'"
      using set_sub_map_root(1)[OF s'] r Sub_root sub_map_set[OF s'] by (simp add: bucket_root_def map_entry_def map_of_assign_same)
    ultimately show thesis using that set_sub_map_root(2)[OF s'] by blast
  qed
qed


lemma sub_map_after: "set_sub_map b m s = Inr s' \<Longrightarrow> sub_map p s' = (if p = b then Inr (Some m) else sub_map p s)"
  by (auto simp: set_sub_map_def sub_map_def bind_res_Inr_iff AtSubBucket_Inr AtSubBucket_def nth_list_update split: if_splits option.splits)

lemma map_of_assign_other: "k \<noteq> key \<Longrightarrow> map_of (map_assign key e m) k = map_of m k"
  by (induction key e m rule: map_assign.induct) auto

text \<open>The places of the roots stay, and setting one root leaves the others.\<close>

lemma set_bucket_root_others:
  fixes s :: "('w, 'a) txn_db_scheme"
  assumes "set_bucket_root b root s = Inr s'"
  shows "root_place c s' = root_place c s" "root_place c s \<noteq> root_place b s \<Longrightarrow> bucket_root c s' = bucket_root c s"
proof -
  obtain r where r: "root_place b s = Inr r" using assms by (auto simp: set_bucket_root_def bind_res_Inr_iff)
  have "root_place c s' = root_place c s \<and> (root_place c s \<noteq> root_place b s \<longrightarrow> bucket_root c s' = bucket_root c s)"
  proof (cases r)
    case User_root
    then obtain m where m: "update_meta s = Some m" "s' = s\<lparr>update_meta := Some (m\<lparr>user_root := root\<rparr>)\<rparr>"
      using assms r by (auto simp: set_bucket_root_def bind_res_Inr_iff update_tx_def split: option.splits)
    have p: "root_place c s' = root_place c s" by (simp add: m(2) root_place_def AtSubBucket_def)
    have e: "map_entry q k s' = map_entry q k s" for q k by (simp add: m(2) map_entry_def sub_map_def AtSubBucket_def)
    have "bucket_root c s' = bucket_root c s" if h: "root_place c s \<noteq> root_place b s"
    proof (cases "root_place c s")
      case (Inr x)
      then obtain q k where "x = Sub_root q k" using h r User_root by (cases x) auto
      then show ?thesis using Inr p e by (simp add: bucket_root_def)
    qed (simp add: bucket_root_def p)
    then show ?thesis using p by blast
  next
    case (Sub_root q k)
    then obtain e m where m: "sub_map q s = Inr (Some m)" "set_sub_map q (map_assign k (fst e, root) m) s = Inr s'"
      using assms r by (auto simp: set_bucket_root_def map_entry_def bind_res_Inr_iff split: option.splits)
    have p: "root_place c s' = root_place c s" using set_sub_map_root(1)[OF m(2)] .
    have e: "map_entry q' k' s' = map_entry q' k' s" if "(q', k') \<noteq> (q, k)" for q' k'
      using that m(1) sub_map_after[OF m(2), of q'] by (auto simp: map_entry_def map_of_assign_other)
    have u: "update_tx s' = update_tx s" using set_sub_map_root(3)[OF m(2)] by (simp add: update_tx_def)
    have "bucket_root c s' = bucket_root c s" if "root_place c s \<noteq> root_place b s"
    proof (cases "root_place c s")
      case (Inr x)
      then show ?thesis using that r Sub_root p u e by (cases x) (auto simp: bucket_root_def)
    qed (simp add: bucket_root_def p)
    then show ?thesis using p by blast
  qed
  then show "root_place c s' = root_place c s" "root_place c s \<noteq> root_place b s \<Longrightarrow> bucket_root c s' = bucket_root c s" by blast+
qed

section \<open>Putting and getting\<close>

lemma bucket_root_cong:
  fixes s s' :: "('w, 'a) txn_db_scheme"
  assumes "map_option user_root (update_meta s') = map_option user_root (update_meta s)" "user_sub_map s' = user_sub_map s" "sub_bucket_cache s' = sub_bucket_cache s"
  shows "bucket_root b s' = bucket_root b s"
proof -
  have a: "AtSubBucket c s' = AtSubBucket c s" for c using assms(3) by (simp add: AtSubBucket_def)
  have m: "map_entry c k s' = map_entry c k s" for c k unfolding map_entry_def sub_map_def a assms(2) ..
  have u: "bind_res (update_tx s') (\<lambda>m. Inr (user_root m)) = bind_res (update_tx s) (\<lambda>m. Inr (user_root m))"
    using assms(1) by (cases "update_meta s"; cases "update_meta s'") (simp_all add: update_tx_def)
  show ?thesis unfolding bucket_root_def root_place_def a m u ..
qed

lemma paged_bucket_root:
  fixes s s' :: "('w, 'a) txn_db_scheme"
  assumes "paged s s'"
  shows "bucket_root b s' = bucket_root b s" "db_meta s' = db_meta s"
proof -
  have "grown s (update_meta s')" "user_sub_map s' = user_sub_map s" "sub_bucket_cache s' = sub_bucket_cache s" "db_meta s' = db_meta s"
    using assms by (auto simp: paged_def)
  moreover from this(1) have "map_option user_root (update_meta s') = map_option user_root (update_meta s)" by (auto simp: grown_def split: option.splits)
  ultimately show "bucket_root b s' = bucket_root b s" "db_meta s' = db_meta s" by (auto intro: bucket_root_cong)
qed

text \<open>
  Steps that leave the pages and the version of the transaction as they are: the log and the place of a root.
\<close>

definition same_tx :: "('w, 'a) tx_db_scheme \<Rightarrow> ('w, 'a) tx_db_scheme \<Rightarrow> bool" where
  "same_tx s s' \<longleftrightarrow> same_pages s s' \<and> (\<forall>x. CopyNeeded x s' = CopyNeeded x s) \<and> (\<forall>L n. tx_pages L n s' = tx_pages L n s)"

lemma same_tx_needed: "same_tx s s' \<Longrightarrow> needed s' q = needed s q"
  by (simp add: same_tx_def same_pages_def needed_def)

lemma same_tx_sub:
  assumes "same_tx s s'"
  shows "sub s' f h t root P = sub s f h t root P"
proof -
  have n: "nodes s' = nodes s" "pg_size s' = pg_size s" using assms by (simp_all add: same_tx_def same_pages_def)
  have "owns s' t root P = owns s t root P" using owns_frame[of s t root P s'] owns_frame[of s' t root P s] n by auto
  moreover have "fresh_up s' t root = fresh_up s t root"
    by (induction t arbitrary: root rule: bt_kid_induct) (simp_all add: fresh_up.simps(2) n same_tx_needed[OF assms])
  ultimately show ?thesis using n(2) by (simp add: sub_def)
qed

lemma same_tx_tree: "same_tx s s' \<Longrightarrow> bucket_tree s' f ot root P = bucket_tree s f ot root P"
  using same_tx_sub[of s s'] by (auto simp: bucket_tree_def same_tx_def same_pages_def split: option.splits)

text \<open>A step that changes the writer of the log at most.\<close>

definition logs :: "('w, 'a) txn_db_scheme \<Rightarrow> ('w, 'a) txn_db_scheme \<Rightarrow> bool" where
  "logs s s' \<longleftrightarrow> (\<exists>wr ck. s' = s\<lparr>writer := wr, checkpoint_needed := ck\<rparr>)"

lemma logs_refl: "logs s s"
  unfolding logs_def by (intro exI[of _ "writer s"] exI[of _ "checkpoint_needed s"]) simp

lemma logs_Append: "logs s (AppendPutLog w b key value bucket s)" "logs s (AppendDeleteLog w b key s)"
proof -
  have "logs s (AppendLog w rs s)" for rs using logs_refl by (auto simp: AppendLog_def Let_def logs_def)
  then show "logs s (AppendPutLog w b key value bucket s)" "logs s (AppendDeleteLog w b key s)"
    using logs_refl by (auto simp: AppendPutLog_def AppendDeleteLog_def)
qed

lemma logs_frame:
  fixes s :: "('w, 'a) txn_db_scheme"
  assumes "logs s s'"
  shows "same_tx s s'" "bucket_root c s' = bucket_root c s"
proof -
  obtain wr ck where e: "s' = s\<lparr>writer := wr, checkpoint_needed := ck\<rparr>" using assms by (auto simp: logs_def)
  show "bucket_root c s' = bucket_root c s" by (rule bucket_root_cong) (simp_all add: e)
  have l: "limit s' = limit s" by (rule limit_cong) (simp_all add: e)
  then have "stock s' = stock s" by (rule stock_cong[rotated]) (simp_all add: e)
  with l have "tx_pages L n s' = tx_pages L n s" for L n
    by (simp add: e tx_pages_def page_inv_def map_inv_def pending_pairs_def tx_open_def)
  then show "same_tx s s'"
    by (simp add: same_tx_def) (simp add: e same_pages_def update_tx_def CopyNeeded_def IsTxExpired_def)
qed

lemma set_sub_map_tx:
  fixes s :: "('w, 'a) txn_db_scheme"
  assumes "set_sub_map p m s = Inr u"
  shows "same_tx s u"
proof -
  have e: "u = s\<lparr>user_sub_map := user_sub_map u, sub_bucket_cache := sub_bucket_cache u\<rparr>"
    using assms by (auto simp: set_sub_map_def bind_res_Inr_iff split: if_splits)
  have f: "update_meta u = update_meta s" "db_meta u = db_meta s" "nodes u = nodes s" "pg_size u = pg_size s" "mem u = mem s" "map_size u = map_size s"
    "free_map u = free_map s" "pending_map u = pending_map s" "debug_free_set u = debug_free_set s" "min_view_txid u = min_view_txid s"
    "persisted_txid u = persisted_txid s" by (subst e, simp)+
  have l: "limit u = limit s" unfolding limit_def f ..
  moreover have "io_fails u = io_fails s" by (subst e, simp)
  then have "stock u = stock s" by (intro stock_cong l) (simp_all add: f)
  ultimately have "tx_pages L n u = tx_pages L n s" for L n
    by (simp add: f tx_pages_def page_inv_def map_inv_def pending_pairs_def tx_open_def)
  then show ?thesis by (simp add: same_tx_def) (simp add: f same_pages_def update_tx_def CopyNeeded_def IsTxExpired_def)
qed

lemma set_bucket_root_tx:
  fixes s :: "('w, 'a) txn_db_scheme"
  assumes "set_bucket_root b root s = Inr s'"
  shows "same_tx s s'"
proof -
  obtain r where r: "root_place b s = Inr r" using assms by (auto simp: set_bucket_root_def bind_res_Inr_iff)
  show ?thesis
  proof (cases r)
    case User_root
    then obtain m where m: "update_meta s = Some m" "s' = s\<lparr>update_meta := Some (m\<lparr>user_root := root\<rparr>)\<rparr>"
      using assms r by (auto simp: set_bucket_root_def bind_res_Inr_iff update_tx_def split: option.splits)
    have l: "limit s' = limit s" using m by (simp add: limit_def)
    then have "stock s' = stock s" by (rule stock_cong[rotated]) (simp_all add: m(2))
    with l have "tx_pages L n s' = tx_pages L n s" for L n
      using m by (simp add: tx_pages_def page_inv_def map_inv_def pending_pairs_def tx_open_def)
    then show ?thesis using m(1) by (simp add: same_tx_def) (simp add: m same_pages_def update_tx_def CopyNeeded_def IsTxExpired_def)
  next
    case (Sub_root p k)
    then show ?thesis using assms r set_sub_map_tx by (auto simp: set_bucket_root_def bind_res_Inr_iff split: option.splits)
  qed
qed

text \<open>
  What an operation of an update transaction changes: pages move from the free map to the list of
  allocations, the file may grow, pages move to the pending pages of the transaction, pages get its number, and the pages that an earlier
  version needs stay as they are.
\<close>

definition same_version :: "MetaStruct option \<Rightarrow> MetaStruct option \<Rightarrow> bool" where
  "same_version om om' \<longleftrightarrow> (\<exists>m m'. om = Some m \<and> om' = Some m' \<and> txid m' = txid m \<and> page_count m \<le> page_count m' \<and> free_list_pgid m' = free_list_pgid m)"

definition advances :: "('w, 'a) tx_db_scheme \<Rightarrow> ('w, 'a) tx_db_scheme \<Rightarrow> bool" where
  "advances s s' \<longleftrightarrow> same_version (update_meta s) (update_meta s') \<and> db_meta s' = db_meta s \<and> pg_size s' = pg_size s \<and> options s' = options s \<and>
     view_tx_map s' = view_tx_map s \<and> min_view_txid s' = min_view_txid s \<and> persisted_txid s' = persisted_txid s \<and>
     restamped s (nodes s') \<and> taken s (free_map s') (alloc_records s') \<and> own_pending s (pending_map s') \<and> spares s s' \<and> mapped s s'"

lemma set_bucket_root_version:
  fixes s :: "('w, 'a) txn_db_scheme"
  assumes "set_bucket_root b root s = Inr s'" "update_meta s \<noteq> None"
  shows "\<exists>um sm sc. s' = s\<lparr>update_meta := um, user_sub_map := sm, sub_bucket_cache := sc\<rparr> \<and> same_version (update_meta s) um \<and>
    map_option page_count um = map_option page_count (update_meta s)"
proof -
  obtain r where r: "root_place b s = Inr r" using assms(1) by (auto simp: set_bucket_root_def bind_res_Inr_iff)
  obtain m0 where m0: "update_meta s = Some m0" using assms(2) by auto
  show ?thesis
  proof (cases r)
    case User_root
    then have "s' = s\<lparr>update_meta := Some (m0\<lparr>user_root := root\<rparr>)\<rparr>" using assms(1) r m0 by (simp add: set_bucket_root_def update_tx_def)
    then show ?thesis using m0
      by (intro exI[of _ "Some (m0\<lparr>user_root := root\<rparr>)"] exI[of _ "user_sub_map s"] exI[of _ "sub_bucket_cache s"]) (simp add: same_version_def)
  next
    case (Sub_root p k)
    then obtain m where "set_sub_map p m s = Inr s'" using assms(1) r by (auto simp: set_bucket_root_def bind_res_Inr_iff)
    then have "s' = s\<lparr>update_meta := update_meta s, user_sub_map := user_sub_map s', sub_bucket_cache := sub_bucket_cache s'\<rparr>"
      by (auto simp: set_sub_map_def bind_res_Inr_iff split: if_splits)
    then have "\<exists>um sm sc. s' = s\<lparr>update_meta := um, user_sub_map := sm, sub_bucket_cache := sc\<rparr> \<and> um = update_meta s" by blast
    then show ?thesis using m0 unfolding same_version_def by fastforce
  qed
qed

lemma advancesI:
  fixes s :: "('w, 'a) txn_db_scheme"
  assumes "logs s s1" "paged s1 s2" "spares s1 s2" "set_bucket_root b root s2 = Inr s'" "tx_open s"
  shows "advances s s'" "b = kUserRootBucketId \<Longrightarrow> user_sub_map s' = user_sub_map s \<and> sub_bucket_cache s' = sub_bucket_cache s"
proof -
  obtain wr ck where e: "s1 = s\<lparr>writer := wr, checkpoint_needed := ck\<rparr>" using assms(1) by (auto simp: logs_def)
  have f: "db_meta s2 = db_meta s" "pg_size s2 = pg_size s" "options s2 = options s" "view_tx_map s2 = view_tx_map s" "min_view_txid s2 = min_view_txid s"
    "persisted_txid s2 = persisted_txid s" "grown s1 (update_meta s2)" "update_meta s1 = update_meta s" using assms(2) e by (auto simp: paged_def)
  obtain um sm sc where u: "s' = s2\<lparr>update_meta := um, user_sub_map := sm, sub_bucket_cache := sc\<rparr>" "same_version (update_meta s2) um"
    "map_option page_count um = map_option page_count (update_meta s2)"
  proof -
    have "update_meta s2 \<noteq> None" using assms(5) f(7,8) by (auto simp: tx_open_def grown_def)
    from set_bucket_root_version[OF assms(4) this] show thesis using that by blast
  qed
  have v: "same_version (update_meta s) um"
  proof -
    have "tx_open s1" using assms(5) f(8) by (simp add: tx_open_def)
    then have "same_version (update_meta s1) (update_meta s2)" using f(7) by (auto simp: tx_open_def grown_def same_version_def)
    then show ?thesis using u(2) unfolding f(8) same_version_def by fastforce
  qed
  have p: "restamped s1 (nodes s2)" "taken s1 (free_map s2) (alloc_records s2)" "own_pending s1 (pending_map s2)" using assms(2) by (simp_all add: paged_def)
  have "restamped s (nodes s2)" "taken s (free_map s2) (alloc_records s2)" "own_pending s (pending_map s2)"
    using p unfolding e restamped_def taken_def own_pending_def by simp_all
  moreover have "needed s1 q = needed s q" "nodes s1 q = nodes s q" for q
    using same_tx_needed[OF logs_frame(1)[OF assms(1)]] by (simp_all add: e)
  moreover have "stock s1 = stock s" by (rule stock_cong[OF _ limit_cong]) (simp_all add: e)
  ultimately have "spares s s2" "restamped s (nodes s2)" "taken s (free_map s2) (alloc_records s2)" "own_pending s (pending_map s2)"
    using assms(3) by (simp_all add: spares_def)
  moreover have "mapped s s'"
  proof -
    have "mapped s1 s2" using assms(2) by (simp add: paged_def)
    moreover have "mapped s s1" using limit_cong[of s1 s] by (simp add: e)
    moreover have "mapped s2 s'"
    proof (rule mapped_same)
      show "limit s' = limit s2" using u by (cases um; cases "update_meta s2") (simp_all add: limit_def)
    qed (simp_all add: u(1))
    ultimately show ?thesis using mapped_trans by blast
  qed
  ultimately show "advances s s'" using f u(1) v by (simp add: advances_def spares_def)
  assume "b = kUserRootBucketId"
  then have "user_sub_map s' = user_sub_map s2" "sub_bucket_cache s' = sub_bucket_cache s2"
    using assms(4) by (auto simp: set_bucket_root_def root_place_def bind_res_Inr_iff)
  then show "user_sub_map s' = user_sub_map s \<and> sub_bucket_cache s' = sub_bucket_cache s" using assms(2) e by (auto simp: paged_def)
qed

text \<open>What a write to the bucket \<open>b\<close> leaves alone: the places of the roots, the roots of the others, and the trees on other pages.\<close>

definition aside :: "PageId set \<Rightarrow> PageId set \<Rightarrow> BucketId \<Rightarrow> ('w, 'a) txn_db_scheme \<Rightarrow> PageId set \<Rightarrow> PageId set \<Rightarrow> ('w, 'a) txn_db_scheme \<Rightarrow> bool" where
  "aside P L b s P' L' s' \<longleftrightarrow> (\<forall>c. root_place c s' = root_place c s \<and> (root_place c s \<noteq> root_place b s \<longrightarrow> bucket_root c s' = bucket_root c s)) \<and>
     (\<forall>g ou r Q. bucket_tree s g ou r Q \<longrightarrow> Q \<subseteq> L - P \<longrightarrow> bucket_tree s' g ou r Q \<and> Q \<subseteq> L' - P')"

lemma paged_root_place:
  fixes s :: "('w, 'a) txn_db_scheme"
  shows "paged s s' \<Longrightarrow> root_place c s' = root_place c s"
  by (auto simp: paged_def root_place_def AtSubBucket_def)

lemma asideI:
  fixes s :: "('w, 'a) txn_db_scheme"
  assumes "logs s s1" "paged s1 s2" "confined P L s1 P' L' s2" "set_bucket_root b root s2 = Inr s'"
  shows "aside P L b s P' L' s'"
proof -
  have l: "same_tx s s1" "\<And>c. bucket_root c s1 = bucket_root c s" by (rule logs_frame[OF assms(1)])+
  have rp: "root_place c s1 = root_place c s" for c using assms(1) by (auto simp: logs_def root_place_def AtSubBucket_def)
  note o = set_bucket_root_others[OF assms(4)] and pb = paged_bucket_root(1)[OF assms(2)] and pr = paged_root_place[OF assms(2)]
  have "bucket_tree s' g ou r Q \<and> Q \<subseteq> L' - P'" if h: "bucket_tree s g ou r Q" "Q \<subseteq> L - P" for g ou r Q
  proof -
    have "bucket_tree s1 g ou r Q" using h(1) same_tx_tree[OF l(1)] by blast
    from confined_tree[OF assms(3,2) this h(2)] show ?thesis using same_tx_tree[OF set_bucket_root_tx[OF assms(4)]] by blast
  qed
  then show ?thesis unfolding aside_def using o pb pr l(2) rp by simp
qed

text \<open>What \<^verbatim>\<open>BTree::Put\<close> does to the tree, \<^verbatim>\<open>Put\<close> does to the bucket.\<close>

lemma Bucket_Put_lift:
  fixes s :: "('w, 'a) txn_db_scheme"
  assumes s0: "s0 = AppendPutLog w b key value bucket s" and rt: "bucket_root b s = Inr root" and op: "tx_open s"
    and p: "BTree_Put bcmp b key value bucket root s0 = Inr (root', s1)" "bucket_tree s1 f ot' root' P'" "tx_pages L' n s1" "paged s0 s1"
      "spares s0 s1" "confined P L s0 P' L' s1"
  obtains s' where "Bucket_Put w bcmp b key value bucket s = Inr s'" "bucket_root b s' = Inr root'"
    "bucket_tree s' f ot' root' P'" "tx_pages L' n s'" "db_meta s' = db_meta s" "pg_size s' = pg_size s" "advances s s'"
    "b = kUserRootBucketId \<longrightarrow> user_sub_map s' = user_sub_map s \<and> sub_bucket_cache s' = sub_bucket_cache s" "aside P L b s P' L' s'"
proof -
  have lg: "logs s s0" unfolding s0 by (rule logs_Append(1))
  have lf: "same_tx s s0" "bucket_root c s0 = bucket_root c s" for c by (rule logs_frame[OF lg])+
  have l0: "pg_size s0 = pg_size s" "db_meta s0 = db_meta s" using lf(1) by (simp_all add: same_tx_def same_pages_def)
  have r: "bucket_root b s0 = Inr root" "bucket_root b s1 = Inr root" "db_meta s1 = db_meta s0" "pg_size s1 = pg_size s0"
    using lf(2) paged_bucket_root[OF p(4)] rt paged_fields(1)[OF p(4)] by simp_all
  obtain s' where s': "set_bucket_root b root' s1 = Inr s'" "bucket_root b s' = Inr root'" "same_pages s1 s'"
    by (rule set_bucket_root_result[OF r(2)])
  note st = set_bucket_root_tx[OF s'(1)]
  show thesis
  proof (rule that)
    show "Bucket_Put w bcmp b key value bucket s = Inr s'" using p(1) r(1) s'(1) by (simp add: Bucket_Put_def s0)
    show "bucket_tree s' f ot' root' P'" "tx_pages L' n s'" using p(2,3) same_tx_tree[OF st] st by (simp_all add: same_tx_def)
    show "advances s s'" "b = kUserRootBucketId \<longrightarrow> user_sub_map s' = user_sub_map s \<and> sub_bucket_cache s' = sub_bucket_cache s"
      using advancesI[OF lg p(4,5) s'(1) op] by blast+
    show "db_meta s' = db_meta s" "pg_size s' = pg_size s" using s'(3) r(3,4) l0 by (simp_all add: same_pages_def)
    show "aside P L b s P' L' s'" by (rule asideI[OF lg p(4,6) s'(1)])
  qed (rule s'(2))
qed

lemma put_log_state:
  fixes s :: "('w, 'a) txn_db_scheme"
  shows "bucket_tree (AppendPutLog w b key value bucket s) f ot root P = bucket_tree s f ot root P"
    "tx_pages L n (AppendPutLog w b key value bucket s) = tx_pages L n s" "pg_size (AppendPutLog w b key value bucket s) = pg_size s"
proof -
  have l: "same_tx s (AppendPutLog w b key value bucket s)" by (rule logs_frame(1)[OF logs_Append(1)])
  then show "bucket_tree (AppendPutLog w b key value bucket s) f ot root P = bucket_tree s f ot root P" by (rule same_tx_tree)
  show "tx_pages L n (AppendPutLog w b key value bucket s) = tx_pages L n s" "pg_size (AppendPutLog w b key value bucket s) = pg_size s"
    using l by (simp_all add: same_tx_def same_pages_def)
qed

lemma Bucket_Put_result:
  fixes s :: "('w, 'a) txn_db_scheme"
  assumes "bucket_root b s = Inr root" "bucket_tree s f ot root P" "P \<subseteq> L" "tx_pages L (n + pages_to_put ot) s" "can_put f (pg_size s) ot key value bucket"
  obtains s' root' t' P' L' where "Bucket_Put w bcmp b key value bucket s = Inr s'" "bucket_root b s' = Inr root'"
    "bucket_tree s' f (Some t') root' P'" "P' \<subseteq> L'" "tx_pages L' n s'" "entries t' = ins_entry key (value, bucket) (contents ot)"
    "db_meta s' = db_meta s" "pg_size s' = pg_size s" "advances s s'" "b = kUserRootBucketId \<longrightarrow> user_sub_map s' = user_sub_map s \<and> sub_bucket_cache s' = sub_bucket_cache s"
    "aside P L b s P' L' s'"
proof -
  let ?s = "AppendPutLog w b key value bucket s"
  have l0: "bucket_tree ?s f ot root P" "tx_pages L (n + pages_to_put ot) ?s" "can_put f (pg_size ?s) ot key value bucket" "tx_open s"
    using assms tx_pages_def[of L "n + pages_to_put ot" s] by (simp_all add: put_log_state)
  from BTree_Put_tree[OF l0(1) assms(3) l0(2,3), of b] obtain root' s1 t' P' L' where p: "BTree_Put bcmp b key value bucket root ?s = Inr (root', s1)"
    "bucket_tree s1 f (Some t') root' P'" "P' \<subseteq> L'" "tx_pages L' n s1" "paged ?s s1" "entries t' = ins_entry key (value, bucket) (contents ot)"
    "spares ?s s1" "confined P L ?s P' L' s1" by blast
  obtain s' where "Bucket_Put w bcmp b key value bucket s = Inr s'" "bucket_root b s' = Inr root'"
    "bucket_tree s' f (Some t') root' P'" "tx_pages L' n s'" "db_meta s' = db_meta s" "pg_size s' = pg_size s" "advances s s'"
    "b = kUserRootBucketId \<longrightarrow> user_sub_map s' = user_sub_map s \<and> sub_bucket_cache s' = sub_bucket_cache s" "aside P L b s P' L' s'"
    by (rule Bucket_Put_lift[OF HOL.refl assms(1) l0(4) p(1,2,4,5,7,8)])
  then show thesis using that p(3,6) by blast
qed

lemma Bucket_Get_tree:
  assumes "bucket_root b s = Inr root" "bucket_tree s f ot root P" "short_key k"
  shows "\<exists>it. Bucket_Get bcmp b k s = Inr it \<and> finds it b k s (map_of (contents ot) k)"
  using BTree_Get_finds[OF bucket_tree_root(1)[OF assms(2)] assms(3), of b] assms(1) by (simp add: Bucket_Get_def)


text \<open>An update transaction on the sample tree, with no open sub-bucket.\<close>

abbreviation sample_txn :: "byte list list txn_db" where
  "sample_txn \<equiv> sample_wide (txn_db.fields None [])"

lemma sample_txn_root: "bucket_root kUserRootBucketId sample_txn = Inr 8"
  by (simp add: bucket_root_def root_place_def update_tx_def sample_wide_def sample_update_def)


section \<open>Stores\<close>

text \<open>
  What a client needs of a store: a state holds a map and has resources for a number of puts; a put of a new key
  succeeds, uses one of them, and extends the map; a read shows the map.
\<close>

locale key_value_store =
  fixes holds :: "nat \<Rightarrow> 's \<Rightarrow> ('k \<rightharpoonup> 'v) \<Rightarrow> bool" and fine :: "'k \<times> 'v \<Rightarrow> bool" and legal :: "'k \<Rightarrow> bool"
    and store_put :: "'k \<times> 'v \<Rightarrow> 's \<Rightarrow> 's res" and reads :: "'k \<Rightarrow> 's \<Rightarrow> 'v option \<Rightarrow> bool"
  assumes put_new: "holds (Suc n) s m \<Longrightarrow> fine (k, v) \<Longrightarrow> m k = None \<Longrightarrow> \<exists>s'. store_put (k, v) s = Inr s' \<and> holds n s' (m(k \<mapsto> v))"
    and read_holds: "holds n s m \<Longrightarrow> legal k \<Longrightarrow> reads k s (m k)"
begin

lemma load_holds:
  assumes "holds (n + length kvs) s m" "distinct (map fst kvs)" "\<forall>x \<in> set kvs. fine x \<and> m (fst x) = None"
  shows "\<exists>s'. fold_res store_put kvs s = Inr s' \<and> holds n s' (m ++ map_of kvs)"
  using assms
proof (induction kvs arbitrary: s m)
  case (Cons x kvs)
  obtain k v where x: "x = (k, v)" by (cases x)
  obtain s1 where s1: "store_put (k, v) s = Inr s1" "holds (n + length kvs) s1 (m(k \<mapsto> v))"
    using put_new[of "n + length kvs" s m k v] Cons.prems x by auto
  have "\<forall>y \<in> set kvs. fine y \<and> (m(k \<mapsto> v)) (fst y) = None" using Cons.prems(2,3) x by (auto simp: image_iff)
  moreover have "distinct (map fst kvs)" using Cons.prems(2) by simp
  ultimately obtain s' where "fold_res store_put kvs s1 = Inr s'" "holds n s' (m(k \<mapsto> v) ++ map_of kvs)"
    using Cons.IH[OF s1(2)] by blast
  moreover have "m(k \<mapsto> v) ++ map_of kvs = m ++ map_of (x # kvs)"
  proof -
    have "map_of kvs k = None" using Cons.prems(2) x by (simp add: map_of_eq_None_iff)
    then show ?thesis using x by (auto simp: fun_eq_iff map_add_def split: option.splits)
  qed
  ultimately show ?case using s1(1) x by (simp del: map_of.simps)
qed simp

lemma load_reads:
  assumes "holds (n + length kvs) s m" "distinct (map fst kvs)" "\<forall>x \<in> set kvs. fine x \<and> m (fst x) = None"
  shows "\<exists>s'. fold_res store_put kvs s = Inr s' \<and> (\<forall>k. legal k \<longrightarrow> reads k s' ((m ++ map_of kvs) k))"
  using load_holds[OF assms] read_holds by blast

end

text \<open>
  The user bucket or an open sub-bucket of an update transaction is such a store, with \<open>c\<close> pages to allocate for each operation. A put
  needs 65 at most, since no tree is higher than 31.
\<close>

definition bucket_holds :: "nat \<Rightarrow> nat \<Rightarrow> nat \<Rightarrow> BucketId \<Rightarrow> nat \<Rightarrow> ('w, 'a) txn_db_scheme \<Rightarrow> (key \<rightharpoonup> byte list \<times> bool) \<Rightarrow> bool" where
  "bucket_holds c f ps b n s m \<longleftrightarrow> (\<exists>root ot P L. bucket_root b s = Inr root \<and> bucket_tree s f ot root P \<and> P \<subseteq> L \<and> tx_pages L (c * n) s \<and>
     pg_size s = ps \<and> m = map_of (contents ot))"

definition put_entry :: "'w wal_writer \<Rightarrow> BucketId \<Rightarrow> entry \<Rightarrow> ('w, 'a) txn_db_scheme \<Rightarrow> ('w, 'a) txn_db_scheme res" where
  "put_entry w b e s = Bucket_Put w bcmp b (fst e) (fst (snd e)) (snd (snd e)) s"

definition get_shows :: "BucketId \<Rightarrow> key \<Rightarrow> ('w, 'a) txn_db_scheme \<Rightarrow> (byte list \<times> bool) option \<Rightarrow> bool" where
  "get_shows b k s r \<longleftrightarrow> (\<exists>it. Bucket_Get bcmp b k s = Inr it \<and> finds it b k s r)"

lemma bucket_height: "bucket_tree s f (Some t) root P \<Longrightarrow> height t < 32"
  using sub_height[of s f "height t" t root P] by (simp add: bucket_tree_def)

lemma can_put_new:
  assumes "map_of (contents ot) k = None" "small_entry f ps (k, v, b)" "0 < length k + length v"
  shows "can_put f ps ot k v b"
proof -
  have nk: "k \<notin> fst ` set (contents ot)" using assms(1) by (simp add: map_of_eq_None_iff)
  then have "\<forall>e \<in> set (contents ot). fst e \<noteq> k" by (metis image_eqI)
  then show ?thesis using assms(2,3) nk by (cases ot) (simp_all add: can_put_def contents_def)
qed

lemma bucket_holds_put:
  fixes s :: "('w, 'a) txn_db_scheme"
  assumes "bucket_holds c f ps b (Suc n) s m" "small_entry f ps (k, v)" "0 < length k + length (fst v)" "m k = None" "65 \<le> c"
  shows "\<exists>s'. put_entry w b (k, v) s = Inr s' \<and> bucket_holds c f ps b n s' (m(k \<mapsto> v))"
proof -
  obtain root ot P L where h: "bucket_root b s = Inr root" "bucket_tree s f ot root P" "P \<subseteq> L" "tx_pages L (c * Suc n) s" "pg_size s = ps" "m = map_of (contents ot)"
    using assms(1) by (auto simp: bucket_holds_def)
  have cp: "can_put f (pg_size s) ot k (fst v) (snd v)" by (rule can_put_new) (use assms(2-4) h(5,6) in simp_all)
  have "pages_to_put ot \<le> 65" using bucket_height h(2) by (fastforce simp: pages_to_put_def split: option.splits)
  then have x: "tx_pages L (c * n + pages_to_put ot) s" using assms(5) by (intro tx_pages_mono[OF h(4)]) simp
  obtain s' root' t' P' L' where p: "Bucket_Put w bcmp b k (fst v) (snd v) s = Inr s'" "bucket_root b s' = Inr root'"
    "bucket_tree s' f (Some t') root' P'" "P' \<subseteq> L'" "tx_pages L' (c * n) s'" "entries t' = ins_entry k (fst v, snd v) (contents ot)" "pg_size s' = pg_size s"
    by (rule Bucket_Put_result[OF h(1-3) x cp])
  have "m(k \<mapsto> v) = map_of (contents (Some t'))"
    using ins_entry_sorted(3)[OF bucket_tree_sorted[OF h(2)], of k v] p(6) h(6) by (simp add: contents_def)
  then show ?thesis using p h(5) by (auto simp: bucket_holds_def put_entry_def)
qed

interpretation bucket_store: key_value_store "bucket_holds 65 f ps b" "\<lambda>e. small_entry f ps e \<and> 0 < length (fst e) + length (fst (snd e))" short_key
  "put_entry w b" "get_shows b" for f ps b w
proof
  fix n and s :: "('a, 'b) txn_db_scheme" and m k v
  show "bucket_holds 65 f ps b (Suc n) s m \<Longrightarrow> small_entry f ps (k, v) \<and> 0 < length (fst (k, v)) + length (fst (snd (k, v))) \<Longrightarrow> m k = None \<Longrightarrow>
      \<exists>s'. put_entry w b (k, v) s = Inr s' \<and> bucket_holds 65 f ps b n s' (m(k \<mapsto> v))"
    by (rule bucket_holds_put) simp_all
  show "bucket_holds 65 f ps b n s m \<Longrightarrow> short_key k \<Longrightarrow> get_shows b k s (m k)"
    using Bucket_Get_tree by (fastforce simp: bucket_holds_def get_shows_def)
qed


section \<open>Properties\<close>



text \<open>
  Loading a bucket. Any number of puts of different new keys, in any order, with entries of at most half a page
  and 65 pages to allocate for each (free, or the file can grow by them below 4 GiB), all return, through every split they cause; afterwards \<^verbatim>\<open>Get\<close> finds each of the new entries
  and every entry the bucket held before, and no other key.
\<close>

theorem bucket_load:
  fixes s :: "('w, 'a) txn_db_scheme"
  assumes "bucket_root b s = Inr root" "bucket_tree s f ot root P" "P \<subseteq> L" "tx_pages L (65 * length kvs) s" "distinct (map fst kvs)"
    "\<forall>e \<in> set kvs. small_entry f (pg_size s) e \<and> 0 < length (fst e) + length (fst (snd e)) \<and> map_of (contents ot) (fst e) = None"
  shows "\<exists>s'. fold_res (put_entry w b) kvs s = Inr s' \<and> (\<forall>k. short_key k \<longrightarrow> (\<exists>it. Bucket_Get bcmp b k s' = Inr it \<and>
    finds it b k s' (case map_of kvs k of Some x \<Rightarrow> Some x | None \<Rightarrow> map_of (contents ot) k)))"
proof -
  have "bucket_holds 65 f (pg_size s) b (0 + length kvs) s (map_of (contents ot))" using assms(1-4) by (auto simp: bucket_holds_def)
  from bucket_store.load_reads[OF this assms(5), of w] assms(6) show ?thesis
    by (simp add: get_shows_def map_add_def)
qed

theorem bucket_load_witness:
  "\<exists>s'. fold_res (put_entry sample_writer kUserRootBucketId) [big_entry 7, big_entry 3, big_entry 8] sample_txn = Inr s' \<and>
    (\<exists>it. Bucket_Get bcmp kUserRootBucketId [8] s' = Inr it \<and> finds it kUserRootBucketId [8] s' (Some (replicate 110 0, False))) \<and>
    (\<exists>it. Bucket_Get bcmp kUserRootBucketId [9] s' = Inr it \<and> finds it kUserRootBucketId [9] s' (Some ([19], False))) \<and>
    (\<exists>it. Bucket_Get bcmp kUserRootBucketId [4] s' = Inr it \<and> finds it kUserRootBucketId [4] s' None)"
proof -
  let ?kvs = "[big_entry 7, big_entry 3, big_entry 8]"
  have e: "short_key [8]" "short_key [9]" "short_key [4]" "{8, 3, 4} \<subseteq> sample_live" "distinct (map fst ?kvs)"
    "map_of (contents (Some sample_bt)) [9] = Some ([19], False)" "map_of (contents (Some sample_bt)) [4] = None"
    by (auto simp: short_key_def sample_bt_def contents_def)
  have c: "\<forall>e \<in> set ?kvs. small_entry 4 (pg_size sample_txn) e \<and> 0 < length (fst e) + length (fst (snd e)) \<and> map_of (contents (Some sample_bt)) (fst e) = None"
    by (simp add: sample_wide_def sample_update_def small_entry_def entry_cost_def key_bound_def short_key_def sample_bt_def contents_def)
  have x: "tx_pages sample_live (65 * length ?kvs) sample_txn" by (rule tx_pages_mono[OF sample_wide_pages]) simp
  obtain s' where p: "fold_res (put_entry sample_writer kUserRootBucketId) ?kvs sample_txn = Inr s'"
    and g: "\<forall>k. short_key k \<longrightarrow> (\<exists>it. Bucket_Get bcmp kUserRootBucketId k s' = Inr it \<and>
       finds it kUserRootBucketId k s' (case map_of ?kvs k of Some x \<Rightarrow> Some x | None \<Rightarrow> map_of (contents (Some sample_bt)) k))"
    using bucket_load[OF sample_txn_root sample_wide_tree e(4) x e(5) c, of sample_writer] by blast
  show ?thesis using p g[rule_format, OF e(1)] g[rule_format, OF e(2)] g[rule_format, OF e(3)] e(6,7)
    by (intro exI[of _ s']) (simp del: fold_res.simps)
qed

end
