(* ===== verification/Atomkv_Rebalance.thy ===== *)
theory Atomkv_Rebalance
  imports Atomkv_Put_Spec
begin

text \<open>
  What \<^verbatim>\<open>BTree::Delete\<close> does with the page of an underfull node and the page of its sibling: merge them, or move one
  entry or one separator from the sibling.
\<close>

section \<open>Giving pages back\<close>

lemma Free_tx:
  fixes s :: "('w, 'a) tx_db_scheme"
  assumes "tx_pages L n s" "q \<in> L" "q < kPageMaxCount"
  obtains s' where "Free q 1 s = Inr s'" "tx_pages (L - {q}) n s'" "paged s s'" "nodes s' = nodes s" "stock s' = stock s"
proof -
  have a: "page_inv L s" "limit s \<le> kPageMaxCount" "n \<le> card (stock s)" using assms(1) by (simp_all add: tx_pages_def)
  obtain m where m: "update_meta s = Some m" using tx_running[OF assms(1)] by auto
  have "q \<noteq> kPageInvalidId" using assms(3) by (simp add: kPageMaxCount_def kPageInvalidId_def)
  then obtain s' where s': "Free q 1 s = Inr s'" using Free_result[of q 1 s] m by blast
  then have f: "Free q 1 s = Inr s'" "\<exists>pm. s' = s\<lparr>pending_map := pm\<rparr> \<and> own_pending s pm" using Free_own_pending by blast+
  have r: "run (q, 1) = {q}" by auto
  have k: "page_inv (L - {q}) s'" using Free_keeps[OF a(1) f(1)] assms(2) r by simp
  have l: "limit s' = limit s" by (rule limit_cong) (use f(2) in auto)
  have st: "stock s' = stock s" by (rule stock_cong[OF _ l]) (use f(2) in auto)
  have p: "paged s s'" "nodes s' = nodes s" using f(2) by (auto intro: pagedI)
  have "tx_open s'" using f(2) m by (auto simp: tx_open_def)
  then have "tx_pages (L - {q}) n s'" using k l st a(2,3) by (simp add: tx_pages_def)
  then show thesis using that f(1) p st by blast
qed

section \<open>Merging\<close>

lemma append_entries_page:
  assumes "leaf_page s left x as" "leaf_page s right y bs" "left \<noteq> right" "m \<le> length bs" "\<forall>e \<in> set bs. fit_entry (pg_size s) e"
    "leaf_cost as + leaf_cost bs \<le> pg_size s - 18"
  shows "\<exists>s'. fold_res (append_entry left right) [0..<m] s = Inr s' \<and> touches {left} s s' \<and> leaf_page s' left x (as @ take m bs)"
  using assms(4)
proof (induction m)
  case 0
  then show ?case using assms(1) by auto
next
  case (Suc m)
  then obtain s1 where s1: "fold_res (append_entry left right) [0..<m] s = Inr s1" "touches {left} s s1" "leaf_page s1 left x (as @ take m bs)" by auto
  have r: "leaf_page s1 right y bs" using assms(2,3) leaf_page_touches[OF s1(2), of right] by simp
  have ps: "pg_size s1 = pg_size s" using touches_fields(1)[OF s1(2)] .
  have m: "m < length bs" using Suc.prems by simp
  have "leaf_cost (take (Suc m) bs) \<le> leaf_cost bs" using sum_list_halves[of entry_cost bs "Suc m"] by simp
  then have "leaf_cost (as @ take m bs) + entry_cost (bs ! m) \<le> pg_size s1 - 18" using assms(6) ps m by (simp add: take_Suc_conv_app_nth)
  then obtain s2 where s2: "append_entry left right m s1 = Inr s2" "touches {left} s1 s2" "leaf_page s2 left x ((as @ take m bs) @ [bs ! m])"
    using append_entry_page[OF s1(3) r assms(3) m] assms(5) ps m by auto
  have "touches {left} s s2" by (rule touches_mono[OF touches_join[OF s1(2) s2(2)]]) simp
  then show ?case using s1(1) s2(1,3) m by (simp add: fold_res_append fold_res_single take_Suc_conv_app_nth)
qed

lemma Merge_Leaf_page:
  fixes s :: "('w, 'a) tx_db_scheme"
  assumes "leaf_page s left x as" "leaf_page s right y bs" "left \<noteq> right" "\<forall>e \<in> set bs. fit_entry (pg_size s) e"
    "leaf_cost as + leaf_cost bs \<le> pg_size s - 18" "tx_pages L n s" "right \<in> L"
  obtains s' where "Merge_Leaf left right s = Inr s'" "leaf_page s' left x (as @ bs)" "tx_pages (L - {right}) n s'" "paged s s'"
    "stock s' = stock s" "\<forall>q. q \<noteq> left \<longrightarrow> nodes s' q = nodes s q"
proof -
  obtain s1 where s1: "fold_res (append_entry left right) [0..<length bs] s = Inr s1" "touches {left} s s1" "leaf_page s1 left x (as @ bs)"
    using append_entries_page[OF assms(1-3) order_refl assms(4,5)] by auto
  note t = touches_fields[OF s1(2)]
  have "right < kPageMaxCount" using leaf_page_wf[OF assms(2)] by blast
  then obtain s' where f: "Free right 1 s1 = Inr s'" "tx_pages (L - {right}) n s'" "paged s1 s'" "nodes s' = nodes s1" "stock s' = stock s1"
    using Free_tx[of L n s1 right] assms(6,7) t(5) by blast
  have "leaf_page s' left x (as @ bs)" using s1(3) leaf_page_cong[of s' left s1] f(4) paged_fields(1)[OF f(3)] by simp
  moreover have "Merge_Leaf left right s = Inr s'" using s1(1) f(1) leaf_count[OF assms(2)] by (simp add: Merge_Leaf_def)
  ultimately show thesis using that f(2,4,5) paged_trans[OF t(4) f(3)] t(3,6) by auto
qed

lemma branch_append:
  assumes "branch_page s pid x ks cs" "k \<noteq> []" "length k \<le> (pg_size s - 34) div 2" "branch_cost ks + 8 + length k \<le> pg_size s - 18"
  obtains s' where "must (BranchNode_Append pid k c r s) = Inr s'" "touches {pid} s s'"
    "branch_page s' pid x (ks @ [k]) (if r then cs @ [c] else butlast cs @ [c, last cs])"
proof -
  have b: "branch_node (pg_size s) (nodes s pid) x ks cs" using assms(1) by (simp add: branch_page_def)
  note cnt = branch_node_counts(1,2)[OF b]
  obtain s' where i: "BranchNode_Insert pid (length ks) k c r s = Inr (True, s')" "touches {pid} s s'"
    "branch_page s' pid x (insert_at (length ks) k ks) (insert_at (if r then Suc (length ks) else length ks) c cs)"
    by (rule branch_insert[OF assms(1) order_refl assms(2-4)])
  have "insert_at (length ks) c cs = butlast cs @ [c, last cs]"
    using cnt(2) by (cases cs rule: rev_cases) (simp_all add: insert_at_def)
  moreover have "insert_at (Suc (length ks)) c cs = cs @ [c]" "insert_at (length ks) k ks = ks @ [k]" using cnt(2) by (simp_all add: insert_at_def)
  ultimately have "branch_page s' pid x (ks @ [k]) (if r then cs @ [c] else butlast cs @ [c, last cs])" using i(3) by (cases r) simp_all
  then show thesis using that i(1,2) cnt(1) by (simp add: must_def BranchNode_Append_def)
qed

lemma append_seps_page:
  assumes "branch_page s left x (ks @ [dk]) (cs @ [d])" "branch_page s right y ls ds" "left \<noteq> right" "m \<le> length ls"
    "\<forall>k \<in> set ls. k \<noteq> [] \<and> length k \<le> (pg_size s - 34) div 2" "branch_cost (ks @ [dk]) + branch_cost ls \<le> pg_size s - 18"
  shows "\<exists>s'. fold_res (\<lambda>i t. bind_res (GetKey right i t) (\<lambda>k. bind_res (GetLeftChild i (nodes t right)) (\<lambda>c.
      must (BranchNode_Append left k c False t)))) [0..<m] s = Inr s' \<and> touches {left} s s' \<and>
    branch_page s' left x (ks @ [dk] @ take m ls) (cs @ take m ds @ [d])"
  using assms(4)
proof (induction m)
  case 0
  then show ?case using assms(1) by auto
next
  case (Suc m)
  then obtain s1 where s1: "fold_res (\<lambda>i t. bind_res (GetKey right i t) (\<lambda>k. bind_res (GetLeftChild i (nodes t right)) (\<lambda>c.
      must (BranchNode_Append left k c False t)))) [0..<m] s = Inr s1" "touches {left} s s1"
    "branch_page s1 left x (ks @ [dk] @ take m ls) (cs @ take m ds @ [d])" by auto
  have r: "branch_page s1 right y ls ds" using assms(2,3) branch_page_touches[OF s1(2), of right] by simp
  have ps: "pg_size s1 = pg_size s" using touches_fields(1)[OF s1(2)] .
  have m: "m < length ls" using Suc.prems by simp
  have rb: "branch_node (pg_size s1) (nodes s1 right) y ls ds" using r by (simp add: branch_page_def)
  have "branch_cost (take (Suc m) ls) \<le> branch_cost ls" using sum_list_halves[of "\<lambda>k. 8 + length k" ls "Suc m"] by simp
  then have "branch_cost (ks @ [dk] @ take m ls) + 8 + length (ls ! m) \<le> pg_size s1 - 18" using assms(6) ps m by (simp add: take_Suc_conv_app_nth)
  then obtain s2 where s2: "must (BranchNode_Append left (ls ! m) (ds ! m) False s1) = Inr s2" "touches {left} s1 s2"
    "branch_page s2 left x ((ks @ [dk] @ take m ls) @ [ls ! m]) (butlast (cs @ take m ds @ [d]) @ [ds ! m, d])"
    using branch_append[OF s1(3), of "ls ! m" "ds ! m" False] assms(5) ps m by auto
  have "touches {left} s s2" by (rule touches_mono[OF touches_join[OF s1(2) s2(2)]]) simp
  then show ?case
    using s1(1) s2(1,3) m branch_page_reads(1)[OF r m] branch_node_counts(8)[OF rb, of m] branch_node_counts(2)[OF rb]
    by (simp add: fold_res_append fold_res_single take_Suc_conv_app_nth butlast_append)
qed

lemma Merge_Branch_page:
  fixes s :: "('w, 'a) tx_db_scheme"
  assumes "branch_page s left x ks cs" "branch_page s right y ls ds" "left \<noteq> right" "\<forall>k \<in> set (dk # ls). k \<noteq> [] \<and> length k \<le> (pg_size s - 34) div 2"
    "branch_cost ks + branch_cost (dk # ls) \<le> pg_size s - 18" "tx_pages L n s" "right \<in> L"
  obtains s' where "Merge_Branch left right dk s = Inr s'" "branch_page s' left x (ks @ dk # ls) (cs @ ds)" "tx_pages (L - {right}) n s'" "paged s s'"
    "stock s' = stock s" "\<forall>q. q \<noteq> left \<longrightarrow> nodes s' q = nodes s q"
proof -
  have rb: "branch_node (pg_size s) (nodes s right) y ls ds" using assms(2) by (simp add: branch_page_def)
  obtain s1 where s1: "must (BranchNode_Append left dk kPageInvalidId True s) = Inr s1" "touches {left} s s1"
    "branch_page s1 left x (ks @ [dk]) (cs @ [kPageInvalidId])"
    using branch_append[OF assms(1), of dk kPageInvalidId True] assms(4,5) by auto
  have r1: "branch_page s1 right y ls ds" using assms(2,3) branch_page_touches[OF s1(2), of right] by simp
  have ps: "pg_size s1 = pg_size s" using touches_fields(1)[OF s1(2)] .
  obtain s2 where s2: "fold_res (\<lambda>i t. bind_res (GetKey right i t) (\<lambda>k. bind_res (GetLeftChild i (nodes t right)) (\<lambda>c.
      must (BranchNode_Append left k c False t)))) [0..<length ls] s1 = Inr s2" "touches {left} s1 s2"
    "branch_page s2 left x (ks @ [dk] @ ls) (cs @ take (length ls) ds @ [kPageInvalidId])"
    using append_seps_page[OF s1(3) r1 assms(3) order_refl] assms(4,5) ps by auto
  have r2: "branch_page s2 right y ls ds" using r1 assms(3) branch_page_touches[OF s2(2), of right] by simp
  then have "branch_node (pg_size s2) (nodes s2 right) y ls ds" by (simp add: branch_page_def)
  note c2 = branch_node_counts(2,9)[OF this]
  obtain s3 where s3: "on_node left (SetTailChild (last ds)) s2 = Inr s3" "touches {left} s2 s3"
    "branch_page s3 left x (ks @ [dk] @ ls) (butlast (cs @ take (length ls) ds @ [kPageInvalidId]) @ [last ds])"
    by (rule branch_set_tail[OF s2(3)])
  have "take (length ls) ds @ [last ds] = ds" using c2(1) by (cases ds rule: rev_cases) simp_all
  then have l3: "branch_page s3 left x (ks @ dk # ls) (cs @ ds)" using s3(3) by (simp add: butlast_append)
  have t: "touches {left} s s3" by (rule touches_mono[OF touches_join[OF touches_join[OF s1(2) s2(2)] s3(2)]]) simp
  note tf = touches_fields[OF t]
  have "right < kPageMaxCount" using assms(2) by (simp add: branch_page_def)
  then obtain s' where f: "Free right 1 s3 = Inr s'" "tx_pages (L - {right}) n s'" "paged s3 s'" "nodes s' = nodes s3" "stock s' = stock s3"
    using Free_tx[of L n s3 right] assms(6,7) tf(5) by blast
  have "branch_page s' left x (ks @ dk # ls) (cs @ ds)" using l3 branch_page_cong[of s' left s3] f(4) paged_fields(1)[OF f(3)] by simp
  moreover have "node_count (nodes s1 right) = length ls" using r1 branch_node_counts(1) by (fastforce simp: branch_page_def)
  then have "Merge_Branch left right dk s = Inr s'" using s1(1) s2(1) c2(2) s3(1) f(1) by (simp add: Merge_Branch_def)
  ultimately show thesis using that f(2,4,5) paged_trans[OF tf(4) f(3)] tf(3,6) by auto
qed


section \<open>Borrowing\<close>

lemma erase_ends: "xs \<noteq> [] \<Longrightarrow> erase_at (length xs - 1) xs = butlast xs" "erase_at 0 xs = tl xs"
  by (cases xs rule: rev_cases; simp add: erase_at_def) (cases xs; simp add: erase_at_def)

lemma leaf_pop:
  assumes "leaf_page s pid x es" "es \<noteq> []"
  obtains s' where "LeafNode_Pop pid s = Inr s'" "touches {pid} s s'" "leaf_page s' pid x (butlast es)"
proof -
  obtain s' where "LeafNode_Delete pid (length es - 1) s = Inr s'" "touches {pid} s s'" "leaf_page s' pid x (erase_at (length es - 1) es)"
    by (rule leaf_delete[OF assms(1), of "length es - 1"]) (use assms(2) in auto)
  then show thesis using that leaf_count[OF assms(1)] assms(2) erase_ends(1)[OF assms(2)] by (simp add: LeafNode_Pop_def)
qed

lemma branch_pop:
  assumes "branch_page s pid x ks cs" "ks \<noteq> []"
  obtains s' where "BranchNode_Pop pid True s = Inr s'" "touches {pid} s s'" "branch_page s' pid x (butlast ks) (butlast cs)"
proof -
  have b: "branch_node (pg_size s) (nodes s pid) x ks cs" using assms(1) by (simp add: branch_page_def)
  note cnt = branch_node_counts(1,2)[OF b]
  obtain s' where "BranchNode_Delete pid (length ks - 1) True s = Inr s'" "touches {pid} s s'"
    "branch_page s' pid x (erase_at (length ks - 1) ks) (erase_at (Suc (length ks - 1)) cs)"
    using branch_delete[OF assms(1), of "length ks - 1" True] assms(2) by auto
  moreover have "erase_at (Suc (length ks - 1)) cs = butlast cs"
  proof -
    have "cs \<noteq> []" "length cs - 1 = Suc (length ks - 1)" using cnt(2) assms(2) by (cases ks; auto)+
    then show ?thesis using erase_ends(1)[of cs] by simp
  qed
  ultimately show thesis using that cnt(1) assms(2) erase_ends(1)[OF assms(2)] by (simp add: BranchNode_Pop_def)
qed

lemma borrow_leaf_left:
  assumes "leaf_page s sib x as" "leaf_page s node y bs" "sib \<noteq> node" "as \<noteq> []" "fit_entry (pg_size s) (last as)"
    "leaf_cost bs + entry_cost (last as) \<le> pg_size s - 18"
  obtains s' where "borrow_leaf node sib True s = Inr (fst (last as), s')" "touches {sib, node} s s'"
    "leaf_page s' sib x (butlast as)" "leaf_page s' node y (last as # bs)"
proof -
  obtain k v b where e: "last as = (k, v, b)" by (cases "last as")
  have l: "length as - 1 < length as" "as ! (length as - 1) = (k, v, b)" using assms(4) e by (simp_all add: last_conv_nth)
  note rd = leaf_reads[OF assms(1) l(1)]
  obtain s1 s2 where s: "LeafNode_Insert node 0 k v s = Inr (True, s1)" "on_node node (SetIsBucket 0 b) s1 = Inr s2" "touches {node} s s1" "touches {node} s s2"
    "leaf_page s2 node y (insert_at 0 (k, v, b) bs)"
    by (rule leaf_insert[OF assms(2), of 0 k v b]) (use assms(5,6) e in auto)
  have sb: "leaf_page s1 sib x as" "leaf_page s2 sib x as" using assms(1,3) leaf_page_touches[OF s(3), of sib] leaf_page_touches[OF s(4), of sib] by simp_all
  obtain s3 where p: "LeafNode_Pop sib s2 = Inr s3" "touches {sib} s2 s3" "leaf_page s3 sib x (butlast as)" by (rule leaf_pop[OF sb(2) assms(4)])
  have n3: "leaf_page s3 node y ((k, v, b) # bs)" using s(5) leaf_page_touches[OF p(2), of node] assms(3) by (simp add: insert_at_def)
  have "borrow_leaf node sib True s = Inr (k, s3)"
    using rd l(2) s(1,2) p(1) leaf_count[OF assms(1)] leaf_reads(3)[OF sb(1) l(1)] leaf_reads(1)[OF n3, of 0]
    by (simp add: borrow_leaf_def must_def Let_def)
  moreover have "touches {sib, node} s s3" by (rule touches_mono[OF touches_join[OF s(4) p(2)]]) auto
  ultimately show thesis using that p(3) n3 e by simp
qed

lemma borrow_leaf_right:
  assumes "leaf_page s node x as" "leaf_page s sib y bs" "sib \<noteq> node" "2 \<le> length bs" "fit_entry (pg_size s) (hd bs)"
    "leaf_cost as + entry_cost (hd bs) \<le> pg_size s - 18"
  obtains s' where "borrow_leaf node sib False s = Inr (fst (hd (tl bs)), s')" "touches {sib, node} s s'"
    "leaf_page s' node x (as @ [hd bs])" "leaf_page s' sib y (tl bs)"
proof -
  have h: "0 < length bs" "bs ! 0 = hd bs" using assms(4) by (cases bs; simp)+
  obtain s1 where s1: "append_entry node sib 0 s = Inr s1" "touches {node} s s1" "leaf_page s1 node x (as @ [bs ! 0])"
    by (rule append_entry_page[OF assms(1,2) _ h(1)]) (use assms(3,5,6) h(2) in auto)
  have sb: "leaf_page s1 sib y bs" using assms(2,3) leaf_page_touches[OF s1(2), of sib] by simp
  obtain s2 where s2: "LeafNode_Delete sib 0 s1 = Inr s2" "touches {sib} s1 s2" "leaf_page s2 sib y (erase_at 0 bs)"
    by (rule leaf_delete[OF sb h(1)])
  have tl: "leaf_page s2 sib y (tl bs)" "0 < length (tl bs)" using s2(3) erase_ends(2)[of bs] assms(4) by simp_all
  have n2: "leaf_page s2 node x (as @ [hd bs])" using s1(3) h(2) leaf_page_touches[OF s2(2), of node] assms(3) by simp
  have ht: "hd (tl bs) = tl bs ! 0" using tl(2) by (cases "tl bs") simp_all
  have "borrow_leaf node sib False s = Inr (fst (hd (tl bs)), s2)"
    unfolding ht using s1(1) s2(1) leaf_reads(1)[OF tl(1,2)] by (simp add: borrow_leaf_def)
  moreover have "touches {sib, node} s s2" by (rule touches_mono[OF touches_join[OF s1(2) s2(2)]]) auto
  ultimately show thesis using that tl(1) n2 by simp
qed

lemma borrow_branch_left:
  assumes "branch_page s sib x ks cs" "branch_page s node y ls ds" "branch_page s parent z ps qs" "sib \<noteq> node" "ks \<noteq> []" "i < length ps"
    "ps ! i \<noteq> []" "length (ps ! i) \<le> (pg_size s - 34) div 2" "branch_cost ls + 8 + length (ps ! i) \<le> pg_size s - 18"
  obtains s' where "borrow_branch node parent i sib True s = Inr (last ks, s')" "touches {sib, node} s s'"
    "branch_page s' sib x (butlast ks) (butlast cs)" "branch_page s' node y (ps ! i # ls) (last cs # ds)"
proof -
  have sn: "branch_node (pg_size s) (nodes s sib) x ks cs" using assms(1) by (simp add: branch_page_def)
  obtain s1 where s1: "BranchNode_Insert node 0 (ps ! i) (last cs) False s = Inr (True, s1)" "touches {node} s s1"
    "branch_page s1 node y (insert_at 0 (ps ! i) ls) (insert_at 0 (last cs) ds)"
    using branch_insert[OF assms(2) _ assms(7-9), of 0 "last cs" False] by auto
  have sb: "branch_page s1 sib x ks cs" using assms(1,4) branch_page_touches[OF s1(2), of sib] by simp
  then have sn1: "branch_node (pg_size s1) (nodes s1 sib) x ks cs" by (simp add: branch_page_def)
  obtain s2 where s2: "BranchNode_Pop sib True s1 = Inr s2" "touches {sib} s1 s2" "branch_page s2 sib x (butlast ks) (butlast cs)"
    by (rule branch_pop[OF sb assms(5)])
  have "branch_page s2 node y (ps ! i # ls) (last cs # ds)" using s1(3) branch_page_touches[OF s2(2), of node] assms(4) by (simp add: insert_at_def)
  moreover have "GetKey sib (length ks - 1) s1 = Inr (last ks)" using branch_page_reads(1)[OF sb, of "length ks - 1"] assms(5) by (simp add: last_conv_nth)
  then have "borrow_branch node parent i sib True s = Inr (last ks, s2)"
    using branch_page_reads(1)[OF assms(3,6)] branch_node_counts(9)[OF sn] branch_node_counts(1)[OF sn1] s1(1) s2(1)
    by (simp add: borrow_branch_def must_def)
  moreover have "touches {sib, node} s s2" by (rule touches_mono[OF touches_join[OF s1(2) s2(2)]]) auto
  ultimately show thesis using that s2(3) by simp
qed

lemma borrow_branch_right:
  assumes "branch_page s node x ks cs" "branch_page s sib y ls ds" "branch_page s parent z ps qs" "sib \<noteq> node" "parent \<noteq> node" "parent \<noteq> sib"
    "ls \<noteq> []" "i < length ps" "qs ! Suc i = sib"
    "ps ! i \<noteq> []" "length (ps ! i) \<le> (pg_size s - 34) div 2" "branch_cost ks + 8 + length (ps ! i) \<le> pg_size s - 18"
  obtains s' where "borrow_branch node parent i sib False s = Inr (hd ls, s')" "touches {sib, node, parent} s s'" "branch_page s' parent z ps qs"
    "branch_page s' node x (ks @ [ps ! i]) (cs @ [hd ds])" "branch_page s' sib y (tl ls) (tl ds)"
proof -
  have pn: "branch_node (pg_size s) (nodes s parent) z ps qs" using assms(3) by (simp add: branch_page_def)
  have "qs[Suc i := sib] = qs" using assms(9) by (metis list_update_id)
  then obtain s0 where s0: "on_node parent (SetLeftChild (Suc i) sib) s = Inr s0" "touches {parent} s s0" "branch_page s0 parent z ps qs"
    using branch_set_child[OF assms(3), of "Suc i" sib] assms(8) by auto
  have p0: "branch_page s0 node x ks cs" "branch_page s0 sib y ls ds" "pg_size s0 = pg_size s"
    using assms(1,2,5,6) branch_page_touches[OF s0(2), of node] branch_page_touches[OF s0(2), of sib] touches_fields(1)[OF s0(2)] by simp_all
  have sn: "branch_node (pg_size s0) (nodes s0 sib) y ls ds" using p0(2) by (simp add: branch_page_def)
  have d0: "ds \<noteq> []" "GetLeftChild 0 (nodes s0 sib) = Inr (hd ds)" using branch_node_counts(2)[OF sn] branch_node_counts(8)[OF sn, of 0] by (cases ds; simp)+
  obtain s1 where s1: "must (BranchNode_Append node (ps ! i) (hd ds) True s0) = Inr s1" "touches {node} s0 s1"
    "branch_page s1 node x (ks @ [ps ! i]) (cs @ [hd ds])"
    using branch_append[OF p0(1) assms(10), of "hd ds" True] assms(11,12) p0(3) by auto
  have sb: "branch_page s1 sib y ls ds" "branch_page s1 parent z ps qs"
    using p0(2) s0(3) assms(4,5) branch_page_touches[OF s1(2), of sib] branch_page_touches[OF s1(2), of parent] by simp_all
  obtain s2 where s2: "BranchNode_Delete sib 0 False s1 = Inr s2" "touches {sib} s1 s2" "branch_page s2 sib y (erase_at 0 ls) (erase_at 0 ds)"
    using branch_delete[OF sb(1), of 0 False] assms(7) by auto
  have "branch_page s2 node x (ks @ [ps ! i]) (cs @ [hd ds])" "branch_page s2 parent z ps qs"
    using s1(3) sb(2) branch_page_touches[OF s2(2), of node] branch_page_touches[OF s2(2), of parent] assms(4,6) by simp_all
  moreover have "GetKey sib 0 s1 = Inr (hd ls)" using branch_page_reads(1)[OF sb(1), of 0] assms(7) by (simp add: hd_conv_nth)
  then have "borrow_branch node parent i sib False s = Inr (hd ls, s2)"
    using branch_page_reads(1)[OF s0(3) assms(8)] s0(1) d0(2) s1(1) s2(1) by (simp add: borrow_branch_def)
  moreover have "touches {sib, node, parent} s s2" by (rule touches_mono[OF touches_join[OF touches_join[OF s0(2) s1(2)] s2(2)]]) auto
  ultimately show thesis using that s2(3) erase_ends(2) by metis
qed


section \<open>The parent\<close>

lemma branch_cost_update: "i < length ks \<Longrightarrow> branch_cost (ks[i := k]) + (8 + length (ks ! i)) = branch_cost ks + (8 + length k)"
  using sum_list_update[of i "map (\<lambda>k. 8 + length k) ks" "8 + length k"] member_le_sum_list[of "8 + length (ks ! i)" "map (\<lambda>k. 8 + length k) ks"]
  by (auto simp: map_update)

lemma branch_update_key:
  assumes "branch_page s pid x ks cs" "i < length ks" "length k \<le> (pg_size s - 34) div 2"
  shows "branch_cost (ks[i := k]) \<le> pg_size s - 18 \<Longrightarrow>
      \<exists>s'. BranchNode_UpdateKey pid i k s = Inr (True, s') \<and> touches {pid} s s' \<and> branch_page s' pid x (ks[i := k]) cs"
    "\<not> branch_cost (ks[i := k]) \<le> pg_size s - 18 \<Longrightarrow> BranchNode_UpdateKey pid i k s = Inr (False, s)"
proof -
  let ?n = "nodes s pid"
  have b: "branch_node (pg_size s) ?n x ks cs" "pid < kPageMaxCount" using assms(1) by (simp_all add: branch_page_def)
  note c = branch_node_counts[OF b(1)]
  have f: "node_type ?n = kBranch" "last_modified_txid ?n = x" "\<forall>c \<in> set (separators ?n). \<not> is_overflow_pages (fst c)"
    "ks = map sep_key (separators ?n)" "cs = children ?n" using b(1) unfolding branch_node_def by blast+
  have i: "i < node_count ?n" "\<not> is_overflow_pages (slots ?n i)" using c(1,7) assms(2) by auto
  have "length (ks ! i) = raw_size ?n (slots ?n i)"
    unfolding branch_node_key[OF b(1) assms(2)] using c(3) i by (simp add: sep_key_def separator_def cell_at_def raw_size_def)
  then have fit: "fits (pg_size s) (length k) False (emptied_key i ?n) \<longleftrightarrow> branch_cost (ks[i := k]) \<le> pg_size s - 18"
    using branch_cost_update[OF assms(2), of k] branch_node_cost[OF b(1)] raw_size_le_used[OF c(6) i(1)] assms(3) c(5)
    by (auto simp: fits_def emptied_key_def record_need_def page_ok_def)
  show "\<not> branch_cost (ks[i := k]) \<le> pg_size s - 18 \<Longrightarrow> BranchNode_UpdateKey pid i k s = Inr (False, s)"
    using BranchNode_UpdateKey_full[OF c(6,3) i] fit by blast
  assume "branch_cost (ks[i := k]) \<le> pg_size s - 18"
  then have ft: "fits (pg_size s) (length k) False (emptied_key i ?n)" using fit by blast
  obtain n' fl where r: "BranchNode_UpdateKey pid i k s = Inr (True, set_node pid n' s)" "wf_node (pg_size s) n'"
    "node_type n' = node_type ?n" "last_modified_txid n' = last_modified_txid ?n"
    "separators n' = (separators ?n)[i := (leaf_slot False fl (length k) 0, k)]" "children n' = children ?n"
    by (rule BranchNode_UpdateKey_result[OF c(6,3) i assms(3) ft])
  have "sep_key (leaf_slot False fl (length k) 0, k) = k" by (simp add: sep_key_def leaf_slot_def)
  then have ks: "ks[i := k] = map sep_key (separators n')" unfolding r(5) f(4) map_update by simp
  have no: "\<forall>c \<in> set (separators n'). \<not> is_overflow_pages (fst c)"
    using f(3) unfolding r(5) by (auto simp: leaf_slot_def dest!: set_update_subset_insert[THEN subsetD])
  have "branch_page (set_node pid n' s) pid x (ks[i := k]) cs" by (rule branch_pageI[OF b(2) r(2)]) (use r(3,4,6) f(1,2,5) ks no in auto)
  then show "\<exists>s'. BranchNode_UpdateKey pid i k s = Inr (True, s') \<and> touches {pid} s s' \<and> branch_page s' pid x (ks[i := k]) cs" using r(1,4) by auto
qed

lemma branch_update_same_child:
  assumes "branch_page s pid x ks cs" "i < length ks" "length k \<le> (pg_size s - 34) div 2"
  shows "branch_cost (ks[i := k]) \<le> pg_size s - 18 \<Longrightarrow>
      \<exists>s'. BranchNode_Update pid i k (cs ! i) False s = Inr (True, s') \<and> touches {pid} s s' \<and> branch_page s' pid x (ks[i := k]) cs"
    "\<not> branch_cost (ks[i := k]) \<le> pg_size s - 18 \<Longrightarrow> BranchNode_Update pid i k (cs ! i) False s = Inr (False, s)"
proof -
  have "branch_node (pg_size s) (nodes s pid) x ks cs" using assms(1) by (simp add: branch_page_def)
  then have i: "i < node_count (nodes s pid)" using assms(2) branch_node_counts(1) by metis
  show "\<not> branch_cost (ks[i := k]) \<le> pg_size s - 18 \<Longrightarrow> BranchNode_Update pid i k (cs ! i) False s = Inr (False, s)"
    using branch_update_key(2)[OF assms] i by (simp add: BranchNode_Update_def)
  assume "branch_cost (ks[i := k]) \<le> pg_size s - 18"
  then obtain s1 where s1: "BranchNode_UpdateKey pid i k s = Inr (True, s1)" "touches {pid} s s1" "branch_page s1 pid x (ks[i := k]) cs"
    using branch_update_key(1)[OF assms] by blast
  obtain s2 where s2: "on_node pid (SetLeftChild i (cs ! i)) s1 = Inr s2" "touches {pid} s1 s2" "branch_page s2 pid x (ks[i := k]) (cs[i := cs ! i])"
    by (rule branch_set_child[OF s1(3), of i "cs ! i"]) (use assms(2) in auto)
  have "branch_node (pg_size s1) (nodes s1 pid) x (ks[i := k]) cs" using s1(3) by (simp add: branch_page_def)
  then have "node_count (nodes s1 pid) = length ks" using branch_node_counts(1) by fastforce
  then have "BranchNode_Update pid i k (cs ! i) False s = Inr (True, s2)"
    using s1(1) s2(1) i assms(2) by (simp add: BranchNode_Update_def on_node_def SetLeftChild_def)
  moreover have "touches {pid} s s2" by (rule touches_mono[OF touches_join[OF s1(2) s2(2)]]) simp
  ultimately show "\<exists>s'. BranchNode_Update pid i k (cs ! i) False s = Inr (True, s') \<and> touches {pid} s s' \<and> branch_page s' pid x (ks[i := k]) cs"
    using s2(3) by auto
qed

text \<open>The sibling belongs to the transaction afterwards.\<close>

lemma own_sibling_page:
  fixes s :: "('w, 'a) tx_db_scheme"
  assumes "branch_page s parent z ks cs" "j \<le> length ks" "j = (if left then slot else slot + 1)" "cs ! j = sib" "sib \<noteq> parent" "sib < kPageMaxCount"
    "tx_pages L (Suc n) s" "sib \<in> L" "parent \<in> L"
  obtains q s' x where "own_sibling parent slot sib left s = Inr (q, s')" "branch_page s' parent z ks (cs[j := q])" "tx_pages (insert q (L - {sib})) n s'"
    "paged s s'" "stock s' \<subseteq> stock s" "\<not> needed s' q" "nodes s' q = (nodes s sib)\<lparr>last_modified_txid := x\<rparr>"
    "q = sib \<and> \<not> needed s sib \<or> q \<in> stock s" "q < kPageMaxCount" "\<forall>p. p \<noteq> q \<longrightarrow> p \<noteq> parent \<longrightarrow> nodes s' p = nodes s p" "q \<noteq> parent"
proof -
  have cn: "CopyNeeded (last_modified_txid (nodes s sib)) s = Inr (needed s sib)" using CopyNeeded_returns[of s sib] assms(7) by (simp add: tx_pages_def)
  have rf: "Reference sib s = Inr sib" using Reference_ok[OF assms(6)] .
  show thesis
  proof (cases "needed s sib")
    case False
    have "own_sibling parent slot sib left s = Inr (sib, s)" using False cn rf by (simp add: own_sibling_def)
    moreover have "nodes s sib = (nodes s sib)\<lparr>last_modified_txid := last_modified_txid (nodes s sib)\<rparr>" by simp
    moreover have "cs[j := sib] = cs" "insert sib (L - {sib}) = L" using assms(4,8) by auto
    moreover have "tx_pages L n s" using assms(7) by (simp add: tx_pages_def)
    ultimately show thesis using that[of sib s "last_modified_txid (nodes s sib)"] False assms(1,5,6) by auto
  next
    case True
    obtain q s1 x where c: "Node_Copy sib s = Inr (q, s1)" "q \<in> stock s" "tx_pages (insert q (L - {sib})) n s1"
      "stock s1 \<subseteq> stock s" "paged s s1" "nodes s1 = (nodes s)(q := (nodes s sib)\<lparr>last_modified_txid := x\<rparr>)"
      "q < kPageMaxCount" "\<not> needed s1 q" by (rule Node_Copy_tx[OF assms(7,8)])
    have "page_inv L s" using assms(7) by (simp add: tx_pages_def)
    then have qL: "q \<notin> L" using c(2) stock_owned by blast
    then have qp: "q \<noteq> parent" using assms(9) by blast
    have p1: "branch_page s1 parent z ks cs" using assms(1) branch_page_cong[of s1 parent s] c(6) qp paged_fields(1)[OF c(5)] by simp
    obtain s2 where s2: "on_node parent (SetLeftChild j q) s1 = Inr s2" "touches {parent} s1 s2" "branch_page s2 parent z ks (cs[j := q])"
      by (rule branch_set_child[OF p1 assms(2)])
    note t = touches_fields[OF s2(2)]
    have n2: "nodes s2 q = (nodes s sib)\<lparr>last_modified_txid := x\<rparr>" using t(3)[of q] qp c(6) by simp
    have "\<not> needed s2 q" using needed_cong[OF t(4), of q] t(3)[of q] qp c(8) by simp
    moreover have "own_sibling parent slot sib left s = Inr (q, s2)" using True cn rf c(1) s2(1) assms(3) by (simp add: own_sibling_def)
    moreover have "tx_pages (insert q (L - {sib})) n s2" "paged s s2" "stock s2 = stock s1" using c(3) t(5,6) paged_trans[OF c(5) t(4)] by simp_all
    moreover have "nodes s2 p = nodes s p" if "p \<noteq> q" "p \<noteq> parent" for p using that t(3)[of p] c(6) by simp
    ultimately show thesis using that[of q s2 x] s2(3) c(2,4,7) n2 qp by auto
  qed
qed

end
