(* ===== verification/Atomkv_Siblings.thy ===== *)
theory Atomkv_Siblings
  imports Atomkv_Rebalance
begin

text \<open>
  Two neighbouring subtrees below one parent page, one of them with too little in its page: one entry or one subtree moves to
  it from the other, or both become one subtree. Both are again subtrees in key order with all leaves at the same depth.
\<close>

section \<open>Nodes that may be too small\<close>

text \<open>
  The page of a subtree with the entries \<open>es\<close>, of the running transaction, perhaps an empty leaf or a branch with one subtree. \<open>cost\<close>
  is what its records and slots take.
\<close>

definition thin :: "('w, 'a) tx_db_scheme \<Rightarrow> nat \<Rightarrow> nat \<Rightarrow> PageId \<Rightarrow> PageId set \<Rightarrow> entry list \<Rightarrow> nat \<Rightarrow> nat \<Rightarrow> bool" where
  "thin s f h pid P es cost cnt \<longleftrightarrow> \<not> needed s pid \<and>
     (h = 0 \<and> (\<exists>x. leaf_page s pid x es) \<and> sorted_wrt (<) (map fst es) \<and> (\<forall>e \<in> set es. small_entry f (pg_size s) e) \<and> P = {pid} \<and>
        cost = leaf_cost es \<and> cnt = length es \<or>
      (\<exists>h' ks us cs Qs. h = Suc h' \<and> branch_over s f h' pid ks us cs Qs \<and> P = insert pid (\<Union> (set Qs)) \<and> es = concat (map entries us) \<and>
        cost = branch_cost ks \<and> cnt = length ks))"

lemma thin_leaf:
  "thin s f 0 pid P es cost cnt \<longleftrightarrow> \<not> needed s pid \<and> (\<exists>x. leaf_page s pid x es) \<and> sorted_wrt (<) (map fst es) \<and>
     (\<forall>e \<in> set es. small_entry f (pg_size s) e) \<and> P = {pid} \<and> cost = leaf_cost es \<and> cnt = length es"
  by (auto simp: thin_def)

lemma thin_branch:
  "thin s f (Suc h) pid P es cost cnt \<longleftrightarrow> \<not> needed s pid \<and> (\<exists>ks us cs Qs. branch_over s f h pid ks us cs Qs \<and> P = insert pid (\<Union> (set Qs)) \<and>
     es = concat (map entries us) \<and> cost = branch_cost ks \<and> cnt = length ks)"
  by (auto simp: thin_def)

lemma branch_over_frame:
  assumes "branch_over s f h pid ks us cs Qs" "\<forall>q \<in> insert pid (\<Union> (set Qs)). nodes s' q = nodes s q" "paged s s'"
  shows "branch_over s' f h pid ks us cs Qs"
  using assms branch_page_cong[of s' pid s] forest_frame[of s f h us cs Qs s'] paged_fields(1)[OF assms(3)] by (auto simp: branch_over_def)

lemma thin_frame:
  assumes "thin s f h pid P es cost cnt" "\<forall>q \<in> P. nodes s' q = nodes s q" "paged s s'"
  shows "thin s' f h pid P es cost cnt"
proof (cases h)
  case 0
  then show ?thesis using assms leaf_page_cong[of s' pid s] needed_cong[OF assms(3), of pid] paged_fields(1)[OF assms(3)] by (auto simp: thin_leaf)
next
  case (Suc h')
  then obtain ks us cs Qs where b: "\<not> needed s pid" "branch_over s f h' pid ks us cs Qs" "P = insert pid (\<Union> (set Qs))" "es = concat (map entries us)"
    "cost = branch_cost ks" "cnt = length ks" using assms(1) by (auto simp: thin_branch)
  then have "branch_over s' f h' pid ks us cs Qs" "\<not> needed s' pid"
    using branch_over_frame[OF b(2) _ assms(3)] assms(2) needed_cong[OF assms(3), of pid] by auto
  then show ?thesis using b(3-6) Suc by (auto simp: thin_branch)
qed

lemma thin_full:
  assumes "thin s f h pid P es cost cnt" "0 < cnt"
  obtains t where "sub s f h t pid P" "entries t = es" "full_leaves t"
proof (cases h)
  case 0
  then obtain x where x: "leaf_page s pid x es" "sorted_wrt (<) (map fst es)" "\<forall>e \<in> set es. small_entry f (pg_size s) e" "P = {pid}" "cnt = length es"
    using assms(1) by (auto simp: thin_leaf)
  then show thesis using that[of "BLeaf es"] sub_leaf[OF x(1-3)] assms(2) 0 by auto
next
  case (Suc h')
  then obtain ks us cs Qs where b: "\<not> needed s pid" "branch_over s f h' pid ks us cs Qs" "P = insert pid (\<Union> (set Qs))" "es = concat (map entries us)" "cnt = length ks"
    using assms(1) by (auto simp: thin_branch)
  then have "ks \<noteq> []" using assms(2) by auto
  moreover have "length us = Suc (length ks)" using b(2) adj_length by (auto simp: branch_over_def)
  ultimately show thesis using that[of "mk_node ks us"] sub_mk_node[OF b(2) _ b(1)] mk_node_parts(4)[of us ks] b(3,4) Suc by simp
qed

lemma thin_fill:
  assumes "thin s f h pid P es cost cnt"
  shows "fill_rate pid s = Inr (cost, pg_size s - 18)" "node_count (nodes s pid) = cnt" "pid \<in> P" "pid < kPageMaxCount" "page_ok (pg_size s)" "cost \<le> pg_size s - 18"
proof -
  have "fill_rate pid s = Inr (cost, pg_size s - 18) \<and> node_count (nodes s pid) = cnt \<and> pid \<in> P \<and> pid < kPageMaxCount \<and> page_ok (pg_size s) \<and> cost \<le> pg_size s - 18"
  proof (cases h)
    case 0
    then obtain x where "leaf_page s pid x es" "P = {pid}" "cost = leaf_cost es" "cnt = length es" using assms by (auto simp: thin_leaf)
    then show ?thesis using fill_rate_leaf leaf_count leaf_page_wf leaf_page_room by (metis insertI1)
  next
    case (Suc h')
    then obtain ks us cs Qs where b: "branch_over s f h' pid ks us cs Qs" "P = insert pid (\<Union> (set Qs))" "cost = branch_cost ks" "cnt = length ks"
      using assms by (auto simp: thin_branch)
    then obtain x where x: "branch_page s pid x ks cs" by (auto simp: branch_over_def)
    then have n: "branch_node (pg_size s) (nodes s pid) x ks cs" "pid < kPageMaxCount" by (simp_all add: branch_page_def)
    show ?thesis using branch_page_reads(2,3)[OF x] branch_node_counts(1,5)[OF n(1)] n(2) b(2-4) by simp
  qed
  then show "fill_rate pid s = Inr (cost, pg_size s - 18)" "node_count (nodes s pid) = cnt" "pid \<in> P" "pid < kPageMaxCount" "page_ok (pg_size s)" "cost \<le> pg_size s - 18" by blast+
qed

text \<open>The page of a subtree, copied if it belonged to an earlier version.\<close>

lemma sub_copied:
  assumes "sub s f h t pid P" "full_leaves t" "nodes s' q = (nodes s pid)\<lparr>last_modified_txid := x\<rparr>" "\<forall>p \<in> P - {pid}. nodes s' p = nodes s p" "paged s s'"
    "q < kPageMaxCount" "\<not> needed s' q" "q \<notin> P - {pid}"
  shows "\<exists>cost cnt. thin s' f h q (insert q (P - {pid})) (entries t) cost cnt \<and> 0 < cnt"
proof -
  have ps: "pg_size s' = pg_size s" using paged_fields(1)[OF assms(5)] .
  have il: "inline_node s pid" using assms(1) by (cases t) (auto simp: sub_def owns.simps)
  note cv = copied_views[OF assms(3) ps assms(6) il]
  show ?thesis
  proof (cases t)
    case (BLeaf es)
    obtain y where y: "leaf_page s pid y es" "sorted_wrt (<) (map fst es)" "\<forall>e \<in> set es. small_entry f (pg_size s) e" "P = {pid}" "h = 0"
      by (rule sub_leafE[OF assms(1)[unfolded BLeaf]])
    have "leaf_page s' q x es" using y(1) cv(1,2) assms(3) by (simp add: leaf_page_def)
    then have "thin s' f h q (insert q (P - {pid})) es (leaf_cost es) (length es)" using y(2-5) ps assms(7) by (auto simp: thin_leaf)
    then show ?thesis using BLeaf assms(2) by auto
  next
    case (BNode ts t')
    obtain h' us cs Qs where o: "h = Suc h'" "BNode ts t' = mk_node (map snd ts) us" "branch_over s f h' pid (map snd ts) us cs Qs" "ts \<noteq> []"
      "P = insert pid (\<Union> (set Qs))" by (rule sub_branchE[OF assms(1)[unfolded BNode]]) blast
    obtain y where b: "branch_page s pid y (map snd ts) cs" "forest s f h' us cs Qs" "adj (map snd ts) us" "pid \<notin> \<Union> (set Qs)"
      "\<forall>k \<in> set (map snd ts). short_key k \<and> key_bound f (pg_size s) k" using o(3) by (auto simp: branch_over_def)
    have rm: "P - {pid} = \<Union> (set Qs)" using o(5) b(4) by auto
    have "branch_node (pg_size s) (nodes s pid) y (map snd ts) cs" using b(1) by (simp add: branch_page_def)
    then have "cs = children (nodes s pid)" unfolding branch_node_def by blast
    moreover have "branch_view s pid (map snd ts)" using branch_page_reads(4)[OF b(1)] o(4) by simp
    moreover have "children (nodes s' q) = children (nodes s pid)" using assms(3) by (simp add: children_def cells_def cell_at_def raw_def raw_size_def IsLeaf_def)
    ultimately have "branch_page s' q x (map snd ts) cs" using branch_view_page[OF cv(3) cv(1)] assms(3) by simp
    moreover have "forest s' f h' us cs Qs" by (rule forest_frame[OF b(2) _ assms(5)]) (use assms(4) rm in auto)
    ultimately have "branch_over s' f h' q (map snd ts) us cs Qs" using b(3,5) ps assms(8) rm by (auto simp: branch_over_def)
    moreover have "entries t = concat (map entries us)" unfolding BNode o(2) using mk_node_parts(4) adj_length[OF b(3)] by simp
    ultimately have "thin s' f h q (insert q (P - {pid})) (entries t) (branch_cost (map snd ts)) (length (map snd ts))"
      unfolding o(1) thin_branch rm using assms(7) by (intro conjI exI[of _ "map snd ts"] exI[of _ us] exI[of _ cs] exI[of _ Qs]) auto
    moreover have "0 < length (map snd ts)" using o(4) by simp
    ultimately show ?thesis by blast
  qed
qed


section \<open>Two neighbours\<close>

text \<open>
  Two neighbouring subtrees under a parent page with the separator \<open>k\<close> at slot \<open>i\<close> between them.
\<close>

definition neighbours where
  "neighbours s f h parent z ks cs i l Pl esl cl nl r Pr esr cr nr \<longleftrightarrow>
     branch_page s parent z ks cs \<and> i < length ks \<and> cs ! i = l \<and> cs ! Suc i = r \<and> thin s f h l Pl esl cl nl \<and> thin s f h r Pr esr cr nr \<and>
     Pl \<inter> Pr = {} \<and> parent \<notin> Pl \<union> Pr \<and> (\<forall>e \<in> set esl. fst e < ks ! i) \<and> (\<forall>e \<in> set esr. ks ! i \<le> fst e) \<and>
     ks ! i \<noteq> [] \<and> short_key (ks ! i) \<and> key_bound f (pg_size s) (ks ! i)"

definition borrowed where
  "borrowed r s s' f h k' parent z ks cs l Pl r' Pr es \<longleftrightarrow> r = Inr (k', s') \<and> touches {l, r', parent} s s' \<and> branch_page s' parent z ks cs \<and>
     (\<exists>tl tr Pl' Pr'. sub s' f h tl l Pl' \<and> sub s' f h tr r' Pr' \<and> full_leaves tl \<and> full_leaves tr \<and> Pl' \<inter> Pr' = {} \<and> Pl' \<union> Pr' = Pl \<union> Pr \<and>
       entries tl @ entries tr = es \<and> (\<forall>e \<in> set (entries tl). fst e < k') \<and> (\<forall>e \<in> set (entries tr). k' \<le> fst e)) \<and>
     k' \<noteq> [] \<and> short_key k' \<and> key_bound f (pg_size s') k'"

lemma borrow_leaf_pair:
  assumes nb: "neighbours s f 0 parent z ks cs i l Pl esl cl nl r Pr esr cr nr"
  shows "2 \<le> nl \<Longrightarrow> 5 * cr < 2 * (pg_size s - 18) \<Longrightarrow> \<exists>k' s'. borrowed (borrow_leaf r l True s) s s' f 0 k' parent z ks cs l Pl r Pr (esl @ esr)"
    "2 \<le> nr \<Longrightarrow> 5 * cl < 2 * (pg_size s - 18) \<Longrightarrow> \<exists>k' s'. borrowed (borrow_leaf l r False s) s s' f 0 k' parent z ks cs l Pl r Pr (esl @ esr)"
proof -
  let ?ps = "pg_size s" and ?k = "ks ! i"
  have "parent \<notin> Pl" "parent \<notin> Pr" "Pl = {l}" "Pr = {r}" "Pl \<inter> Pr = {}" using nb by (auto simp: neighbours_def thin_leaf)
  then have ne: "l \<noteq> r" "parent \<noteq> l" "parent \<noteq> r" by auto
  obtain x y where xy: "leaf_page s l x esl" "leaf_page s r y esr" using nb by (auto simp: neighbours_def thin_leaf)
  have n: "branch_page s parent z ks cs" "leaf_page s l x esl" "sorted_wrt (<) (map fst esl)" "\<forall>e \<in> set esl. small_entry f ?ps e" "Pl = {l}" "cl = leaf_cost esl" "nl = length esl"
    "leaf_page s r y esr" "sorted_wrt (<) (map fst esr)" "\<forall>e \<in> set esr. small_entry f ?ps e" "Pr = {r}" "cr = leaf_cost esr" "nr = length esr"
    "l \<noteq> r" "parent \<noteq> l" "parent \<noteq> r" "\<forall>e \<in> set esl. fst e < ?k" "\<forall>e \<in> set esr. ?k \<le> fst e" "?k \<noteq> []"
    using nb xy ne by (simp_all add: neighbours_def thin_leaf)
  have finish: "\<exists>k' s'. borrowed rs s s' f 0 k' parent z ks cs l Pl r Pr (esl @ esr)"
    if b: "rs = Inr (fst (hd bs), s')" "touches {l, r} s s'" "leaf_page s' l x as" "leaf_page s' r y bs" "as @ bs = esl @ esr" "as \<noteq> []" "bs \<noteq> []" for as bs s' rs
  proof -
    have ps: "pg_size s' = ?ps" using touches_fields(1)[OF b(2)] .
    have "sorted_wrt (<) (map fst (esl @ esr))" using n(3,9,17,18) by (fastforce simp: sorted_wrt_append)
    then have srt: "sorted_wrt (<) (map fst as)" "sorted_wrt (<) (map fst bs)" "\<forall>e \<in> set as. \<forall>e' \<in> set bs. fst e < fst e'"
      unfolding b(5)[symmetric] by (auto simp: sorted_wrt_append)
    have "set as \<union> set bs = set esl \<union> set esr" using arg_cong[OF b(5), of set] by simp
    then have sm: "\<forall>e \<in> set as. small_entry f (pg_size s') e" "\<forall>e \<in> set bs. small_entry f (pg_size s') e" using n(4,10) ps by auto
    have sb: "sub s' f 0 (BLeaf as) l {l}" "sub s' f 0 (BLeaf bs) r {r}" using sub_leaf[OF b(3) srt(1) sm(1)] sub_leaf[OF b(4) srt(2) sm(2)] .
    have hd: "hd bs \<in> set bs" "\<forall>e \<in> set bs. fst (hd bs) \<le> fst e" using b(7) srt(2) by (cases bs; auto)+
    have lt: "\<forall>e \<in> set as. fst e < fst (hd bs)" using srt(3) hd(1) by blast
    then have "fst (hd bs) \<noteq> []" using b(6) by (cases as) auto
    moreover have "short_key (fst (hd bs))" "key_bound f (pg_size s') (fst (hd bs))" using sm(2) hd(1) by (auto simp: small_entry_def)
    moreover have "branch_page s' parent z ks cs" using n(1,15,16) branch_page_touches[OF b(2), of parent] by simp
    moreover have "touches {l, r, parent} s s'" by (rule touches_mono[OF b(2)]) auto
    moreover have "\<exists>tl tr Pl' Pr'. sub s' f 0 tl l Pl' \<and> sub s' f 0 tr r Pr' \<and> full_leaves tl \<and> full_leaves tr \<and> Pl' \<inter> Pr' = {} \<and> Pl' \<union> Pr' = Pl \<union> Pr \<and>
       entries tl @ entries tr = esl @ esr \<and> (\<forall>e \<in> set (entries tl). fst e < fst (hd bs)) \<and> (\<forall>e \<in> set (entries tr). fst (hd bs) \<le> fst e)"
      using sb b(5-7) lt hd(2) n(5,11,14)
      by (intro exI[of _ "BLeaf as"] exI[of _ "BLeaf bs"] exI[of _ "{l}"] exI[of _ "{r}"]) simp
    ultimately show ?thesis unfolding borrowed_def using b(1) by blast
  qed
  show "2 \<le> nl \<Longrightarrow> 5 * cr < 2 * (?ps - 18) \<Longrightarrow> \<exists>k' s'. borrowed (borrow_leaf r l True s) s s' f 0 k' parent z ks cs l Pl r Pr (esl @ esr)"
  proof -
    assume a: "2 \<le> nl" "5 * cr < 2 * (?ps - 18)"
    have ne: "esl \<noteq> []" "butlast esl \<noteq> []" "last esl \<in> set esl" "fst (hd esl) < fst (last esl)"
      using a(1) n(3,7) by (cases esl; cases "tl esl"; auto)+
    have sm: "small_entry f ?ps (last esl)" using n(4) ne(3) by blast
    have "fit_entry ?ps (last esl)" using small_entry_fit[OF sm] ne(4) by (cases "fst (last esl)") auto
    moreover have "leaf_cost esr + entry_cost (last esl) \<le> ?ps - 18" using sm a(2) n(12) by (simp add: small_entry_def)
    ultimately obtain s' where b: "borrow_leaf r l True s = Inr (fst (last esl), s')" "touches {l, r} s s'" "leaf_page s' l x (butlast esl)"
      "leaf_page s' r y (last esl # esr)" using borrow_leaf_left[OF n(2,8,14) ne(1)] by blast
    then show ?thesis using finish[of "borrow_leaf r l True s" "last esl # esr" s' "butlast esl"] ne(1,2) by simp
  qed
  show "2 \<le> nr \<Longrightarrow> 5 * cl < 2 * (?ps - 18) \<Longrightarrow> \<exists>k' s'. borrowed (borrow_leaf l r False s) s s' f 0 k' parent z ks cs l Pl r Pr (esl @ esr)"
  proof -
    assume a: "2 \<le> nr" "5 * cl < 2 * (?ps - 18)"
    have ne: "esr \<noteq> []" "tl esr \<noteq> []" "hd esr \<in> set esr" using a(1) n(13) by (cases esr; cases "tl esr"; auto)+
    have sm: "small_entry f ?ps (hd esr)" using n(10) ne(3) by blast
    have "?k \<le> fst (hd esr)" using n(18) ne(3) by blast
    then have "fst (hd esr) \<noteq> []" using n(19) by (cases ?k) auto
    then have "fit_entry ?ps (hd esr)" using small_entry_fit[OF sm] by simp
    moreover have "leaf_cost esl + entry_cost (hd esr) \<le> ?ps - 18" using sm a(2) n(6) by (simp add: small_entry_def)
    ultimately obtain s' where b: "borrow_leaf l r False s = Inr (fst (hd (tl esr)), s')" "touches {r, l} s s'" "leaf_page s' l x (esl @ [hd esr])"
      "leaf_page s' r y (tl esr)" using borrow_leaf_right[OF n(2,8)] n(14) a(1) n(13) by metis
    have "touches {l, r} s s'" by (rule touches_mono[OF b(2)]) auto
    then show ?thesis using finish[of "borrow_leaf l r False s" "tl esr" s' "esl @ [hd esr]"] b(1,3,4) ne(1,2) by simp
  qed
qed

lemma branch_needed:
  "branch_page s pid x ks cs \<Longrightarrow> branch_page s' pid x ks' cs' \<Longrightarrow> paged s s' \<Longrightarrow> needed s' pid = needed s pid"
  using paged_CopyNeeded[of s s'] by (simp add: needed_def branch_page_def branch_node_def)

lemma adj_join:
  assumes "adj ks us" "adj ls vs" "\<forall>e \<in> set (entries (last us)). fst e < k" "\<forall>e \<in> set (entries (hd vs)). k \<le> fst e"
  shows "adj (ks @ k # ls) (us @ vs)"
proof -
  have l: "length us = Suc (length ks)" "length vs = Suc (length ls)" using adj_length assms(1,2) by blast+
  obtain us' u where u: "us = us' @ [u]" "length us' = length ks" using l(1) by (cases us rule: rev_cases) auto
  obtain v vs' where v: "vs = v # vs'" using l(2) by (cases vs) auto
  show ?thesis using adj_append[OF u(2), of "k # ls" u vs] assms u v by simp
qed

text \<open>Two neighbouring branches as one.\<close>

lemma neighbour_branches:
  assumes "neighbours s f (Suc h) parent z ks cs i l Pl esl cl nl r Pr esr cr nr"
  obtains x y kl ul csl Ql kr ur csr Qr where "branch_page s l x kl csl" "branch_page s r y kr csr" "forest s f h (ul @ ur) (csl @ csr) (Ql @ Qr)"
    "adj (kl @ ks ! i # kr) (ul @ ur)" "\<forall>k \<in> set (kl @ ks ! i # kr). short_key k \<and> key_bound f (pg_size s) k" "Pl = insert l (\<Union> (set Ql))"
    "Pr = insert r (\<Union> (set Qr))" "length csl = Suc (length kl)" "length csr = Suc (length kr)" "esl = concat (map entries ul)" "esr = concat (map entries ur)"
    "cl = branch_cost kl" "nl = length kl" "cr = branch_cost kr" "nr = length kr" "distinct [l, r, parent]" "l \<notin> \<Union> (set (Ql @ Qr))" "r \<notin> \<Union> (set (Ql @ Qr))"
    "\<not> needed s l" "\<not> needed s r" "length ul = Suc (length kl)"
proof -
  note nb = assms[unfolded neighbours_def thin_branch]
  obtain kl ul csl Ql where l: "branch_over s f h l kl ul csl Ql" "Pl = insert l (\<Union> (set Ql))" "esl = concat (map entries ul)" "cl = branch_cost kl" "nl = length kl"
    using nb by blast
  obtain kr ur csr Qr where r: "branch_over s f h r kr ur csr Qr" "Pr = insert r (\<Union> (set Qr))" "esr = concat (map entries ur)" "cr = branch_cost kr" "nr = length kr"
    using nb by blast
  have o: "Pl \<inter> Pr = {}" "parent \<notin> Pl \<union> Pr" "\<not> needed s l" "\<not> needed s r" "\<forall>e \<in> set esl. fst e < ks ! i" "\<forall>e \<in> set esr. ks ! i \<le> fst e"
    "short_key (ks ! i)" "key_bound f (pg_size s) (ks ! i)" using nb by blast+
  obtain x y where l1: "branch_page s l x kl csl" "forest s f h ul csl Ql" "adj kl ul" "l \<notin> \<Union> (set Ql)" "\<forall>k \<in> set kl. short_key k \<and> key_bound f (pg_size s) k"
    and r1: "branch_page s r y kr csr" "forest s f h ur csr Qr" "adj kr ur" "r \<notin> \<Union> (set Qr)" "\<forall>k \<in> set kr. short_key k \<and> key_bound f (pg_size s) k"
    using l(1) r(1) unfolding branch_over_def by blast
  have ln: "length ul = Suc (length kl)" "length csl = length ul" "length Ql = length ul" "length ur = Suc (length kr)" "length csr = length ur"
    using adj_length l1(3) r1(3) forest_length[OF l1(2)] forest_length[OF r1(2)] by auto
  have "\<Union> (set Ql) \<inter> \<Union> (set Qr) = {}" using o(1) l(2) r(2) by auto
  then have "forest s f h (ul @ ur) (csl @ csr) (Ql @ Qr)" using forest_append[OF ln(2,3), of s f h ur csr Qr] l1(2) r1(2) by blast
  moreover have "ul \<noteq> []" "ur \<noteq> []" using ln by auto
  then have "last ul \<in> set ul" "hd ur \<in> set ur" by simp_all
  then have "adj (kl @ ks ! i # kr) (ul @ ur)" using adj_join[OF l1(3) r1(3), of "ks ! i"] o(5,6) l(3) r(3) by simp
  moreover have "distinct [l, r, parent]" "l \<notin> \<Union> (set (Ql @ Qr))" "r \<notin> \<Union> (set (Ql @ Qr))" using o(1,2) l(2) r(2) l1(4) r1(4) by auto
  ultimately show thesis using that[of x kl csl y kr csr ul ur Ql Qr] l1(1,5) r1(1,5) l(2-) r(2-) o ln by auto
qed

text \<open>Cut again at another separator.\<close>

lemma cut_branches:
  assumes "forest s f h us cs Qs" "adj ks us" "\<forall>k \<in> set ks. short_key k \<and> key_bound f (pg_size s) k" "0 < m" "Suc m < length ks"
    "touches {l, r, parent} s s'" "branch_page s' l x (take m ks) (take (Suc m) cs)" "branch_page s' r y (drop (Suc m) ks) (drop (Suc m) cs)"
    "\<not> needed s' l" "\<not> needed s' r" "{l, r, parent} \<inter> \<Union> (set Qs) = {}" "l \<noteq> r"
  obtains tl tr Pl' Pr' where "sub s' f (Suc h) tl l Pl'" "sub s' f (Suc h) tr r Pr'" "full_leaves tl" "full_leaves tr" "Pl' \<inter> Pr' = {}"
    "Pl' \<union> Pr' = {l, r} \<union> \<Union> (set Qs)" "entries tl @ entries tr = concat (map entries us)" "\<forall>e \<in> set (entries tl). fst e < ks ! m"
    "\<forall>e \<in> set (entries tr). ks ! m \<le> fst e" "ks ! m \<noteq> []" "short_key (ks ! m)" "key_bound f (pg_size s') (ks ! m)"
proof -
  let ?tl = "mk_node (take m ks) (take (Suc m) us)" and ?tr = "mk_node (drop (Suc m) ks) (drop (Suc m) us)"
  let ?Pl = "insert l (\<Union> (set (take (Suc m) Qs)))" and ?Pr = "insert r (\<Union> (set (drop (Suc m) Qs)))"
  note t = touches_fields[OF assms(6)]
  have f': "forest s' f h us cs Qs" by (rule forest_frame[OF assms(1) _ t(4)]) (use t(3) assms(11) in blast)
  note fc = forest_cut[OF f', of "Suc m"]
  have m: "m < length ks" using assms(5) by simp
  note ac = adj_cut[OF assms(2) m]
  have lu: "length us = Suc (length ks)" using adj_length[OF assms(2)] .
  have kk: "\<forall>k \<in> set (take m ks). short_key k \<and> key_bound f (pg_size s') k" "\<forall>k \<in> set (drop (Suc m) ks). short_key k \<and> key_bound f (pg_size s') k"
    "short_key (ks ! m)" "key_bound f (pg_size s') (ks ! m)" using assms(3) t(1) nth_mem[OF m] by (auto dest: in_set_takeD in_set_dropD)
  have nin: "l \<notin> \<Union> (set (take (Suc m) Qs))" "r \<notin> \<Union> (set (drop (Suc m) Qs))" "l \<notin> \<Union> (set (drop (Suc m) Qs))" "r \<notin> \<Union> (set (take (Suc m) Qs))"
    using assms(11) fc(4) by blast+
  have "branch_over s' f h l (take m ks) (take (Suc m) us) (take (Suc m) cs) (take (Suc m) Qs)"
    "branch_over s' f h r (drop (Suc m) ks) (drop (Suc m) us) (drop (Suc m) cs) (drop (Suc m) Qs)"
    unfolding branch_over_def using assms(7,8) fc(1,2) ac nin(1,2) kk(1,2) by blast+
  moreover have "take m ks \<noteq> []" "drop (Suc m) ks \<noteq> []" using assms(4,5) by auto
  ultimately have sb: "sub s' f (Suc h) ?tl l ?Pl" "full_leaves ?tl" "sub s' f (Suc h) ?tr r ?Pr" "full_leaves ?tr" using sub_mk_node assms(9,10) by blast+
  have en: "entries ?tl = concat (map entries (take (Suc m) us))" "entries ?tr = concat (map entries (drop (Suc m) us))"
    using mk_node_parts(4)[of "take (Suc m) us" "take m ks"] mk_node_parts(4)[of "drop (Suc m) us" "drop (Suc m) ks"] lu m by auto
  have ne: "\<forall>u \<in> set us. entries u \<noteq> []" using forest_full[OF assms(1)] by blast
  have lt: "fst e < ks ! m" if e: "e \<in> set (entries ?tl)" for e
  proof -
    obtain j where "j < Suc m" "e \<in> set (entries (us ! j))" using e lu m unfolding en(1) by (auto simp: in_set_conv_nth[where xs = "take (Suc m) us"])
    then show ?thesis using adj_lower[OF assms(2) ne m, of j e] by simp
  qed
  have ge: "ks ! m \<le> fst e" if e: "e \<in> set (entries ?tr)" for e
  proof -
    obtain j where "j < length us - Suc m" "e \<in> set (entries (us ! (Suc m + j)))" using e unfolding en(2) by (auto simp: in_set_conv_nth[where xs = "drop (Suc m) us"])
    then show ?thesis using adj_upper[OF assms(2) ne, of m "Suc m + j" e] lu by simp
  qed
  have "ks ! m \<noteq> []" using adj_sorted[OF assms(2) ne] nth_mem[OF m] by metis
  moreover have "entries ?tl @ entries ?tr = concat (map entries us)" unfolding en by (metis append_take_drop_id concat_append map_append)
  moreover have "?Pl \<inter> ?Pr = {}" "?Pl \<union> ?Pr = {l, r} \<union> \<Union> (set Qs)" using fc(3,4) nin(3,4) assms(12) by blast+
  ultimately show thesis using that[OF sb(1,3,2,4)] lt ge kk(3,4) by blast
qed

lemma borrow_branch_pair:
  assumes nb: "neighbours s f (Suc h) parent z ks cs i l Pl esl cl nl r Pr esr cr nr"
  shows "2 \<le> nl \<Longrightarrow> 5 * cr < 2 * (pg_size s - 18) \<Longrightarrow> \<exists>k' s'. borrowed (borrow_branch r parent i l True s) s s' f (Suc h) k' parent z ks cs l Pl r Pr (esl @ esr)"
    "2 \<le> nr \<Longrightarrow> 5 * cl < 2 * (pg_size s - 18) \<Longrightarrow> \<exists>k' s'. borrowed (borrow_branch l parent i r False s) s s' f (Suc h) k' parent z ks cs l Pl r Pr (esl @ esr)"
proof -
  let ?k = "ks ! i" and ?R = "pg_size s - 18"
  have p: "branch_page s parent z ks cs" "i < length ks" "cs ! Suc i = r" "?k \<noteq> []" "key_bound f (pg_size s) ?k" "parent \<notin> Pl \<union> Pr" using nb by (auto simp: neighbours_def)
  obtain x y kl ul csl Ql kr ur csr Qr where b: "branch_page s l x kl csl" "branch_page s r y kr csr" "forest s f h (ul @ ur) (csl @ csr) (Ql @ Qr)"
    "adj (kl @ ?k # kr) (ul @ ur)" "\<forall>k \<in> set (kl @ ?k # kr). short_key k \<and> key_bound f (pg_size s) k" "Pl = insert l (\<Union> (set Ql))"
    "Pr = insert r (\<Union> (set Qr))" "length csl = Suc (length kl)" "length csr = Suc (length kr)" "esl = concat (map entries ul)" "esr = concat (map entries ur)"
    "cl = branch_cost kl" "nl = length kl" "cr = branch_cost kr" "nr = length kr" "distinct [l, r, parent]" "l \<notin> \<Union> (set (Ql @ Qr))" "r \<notin> \<Union> (set (Ql @ Qr))"
    "\<not> needed s l" "\<not> needed s r" "length ul = Suc (length kl)"
    by (rule neighbour_branches[OF nb])
  have ok: "page_ok (pg_size s)" using b(1) branch_node_counts(5) by (fastforce simp: branch_page_def)
  have k: "length ?k \<le> (pg_size s - 34) div 2" "4 * (8 + length ?k) \<le> ?R" using small_key_inline[OF ok key_bound_small[OF p(5)]] key_bound_small[OF p(5)] by (simp_all add: small_key_def)
  have dj: "{l, r, parent} \<inter> \<Union> (set (Ql @ Qr)) = {}" using b(6,7,17,18) p(6) by auto
  have lr: "l \<noteq> r" "parent \<noteq> l" "parent \<noteq> r" using b(16) by auto
  have finish: "borrowed rs s s' f (Suc h) ((kl @ ?k # kr) ! m) parent z ks cs l Pl r Pr (esl @ esr)"
    if c: "rs = Inr ((kl @ ?k # kr) ! m, s')" "0 < m" "Suc m < length (kl @ ?k # kr)" "touches {l, r, parent} s s'" "branch_page s' parent z ks cs"
      "branch_page s' l x (take m (kl @ ?k # kr)) (take (Suc m) (csl @ csr))" "branch_page s' r y (drop (Suc m) (kl @ ?k # kr)) (drop (Suc m) (csl @ csr))" for rs m s'
  proof -
    note pg = touches_fields(4)[OF c(4)]
    have nd: "\<not> needed s' l" "\<not> needed s' r" using branch_needed[OF b(1) c(6) pg] branch_needed[OF b(2) c(7) pg] b(19,20) by blast+
    have P: "{l, r} \<union> \<Union> (set (Ql @ Qr)) = Pl \<union> Pr" "concat (map entries (ul @ ur)) = esl @ esr" using b(6,7,10,11) by auto
    show ?thesis
      by (rule cut_branches[OF b(3-5) c(2,3,4,6,7) nd dj lr(1), unfolded P]) (use c(1,4,5) in \<open>unfold borrowed_def, blast\<close>)
  qed
  show "2 \<le> nl \<Longrightarrow> 5 * cr < 2 * ?R \<Longrightarrow> \<exists>k' s'. borrowed (borrow_branch r parent i l True s) s s' f (Suc h) k' parent z ks cs l Pl r Pr (esl @ esr)"
  proof -
    assume a: "2 \<le> nl" "5 * cr < 2 * ?R"
    define m where "m = length kl - 1"
    have ne: "kl \<noteq> []" "csl \<noteq> []" "0 < m" "Suc m = length kl" using a(1) b(8,13) by (auto simp: m_def)
    obtain s' where r: "borrow_branch r parent i l True s = Inr (last kl, s')" "touches {l, r} s s'" "branch_page s' l x (butlast kl) (butlast csl)"
      "branch_page s' r y (?k # kr) (last csl # csr)"
      using borrow_branch_left[OF b(1,2) p(1) lr(1) ne(1) p(2,4) k(1)] k(2) a(2) b(14) by auto
    have "(kl @ ?k # kr) ! m = last kl" "take m (kl @ ?k # kr) = butlast kl" "drop (Suc m) (kl @ ?k # kr) = ?k # kr"
      using ne by (simp_all add: nth_append last_conv_nth m_def butlast_conv_take)
    moreover have "take (Suc m) (csl @ csr) = butlast csl" "drop (Suc m) (csl @ csr) = last csl # csr"
      using ne(2,4) b(8) by (cases csl rule: rev_cases; simp)+
    moreover have "branch_page s' parent z ks cs" using p(1) lr branch_page_touches[OF r(2), of parent] by simp
    moreover have "touches {l, r, parent} s s'" by (rule touches_mono[OF r(2)]) auto
    ultimately show ?thesis using finish[of "borrow_branch r parent i l True s" m s'] r ne(3,4) by auto
  qed
  show "2 \<le> nr \<Longrightarrow> 5 * cl < 2 * ?R \<Longrightarrow> \<exists>k' s'. borrowed (borrow_branch l parent i r False s) s s' f (Suc h) k' parent z ks cs l Pl r Pr (esl @ esr)"
  proof -
    assume a: "2 \<le> nr" "5 * cl < 2 * ?R"
    define m where "m = Suc (length kl)"
    have ne: "kr \<noteq> []" "csr \<noteq> []" "0 < m" "Suc m < length (kl @ ?k # kr)" using a(1) b(9,15) by (auto simp: m_def)
    obtain s' where r: "borrow_branch l parent i r False s = Inr (hd kr, s')" "touches {r, l, parent} s s'" "branch_page s' parent z ks cs"
      "branch_page s' l x (kl @ [?k]) (csl @ [hd csr])" "branch_page s' r y (List.tl kr) (List.tl csr)"
      using borrow_branch_right[OF b(1,2) p(1) _ lr(2,3) ne(1) p(2,3,4) k(1)] k(2) a(2) b(12) lr(1) by auto
    have "(kl @ ?k # kr) ! m = hd kr" "take m (kl @ ?k # kr) = kl @ [?k]" "drop (Suc m) (kl @ ?k # kr) = List.tl kr"
      using ne(1) by (cases kr; simp add: m_def nth_append)+
    moreover have "take (Suc m) (csl @ csr) = csl @ [hd csr]" "drop (Suc m) (csl @ csr) = List.tl csr"
      using ne(2) b(8) by (cases csr; simp add: m_def)+
    moreover have "touches {l, r, parent} s s'" by (rule touches_mono[OF r(2)]) auto
    ultimately show ?thesis using finish[of "borrow_branch l parent i r False s" m s'] r(1,3-5) ne(3,4) by auto
  qed
qed

text \<open>Two neighbours merged into the left one.\<close>

lemma merge_pair:
  fixes s :: "('w, 'a) tx_db_scheme"
  assumes nb: "neighbours s f h parent z ks cs i l Pl esl cl nl r Pr esr cr nr" and tx: "tx_pages L n s" "r \<in> L"
    and room: "cl + cr + (if h = 0 then 0 else 8 + length (ks ! i)) \<le> pg_size s - 18" "0 < nl + nr"
  obtains s' t where "(if h = 0 then Merge_Leaf l r s else Merge_Branch l r (ks ! i) s) = Inr s'" "sub s' f h t l (Pl \<union> Pr - {r})" "full_leaves t" "entries t = esl @ esr"
    "tx_pages (L - {r}) n s'" "paged s s'" "stock s' = stock s" "\<forall>q. q \<noteq> l \<longrightarrow> nodes s' q = nodes s q"
proof -
  let ?k = "ks ! i"
  have p: "?k \<noteq> []" "key_bound f (pg_size s) ?k" "\<forall>e \<in> set esl. fst e < ?k" "\<forall>e \<in> set esr. ?k \<le> fst e" "Pl \<inter> Pr = {}" using nb by (auto simp: neighbours_def)
  show thesis
  proof (cases h)
    case 0
    obtain x y where n: "leaf_page s l x esl" "sorted_wrt (<) (map fst esl)" "\<forall>e \<in> set esl. small_entry f (pg_size s) e" "Pl = {l}" "cl = leaf_cost esl" "nl = length esl"
      "leaf_page s r y esr" "sorted_wrt (<) (map fst esr)" "\<forall>e \<in> set esr. small_entry f (pg_size s) e" "Pr = {r}" "cr = leaf_cost esr" "nr = length esr"
      using nb[unfolded 0 neighbours_def thin_leaf] by blast
    have lr: "l \<noteq> r" using p(5) n(4,10) by auto
    have "\<forall>e \<in> set esr. fit_entry (pg_size s) e"
    proof
      fix e assume "e \<in> set esr"
      then have "small_entry f (pg_size s) e" "?k \<le> fst e" using n(9) p(4) by blast+
      then show "fit_entry (pg_size s) e" using small_entry_fit[of f "pg_size s" e] p(1) by (cases "fst e"; cases ?k) auto
    qed
    then obtain s' where m: "Merge_Leaf l r s = Inr s'" "leaf_page s' l x (esl @ esr)" "tx_pages (L - {r}) n s'" "paged s s'" "stock s' = stock s"
      "\<forall>q. q \<noteq> l \<longrightarrow> nodes s' q = nodes s q"
      using Merge_Leaf_page[OF n(1,7) lr _ _ tx] room(1) n(5,11) 0 by auto
    have "sorted_wrt (<) (map fst (esl @ esr))" using n(2,8) p(3,4) by (fastforce simp: sorted_wrt_append)
    then have "sub s' f 0 (BLeaf (esl @ esr)) l {l}" by (rule sub_leaf[OF m(2)]) (use n(3,9) paged_fields(1)[OF m(4)] in auto)
    moreover have "Pl \<union> Pr - {r} = {l}" "esl @ esr \<noteq> []" using n(4,10) lr room(2) n(6,12) by auto
    ultimately show thesis using that[of s' "BLeaf (esl @ esr)"] m 0 by simp
  next
    case (Suc h')
    obtain x y kl ul csl Ql kr ur csr Qr where b: "branch_page s l x kl csl" "branch_page s r y kr csr" "forest s f h' (ul @ ur) (csl @ csr) (Ql @ Qr)"
      "adj (kl @ ?k # kr) (ul @ ur)" "\<forall>k \<in> set (kl @ ?k # kr). short_key k \<and> key_bound f (pg_size s) k" "Pl = insert l (\<Union> (set Ql))"
      "Pr = insert r (\<Union> (set Qr))" "length csl = Suc (length kl)" "length csr = Suc (length kr)" "esl = concat (map entries ul)" "esr = concat (map entries ur)"
      "cl = branch_cost kl" "nl = length kl" "cr = branch_cost kr" "nr = length kr" "distinct [l, r, parent]" "l \<notin> \<Union> (set (Ql @ Qr))" "r \<notin> \<Union> (set (Ql @ Qr))"
      "\<not> needed s l" "\<not> needed s r" "length ul = Suc (length kl)"
      by (rule neighbour_branches[OF nb[unfolded Suc]])
    have ok: "page_ok (pg_size s)" using b(1) branch_node_counts(5) by (fastforce simp: branch_page_def)
    have ne: "\<forall>u \<in> set (ul @ ur). entries u \<noteq> []" using forest_full[OF b(3)] by blast
    have ks: "\<forall>k \<in> set (?k # kr). k \<noteq> [] \<and> length k \<le> (pg_size s - 34) div 2"
    proof
      fix k assume k: "k \<in> set (?k # kr)"
      then have "k \<noteq> []" "key_bound f (pg_size s) k" using adj_sorted[OF b(4) ne] b(5) by auto
      then show "k \<noteq> [] \<and> length k \<le> (pg_size s - 34) div 2" using small_key_inline[OF ok key_bound_small] by blast
    qed
    have lr: "l \<noteq> r" using b(16) by auto
    have "branch_cost kl + branch_cost (?k # kr) \<le> pg_size s - 18" using room(1) b(12,14) Suc by simp
    then obtain s' where m: "Merge_Branch l r ?k s = Inr s'" "branch_page s' l x (kl @ ?k # kr) (csl @ csr)" "tx_pages (L - {r}) n s'" "paged s s'" "stock s' = stock s"
      "\<forall>q. q \<noteq> l \<longrightarrow> nodes s' q = nodes s q"
      by (rule Merge_Branch_page[OF b(1,2) lr ks _ tx])
    have "forest s' f h' (ul @ ur) (csl @ csr) (Ql @ Qr)" by (rule forest_frame[OF b(3) _ m(4)]) (use m(6) b(17) in auto)
    then have "branch_over s' f h' l (kl @ ?k # kr) (ul @ ur) (csl @ csr) (Ql @ Qr)"
      unfolding branch_over_def using m(2) b(4,5,17) paged_fields(1)[OF m(4)] by auto
    moreover have "\<not> needed s' l" using branch_needed[OF b(1) m(2,4)] b(19) by simp
    ultimately have "sub s' f h (mk_node (kl @ ?k # kr) (ul @ ur)) l (insert l (\<Union> (set (Ql @ Qr))))" "full_leaves (mk_node (kl @ ?k # kr) (ul @ ur))"
      unfolding Suc using sub_mk_node by blast+
    moreover have "insert l (\<Union> (set (Ql @ Qr))) = Pl \<union> Pr - {r}" using b(6,7,18) lr by auto
    moreover have "entries (mk_node (kl @ ?k # kr) (ul @ ur)) = esl @ esr" using mk_node_parts(4)[OF adj_length[OF b(4)]] b(10,11) by simp
    ultimately show thesis using that[of s' "mk_node (kl @ ?k # kr) (ul @ ur)"] m(1,3-6) Suc by simp
  qed
qed

end
