(* ===== verification/Atomkv_Tree_Delete.thy ===== *)
theory Atomkv_Tree_Delete
  imports Atomkv_Siblings
begin

text \<open>
  \<^verbatim>\<open>BTree::Delete\<close> on a whole tree: an underfull page takes from its sibling or is merged with it, and the parent loses or
  changes a separator, up to the root.
\<close>

section \<open>Steps that may give pages back\<close>

text \<open>
  A step of the transaction on the pages \<open>A\<close>: other pages stay in use and keep their contents, and so do those pages
  of \<open>A\<close> that an earlier version still needs.
\<close>

definition alters :: "PageId set \<Rightarrow> PageId set \<Rightarrow> nat \<Rightarrow> ('w, 'a) tx_db_scheme \<Rightarrow> PageId set \<Rightarrow> ('w, 'a) tx_db_scheme \<Rightarrow> bool" where
  "alters A L n s L' s' \<longleftrightarrow> tx_pages L' n s' \<and> paged s s' \<and> L' - L \<subseteq> stock s \<and> stock s' \<subseteq> stock s \<and>
     L - A \<subseteq> L' \<and> (\<forall>q. q \<notin> stock s \<longrightarrow> q \<notin> A \<or> needed s q \<longrightarrow> nodes s' q = nodes s q)"

lemma live_not_free: "tx_pages L n s \<Longrightarrow> q \<in> L \<Longrightarrow> q \<notin> stock s"
  using stock_owned[of L s q] by (auto simp: tx_pages_def)

lemma alters_trans:
  assumes "tx_pages L k s" "alters A L m s L1 s1" "alters B L1 n s1 L2 s2" "B \<subseteq> A \<union> stock s"
  shows "alters A L n s L2 s2"
proof -
  note a = assms(2)[unfolded alters_def] and b = assms(3)[unfolded alters_def]
  have "nodes s2 q = nodes s q" if q: "q \<notin> stock s" "q \<notin> A \<or> needed s q" for q
  proof -
    have e: "nodes s1 q = nodes s q" using a q by blast
    then have "needed s1 q = needed s q" using needed_cong a by blast
    then have "q \<notin> B \<or> needed s1 q" "q \<notin> stock s1" using q assms(4) a by blast+
    then show ?thesis using b e by simp
  qed
  moreover have "L - A \<subseteq> L2"
  proof
    fix q assume "q \<in> L - A"
    then have "q \<in> L1" "q \<notin> B" using a assms(4) live_not_free[OF assms(1)] by blast+
    then show "q \<in> L2" using b by blast
  qed
  moreover have "paged s s2" using paged_trans a b by blast
  moreover have "L2 - L \<subseteq> stock s" "stock s2 \<subseteq> stock s" using a b by blast+
  ultimately show ?thesis using b unfolding alters_def by blast
qed

lemma alters_grows: "grows A L n s L' s' \<Longrightarrow> \<forall>q \<in> A. \<not> needed s q \<Longrightarrow> alters A L n s L' s'"
  unfolding grows_def alters_def by blast

lemma alters_touches: "tx_pages L n s \<Longrightarrow> touches A s s' \<Longrightarrow> \<forall>q \<in> A. \<not> needed s q \<Longrightarrow> alters A L n s L s'"
  using alters_grows[OF grows_touches] .

lemma alters_mono: "alters A L n s L' s' \<Longrightarrow> A \<subseteq> B \<Longrightarrow> m \<le> n \<Longrightarrow> alters B L m s L' s'"
  unfolding alters_def tx_pages_def by (auto dest: order_trans)

lemma alters_fields:
  assumes "alters A L n s L' s'"
  shows "pg_size s' = pg_size s" "paged s s'" "tx_pages L' n s'" "tx_pages L k s \<Longrightarrow> q \<in> L \<Longrightarrow> q \<notin> A \<Longrightarrow> nodes s' q = nodes s q \<and> q \<in> L'"
  using assms paged_fields(1)[of s s'] live_not_free[of L k s q] unfolding alters_def by blast+


section \<open>The rest of a deletion\<close>

text \<open>
  What \<^verbatim>\<open>BTree::Delete\<close> does with an underfull node, for leaves (\<open>h = 0\<close>) and branches, and what it does at the root.
\<close>

definition settle_pair ::
    "nat \<Rightarrow> BTreeIterator \<Rightarrow> PageId \<Rightarrow> nat \<Rightarrow> PageId \<Rightarrow> PageId \<Rightarrow> bool \<Rightarrow> PageId \<Rightarrow> ('w, 'a) tx_db_scheme \<Rightarrow> (PageId \<times> ('w, 'a) tx_db_scheme) res" where
  "settle_pair h it parent slot sibling node left_sibling root s =
     bind_res (fill_rate sibling s) (\<lambda>r.
     if fill_above_50 r \<and> node_count (nodes s sibling) \<ge> 2
     then bind_res (if h = 0 then borrow_leaf node sibling left_sibling s else borrow_branch node parent slot sibling left_sibling s) (\<lambda>(new_key, s3).
          bind_res (if h = 0 then bind_res (GetLeftChild slot (nodes s3 parent)) (\<lambda>c. BranchNode_Update parent slot new_key c False s3)
                    else BranchNode_UpdateKey parent slot new_key s3) (\<lambda>res.
          if left_sibling then reinsert res it parent slot sibling node new_key root
          else reinsert res it parent slot node sibling new_key root))
     else let (l, r) = (if left_sibling then (sibling, node) else (node, sibling)) in
          bind_res (if h = 0 then Merge_Leaf l r s else bind_res (GetKey parent slot s) (\<lambda>down_key. Merge_Branch l r down_key s)) (\<lambda>s3.
          Delete_Branch it parent slot root s3))"

definition settle :: "nat \<Rightarrow> BTreeIterator \<Rightarrow> PageId \<Rightarrow> PageId \<Rightarrow> ('w, 'a) tx_db_scheme \<Rightarrow> (PageId \<times> ('w, 'a) tx_db_scheme) res" where
  "settle h it node root s =
     bind_res (GetSibling it s) (\<lambda>(parent, parent_slot_id, sibling_id, left_sibling, it1).
     let slot = (if left_sibling then parent_slot_id - 1 else parent_slot_id) in
     bind_res (own_sibling parent slot sibling_id left_sibling s) (\<lambda>(sibling, s2).
     settle_pair h it1 parent slot sibling node left_sibling root s2))"

definition collapse :: "nat \<Rightarrow> PageId \<Rightarrow> PageId \<Rightarrow> ('w, 'a) tx_db_scheme \<Rightarrow> (PageId \<times> ('w, 'a) tx_db_scheme) res" where
  "collapse h node root s =
     (if h \<noteq> 0 \<and> node_count (nodes s node) = 0
      then bind_res (assert_res (node = root)) (\<lambda>_. bind_res (Free root 1 s) (\<lambda>s2. Inr (tail_child (nodes s node), s2)))
      else Inr (root, s))"

lemma Delete_Branch_settle:
  "Delete_Branch it node slot root s =
     bind_res (BranchNode_Delete node slot True s) (\<lambda>s1.
     if iter_Empty it then collapse (Suc h) node root s1
     else bind_res (fill_rate node s1) (\<lambda>r. if fill_at_least_40 r then Inr (root, s1) else settle (Suc h) it node root s1))"
  unfolding Delete_Branch.simps[of it] collapse_def settle_def settle_pair_def Let_def
  by (cases "BranchNode_Delete node slot True s") (auto simp: bind_res_def split: sum.splits prod.splits)

text \<open>
  How a deletion leaves the subtree at a page, with the path \<open>xs\<close> above: the subtree is finished, or it was split and the rest is
  \<^verbatim>\<open>Put\<close> in the parent, or its page has too little and the rest is done with its sibling or at the root.
\<close>

definition shrunk where
  "shrunk r root xs s f h pid P es \<longleftrightarrow> (\<exists>cost cnt. thin s f h pid P es cost cnt \<and>
     (if xs = [] then r = collapse h pid root s
      else 5 * cost < 2 * (pg_size s - 18) \<and> (\<exists>it. iter_wf it \<and> trail it = xs \<and> r = settle h it pid root s)))"

definition left_at where
  "left_at r root xs L s f h pid P es \<longleftrightarrow> (\<exists>t. r = Inr (root, s) \<and> sub s f h t pid P \<and> full_leaves t \<and> entries t = es) \<or>
     put_split r root xs L L s f h pid P es \<or> shrunk r root xs s f h pid P es"

definition outcome where
  "outcome r root xs L L' s' f h pid P es \<longleftrightarrow> (\<exists>P'. P' \<subseteq> L' \<and> P' \<subseteq> P \<union> (L' - L) \<and> left_at r root xs L' s' f h pid P' es)"

lemma outcomeI: "left_at r root xs L' s' f h pid P' es \<Longrightarrow> P' \<subseteq> L' \<Longrightarrow> P' \<subseteq> P \<union> (L' - L) \<Longrightarrow> outcome r root xs L L' s' f h pid P es"
  unfolding outcome_def by blast

lemma outcome_mono:
  assumes "outcome r root xs L1 L' s' f h pid P1 es" "P1 \<subseteq> P \<union> (L1 - L)" "L - P \<subseteq> L1"
  shows "outcome r root xs L L' s' f h pid P es"
proof -
  have "P' \<subseteq> P \<union> (L' - L)" if "P' \<subseteq> L'" "P' \<subseteq> P1 \<union> (L' - L1)" for P' using that assms(2,3) by blast
  then show ?thesis using assms(1) unfolding outcome_def by blast
qed

lemma outcome_put:
  assumes "put_done r root L L' s' f h pid P es \<or> put_split r root xs L L' s' f h pid P es" "P \<subseteq> L" "L \<subseteq> L'" "es \<noteq> []"
  shows "outcome r root xs L L' s' f h pid P es"
  using assms(1)
proof
  assume "put_done r root L L' s' f h pid P es"
  then obtain t P' where t: "r = Inr (root, s')" "sub s' f h t pid P'" "P' \<subseteq> P \<union> (L' - L)" "entries t = es" by (auto simp: put_done_def)
  have "full_leaves t" using t(2,4) assms(4) by (auto simp: sub_def)
  moreover have "P' \<subseteq> L'" using t(3) assms(2,3) by blast
  ultimately show ?thesis using t by (intro outcomeI[of _ _ _ _ _ _ _ _ P']) (auto simp: left_at_def)
next
  assume "put_split r root xs L L' s' f h pid P es"
  then have "put_split r root xs L' L' s' f h pid (P \<union> (L' - L)) es" unfolding put_split_def by simp
  moreover have "P \<union> (L' - L) \<subseteq> L'" using assms(2,3) by blast
  ultimately show ?thesis by (intro outcomeI[of _ _ _ _ _ _ _ _ "P \<union> (L' - L)"]) (auto simp: left_at_def)
qed

lemma drop_separator:
  fixes s :: "('w, 'a) tx_db_scheme"
  assumes page: "branch_page s pid z ks cs" "\<not> needed s pid" "j < length ks"
    and fo: "forest s f h us (erase_at (Suc j) cs) Qs" "adj (erase_at j ks) us" "pid \<notin> \<Union> (set Qs)"
    and keys: "\<forall>k \<in> set ks. short_key k \<and> key_bound f (pg_size s) k"
    and tx: "insert pid (\<Union> (set Qs)) \<subseteq> L" "tx_pages L n s" and it: "iter_wf it" "trail it = xs"
  shows "\<exists>s'. alters {pid} L n s L s' \<and>
    outcome (Delete_Branch it pid j root s) root xs L L s' f (Suc h) pid (insert pid (\<Union> (set Qs))) (concat (map entries us))"
proof -
  let ?ks = "erase_at j ks" and ?cs = "erase_at (Suc j) cs" and ?P = "insert pid (\<Union> (set Qs))"
  obtain s' where d: "BranchNode_Delete pid j True s = Inr s'" "touches {pid} s s'" "branch_page s' pid z ?ks ?cs"
    using branch_delete[OF page(1,3), of True] by auto
  note t = touches_fields[OF d(2)]
  have al: "alters {pid} L n s L s'" by (rule alters_touches[OF tx(2) d(2)]) (use page(2) in simp)
  have "\<forall>q. q \<noteq> pid \<longrightarrow> nodes s' q = nodes s q" using t(3) by simp
  then have "forest s' f h us ?cs Qs" by (intro forest_frame[OF fo(1) _ t(4)]) (use fo(3) in metis)
  moreover have "set ?ks \<subseteq> set ks" by (auto simp: erase_at_def dest: in_set_takeD in_set_dropD)
  ultimately have bo: "branch_over s' f h pid ?ks us ?cs Qs" unfolding branch_over_def using d(3) fo(2,3) keys t(1) by auto
  have nd: "\<not> needed s' pid" using branch_needed[OF page(1) d(3) t(4)] page(2) by simp
  have th: "thin s' f (Suc h) pid ?P (concat (map entries us)) (branch_cost ?ks) (length ?ks)" unfolding thin_branch using bo nd by blast
  have eq: "Delete_Branch it pid j root s = (if iter_Empty it then collapse (Suc h) pid root s'
     else bind_res (fill_rate pid s') (\<lambda>r. if fill_at_least_40 r then Inr (root, s') else settle (Suc h) it pid root s'))"
    unfolding Delete_Branch_settle[where h = h] d(1) by simp
  have "outcome (Delete_Branch it pid j root s) root xs L L s' f (Suc h) pid ?P (concat (map entries us))"
  proof (cases "xs = []")
    case True
    then have "shrunk (Delete_Branch it pid j root s) root xs s' f (Suc h) pid ?P (concat (map entries us))"
      unfolding shrunk_def using th eq iter_Empty_trail[OF it(1)] it(2) by auto
    then show ?thesis using tx(1) by (intro outcomeI[of _ _ _ _ _ _ _ _ ?P]) (auto simp: left_at_def)
  next
    case xs: False
    then have e: "Delete_Branch it pid j root s = (if 2 * (pg_size s' - 18) \<le> 5 * branch_cost ?ks then Inr (root, s') else settle (Suc h) it pid root s')"
      using eq iter_Empty_trail[OF it(1)] it(2) thin_fill(1)[OF th] by (simp add: fill_at_least_40_def)
    show ?thesis
    proof (cases "2 * (pg_size s' - 18) \<le> 5 * branch_cost ?ks")
      case True
      have "page_ok (pg_size s')" using thin_fill(5)[OF th] .
      then have c: "0 < length ?ks" using True by (auto simp: page_ok_def)
      obtain t' where "sub s' f (Suc h) t' pid ?P" "entries t' = concat (map entries us)" "full_leaves t'" by (rule thin_full[OF th c])
      then show ?thesis using e True tx(1) by (intro outcomeI[of _ _ _ _ _ _ _ _ ?P]) (auto simp: left_at_def)
    next
      case False
      then have "shrunk (Delete_Branch it pid j root s) root xs s' f (Suc h) pid ?P (concat (map entries us))"
        unfolding shrunk_def using th e xs it by auto
      then show ?thesis using tx(1) by (intro outcomeI[of _ _ _ _ _ _ _ _ ?P]) (auto simp: left_at_def)
    qed
  qed
  then show ?thesis using al by blast
qed


section \<open>A parent with one or two subtrees taken out\<close>

text \<open>
  The page of a parent with the separators \<open>ks1 @ mk @ ks2\<close>. The subtrees at the pages \<open>mc\<close> are left open; they hold the
  entries \<open>me\<close>.
\<close>

definition hole where
  "hole s f h pid z ks1 mk ks2 us1 us2 cs1 mc cs2 Qs1 Qs2 me \<longleftrightarrow> branch_page s pid z (ks1 @ mk @ ks2) (cs1 @ mc @ cs2) \<and> \<not> needed s pid \<and>
     length us1 = length ks1 \<and> length cs1 = length ks1 \<and> length Qs1 = length ks1 \<and> forest s f h us1 cs1 Qs1 \<and> forest s f h us2 cs2 Qs2 \<and>
     \<Union> (set Qs1) \<inter> \<Union> (set Qs2) = {} \<and> pid \<notin> \<Union> (set Qs1) \<union> \<Union> (set Qs2) \<and> adj (ks1 @ mk @ ks2) (us1 @ map BLeaf me @ us2) \<and>
     (\<forall>k \<in> set (ks1 @ mk @ ks2). short_key k \<and> key_bound f (pg_size s) k) \<and> sorted_wrt (<) (ks1 @ mk @ ks2) \<and> [] \<notin> set (ks1 @ mk @ ks2)"

lemma adj_entries: "map entries us = map entries vs \<Longrightarrow> adj ks us \<longleftrightarrow> adj ks vs"
proof (induction ks arbitrary: us vs)
  case Nil
  then show ?case by (cases us; cases "List.tl us"; cases vs; cases "List.tl vs") auto
next
  case (Cons k ks)
  show ?case
  proof (cases "2 \<le> length us")
    case True
    moreover have "length vs = length us" using Cons.prems by (metis length_map)
    ultimately obtain u u' us' v v' vs' where "us = u # u' # us'" "vs = v # v' # vs'" by (cases us; cases "List.tl us"; cases vs; cases "List.tl vs") auto
    then show ?thesis using Cons.IH[of "u' # us'" "v' # vs'"] Cons.prems by simp
  next
    case False
    then show ?thesis using Cons.prems by (cases us; cases "List.tl us"; cases vs; cases "List.tl vs") auto
  qed
qed

lemma hole_forest:
  assumes "hole s f h pid z ks1 mk ks2 us1 us2 cs1 mc cs2 Qs1 Qs2 me" "forest s f h ts md Rs" "\<Union> (set Rs) \<inter> insert pid (\<Union> (set Qs1) \<union> \<Union> (set Qs2)) = {}"
  shows "forest s f h (us1 @ ts @ us2) (cs1 @ md @ cs2) (Qs1 @ Rs @ Qs2)" "pid \<notin> \<Union> (set (Qs1 @ Rs @ Qs2))"
proof -
  note a = assms(1)[unfolded hole_def]
  have l: "length cs1 = length us1" "length Qs1 = length us1" "length md = length ts" "length Rs = length ts" using a forest_length[OF assms(2)] by auto
  show "forest s f h (us1 @ ts @ us2) (cs1 @ md @ cs2) (Qs1 @ Rs @ Qs2)" "pid \<notin> \<Union> (set (Qs1 @ Rs @ Qs2))"
    using forest_append[OF l(1,2), of s f h "ts @ us2" "md @ cs2" "Rs @ Qs2"] forest_append[OF l(3,4), of s f h us2 cs2 Qs2] a assms(2,3) by auto
qed

lemma hole_fill:
  assumes "hole s f h pid z ks1 mk ks2 us1 us2 cs1 mc cs2 Qs1 Qs2 me" "forest s f h ts mc Rs" "map entries ts = me"
    "\<Union> (set Rs) \<inter> insert pid (\<Union> (set Qs1) \<union> \<Union> (set Qs2)) = {}"
  shows "branch_over s f h pid (ks1 @ mk @ ks2) (us1 @ ts @ us2) (cs1 @ mc @ cs2) (Qs1 @ Rs @ Qs2)"
proof -
  note a = assms(1)[unfolded hole_def]
  have "map entries (map BLeaf me) = map entries ts" using assms(3) by (simp add: o_def)
  then have "adj (ks1 @ mk @ ks2) (us1 @ ts @ us2)" using a adj_entries[of "us1 @ ts @ us2" "us1 @ map BLeaf me @ us2"] by simp
  then show ?thesis unfolding branch_over_def using a hole_forest[OF assms(1,2,4)] by blast
qed

lemma hole_kids:
  assumes "hole s f h pid z ks1 mk ks2 us1 us2 cs1 mc cs2 Qs1 Qs2 me" "branch_page s' pid z (ks1 @ mk @ ks2) (cs1 @ mc' @ cs2)"
    "\<forall>q \<in> \<Union> (set Qs1) \<union> \<Union> (set Qs2). nodes s' q = nodes s q" "paged s s'"
  shows "hole s' f h pid z ks1 mk ks2 us1 us2 cs1 mc' cs2 Qs1 Qs2 me"
proof -
  note a = assms(1)[unfolded hole_def]
  have "forest s' f h us1 cs1 Qs1" "forest s' f h us2 cs2 Qs2" using forest_frame[OF _ _ assms(4)] a assms(3) by blast+
  moreover have "\<not> needed s' pid" using branch_needed[OF _ assms(2,4)] a by blast
  moreover have "pg_size s' = pg_size s" using paged_fields(1)[OF assms(4)] .
  ultimately show ?thesis unfolding hole_def using a assms(2) by simp
qed

lemma adj_ends:
  "adj ks (us @ [u]) \<Longrightarrow> ks \<noteq> [] \<Longrightarrow> e \<in> set (entries u) \<Longrightarrow> last ks \<le> fst e"
  "adj ks (u # us) \<Longrightarrow> ks \<noteq> [] \<Longrightarrow> e \<in> set (entries u) \<Longrightarrow> fst e < hd ks"
proof -
  show "fst e < hd ks" if "adj ks (u # us)" "ks \<noteq> []" "e \<in> set (entries u)" using that by (cases ks; cases us) auto
  assume a: "adj ks (us @ [u])" "ks \<noteq> []" "e \<in> set (entries u)"
  obtain ks' x where x: "ks = ks' @ [x]" using a(2) by (cases ks rule: rev_cases) auto
  obtain us' w where w: "us = us' @ [w]" "length us' = length ks'" using x adj_length[OF a(1)] by (cases us rule: rev_cases) auto
  have "adj [x] (w # [u])" using a(1) adj_append[OF w(2), of "[x]" w "[u]"] x w(1) by auto
  then show "last ks \<le> fst e" using a(3) x by simp
qed

lemma adj_pair:
  assumes "adj (ks1 @ k # ks2) (us1 @ u # v # us2)" "length us1 = length ks1" "sorted_wrt (<) (ks1 @ k # ks2)"
  shows "entries t1 @ entries t2 = entries u @ entries v \<Longrightarrow> \<forall>e \<in> set (entries t1). fst e < k' \<Longrightarrow> \<forall>e \<in> set (entries t2). k' \<le> fst e \<Longrightarrow>
      adj (ks1 @ k' # ks2) (us1 @ t1 # t2 # us2)"
    "entries t = entries u @ entries v \<Longrightarrow> adj (ks1 @ ks2) (us1 @ t # us2)"
proof -
  have a: "adj ks1 (us1 @ [u])" "\<forall>e \<in> set (entries u). fst e < k" "\<forall>e \<in> set (entries v). k \<le> fst e" "adj ks2 (v # us2)"
    using assms(1) adj_append[OF assms(2), of "k # ks2" u "v # us2"] by auto
  have lo: "last ks1 \<le> fst e" if e: "e \<in> set (entries u) \<union> set (entries v)" "ks1 \<noteq> []" for e
  proof -
    have "last ks1 \<in> set ks1" using e(2) by simp
    then have "last ks1 < k" using assms(3) by (auto simp: sorted_wrt_append)
    then show ?thesis using adj_ends(1)[OF a(1) e(2), of e] e(1) a(3) by auto
  qed
  have hi: "fst e < hd ks2" if e: "e \<in> set (entries u) \<union> set (entries v)" "ks2 \<noteq> []" for e
  proof -
    have "hd ks2 \<in> set ks2" using e(2) by simp
    then have "k < hd ks2" using assms(3) by (auto simp: sorted_wrt_append)
    then show ?thesis using adj_ends(2)[OF a(4) e(2), of e] e(1) a(2) by auto
  qed
  show "adj (ks1 @ k' # ks2) (us1 @ t1 # t2 # us2)"
    if t: "entries t1 @ entries t2 = entries u @ entries v" "\<forall>e \<in> set (entries t1). fst e < k'" "\<forall>e \<in> set (entries t2). k' \<le> fst e"
  proof -
    have s: "set (entries t1) \<union> set (entries t2) = set (entries u) \<union> set (entries v)" using arg_cong[OF t(1), of set] by simp
    have "adj ks1 (us1 @ [t1])" by (rule adj_last[OF a(1)]) (use lo s in blast)
    moreover have "adj ks2 (t2 # us2)" by (rule adj_first[OF a(4)]) (use hi s in blast)
    ultimately show ?thesis using adj_append[OF assms(2), of "k' # ks2" t1 "t2 # us2"] t(2,3) by simp
  qed
  show "adj (ks1 @ ks2) (us1 @ t # us2)" if t: "entries t = entries u @ entries v"
  proof -
    have "adj ks1 (us1 @ [t])" by (rule adj_last[OF a(1)]) (use lo t in simp)
    moreover have "adj ks2 (t # us2)" by (rule adj_first[OF a(4)]) (use hi t in simp)
    ultimately show ?thesis using adj_append[OF assms(2), of ks2 t us2] by simp
  qed
qed

text \<open>The parent gets a new separator, in place when there is room.\<close>

definition rekey :: "nat \<Rightarrow> PageId \<Rightarrow> nat \<Rightarrow> key \<Rightarrow> 'a pager_db_scheme \<Rightarrow> (bool \<times> 'a pager_db_scheme) res" where
  "rekey h parent slot k s = (if h = 0 then bind_res (GetLeftChild slot (nodes s parent)) (\<lambda>c. BranchNode_Update parent slot k c False s)
     else BranchNode_UpdateKey parent slot k s)"

lemma rekey_page:
  assumes "branch_page s pid z ks cs" "i < length ks" "length k \<le> (pg_size s - 34) div 2"
  shows "branch_cost (ks[i := k]) \<le> pg_size s - 18 \<Longrightarrow> \<exists>s'. rekey h pid i k s = Inr (True, s') \<and> touches {pid} s s' \<and> branch_page s' pid z (ks[i := k]) cs"
    "\<not> branch_cost (ks[i := k]) \<le> pg_size s - 18 \<Longrightarrow> rekey h pid i k s = Inr (False, s)"
proof -
  have "branch_node (pg_size s) (nodes s pid) z ks cs" using assms(1) by (simp add: branch_page_def)
  then have g: "GetLeftChild i (nodes s pid) = Inr (cs ! i)" using branch_node_counts(8) assms(2) less_imp_le by blast
  show "branch_cost (ks[i := k]) \<le> pg_size s - 18 \<Longrightarrow> \<exists>s'. rekey h pid i k s = Inr (True, s') \<and> touches {pid} s s' \<and> branch_page s' pid z (ks[i := k]) cs"
    "\<not> branch_cost (ks[i := k]) \<le> pg_size s - 18 \<Longrightarrow> rekey h pid i k s = Inr (False, s)"
    using branch_update_same_child[OF assms] branch_update_key[OF assms] g by (auto simp: rekey_def)
qed

lemma pair_borrowed:
  fixes s :: "('w, 'a) tx_db_scheme"
  assumes ho: "hole s f h pid z ks1 [k] ks2 us1 us2 cs1 [l, r] cs2 Qs1 Qs2 [esl, esr]"
    and sb: "(Pl \<union> Pr) \<inter> insert pid (\<Union> (set Qs1) \<union> \<Union> (set Qs2)) = {}" "\<not> needed s l" "\<not> needed s r" "l \<in> Pl" "r \<in> Pr"
    and bw: "borrowed rs s s1 f h k' pid z (ks1 @ [k] @ ks2) (cs1 @ [l, r] @ cs2) l Pl r Pr (esl @ esr)"
    and tx: "insert pid (\<Union> (set Qs1) \<union> \<Union> (set Qs2) \<union> Pl \<union> Pr) \<subseteq> L" "tx_pages L (Suc n) s" and it: "iter_wf it" "trail it = xs" "length xs < 32"
  shows "\<exists>L' s'. alters (insert pid (Pl \<union> Pr)) L n s L' s' \<and>
    outcome (bind_res (rekey h pid (length ks1) k' s1) (\<lambda>res. reinsert res it pid (length ks1) l r k' root)) root xs L L' s' f (Suc h) pid
      (insert pid (\<Union> (set Qs1) \<union> \<Union> (set Qs2) \<union> Pl \<union> Pr)) (concat (map entries us1) @ esl @ esr @ concat (map entries us2))"
proof -
  let ?j = "length ks1" and ?cs = "cs1 @ [l, r] @ cs2" and ?A = "insert pid (Pl \<union> Pr)"
  let ?P = "insert pid (\<Union> (set Qs1) \<union> \<Union> (set Qs2) \<union> Pl \<union> Pr)" and ?es = "concat (map entries us1) @ esl @ esr @ concat (map entries us2)"
  note H = ho[unfolded hole_def]
  obtain t1 t2 Pl' Pr' where b: "touches {l, r, pid} s s1" "branch_page s1 pid z (ks1 @ [k] @ ks2) ?cs" "sub s1 f h t1 l Pl'" "sub s1 f h t2 r Pr'" "full_leaves t1" "full_leaves t2"
    "Pl' \<inter> Pr' = {}" "Pl' \<union> Pr' = Pl \<union> Pr" "entries t1 @ entries t2 = esl @ esr" "\<forall>e \<in> set (entries t1). fst e < k'" "\<forall>e \<in> set (entries t2). k' \<le> fst e"
    "k' \<noteq> []" "short_key k'" "key_bound f (pg_size s1) k'" using bw unfolding borrowed_def by blast
  note t = touches_fields[OF b(1)]
  have "\<forall>q \<in> \<Union> (set Qs1) \<union> \<Union> (set Qs2). nodes s1 q = nodes s q"
  proof
    fix q assume "q \<in> \<Union> (set Qs1) \<union> \<Union> (set Qs2)"
    then have "q \<noteq> l" "q \<noteq> r" "q \<noteq> pid" using sb(1,4,5) H by blast+
    then show "nodes s1 q = nodes s q" using t(3)[of q] by simp
  qed
  then have h1: "hole s1 f h pid z ks1 [k] ks2 us1 us2 cs1 [l, r] cs2 Qs1 Qs2 [esl, esr]" by (rule hole_kids[OF ho b(2) _ t(4)])
  note H1 = h1[unfolded hole_def]
  let ?us = "us1 @ [t1, t2] @ us2" and ?Qs = "Qs1 @ [Pl', Pr'] @ Qs2" and ?ks = "ks1 @ k' # ks2"
  have f1: "forest s1 f h ?us ?cs ?Qs" "pid \<notin> \<Union> (set ?Qs)" by (rule hole_forest[OF h1, of "[t1, t2]" "[l, r]" "[Pl', Pr']"]; use b(3-8) sb(1) in simp)+
  have PQ: "insert pid (\<Union> (set ?Qs)) = ?P" using b(8) by auto
  have ad: "adj ?ks ?us" using adj_pair(1)[of ks1 k ks2 us1 "BLeaf esl" "BLeaf esr" us2 t1 t2 k'] H b(9-11) by simp
  have kk: "\<forall>k \<in> set ?ks. short_key k \<and> key_bound f (pg_size s1) k" using H1 b(13,14) by auto
  have en: "concat (map entries ?us) = ?es" using b(9) by simp
  have al: "alters ?A L (Suc n) s L s1"
    by (rule alters_mono[OF alters_touches[OF tx(2) b(1)]]) (use sb(2-5) H in auto)
  have nd1: "\<not> needed s1 pid" using H1 by blast
  have tx1: "tx_pages L (Suc n) s1" using tx(2) t(5) by simp
  have ok: "page_ok (pg_size s1)" using b(2) branch_node_counts(5) by (fastforce simp: branch_page_def)
  have kl: "length k' \<le> (pg_size s1 - 34) div 2" by (rule small_key_inline[OF ok key_bound_small[OF b(14)]])
  have up: "(ks1 @ [k] @ ks2)[?j := k'] = ?ks" by (simp add: list_update_append)
  note rk = rekey_page[OF b(2) _ kl, of ?j h, unfolded up]
  have join: "alters ?A L n s L' s'" if "alters {pid} L (Suc n) s1 L s2" "alters {pid} L n s2 L' s'" for L' s' s2
    by (rule alters_trans[OF tx(2) alters_trans[OF tx(2) al that(1)] that(2)]) auto
  show ?thesis
  proof (cases "branch_cost ?ks \<le> pg_size s1 - 18")
    case True
    then obtain s2 where u: "rekey h pid ?j k' s1 = Inr (True, s2)" "touches {pid} s1 s2" "branch_page s2 pid z ?ks ?cs" using rk(1) by auto
    note t2 = touches_fields[OF u(2)]
    have "\<forall>q. q \<noteq> pid \<longrightarrow> nodes s2 q = nodes s1 q" using t2(3) by simp
    then have "forest s2 f h ?us ?cs ?Qs" by (intro forest_frame[OF f1(1) _ t2(4)]) (use f1(2) in metis)
    then have "branch_over s2 f h pid ?ks ?us ?cs ?Qs" unfolding branch_over_def using u(3) ad f1(2) kk t2(1) by auto
    moreover have nd: "\<not> needed s2 pid" using branch_needed[OF b(2) u(3) t2(4)] nd1 by simp
    ultimately have "sub s2 f (Suc h) (mk_node ?ks ?us) pid ?P" "full_leaves (mk_node ?ks ?us)" using sub_mk_node[of s2 f h pid ?ks ?us ?cs ?Qs] unfolding PQ by auto
    moreover have "entries (mk_node ?ks ?us) = ?es" using mk_node_parts(4)[OF adj_length[OF ad]] en by simp
    moreover have "bind_res (rekey h pid ?j k' s1) (\<lambda>res. reinsert res it pid ?j l r k' root) = Inr (root, s2)" using u(1) by (simp add: reinsert_def)
    ultimately have "left_at (bind_res (rekey h pid ?j k' s1) (\<lambda>res. reinsert res it pid ?j l r k' root)) root xs L s2 f (Suc h) pid ?P ?es"
      unfolding left_at_def by blast
    then have "outcome (bind_res (rekey h pid ?j k' s1) (\<lambda>res. reinsert res it pid ?j l r k' root)) root xs L L s2 f (Suc h) pid ?P ?es"
      by (rule outcomeI) (use tx(1) in auto)
    moreover have "alters {pid} L (Suc n) s1 L s2" "alters {pid} L n s2 L s2"
      using alters_touches[OF tx1 u(2)] nd1 alters_touches[of L n s2 "{pid}" s2] nd tx1 t2(5) tx_pages_mono[of L "Suc n" s2 n] by auto
    ultimately show ?thesis using join by blast
  next
    case False
    have j: "?j < length (ks1 @ [k] @ ks2)" by simp
    obtain s2 where d: "BranchNode_Delete pid ?j True s1 = Inr s2" "touches {pid} s1 s2" "branch_page s2 pid z (erase_at ?j (ks1 @ [k] @ ks2)) (erase_at (Suc ?j) ?cs)"
      using branch_delete[OF b(2) j, of True] by auto
    have er: "erase_at ?j (ks1 @ [k] @ ks2) = ks1 @ ks2" "erase_at (Suc ?j) ?cs = cs1 @ l # cs2" using H by (simp_all add: erase_at_def)
    note d3 = d(3)[unfolded er]
    note t2 = touches_fields[OF d(2)]
    have ic: "insert_at (Suc ?j) r (cs1 @ l # cs2) = ?cs" "insert_at ?j k' (ks1 @ ks2) = ?ks" using H by (simp_all add: insert_at_def)
    have "\<forall>q. q \<noteq> pid \<longrightarrow> nodes s2 q = nodes s1 q" using t2(3) by simp
    then have f2: "forest s2 f h ?us ?cs ?Qs" by (intro forest_frame[OF f1(1) _ t2(4)]) (use f1(2) in metis)
    have nd: "\<not> needed s2 pid" using branch_needed[OF b(2) d3 t2(4)] nd1 by simp
    obtain it1 where p: "Push (pid, ?j) it = Inr it1" "iter_wf it1" "trail it1 = xs @ [(pid, ?j)]" using Push_trail[OF it(1)] it(2,3) by metis
    have eq: "bind_res (rekey h pid ?j k' s1) (\<lambda>res. reinsert res it pid ?j l r k' root) = Put_Branch it1 l r k' root s2"
      using rk(2) False d(1) p(1) by (simp add: reinsert_def)
    have tx2: "tx_pages L (Suc n) s2" using tx1 t2(5) by simp
    obtain L' s' where g: "grows {pid} L n s2 L' s'" "put_done (Put_Branch it1 l r k' root s2) root L L' s' f (Suc h) pid ?P ?es \<or>
        put_split (Put_Branch it1 l r k' root s2) root xs L L' s' f (Suc h) pid ?P ?es"
      using put_branch[OF d3 nd, of ?j f h ?us r ?Qs k' L n it1 xs l root] f2 ad f1(2) kk tx(1) tx2 p(2,3) t2(1) unfolding ic PQ en by auto
    have "t1 \<in> set ?us" by simp
    then have "entries t1 \<noteq> []" using forest_full[OF f1(1)] by blast
    then have "?es \<noteq> []" using b(9) by auto
    then have "outcome (Put_Branch it1 l r k' root s2) root xs L L' s' f (Suc h) pid ?P ?es" by (intro outcome_put[OF g(2) tx(1)]) (use grows_fields(5)[OF g(1)] in auto)
    moreover have "alters {pid} L n s2 L' s'" "alters {pid} L (Suc n) s1 L s2" using alters_grows[OF g(1)] alters_touches[OF tx1 d(2)] nd nd1 by auto
    ultimately show ?thesis unfolding eq using join by blast
  qed
qed

lemma pair_merged:
  fixes s :: "('w, 'a) tx_db_scheme"
  assumes ho: "hole s f h pid z ks1 [k] ks2 us1 us2 cs1 [l, r] cs2 Qs1 Qs2 [esl, esr]"
    and sb: "(Pl \<union> Pr) \<inter> insert pid (\<Union> (set Qs1) \<union> \<Union> (set Qs2)) = {}" "\<not> needed s l" "l \<in> Pl" "r \<in> Pr" "Pl \<inter> Pr = {}"
    and mg: "sub s1 f h t l (Pl \<union> Pr - {r})" "full_leaves t" "entries t = esl @ esr" "tx_pages (L - {r}) n s1" "paged s s1" "stock s1 = stock s"
      "\<forall>q. q \<noteq> l \<longrightarrow> nodes s1 q = nodes s q"
    and tx: "insert pid (\<Union> (set Qs1) \<union> \<Union> (set Qs2) \<union> Pl \<union> Pr) \<subseteq> L" "tx_pages L n s" and it: "iter_wf it" "trail it = xs"
  shows "\<exists>L' s'. alters (insert pid (Pl \<union> Pr)) L n s L' s' \<and>
    outcome (Delete_Branch it pid (length ks1) root s1) root xs L L' s' f (Suc h) pid
      (insert pid (\<Union> (set Qs1) \<union> \<Union> (set Qs2) \<union> Pl \<union> Pr)) (concat (map entries us1) @ esl @ esr @ concat (map entries us2))"
proof -
  let ?j = "length ks1" and ?cs = "cs1 @ [l, r] @ cs2" and ?ks = "ks1 @ [k] @ ks2" and ?us = "us1 @ [t] @ us2" and ?Qs = "Qs1 @ [Pl \<union> Pr - {r}] @ Qs2"
  let ?P = "insert pid (\<Union> (set Qs1) \<union> \<Union> (set Qs2) \<union> Pl \<union> Pr)" and ?P1 = "insert pid (\<Union> (set ?Qs))"
  note H = ho[unfolded hole_def]
  have ln: "pid \<noteq> l" "l \<notin> \<Union> (set Qs1) \<union> \<Union> (set Qs2)" "r \<notin> insert pid (\<Union> (set Qs1) \<union> \<Union> (set Qs2))" using sb by blast+
  have pg: "branch_page s1 pid z ?ks ?cs" using H branch_page_cong[of s1 pid s] mg(7) ln(1) paged_fields(1)[OF mg(5)] by simp
  have "\<forall>q \<in> \<Union> (set Qs1) \<union> \<Union> (set Qs2). nodes s1 q = nodes s q" using mg(7) ln(2) by metis
  then have h1: "hole s1 f h pid z ks1 [k] ks2 us1 us2 cs1 [l, r] cs2 Qs1 Qs2 [esl, esr]" by (rule hole_kids[OF ho pg _ mg(5)])
  note H1 = h1[unfolded hole_def]
  have er: "erase_at ?j ?ks = ks1 @ ks2" "erase_at (Suc ?j) ?cs = cs1 @ [l] @ cs2" using H by (simp_all add: erase_at_def)
  have "forest s1 f h ?us (cs1 @ [l] @ cs2) ?Qs"
  proof -
    have l: "length cs1 = length us1" "length Qs1 = length us1" using H by auto
    have "\<Union> (set Qs1) \<inter> (Pl \<union> Pr - {r}) = {}" "(Pl \<union> Pr - {r}) \<inter> \<Union> (set Qs2) = {}" using sb(1) by blast+
    then show ?thesis using forest_append[OF l, of s1 f h "t # us2" "l # cs2" "(Pl \<union> Pr - {r}) # Qs2"] H1 mg(1,2) by auto
  qed
  moreover have "pid \<notin> \<Union> (set ?Qs)" using H sb(1) by auto
  moreover have "adj (ks1 @ ks2) ?us" using adj_pair(2)[of ks1 k ks2 us1 "BLeaf esl" "BLeaf esr" us2 t] H mg(3) by simp
  moreover have P1: "?P1 \<subseteq> L - {r}" "?P1 \<subseteq> ?P" using tx(1) ln(3) by auto
  moreover have "\<not> needed s1 pid" "\<forall>k \<in> set ?ks. short_key k \<and> key_bound f (pg_size s1) k" using H1 by blast+
  ultimately obtain s' where d: "alters {pid} (L - {r}) n s1 (L - {r}) s'"
    "outcome (Delete_Branch it pid ?j root s1) root xs (L - {r}) (L - {r}) s' f (Suc h) pid ?P1 (concat (map entries ?us))"
    using drop_separator[OF pg, of ?j f h ?us ?Qs "L - {r}" n it xs root] mg(4) it unfolding er by auto
  have "alters (insert pid (Pl \<union> Pr)) L n s (L - {r}) s1" unfolding alters_def using mg(4-7) sb(2-4) by auto
  then have "alters (insert pid (Pl \<union> Pr)) L n s (L - {r}) s'" by (rule alters_trans[OF tx(2) _ d(1)]) auto
  moreover have "outcome (Delete_Branch it pid ?j root s1) root xs L (L - {r}) s' f (Suc h) pid ?P (concat (map entries ?us))"
    by (rule outcome_mono[OF d(2)]) (use P1(2) sb(4) in auto)
  ultimately show ?thesis using mg(3) by auto
qed

lemma thin_single: "thin s f h pid P es cost cnt \<Longrightarrow> cnt < 2 \<Longrightarrow> 2 * cost \<le> pg_size s - 18"
proof (cases h)
  case 0
  assume "thin s f h pid P es cost cnt" "cnt < 2"
  then have "\<forall>e \<in> set es. small_entry f (pg_size s) e" "cost = leaf_cost es" "length es < 2" using 0 by (auto simp: thin_leaf)
  then show ?thesis by (cases es; cases "List.tl es") (auto simp: small_entry_def)
next
  case (Suc h')
  assume a: "thin s f h pid P es cost cnt" "cnt < 2"
  then obtain ks where "\<forall>k \<in> set ks. key_bound f (pg_size s) k" "cost = branch_cost ks" "length ks < 2" using Suc by (auto simp: thin_branch branch_over_def)
  then show ?thesis using key_bound_small[of f "pg_size s" "hd ks"] by (cases ks; cases "List.tl ks") (auto simp: small_key_def)
qed

lemma settle_pair_outcome:
  fixes s :: "('w, 'a) tx_db_scheme"
  assumes ho: "hole s f h pid z ks1 [k] ks2 us1 us2 cs1 [l, r] cs2 Qs1 Qs2 [esl, esr]"
    and th: "thin s f h l Pl esl cl nl" "thin s f h r Pr esr cr nr" "Pl \<inter> Pr = {}" "(Pl \<union> Pr) \<inter> insert pid (\<Union> (set Qs1) \<union> \<Union> (set Qs2)) = {}"
    and small: "if left then 5 * cr < 2 * (pg_size s - 18) \<and> 0 < nl else 5 * cl < 2 * (pg_size s - 18) \<and> 0 < nr" and f: "10 \<le> f"
    and tx: "insert pid (\<Union> (set Qs1) \<union> \<Union> (set Qs2) \<union> Pl \<union> Pr) \<subseteq> L" "tx_pages L (Suc n) s" and it: "iter_wf it" "trail it = xs" "length xs < 32"
  shows "\<exists>L' s'. alters (insert pid (Pl \<union> Pr)) L n s L' s' \<and>
    outcome (settle_pair h it pid (length ks1) (if left then l else r) (if left then r else l) left root s) root xs L L' s' f (Suc h) pid
      (insert pid (\<Union> (set Qs1) \<union> \<Union> (set Qs2) \<union> Pl \<union> Pr)) (concat (map entries us1) @ esl @ esr @ concat (map entries us2))"
proof -
  let ?j = "length ks1" and ?cs = "cs1 @ [l, r] @ cs2" and ?ks = "ks1 @ [k] @ ks2" and ?R = "pg_size s - 18"
  let ?sib = "if left then l else r" and ?node = "if left then r else l" and ?cost = "if left then cl else cr" and ?cnt = "if left then nl else nr"
  note H = ho[unfolded hole_def]
  have ad: "adj (k # ks2) (BLeaf esl # BLeaf esr # us2)" using H adj_append[of us1 ks1 "k # ks2" "BLeaf esl" "BLeaf esr # us2"] by auto
  have kj: "?ks ! ?j = k" "?cs ! ?j = l" "?cs ! Suc ?j = r" "?j < length ?ks" using H by (simp_all add: nth_append)
  have lp: "l \<in> Pl" "r \<in> Pr" "\<not> needed s l" "\<not> needed s r" using thin_fill(3) th(1,2) by (auto simp: thin_def)
  have kb: "key_bound f (pg_size s) k" "short_key k" "k \<noteq> []" using H by auto
  have nb: "neighbours s f h pid z ?ks ?cs ?j l Pl esl cl nl r Pr esr cr nr"
    unfolding neighbours_def kj(1-3) using H th kj(4) kb ad by auto
  have fr: "fill_rate ?sib s = Inr (?cost, ?R)" "node_count (nodes s ?sib) = ?cnt" using thin_fill(1,2)[OF th(1)] thin_fill(1,2)[OF th(2)] by (cases left; simp)+
  have gk: "GetKey pid ?j s = Inr k" using branch_page_reads(1)[of s pid z ?ks ?cs ?j] H kj(1,4) by simp
  show ?thesis
  proof (cases "?R < 2 * ?cost \<and> 2 \<le> ?cnt")
    case True
    let ?b = "if h = 0 then borrow_leaf ?node ?sib left s else borrow_branch ?node pid ?j ?sib left s"
    have "\<exists>k' s1. borrowed ?b s s1 f h k' pid z ?ks ?cs l Pl r Pr (esl @ esr)"
    proof (cases h)
      case 0
      then show ?thesis using borrow_leaf_pair[OF nb[unfolded 0]] True small by (cases left) simp_all
    next
      case (Suc h')
      then show ?thesis using borrow_branch_pair[OF nb[unfolded Suc]] True small by (cases left) simp_all
    qed
    then obtain k' s1 where b: "borrowed ?b s s1 f h k' pid z ?ks ?cs l Pl r Pr (esl @ esr)" by blast
    then have "?b = Inr (k', s1)" by (simp add: borrowed_def)
    then have "settle_pair h it pid ?j ?sib ?node left root s = bind_res (rekey h pid ?j k' s1) (\<lambda>res. reinsert res it pid ?j l r k' root)"
      unfolding settle_pair_def rekey_def[symmetric] using True fr by (cases left) (simp_all add: fill_above_50_def rekey_def)
    then show ?thesis using pair_borrowed[OF ho th(4) lp(3,4,1,2) b tx it, of root] by simp
  next
    case False
    have c2: "2 * ?cost \<le> ?R" using False thin_single[OF th(1)] thin_single[OF th(2)] by (cases left; simp; linarith)
    have "10 * (8 + length k) \<le> ?R" using kb(1) mult_le_mono1[OF f, of "8 + length k"] by (auto simp: key_bound_def)
    then have room: "cl + cr + (if h = 0 then 0 else 8 + length (?ks ! ?j)) \<le> ?R" "0 < nl + nr" using c2 small unfolding kj(1) by (cases left; simp)+
    have rL: "r \<in> L" using tx(1) lp(2) by blast
    obtain s1 t where m: "(if h = 0 then Merge_Leaf l r s else Merge_Branch l r (?ks ! ?j) s) = Inr s1" "sub s1 f h t l (Pl \<union> Pr - {r})" "full_leaves t" "entries t = esl @ esr"
      "tx_pages (L - {r}) n s1" "paged s s1" "stock s1 = stock s" "\<forall>q. q \<noteq> l \<longrightarrow> nodes s1 q = nodes s q"
      by (rule merge_pair[OF nb tx_pages_mono[OF tx(2), of n] rL room]) simp
    have "settle_pair h it pid ?j ?sib ?node left root s = Delete_Branch it pid ?j root s1"
      unfolding settle_pair_def using False fr gk m(1) kj(1) by (cases left; cases "h = 0") (auto simp: fill_above_50_def)
    then show ?thesis using pair_merged[OF ho th(4) lp(3,1,2) th(3) m(2-8) tx(1) tx_pages_mono[OF tx(2), of n] it(1,2), of root] by simp
  qed
qed

section \<open>The sibling\<close>

lemma sub_page: "sub s f h t pid P \<Longrightarrow> pid \<in> P \<and> pid < kPageMaxCount"
proof (cases t)
  case (BLeaf es)
  assume "sub s f h t pid P"
  then show ?thesis using BLeaf by (auto elim!: sub_leafE simp: leaf_page_def leaf_view_def)
next
  case (BNode ts u)
  assume "sub s f h t pid P"
  then have "owns s (BNode ts u) pid P" using BNode by (simp add: sub_def)
  then show ?thesis by (rule owns_branchE) (auto simp: branch_view_def)
qed

lemma settle_tail:
  fixes s :: "('w, 'a) tx_db_scheme"
  assumes tx: "tx_pages L k s" "alters A L (Suc n) s L2 s2" and ho: "hole s2 f h pid z ks1 [k'] ks2 us1 us2 cs1 [l, r] cs2 Qs1 Qs2 [esl, esr]"
    and th: "thin s2 f h l Pl esl cl nl" "thin s2 f h r Pr esr cr nr" "Pl \<inter> Pr = {}" "(Pl \<union> Pr) \<inter> insert pid (\<Union> (set Qs1) \<union> \<Union> (set Qs2)) = {}"
    and small: "if left then 5 * cr < 2 * (pg_size s2 - 18) \<and> 0 < nl else 5 * cl < 2 * (pg_size s2 - 18) \<and> 0 < nr" and f: "10 \<le> f"
    and P: "insert pid (\<Union> (set Qs1) \<union> \<Union> (set Qs2) \<union> Pl \<union> Pr) \<subseteq> L2" "insert pid (\<Union> (set Qs1) \<union> \<Union> (set Qs2) \<union> Pl \<union> Pr) \<subseteq> A \<union> (L2 - L)"
    and it: "iter_wf it" "trail it = xs" "length xs < 32"
    and eq: "res = settle_pair h it pid (length ks1) (if left then l else r) (if left then r else l) left root s2"
  shows "\<exists>L' s'. alters A L n s L' s' \<and> outcome res root xs L L' s' f (Suc h) pid A (concat (map entries us1) @ esl @ esr @ concat (map entries us2))"
proof -
  have tx2: "tx_pages L2 (Suc n) s2" using alters_fields(3)[OF tx(2)] .
  obtain L' s' where r: "alters (insert pid (Pl \<union> Pr)) L2 n s2 L' s'" "outcome res root xs L2 L' s' f (Suc h) pid
      (insert pid (\<Union> (set Qs1) \<union> \<Union> (set Qs2) \<union> Pl \<union> Pr)) (concat (map entries us1) @ esl @ esr @ concat (map entries us2))"
    using settle_pair_outcome[OF ho th small f P(1) tx2 it, of root] eq by blast
  have "L2 - L \<subseteq> stock s" "L - A \<subseteq> L2" using tx(2) by (simp_all add: alters_def)
  then have "alters A L n s L' s'" by (intro alters_trans[OF tx r(1)]) (use P(2) in blast)
  moreover have "outcome res root xs L L' s' f (Suc h) pid A (concat (map entries us1) @ esl @ esr @ concat (map entries us2))"
    by (rule outcome_mono[OF r(2) P(2)]) (rule \<open>L - A \<subseteq> L2\<close>)
  ultimately show ?thesis by blast
qed

text \<open>\<^verbatim>\<open>GetSibling\<close>: the right neighbour, and the left one for the last child.\<close>

lemma GetSibling_page:
  assumes "branch_page s pid z ks cs" "ks \<noteq> []" "i \<le> length ks" "iter_wf it" "trail it = xs @ [(pid, i)]"
  obtains it1 where "GetSibling it s = Inr (if i = length ks then (pid, i, cs ! (i - 1), True, it1) else (pid, i, cs ! Suc i, False, it1))"
    "iter_wf it1" "trail it1 = xs" "length xs < 32"
proof -
  have b: "branch_node (pg_size s) (nodes s pid) z ks cs" "pid < kPageMaxCount" using assms(1) by (simp_all add: branch_page_def)
  note c = branch_node_counts[OF b(1)]
  obtain it1 where p: "Pop it = Inr it1" "iter_wf it1" "trail it1 = xs" using Pop_trail[OF assms(4)] assms(5) by auto
  have "length (trail it) \<le> 32" using assms(4) by (auto simp: iter_wf_def stack_inv_def stack_list_def)
  then have "length xs < 32" using assms(5) by simp
  moreover have fr: "Front it = Inr (pid, i)" using Front_trail[OF assms(4)] assms(5) by simp
  have "i \<noteq> length ks \<Longrightarrow> GetRightChild i (nodes s pid) = Inr (cs ! Suc i)" using c(1) c(8)[of "Suc i"] assms(3) by (auto simp: GetRightChild_def GetLeftChild_def split: if_splits)
  moreover have "GetLeftChild (i - 1) (nodes s pid) = Inr (cs ! (i - 1))" using c(8)[of "i - 1"] assms(3) by simp
  ultimately have "GetSibling it s = Inr (if i = length ks then (pid, i, cs ! (i - 1), True, it1) else (pid, i, cs ! Suc i, False, it1))"
    using fr p(1) c(1) Reference_ok[OF b(2), of s] assms(2) by (cases "i = length ks") (simp_all add: GetSibling_def Let_def)
  then show thesis using that p(2,3) \<open>length xs < 32\<close> by blast
qed

lemma own_neighbour:
  fixes s :: "('w, 'a) tx_db_scheme"
  assumes pg: "branch_page s pid z ks cs" "\<not> needed s pid" and sb: "sub s f h u b Q" "full_leaves u" "pid \<notin> Q" "insert pid Q \<subseteq> A" "A \<subseteq> L"
    and j: "cs ! j = b" "j \<le> length ks" "j = (if left then slot else slot + 1)" and tx: "tx_pages L (Suc n) s"
  obtains q s2 cq nq where "own_sibling pid slot b left s = Inr (q, s2)" "branch_page s2 pid z ks (cs[j := q])" "alters A L n s (insert q (L - {b})) s2"
    "thin s2 f h q (insert q (Q - {b})) (entries u) cq nq" "0 < nq" "\<forall>p \<in> L - {b, pid}. nodes s2 p = nodes s p" "q = b \<or> q \<notin> L"
proof -
  note bQ = sub_page[OF sb(1)]
  have np: "b \<noteq> pid" "b \<in> L" "pid \<in> L" "Q \<subseteq> L" using bQ sb(3-5) by auto
  obtain q s2 x where o: "own_sibling pid slot b left s = Inr (q, s2)" "branch_page s2 pid z ks (cs[j := q])" "tx_pages (insert q (L - {b})) n s2"
    "paged s s2" "stock s2 \<subseteq> stock s" "\<not> needed s2 q" "nodes s2 q = (nodes s b)\<lparr>last_modified_txid := x\<rparr>"
    "q = b \<and> \<not> needed s b \<or> q \<in> stock s" "q < kPageMaxCount" "\<forall>p. p \<noteq> q \<longrightarrow> p \<noteq> pid \<longrightarrow> nodes s2 p = nodes s p" "q \<noteq> pid"
    by (rule own_sibling_page[OF pg(1) j(2,3,1) np(1) _ tx np(2,3)]) (use bQ in auto)
  have q: "q = b \<or> q \<notin> L" using o(8) live_not_free[OF tx] by blast
  then have qn: "q \<notin> Q - {b}" using np(4) by blast
  have same: "\<forall>p \<in> L - {b, pid}. nodes s2 p = nodes s p"
  proof
    fix p assume "p \<in> L - {b, pid}"
    then have "p \<noteq> q" "p \<noteq> pid" using q by auto
    then show "nodes s2 p = nodes s p" using o(10) by simp
  qed
  then have "\<forall>p \<in> Q - {b}. nodes s2 p = nodes s p" using sb(3) np(4) by blast
  from sub_copied[OF sb(1,2) o(7) this o(4,9,6) qn] obtain cq nq where
    th: "thin s2 f h q (insert q (Q - {b})) (entries u) cq nq" "0 < nq" by blast
  have "insert q (L - {b}) - L \<subseteq> stock s" using o(8) np(2) by blast
  moreover have "L - A \<subseteq> insert q (L - {b})" using bQ sb(4) by blast
  moreover have "nodes s2 p = nodes s p" if "p \<notin> stock s" "p \<notin> A \<or> needed s p" for p
  proof -
    have "p \<noteq> pid" using that(2) pg(2) sb(4) by auto
    moreover have "p \<noteq> q" using that o(8) bQ sb(4) by blast
    ultimately show ?thesis using o(10) by blast
  qed
  ultimately have "alters A L n s (insert q (L - {b})) s2" unfolding alters_def using o(3-5) by blast
  then show thesis using that o(1,2) th same q by blast
qed

lemma moved_page:
  assumes "b \<in> Q" "X \<inter> Q = {}" "P \<inter> Q = {}" "P \<inter> X = {}" "pid \<notin> Q \<union> X \<union> P" "insert pid (X \<union> Q \<union> P) \<subseteq> L" "q = b \<or> q \<notin> L"
  shows "insert pid (X \<union> insert q (Q - {b}) \<union> P) \<subseteq> insert q (L - {b})" "insert pid (X \<union> insert q (Q - {b}) \<union> P) \<subseteq> insert pid (X \<union> Q \<union> P) \<union> (insert q (L - {b}) - L)"
    "insert q (Q - {b}) \<inter> P = {}" "(insert q (Q - {b}) \<union> P) \<inter> insert pid X = {}" "X \<union> P \<subseteq> L - {b, pid}"
  using assms by auto

lemma settle_with:
  fixes s :: "('w, 'a) tx_db_scheme"
  assumes ho: "hole s f h pid z ks1 [k] ks2 us1 us2 cs1 (if left then [b, c] else [c, b]) cs2 Qs1 Qs2 (if left then [entries u, es] else [es, entries u])"
    and sb: "sub s f h u b Q" "full_leaves u" "Q \<inter> insert pid (\<Union> (set Qs1) \<union> \<Union> (set Qs2)) = {}"
    and th: "thin s f h c P es cost cnt" "P \<inter> insert pid (\<Union> (set Qs1) \<union> \<Union> (set Qs2) \<union> Q) = {}" "5 * cost < 2 * (pg_size s - 18)" and f: "10 \<le> f"
    and tx: "insert pid (\<Union> (set Qs1) \<union> \<Union> (set Qs2) \<union> Q \<union> P) \<subseteq> L" "tx_pages L (Suc (Suc n)) s" and it: "iter_wf it" "trail it = xs" "length xs < 32"
  shows "\<exists>L' s'. alters (insert pid (\<Union> (set Qs1) \<union> \<Union> (set Qs2) \<union> Q \<union> P)) L n s L' s' \<and>
    outcome (bind_res (own_sibling pid (length ks1) b left s) (\<lambda>(q, s2). settle_pair h it pid (length ks1) q c left root s2)) root xs L L' s' f (Suc h) pid
      (insert pid (\<Union> (set Qs1) \<union> \<Union> (set Qs2) \<union> Q \<union> P))
      (concat (map entries us1) @ (if left then entries u @ es else es @ entries u) @ concat (map entries us2))"
proof -
  let ?cs = "cs1 @ (if left then [b, c] else [c, b]) @ cs2" and ?ks = "ks1 @ [k] @ ks2" and ?j = "if left then length ks1 else length ks1 + 1"
  let ?X = "\<Union> (set Qs1) \<union> \<Union> (set Qs2)"
  let ?A = "insert pid (?X \<union> Q \<union> P)"
  note H = ho[unfolded hole_def]
  have pg: "branch_page s pid z ?ks ?cs" "\<not> needed s pid" using H by blast+
  have cj: "?cs ! ?j = b" "?j \<le> length ?ks" "?cs[?j := q] = cs1 @ (if left then [q, c] else [c, q]) @ cs2" for q using H by (auto simp: nth_append list_update_append)
  have st: "b \<in> Q" "?X \<inter> Q = {}" "P \<inter> Q = {}" "P \<inter> ?X = {}" "pid \<notin> Q \<union> ?X \<union> P" using sub_page[OF sb(1)] sb(3) th(2) H by blast+
  obtain q s2 cq nq where o: "own_sibling pid (length ks1) b left s = Inr (q, s2)" "branch_page s2 pid z ?ks (?cs[?j := q])" "alters ?A L (Suc n) s (insert q (L - {b})) s2"
    "thin s2 f h q (insert q (Q - {b})) (entries u) cq nq" "0 < nq" "\<forall>p \<in> L - {b, pid}. nodes s2 p = nodes s p" "q = b \<or> q \<notin> L"
    by (rule own_neighbour[OF pg sb(1,2) _ _ tx(1) cj(1,2), of left "length ks1" "Suc n"]) (use st(5) tx(2) in auto)
  note mv = moved_page[OF st tx(1) o(7)]
  have pp: "paged s s2" "pg_size s2 = pg_size s" using alters_fields(1,2)[OF o(3)] by auto
  have th2: "thin s2 f h c P es cost cnt" by (rule thin_frame[OF th(1) _ pp(1)]) (use o(6) mv(5) in blast)
  have h2: "hole s2 f h pid z ks1 [k] ks2 us1 us2 cs1 (if left then [q, c] else [c, q]) cs2 Qs1 Qs2 (if left then [entries u, es] else [es, entries u])"
    by (rule hole_kids[OF ho o(2)[unfolded cj(3)] _ pp(1)]) (use o(6) mv(5) in blast)
  show ?thesis
  proof (cases left)
    case True
    have sm: "if True then 5 * cost < 2 * (pg_size s2 - 18) \<and> 0 < nq else 5 * cq < 2 * (pg_size s2 - 18) \<and> 0 < cnt" using o(5) th(3) pp(2) by simp
    have hl: "hole s2 f h pid z ks1 [k] ks2 us1 us2 cs1 [q, c] cs2 Qs1 Qs2 [entries u, es]" using h2 True by simp
    show ?thesis using settle_tail[OF tx(2) o(3) hl o(4) th2 mv(3,4) sm f mv(1,2) it HOL.refl, of root] True o(1) by simp
  next
    case False
    have sm: "if False then 5 * cq < 2 * (pg_size s2 - 18) \<and> 0 < cnt else 5 * cost < 2 * (pg_size s2 - 18) \<and> 0 < nq" using o(5) th(3) pp(2) by simp
    have hr: "hole s2 f h pid z ks1 [k] ks2 us1 us2 cs1 [c, q] cs2 Qs1 Qs2 [es, entries u]" using h2 False by simp
    have cm: "?X \<union> P \<union> insert q (Q - {b}) = ?X \<union> insert q (Q - {b}) \<union> P" by (simp only: Un_ac)
    have "P \<inter> insert q (Q - {b}) = {}" "(P \<union> insert q (Q - {b})) \<inter> insert pid ?X = {}" using mv(3,4) by blast+
    from settle_tail[OF tx(2) o(3) hr th2 o(4) this sm f _ _ it HOL.refl, of root, unfolded cm, OF mv(1,2)] show ?thesis using False o(1) by simp
  qed
qed

lemma settle_outcome:
  fixes s :: "('w, 'a) tx_db_scheme"
  assumes ho: "hole s f h pid z ks1 [] ks2 us1 us2 cs1 [c] cs2 Qs1 Qs2 [es]" "ks1 @ ks2 \<noteq> []"
    and th: "thin s f h c P es cost cnt" "P \<inter> insert pid (\<Union> (set Qs1) \<union> \<Union> (set Qs2)) = {}" "5 * cost < 2 * (pg_size s - 18)" and f: "10 \<le> f"
    and tx: "insert pid (\<Union> (set Qs1) \<union> \<Union> (set Qs2) \<union> P) \<subseteq> L" "tx_pages L (Suc (Suc n)) s"
    and it: "iter_wf it" "trail it = xs @ [(pid, length ks1)]"
  shows "\<exists>L' s'. alters (insert pid (\<Union> (set Qs1) \<union> \<Union> (set Qs2) \<union> P)) L n s L' s' \<and>
    outcome (settle h it c root s) root xs L L' s' f (Suc h) pid (insert pid (\<Union> (set Qs1) \<union> \<Union> (set Qs2) \<union> P))
      (concat (map entries us1) @ es @ concat (map entries us2))"
proof -
  let ?ks = "ks1 @ ks2" and ?cs = "cs1 @ [c] @ cs2" and ?i = "length ks1"
  note H = ho(1)[unfolded hole_def]
  have pg: "branch_page s pid z ?ks ?cs" using H by auto
  have ln: "length us1 = ?i" "length cs1 = ?i" "length Qs1 = ?i" "length us2 = length ks2" "length cs2 = length ks2" "length Qs2 = length ks2"
    using H adj_length[of "ks1 @ [] @ ks2" "us1 @ map BLeaf [es] @ us2"] forest_length[of s f h us2 cs2 Qs2] by auto
  obtain it1 where g: "GetSibling it s = Inr (if ?i = length ?ks then (pid, ?i, ?cs ! (?i - 1), True, it1) else (pid, ?i, ?cs ! Suc ?i, False, it1))"
    "iter_wf it1" "trail it1 = xs" "length xs < 32" by (rule GetSibling_page[OF pg ho(2) _ it]) auto
  show ?thesis
  proof (cases ks2)
    case Nil
    then obtain ks k us u cs b Qs Q where d: "ks1 = ks @ [k]" "us1 = us @ [u]" "cs1 = cs @ [b]" "Qs1 = Qs @ [Q]"
      using ho(2) ln by (cases ks1 rule: rev_cases; cases us1 rule: rev_cases; cases cs1 rule: rev_cases; cases Qs1 rule: rev_cases) auto
    have ln': "length us = length ks" "length cs = length ks" "length Qs = length ks" using ln d by auto
    have fo: "forest s f h us cs Qs" "sub s f h u b Q" "full_leaves u" "\<Union> (set Qs) \<inter> Q = {}"
      using H forest_append[of cs us Qs s f h "[u]" "[b]" "[Q]"] ln' unfolding d by auto
    have "adj (ks @ [k] @ ks2) (us @ map BLeaf [entries u, es] @ us2)"
      using H adj_entries[of "us @ map BLeaf [entries u, es] @ us2" "us1 @ map BLeaf [es] @ us2"] unfolding d by simp
    then have hl: "hole s f h pid z ks [k] ks2 us us2 cs (if True then [b, c] else [c, b]) cs2 Qs Qs2 (if True then [entries u, es] else [es, entries u])"
      using H ln' fo(1) unfolding hole_def d by auto
    have un: "insert pid (\<Union> (set Qs) \<union> \<Union> (set Qs2) \<union> Q \<union> P) = insert pid (\<Union> (set Qs1) \<union> \<Union> (set Qs2) \<union> P)" unfolding d by auto
    have dj: "Q \<inter> insert pid (\<Union> (set Qs) \<union> \<Union> (set Qs2)) = {}" "P \<inter> insert pid (\<Union> (set Qs) \<union> \<Union> (set Qs2) \<union> Q) = {}" using H fo(4) th(2) unfolding d by auto
    have eq: "settle h it c root s = bind_res (own_sibling pid (length ks) b True s) (\<lambda>(q, s2). settle_pair h it1 pid (length ks) q c True root s2)"
      unfolding settle_def g(1) using Nil ln' d by (simp add: nth_append Let_def)
    show ?thesis using settle_with[OF hl fo(2,3) dj(1) th(1) dj(2) th(3) f _ tx(2) g(2-4), of root] tx(1) unfolding un eq d by simp
  next
    case (Cons k ks)
    then obtain us u cs b Qs Q where d: "us2 = u # us" "cs2 = b # cs" "Qs2 = Q # Qs" using ln by (cases us2; cases cs2; cases Qs2) auto
    have fo: "forest s f h us cs Qs" "sub s f h u b Q" "full_leaves u" "\<Union> (set Qs) \<inter> Q = {}" using H unfolding d by auto
    have "adj (ks1 @ [k] @ ks) (us1 @ map BLeaf [es, entries u] @ us)"
      using H adj_entries[of "us1 @ map BLeaf [es, entries u] @ us" "us1 @ map BLeaf [es] @ us2"] unfolding d Cons by simp
    then have hr: "hole s f h pid z ks1 [k] ks us1 us cs1 (if False then [b, c] else [c, b]) cs Qs1 Qs (if False then [entries u, es] else [es, entries u])"
      using H fo(1) unfolding hole_def d Cons by auto
    have un: "insert pid (\<Union> (set Qs1) \<union> \<Union> (set Qs) \<union> Q \<union> P) = insert pid (\<Union> (set Qs1) \<union> \<Union> (set Qs2) \<union> P)" unfolding d by auto
    have dj: "Q \<inter> insert pid (\<Union> (set Qs1) \<union> \<Union> (set Qs)) = {}" "P \<inter> insert pid (\<Union> (set Qs1) \<union> \<Union> (set Qs) \<union> Q) = {}" using H fo(4) th(2) unfolding d by auto
    have eq: "settle h it c root s = bind_res (own_sibling pid ?i b False s) (\<lambda>(q, s2). settle_pair h it1 pid ?i q c False root s2)"
      unfolding settle_def g(1) using Cons ln d by (simp add: nth_append Let_def)
    show ?thesis using settle_with[OF hr fo(2,3) dj(1) th(1) dj(2) th(3) f _ tx(2) g(2-4), of root] tx(1) unfolding un eq d by simp
  qed
qed

section \<open>Deleting below a path\<close>

lemma settle_leaf:
  "settle 0 it node root s =
     bind_res (GetSibling it s) (\<lambda>(parent, parent_slot_id, sibling_id, left_sibling, it1).
     let slot = (if left_sibling then parent_slot_id - 1 else parent_slot_id) in
     bind_res (own_sibling parent slot sibling_id left_sibling s) (\<lambda>(sibling, s2).
     bind_res (fill_rate sibling s2) (\<lambda>r2.
     if fill_above_50 r2 \<and> node_count (nodes s2 sibling) \<ge> 2
     then bind_res (borrow_leaf node sibling left_sibling s2) (\<lambda>(new_key, s3).
          bind_res (GetLeftChild slot (nodes s3 parent)) (\<lambda>c.
          bind_res (BranchNode_Update parent slot new_key c False s3) (\<lambda>res.
          if left_sibling then reinsert res it1 parent slot sibling node new_key root
          else reinsert res it1 parent slot node sibling new_key root)))
     else bind_res (if left_sibling then Merge_Leaf sibling node s2 else Merge_Leaf node sibling s2) (\<lambda>s3.
          Delete_Branch it1 parent slot root s3))))"
  unfolding settle_def settle_pair_def Let_def by (auto simp: bind_res_def split: sum.splits prod.splits)

lemma collapse_leaf: "collapse 0 node root s = Inr (root, s)"
  by (simp add: collapse_def)

lemma Delete_Iter_settle:
  "Delete_Iter it root s =
     bind_res (iter_is_bucket it s) (\<lambda>b.
     bind_res (if b then bind_res (iter_value_as 4 it s) (\<lambda>v. assert_res (v = kPageInvalidId)) else Inr ()) (\<lambda>_.
     bind_res (Front it) (\<lambda>(node, pos).
     bind_res (Reference node s) (\<lambda>_.
     bind_res (LeafNode_Delete node pos s) (\<lambda>s1.
     bind_res (fill_rate node s1) (\<lambda>r.
     if fill_at_least_40 r then Inr (root, s1)
     else bind_res (Pop it) (\<lambda>it0. if iter_Empty it0 then collapse 0 node root s1 else settle 0 it0 node root s1)))))))"
  unfolding Delete_Iter_def collapse_leaf settle_leaf by (rule HOL.refl)

definition del_ready :: "('w, 'a) tx_db_scheme \<Rightarrow> bt \<Rightarrow> (PageId \<times> nat) list \<Rightarrow> BTreeIterator \<Rightarrow> key \<Rightarrow> bool" where
  "del_ready s t p it key \<longleftrightarrow> on_home t key p \<and> snd (last p) < length (focus t p) \<and> fst (focus t p ! snd (last p)) = key \<and>
     \<not> snd (snd (focus t p ! snd (last p))) \<and> status it = kEq \<and> (\<forall>x \<in> set p. \<not> needed s (fst x))"

lemma filter_keys: "\<forall>e \<in> set es. fst e \<noteq> key \<Longrightarrow> filter (\<lambda>e. fst e \<noteq> key) es = es"
  by (simp add: filter_id_conv)

lemma erase_filter:
  fixes es :: "entry list"
  assumes "sorted_wrt (<) (map fst es)" "i < length es" "fst (es ! i) = key"
  shows "erase_at i es = filter (\<lambda>e. fst e \<noteq> key) es"
proof -
  have d: "es = take i es @ es ! i # drop (Suc i) es" using assms(2) by (simp add: id_take_nth_drop)
  have "sorted_wrt (<) (map fst (take i es @ es ! i # drop (Suc i) es))" using assms(1) d by simp
  then have lt: "\<forall>e \<in> set (take i es). fst e < key" "\<forall>e \<in> set (drop (Suc i) es). key < fst e" using assms(3) by (auto simp: sorted_wrt_append)
  have "fst e \<noteq> key" if "e \<in> set (take i es) \<union> set (drop (Suc i) es)" for e using that lt by (metis UnE order.irrefl)
  then have "filter (\<lambda>e. fst e \<noteq> key) (take i es) = take i es" "filter (\<lambda>e. fst e \<noteq> key) (drop (Suc i) es) = drop (Suc i) es" by (simp_all add: filter_keys)
  then have "filter (\<lambda>e. fst e \<noteq> key) (take i es @ es ! i # drop (Suc i) es) = take i es @ drop (Suc i) es" using assms(3) by simp
  then show ?thesis using d by (simp add: erase_at_def)
qed

lemma delete_leaf:
  fixes s :: "('w, 'a) tx_db_scheme"
  assumes sub: "sub s f h (BLeaf es) pid P" "P \<subseteq> L" "tx_pages L n s" and it: "iter_wf it" "trail it = xs @ [(pid, i)]"
    and rdy: "del_ready s (BLeaf es) [(pid, i)] it key"
  shows "\<exists>s'. alters {pid} L n s L s' \<and> outcome (Delete_Iter it root s) root xs L L s' f h pid P (filter (\<lambda>e. fst e \<noteq> key) es)"
proof -
  let ?es = "filter (\<lambda>e. fst e \<noteq> key) es"
  obtain x where x: "leaf_page s pid x es" "sorted_wrt (<) (map fst es)" "\<forall>e \<in> set es. small_entry f (pg_size s) e" "P = {pid}" "h = 0" by (rule sub_leafE[OF sub(1)])
  have rd: "i < length es" "fst (es ! i) = key" "\<not> snd (snd (es ! i))" "status it = kEq" "\<not> needed s pid" using rdy by (simp_all add: del_ready_def)
  have fr: "Front it = Inr (pid, i)" "Reference pid s = Inr pid" using Front_trail[OF it(1)] it(2) Reference_ok[of pid s] leaf_page_wf[OF x(1)] by simp_all
  have bk: "iter_is_bucket it s = Inr False"
    using iter_end_iff[OF it(1) HOL.refl] it(2) rd(3,4) fr leaf_reads(3)[OF x(1) rd(1)] x(1)
    by (simp add: leaf_page_def leaf_view_def iter_is_bucket_def GetLeafNode_def throw_if_def)
  obtain s' where d: "LeafNode_Delete pid i s = Inr s'" "touches {pid} s s'" "leaf_page s' pid x ?es"
    using leaf_delete[OF x(1) rd(1)] erase_filter[OF x(2) rd(1,2)] by metis
  note t = touches_fields[OF d(2)]
  have al: "alters {pid} L n s L s'" by (rule alters_touches[OF sub(3) d(2)]) (use rd(5) in simp)
  have nd: "\<not> needed s' pid" using rd(5) d(3) x(1) paged_CopyNeeded[OF t(4)] by (simp add: needed_def leaf_page_def)
  have srt: "sorted_wrt (<) (map fst ?es)" "\<forall>e \<in> set ?es. small_entry f (pg_size s') e" using x(2,3) t(1) by (auto simp: sorted_wrt_map intro: sorted_wrt_filter)
  then have th: "thin s' f h pid P ?es (leaf_cost ?es) (length ?es)" unfolding x(5) thin_leaf using nd d(3) x(4) by auto
  obtain it0 where p: "Pop it = Inr it0" "iter_wf it0" "trail it0 = xs" using Pop_trail[OF it(1)] it(2) by auto
  have eq: "Delete_Iter it root s = (if 2 * (pg_size s' - 18) \<le> 5 * leaf_cost ?es then Inr (root, s')
      else if xs = [] then collapse h pid root s' else settle h it0 pid root s')"
    unfolding Delete_Iter_settle using bk fr d(1) thin_fill(1)[OF th] p iter_Empty_trail[OF p(2)] x(5) by (simp add: fill_at_least_40_def)
  have "left_at (Delete_Iter it root s) root xs L s' f h pid P ?es"
  proof (cases "2 * (pg_size s' - 18) \<le> 5 * leaf_cost ?es")
    case True
    have "page_ok (pg_size s')" using thin_fill(5)[OF th] .
    then have c: "0 < length ?es" using True by (auto simp: page_ok_def)
    obtain t' where "sub s' f h t' pid P" "entries t' = ?es" "full_leaves t'" by (rule thin_full[OF th c])
    then show ?thesis using eq True unfolding left_at_def by auto
  next
    case False
    then have "shrunk (Delete_Iter it root s) root xs s' f h pid P ?es" unfolding shrunk_def using th eq p(2,3) by auto
    then show ?thesis unfolding left_at_def by blast
  qed
  then have "outcome (Delete_Iter it root s) root xs L L s' f h pid P ?es" by (rule outcomeI) (use sub(2) in auto)
  then show ?thesis using al by blast
qed

lemma delete_below:
  fixes s :: "('w, 'a) tx_db_scheme"
  assumes ho: "hole s f h pid z ks1 [] ks2 us1 us2 cs1 [c] cs2 Qs1 Qs2 [es]" "ks1 @ ks2 \<noteq> []" and f: "10 \<le> f"
    and P: "Q \<inter> insert pid (\<Union> (set Qs1) \<union> \<Union> (set Qs2)) = {}" "insert pid (\<Union> (set Qs1) \<union> \<Union> (set Qs2) \<union> Q) \<subseteq> L" "tx_pages L k s"
    and kid: "alters A L (Suc (Suc n)) s L1 s1" "A \<subseteq> Q" "outcome r root (xs @ [(pid, length ks1)]) L L1 s1 f h c Q es"
  shows "\<exists>L' s'. alters (insert pid (\<Union> (set Qs1) \<union> \<Union> (set Qs2) \<union> Q)) L n s L' s' \<and>
    outcome r root xs L L' s' f (Suc h) pid (insert pid (\<Union> (set Qs1) \<union> \<Union> (set Qs2) \<union> Q)) (concat (map entries us1) @ es @ concat (map entries us2))"
proof -
  let ?X = "\<Union> (set Qs1) \<union> \<Union> (set Qs2)" and ?es = "concat (map entries us1) @ es @ concat (map entries us2)"
  let ?A = "insert pid (?X \<union> Q)"
  obtain P1 where p1: "P1 \<subseteq> L1" "P1 \<subseteq> Q \<union> (L1 - L)" "left_at r root (xs @ [(pid, length ks1)]) L1 s1 f h c P1 es" using kid(3) unfolding outcome_def by blast
  have fr: "nodes s1 q = nodes s q" "q \<in> L1" if "q \<in> insert pid ?X" for q using alters_fields(4)[OF kid(1) P(3), of q] that P(1,2) kid(2) by blast+
  note pp = alters_fields(1,2,3)[OF kid(1)]
  note H = ho(1)[unfolded hole_def]
  have "branch_page s1 pid z (ks1 @ [] @ ks2) (cs1 @ [c] @ cs2)" using H branch_page_cong[OF fr(1) pp(1), of pid] by simp
  then have h1: "hole s1 f h pid z ks1 [] ks2 us1 us2 cs1 [c] cs2 Qs1 Qs2 [es]" by (rule hole_kids[OF ho(1) _ _ pp(2)]) (use fr(1) in blast)
  note H1 = h1[unfolded hole_def]
  have dj: "P1 \<inter> insert pid ?X = {}" using p1(2) P(1,2) by blast
  have sb: "insert pid (?X \<union> P1) \<subseteq> L1" "insert pid (?X \<union> P1) \<subseteq> ?A \<union> (L1 - L)" using p1(1,2) fr(2) by blast+
  have LA: "L - ?A \<subseteq> L1" "L1 - L \<subseteq> stock s" using kid(1,2) unfolding alters_def by blast+
  have tail: ?thesis if r: "alters (insert pid (?X \<union> P1)) L1 n s1 L' s'" "outcome r root xs L1 L' s' f (Suc h) pid (insert pid (?X \<union> P1)) ?es" for L' s'
  proof -
    have "alters ?A L (Suc (Suc n)) s L1 s1" by (rule alters_mono[OF kid(1)]) (use kid(2) in auto)
    then have "alters ?A L n s L' s'" by (rule alters_trans[OF P(3) _ r(1)]) (use sb(2) LA(2) in blast)
    moreover have "outcome r root xs L L' s' f (Suc h) pid ?A ?es" by (rule outcome_mono[OF r(2) sb(2) LA(1)])
    ultimately show ?thesis by blast
  qed
  have stay: "alters (insert pid (?X \<union> P1)) L1 n s1 L1 s1" using tx_pages_mono[OF pp(3), of n] by (simp add: alters_def)
  from p1(3)[unfolded left_at_def] consider (fin) "\<exists>t. r = Inr (root, s1) \<and> sub s1 f h t c P1 \<and> full_leaves t \<and> entries t = es"
    | (split) "put_split r root (xs @ [(pid, length ks1)]) L1 L1 s1 f h c P1 es" | (thin) "shrunk r root (xs @ [(pid, length ks1)]) s1 f h c P1 es" by blast
  then show ?thesis
  proof cases
    case fin
    then obtain t where t: "r = Inr (root, s1)" "sub s1 f h t c P1" "full_leaves t" "entries t = es" by blast
    have "branch_over s1 f h pid (ks1 @ [] @ ks2) (us1 @ [t] @ us2) (cs1 @ [c] @ cs2) (Qs1 @ [P1] @ Qs2)" by (rule hole_fill[OF h1]) (use t dj in auto)
    from sub_mk_node[OF this] H1 ho(2) have m: "sub s1 f (Suc h) (mk_node (ks1 @ ks2) (us1 @ t # us2)) pid (insert pid (\<Union> (set (Qs1 @ P1 # Qs2))))"
      "full_leaves (mk_node (ks1 @ ks2) (us1 @ t # us2))" by auto
    have "length (us1 @ t # us2) = Suc (length (ks1 @ ks2))" using H adj_length[of "ks1 @ ks2" "us1 @ BLeaf es # us2"] by auto
    then have "entries (mk_node (ks1 @ ks2) (us1 @ t # us2)) = ?es" using mk_node_parts(4) t(4) by simp
    moreover have "insert pid (\<Union> (set (Qs1 @ P1 # Qs2))) = insert pid (?X \<union> P1)" by auto
    ultimately have "left_at r root xs L1 s1 f (Suc h) pid (insert pid (?X \<union> P1)) ?es" unfolding left_at_def using t(1) m by metis
    then have "outcome r root xs L1 L1 s1 f (Suc h) pid (insert pid (?X \<union> P1)) ?es" by (rule outcomeI) (use sb(1) in auto)
    then show ?thesis by (rule tail[OF stay])
  next
    case split
    then obtain it' q k' t1 t2 Pl Pr where t: "r = Put_Branch it' c q k' root s1" "iter_wf it'" "trail it' = xs @ [(pid, length ks1)]" "sub s1 f h t1 c Pl" "sub s1 f h t2 q Pr"
      "full_leaves t1" "full_leaves t2" "Pl \<inter> Pr = {}" "Pl \<union> Pr \<subseteq> P1" "entries t1 @ entries t2 = es"
      "\<forall>e \<in> set (entries t1). fst e < k'" "\<forall>e \<in> set (entries t2). k' \<le> fst e" "short_key k'" "key_bound f (pg_size s1) k'"
      unfolding put_split_def by auto
    let ?us = "us1 @ [t1, t2] @ us2" and ?Qs = "Qs1 @ [Pl, Pr] @ Qs2" and ?ks = "ks1 @ k' # ks2"
    have fo: "forest s1 f h ?us (cs1 @ [c, q] @ cs2) ?Qs" "pid \<notin> \<Union> (set ?Qs)" by (rule hole_forest[OF h1, of "[t1, t2]" "[c, q]" "[Pl, Pr]"]; use t(4-9) dj in auto)+
    have a1: "length us1 = length ks1" "adj (ks1 @ ks2) (us1 @ BLeaf es # us2)" using H1 by simp_all
    have a2: "adj ks1 (us1 @ [BLeaf es])" "adj ks2 (BLeaf es # us2)" using adj_append[OF a1(1), of ks2 "BLeaf es" us2] a1(2) by auto
    have "\<forall>e \<in> set (entries t1 @ entries t2). (ks1 \<noteq> [] \<longrightarrow> last ks1 \<le> fst e) \<and> (ks2 \<noteq> [] \<longrightarrow> fst e < hd ks2)"
      unfolding t(10) using adj_ends(1)[OF a2(1)] adj_ends(2)[OF a2(2)] by simp
    then have ad: "adj ?ks ?us" using adj_two[OF a1(2,1) _ t(11,12)] by simp
    have ic: "insert_at (Suc (length ks1)) q (cs1 @ [c] @ cs2) = cs1 @ [c, q] @ cs2" "insert_at (length ks1) k' (ks1 @ [] @ ks2) = ?ks" using H by (simp_all add: insert_at_def)
    have kk: "\<forall>k \<in> set ?ks. short_key k \<and> key_bound f (pg_size s1) k" using H1 t(13,14) by auto
    have QP: "insert pid (\<Union> (set ?Qs)) \<subseteq> insert pid (?X \<union> P1)" using t(9) by auto
    have en: "concat (map entries ?us) = ?es" using t(10) by auto
    have b1: "branch_page s1 pid z (ks1 @ [] @ ks2) (cs1 @ [c] @ cs2)" "\<not> needed s1 pid" using H1 by blast+
    have tx1: "tx_pages L1 (Suc n) s1" "insert pid (\<Union> (set ?Qs)) \<subseteq> L1" using tx_pages_mono[OF pp(3), of "Suc n"] order_trans[OF QP sb(1)] by simp_all
    obtain L' s' where g: "grows {pid} L1 n s1 L' s'" "put_done r root L1 L' s' f (Suc h) pid (insert pid (\<Union> (set ?Qs))) ?es \<or>
        put_split r root xs L1 L' s' f (Suc h) pid (insert pid (\<Union> (set ?Qs))) ?es"
      using put_branch[OF b1, of "length ks1" f h ?us q ?Qs k' L1 n it' xs c root] fo ad kk tx1 t(1-3) unfolding ic en by auto
    have "entries t1 \<noteq> []" using full_entries[OF t(6)] .
    then have "?es \<noteq> []" using t(10) by auto
    then have "outcome r root xs L1 L' s' f (Suc h) pid (insert pid (\<Union> (set ?Qs))) ?es" by (intro outcome_put[OF g(2) tx1(2)]) (use grows_fields(5)[OF g(1)] in auto)
    then have "outcome r root xs L1 L' s' f (Suc h) pid (insert pid (?X \<union> P1)) ?es" by (rule outcome_mono) (use QP in blast)+
    moreover have "alters (insert pid (?X \<union> P1)) L1 n s1 L' s'" by (rule alters_mono[OF alters_grows[OF g(1)]]) (use b1(2) in auto)
    ultimately show ?thesis using tail by blast
  next
    case thin
    then obtain cost cnt it where t: "thin s1 f h c P1 es cost cnt" "5 * cost < 2 * (pg_size s1 - 18)" "iter_wf it" "trail it = xs @ [(pid, length ks1)]" "r = settle h it c root s1"
      unfolding shrunk_def by auto
    show ?thesis using settle_outcome[OF h1 ho(2) t(1) dj t(2) f sb(1) pp(3) t(3,4), of root] tail t(5) by auto
  qed
qed

text \<open>The parent of the subtree that a key leads to.\<close>

lemma branch_hole:
  assumes "branch_over s f h pid ks us cs Qs" "\<not> needed s pid" "i \<le> length ks" "0 < i \<longrightarrow> ks ! (i - 1) \<le> key" "i < length ks \<longrightarrow> key < ks ! i"
  obtains z ks1 ks2 us1 u us2 cs1 c cs2 Qs1 Q Qs2 where "ks = ks1 @ ks2" "us = us1 @ u # us2" "cs = cs1 @ c # cs2" "Qs = Qs1 @ Q # Qs2" "length ks1 = i"
    "length us1 = i" "length cs1 = i" "length Qs1 = i" "hole s f h pid z ks1 [] ks2 us1 us2 cs1 [c] cs2 Qs1 Qs2 [filter (\<lambda>e. fst e \<noteq> key) (entries u)]"
    "sub s f h u c Q" "Q \<inter> insert pid (\<Union> (set Qs1) \<union> \<Union> (set Qs2)) = {}"
    "filter (\<lambda>e. fst e \<noteq> key) (concat (map entries us)) = concat (map entries us1) @ filter (\<lambda>e. fst e \<noteq> key) (entries u) @ concat (map entries us2)"
proof -
  let ?del = "filter (\<lambda>e :: entry. fst e \<noteq> key)"
  obtain z where o: "branch_page s pid z ks cs" "forest s f h us cs Qs" "adj ks us" "pid \<notin> \<Union> (set Qs)" "\<forall>k \<in> set ks. short_key k \<and> key_bound f (pg_size s) k"
    using assms(1) by (auto simp: branch_over_def)
  have l: "length us = Suc (length ks)" "length cs = Suc (length ks)" "length Qs = Suc (length ks)" using adj_length[OF o(3)] forest_length[OF o(2)] by auto
  define ks1 ks2 us1 u us2 where "ks1 = take i ks" and "ks2 = drop i ks" and "us1 = take i us" and "u = us ! i" and "us2 = drop (Suc i) us"
  define cs1 c cs2 Qs1 Q Qs2 where "cs1 = take i cs" and "c = cs ! i" and "cs2 = drop (Suc i) cs" and "Qs1 = take i Qs" and "Q = Qs ! i" and "Qs2 = drop (Suc i) Qs"
  have d: "ks = ks1 @ ks2" "us = us1 @ u # us2" "cs = cs1 @ c # cs2" "Qs = Qs1 @ Q # Qs2"
    using assms(3) l by (simp_all add: us1_def u_def us2_def cs1_def c_def cs2_def Qs1_def Q_def Qs2_def ks1_def ks2_def id_take_nth_drop[symmetric])
  have ln: "length ks1 = i" "length us1 = i" "length cs1 = i" "length Qs1 = i" using assms(3) l by (simp_all add: us1_def cs1_def Qs1_def ks1_def)
  have kb: "ks1 \<noteq> [] \<longrightarrow> last ks1 \<le> key" "ks2 \<noteq> [] \<longrightarrow> key < hd ks2"
    using assms(3-5) by (auto simp: ks1_def ks2_def last_conv_nth hd_drop_conv_nth)
  have ne: "\<forall>t \<in> set us. entries t \<noteq> []" using forest_full[OF o(2)] by blast
  note ao = adj_outside[OF o(3)[unfolded d(1,2)] _ ne[unfolded d(2)] kb]
  have fs: "forest s f h us1 cs1 Qs1" "forest s f h us2 cs2 Qs2" "sub s f h u c Q" "\<Union> (set Qs1) \<inter> \<Union> (set Qs2) = {}" "Q \<inter> (\<Union> (set Qs1) \<union> \<Union> (set Qs2)) = {}"
    using o(2) forest_append[of cs1 us1 Qs1 s f h "u # us2" "c # cs2" "Q # Qs2"] ln unfolding d(2-4) by auto
  have "adj (ks1 @ ks2) (us1 @ BLeaf (?del (entries u)) # us2)"
    by (rule adj_one[OF o(3)[unfolded d(1,2)]]) (use ln ao(3) in auto)
  then have ho: "hole s f h pid z ks1 [] ks2 us1 us2 cs1 [c] cs2 Qs1 Qs2 [?del (entries u)]"
    unfolding hole_def using o(1,4,5) assms(2) ln fs(1,2,4) adj_sorted[OF o(3) ne] unfolding d by auto
  have "filter (\<lambda>e. fst e \<noteq> key) (concat (map entries us1)) = concat (map entries us1)" "filter (\<lambda>e. fst e \<noteq> key) (concat (map entries us2)) = concat (map entries us2)"
    by (rule filter_keys; use ao(1,2) ln in force)+
  then have "?del (concat (map entries us)) = concat (map entries us1) @ ?del (entries u) @ concat (map entries us2)" unfolding d(2) by simp
  moreover have "Q \<inter> insert pid (\<Union> (set Qs1) \<union> \<Union> (set Qs2)) = {}" using fs(5) o(4) d(4) by auto
  ultimately show thesis using that[OF d ln ho fs(3)] by blast
qed

lemma delete_subtree:
  fixes s :: "('w, 'a) tx_db_scheme"
  assumes "sub s f h t pid P" "P \<subseteq> L" "tx_pages L (n + 2 * h) s" "iter_wf it" "trail it = xs @ p" "path_to s t pid p" "del_ready s t p it key" "10 \<le> f"
  shows "\<exists>L' s'. alters P L n s L' s' \<and> outcome (Delete_Iter it root s) root xs L L' s' f h pid P (filter (\<lambda>e. fst e \<noteq> key) (entries t))"
  using assms
proof (induction t arbitrary: h pid P n xs p rule: bt_kid_induct)
  case (Leaf es)
  then obtain i where p: "p = [(pid, i)]" by (cases p) auto
  have "P = {pid}" "h = 0" using sub_leafE[OF Leaf.prems(1)] by blast+
  then show ?case using delete_leaf[OF Leaf.prems(1,2) _ Leaf.prems(4), of n xs i key root] Leaf.prems p by auto
next
  case (Branch ts t)
  obtain i p2 where p: "p = (pid, i) # p2" "i \<le> length ts" "path_to s (kid ts t i) (kid_page (nodes s pid) i) p2"
    using Branch.prems(6) by (cases p) auto
  obtain h' us cs Qs where o: "h = Suc h'" "BNode ts t = mk_node (map snd ts) us" "branch_over s f h' pid (map snd ts) us cs Qs" "ts \<noteq> []"
    "P = insert pid (\<Union> (set Qs))" "\<And>i. i \<le> length ts \<Longrightarrow> us ! i = kid ts t i" "\<And>i. i \<le> length ts \<Longrightarrow> cs ! i = kid_page (nodes s pid) i"
    by (rule sub_branchE[OF Branch.prems(1)]) blast
  have p2: "p2 \<noteq> []" using path_nonempty[OF p(3)] .
  have hi: "i = slot_for ts key" "\<not> needed s pid" using Branch.prems(7) p(1) by (auto simp: del_ready_def)
  have rdy: "del_ready s (kid ts t i) p2 it key" using Branch.prems(7) p(1) p2 hi(1) unfolding del_ready_def by auto
  have ord: "ordered_bt (BNode ts t)" using Branch.prems(1) by (simp add: sub_def)
  then have pl: "0 < i \<longrightarrow> map snd ts ! (i - 1) \<le> key" "i < length (map snd ts) \<longrightarrow> key < map snd ts ! i"
    using slot_for_bounds(1)[of "i - 1" ts key] slot_for_bounds(2)[of ts key i] hi(1) p(2) by auto
  let ?del = "filter (\<lambda>e. fst e \<noteq> key)"
  obtain z ks1 ks2 us1 u us2 cs1 c cs2 Qs1 Q Qs2 where d: "map snd ts = ks1 @ ks2" "us = us1 @ u # us2" "cs = cs1 @ c # cs2" "Qs = Qs1 @ Q # Qs2" "length ks1 = i"
    "length us1 = i" "length cs1 = i" "length Qs1 = i" and hole: "hole s f h' pid z ks1 [] ks2 us1 us2 cs1 [c] cs2 Qs1 Qs2 [?del (entries u)]"
    and sk: "sub s f h' u c Q" "Q \<inter> insert pid (\<Union> (set Qs1) \<union> \<Union> (set Qs2)) = {}"
    and out: "?del (concat (map entries us)) = concat (map entries us1) @ ?del (entries u) @ concat (map entries us2)"
    by (rule branch_hole[OF o(3) hi(2) _ pl]) (use p(2) in simp)
  have kd: "u = kid ts t i" "c = kid_page (nodes s pid) i" using o(6,7)[OF p(2)] d by (simp_all add: nth_append)
  have un: "P = insert pid (\<Union> (set Qs1) \<union> \<Union> (set Qs2) \<union> Q)" using o(5) d(4) by auto
  obtain L1 s1 where k: "alters Q L (Suc (Suc n)) s L1 s1" "outcome (Delete_Iter it root s) root (xs @ [(pid, i)]) L L1 s1 f h' c Q (?del (entries u))"
    using Branch.IH[OF p(2) sk(1)[unfolded kd] _ _ Branch.prems(4) _ p(3) rdy Branch.prems(8), of "Suc (Suc n)" "xs @ [(pid, i)]"] Branch.prems(2,3,5) p(1) un o(1) kd by auto
  have "entries (BNode ts t) = concat (map entries us)" unfolding o(2) using mk_node_parts(4) d by (metis adj_length branch_over_def o(3))
  moreover have "ks1 @ ks2 \<noteq> []" using d(1) o(4) by (metis Nil_is_map_conv)
  ultimately show ?case
    using delete_below[OF hole _ Branch.prems(8) sk(2) _ Branch.prems(3) k(1) _ , of "Delete_Iter it root s" root xs] k(2) Branch.prems(2) d(5) out un o(1) by simp
qed

end
