(* ===== verification/Atomkv_Delete_Spec.thy ===== *)
theory Atomkv_Delete_Spec
  imports Atomkv_Tree_Delete
begin

text \<open>
  \<^verbatim>\<open>BTree::Delete\<close> as a whole: search, copy of the path, removal of the entry, borrowing and merging up to the root.
  The entries of the tree afterwards are those before without the one of the key.
\<close>

section \<open>At the root\<close>

lemma collapse_root:
  fixes s :: "('w, 'a) tx_db_scheme"
  assumes "thin s f h root P es cost cnt" "P \<subseteq> L" "tx_pages L n s"
  shows "\<exists>root' s' h' t P' L'. collapse h root root s = Inr (root', s') \<and> sub s' f h' t root' P' \<and> P' \<subseteq> L' \<and> alters {root} L n s L' s' \<and>
    entries t = es \<and> h' \<le> h \<and> P' \<subseteq> P"
proof -
  note tf = thin_fill[OF assms(1)]
  have nd: "\<not> needed s root" using assms(1) by (auto simp: thin_def)
  have stay: "alters {root} L n s L s" using assms(3) by (simp add: alters_def)
  show ?thesis
  proof (cases "h = 0 \<or> 0 < cnt")
    case True
    have "collapse h root root s = Inr (root, s)" using True tf(2) by (auto simp: collapse_def)
    moreover have "\<exists>t. sub s f h t root P \<and> entries t = es"
    proof (cases "h = 0")
      case True
      then obtain x where x: "leaf_page s root x es" "sorted_wrt (<) (map fst es)" "\<forall>e \<in> set es. small_entry f (pg_size s) e" "P = {root}"
        using assms(1) by (auto simp: thin_leaf)
      then show ?thesis using sub_leaf[OF x(1-3)] True by (intro exI[of _ "BLeaf es"]) simp
    next
      case False
      then have "0 < cnt" using True by simp
      then show ?thesis using thin_full[OF assms(1)] by metis
    qed
    ultimately show ?thesis using stay assms(2) by blast
  next
    case False
    then obtain h' where h: "h = Suc h'" "cnt = 0" by (cases h) auto
    obtain ks us cs Qs where b: "branch_over s f h' root ks us cs Qs" "P = insert root (\<Union> (set Qs))" "es = concat (map entries us)" "cnt = length ks"
      using assms(1) unfolding h(1) thin_branch by blast
    obtain z where z: "branch_page s root z ks cs" "forest s f h' us cs Qs" "adj ks us" "root \<notin> \<Union> (set Qs)" using b(1) by (auto simp: branch_over_def)
    have "ks = []" "length us = 1" "length cs = 1" "length Qs = 1" using h(2) b(4) adj_length[OF z(3)] forest_length[OF z(2)] by auto
    then obtain u c Q where u: "us = [u]" "cs = [c]" "Qs = [Q]" by (auto simp: length_Suc_conv)
    have sk: "sub s f h' u c Q" "entries u = es" "root \<notin> Q" "Q \<subseteq> L" "Q \<subseteq> P" using z(2,4) b(2,3) u assms(2) by auto
    have tc: "tail_child (nodes s root) = c" using branch_node_counts(9)[of "pg_size s" "nodes s root" z ks cs] z(1) u(2) by (simp add: branch_page_def)
    obtain s' where f: "Free root 1 s = Inr s'" "tx_pages (L - {root}) n s'" "paged s s'" "nodes s' = nodes s" "stock s' = stock s"
      using Free_tx[OF assms(3), of root] assms(2) tf(3,4) by blast
    have "sub s' f h' u c Q" by (rule sub_frame[OF sk(1) _ f(3)]) (simp add: f(4))
    moreover have "collapse h root root s = Inr (c, s')" using h tf(2) f(1) tc by (simp add: collapse_def)
    moreover have "alters {root} L n s (L - {root}) s'" unfolding alters_def using f(2-5) by auto
    moreover have "Q \<subseteq> L - {root}" "h' \<le> h" using sk(3,4) h(1) by auto
    ultimately show ?thesis using sk(2,5) by blast
  qed
qed

lemma outcome_root:
  fixes s :: "('w, 'a) tx_db_scheme"
  assumes "outcome r root [] L L' s f h root P es" "tx_pages L' (Suc n) s"
  shows "\<exists>root' s' h' t P' L2. r = Inr (root', s') \<and> sub s' f h' t root' P' \<and> P' \<subseteq> L2 \<and> alters {root} L' n s L2 s' \<and> entries t = es \<and> h' \<le> Suc h \<and>
    P' \<subseteq> P \<union> (L' - L) \<union> (L2 - L')"
proof -
  obtain P' where p: "P' \<subseteq> L'" "left_at r root [] L' s f h root P' es" "P' \<subseteq> P \<union> (L' - L)" using assms(1) by (auto simp: outcome_def)
  have tx: "tx_pages L' n s" by (rule tx_pages_mono[OF assms(2)]) simp
  from p(2)[unfolded left_at_def] consider (fin) "\<exists>t. r = Inr (root, s) \<and> sub s f h t root P' \<and> full_leaves t \<and> entries t = es"
    | (split) "put_split r root [] L' L' s f h root P' es" | (thin) "shrunk r root [] s f h root P' es" by blast
  then show ?thesis
  proof cases
    case fin
    have "alters {root} L' n s L' s" using tx by (simp add: alters_def)
    then show ?thesis using fin p(1,3) le_SucI[OF order_refl, of h] by blast
  next
    case split
    obtain root' s' L2 t P2 where q: "r = Inr (root', s')" "grows {} L' n s L2 s'" "sub s' f (Suc h) t root' P2" "P2 \<subseteq> L2" "entries t = es" "P2 \<subseteq> P' \<union> (L2 - L')"
      by (rule put_new_root[OF split assms(2) p(1) order_refl]) blast
    have "alters {root} L' n s L2 s'" by (rule alters_mono[OF alters_grows[OF q(2)]]) auto
    moreover have "P2 \<subseteq> P \<union> (L' - L) \<union> (L2 - L')" using q(6) p(3) by blast
    ultimately show ?thesis using q(1,3-5) by blast
  next
    case thin
    then obtain cost cnt where t: "thin s f h root P' es cost cnt" "r = collapse h root root s" by (auto simp: shrunk_def)
    from collapse_root[OF t(1) p(1) tx] obtain root' s' h' t' P2 L2 where c: "collapse h root root s = Inr (root', s')" "sub s' f h' t' root' P2" "P2 \<subseteq> L2"
      "alters {root} L' n s L2 s'" "entries t' = es" "h' \<le> h" "P2 \<subseteq> P'" by blast
    then have "h' \<le> Suc h" "P2 \<subseteq> P \<union> (L' - L) \<union> (L2 - L')" using p(3) by auto
    then show ?thesis using t(2) c(1-5) by blast
  qed
qed


section \<open>The whole deletion\<close>

text \<open>Every page of the path may be copied, at every level a sibling may be copied and a parent split, and there may be a new root.\<close>

definition pages_to_delete :: "bt option \<Rightarrow> nat" where
  "pages_to_delete ot = (case ot of None \<Rightarrow> 0 | Some t \<Rightarrow> 3 * height t + 2)"

lemma BTree_Delete_absent:
  assumes "sub s f h t root P" "short_key key" "key \<notin> fst ` set (entries t)"
  shows "BTree_Delete bcmp bid key root s = Inr (False, root, s)"
proof -
  have t: "owns s t root P" "ordered_bt t" "height t < 32" using assms(1) sub_height[OF assms(1)] by (simp_all add: sub_def)
  obtain it where it: "BTree_LowerBound bcmp bid root key s = Inr it" "path_to s t root (trail it)"
    "status it = leaf_status key (focus t (trail it)) (snd (last (trail it)))"
    by (rule LowerBound_tree[OF owns_tree[OF t(1)] t(2,3) assms(2), of bid]) blast
  have "set (focus t (trail it)) \<subseteq> set (entries t)" unfolding path_focus[OF it(2)] by auto
  then have "status it \<noteq> kEq" using it(3) assms(3) by (auto simp: leaf_status_def)
  then show ?thesis using it(1) by (simp add: BTree_Delete_def)
qed

lemma found_slot:
  assumes "sub s f h t root P" "path_to s t root p" "\<forall>e \<in> set (before t p). fst e < key" "\<forall>e \<in> set (after t p). key \<le> fst e"
    "\<forall>e \<in> set (rightward t p). key < fst e" "key \<in> fst ` set (entries t)"
  shows "snd (last p) < length (focus t p) \<and> fst (focus t p ! snd (last p)) = key" "key \<in> fst ` set (focus t p)"
proof -
  note pl = path_leaf(2-4)[OF assms(2)]
  have "sorted_wrt (<) (map fst (leftward t p @ focus t p @ rightward t p))" using sub_ordered[OF assms(1)] unfolding path_focus[OF assms(2), symmetric] .
  then have srt: "sorted_wrt (<) (map fst (focus t p))" by (simp add: sorted_wrt_append)
  have lt: "\<forall>e \<in> set (leftward t p). fst e < key" "\<forall>e \<in> set (take (snd (last p)) (focus t p)). fst e < key" using assms(3) unfolding pl(2) by auto
  have ge: "\<forall>e \<in> set (drop (snd (last p)) (focus t p)). key \<le> fst e" using assms(4) unfolding pl(3) by auto
  have "key \<notin> fst ` set (leftward t p)" "key \<notin> fst ` set (rightward t p)" using lt(1) assms(5) by auto
  then show k: "key \<in> fst ` set (focus t p)" using assms(6) unfolding path_focus[OF assms(2)] by auto
  show "snd (last p) < length (focus t p) \<and> fst (focus t p ! snd (last p)) = key" using ins_entry_slot(1)[OF srt pl(1) lt(2) ge k] by blast
qed

lemma BTree_Delete_root:
  fixes s :: "('w, 'a) tx_db_scheme"
  assumes "sub s f h t root P" "P \<subseteq> L" "tx_pages L (n + (3 * h + 2)) s" "short_key key" "key \<in> fst ` set (entries t)" "10 \<le> f"
    "\<forall>e \<in> set (entries t). fst e = key \<longrightarrow> \<not> snd (snd e)"
  shows "\<exists>root' s' h' t' P' L'. BTree_Delete bcmp bid key root s = Inr (True, root', s') \<and> sub s' f h' t' root' P' \<and> P' \<subseteq> L' \<and> tx_pages L' n s' \<and> paged s s' \<and>
    entries t' = filter (\<lambda>e. fst e \<noteq> key) (entries t) \<and> h' \<le> Suc h \<and> spares s s' \<and> confined P L s P' L' s'"
proof -
  have t: "owns s t root P" "fresh_up s t root" "ordered_bt t" "t = BLeaf [] \<or> full_leaves t" "small_bt f (pg_size s) t" "height t = h" "h < 32" "uniform h t"
    using assms(1) sub_height[OF assms(1)] by (simp_all add: sub_def)
  obtain it where it: "BTree_LowerBound bcmp bid root key s = Inr it" "iter_wf it" "path_to s t root (trail it)"
    "\<forall>e \<in> set (before t (trail it)). fst e < key" "\<forall>e \<in> set (after t (trail it)). key \<le> fst e" "\<forall>e \<in> set (rightward t (trail it)). key < fst e"
    "status it = leaf_status key (focus t (trail it)) (snd (last (trail it)))" "on_home t key (trail it)"
    by (rule LowerBound_tree[OF owns_tree[OF t(1)] t(3) _ assms(4), of bid]) (use t(6,7) in auto)
  note fs = found_slot[OF assms(1) it(3-6) assms(5)]
  have st: "status it = kEq" using it(7) fs(2) by (simp add: leaf_status_def)
  have "set (focus t (trail it)) \<subseteq> set (entries t)" unfolding path_focus[OF it(3)] by auto
  then have nb: "\<not> snd (snd (focus t (trail it) ! snd (last (trail it))))" using assms(7) fs(1) nth_mem by blast
  let ?m = "Suc n + 2 * h"
  have "length (trail it) \<le> Suc h" using path_length[OF it(3)] t(6) by simp
  then have tx: "tx_pages L (?m + length (trail it)) s" by (intro tx_pages_mono[OF assms(3)]) simp
  obtain root1 P1 L1 it1 s1 where c: "CopyAllPagesByPath root it s = Inr (root1, it1, s1)" "recopied s L P t ?m [] (trail it) it root1 P1 L1 it1 s1 (trail it1)"
    by (rule CopyAllPages_tree[OF t(1) assms(2) tx it(2,3)])
  have hd: "fst (hd (trail it)) = root" using path_head[OF it(3)] .
  have r: "owns s1 t root1 P1" "tx_pages L1 ?m s1" "paged s s1" "iter_wf it1" "status it1 = status it" "path_to s1 t root1 (trail it1)"
    "map snd (trail it1) = map snd (trail it)" "P1 \<subseteq> L1" "kept P s s1" "fresh_up s1 t root1" "\<forall>x \<in> set (trail it1). \<not> needed s1 (fst x)"
    "stock s1 \<subseteq> stock s" "L - P \<subseteq> L1" "P1 \<inter> (L - P) = {}"
    using c(2) hd t(2) by (auto simp: recopied_def)
  note sl = path_slots[OF r(7)] and pf = paged_fields[OF r(3)]
  have last: "snd (last (trail it1)) = snd (last (trail it))"
    using r(7) path_nonempty[OF r(6)] path_nonempty[OF it(3)] by (metis last_map)
  have sub1: "sub s1 f h t root1 P1" using r(1,10) t(3-5,8) pf(1) by (simp add: sub_def)
  have rdy: "del_ready s1 t (trail it1) it1 key" unfolding del_ready_def using it(8) sl last r(5,11) fs(1) nb st by auto
  obtain L2 s2 where d: "alters P1 L1 (Suc n) s1 L2 s2" "outcome (Delete_Iter it1 root1 s1) root1 [] L1 L2 s2 f h root1 P1 (filter (\<lambda>e. fst e \<noteq> key) (entries t))"
    using delete_subtree[OF sub1 r(8) _ r(4) _ r(6) rdy assms(6), of "Suc n" "[]" root1] r(2) by auto
  obtain root' s' h' t' P' L' where o: "Delete_Iter it1 root1 s1 = Inr (root', s')" "sub s' f h' t' root' P'" "P' \<subseteq> L'" "alters {root1} L2 n s2 L' s'"
    "entries t' = filter (\<lambda>e. fst e \<noteq> key) (entries t)" "h' \<le> Suc h" "P' \<subseteq> P1 \<union> (L2 - L1) \<union> (L' - L2)"
    using outcome_root[OF d(2) alters_fields(3)[OF d(1)]] by blast
  have al: "alters P1 L1 n s1 L' s'" by (rule alters_trans[OF r(2) d(1) o(4)]) (use owns_root[OF r(1)] in blast)
  have "spares s s'"
    unfolding spares_def
  proof (intro allI impI)
    fix q assume q: "q \<notin> stock s" "needed s q"
    have e: "nodes s1 q = nodes s q" using r(9) q by (simp add: kept_def)
    moreover have "q \<notin> stock s1" using q(1) r(12) by blast
    ultimately show "nodes s' q = nodes s q" using al needed_cong[OF r(3) e] q(2) unfolding alters_def by simp
  qed
  moreover have "confined P L s P' L' s'"
  proof -
    have q: "q \<notin> stock s \<and> q \<notin> stock s1 \<and> q \<notin> P1 \<and> q \<in> L1" if h: "q \<in> L - P" for q
      using h live_not_free[OF assms(3)] r(12-14) by blast
    have "nodes s' q = nodes s q" if h: "q \<in> L - P" for q
      using q[OF h] r(9) h al unfolding kept_def alters_def by simp
    moreover have "L1 - P1 \<subseteq> L'" "L' - L2 \<subseteq> stock s1" using al alters_fields[OF d(1)] o(4) d(1) unfolding alters_def by blast+
    ultimately show ?thesis unfolding confined_def using q o(7) by blast
  qed
  moreover have "BTree_Delete bcmp bid key root s = Inr (True, root', s')" using it(1) st c(1) o(1) by (simp add: BTree_Delete_def)
  moreover have "paged s s'" "tx_pages L' n s'" using paged_trans[OF r(3) alters_fields(2)[OF al]] alters_fields(3)[OF al] .
  ultimately show ?thesis using o(2,3,5,6) by blast
qed

lemma BTree_Delete_tree:
  fixes s :: "('w, 'a) tx_db_scheme"
  assumes "bucket_tree s f ot root P" "P \<subseteq> L" "tx_pages L (n + pages_to_delete ot) s" "short_key key" "10 \<le> f"
    "\<forall>e \<in> set (contents ot). fst e = key \<longrightarrow> \<not> snd (snd e)"
  shows "\<exists>root' s' ot' P' L'. BTree_Delete bcmp bid key root s = Inr (key \<in> fst ` set (contents ot), root', s') \<and> bucket_tree s' f ot' root' P' \<and>
    P' \<subseteq> L' \<and> tx_pages L' n s' \<and> paged s s' \<and> contents ot' = filter (\<lambda>e. fst e \<noteq> key) (contents ot) \<and> spares s s' \<and> confined P L s P' L' s'"
proof (cases "key \<in> fst ` set (contents ot)")
  case True
  then obtain t where t: "ot = Some t" "contents ot = entries t" by (cases ot) (auto simp: contents_def)
  then have r: "sub s f (height t) t root P" using assms(1) by (simp add: bucket_tree_def)
  obtain root' s' h' t' P' L' where d: "BTree_Delete bcmp bid key root s = Inr (True, root', s')" "sub s' f h' t' root' P'" "P' \<subseteq> L'" "tx_pages L' n s'" "paged s s'"
    "entries t' = filter (\<lambda>e. fst e \<noteq> key) (entries t)" "spares s s'" "confined P L s P' L' s'"
    using BTree_Delete_root[OF r assms(2) _ assms(4) _ assms(5), of n bid] assms(3,6) True t by (auto simp: pages_to_delete_def)
  have "bucket_tree s' f (Some t') root' P'" using d(2) sub_height[OF d(2)] sub_page_ok[OF d(2)] by (simp add: bucket_tree_def)
  moreover have "contents (Some t') = filter (\<lambda>e. fst e \<noteq> key) (contents ot)" using d(6) t(2) by (simp add: contents_def)
  moreover have "BTree_Delete bcmp bid key root s = Inr (key \<in> fst ` set (contents ot), root', s')" using d(1) True by simp
  ultimately show ?thesis using d(3-5,7,8) by blast
next
  case False
  have "BTree_Delete bcmp bid key root s = Inr (key \<in> fst ` set (contents ot), root, s)"
  proof (cases ot)
    case None
    then show ?thesis using assms(1) by (simp add: bucket_tree_def BTree_Delete_def LowerBound_no_root contents_def)
  next
    case (Some t)
    then show ?thesis using BTree_Delete_absent[of s f "height t" t root P key bid] assms(1,4) False by (simp add: bucket_tree_def contents_def)
  qed
  moreover have "contents ot = filter (\<lambda>e. fst e \<noteq> key) (contents ot)" using False by (intro filter_keys[symmetric]) force
  moreover have "tx_pages L n s" by (rule tx_pages_mono[OF assms(3)]) simp
  moreover have "spares s s" "confined P L s P L s" by (simp_all add: spares_def)
  ultimately show ?thesis using assms(1,2) paged_refl[of s] by blast
qed

lemma map_of_delete: "map_of (filter (\<lambda>e. fst e \<noteq> k) es) = (map_of es)(k := None)"
  by (induction es) (auto simp: fun_eq_iff)


section \<open>Properties\<close>

text \<open>
  C6: \<^verbatim>\<open>BTree::Delete\<close>. In an update transaction with enough pages to allocate (free, or the file can grow by them below 4 GiB), in a tree of entries of at most half a page whose keys take
  with their slot at most the tenth part of a page, the deletion of a key that does not name a bucket returns, and says whether the key was
  there. The entries under the new root are those before without the one of the key, in the same order: whether the leaf stays
  filled, an entry is borrowed from a sibling leaf, or leaves and then branches are merged up to the root, a parent is split because the new
  separator is longer, or the root is replaced by its only child. The tree is again ordered with all leaves at the same
  depth, and no page of an earlier version has changed.
\<close>

theorem delete_correct:
  fixes s :: "('w, 'a) tx_db_scheme"
  assumes "bucket_tree s f ot root P" "P \<subseteq> L" "tx_pages L (n + pages_to_delete ot) s" "short_key key" "10 \<le> f"
    "\<forall>e \<in> set (contents ot). fst e = key \<longrightarrow> \<not> snd (snd e)"
  shows "\<exists>root' s' ot' P' L'. BTree_Delete bcmp bid key root s = Inr (key \<in> fst ` set (contents ot), root', s') \<and> bucket_tree s' f ot' root' P' \<and>
    P' \<subseteq> L' \<and> tx_pages L' n s' \<and> contents ot' = filter (\<lambda>e. fst e \<noteq> key) (contents ot) \<and>
    map_of (contents ot') = (map_of (contents ot))(key := None) \<and> pg_size s' = pg_size s \<and> spares s s'"
proof -
  obtain root' s' ot' P' L' where d: "BTree_Delete bcmp bid key root s = Inr (key \<in> fst ` set (contents ot), root', s')" "bucket_tree s' f ot' root' P'"
    "P' \<subseteq> L'" "tx_pages L' n s'" "paged s s'" "contents ot' = filter (\<lambda>e. fst e \<noteq> key) (contents ot)" "spares s s'"
    using BTree_Delete_tree[OF assms, of bid] by blast
  show ?thesis using d paged_fields(1)[OF d(5)] map_of_delete[of key "contents ot"] by metis
qed

text \<open>In the sample the two leaves are merged and the root is replaced by the merged leaf.\<close>

theorem delete_correct_witness:
  "\<exists>root' s' ot' P'. BTree_Delete bcmp 0 [9] 8 (sample_wide ()) = Inr (True, root', s') \<and> bucket_tree s' 10 ot' root' P' \<and>
    map_of (contents ot') [9] = None \<and> map_of (contents ot') [5] = map_of (contents (Some sample_bt)) [5]"
proof -
  have e: "short_key [9]" "{8, 3, 4} \<subseteq> sample_live" "\<forall>e \<in> set (contents (Some sample_bt)). fst e = [9] \<longrightarrow> \<not> snd (snd e)" "[9] \<in> fst ` set (contents (Some sample_bt))"
    by (auto simp: short_key_def sample_bt_def contents_def)
  have x: "tx_pages sample_live (0 + pages_to_delete (Some sample_bt)) (sample_wide ())"
    by (rule tx_pages_mono[OF sample_wide_pages]) (simp add: pages_to_delete_def sample_bt_def)
  have t: "bucket_tree (sample_wide ()) 10 (Some sample_bt) 8 {8, 3, 4}" by (rule sample_wide_bound) simp_all
  have f: "10 \<le> (10 :: nat)" by simp
  obtain root' s' ot' P' where "BTree_Delete bcmp 0 [9] 8 (sample_wide ()) = Inr ([9] \<in> fst ` set (contents (Some sample_bt)), root', s')" "bucket_tree s' 10 ot' root' P'"
    "map_of (contents ot') = (map_of (contents (Some sample_bt)))([9] := None)"
    using delete_correct[OF t e(2) x e(1) f e(3), of 0] by blast
  then show ?thesis using e(4) by (intro exI[of _ root'] exI[of _ s'] exI[of _ ot'] exI[of _ P']) simp
qed

end
