(* ===== verification/Atomkv_Store_Spec.thy ===== *)
theory Atomkv_Store_Spec
  imports Atomkv_Bucket_Spec Atomkv_Delete_Spec
begin

text \<open>
  A bucket of an update transaction refines a finite map: every sequence of puts and deletions behaves as on the map.
\<close>

section \<open>Deleting from a bucket\<close>

lemma Bucket_Delete_result:
  fixes s :: "('w, 'a) txn_db_scheme"
  assumes "bucket_root b s = Inr root" "bucket_tree s f ot root P" "P \<subseteq> L" "tx_pages L (n + pages_to_delete ot) s" "short_key key" "10 \<le> f"
    "\<forall>e \<in> set (contents ot). fst e = key \<longrightarrow> \<not> snd (snd e)"
  obtains s' root' ot' P' L' where "Bucket_Delete w bcmp b key s = Inr (key \<in> fst ` set (contents ot), s')" "bucket_root b s' = Inr root'"
    "bucket_tree s' f ot' root' P'" "P' \<subseteq> L'" "tx_pages L' n s'" "contents ot' = filter (\<lambda>e. fst e \<noteq> key) (contents ot)"
    "db_meta s' = db_meta s" "pg_size s' = pg_size s" "advances s s'" "b = kUserRootBucketId \<longrightarrow> user_sub_map s' = user_sub_map s \<and> sub_bucket_cache s' = sub_bucket_cache s"
    "aside P L b s P' L' s'"
proof -
  let ?s = "AppendDeleteLog w b key s"
  have lf: "same_tx s ?s" "bucket_root c ?s = bucket_root c s" for c by (rule logs_frame[OF logs_Append(2)])+
  have l0: "bucket_tree ?s f ot root P" "tx_pages L (n + pages_to_delete ot) ?s" "pg_size ?s = pg_size s" "nodes ?s = nodes s" "db_meta ?s = db_meta s"
    using assms same_tx_tree[OF lf(1)] lf(1) by (simp_all add: same_tx_def same_pages_def)
  from BTree_Delete_tree[OF l0(1) assms(3) l0(2) assms(5-7), of b] obtain root' s1 ot' P' L' where
    p: "BTree_Delete bcmp b key root ?s = Inr (key \<in> fst ` set (contents ot), root', s1)" "bucket_tree s1 f ot' root' P'" "P' \<subseteq> L'" "tx_pages L' n s1" "paged ?s s1"
    "contents ot' = filter (\<lambda>e. fst e \<noteq> key) (contents ot)" "spares ?s s1" "confined P L ?s P' L' s1" by blast
  have r: "bucket_root b ?s = Inr root" "bucket_root b s1 = Inr root" "db_meta s1 = db_meta ?s" "pg_size s1 = pg_size ?s"
    using lf(2) paged_bucket_root[OF p(5)] assms(1) paged_fields(1)[OF p(5)] by simp_all
  obtain s' where s': "set_bucket_root b root' s1 = Inr s'" "bucket_root b s' = Inr root'" "same_pages s1 s'"
    by (rule set_bucket_root_result[OF r(2)])
  note st = set_bucket_root_tx[OF s'(1)]
  show thesis
  proof (rule that)
    show "Bucket_Delete w bcmp b key s = Inr (key \<in> fst ` set (contents ot), s')" using p(1) r(1) s'(1) by (simp add: Bucket_Delete_def Let_def)
    show "bucket_tree s' f ot' root' P'" "tx_pages L' n s'" using p(2,4) same_tx_tree[OF st] st by (simp_all add: same_tx_def)
    have "tx_open s" using assms(4) by (simp add: tx_pages_def)
    then show "advances s s'" "b = kUserRootBucketId \<longrightarrow> user_sub_map s' = user_sub_map s \<and> sub_bucket_cache s' = sub_bucket_cache s"
      using advancesI[OF logs_Append(2) p(5,7) s'(1)] by blast+
    show "db_meta s' = db_meta s" "pg_size s' = pg_size s" using s'(3) r(3,4) l0(3,5) by (simp_all add: same_pages_def)
    show "aside P L b s P' L' s'" by (rule asideI[OF logs_Append(2) p(5,8) s'(1)])
  qed (use s'(2) p(3,6) in auto)
qed


section \<open>Maps with deletion\<close>

text \<open>The abstract store: operations on a finite map and the answers they give.\<close>

datatype ('k, 'v) store_op = Store 'k 'v | Remove 'k

fun map_op :: "('k, 'v) store_op \<Rightarrow> ('k \<rightharpoonup> 'v) \<Rightarrow> bool \<times> ('k \<rightharpoonup> 'v)" where
  "map_op (Store k v) m = (True, m(k \<mapsto> v))"
| "map_op (Remove k) m = (m k \<noteq> None, m(k := None))"

fun map_run :: "('k, 'v) store_op list \<Rightarrow> ('k \<rightharpoonup> 'v) \<Rightarrow> bool list \<times> ('k \<rightharpoonup> 'v)" where
  "map_run [] m = ([], m)"
| "map_run (x # xs) m = (let (a, m1) = map_op x m; (as, m2) = map_run xs m1 in (a # as, m2))"

text \<open>The operations of a store in sequence, with their answers.\<close>

fun run_res :: "('o \<Rightarrow> 's \<Rightarrow> (bool \<times> 's) res) \<Rightarrow> 'o list \<Rightarrow> 's \<Rightarrow> (bool list \<times> 's) res" where
  "run_res f [] s = Inr ([], s)"
| "run_res f (x # xs) s = bind_res (f x s) (\<lambda>(a, s1). bind_res (run_res f xs s1) (\<lambda>(as, s2). Inr (a # as, s2)))"

fun store_step :: "('k \<times> 'v \<Rightarrow> 's \<Rightarrow> 's res) \<Rightarrow> ('k \<Rightarrow> 's \<Rightarrow> (bool \<times> 's) res) \<Rightarrow> ('k, 'v) store_op \<Rightarrow> 's \<Rightarrow> (bool \<times> 's) res" where
  "store_step p d (Store k v) s = bind_res (p (k, v) s) (\<lambda>s1. Inr (True, s1))"
| "store_step p d (Remove k) s = d k s"

text \<open>What is asked of the operations on a map: new keys are put, values that may be deleted are deleted.\<close>

fun ops_allowed :: "('k \<times> 'v \<Rightarrow> bool) \<Rightarrow> ('k \<Rightarrow> bool) \<Rightarrow> ('v \<Rightarrow> bool) \<Rightarrow> ('k, 'v) store_op list \<Rightarrow> ('k \<rightharpoonup> 'v) \<Rightarrow> bool" where
  "ops_allowed fine legal plain [] m \<longleftrightarrow> True"
| "ops_allowed fine legal plain (x # xs) m \<longleftrightarrow>
     (case x of Store k v \<Rightarrow> fine (k, v) \<and> m k = None | Remove k \<Rightarrow> legal k \<and> (case m k of None \<Rightarrow> True | Some v \<Rightarrow> plain v)) \<and>
     ops_allowed fine legal plain xs (snd (map_op x m))"

text \<open>A store with deletion; \<open>plain\<close> values may be deleted. What holds for one operation holds for a sequence.\<close>

locale deleting_store = key_value_store holds fine legal store_put reads
  for holds :: "nat \<Rightarrow> 's \<Rightarrow> ('k \<rightharpoonup> 'v) \<Rightarrow> bool" and fine legal store_put reads +
  fixes store_del :: "'k \<Rightarrow> 's \<Rightarrow> (bool \<times> 's) res" and plain :: "'v \<Rightarrow> bool"
  assumes delete_holds: "holds (Suc n) s m \<Longrightarrow> legal k \<Longrightarrow> (\<And>v. m k = Some v \<Longrightarrow> plain v) \<Longrightarrow>
    \<exists>s'. store_del k s = Inr (m k \<noteq> None, s') \<and> holds n s' (m(k := None))"
begin

lemma step_holds:
  assumes "holds (Suc n) s m" "ops_allowed fine legal plain [x] m"
  shows "\<exists>s'. store_step store_put store_del x s = Inr (fst (map_op x m), s') \<and> holds n s' (snd (map_op x m))"
proof (cases x)
  case (Store k v)
  then show ?thesis using put_new[OF assms(1), of k v] assms(2) by auto
next
  case (Remove k)
  then show ?thesis using delete_holds[OF assms(1), of k] assms(2) by (auto split: option.splits)
qed

lemma run_holds:
  "holds (n + length xs) s m \<Longrightarrow> ops_allowed fine legal plain xs m \<Longrightarrow>
     \<exists>s'. run_res (store_step store_put store_del) xs s = Inr (fst (map_run xs m), s') \<and> holds n s' (snd (map_run xs m))"
proof (induction xs arbitrary: s m)
  case (Cons x xs)
  obtain s1 where s1: "store_step store_put store_del x s = Inr (fst (map_op x m), s1)" "holds (n + length xs) s1 (snd (map_op x m))"
    using step_holds[of "n + length xs" s m x] Cons.prems by auto
  obtain s' where "run_res (store_step store_put store_del) xs s1 = Inr (fst (map_run xs (snd (map_op x m))), s')" "holds n s' (snd (map_run xs (snd (map_op x m))))"
    using Cons.IH[OF s1(2)] Cons.prems(2) by auto
  then show ?case using s1(1) by (simp add: case_prod_unfold Let_def)
qed simp

lemma run_reads:
  "holds (n + length xs) s m \<Longrightarrow> ops_allowed fine legal plain xs m \<Longrightarrow> \<exists>s'. run_res (store_step store_put store_del) xs s = Inr (fst (map_run xs m), s') \<and>
     (\<forall>k. legal k \<longrightarrow> reads k s' (snd (map_run xs m) k))"
  using run_holds read_holds by blast

end

text \<open>A bucket is such a store, with 95 pages to allocate for each operation.\<close>

lemma plain_contents:
  assumes "bucket_tree s f ot root P" "\<And>v. map_of (contents ot) k = Some v \<Longrightarrow> \<not> snd v"
  shows "\<forall>e \<in> set (contents ot). fst e = k \<longrightarrow> \<not> snd (snd e)"
proof (intro ballI impI)
  fix e assume e: "e \<in> set (contents ot)" "fst e = k"
  have "distinct (map fst (contents ot))" using bucket_tree_sorted[OF assms(1)] by (simp add: strict_sorted_iff)
  then have "map_of (contents ot) k = Some (snd e)" using e by (metis map_of_is_SomeI prod.collapse)
  then show "\<not> snd (snd e)" by (rule assms(2))
qed

text \<open>An update with a value that is not longer finds room in its leaf.\<close>

lemma home_room: "owns s t pid P \<Longrightarrow> leaf_cost (home t k) \<le> pg_size s - 18"
proof (induction t arbitrary: pid P rule: bt_kid_induct)
  case (Leaf es)
  then have "leaf_page s pid (last_modified_txid (nodes s pid)) es" by (simp add: owns_leaf leaf_page_def)
  then show ?case using leaf_page_room by simp
next
  case (Branch ts t)
  obtain Q where q: "\<forall>i \<le> length ts. owns s (kid ts t i) (kid_page (nodes s pid) i) (Q i)" by (rule owns_branchE[OF Branch.prems])
  show ?case using Branch.IH[OF slot_for_le q[rule_format, OF slot_for_le]] by simp
qed

lemma ins_entry_cost:
  fixes es :: "entry list"
  assumes "sorted_wrt (<) (map fst es)" "(k, v0, b) \<in> set es" "length v \<le> length v0"
  shows "leaf_cost (ins_entry k (v, b) es) \<le> leaf_cost es"
proof -
  obtain xs zs where e: "es = xs @ (k, v0, b) # zs" using split_list[OF assms(2)] by blast
  have "\<forall>e \<in> set xs. fst e < k" "\<forall>e \<in> set zs. k < fst e" using assms(1) unfolding e by (auto simp: sorted_wrt_append)
  from ins_entry_at(2)[OF this, of "(v, b)" "(v0, b)"] show ?thesis using assms(3) unfolding e by (simp add: entry_cost_def)
qed

lemma can_put_shorter:
  assumes "bucket_tree s f ot root P" "map_of (contents ot) k = Some (v0, b)" "length v \<le> length v0"
    "small_entry f (pg_size s) (k, v, b)" "0 < length k + length v"
  shows "can_put f (pg_size s) ot k v b"
proof -
  obtain t where t: "ot = Some t" "contents ot = entries t" using assms(2) by (cases ot) (auto simp: contents_def)
  have sub: "sub s f (height t) t root P" using assms(1) t(1) by (simp add: bucket_tree_def)
  then have o: "owns s t root P" "ordered_bt t" "height t < 32" using sub_height[OF sub] by (simp_all add: sub_def)
  have srt: "sorted_wrt (<) (map fst (entries t))" using bucket_tree_sorted[OF assms(1)] t(2) by simp
  have uni: "snd e = (v0, b)" if "e \<in> set (entries t)" "fst e = k" for e
  proof -
    have "distinct (map fst (entries t))" using srt by (simp add: strict_sorted_iff)
    then show ?thesis using that assms(2) unfolding t(2) by (metis map_of_is_SomeI option.inject prod.collapse)
  qed
  have "leaf_cost (ins_entry k (v, b) (home t k)) \<le> pg_size s - 18"
  proof -
    obtain it where it: "path_to s t root (trail it)" "\<forall>e \<in> set (before t (trail it)). fst e < k" "\<forall>e \<in> set (after t (trail it)). k \<le> fst e"
      "\<forall>e \<in> set (rightward t (trail it)). k < fst e" "on_home t k (trail it)"
      by (rule LowerBound_tree[OF owns_tree[OF o(1)] o(2,3), of k 0]) (use assms(4) in \<open>auto simp: small_entry_def\<close>)
    have "k \<in> fst ` set (entries t)" using map_of_SomeD[OF assms(2)] t(2) by force
    then have "k \<in> fst ` set (home t k)" using found_slot(2)[OF sub it(1-4)] home_focus[OF it(5)] by simp
    moreover have fc: "entries t = leftward t (trail it) @ home t k @ rightward t (trail it)" using path_focus[OF it(1)] home_focus[OF it(5)] by simp
    ultimately have "(k, v0, b) \<in> set (home t k)" using uni by fastforce
    moreover have "sorted_wrt (<) (map fst (home t k))" using srt unfolding fc by (simp add: sorted_wrt_append)
    ultimately have "leaf_cost (ins_entry k (v, b) (home t k)) \<le> leaf_cost (home t k)" using ins_entry_cost assms(3) by blast
    then show ?thesis using home_room[OF o(1), of k] by simp
  qed
  then show ?thesis using assms(4,5) uni t by (auto simp: can_put_def)
qed

lemma bucket_holds_delete:
  fixes s :: "('w, 'a) txn_db_scheme"
  assumes "bucket_holds 95 (f + 10) ps b (Suc n) s m" "short_key k" "\<And>v. m k = Some v \<Longrightarrow> \<not> snd v"
  shows "\<exists>s'. Bucket_Delete w bcmp b k s = Inr (m k \<noteq> None, s') \<and> bucket_holds 95 (f + 10) ps b n s' (m(k := None))"
proof -
  obtain root ot P L where h: "bucket_root b s = Inr root" "bucket_tree s (f + 10) ot root P" "P \<subseteq> L" "tx_pages L (95 * Suc n) s" "pg_size s = ps" "m = map_of (contents ot)"
    using assms(1) by (auto simp: bucket_holds_def)
  have pl: "\<forall>e \<in> set (contents ot). fst e = k \<longrightarrow> \<not> snd (snd e)" by (rule plain_contents[OF h(2)]) (use assms(3) h(6) in auto)
  have "pages_to_delete ot \<le> 95" using bucket_height h(2) by (fastforce simp: pages_to_delete_def split: option.splits)
  then have x: "tx_pages L (95 * n + pages_to_delete ot) s" by (intro tx_pages_mono[OF h(4)]) simp
  have f: "10 \<le> f + 10" by simp
  obtain s' root' ot' P' L' where r: "Bucket_Delete w bcmp b k s = Inr (k \<in> fst ` set (contents ot), s')" "bucket_root b s' = Inr root'"
    "bucket_tree s' (f + 10) ot' root' P'" "P' \<subseteq> L'" "tx_pages L' (95 * n) s'" "contents ot' = filter (\<lambda>e. fst e \<noteq> k) (contents ot)" "pg_size s' = pg_size s"
    by (rule Bucket_Delete_result[OF h(1-3) x assms(2) f pl])
  have "m(k := None) = map_of (contents ot')" unfolding r(6) h(6) by (rule map_of_delete[symmetric])
  then have "bucket_holds 95 (f + 10) ps b n s' (m(k := None))" unfolding bucket_holds_def using r(2-5,7) h(5) by auto
  moreover have "(k \<in> fst ` set (contents ot)) = (m k \<noteq> None)" unfolding h(6) by (simp add: map_of_eq_None_iff)
  ultimately show ?thesis using r(1) by auto
qed

interpretation deleting_bucket: deleting_store "bucket_holds 95 (f + 10) ps b" "\<lambda>e. small_entry (f + 10) ps e \<and> 0 < length (fst e) + length (fst (snd e))" short_key
  "put_entry w b" "get_shows b" "\<lambda>k. Bucket_Delete w bcmp b k" "\<lambda>v. \<not> snd v" for f ps b w
proof
  fix n and s :: "('a, 'b) txn_db_scheme" and m k v
  show "bucket_holds 95 (f + 10) ps b (Suc n) s m \<Longrightarrow> small_entry (f + 10) ps (k, v) \<and> 0 < length (fst (k, v)) + length (fst (snd (k, v))) \<Longrightarrow> m k = None \<Longrightarrow>
      \<exists>s'. put_entry w b (k, v) s = Inr s' \<and> bucket_holds 95 (f + 10) ps b n s' (m(k \<mapsto> v))"
    by (rule bucket_holds_put) simp_all
  show "bucket_holds 95 (f + 10) ps b n s m \<Longrightarrow> short_key k \<Longrightarrow> get_shows b k s (m k)"
    using Bucket_Get_tree by (fastforce simp: bucket_holds_def get_shows_def)
  show "bucket_holds 95 (f + 10) ps b (Suc n) s m \<Longrightarrow> short_key k \<Longrightarrow> (\<And>v. m k = Some v \<Longrightarrow> \<not> snd v) \<Longrightarrow>
      \<exists>s'. Bucket_Delete w bcmp b k s = Inr (m k \<noteq> None, s') \<and> bucket_holds 95 (f + 10) ps b n s' (m(k := None))"
    by (rule bucket_holds_delete)
qed


section \<open>Properties\<close>

text \<open>
  A bucket refines a finite map. Any sequence of puts of new keys and deletions, on the user bucket or an open sub-bucket, with entries
  of at most half a page, keys that take with their slot at most the tenth part of a page, and 95 pages to allocate (free, or the file can grow by them below 4 GiB) for each operation,
  runs to its end through every split, borrowing and merge; the deletions answer whether their key was there, and
  afterwards \<^verbatim>\<open>Get\<close> shows for every key what the map holds after the same operations.
\<close>

theorem bucket_refines_map:
  fixes s :: "('w, 'a) txn_db_scheme"
  assumes "bucket_root b s = Inr root" "bucket_tree s f ot root P" "P \<subseteq> L" "tx_pages L (95 * length ops) s" "10 \<le> f"
    "ops_allowed (\<lambda>e. small_entry f (pg_size s) e \<and> 0 < length (fst e) + length (fst (snd e))) short_key (\<lambda>v. \<not> snd v) ops (map_of (contents ot))"
  shows "\<exists>s'. run_res (store_step (put_entry w b) (\<lambda>k. Bucket_Delete w bcmp b k)) ops s = Inr (fst (map_run ops (map_of (contents ot))), s') \<and>
    (\<forall>k. short_key k \<longrightarrow> (\<exists>it. Bucket_Get bcmp b k s' = Inr it \<and> finds it b k s' (snd (map_run ops (map_of (contents ot))) k)))"
proof -
  obtain g where f: "f = g + 10" using assms(5) by (metis add.commute le_iff_add)
  have "bucket_holds 95 (g + 10) (pg_size s) b (0 + length ops) s (map_of (contents ot))" using assms(1-4) f by (auto simp: bucket_holds_def)
  from deleting_bucket.run_reads[OF this, of w] assms(6) show ?thesis unfolding f by (simp add: get_shows_def)
qed

text \<open>A deletion that merges the leaves, a put into what is left.\<close>

theorem bucket_refines_map_witness:
  "\<exists>s'. run_res (store_step (put_entry sample_writer kUserRootBucketId) (\<lambda>k. Bucket_Delete sample_writer bcmp kUserRootBucketId k))
      [Remove [9], Store [7] ([1], False)] sample_txn = Inr ([True, True], s') \<and>
    (\<exists>it. Bucket_Get bcmp kUserRootBucketId [9] s' = Inr it \<and> finds it kUserRootBucketId [9] s' None) \<and>
    (\<exists>it. Bucket_Get bcmp kUserRootBucketId [7] s' = Inr it \<and> finds it kUserRootBucketId [7] s' (Some ([1], False)))"
proof -
  let ?ops = "[Remove [9], Store [7] ([1], False)] :: (key, byte list \<times> bool) store_op list" and ?m = "map_of (contents (Some sample_bt))"
  have ps: "pg_size sample_txn = 256" by (simp add: sample_wide_def sample_update_def)
  have e: "short_key [9]" "short_key [7]" "{8, 3, 4} \<subseteq> sample_live" "?m [9] = Some ([19], False)" "?m [7] = None"
    by (auto simp: short_key_def sample_bt_def contents_def)
  have c: "ops_allowed (\<lambda>e. small_entry 10 (pg_size sample_txn) e \<and> 0 < length (fst e) + length (fst (snd e))) short_key (\<lambda>v. \<not> snd v) ?ops ?m"
    unfolding ps using e by (simp add: small_entry_def entry_cost_def key_bound_def)
  have x: "tx_pages sample_live (95 * length ?ops) sample_txn" by (rule tx_pages_mono[OF sample_wide_pages]) simp
  have t: "bucket_tree sample_txn 10 (Some sample_bt) 8 {8, 3, 4}" by (rule sample_wide_bound) simp_all
  have f: "10 \<le> (10 :: nat)" by simp
  have m: "fst (map_run ?ops ?m) = [True, True]" "snd (map_run ?ops ?m) [9] = None" "snd (map_run ?ops ?m) [7] = Some ([1], False)" using e(4,5) by simp_all
  obtain s' where p: "run_res (store_step (put_entry sample_writer kUserRootBucketId) (\<lambda>k. Bucket_Delete sample_writer bcmp kUserRootBucketId k)) ?ops sample_txn = Inr (fst (map_run ?ops ?m), s')"
    and g: "\<forall>k. short_key k \<longrightarrow> (\<exists>it. Bucket_Get bcmp kUserRootBucketId k s' = Inr it \<and> finds it kUserRootBucketId k s' (snd (map_run ?ops ?m) k))"
    using bucket_refines_map[OF sample_txn_root t e(3) x f c, of sample_writer] by blast
  show ?thesis using p g[rule_format, OF e(1)] g[rule_format, OF e(2)] unfolding m by blast
qed

end
