(* ===== verification/Atomkv_Full_Put.thy ===== *)
theory Atomkv_Full_Put
  imports Atomkv_Store_Spec
begin

text \<open>
  \<^verbatim>\<open>Put\<close> over every key, also when an update finds no room in its leaf. \<^verbatim>\<open>BTree::Put\<close> ignores the answer of
  \<^verbatim>\<open>LeafNode::Update\<close>: the call returns as if it had stored the value, and the old value stays.
\<close>

section \<open>A put that is lost\<close>

text \<open>The leaf that a path leads to.\<close>

lemma focus_page: "path_to s t pid p \<Longrightarrow> owns s t pid P \<Longrightarrow> \<exists>x. leaf_page s (fst (last p)) x (focus t p)"
proof (induction s t pid p arbitrary: P rule: path_to.induct)
  case (3 s ts t pid q i p)
  obtain Q where q: "\<forall>i \<le> length ts. owns s (kid ts t i) (kid_page (nodes s pid) i) (Q i)" by (rule owns_branchE[OF "3.prems"(2)])
  then show ?case using 3 path_nonempty[of s "kid ts t i" "kid_page (nodes s pid) i" p] by auto
qed (auto simp: owns_leaf leaf_page_def)

text \<open>A key of the tree is in the leaf that the separators lead it to.\<close>

lemma key_home:
  assumes "sub s f h t root P" "short_key key" "key \<in> fst ` set (entries t)"
  shows "key \<in> fst ` set (home t key)"
proof -
  have t: "owns s t root P" "ordered_bt t" "height t < 32" using assms(1) sub_height[OF assms(1)] by (simp_all add: sub_def)
  obtain it where it: "path_to s t root (trail it)" "\<forall>e \<in> set (before t (trail it)). fst e < key"
    "\<forall>e \<in> set (after t (trail it)). key \<le> fst e" "\<forall>e \<in> set (rightward t (trail it)). key < fst e" "on_home t key (trail it)"
    by (rule LowerBound_tree[OF owns_tree[OF t(1)] t(2,3) assms(2)]) blast
  then show ?thesis using found_slot(2)[OF assms(1) it(1-4) assms(3)] home_focus[OF it(5)] by simp
qed

text \<open>The slot of such a key at the end of a path.\<close>

lemma home_slot:
  assumes "sub s f h t root P" "path_to s t root p" "\<forall>e \<in> set (before t p). fst e < key" "\<forall>e \<in> set (after t p). key \<le> fst e"
    "on_home t key p" "short_key key" "key \<in> fst ` set (entries t)"
  shows "snd (last p) < length (home t key)" "fst (home t key ! snd (last p)) = key" "ins_entry key w (home t key) = (home t key)[snd (last p) := (key, w)]"
    "leaf_status key (focus t p) (snd (last p)) = kEq" "home t key ! snd (last p) \<in> set (entries t)" "\<exists>x. leaf_page s (fst (last p)) x (home t key)"
proof -
  note h = home_focus[OF assms(5)] and pl = path_leaf(2-4)[OF assms(2)] and k = key_home[OF assms(1,6,7)]
  have "sorted_wrt (<) (map fst (leftward t p @ focus t p @ rightward t p))" using sub_ordered[OF assms(1)] unfolding path_focus[OF assms(2), symmetric] .
  then have srt: "sorted_wrt (<) (map fst (home t key))" unfolding h by (simp add: sorted_wrt_append)
  have lt: "\<forall>e \<in> set (take (snd (last p)) (home t key)). fst e < key" using assms(3) unfolding pl(2) h by auto
  have ge: "\<forall>e \<in> set (drop (snd (last p)) (home t key)). key \<le> fst e" using assms(4) unfolding pl(3) h by auto
  have sl: "snd (last p) < length (home t key) \<and> fst (home t key ! snd (last p)) = key \<and> ins_entry key w (home t key) = (home t key)[snd (last p) := (key, w)]"
    using ins_entry_slot(1)[OF srt _ lt ge k] pl(1) unfolding h by blast
  then show "snd (last p) < length (home t key)" "fst (home t key ! snd (last p)) = key" "ins_entry key w (home t key) = (home t key)[snd (last p) := (key, w)]"
    by blast+
  show "leaf_status key (focus t p) (snd (last p)) = kEq" using k unfolding h by (simp add: leaf_status_def)
  have "home t key ! snd (last p) \<in> set (focus t p)" using sl unfolding h by simp
  then show "home t key ! snd (last p) \<in> set (entries t)" unfolding path_focus[OF assms(2)] by simp
  have "owns s t root P" using assms(1) by (simp add: sub_def)
  then show "\<exists>x. leaf_page s (fst (last p)) x (home t key)" using focus_page[OF assms(2)] unfolding h by blast
qed

lemma BTree_Put_lost:
  fixes s :: "('w, 'a) tx_db_scheme"
  assumes "sub s f h t root P" "P \<subseteq> L" "tx_pages L (n + pages_to_put (Some t)) s" "small_entry f (pg_size s) (key, v, b)" "0 < length key + length v"
    "\<forall>e \<in> set (entries t). fst e = key \<longrightarrow> snd (snd e) = b" "key \<in> fst ` set (entries t)" "\<not> leaf_cost (ins_entry key (v, b) (home t key)) \<le> pg_size s - 18"
  shows "\<exists>root' s' P' L'. BTree_Put bcmp bid key v b root s = Inr (root', s') \<and> sub s' f h t root' P' \<and>
    P' \<subseteq> L' \<and> tx_pages L' n s' \<and> paged s s' \<and> spares s s' \<and> confined P L s P' L' s'"
proof -
  have tx: "tx_pages L (n + (2 * h + 3)) s" using assms(3) sub_height[OF assms(1)] by (simp add: pages_to_put_def)
  have sk: "short_key key" using assms(4) by (simp add: small_entry_def)
  obtain it root1 s1 P1 L1 where r: "\<forall>v b. BTree_Put bcmp bid key v b root s = Put_Leaf it key v False b root1 s1"
    "sub s1 f h t root1 P1" "P1 \<subseteq> L1" "tx_pages L1 (Suc n + length (trail it)) s1" "paged s s1" "iter_wf it" "path_to s1 t root1 (trail it)"
    "\<forall>e \<in> set (before t (trail it)). fst e < key" "\<forall>e \<in> set (after t (trail it)). key \<le> fst e"
    "status it = leaf_status key (focus t (trail it)) (snd (last (trail it)))" "on_home t key (trail it)" "\<forall>x \<in> set (trail it). \<not> needed s1 (fst x)"
    "kept P s s1" "stock s1 \<subseteq> stock s" "L - P \<subseteq> L1" "P1 \<inter> (L - P) = {}"
    by (rule put_path[OF assms(1,2) tx sk])
  note hs = home_slot[OF r(2,7,8,9,11) sk assms(7)]
  obtain x where x: "leaf_page s1 (fst (last (trail it))) x (home t key)" using hs(6) by blast
  have tr: "trail it = butlast (trail it) @ [(fst (last (trail it)), snd (last (trail it)))]" using path_nonempty[OF r(7)] by simp
  have "Put_Leaf it key v False b root1 s1 = Inr (root1, s1)"
  proof (rule Put_Leaf_full[OF x r(6) tr hs(1,2)])
    show "status it = kEq" using r(10) hs(4) by simp
    show "snd (snd (home t key ! snd (last (trail it)))) = b" using assms(6) hs(2,5) by blast
    show "fit_entry (pg_size s1) (key, v, b)" using small_entry_fit[OF assms(4)] assms(5) paged_fields(1)[OF r(5)] by simp
    show "\<not> leaf_cost ((home t key)[snd (last (trail it)) := (key, v, b)]) \<le> pg_size s1 - 18"
      using assms(8) unfolding hs(3) paged_fields(1)[OF r(5)] .
  qed
  moreover have "confined P L s P1 L1 s1"
    unfolding confined_def using r(13,15,16) live_not_free[OF tx] by (auto simp: kept_def)
  ultimately show ?thesis
    using r(1-3,5) kept_spares[OF r(13)] tx_pages_mono[OF r(4), of n]
    by (intro exI[of _ root1] exI[of _ s1] exI[of _ P1] exI[of _ L1]) simp
qed


section \<open>Every put of a small entry\<close>

text \<open>\<open>can_put\<close> without the room that an update needs; and that room.\<close>

definition may_put :: "nat \<Rightarrow> nat \<Rightarrow> bt option \<Rightarrow> key \<Rightarrow> byte list \<Rightarrow> bool \<Rightarrow> bool" where
  "may_put f ps ot key v b \<longleftrightarrow> small_entry f ps (key, v, b) \<and> 0 < length key + length v \<and>
     (\<forall>e \<in> set (contents ot). fst e = key \<longrightarrow> snd (snd e) = b)"

definition has_room :: "nat \<Rightarrow> bt option \<Rightarrow> key \<Rightarrow> byte list \<Rightarrow> bool \<Rightarrow> bool" where
  "has_room ps ot key v b \<longleftrightarrow> (case ot of None \<Rightarrow> True | Some t \<Rightarrow>
     key \<in> fst ` set (entries t) \<longrightarrow> leaf_cost (ins_entry key (v, b) (home t key)) \<le> ps - 18)"

lemma can_put_iff: "can_put f ps ot key v b \<longleftrightarrow> may_put f ps ot key v b \<and> has_room ps ot key v b"
  by (auto simp: can_put_def may_put_def has_room_def)

lemma BTree_Put_any:
  fixes s :: "('w, 'a) tx_db_scheme"
  assumes "bucket_tree s f ot root P" "P \<subseteq> L" "tx_pages L (n + pages_to_put ot) s" "may_put f (pg_size s) ot key v b"
  shows "\<exists>root' s' ot' P' L'. BTree_Put bcmp bid key v b root s = Inr (root', s') \<and> bucket_tree s' f ot' root' P' \<and>
    P' \<subseteq> L' \<and> tx_pages L' n s' \<and> paged s s' \<and>
    contents ot' = (if has_room (pg_size s) ot key v b then ins_entry key (v, b) (contents ot) else contents ot) \<and>
    spares s s' \<and> confined P L s P' L' s'"
proof (cases "has_room (pg_size s) ot key v b")
  case True
  then have "can_put f (pg_size s) ot key v b" using assms(4) by (simp add: can_put_iff)
  from BTree_Put_tree[OF assms(1-3) this, of bid] obtain root' s' t' P' L' where "BTree_Put bcmp bid key v b root s = Inr (root', s')"
    "bucket_tree s' f (Some t') root' P'" "P' \<subseteq> L'" "tx_pages L' n s'" "paged s s'" "entries t' = ins_entry key (v, b) (contents ot)" "spares s s'"
    "confined P L s P' L' s'" by blast
  then show ?thesis using True by (intro exI[of _ root'] exI[of _ s'] exI[of _ "Some t'"] exI[of _ P'] exI[of _ L']) (simp add: contents_def)
next
  case False
  then obtain t where t: "ot = Some t" "key \<in> fst ` set (entries t)" "\<not> leaf_cost (ins_entry key (v, b) (home t key)) \<le> pg_size s - 18"
    by (auto simp: has_room_def split: option.splits)
  have sb: "sub s f (height t) t root P" "tx_pages L (n + pages_to_put (Some t)) s" using assms(1,3) t(1) by (simp_all add: bucket_tree_def)
  have mp: "small_entry f (pg_size s) (key, v, b)" "0 < length key + length v" "\<forall>e \<in> set (entries t). fst e = key \<longrightarrow> snd (snd e) = b"
    using assms(4) t(1) by (simp_all add: may_put_def contents_def)
  obtain root' s' P' L' where p: "BTree_Put bcmp bid key v b root s = Inr (root', s')" "sub s' f (height t) t root' P'"
    "P' \<subseteq> L'" "tx_pages L' n s'" "paged s s'" "spares s s'" "confined P L s P' L' s'"
    using BTree_Put_lost[OF sb(1) assms(2) sb(2) mp t(2,3), of bid] by blast
  then show ?thesis using False t(1) sub_page_ok[OF p(2)]
    by (intro exI[of _ root'] exI[of _ s'] exI[of _ "Some t"] exI[of _ P'] exI[of _ L']) (simp add: bucket_tree_def)
qed

lemma Bucket_Put_any:
  fixes s :: "('w, 'a) txn_db_scheme"
  assumes "bucket_root b s = Inr root" "bucket_tree s f ot root P" "P \<subseteq> L" "tx_pages L (n + pages_to_put ot) s" "may_put f (pg_size s) ot key value bucket"
  obtains s' root' ot' P' L' where "Bucket_Put w bcmp b key value bucket s = Inr s'" "bucket_root b s' = Inr root'"
    "bucket_tree s' f ot' root' P'" "P' \<subseteq> L'" "tx_pages L' n s'"
    "contents ot' = (if has_room (pg_size s) ot key value bucket then ins_entry key (value, bucket) (contents ot) else contents ot)"
    "db_meta s' = db_meta s" "pg_size s' = pg_size s" "advances s s'" "b = kUserRootBucketId \<longrightarrow> user_sub_map s' = user_sub_map s \<and> sub_bucket_cache s' = sub_bucket_cache s"
    "aside P L b s P' L' s'"
proof -
  let ?s = "AppendPutLog w b key value bucket s"
  have l0: "bucket_tree ?s f ot root P" "tx_pages L (n + pages_to_put ot) ?s" "may_put f (pg_size ?s) ot key value bucket" "tx_open s" "pg_size ?s = pg_size s"
    using assms tx_pages_def[of L "n + pages_to_put ot" s] by (simp_all add: put_log_state)
  from BTree_Put_any[OF l0(1) assms(3) l0(2,3), of b] obtain root' s1 ot' P' L' where p: "BTree_Put bcmp b key value bucket root ?s = Inr (root', s1)"
    "bucket_tree s1 f ot' root' P'" "P' \<subseteq> L'" "tx_pages L' n s1" "paged ?s s1"
    "contents ot' = (if has_room (pg_size s) ot key value bucket then ins_entry key (value, bucket) (contents ot) else contents ot)"
    "spares ?s s1" "confined P L ?s P' L' s1" unfolding l0(5) by blast
  obtain s' where "Bucket_Put w bcmp b key value bucket s = Inr s'" "bucket_root b s' = Inr root'"
    "bucket_tree s' f ot' root' P'" "tx_pages L' n s'" "db_meta s' = db_meta s" "pg_size s' = pg_size s" "advances s s'"
    "b = kUserRootBucketId \<longrightarrow> user_sub_map s' = user_sub_map s \<and> sub_bucket_cache s' = sub_bucket_cache s" "aside P L b s P' L' s'"
    by (rule Bucket_Put_lift[OF HOL.refl assms(1) l0(4) p(1,2,4,5,7,8)])
  then show thesis using that p(3,6) by blast
qed


section \<open>Whether an update is stored\<close>

text \<open>The answer of \<^verbatim>\<open>LeafNode::Update\<close> on the leaf of the key, as the tree is before the call.\<close>

definition update_fits :: "BucketId \<Rightarrow> key \<Rightarrow> byte list \<Rightarrow> ('w, 'a) txn_db_scheme \<Rightarrow> bool" where
  "update_fits b key value s =
     (case bind_res (Bucket_Get bcmp b key s) (\<lambda>it. bind_res (Front it) (\<lambda>(pgid, slot_id). LeafNode_Update pgid slot_id key value s)) of
        Inr (ok, _) \<Rightarrow> ok | Inl _ \<Rightarrow> False)"

lemma update_fits_iff:
  assumes "bucket_root b s = Inr root" "bucket_tree s f ot root P" "may_put f (pg_size s) ot key v k" "map_of (contents ot) key \<noteq> None"
  shows "update_fits b key v s \<longleftrightarrow> has_room (pg_size s) ot key v k"
proof -
  obtain t where t: "ot = Some t" using assms(4) by (cases ot) (simp_all add: contents_def)
  have ke: "key \<in> fst ` set (entries t)" using assms(4) t by (simp add: contents_def map_of_eq_None_iff)
  have sb: "sub s f (height t) t root P" using assms(2) t by (simp add: bucket_tree_def)
  have o: "owns s t root P" "ordered_bt t" "height t < 32" using sb sub_height[OF sb] by (simp_all add: sub_def)
  have se: "small_entry f (pg_size s) (key, v, k)" "0 < length key + length v" using assms(3) by (simp_all add: may_put_def)
  have sk: "short_key key" using se(1) by (simp add: small_entry_def)
  obtain it where it: "BTree_LowerBound bcmp b root key s = Inr it" "iter_wf it" "path_to s t root (trail it)"
    "\<forall>e \<in> set (before t (trail it)). fst e < key" "\<forall>e \<in> set (after t (trail it)). key \<le> fst e"
    "status it = leaf_status key (focus t (trail it)) (snd (last (trail it)))" "on_home t key (trail it)"
    by (rule LowerBound_tree[OF owns_tree[OF o(1)] o(2,3) sk, of b]) blast
  note hs = home_slot[OF sb it(3-5,7) sk ke]
  obtain x where x: "leaf_page s (fst (last (trail it))) x (home t key)" using hs(6) by blast
  have tr: "trail it = butlast (trail it) @ [last (trail it)]" using path_nonempty[OF it(3)] by simp
  have fr: "Front it = Inr (fst (last (trail it)), snd (last (trail it)))" using Front_trail[OF it(2)] path_nonempty[OF it(3)] by simp
  have g: "Bucket_Get bcmp b key s = Inr it" using assms(1) it(1,6) hs(4) by (simp add: Bucket_Get_def BTree_Get_def)
  have fe: "fit_entry (pg_size s) (key, v, k)" using small_entry_fit[OF se(1)] se(2) by simp
  have hr: "has_room (pg_size s) ot key v k \<longleftrightarrow> leaf_cost ((home t key)[snd (last (trail it)) := (key, v, k)]) \<le> pg_size s - 18"
    using ke unfolding has_room_def t hs(3)[of "(v, k)", symmetric] by simp
  show ?thesis
  proof (cases "has_room (pg_size s) ot key v k")
    case True
    then obtain s1 where "LeafNode_Update (fst (last (trail it))) (snd (last (trail it))) key v s = Inr (True, s1)"
      using leaf_update[OF x hs(1) fe] hr by metis
    then show ?thesis using g fr True by (simp add: update_fits_def split_beta)
  next
    case False
    then have "LeafNode_Update (fst (last (trail it))) (snd (last (trail it))) key v s = Inr (False, s)"
      using leaf_update_full[OF x hs(1) fe] hr by blast
    then show ?thesis using g fr False by (simp add: update_fits_def split_beta)
  qed
qed

text \<open>The map after a put: the entry is stored when its key is new or its leaf has room for the update.\<close>

abbreviation put_map where
  "put_map b k v s m \<equiv> (if m k = None \<or> update_fits b k (fst v) s then m(k \<mapsto> v) else m)"

lemma put_map_contents:
  assumes "bucket_root b s = Inr root" "bucket_tree s f ot root P" "may_put f (pg_size s) ot key v k"
    "contents ot' = (if has_room (pg_size s) ot key v k then ins_entry key (v, k) (contents ot) else contents ot)" "m = map_of (contents ot)"
  shows "map_of (contents ot') = put_map b key (v, k) s m"
proof -
  have i: "map_of (ins_entry key (v, k) (contents ot)) = m(key \<mapsto> (v, k))"
    using ins_entry_sorted(3)[OF bucket_tree_sorted[OF assms(2)], of key "(v, k)"] assms(5) by simp
  show ?thesis
  proof (cases "m key")
    case None
    then have "has_room (pg_size s) ot key v k"
      using assms(5) by (cases ot) (auto simp: has_room_def contents_def map_of_eq_None_iff)
    then show ?thesis using None i assms(4) by simp
  next
    case (Some y)
    then have "update_fits b key v s \<longleftrightarrow> has_room (pg_size s) ot key v k" using update_fits_iff[OF assms(1-3)] assms(5) by simp
    then show ?thesis using Some i assms(4,5) by simp
  qed
qed

text \<open>A value that is not longer than the one it replaces is always stored.\<close>

lemma shorter_fits:
  assumes "bucket_root b s = Inr root" "bucket_tree s f ot root P" "may_put f (pg_size s) ot key v k"
    "map_of (contents ot) key = Some (v0, k)" "length v \<le> length v0"
  shows "update_fits b key v s"
proof -
  have "can_put f (pg_size s) ot key v k"
    by (rule can_put_shorter[OF assms(2,4,5)]) (use assms(3) in \<open>simp_all add: may_put_def\<close>)
  then show ?thesis using update_fits_iff[OF assms(1-3)] assms(4) by (simp add: can_put_iff)
qed


text \<open>An update without room: the call returns, and \<^verbatim>\<open>Get\<close> shows the map from before for every key.\<close>

lemma update_lost:
  fixes s :: "('w, 'a) txn_db_scheme"
  assumes "bucket_root b s = Inr root" "bucket_tree s f ot root P" "P \<subseteq> L" "tx_pages L (pages_to_put ot) s" "may_put f (pg_size s) ot key v k"
    "map_of (contents ot) key \<noteq> None" "\<not> update_fits b key v s"
  shows "\<exists>s'. Bucket_Put w bcmp b key v k s = Inr s' \<and> (\<forall>k'. short_key k' \<longrightarrow> get_shows b k' s' (map_of (contents ot) k'))"
proof -
  have nr: "\<not> has_room (pg_size s) ot key v k" using update_fits_iff[OF assms(1,2,5,6)] assms(7) by simp
  have x: "tx_pages L (0 + pages_to_put ot) s" using assms(4) by simp
  obtain s' root' ot' P' where p: "Bucket_Put w bcmp b key v k s = Inr s'" "bucket_root b s' = Inr root'" "bucket_tree s' f ot' root' P'" "contents ot' = contents ot"
    by (rule Bucket_Put_any[OF assms(1-3) x assms(5), of w]) (use nr in simp)
  show ?thesis using Bucket_Get_tree[OF p(2,3)] p(1,4) by (auto simp: get_shows_def)
qed

text \<open>A leaf of 256 bytes with one entry of 111 bytes and two of 2 bytes: one of the two cannot grow to 111.\<close>

definition sample_crowd :: NodeData where
  "sample_crowd = \<lparr>last_modified_txid = 5, node_type = kLeaf, node_count = 3, space_used = 115, data_offset = 141,
     tail_child = 0, slots = (\<lambda>i. \<lparr>record_offset = (if i = 0 then 145 else if i = 1 then 143 else 141), is_overflow_pages = False, key_size = 1,
       is_bucket = False, child_or_size = (if i = 0 then 110 else 1)\<rparr>),
     records = (\<lambda>i. if i = 145 then 1 else if i = 143 then 2 else if i = 141 then 3 else 0)\<rparr>"

definition sample_full :: "byte list list txn_db" where
  "sample_full = sample_txn\<lparr>nodes := (nodes sample_txn)(3 := sample_crowd), update_meta := Some (sample_meta\<lparr>txid := 5, user_root := 3\<rparr>)\<rparr>"

abbreviation sample_full_bt :: bt where
  "sample_full_bt \<equiv> BLeaf [([1], replicate 110 0, False), ([2], [0], False), ([3], [0], False)]"

lemma sample_full_tree:
  "bucket_root kUserRootBucketId sample_full = Inr 3" "bucket_tree sample_full 10 (Some sample_full_bt) 3 {3}" "pg_size sample_full = 256"
  "tx_pages sample_live 200 sample_full"
proof -
  have e: "pg_size sample_full = 256" "nodes sample_full 3 = sample_crowd" "update_meta sample_full = Some (sample_meta\<lparr>txid := 5, user_root := 3\<rparr>)"
    by (simp_all add: sample_full_def sample_wide_def sample_update_def)
  have three: "{..<3::nat} = {0, 1, 2}" by auto
  have z: "mem_read g a n = replicate n 0" if "\<forall>i. a \<le> i \<longrightarrow> g i = 0" for g a n
    by (rule nth_equalityI) (use that in \<open>simp_all add: mem_read_def\<close>)
  have r: "mem_read (records sample_crowd) 146 110 = replicate 110 0" by (rule z) (simp add: sample_crowd_def)
  have r1: "mem_read g a (Suc 0) = [g a]" for g a by (simp add: mem_read_def)
  have v: "leaf_view sample_full 3 [([1], replicate 110 0, False), ([2], [0], False), ([3], [0], False)]"
    using e(1,2) r[unfolded sample_crowd_def]
    by (simp add: leaf_view_def sample_crowd_def kPageMaxCount_def IsLeaf_def GetKey_def GetValue_def GetRecord_def r1 All_less_Suc)
  have i: "inline_node sample_full 3"
    using e(1,2) by (simp add: inline_node_def wf_node_def page_ok_def layout_def sample_crowd_def raw_size_def IsLeaf_def three)
  have o: "owns sample_full sample_full_bt 3 {3}" using v i by (simp add: owns_leaf)
  have "small_bt 10 256 sample_full_bt" by (simp add: small_entry_def entry_cost_def key_bound_def short_key_def)
  then show "bucket_tree sample_full 10 (Some sample_full_bt) 3 {3}" using o e(1) by (simp add: bucket_tree_def sub_def page_ok_def short_key_def)
  show "bucket_root kUserRootBucketId sample_full = Inr 3" by (simp add: bucket_root_def root_place_def update_tx_def e(3))
  show "pg_size sample_full = 256" by (rule e(1))
  have l: "limit sample_full = limit sample_txn" by (simp add: limit_def sample_full_def sample_wide_def sample_update_def sample_meta_def)
  then have "stock sample_full = stock sample_txn" by (rule stock_cong[rotated]) (simp_all add: sample_full_def)
  then show "tx_pages sample_live 200 sample_full" using sample_wide_pages[of "txn_db.fields None []"] l
    by (simp add: sample_full_def tx_pages_def page_inv_def map_inv_def pending_pairs_def tx_open_def)
qed

text \<open>A value of 110 bytes over the one byte of key 2: the put returns and the byte stays.\<close>

lemma sample_full_no_room:
  "may_put 10 (pg_size sample_full) (Some sample_full_bt) [2] (replicate 110 7) False" "\<not> update_fits kUserRootBucketId [2] (replicate 110 7) sample_full"
proof -
  note s = sample_full_tree
  show m: "may_put 10 (pg_size sample_full) (Some sample_full_bt) [2] (replicate 110 7) False"
    by (simp add: s(3) may_put_def contents_def small_entry_def entry_cost_def key_bound_def short_key_def)
  have "\<not> has_room 256 (Some sample_full_bt) [2] (replicate 110 7) False" by (simp add: has_room_def ins_entry_def entry_cost_def)
  then show "\<not> update_fits kUserRootBucketId [2] (replicate 110 7) sample_full" using update_fits_iff[OF s(1,2) m] s(3) by (simp add: contents_def)
qed

lemma update_lost_sample:
  "\<exists>s'. Bucket_Put sample_writer bcmp kUserRootBucketId [2] (replicate 110 7) False sample_full = Inr s' \<and>
     get_shows kUserRootBucketId [2] s' (Some ([0], False)) \<and> get_shows kUserRootBucketId [2] sample_full (Some ([0], False))"
proof -
  note s = sample_full_tree
  have m: "map_of (contents (Some sample_full_bt)) [2] = Some ([0], False)" by (simp add: contents_def)
  have x: "tx_pages sample_live (pages_to_put (Some sample_full_bt)) sample_full" by (rule tx_pages_mono[OF s(4)]) (simp add: pages_to_put_def)
  have l: "{3} \<subseteq> sample_live" "short_key [2]" by (simp_all add: short_key_def)
  obtain s' where "Bucket_Put sample_writer bcmp kUserRootBucketId [2] (replicate 110 7) False sample_full = Inr s'"
    "get_shows kUserRootBucketId [2] s' (map_of (contents (Some sample_full_bt)) [2])"
    using update_lost[OF s(1,2) l(1) x sample_full_no_room(1) _ sample_full_no_room(2), of sample_writer] m l(2) by auto
  moreover have "get_shows kUserRootBucketId [2] sample_full (map_of (contents (Some sample_full_bt)) [2])"
    using Bucket_Get_tree[OF s(1,2) l(2)] by (simp add: get_shows_def)
  ultimately show ?thesis using m by auto
qed


section \<open>Stores whose updates may be lost\<close>

text \<open>The map beside a run: an update changes it when the store takes it.\<close>

fun taken_op :: "('k \<Rightarrow> 'v \<Rightarrow> 's \<Rightarrow> bool) \<Rightarrow> ('k, 'v) store_op \<Rightarrow> 's \<Rightarrow> ('k \<rightharpoonup> 'v) \<Rightarrow> ('k \<rightharpoonup> 'v)" where
  "taken_op takes (Store k v) s m = (if m k = None \<or> takes k v s then m(k \<mapsto> v) else m)"
| "taken_op takes (Remove k) s m = m(k := None)"

fun taken_run :: "('o \<Rightarrow> 's \<Rightarrow> (bool \<times> 's) res) \<Rightarrow> ('o \<Rightarrow> 's \<Rightarrow> 'm \<Rightarrow> 'm) \<Rightarrow> 'o list \<Rightarrow> 's \<Rightarrow> 'm \<Rightarrow> 'm" where
  "taken_run f g [] s m = m"
| "taken_run f g (x # xs) s m = (case f x s of Inr (_, s1) \<Rightarrow> taken_run f g xs s1 (g x s m) | Inl _ \<Rightarrow> m)"

text \<open>What is asked of the operations: any fine entry may be put, over a value of its kind; values of the kind \<open>plain\<close> are deleted.\<close>

fun ops_fit :: "('k \<times> 'v \<Rightarrow> bool) \<Rightarrow> ('k \<Rightarrow> bool) \<Rightarrow> ('v \<Rightarrow> bool) \<Rightarrow> ('k, 'v) store_op list \<Rightarrow> ('k \<rightharpoonup> 'v) \<Rightarrow> bool" where
  "ops_fit fine legal plain [] m \<longleftrightarrow> True"
| "ops_fit fine legal plain (x # xs) m \<longleftrightarrow>
     (case x of Store k v \<Rightarrow> fine (k, v) \<and> (case m k of None \<Rightarrow> True | Some v0 \<Rightarrow> plain v0 = plain v)
      | Remove k \<Rightarrow> legal k \<and> (case m k of None \<Rightarrow> True | Some v0 \<Rightarrow> plain v0)) \<and>
     ops_fit fine legal plain xs (snd (map_op x m))"

text \<open>Every value put over another one is at most as big.\<close>

fun never_grows :: "('v \<Rightarrow> 'v \<Rightarrow> bool) \<Rightarrow> ('k, 'v) store_op list \<Rightarrow> ('k \<rightharpoonup> 'v) \<Rightarrow> bool" where
  "never_grows le [] m \<longleftrightarrow> True"
| "never_grows le (x # xs) m \<longleftrightarrow>
     (case x of Store k v \<Rightarrow> (case m k of None \<Rightarrow> True | Some v0 \<Rightarrow> le v v0) | Remove k \<Rightarrow> True) \<and> never_grows le xs (snd (map_op x m))"

text \<open>Both maps, that of the run and the one with every update, have the same keys with values of the same kinds.\<close>

definition same_kinds :: "('v \<Rightarrow> bool) \<Rightarrow> ('k \<rightharpoonup> 'v) \<Rightarrow> ('k \<rightharpoonup> 'v) \<Rightarrow> bool" where
  "same_kinds plain m m' \<longleftrightarrow> (\<forall>k. map_option plain (m k) = map_option plain (m' k))"

lemma same_kinds_at: "same_kinds plain m m' \<Longrightarrow> map_option plain (m k) = map_option plain (m' k)"
  by (simp add: same_kinds_def)

lemma same_kinds_op:
  assumes "same_kinds plain m m'" "ops_fit fine legal plain [x] m'"
  shows "same_kinds plain (taken_op takes x s m) (snd (map_op x m'))" "fst (map_op x m) = fst (map_op x m')"
proof -
  have k: "map_option plain (m j) = map_option plain (m' j)" for j by (rule same_kinds_at[OF assms(1)])
  have d: "m j = None \<longleftrightarrow> m' j = None" for j using k[of j] by (cases "m j"; cases "m' j") simp_all
  show "fst (map_op x m) = fst (map_op x m')" using d by (cases x) simp_all
  show "same_kinds plain (taken_op takes x s m) (snd (map_op x m'))"
  proof (cases x)
    case (Store j v)
    then have "m' j \<noteq> None \<Longrightarrow> map_option plain (m' j) = Some (plain v)" using assms(2) by (auto split: option.splits)
    then have "m j \<noteq> None \<Longrightarrow> map_option plain (m j) = Some (plain v)" using k[of j] d[of j] by simp
    then show ?thesis using k Store by (simp add: same_kinds_def)
  next
    case (Remove j)
    then show ?thesis using k by (simp add: same_kinds_def)
  qed
qed

text \<open>A store whose put over a key may be lost, which \<open>takes\<close> tells; a value that is not bigger never is.\<close>

locale updating_store =
  fixes holds :: "nat \<Rightarrow> 's \<Rightarrow> ('k \<rightharpoonup> 'v) \<Rightarrow> bool" and fine :: "'k \<times> 'v \<Rightarrow> bool" and legal :: "'k \<Rightarrow> bool"
    and store_put :: "'k \<times> 'v \<Rightarrow> 's \<Rightarrow> 's res" and reads :: "'k \<Rightarrow> 's \<Rightarrow> 'v option \<Rightarrow> bool"
    and store_del :: "'k \<Rightarrow> 's \<Rightarrow> (bool \<times> 's) res" and plain :: "'v \<Rightarrow> bool" and takes :: "'k \<Rightarrow> 'v \<Rightarrow> 's \<Rightarrow> bool" and le :: "'v \<Rightarrow> 'v \<Rightarrow> bool"
  assumes put_any: "holds (Suc n) s m \<Longrightarrow> fine (k, v) \<Longrightarrow> (\<And>v0. m k = Some v0 \<Longrightarrow> plain v0 = plain v) \<Longrightarrow>
      \<exists>s'. store_put (k, v) s = Inr s' \<and> holds n s' (taken_op takes (Store k v) s m)"
    and takes_le: "holds n s m \<Longrightarrow> fine (k, v) \<Longrightarrow> m k = Some v0 \<Longrightarrow> plain v0 = plain v \<Longrightarrow> le v v0 \<Longrightarrow> takes k v s"
    and read_any: "holds n s m \<Longrightarrow> legal k \<Longrightarrow> reads k s (m k)"
    and delete_any: "holds (Suc n) s m \<Longrightarrow> legal k \<Longrightarrow> (\<And>v. m k = Some v \<Longrightarrow> plain v) \<Longrightarrow>
      \<exists>s'. store_del k s = Inr (m k \<noteq> None, s') \<and> holds n s' (m(k := None))"
begin

abbreviation stepping where
  "stepping \<equiv> store_step store_put store_del"

lemma taken_step:
  assumes "holds (Suc n) s m" "ops_fit fine legal plain [x] m"
  shows "\<exists>s'. stepping x s = Inr (fst (map_op x m), s') \<and> holds n s' (taken_op takes x s m)"
proof (cases x)
  case (Store k v)
  then have "fine (k, v)" "\<And>v0. m k = Some v0 \<Longrightarrow> plain v0 = plain v" using assms(2) by (auto split: option.splits)
  from put_any[OF assms(1) this] show ?thesis using Store by auto
next
  case (Remove k)
  then have "legal k" "\<And>v0. m k = Some v0 \<Longrightarrow> plain v0" using assms(2) by (auto split: option.splits)
  from delete_any[OF assms(1) this] show ?thesis using Remove by auto
qed

text \<open>The conditions depend on the kinds only.\<close>

lemma fit_kinds:
  assumes "same_kinds plain m m'" "ops_fit fine legal plain [x] m'"
  shows "ops_fit fine legal plain [x] m"
proof -
  have k: "map_option plain (m j) = map_option plain (m' j)" for j by (rule same_kinds_at[OF assms(1)])
  show ?thesis using assms(2) k[of "case x of Store j v \<Rightarrow> j | Remove j \<Rightarrow> j"] by (cases x) (auto split: option.splits)
qed

lemma taken_holds:
  "holds (n + length xs) s m \<Longrightarrow> same_kinds plain m m' \<Longrightarrow> ops_fit fine legal plain xs m' \<Longrightarrow>
     \<exists>s'. run_res stepping xs s = Inr (fst (map_run xs m'), s') \<and> holds n s' (taken_run stepping (taken_op takes) xs s m)"
proof (induction xs arbitrary: s m m')
  case (Cons x xs)
  have x: "ops_fit fine legal plain [x] m'" "ops_fit fine legal plain xs (snd (map_op x m'))" using Cons.prems(3) by simp_all
  note k = same_kinds_op(1)[OF Cons.prems(2) x(1), of takes s] same_kinds_op(2)[OF Cons.prems(2) x(1)]
  obtain s1 where s1: "stepping x s = Inr (fst (map_op x m'), s1)" "holds (n + length xs) s1 (taken_op takes x s m)"
    using taken_step[of "n + length xs" s m x] fit_kinds[OF Cons.prems(2) x(1)] Cons.prems(1) k(2) by auto
  obtain s' where "run_res stepping xs s1 = Inr (fst (map_run xs (snd (map_op x m'))), s')" "holds n s' (taken_run stepping (taken_op takes) xs s1 (taken_op takes x s m))"
    using Cons.IH[OF s1(2) k(1) x(2)] by blast
  then show ?case using s1(1) by (simp add: case_prod_unfold Let_def)
qed simp

text \<open>When no value grows, every update is taken and the run is that of the map.\<close>

lemma taken_all:
  "holds (n + length xs) s m \<Longrightarrow> ops_fit fine legal plain xs m \<Longrightarrow> never_grows le xs m \<Longrightarrow> taken_run stepping (taken_op takes) xs s m = snd (map_run xs m)"
proof (induction xs arbitrary: s m)
  case (Cons x xs)
  have x: "ops_fit fine legal plain [x] m" "ops_fit fine legal plain xs (snd (map_op x m))" using Cons.prems(2) by simp_all
  have t: "taken_op takes x s m = snd (map_op x m)"
  proof (cases x)
    case (Store k v)
    then show ?thesis using takes_le[OF Cons.prems(1), of k v] x(1) Cons.prems(3) by (auto split: option.splits)
  qed simp
  obtain s1 where s1: "stepping x s = Inr (fst (map_op x m), s1)" "holds (n + length xs) s1 (snd (map_op x m))"
    using taken_step[of "n + length xs" s m x] x(1) Cons.prems(1) t by auto
  then show ?case using Cons.IH[OF s1(2) x(2)] Cons.prems(3) t by (simp add: case_prod_unfold Let_def)
qed simp

lemma taken_reads:
  assumes "holds (n + length xs) s m" "ops_fit fine legal plain xs m"
  shows "\<exists>s'. run_res stepping xs s = Inr (fst (map_run xs m), s') \<and> (\<forall>k. legal k \<longrightarrow> reads k s' (taken_run stepping (taken_op takes) xs s m k))"
proof -
  have "same_kinds plain m m" by (simp add: same_kinds_def)
  from taken_holds[OF assms(1) this assms(2)] show ?thesis using read_any by blast
qed

end

text \<open>On new keys it is the store of \<open>deleting_store\<close>.\<close>

sublocale updating_store \<subseteq> fresh_keys: deleting_store holds fine legal store_put reads store_del plain
proof
  fix n s m k v
  show "holds (Suc n) s m \<Longrightarrow> fine (k, v) \<Longrightarrow> m k = None \<Longrightarrow> \<exists>s'. store_put (k, v) s = Inr s' \<and> holds n s' (m(k \<mapsto> v))"
    using put_any[of n s m k v] by simp
  show "holds n s m \<Longrightarrow> legal k \<Longrightarrow> reads k s (m k)" by (rule read_any)
  show "holds (Suc n) s m \<Longrightarrow> legal k \<Longrightarrow> (\<And>v. m k = Some v \<Longrightarrow> plain v) \<Longrightarrow>
      \<exists>s'. store_del k s = Inr (m k \<noteq> None, s') \<and> holds n s' (m(k := None))"
    by (rule delete_any)
qed

end
