(* ===== verification/Atomkv_Commit_Spec.thy ===== *)
theory Atomkv_Commit_Spec
  imports Atomkv_Bucket_Spec Atomkv_Isolation
begin

text \<open>
  When a commit returns. The list of free and pending pages is written to pages of its own; the commit of a transaction in the mode
  \<^verbatim>\<open>kUpdateInPlace\<close> goes through when the file can grow by these pages and the mapping covers the file, and every
  operation of a transaction keeps it so.
\<close>

section \<open>The pages of the free list\<close>

text \<open>The file can grow by the pages that the longest possible list of its pages takes.\<close>

definition list_room :: "'a pager_db_scheme \<Rightarrow> bool" where
  "list_room s \<longleftrightarrow> limit s + limit s div 32 + 2 \<le> top_page s"

definition backed :: "'a pager_db_scheme \<Rightarrow> bool" where
  "backed s \<longleftrightarrow> covers s \<and> [] \<notin> snd ` set (pending_map s)"

lemma top_pageE:
  assumes "n \<le> top_page s" "0 < n"
  obtains k where "pg_size s = 2 ^ k" "k \<le> 15" "\<not> io_fails s" "n * pg_size s < 4294967296"
proof -
  obtain k where k: "k \<le> 15" "pg_size s = 2 ^ k" "\<not> io_fails s" "n \<le> 4294967295 div pg_size s"
    using assms by (auto simp: top_page_def split: if_splits)
  have "n * pg_size s \<le> (4294967295 div pg_size s) * pg_size s" using k(4) by (intro mult_right_mono) simp_all
  also have "\<dots> \<le> 4294967295" by (rule div_times_less_eq_dividend)
  finally show thesis using that k by simp
qed

lemma length_map_insert: "length (map_insert k v m) \<le> Suc (length m)"
  by (induction k v m rule: map_insert.induct) auto

lemma AllocFromMap_length:
  assumes "AllocFromMap n s = Inr (p, t)"
  shows "length (free_map t) \<le> length (free_map s)"
proof -
  obtain i where i: "find_fit n (free_map s) = Inr i" using assms by (auto simp: AllocFromMap_def bind_res_Inr_iff)
  show ?thesis
  proof (cases "i < length (free_map s)")
    case True
    then obtain fm where fm: "take_run n i (free_map s) = Inr fm" "free_map t = fm"
      using assms i by (auto simp: AllocFromMap_def Let_def bind_res_Inr_iff)
    have "length (erase_at i (free_map s)) = length (free_map s) - 1" using True by (simp add: erase_at_def)
    then have "length fm \<le> length (free_map s)"
      using fm(1) True length_map_insert[of "u32 (fst (free_map s ! i) + n)" "snd (free_map s ! i) - n" "erase_at i (free_map s)"]
      by (auto simp: take_run_def Let_def bind_res_Inr_iff split: if_splits)
    then show ?thesis using fm(2) by simp
  next
    case False
    then show ?thesis using assms i by (simp add: AllocFromMap_def)
  qed
qed

lemma list_pages:
  assumes "k \<le> B" "256 \<le> (ps :: nat)"
  shows "k * 8 div ps + (if k * 8 mod ps = 0 then 0 else 1) \<le> B div 32 + 1"
    "k * 8 \<le> (k * 8 div ps + (if k * 8 mod ps = 0 then 0 else 1)) * ps"
proof -
  have "k * 8 div ps \<le> k * 8 div 256" using assms(2) by (intro div_le_mono2) auto
  also have "\<dots> \<le> B div 32" using assms(1) by (simp add: div_le_mono)
  finally show "k * 8 div ps + (if k * 8 mod ps = 0 then 0 else 1) \<le> B div 32 + 1" by simp
  have g: "r < ps \<Longrightarrow> d * ps + r \<le> (d + (if r = 0 then 0 else 1)) * ps" for d r :: nat by (simp add: add_mult_distrib)
  have "k * 8 mod ps < ps" using assms(2) by (intro mod_less_divisor) simp
  from g[OF this, of "k * 8 div ps"] show "k * 8 \<le> (k * 8 div ps + (if k * 8 mod ps = 0 then 0 else 1)) * ps" by (simp only: div_mult_mod_eq)
qed

lemma Alloc_io_fails:
  assumes "Alloc n s = Inr (p, t)"
  shows "io_fails t = io_fails s"
proof -
  obtain m q s1 where m: "update_tx s = Inr m" and a: "AllocFromMap n s = Inr (q, s1)"
    and t: "t = s1 \<or> (\<exists>s2 k m'. s2 = s1\<lparr>update_meta := Some m'\<rparr> \<and> (t = s2 \<or> Remmap k s2 = Inr t))"
    using assms unfolding Alloc_def Let_def
    by (elim bind_res_pairE bind_res_InrE) (rule that, assumption+, auto elim!: bind_res_InrE split: if_splits)
  have "io_fails s1 = io_fails s" using a by (auto simp: AllocFromMap_def Let_def bind_res_Inr_iff split: if_splits)
  moreover have "Remmap k u = Inr v \<Longrightarrow> io_fails v = io_fails u" for k u v by (auto simp: Remmap_def Let_def bind_res_Inr_iff)
  ultimately show ?thesis using t by fastforce
qed

text \<open>A run for the list, within the mapping.\<close>

lemma Alloc_in_mapping:
  assumes "page_inv L s" "update_meta s = Some m" "covers s" "limit s + n < top_page s" "n = 0 \<Longrightarrow> free_map s = []"
  obtains p t where "Alloc n s = Inr (p, t)" "update_meta t \<noteq> None" "p * pg_size s + n * pg_size s \<le> map_size t" "p * pg_size s < 4294967296"
    "length (free_map t) \<le> length (free_map s)" "pending_map t = pending_map s" "pg_size t = pg_size s"
proof -
  have l: "limit s = page_count m" using assms(2) by (simp add: limit_def)
  obtain k where k: "pg_size s = 2 ^ k" "k \<le> 15" "\<not> io_fails s" "(limit s + n) * pg_size s < 4294967296"
    by (rule top_pageE[of "limit s + n + 1" s]) (use assms(4) in auto)
  have b: "limit s * pg_size s < 4294967296" using k(4) mult_right_mono[of "limit s" "limit s + n" "pg_size s"] by linarith
  have c: "limit s * pg_size s \<le> map_size s" using assms(3) b by (simp add: covers_def)
  have mi: "map_inv s" using assms(1) by (simp add: page_inv_def)
  have "\<exists>p t. Alloc n s = Inr (p, t) \<and> update_meta t \<noteq> None \<and> p * pg_size s + n * pg_size s \<le> map_size t \<and> p * pg_size s < 4294967296 \<and>
      length (free_map t) \<le> length (free_map s)"
    using mi
  proof (cases rule: AllocFromMap_cases[of s n])
    case (fit p fm)
    obtain c where pc: "(p, c) \<in> set (free_map s)" "n \<le> c" using fit(6) by blast
    have n: "n \<noteq> 0"
    proof
      assume "n = 0"
      then show False using assms(5) pc(1) by simp
    qed
    have "p + n \<le> limit s" using pc mi by (fastforce simp: map_inv_def free_ok_def)
    then have "(p + n) * pg_size s \<le> limit s * pg_size s" by (rule mult_right_mono) simp
    then have "p * pg_size s + n * pg_size s \<le> map_size s" "p * pg_size s < 4294967296" using c b by (simp_all add: add_mult_distrib)
    moreover have "Alloc n s = Inr (p, s\<lparr>free_map := fm, alloc_records := alloc_records s @ [(p, n)], debug_free_set := pages_of fm\<rparr>)"
      using fit assms(2) by (simp add: Alloc_def update_tx_def kPageInvalidId_def)
    ultimately show ?thesis using AllocFromMap_length[OF fit(1)] assms(2) by auto
  next
    case none
    show ?thesis
    proof (cases "n = 0")
      case True
      have "Alloc 0 s = Inr (page_count m, s\<lparr>update_meta := Some m\<rparr>)"
        using none(1) assms(2) b c l True page_inv_saved_pairs(1) mult_page_bound(2)[of "page_count m" 0 "pg_size s"] k(1)
        by (simp add: Alloc_def update_tx_def Let_def u32_eq_iff_small throw_if_def)
      then show ?thesis using True b c l by auto
    next
      case False
      have f: "(page_count m + n) * pg_size s < 4294967296" using k(4) l by simp
      have "0 < n" using False by simp
      from Alloc_grows[OF mi assms(2) none(2) this k(1-3) f] obtain t where t: "Alloc n s = Inr (page_count m, t)"
        "update_meta t = Some (m\<lparr>page_count := page_count m + n\<rparr>)" "(page_count m + n) * pg_size s \<le> map_size t" by blast
      have "free_map t = free_map s" using t(1) none(1) assms(2)
        by (auto simp: Alloc_def update_tx_def bind_res_Inr_iff Let_def kPageInvalidId_def Remmap_def split: if_splits)
      then show ?thesis using t b l by (auto simp: add_mult_distrib)
    qed
  qed
  then show thesis using that Alloc_pending Alloc_frame by metis
qed

lemma SaveFreeList_returns:
  assumes "page_inv L s" "update_meta s = Some m" "free_list_pgid m = kPageInvalidId" "256 \<le> pg_size s" "backed s" "list_room s"
  obtains t where "SaveFreeList s = Inr t" "io_fails t = io_fails s"
proof -
  define k where "k = length (saved_pairs s)"
  define n where "n = k * 8 div pg_size s + (if k * 8 mod pg_size s = 0 then 0 else 1)"
  let ?s2 = "s\<lparr>update_meta := Some (m\<lparr>free_list_page_count := n\<rparr>)\<rparr>"
  have ro: "runs_ok (limit s) (saved_pairs s)" "k < 4294967296" using page_inv_saved_pairs[OF assms(1)] by (simp_all add: k_def)
  have kl: "k \<le> limit s" using runs_ok_length[OF ro(1)] by (simp add: k_def)
  have len: "length (free_map s) + sum_list (map (length \<circ> snd) (pending_map s)) = k"
    by (simp add: k_def saved_pairs_def pending_pairs_def length_concat comp_def)
  note lp = list_pages[OF kl assms(4), folded n_def]
  have l2: "limit ?s2 = limit s" using assms(2) by (simp add: limit_def)
  have inv2: "page_inv L ?s2" using assms(1,2) by (subst page_inv_update_meta) (simp_all add: limit_def)
  have cov: "covers ?s2" using assms(5) l2 by (simp add: backed_def covers_def)
  have n32: "u32 n = n" using lp(1) assms(6) by (intro u32_eq_iff_small) (simp add: list_room_def top_page_def kPageMaxCount_def split: if_splits)
  have room: "limit ?s2 + n < top_page ?s2" using lp(1) assms(6) top_page_cong[of ?s2 s] l2 by (simp add: list_room_def)
  have n0: "n = 0 \<Longrightarrow> free_map ?s2 = []" using lp(2) by (auto simp: k_def saved_pairs_def)
  obtain p t where a: "Alloc n ?s2 = Inr (p, t)" "update_meta t \<noteq> None" "p * pg_size ?s2 + n * pg_size ?s2 \<le> map_size t" "p * pg_size ?s2 < 4294967296"
    "length (free_map t) \<le> length (free_map ?s2)" "pending_map t = pending_map ?s2" "pg_size t = pg_size ?s2"
    by (rule Alloc_in_mapping[OF inv2 _ cov room n0]) simp_all
  obtain m3 where m3: "update_meta t = Some m3" using a(2) by blast
  let ?pairs = "free_map t @ concat (map snd (pending_map t))"
  let ?s4 = "t\<lparr>update_meta := Some (m3\<lparr>free_list_pgid := p, free_pair_count := u32 (length ?pairs)\<rparr>)\<rparr>"
  have "length ?pairs \<le> k" using a(5,6) len by (simp add: length_concat comp_def)
  then have "8 * length ?pairs \<le> n * pg_size s" using lp(2) by linarith
  moreover have "GetPtr p 0 ?s4 = p * pg_size s" using a(4,7) by (simp add: GetPtr_def u32_eq_iff_small)
  ultimately have w: "GetPtr p 0 ?s4 + length (concat (map pair_bytes ?pairs)) \<le> map_size ?s4" using a(3) by simp
  have ne: "[] \<notin> snd ` set (pending_map t)" using assms(5) a(6) by (simp add: backed_def)
  have "SaveFreeList s = WriteByBytes p 0 (concat (map pair_bytes ?pairs)) ?s4"
    using assms(2,3) a(1) m3 ne ro(2) n32 len
    by (simp add: SaveFreeList_def update_tx_def Let_def u32_eq_iff_small n_def[symmetric] mult.commute)
  then have s: "SaveFreeList s = Inr (?s4\<lparr>mem := mem_write (mem ?s4) (GetPtr p 0 ?s4) (concat (map pair_bytes ?pairs))\<rparr>)"
    using w by (simp add: WriteByBytes_def)
  have "io_fails t = io_fails s" using Alloc_io_fails[OF a(1)] by simp
  then show thesis using that[OF s] by simp
qed

section \<open>Commit returns\<close>

lemma Commit_returns:
  fixes s :: "('w, 'a) tx_db_scheme"
  assumes "tx_inv L0 L s" "update_meta s = Some m" "no_list s" "mode (options s) = kUpdateInPlace" "backed s" "list_room s"
  obtains t where "TxManager_Commit env s = Inr t"
proof -
  let ?r = "Meta_Reset m s"
  have l: "limit ?r = limit s" using assms(2) by (simp add: limit_def Meta_Reset_def)
  have f: "pg_size ?r = pg_size s" "io_fails ?r = io_fails s" "update_meta ?r = Some m" "map_size ?r = map_size s" "pending_map ?r = pending_map s"
    "page_count (db_meta ?r) = page_count m" "options ?r = options s"
    using assms(2) by (simp_all add: Meta_Reset_def CopyMetaInfo_def)
  have "page_inv L s" "256 \<le> pg_size s" using assms(1) by (simp_all add: tx_inv_def)
  then have inv: "page_inv L ?r" "256 \<le> pg_size ?r" using l f(1) by (simp_all add: page_inv_def map_inv_def Meta_Reset_def pending_pairs_def)
  have fl: "free_list_pgid m = kPageInvalidId" using assms(2,3) by (simp add: no_list_def)
  have "page_count m = limit s" using assms(2) by (simp add: limit_def)
  then have bk: "backed ?r" using assms(5) l f by (simp add: backed_def covers_def)
  have room: "list_room ?r" using assms(6) l top_page_cong[OF f(1,2)] by (simp add: list_room_def)
  obtain u where u: "SaveFreeList ?r = Inr u" "io_fails u = io_fails ?r" by (rule SaveFreeList_returns[OF inv(1) f(3) fl inv(2) bk room])
  have "\<not> io_fails u" using top_pageE[of 1 s] assms(6) u(2) f(2) by (auto simp: list_room_def)
  then show thesis using that u(1) assms(2,4) f(7) by (simp add: TxManager_Commit_def Let_def WriteAllDirtyPages_def throw_if_def)
qed


section \<open>Every step keeps the mapping of the file\<close>

lemma backedI:
  assumes "backed s" "map_size s \<le> map_size t" "pg_size t = pg_size s" "limit t \<in> {limit s, page_count (db_meta s)}"
    "page_count (db_meta t) \<in> {limit s, page_count (db_meta s)}" "set (pending_map t) \<subseteq> set (pending_map s)"
  shows "backed t"
proof -
  have "n * pg_size t \<le> map_size t" if n: "n \<in> {limit t, page_count (db_meta t)}" "n * pg_size t < 4294967296" for n
  proof -
    have "n \<in> {limit s, page_count (db_meta s)}" using n(1) assms(4,5) by auto
    then have "n * pg_size s \<le> map_size s" using assms(1) n(2) unfolding backed_def covers_def assms(3) by blast
    then show ?thesis using assms(2,3) by simp
  qed
  moreover have "[] \<notin> snd ` set (pending_map t)" using assms(1,6) by (auto simp: backed_def)
  ultimately show ?thesis by (simp add: backed_def covers_def)
qed

lemma advances_backed: "advances s t \<Longrightarrow> backed s \<Longrightarrow> backed t"
  by (simp add: advances_def backed_def mapped_def own_pending_def)

lemma backed_views: "backed (s\<lparr>view_tx_map := vm\<rparr>) = backed s"
proof -
  have "limit (s\<lparr>view_tx_map := vm\<rparr>) = limit s" by (cases "update_meta s") (simp_all add: limit_def)
  then show ?thesis by (simp add: backed_def covers_def)
qed

abbreviation footing :: "'a pager_db_scheme \<Rightarrow> nat \<times> nat \<times> MetaStruct \<times> MetaStruct option" where
  "footing s \<equiv> (map_size s, pg_size s, db_meta s, update_meta s)"

lemma footing_FreeToMap: "FreeToMap p c s = Inr t \<Longrightarrow> footing t = footing s \<and> pending_map t = pending_map s"
  by (auto simp: FreeToMap_def Let_def bind_res_Inr_iff split: if_splits)

lemma footing_free_all: "fold_res (\<lambda>pc. FreeToMap (fst pc) (snd pc)) xs s = Inr t \<Longrightarrow> footing t = footing s \<and> pending_map t = pending_map s"
proof (induction xs arbitrary: s)
  case (Cons x xs)
  then obtain u where u: "FreeToMap (fst x) (snd x) s = Inr u" "fold_res (\<lambda>pc. FreeToMap (fst pc) (snd pc)) xs u = Inr t" by (auto simp: bind_res_Inr_iff)
  then show ?case using Cons.IH[OF u(2)] footing_FreeToMap[OF u(1)] by simp
qed simp

lemma footing_release_loop: "release_loop r pm s = Inr t \<Longrightarrow> footing t = footing s \<and> set (pending_map t) \<subseteq> set pm"
proof (induction pm arbitrary: s)
  case (Cons e pm)
  show ?case
  proof (cases "r \<le> fst e")
    case False
    then obtain u where u: "fold_res (\<lambda>pc. FreeToMap (fst pc) (snd pc)) (snd e) s = Inr u" "release_loop r pm u = Inr t"
      using Cons.prems by (auto simp: bind_res_Inr_iff)
    then show ?thesis using Cons.IH[OF u(2)] footing_free_all[OF u(1)] by auto
  qed (use Cons.prems in auto)
qed auto

lemma Update_backed:
  assumes "TxManager_Update w s = Inr t" "backed s"
  shows "backed t"
proof -
  obtain s1 where s1: "ClearPendingMmap (s\<lparr>update_lock := True\<rparr>) = Inr s1" "update_meta s1 = None"
    using assms(1) by (auto simp: TxManager_Update_def bind_res_Inr_iff split: if_splits)
  let ?s2 = "if mode (options s1) = kWal then AppendBeginLog w s1 else s1"
  obtain mv where r: "Release (mv - 1) (?s2\<lparr>update_meta := Some ((CopyMetaInfo (db_meta ?s2) (db_meta ?s2))\<lparr>txid := txid (db_meta ?s2) + 1\<rparr>), min_view_txid := mv\<rparr>) = Inr t"
    using assms(1) s1 by (auto simp: TxManager_Update_def bind_res_Inr_iff Let_def CopyMetaInfo_def split: if_splits)
  have f1: "footing s1 = footing s" "pending_map s1 = pending_map s" using s1(1) by (auto simp: ClearPendingMmap_def split: if_splits)
  have f2: "footing ?s2 = footing s1" "pending_map ?s2 = pending_map s1" by (simp_all add: AppendBeginLog_def AppendLog_def Let_def)
  have "footing t = (map_size s, pg_size s, db_meta s, Some ((CopyMetaInfo (db_meta s) (db_meta s))\<lparr>txid := txid (db_meta s) + 1\<rparr>)) \<and>
      set (pending_map t) \<subseteq> set (pending_map s)"
    using r f1 f2 unfolding Release_def by (auto dest!: footing_release_loop)
  then show ?thesis using assms(2) by (intro backedI[OF assms(2)]) (auto simp: limit_def CopyMetaInfo_def)
qed

lemma SaveFreeList_mapping:
  assumes "SaveFreeList s = Inr t" "update_meta s = Some m" "free_list_pgid m = kPageInvalidId"
  shows "map_size s \<le> map_size t" "pending_map t = pending_map s" "pg_size t = pg_size s"
proof -
  obtain m1 s1 n p s3 m3 mm bs where 0: "update_tx s = Inr m1" "(if free_list_pgid m1 \<noteq> kPageInvalidId
      then Free (free_list_pgid m1) (free_list_page_count m1) s else Inr s) = Inr s1"
    and a: "Alloc n (s1\<lparr>update_meta := Some mm\<rparr>) = Inr (p, s3)" "WriteByBytes p 0 bs (s3\<lparr>update_meta := Some m3\<rparr>) = Inr t"
    using assms(1) unfolding SaveFreeList_def Let_def
    by (elim bind_res_pairE bind_res_InrE) (rule that, assumption+)
  have "s1 = s" using 0 assms(2,3) by (simp add: update_tx_def)
  note 1 = a[unfolded this]
  show "map_size s \<le> map_size t" "pending_map t = pending_map s" "pg_size t = pg_size s"
    using Alloc_mapped[OF 1(1)] Alloc_pending[OF 1(1)] Alloc_frame[OF 1(1)] 1(2) by (auto simp: WriteByBytes_def mapped_def split: if_splits)
qed

lemma Commit_backed:
  fixes s :: "('w, 'a) tx_db_scheme"
  assumes "TxManager_Commit env s = Inr t" "tx_inv L0 L s" "update_meta s = Some m" "no_list s" "mode (options s) = kUpdateInPlace" "backed s"
  shows "backed t"
proof -
  obtain s2 where s2: "SaveFreeList (Meta_Reset m s) = Inr s2" "t = (Meta_Save (fst env) (Meta_Switch s2))\<lparr>update_meta := None, update_lock := False\<rparr>"
    using assms(1,3,5) by (auto simp: TxManager_Commit_def bind_res_Inr_iff Let_def Meta_Reset_def)
  have fl: "update_meta (Meta_Reset m s) = Some m" "free_list_pgid m = kPageInvalidId" using assms(3,4) by (simp_all add: no_list_def Meta_Reset_def)
  note sm = SaveFreeList_mapping[OF s2(1) fl]
  have tf: "map_size t = map_size s2" "pending_map t = pending_map s2" "pg_size t = pg_size s2" by (simp_all add: s2(2) Meta_Save_def Meta_Switch_def Let_def)
  note k = tx_inv_Commit(3,8)[OF assms(2-4,1)]
  show ?thesis
    by (rule backedI[OF assms(6)]) (use k assms(3) sm tf in \<open>simp_all add: limit_def Meta_Reset_def\<close>)
qed

lemma RollBack_backed:
  assumes "TxManager_RollBack env s = Inr t" "mode (options s) = kUpdateInPlace" "backed s"
  shows "backed t"
proof -
  obtain u m where u: "t = u\<lparr>alloc_records := [], update_meta := None, update_lock := False\<rparr>" "update_meta s = Some m"
    "fold_res (\<lambda>pc. FreeToMap (fst pc) (snd pc)) (alloc_records s) (s\<lparr>pending_map := map_erase (txid m) (pending_map s)\<rparr>) = Inr u"
    using assms(1,2) by (auto simp: TxManager_RollBack_def Rollback_def bind_res_Inr_iff update_tx_Inr)
  have "set (map_erase (txid m) (pending_map s)) \<subseteq> set (pending_map s)" by (auto simp: map_erase_def)
  then show ?thesis using footing_free_all[OF u(3)] by (intro backedI[OF assms(3)]) (simp_all add: u(1) limit_def)
qed

end
