(* ===== verification/Atomkv_API.thy ===== *)
theory Atomkv_API
  imports Atomkv_Handles Atomkv_Full_Put Atomkv_Commit_Spec
begin

text \<open>
  Transactions as a program sees them: a store whose committed contents, running update transaction and open
  readers are finite maps.
\<close>

section \<open>What the pager does not touch\<close>

text \<open>The pager leaves the page size and the fields of the components above it alone.\<close>

abbreviation outer :: "'a pager_db_scheme \<Rightarrow> nat \<times> 'a" where
  "outer s \<equiv> (pg_size s, pager_db.more s)"

lemma more_fold_res:
  assumes "\<And>x s t. f x s = Inr t \<Longrightarrow> outer t = outer s"
  shows "fold_res f xs s = Inr t \<Longrightarrow> outer t = outer s"
  by (induction xs arbitrary: s) (auto simp: bind_res_Inr_iff dest!: assms)

lemma more_pager:
  "AllocFromMap n s = Inr (p, t) \<Longrightarrow> outer t = outer s"
  "Remmap k s = Inr t \<Longrightarrow> outer t = outer s"
  "FreeToMap p c s = Inr t \<Longrightarrow> outer t = outer s"
  "Free p c s = Inr t \<Longrightarrow> outer t = outer s"
  "WriteByBytes p k bs s = Inr t \<Longrightarrow> outer t = outer s"
  by (auto simp: AllocFromMap_def Remmap_def FreeToMap_def Free_def WriteByBytes_def Let_def bind_res_Inr_iff split: if_splits)

lemma more_Alloc: "Alloc n s = Inr (p, t) \<Longrightarrow> outer t = outer s"
  by (auto simp: Alloc_def Let_def bind_res_Inr_iff split: if_splits dest!: more_pager(1,2))

lemma more_free_all: "fold_res (\<lambda>pc. FreeToMap (fst pc) (snd pc)) xs s = Inr t \<Longrightarrow> outer t = outer s"
  by (rule more_fold_res[where f = "\<lambda>pc. FreeToMap (fst pc) (snd pc)"]) (rule more_pager(3))

lemma more_release_loop: "release_loop r pm s = Inr t \<Longrightarrow> outer t = outer s"
  by (induction pm arbitrary: s) (auto simp: bind_res_Inr_iff split: if_splits dest!: more_free_all)

lemma more_Release: "Release r s = Inr t \<Longrightarrow> outer t = outer s"
  by (auto simp: Release_def dest!: more_release_loop)

lemma more_Rollback: "Rollback s = Inr t \<Longrightarrow> outer t = outer s"
  by (auto simp: Rollback_def bind_res_Inr_iff dest!: more_free_all)

lemma more_SaveFreeList: "SaveFreeList s = Inr t \<Longrightarrow> outer t = outer s"
  unfolding SaveFreeList_def Let_def
  by (elim bind_res_pairE bind_res_InrE) (auto split: if_splits dest!: more_pager(4,5) more_Alloc)

lemma more_fields:
  fixes s t :: "('w, 'a) tx_db_scheme"
  assumes "outer t = outer s"
  shows "options t = options s" "persisted_txid t = persisted_txid s" "view_tx_map t = view_tx_map s" "pg_size t = pg_size s"
  using assms by (cases s; cases t; simp)+

lemma Update_fields:
  assumes "TxManager_Update w s = Inr t"
  shows "options t = options s" "persisted_txid t = persisted_txid s" "view_tx_map t = view_tx_map s" "pg_size t = pg_size s"
proof -
  obtain s1 s2 m where s1: "ClearPendingMmap (s\<lparr>update_lock := True\<rparr>) = Inr s1" and s2: "s2 = (if mode (options s1) = kWal then AppendBeginLog w s1 else s1)"
    and r: "Release (fst m) (s2\<lparr>update_meta := snd m, min_view_txid := min_view_txid t\<rparr>) = Inr t"
  proof -
    obtain s1 where s1: "ClearPendingMmap (s\<lparr>update_lock := True\<rparr>) = Inr s1" using assms by (auto simp: TxManager_Update_def bind_res_Inr_iff split: if_splits)
    let ?s2 = "if mode (options s1) = kWal then AppendBeginLog w s1 else s1"
    obtain um mv where r: "Release (mv - 1) (?s2\<lparr>update_meta := um, min_view_txid := mv\<rparr>) = Inr t"
      using assms s1 by (auto simp: TxManager_Update_def bind_res_Inr_iff Let_def split: if_splits)
    have "min_view_txid t = mv" using more_Release[OF r] by (cases t; cases "?s2") simp
    then show thesis using that[OF s1 _, of ?s2 "(mv - 1, um)"] r by simp
  qed
  show "options t = options s" "persisted_txid t = persisted_txid s" "view_tx_map t = view_tx_map s" "pg_size t = pg_size s"
    using more_fields[OF more_Release[OF r]] s1 s2
    by (auto simp: ClearPendingMmap_def AppendBeginLog_def AppendLog_def Let_def split: if_splits)
qed

lemma Commit_fields:
  assumes "TxManager_Commit env s = Inr t" "mode (options s) = kUpdateInPlace"
  shows "options t = options s" "persisted_txid t = persisted_txid s" "view_tx_map t = view_tx_map s" "pg_size t = pg_size s"
proof -
  obtain m s2 where s2: "SaveFreeList (Meta_Reset m s) = Inr s2" "t = (Meta_Save (fst env) (Meta_Switch s2))\<lparr>update_meta := None, update_lock := False\<rparr>"
    using assms by (auto simp: TxManager_Commit_def bind_res_Inr_iff Let_def split: option.splits)
  show "options t = options s" "persisted_txid t = persisted_txid s" "view_tx_map t = view_tx_map s" "pg_size t = pg_size s"
    using more_fields[OF more_SaveFreeList[OF s2(1)]] by (simp_all add: s2(2) Meta_Save_def Meta_Switch_def Meta_Reset_def Let_def)
qed

lemma RollBack_fields:
  assumes "TxManager_RollBack env s = Inr t" "mode (options s) = kUpdateInPlace"
  shows "options t = options s" "persisted_txid t = persisted_txid s" "view_tx_map t = view_tx_map s" "pg_size t = pg_size s"
proof -
  obtain s2 where s2: "Rollback s = Inr s2" "t = s2\<lparr>update_meta := None, update_lock := False\<rparr>"
    using assms by (auto simp: TxManager_RollBack_def bind_res_Inr_iff)
  show "options t = options s" "persisted_txid t = persisted_txid s" "view_tx_map t = view_tx_map s" "pg_size t = pg_size s"
    using more_fields[OF more_Rollback[OF s2(1)]] by (simp_all add: s2(2))
qed


section \<open>What an operation keeps for the other versions\<close>

lemma taken_pages:
  assumes "taken s fm ar"
  shows "pages_of fm \<subseteq> pages_of (free_map s)" "pages_of ar = pages_of (alloc_records s) \<union> (pages_of (free_map s) - pages_of fm)"
    "runs_ok B (alloc_records s) \<Longrightarrow> pages_of (free_map s) \<inter> pages_of (alloc_records s) = {} \<Longrightarrow> pages_of (free_map s) \<subseteq> {..<B} \<Longrightarrow> runs_ok B ar"
proof -
  obtain ps where p: "ar = alloc_records s @ ps" "disjoint_runs ps" "\<forall>x \<in> set ps. snd x = 1" "pages_of ps \<subseteq> pages_of (free_map s)"
    "pages_of fm = pages_of (free_map s) - pages_of ps" using assms by (auto simp: taken_def)
  have a: "pages_of ar = pages_of (alloc_records s) \<union> pages_of ps" unfolding p(1) by (auto simp: pages_of_def)
  show "pages_of fm \<subseteq> pages_of (free_map s)" "pages_of ar = pages_of (alloc_records s) \<union> (pages_of (free_map s) - pages_of fm)"
    unfolding a using p(4,5) by blast+
  assume r: "runs_ok B (alloc_records s)" "pages_of (free_map s) \<inter> pages_of (alloc_records s) = {}" "pages_of (free_map s) \<subseteq> {..<B}"
  have d: "run x \<inter> run y = {}" if "x \<in> set (alloc_records s)" "y \<in> set ps" for x y
  proof -
    have "run x \<subseteq> pages_of (alloc_records s)" "run y \<subseteq> pages_of ps" using that by (auto simp: pages_of_def)
    then show ?thesis using p(4) r(2) by blast
  qed
  have "fst x < B" if "x \<in> set ps" for x
  proof -
    have "fst x \<in> run x" using p(3) that by simp
    then show ?thesis using p(4) r(3) that unfolding pages_of_def by blast
  qed
  then have "\<forall>x \<in> set ps. 0 < snd x \<and> fst x + snd x \<le> B" using p(3) by fastforce
  moreover have "disjoint_runs (alloc_records s @ ps)" using r(1) p(2) d unfolding runs_ok_def disjoint_runs_def sorted_wrt_append by blast
  ultimately show "runs_ok B ar" using r(1) unfolding p(1) runs_ok_def by auto
qed

lemma advances_version:
  assumes "advances s s'"
  obtains m m' where "update_meta s = Some m" "update_meta s' = Some m'" "txid m' = txid m" "page_count m \<le> page_count m'" "free_list_pgid m' = free_list_pgid m"
  using assms by (auto simp: advances_def same_version_def)

lemma advances_pending:
  assumes "advances s s'" "update_meta s = Some m" "e \<in> set (pending_map s')"
  shows "e \<in> set (pending_map s) \<or> fst e = txid m"
proof (rule ccontr)
  assume n: "\<not> (e \<in> set (pending_map s) \<or> fst e = txid m)"
  then have "e \<in> set (map_erase (txid m) (pending_map s'))" using assms(3) by (simp add: map_erase_def)
  moreover have "map_erase (txid m) (pending_map s') = map_erase (txid m) (pending_map s)" using assms(1,2) by (simp add: advances_def own_pending_def)
  ultimately have "e \<in> set (map_erase (txid m) (pending_map s))" by simp
  then show False using n by (simp add: map_erase_def)
qed

lemma advances_tx_inv:
  assumes "tx_inv L0 L s" "advances s s'" "page_inv L' s'"
  shows "tx_inv L0 L' s'"
proof -
  obtain m m' where m: "update_meta s = Some m" "update_meta s' = Some m'" "txid m' = txid m" "page_count m \<le> page_count m'"
    by (rule advances_version[OF assms(2)])
  have f: "db_meta s' = db_meta s" "pg_size s' = pg_size s" "view_tx_map s' = view_tx_map s" "taken s (free_map s') (alloc_records s')"
    using assms(2) by (simp_all add: advances_def)
  have op: "others_pending (txid m) s' = others_pending (txid m) s" using assms(2) m(1) by (simp add: others_pending_def advances_def own_pending_def)
  have un: "undo L0 (txid m) s" using assms(1) m(1) by (simp add: tx_inv_def)
  note t = taken_pages[OF f(4)]
  have ds: "pages_of (free_map s) \<inter> pages_of (others_pending (txid m) s) = {}"
    using assms(1) by (auto simp: tx_inv_def page_inv_def pending_pairs_def others_pending_def map_erase_def pages_of_def)
  have ro: "runs_ok (page_count (db_meta s)) (alloc_records s')" by (rule t(3)) (use un in \<open>simp_all add: undo_def\<close>)
  have "undo L0 (txid m) s'" unfolding undo_def op f(1) t(2) using un ro t(1) ds unfolding undo_def by blast
  moreover have "fst e \<le> txid (db_meta s) \<or> fst e = txid m" if "e \<in> set (pending_map s')" for e
    using advances_pending[OF assms(2) m(1) that] assms(1) m(1) by (auto simp: tx_inv_def)
  moreover have "page_count (db_meta s) \<le> page_count m'" using assms(1) m(1,4) by (simp add: tx_inv_def)
  ultimately show ?thesis using assms(1,3) m by (simp add: tx_inv_def f)
qed

lemma advances_snap:
  assumes "tx_inv L0 L s" "snap v X s" "advances s s'"
  shows "snap v X s'"
proof -
  obtain m m' where m: "update_meta s = Some m" "update_meta s' = Some m'" by (rule advances_version[OF assms(3)])
  have f: "db_meta s' = db_meta s" "view_tx_map s' = view_tx_map s" "taken s (free_map s') (alloc_records s')"
    using assms(3) by (simp_all add: advances_def)
  note t = taken_pages(1,2)[OF f(3)]
  have v: "v < txid m" using snap_version[OF assms(1,2)] assms(1) m(1) by (auto simp: tx_inv_def intro: le_less_trans)
  have "v < fst e" if "e \<in> set (pending_map s')" "pages_of (snd e) \<inter> X \<noteq> {}" for e
    using advances_pending[OF assms(3) m(1) that(1)] assms(2) that(2) v by (auto simp: snap_def)
  then show ?thesis using assms(2) m t by (auto simp: snap_def f)
qed

lemma old_not_stock: "tx_inv L0 L s \<Longrightarrow> X \<subseteq> {..<page_count (db_meta s)} \<Longrightarrow> X \<inter> pages_of (free_map s) = {} \<Longrightarrow> X \<inter> stock s = {}"
  by (cases "update_meta s") (auto simp: tx_inv_def stock_def limit_def)

lemma advances_no_list: "no_list s \<Longrightarrow> advances s s' \<Longrightarrow> no_list s'"
  by (auto simp: no_list_def advances_def same_version_def)

text \<open>No page image carries the number of a later transaction.\<close>

definition stamped :: "'a pager_db_scheme \<Rightarrow> TxId \<Rightarrow> bool" where
  "stamped s x \<longleftrightarrow> (\<forall>q. last_modified_txid (nodes s q) \<le> x)"

lemma advances_stamped:
  assumes "stamped s (txid m)" "advances s s'" "update_meta s = Some m"
  shows "stamped s' (txid m)"
proof -
  have "restamped s (nodes s')" using assms(2) by (simp add: advances_def)
  then show ?thesis using assms(1,3) unfolding stamped_def restamped_def by (metis option.inject order_refl)
qed

text \<open>In the mode \<^verbatim>\<open>kUpdateInPlace\<close> every page of an earlier transaction is copied before it is changed.\<close>

lemma needed_in_place:
  assumes "update_meta s = Some m" "persisted_txid s = kTxInvalidId"
  shows "needed s q \<longleftrightarrow> last_modified_txid (nodes s q) < txid m"
proof -
  have "\<not> kTxInvalidId < x" for x using txid_valid[of x] by (metis less_asym not_less_iff_gr_or_eq)
  then show ?thesis using assms by (simp add: needed_def CopyNeeded_def update_tx_def)
qed


section \<open>The tree of a version\<close>

definition kv_tree :: "'a pager_db_scheme \<Rightarrow> nat \<Rightarrow> bt option \<Rightarrow> PageId \<Rightarrow> PageId set \<Rightarrow> bool" where
  "kv_tree s f ot root P \<longleftrightarrow> page_ok (pg_size s) \<and> (case ot of None \<Rightarrow> root = kPageInvalidId \<and> P = {}
     | Some t \<Rightarrow> owns s t root P \<and> ordered_bt t \<and> (t = BLeaf [] \<or> full_leaves t) \<and> small_bt f (pg_size s) t \<and> uniform (height t) t)"

lemma kv_tree_frame:
  assumes "kv_tree s f ot root P" "\<forall>q \<in> P. nodes s' q = nodes s q" "pg_size s' = pg_size s"
  shows "kv_tree s' f ot root P"
  using assms owns_frame[of s _ root P s'] by (auto simp: kv_tree_def split: option.splits)

lemma bucket_kv_tree: "bucket_tree s f ot root P \<Longrightarrow> kv_tree s f ot root P"
  by (auto simp: bucket_tree_def kv_tree_def sub_def split: option.splits)

lemma fresh_up_all:
  "owns s t pid P \<Longrightarrow> (\<forall>q \<in> P. needed s q) \<or> (\<forall>q. \<not> needed s q) \<Longrightarrow> fresh_up s t pid"
proof (induction t arbitrary: pid P rule: bt_kid_induct)
  case (Branch ts t)
  obtain Q where q: "P = insert pid (\<Union>i \<in> {..length ts}. Q i)" "\<forall>i \<le> length ts. owns s (kid ts t i) (kid_page (nodes s pid) i) (Q i)"
    by (rule owns_branchE[OF Branch.prems(1)])
  have "needed s pid \<longrightarrow> needed s (kid_page (nodes s pid) i)" "fresh_up s (kid ts t i) (kid_page (nodes s pid) i)" if i: "i \<le> length ts" for i
  proof -
    have o: "owns s (kid ts t i) (kid_page (nodes s pid) i) (Q i)" "Q i \<subseteq> P" using q i by auto
    then show "needed s pid \<longrightarrow> needed s (kid_page (nodes s pid) i)" using owns_root[OF o(1)] Branch.prems(2) by blast
    show "fresh_up s (kid ts t i) (kid_page (nodes s pid) i)" by (rule Branch.IH[OF i o(1)]) (use Branch.prems(2) o(2) in blast)
  qed
  then show ?case by (simp add: fresh_up.simps(2))
qed simp

lemma kv_bucket_tree:
  assumes "kv_tree s f ot root P" "(\<forall>q \<in> P. needed s q) \<or> (\<forall>q. \<not> needed s q)"
  shows "bucket_tree s f ot root P"
  using assms fresh_up_all[of s _ root P] by (auto simp: bucket_tree_def kv_tree_def sub_def split: option.splits)

lemma kv_tree_root:
  fixes s :: "('w, 'a) tx_db_scheme"
  assumes "kv_tree s f ot root P"
  shows "tree_root s ot root"
proof -
  let ?s = "closed s"
  have "kv_tree ?s f ot root P" by (rule kv_tree_frame[OF assms]) simp_all
  moreover have "\<not> needed ?s q" for q by (simp add: needed_def CopyNeeded_def update_tx_def)
  ultimately have "bucket_tree ?s f ot root P" by (intro kv_bucket_tree) simp_all
  then have r: "tree_root ?s ot root" by (rule bucket_tree_root)
  then show ?thesis
  proof (cases ot)
    case (Some t)
    then have "owns s t root P" using assms by (simp add: kv_tree_def)
    then show ?thesis using r Some owns_tree by (auto simp: tree_root_def)
  qed (simp add: tree_root_def)
qed

text \<open>The map of a version: its root, its number and its pages.\<close>

definition version :: "'a pager_db_scheme \<Rightarrow> nat \<Rightarrow> PageId \<Rightarrow> TxId \<Rightarrow> PageId set \<Rightarrow> (key \<rightharpoonup> byte list \<times> bool) \<Rightarrow> bool" where
  "version s f root x P m \<longleftrightarrow> (\<exists>ot. kv_tree s f ot root P \<and> m = map_of (contents ot)) \<and> (\<forall>q \<in> P. last_modified_txid (nodes s q) \<le> x)"

lemma version_frame:
  assumes "version s f root x P m" "\<forall>q \<in> P. nodes s' q = nodes s q" "pg_size s' = pg_size s"
  shows "version s' f root x P m"
  using assms kv_tree_frame[of s f _ root P s'] unfolding version_def by metis

lemma version_advances:
  assumes "version s f root x P m" "P \<inter> stock s = {}" "advances s s'" "update_meta s = Some mt" "persisted_txid s = kTxInvalidId" "x < txid mt"
  shows "version s' f root x P m"
proof (rule version_frame[OF assms(1)])
  have sp: "spares s s'" "pg_size s' = pg_size s" using assms(3) by (simp_all add: advances_def)
  then show "pg_size s' = pg_size s" by simp
  show "\<forall>q \<in> P. nodes s' q = nodes s q"
  proof
    fix q assume q: "q \<in> P"
    then have "last_modified_txid (nodes s q) < txid mt" using assms(1,6) by (auto simp: version_def intro: le_less_trans)
    then have "needed s q" using needed_in_place[OF assms(4,5)] by simp
    then show "nodes s' q = nodes s q" using sp(1) assms(2) q by (auto simp: spares_def)
  qed
qed

text \<open>What a read transaction shows of its user bucket.\<close>

definition view_shows :: "ViewTx \<Rightarrow> key \<Rightarrow> ('w, 'a) txn_db_scheme \<Rightarrow> (byte list \<times> bool) option \<Rightarrow> bool" where
  "view_shows v k s r \<longleftrightarrow> (\<exists>it. ViewBucket_Get bcmp v (ViewTx_UserBucket v) k s = Inr it \<and> finds it (ViewTx_UserBucket v) k (as_tx v s) r)"

lemma version_view:
  fixes s :: "('w, 'a) txn_db_scheme"
  assumes "version s f (user_root (view_meta v)) x P m" "short_key k"
  shows "view_shows v k s (m k)"
proof -
  obtain ot where t: "kv_tree s f ot (user_root (view_meta v)) P" "m = map_of (contents ot)" using assms(1) by (auto simp: version_def)
  have "kv_tree (as_tx v s) f ot (user_root (view_meta v)) P" by (rule kv_tree_frame[OF t(1)]) (simp_all add: as_tx_def)
  then have r: "tree_root (as_tx v s) ot (user_root (view_meta v))" by (rule kv_tree_root)
  have b: "bucket_root kUserRootBucketId (as_tx v s) = Inr (user_root (view_meta v))"
    by (simp add: bucket_root_def root_place_def update_tx_def as_tx_def)
  show ?thesis using BTree_Get_finds[OF r assms(2), of kUserRootBucketId] b t(2)
    by (auto simp: view_shows_def ViewBucket_Get_def ViewTx_UserBucket_def Bucket_Get_def)
qed


section \<open>Programs over the database\<close>

type_synonym kv_map = "key \<rightharpoonup> byte list \<times> bool"

text \<open>
  The state of the database with what it stands for: the committed map, the map of the running update transaction, and the open
  readers with the map that each of them was opened on.
\<close>

type_synonym ('w, 'a) api_state = "('w, 'a) txn_db_scheme \<times> kv_map \<times> kv_map option \<times> (ViewTx \<times> kv_map) list"

abbreviation reserve :: "'a pager_db_scheme \<Rightarrow> bool" where
  "reserve s \<equiv> 95 \<le> card (stock s)"

text \<open>The key is new or its entry is no bucket; the value may be shorter or longer than the one before.\<close>

definition putable :: "nat \<Rightarrow> nat \<Rightarrow> kv_map \<Rightarrow> key \<Rightarrow> byte list \<Rightarrow> bool" where
  "putable f ps m k val \<longleftrightarrow> (\<forall>v. m k = Some v \<longrightarrow> \<not> snd v) \<and> small_entry f ps (k, val, False) \<and> 0 < length k + length val"

abbreviation plain_key :: "kv_map \<Rightarrow> key \<Rightarrow> bool" where
  "plain_key m k \<equiv> short_key k \<and> (\<forall>v. m k = Some v \<longrightarrow> \<not> snd v)"

text \<open>
  The map after a step is what the step stands for. For a put this is the map with the entry when the key is new or
  \<^verbatim>\<open>LeafNode::Update\<close> finds room in the leaf of the key (\<open>update_fits\<close>), and the old map otherwise:
  then the code drops the value.
\<close>

inductive api_step :: "('c, 'w) wal_env \<Rightarrow> nat \<Rightarrow> ('w, 'a) api_state \<Rightarrow> ('w, 'a) api_state \<Rightarrow> bool" for env f where
  begin_tx: "DB_Update (snd env) s = Inr (True, t) \<Longrightarrow> page_count (db_meta s) \<le> kPageMaxCount \<Longrightarrow> api_step env f (s, M, None, vs) (t, M, Some M, vs)"
| put: "UpdateBucket_Put (snd env) bcmp kUserRootBucketId k val s = Inr t \<Longrightarrow> putable f (pg_size s) m k val \<Longrightarrow> reserve s \<Longrightarrow>
    api_step env f (s, M, Some m, vs) (t, M, Some (put_map kUserRootBucketId k (val, False) s m), vs)"
| del: "UpdateBucket_Delete (snd env) bcmp kUserRootBucketId k s = Inr (r, t) \<Longrightarrow> plain_key m k \<Longrightarrow> reserve s \<Longrightarrow>
    api_step env f (s, M, Some m, vs) (t, M, Some (m(k := None)), vs)"
| commit: "UpdateTx_Commit env bcmp True s = Inr (h, t) \<Longrightarrow> api_step env f (s, M, Some m, vs) (t, m, None, vs)"
| rollback: "UpdateTx_RollBack env True s = Inr (h, t) \<Longrightarrow> api_step env f (s, M, Some m, vs) (t, M, None, vs)"
| drop_tx: "UpdateTx_destroy env True s = Inr t \<Longrightarrow> api_step env f (s, M, Some m, vs) (t, M, None, vs)"
| open_view: "DBImpl_View s = (v, t) \<Longrightarrow> length vs < 4294967295 \<Longrightarrow> api_step env f (s, M, W, vs) (t, M, W, (v, M) # vs)"
| drop_view: "ViewTx_destroy env v s = Inr t \<Longrightarrow> (v, m) \<in> set vs \<Longrightarrow> api_step env f (s, M, W, vs) (t, M, W, remove1 (v, m) vs)"

inductive api_run :: "('c, 'w) wal_env \<Rightarrow> nat \<Rightarrow> ('w, 'a) api_state \<Rightarrow> ('w, 'a) api_state \<Rightarrow> bool" for env f where
  none: "api_run env f c c"
| more_steps: "api_run env f c d \<Longrightarrow> api_step env f d e \<Longrightarrow> api_run env f c e"


section \<open>The invariant\<close>

definition view_holds :: "nat \<Rightarrow> ('w, 'a) tx_db_scheme \<Rightarrow> ViewTx \<Rightarrow> kv_map \<Rightarrow> bool" where
  "view_holds f s v m \<longleftrightarrow> (\<exists>P. version s f (user_root (view_meta v)) (txid (view_meta v)) P m \<and> snap (txid (view_meta v)) P s)"

definition in_place :: "('w, 'a) tx_db_scheme \<Rightarrow> bool" where
  "in_place s \<longleftrightarrow> mode (options s) = kUpdateInPlace \<and> persisted_txid s = kTxInvalidId"

text \<open>The running transaction, on the pages \<open>L\<close>; or none.\<close>

fun tx_state :: "nat \<Rightarrow> ('w, 'a) txn_db_scheme \<Rightarrow> kv_map option \<Rightarrow> PageId set \<Rightarrow> bool" where
  "tx_state f s None L \<longleftrightarrow> update_meta s = None \<and> stamped s (txid (db_meta s) + 1)"
| "tx_state f s (Some m) L \<longleftrightarrow> (\<exists>mt ot P. update_meta s = Some mt \<and> txid mt = txid (db_meta s) + 1 \<and> stamped s (txid mt) \<and> limit s \<le> kPageMaxCount \<and>
     user_sub_map s = None \<and> sub_bucket_cache s = [] \<and> bucket_tree s f ot (user_root mt) P \<and> P \<subseteq> L \<and> m = map_of (contents ot))"

definition committed :: "nat \<Rightarrow> ('w, 'a) txn_db_scheme \<Rightarrow> kv_map \<Rightarrow> PageId set \<Rightarrow> bool" where
  "committed f s M L0 \<longleftrightarrow> (\<exists>P \<subseteq> L0. version s f (user_root (db_meta s)) (txid (db_meta s)) P M)"

abbreviation view_ids :: "(ViewTx \<times> kv_map) list \<Rightarrow> TxId multiset" where
  "view_ids vs \<equiv> mset (map (\<lambda>x. txid (view_meta (fst x))) vs)"

fun api_inv :: "nat \<Rightarrow> ('w, 'a) api_state \<Rightarrow> bool" where
  "api_inv f (s, M, W, vs) \<longleftrightarrow> in_place s \<and> backed s \<and> no_list s \<and> readers (view_ids vs) s \<and> (\<forall>x \<in> set vs. view_holds f s (fst x) (snd x)) \<and>
     (\<exists>L0 L. tx_inv L0 L s \<and> committed f s M L0 \<and> tx_state f s W L)"

text \<open>Steps that leave the pages alone keep the maps of the versions.\<close>

lemma view_holds_frame:
  assumes "view_holds f s v m" "nodes t = nodes s" "pg_size t = pg_size s" "\<And>P. snap (txid (view_meta v)) P s \<Longrightarrow> snap (txid (view_meta v)) P t"
  shows "view_holds f t v m"
proof -
  obtain P where p: "version s f (user_root (view_meta v)) (txid (view_meta v)) P m" "snap (txid (view_meta v)) P s" using assms(1) by (auto simp: view_holds_def)
  have "version t f (user_root (view_meta v)) (txid (view_meta v)) P m" by (rule version_frame[OF p(1)]) (simp_all add: assms)
  then show ?thesis using assms(4)[OF p(2)] by (auto simp: view_holds_def)
qed

lemma api_views_frame:
  assumes "\<forall>x \<in> set vs. view_holds f s (fst x) (snd x)" "nodes t = nodes s" "pg_size t = pg_size s"
    "\<And>v P. snap v P s \<Longrightarrow> v \<in># view_ids vs \<Longrightarrow> snap v P t"
  shows "\<forall>x \<in> set vs. view_holds f t (fst x) (snd x)"
proof
  fix x assume x: "x \<in> set vs"
  then have "txid (view_meta (fst x)) \<in># view_ids vs" by auto
  then show "view_holds f t (fst x) (snd x)" using assms(4) by (intro view_holds_frame[OF assms(1)[rule_format, OF x] assms(2,3)]) blast
qed

lemma tx_inv_pg: "tx_inv L0 L s \<Longrightarrow> page_inv L s"
  by (simp add: tx_inv_def)

lemma committed_frame:
  assumes "committed f s M L0" "nodes t = nodes s" "pg_size t = pg_size s" "user_root (db_meta t) = user_root (db_meta s)" "txid (db_meta t) = txid (db_meta s)"
  shows "committed f t M L0"
proof -
  obtain P where p: "P \<subseteq> L0" "version s f (user_root (db_meta s)) (txid (db_meta s)) P M" using assms(1) by (auto simp: committed_def)
  have "version t f (user_root (db_meta s)) (txid (db_meta s)) P M" by (rule version_frame[OF p(2)]) (simp_all add: assms)
  then show ?thesis using p(1) assms(4,5) by (auto simp: committed_def)
qed


section \<open>Each step keeps the invariant\<close>

text \<open>Beginning a transaction.\<close>

lemma api_begin:
  assumes "DB_Update w s = Inr (True, t)" "page_count (db_meta s) \<le> kPageMaxCount" "api_inv f (s, M, None, vs)"
  shows "api_inv f (t, M, Some M, vs)"
proof -
  obtain u where u: "TxManager_Update w s = Inr u" "t = TxImpl_init u"
    using assms(1) by (auto simp: DB_Update_def DBImpl_Update_def bind_res_Inr_iff)
  obtain L0 L where i: "in_place s" "no_list s" "readers (view_ids vs) s" "\<forall>x \<in> set vs. view_holds f s (fst x) (snd x)" "tx_inv L0 L s" "committed f s M L0"
    "update_meta s = None" "stamped s (txid (db_meta s) + 1)" and bs: "backed s" using assms(3) by auto
  note k = tx_inv_Update[OF i(5) u(1)] and fu = Update_fields[OF u(1)]
  obtain mt where mt: "update_meta u = Some mt" using k(8) by blast
  have n: "txid mt = txid (db_meta s) + 1" "user_root mt = user_root (db_meta s)" "page_count mt = page_count (db_meta s)" using k(9,10)[OF mt] by simp_all
  have sc: "same_core u t" unfolding u(2) TxImpl_init_def by (simp add: same_core_def mt)
  have tf: "nodes t = nodes s" "pg_size t = pg_size s" "db_meta t = db_meta s" "update_meta t = Some mt" "persisted_txid t = persisted_txid s" "options t = options s"
    "view_tx_map t = view_tx_map s" "user_sub_map t = None" "sub_bucket_cache t = []"
    using fu k(5,11) mt by (simp_all add: u(2) TxImpl_init_def)
  have lt: "txid (db_meta s) < txid mt" using k(1) mt k(11) by (simp add: tx_inv_def)
  have bt: "backed t"
  proof -
    have "limit t = limit u" by (simp add: u(2) TxImpl_init_def limit_def mt)
    then show ?thesis using Update_backed[OF u(1) bs] by (simp add: u(2) TxImpl_init_def backed_def covers_def)
  qed
  have inv: "tx_inv L L t" using k(1) same_core_tx_inv[OF sc] by simp
  have "in_place t" "no_list t" "readers (view_ids vs) t"
    using i(1-3) k(3)[OF i(2)] tf mt by (simp_all add: in_place_def readers_def no_list_def)
  moreover have "\<forall>x \<in> set vs. view_holds f t (fst x) (snd x)"
    by (rule api_views_frame[OF i(4) tf(1,2)]) (use k(2) same_core_snap[OF sc] in blast)
  moreover have "committed f t M L" by (rule committed_frame[OF _ tf(1,2)]) (use i(6) k(4) tf in simp_all)
  moreover have "tx_state f t (Some M) L"
  proof -
    obtain P ot where P: "P \<subseteq> L0" "kv_tree s f ot (user_root (db_meta s)) P" "M = map_of (contents ot)" "\<forall>q \<in> P. last_modified_txid (nodes s q) \<le> txid (db_meta s)"
      using i(6) by (auto simp: committed_def version_def)
    have kv: "kv_tree t f ot (user_root mt) P" unfolding n(2) by (rule kv_tree_frame[OF P(2)]) (simp_all add: tf)
    have pt: "persisted_txid t = kTxInvalidId" using tf(5) i(1) by (simp add: in_place_def)
    have "\<forall>q \<in> P. needed t q" using needed_in_place[OF tf(4) pt] P(4) lt tf(1) by (auto intro: le_less_trans)
    then have "bucket_tree t f ot (user_root mt) P" by (intro kv_bucket_tree[OF kv]) blast
    moreover have "stamped t (txid mt)" using i(8) n(1) tf(1) by (simp add: stamped_def)
    moreover have "limit t \<le> kPageMaxCount" using assms(2) n(3) tf(4) by (simp add: limit_def)
    ultimately show ?thesis using P(1,3) k(4) tf n(1) by auto
  qed
  ultimately show ?thesis using inv bt unfolding api_inv.simps by blast
qed

text \<open>An operation of the transaction, which leaves the other versions alone.\<close>

lemma api_advance:
  assumes "api_inv f (s, M, Some m, vs)" "advances s t" "tx_inv L0 L s" "committed f s M L0"
    "user_sub_map t = user_sub_map s" "sub_bucket_cache t = sub_bucket_cache s" "update_meta t = Some mt'"
    "bucket_tree t f ot (user_root mt') P" "P \<subseteq> L'" "tx_pages L' 0 t" "tx_state f s (Some m) L"
  shows "api_inv f (t, M, Some (map_of (contents ot)), vs)"
proof -
  obtain mt where mt: "update_meta s = Some mt" "stamped s (txid mt)" "limit s \<le> kPageMaxCount" "user_sub_map s = None" "sub_bucket_cache s = []" "txid mt = txid (db_meta s) + 1"
    using assms(11) by auto
  have i: "in_place s" "no_list s" "readers (view_ids vs) s" "\<forall>x \<in> set vs. view_holds f s (fst x) (snd x)" "backed s" using assms(1) by simp_all
  have f: "db_meta t = db_meta s" "options t = options s" "persisted_txid t = persisted_txid s" "view_tx_map t = view_tx_map s" "persisted_txid s = kTxInvalidId"
    using assms(2) i(1) by (simp_all add: advances_def in_place_def)
  have ti: "txid mt' = txid mt" using assms(2,7) mt(1) by (auto simp: advances_def same_version_def)
  have lt: "txid (db_meta s) < txid mt" using assms(3) mt(1) by (simp add: tx_inv_def)
  have inv: "tx_inv L0 L' t" by (rule advances_tx_inv[OF assms(3,2)]) (use assms(10) in \<open>simp add: tx_pages_def\<close>)
  have views: "view_holds f t (fst x) (snd x)" if x: "x \<in> set vs" for x
  proof -
    let ?v = "view_meta (fst x)"
    obtain P where P: "version s f (user_root ?v) (txid ?v) P (snd x)" "snap (txid ?v) P s" using i(4) x by (auto simp: view_holds_def)
    have "txid ?v < txid mt" using snap_version[OF assms(3) P(2)] lt by (auto intro: le_less_trans)
    then have "version t f (user_root ?v) (txid ?v) P (snd x)"
      by (intro version_advances[OF P(1) _ assms(2) mt(1) f(5)]) (use P(2) old_not_stock[OF assms(3)] in \<open>simp_all add: snap_def\<close>)
    then show ?thesis using advances_snap[OF assms(3) P(2) assms(2)] by (auto simp: view_holds_def)
  qed
  have "committed f t M L0"
  proof -
    obtain P where P: "P \<subseteq> L0" "version s f (user_root (db_meta s)) (txid (db_meta s)) P M" using assms(4) by (auto simp: committed_def)
    have "P \<inter> stock s = {}" by (rule old_not_stock[OF assms(3)]) (use assms(3) mt(1) P(1) in \<open>auto simp: tx_inv_def undo_def\<close>)
    then have "version t f (user_root (db_meta s)) (txid (db_meta s)) P M" by (intro version_advances[OF P(2) _ assms(2) mt(1) f(5) lt])
    then show ?thesis using P(1) f(1) by (auto simp: committed_def)
  qed
  moreover have "in_place t" "readers (view_ids vs) t" using i(1,3) f by (simp_all add: in_place_def readers_def)
  moreover have "stamped t (txid mt')" using advances_stamped[OF mt(2) assms(2) mt(1)] ti by simp
  moreover have "limit t \<le> kPageMaxCount" using assms(10) by (simp add: tx_pages_def)
  ultimately show ?thesis using views inv advances_backed[OF assms(2) i(5)] advances_no_list[OF i(2) assms(2)] assms(5-9) mt(4-6) ti f(1) by auto
qed


lemma tx_state_parts:
  assumes "tx_state f s (Some m) L" "tx_inv L0 L s" "n \<le> card (stock s)"
  obtains mt ot P where "update_meta s = Some mt" "bucket_root kUserRootBucketId s = Inr (user_root mt)" "bucket_tree s f ot (user_root mt) P" "P \<subseteq> L"
    "m = map_of (contents ot)" "tx_pages L n s"
proof -
  obtain mt ot P where t: "update_meta s = Some mt" "limit s \<le> kPageMaxCount" "bucket_tree s f ot (user_root mt) P" "P \<subseteq> L" "m = map_of (contents ot)"
    using assms(1) by auto
  have "bucket_root kUserRootBucketId s = Inr (user_root mt)" using t(1) by (simp add: bucket_root_def root_place_def update_tx_def)
  moreover have "tx_pages L n s" using t(1,2) tx_inv_pg[OF assms(2)] assms(3) by (simp add: tx_pages_def tx_open_def)
  ultimately show thesis using that t by blast
qed

lemma user_root_meta: "bucket_root kUserRootBucketId t = Inr r \<Longrightarrow> \<exists>m. update_meta t = Some m \<and> r = user_root m"
  by (auto simp: bucket_root_def root_place_def update_tx_def bind_res_Inr_iff split: option.splits)

lemma api_put:
  assumes "api_inv f (s, M, Some m, vs)" "putable f (pg_size s) m k val" "reserve s"
  shows "\<exists>t. UpdateBucket_Put w bcmp kUserRootBucketId k val s = Inr t \<and> advances s t \<and>
    api_inv f (t, M, Some (put_map kUserRootBucketId k (val, False) s m), vs)"
proof -
  obtain L0 L where i: "tx_inv L0 L s" "committed f s M L0" "tx_state f s (Some m) L" using assms(1) unfolding api_inv.simps by blast
  obtain mt ot P where t: "update_meta s = Some mt" "bucket_root kUserRootBucketId s = Inr (user_root mt)" "bucket_tree s f ot (user_root mt) P" "P \<subseteq> L"
    "m = map_of (contents ot)" "tx_pages L 95 s" by (rule tx_state_parts[OF i(3,1) assms(3)])
  have "\<forall>e \<in> set (contents ot). fst e = k \<longrightarrow> \<not> snd (snd e)" by (rule plain_contents[OF t(3)]) (use assms(2) t(5) in \<open>simp add: putable_def\<close>)
  then have mp: "may_put f (pg_size s) ot k val False" using assms(2) by (simp add: putable_def may_put_def)
  have "pages_to_put ot \<le> 95" using bucket_height t(3) by (fastforce simp: pages_to_put_def split: option.splits)
  then have x: "tx_pages L (0 + pages_to_put ot) s" by (intro tx_pages_mono[OF t(6)]) simp
  obtain s' root' ot' P' L' where p: "Bucket_Put w bcmp kUserRootBucketId k val False s = Inr s'" "bucket_root kUserRootBucketId s' = Inr root'"
    "bucket_tree s' f ot' root' P'" "P' \<subseteq> L'" "tx_pages L' 0 s'"
    "contents ot' = (if has_room (pg_size s) ot k val False then ins_entry k (val, False) (contents ot) else contents ot)"
    "advances s s'" "kUserRootBucketId = kUserRootBucketId \<longrightarrow> user_sub_map s' = user_sub_map s \<and> sub_bucket_cache s' = sub_bucket_cache s"
    by (rule Bucket_Put_any[OF t(2,3,4) x mp])
  obtain mt' where m': "update_meta s' = Some mt'" "root' = user_root mt'" using user_root_meta[OF p(2)] by blast
  have "api_inv f (s', M, Some (map_of (contents ot')), vs)"
    by (rule api_advance[OF assms(1) p(7) i(1,2) _ _ m'(1) _ p(4,5) i(3)]) (use p(3,8) m'(2) in simp_all)
  then have "api_inv f (s', M, Some (put_map kUserRootBucketId k (val, False) s m), vs)" unfolding put_map_contents[OF t(2,3) mp p(6) t(5)] .
  then show ?thesis using p(1,7) by (simp add: UpdateBucket_Put_def)
qed

lemma api_del:
  assumes "api_inv f (s, M, Some m, vs)" "plain_key m k" "reserve s" "10 \<le> f"
  shows "\<exists>t. UpdateBucket_Delete w bcmp kUserRootBucketId k s = Inr (m k \<noteq> None, t) \<and> advances s t \<and> api_inv f (t, M, Some (m(k := None)), vs)"
proof -
  obtain L0 L where i: "tx_inv L0 L s" "committed f s M L0" "tx_state f s (Some m) L" using assms(1) unfolding api_inv.simps by blast
  obtain mt ot P where t: "update_meta s = Some mt" "bucket_root kUserRootBucketId s = Inr (user_root mt)" "bucket_tree s f ot (user_root mt) P" "P \<subseteq> L"
    "m = map_of (contents ot)" "tx_pages L 95 s" by (rule tx_state_parts[OF i(3,1) assms(3)])
  have pl: "\<forall>e \<in> set (contents ot). fst e = k \<longrightarrow> \<not> snd (snd e)" by (rule plain_contents[OF t(3)]) (use assms(2) t(5) in auto)
  have "pages_to_delete ot \<le> 95" using bucket_height t(3) by (fastforce simp: pages_to_delete_def split: option.splits)
  then have x: "tx_pages L (0 + pages_to_delete ot) s" by (intro tx_pages_mono[OF t(6)]) simp
  have sk: "short_key k" using assms(2) by simp
  obtain s' root' ot' P' L' where p: "Bucket_Delete w bcmp kUserRootBucketId k s = Inr (k \<in> fst ` set (contents ot), s')" "bucket_root kUserRootBucketId s' = Inr root'"
    "bucket_tree s' f ot' root' P'" "P' \<subseteq> L'" "tx_pages L' 0 s'" "contents ot' = filter (\<lambda>e. fst e \<noteq> k) (contents ot)"
    "advances s s'" "kUserRootBucketId = kUserRootBucketId \<longrightarrow> user_sub_map s' = user_sub_map s \<and> sub_bucket_cache s' = sub_bucket_cache s"
    by (rule Bucket_Delete_result[OF t(2,3,4) x sk assms(4) pl])
  obtain mt' where m': "update_meta s' = Some mt'" "root' = user_root mt'" using user_root_meta[OF p(2)] by blast
  have "m(k := None) = map_of (contents ot')" unfolding p(6) t(5) by (rule map_of_delete[symmetric])
  moreover have "(k \<in> fst ` set (contents ot)) = (m k \<noteq> None)" unfolding t(5) by (simp add: map_of_eq_None_iff)
  moreover have "api_inv f (s', M, Some (map_of (contents ot')), vs)"
    by (rule api_advance[OF assms(1) p(7) i(1,2) _ _ m'(1) _ p(4,5) i(3)]) (use p(3,8) m'(2) in simp_all)
  ultimately show ?thesis using p(1,7) by (simp add: UpdateBucket_Delete_def)
qed


text \<open>Ending the transaction.\<close>

lemma Commit_no_sub_buckets:
  assumes "user_sub_map s = None" "sub_bucket_cache s = []"
  shows "UpdateTx_Commit env cmp True s = bind_res (TxManager_Commit env s) (\<lambda>t. Inr (False, t))"
  using assms by (simp add: UpdateTx_Commit_def TxImpl_Commit_def put_roots_def sub_map_def)

lemma api_commit:
  assumes "UpdateTx_Commit env bcmp True s = Inr (h, t)" "api_inv f (s, M, Some m, vs)"
  shows "api_inv f (t, m, None, vs)"
proof -
  obtain L0 L where i: "in_place s" "no_list s" "readers (view_ids vs) s" "\<forall>x \<in> set vs. view_holds f s (fst x) (snd x)"
    "tx_inv L0 L s" "tx_state f s (Some m) L" "backed s" using assms(2) unfolding api_inv.simps by blast
  obtain mt ot P where t: "update_meta s = Some mt" "stamped s (txid mt)" "user_sub_map s = None" "sub_bucket_cache s = []"
    "bucket_tree s f ot (user_root mt) P" "P \<subseteq> L" "m = map_of (contents ot)" using i(6) by auto
  have c: "TxManager_Commit env s = Inr t" using assms(1) unfolding Commit_no_sub_buckets[OF t(3,4)] by (auto simp: bind_res_Inr_iff)
  have md: "mode (options s) = kUpdateInPlace" using i(1) by (simp add: in_place_def)
  note k = tx_inv_Commit[OF i(5) t(1) i(2) c] and cf = Commit_fields[OF c md]
  have "committed f t m L"
    unfolding committed_def version_def
  proof (intro exI[of _ P] conjI exI[of _ ot])
    show "kv_tree t f ot (user_root (db_meta t)) P" unfolding k(7) by (rule kv_tree_frame[OF bucket_kv_tree[OF t(5)]]) (simp_all add: k(6) cf(4))
    show "\<forall>q \<in> P. last_modified_txid (nodes t q) \<le> txid (db_meta t)" using t(2) k(5,6) by (simp add: stamped_def)
  qed (use t(6,7) in simp_all)
  moreover have "in_place t" "readers (view_ids vs) t" using i(1,3) cf by (simp_all add: in_place_def readers_def)
  moreover have "\<forall>x \<in> set vs. view_holds f t (fst x) (snd x)" by (rule api_views_frame[OF i(4) k(6) cf(4)]) (use k(2) in blast)
  moreover have "tx_state f t None L"
  proof -
    have "txid mt < kTxInvalidId" using i(5) t(1) by (simp add: tx_inv_def)
    from txid_succ[OF this] show ?thesis using k(3,5,6) t(2) by (auto simp: stamped_def intro: order_trans less_imp_le)
  qed
  ultimately show ?thesis using k(1,4) Commit_backed[OF c i(5) t(1) i(2) md i(7)] unfolding api_inv.simps by blast
qed

lemma api_commit_returns:
  assumes "api_inv f (s, M, Some m, vs)" "list_room s"
  shows "\<exists>t. UpdateTx_Commit env bcmp True s = Inr (False, t)"
proof -
  obtain L0 L where i: "in_place s" "no_list s" "tx_inv L0 L s" "tx_state f s (Some m) L" "backed s" using assms(1) unfolding api_inv.simps by blast
  obtain mt where t: "update_meta s = Some mt" "user_sub_map s = None" "sub_bucket_cache s = []" using i(4) by auto
  obtain u where "TxManager_Commit env s = Inr u"
    by (rule Commit_returns[OF i(3) t(1) i(2) _ i(5) assms(2)]) (use i(1) in \<open>simp add: in_place_def\<close>)
  then show ?thesis unfolding Commit_no_sub_buckets[OF t(2,3)] by simp
qed

lemma api_rollback:
  assumes "TxManager_RollBack env s = Inr t" "api_inv f (s, M, Some m, vs)"
  shows "api_inv f (t, M, None, vs)"
proof -
  obtain L0 L where i: "in_place s" "no_list s" "readers (view_ids vs) s" "\<forall>x \<in> set vs. view_holds f s (fst x) (snd x)"
    "tx_inv L0 L s" "committed f s M L0" "tx_state f s (Some m) L" "backed s" using assms(2) unfolding api_inv.simps by blast
  obtain mt where t: "update_meta s = Some mt" "txid mt = txid (db_meta s) + 1" "stamped s (txid mt)" using i(7) by auto
  have md: "mode (options s) = kUpdateInPlace" using i(1) by (simp add: in_place_def)
  note k = tx_inv_RollBack[OF i(5) t(1) i(2) assms(1)] and cf = RollBack_fields[OF assms(1) md]
  have "committed f t M L0" by (rule committed_frame[OF i(6) k(5) cf(4) k(6,8)])
  moreover have "in_place t" "readers (view_ids vs) t" using i(1,3) cf by (simp_all add: in_place_def readers_def)
  moreover have "\<forall>x \<in> set vs. view_holds f t (fst x) (snd x)" by (rule api_views_frame[OF i(4) k(5) cf(4)]) (use k(2) in blast)
  moreover have "tx_state f t None L0" using k(3,5,8) t(2,3) by (simp add: stamped_def)
  ultimately show ?thesis using k(1,4) RollBack_backed[OF assms(1) md i(8)] unfolding api_inv.simps by blast
qed

text \<open>Readers.\<close>

lemma DBImpl_View_result:
  assumes "DBImpl_View s = (v, t)"
  shows "TxManager_View s = (db_meta s, t)" "user_root (view_meta v) = user_root (db_meta s)" "txid (view_meta v) = txid (db_meta s)"
    "\<exists>vm. t = s\<lparr>view_tx_map := vm\<rparr>"
  using assms by (auto simp: DBImpl_View_def TxManager_View_def Let_def CopyMetaInfo_def)

lemma tx_state_views: "tx_state f (s\<lparr>view_tx_map := vm\<rparr>) W L = tx_state f s W L"
proof -
  let ?t = "s\<lparr>view_tx_map := vm\<rparr>"
  have n: "needed ?t q = needed s q" for q by (simp add: needed_def CopyNeeded_def IsTxExpired_def update_tx_def)
  have l: "limit ?t = limit s" by (cases "update_meta s") (simp_all add: limit_def)
  have "stock ?t = stock s" by (rule stock_cong[OF _ l]) simp_all
  with l have "same_tx s ?t" by (simp add: same_tx_def same_pages_def CopyNeeded_def IsTxExpired_def update_tx_def tx_pages_def page_inv_def map_inv_def pending_pairs_def tx_open_def)
  then have "bucket_tree ?t f ot root P = bucket_tree s f ot root P" for ot root P by (rule same_tx_tree)
  then show ?thesis using l by (cases W) (simp_all add: stamped_def)
qed

lemma api_view:
  assumes "DBImpl_View s = (v, t)" "length vs < 4294967295" "api_inv f (s, M, W, vs)"
  shows "api_inv f (t, M, W, (v, M) # vs)"
proof -
  obtain L0 L where i: "in_place s" "no_list s" "readers (view_ids vs) s" "\<forall>x \<in> set vs. view_holds f s (fst x) (snd x)"
    "tx_inv L0 L s" "committed f s M L0" "tx_state f s W L" "backed s" using assms(3) unfolding api_inv.simps by blast
  note r = DBImpl_View_result[OF assms(1)]
  obtain vm where vm: "t = s\<lparr>view_tx_map := vm\<rparr>" using r(4) by blast
  note k = tx_inv_View[OF i(5) r(1)]
  have tf: "nodes t = nodes s" "pg_size t = pg_size s" "db_meta t = db_meta s" by (simp_all add: vm)
  have "readers (view_ids ((v, M) # vs)) t" using readers_View(1)[OF i(3) r(1)] assms(2) r(3) by simp
  moreover have cm: "committed f t M L0" by (rule committed_frame[OF i(6) tf(1,2)]) (simp_all add: tf)
  moreover have "view_holds f t v M"
  proof -
    obtain P where P: "P \<subseteq> L0" "version t f (user_root (db_meta t)) (txid (db_meta t)) P M" using cm by (auto simp: committed_def)
    have "snap (txid (db_meta s)) P t" using k(4) P(1) unfolding snap_def by blast
    then show ?thesis using P(2) r(2,3) tf(3) by (auto simp: view_holds_def)
  qed
  moreover have "\<forall>x \<in> set vs. view_holds f t (fst x) (snd x)" by (rule api_views_frame[OF i(4) tf(1,2)]) (use k(3) in blast)
  moreover have "in_place t" "no_list t" using i(1,2) by (simp_all add: vm in_place_def no_list_def)
  moreover have "tx_state f t W L" using i(7) tx_state_views unfolding vm by blast
  moreover have "backed t" using i(8) backed_views unfolding vm by blast
  ultimately show ?thesis using k(1) unfolding api_inv.simps by auto
qed

lemma api_end_view:
  assumes "ViewTx_destroy env v s = Inr t" "(v, m) \<in> set vs" "api_inv f (s, M, W, vs)"
  shows "api_inv f (t, M, W, remove1 (v, m) vs)"
proof -
  obtain L0 L where i: "in_place s" "no_list s" "readers (view_ids vs) s" "\<forall>x \<in> set vs. view_holds f s (fst x) (snd x)"
    "tx_inv L0 L s" "committed f s M L0" "tx_state f s W L" "backed s" using assms(3) unfolding api_inv.simps by blast
  let ?x = "txid (view_meta v)" and ?vs = "remove1 (v, m) vs"
  have rb: "TxManager_RollBackView ?x s = Inr t" using assms(1) by (simp add: ViewTx_destroy_def TxImpl_RollBack_def)
  have "?x \<in># view_ids vs" using assms(2) by force
  then obtain t' where t': "TxManager_RollBackView ?x s = Inr t'" "readers (view_ids vs - {#?x#}) t'" "t' = s\<lparr>view_tx_map := view_tx_map t'\<rparr>"
    by (rule readers_RollBackView[OF i(3)])
  then have rd: "readers (view_ids vs - {#?x#}) t" "t = s\<lparr>view_tx_map := view_tx_map t\<rparr>" using rb by simp_all
  have "mset vs = add_mset (v, m) (mset ?vs)" using assms(2) by simp
  from arg_cong[OF this, of "image_mset (\<lambda>x. txid (view_meta (fst x)))"]
  have ids: "view_ids vs - {#?x#} = view_ids ?vs" by (simp del: mset_remove1)
  have tf: "nodes t = nodes s" "pg_size t = pg_size s" "db_meta t = db_meta s" by (subst rd(2), simp)+
  note k = tx_inv_RollBackView[OF i(5) rb]
  have "\<forall>x \<in> set ?vs. view_holds f t (fst x) (snd x)"
  proof (rule api_views_frame[OF _ tf(1,2)])
    show "\<forall>x \<in> set ?vs. view_holds f s (fst x) (snd x)" using i(4) by (meson notin_set_remove1)
    fix u P assume u: "snap u P s" "u \<in># view_ids ?vs"
    then have "u \<in> fst ` set (view_tx_map t)" using readers_count[OF rd(1)[unfolded ids], of u] by (auto dest: map_of_fst)
    then show "snap u P t" by (rule k(2)[OF u(1)])
  qed
  moreover have "committed f t M L0" by (rule committed_frame[OF i(6) tf(1,2)]) (simp_all add: tf)
  moreover have "in_place t" "no_list t" using i(1,2) by (subst rd(2), simp add: in_place_def no_list_def)+
  moreover have "tx_state f t W L" using i(7) tx_state_views rd(2) by metis
  moreover have "backed t" using i(8) backed_views rd(2) by metis
  ultimately show ?thesis using k(1) rd(1)[unfolded ids] unfolding api_inv.simps by blast
qed


lemma api_inv_step:
  assumes "api_step env f c d" "api_inv f c" "10 \<le> f"
  shows "api_inv f d"
  using assms
proof (induction rule: api_step.induct)
  case (begin_tx s t M vs)
  then show ?case using api_begin by blast
next
  case (put k val s t m M vs)
  then show ?case using api_put[of f s M m vs k val "snd env"] by (metis sum.inject(2))
next
  case (del k s r t m M vs)
  then show ?case using api_del[of f s M m vs k "snd env"] by (metis sum.inject(2) prod.inject)
next
  case (commit s h t M m vs)
  then show ?case using api_commit by blast
next
  case (rollback s h t M m vs)
  then have "TxManager_RollBack env s = Inr t" by (auto simp: UpdateTx_RollBack_def bind_res_Inr_iff)
  then show ?case using rollback api_rollback by blast
next
  case (drop_tx s t M m vs)
  then have "TxManager_RollBack env s = Inr t" by (auto simp: UpdateTx_destroy_def UpdateTx_RollBack_def bind_res_Inr_iff)
  then show ?case using drop_tx api_rollback by blast
next
  case (open_view s v t vs M W)
  then show ?case using api_view by blast
next
  case (drop_view v s t m vs M W)
  then show ?case using api_end_view by blast
qed

lemma api_inv_run: "api_run env f c d \<Longrightarrow> api_inv f c \<Longrightarrow> 10 \<le> f \<Longrightarrow> api_inv f d"
  by (induction rule: api_run.induct) (auto intro: api_inv_step)

end
