(* ===== verification/Atomkv_Programs.thy ===== *)
theory Atomkv_Programs
  imports Atomkv_API
begin

text \<open>What a program over the database can rely on, and a sample run with a reader, a put and a delete.\<close>

section \<open>What the invariant shows\<close>

lemma api_inv_views:
  assumes "api_inv f (s, M, W, vs)" "(v, m) \<in> set vs" "short_key k"
  shows "view_shows v k s (m k)"
proof -
  have "view_holds f s v m" using assms(1,2) by fastforce
  then obtain P where "version s f (user_root (view_meta v)) (txid (view_meta v)) P m" by (auto simp: view_holds_def)
  then show ?thesis by (rule version_view[OF _ assms(3)])
qed

lemma api_inv_tx:
  assumes "api_inv f (s, M, Some m, vs)" "short_key k"
  shows "get_shows kUserRootBucketId k s (m k)"
proof -
  obtain L0 L where i: "tx_inv L0 L s" "tx_state f s (Some m) L" using assms(1) unfolding api_inv.simps by blast
  obtain mt ot P where t: "update_meta s = Some mt" "bucket_root kUserRootBucketId s = Inr (user_root mt)" "bucket_tree s f ot (user_root mt) P" "P \<subseteq> L"
    "m = map_of (contents ot)" "tx_pages L 0 s"
    by (rule tx_state_parts[OF i(2,1), of 0, OF le0])
  show ?thesis using Bucket_Get_tree[OF t(2,3) assms(2)] t(5) by (simp add: get_shows_def)
qed

lemma api_inv_fresh_view:
  assumes "api_inv f (s, M, W, vs)" "short_key k" "DBImpl_View s = (v, t)"
  shows "view_shows v k t (M k)"
proof -
  obtain L0 where i: "committed f s M L0" using assms(1) unfolding api_inv.simps by blast
  note r = DBImpl_View_result[OF assms(3)]
  obtain vm where vm: "t = s\<lparr>view_tx_map := vm\<rparr>" using r(4) by blast
  have "committed f t M L0" by (rule committed_frame[OF i]) (simp_all add: vm)
  then obtain P where "version t f (user_root (view_meta v)) (txid (db_meta t)) P M" using r(2) vm by (auto simp: committed_def)
  then show ?thesis by (rule version_view[OF _ assms(2)])
qed

lemma api_inv_destroy:
  assumes "api_inv f (s, M, W, vs)" "(v, m) \<in> set vs"
  shows "\<exists>t. ViewTx_destroy env v s = Inr t"
proof -
  have i: "readers (view_ids vs) s" using assms(1) by simp
  have "txid (view_meta v) \<in># view_ids vs" using assms(2) by force
  then obtain t where "TxManager_RollBackView (txid (view_meta v)) s = Inr t" by (rule readers_RollBackView[OF i])
  then show ?thesis by (simp add: ViewTx_destroy_def TxImpl_RollBack_def)
qed



section \<open>The pages a walk can reach\<close>

inductive reaches :: "'a pager_db_scheme \<Rightarrow> PageId \<Rightarrow> PageId \<Rightarrow> bool" for s root where
  at_root: "root \<noteq> kPageInvalidId \<Longrightarrow> reaches s root root"
| below: "reaches s root q \<Longrightarrow> IsBranch (nodes s q) \<Longrightarrow> i \<le> node_count (nodes s q) \<Longrightarrow> reaches s root (kid_page (nodes s q) i)"

text \<open>Every field of the page and of its slots is in the range of its bit field, and the records lie in the page.\<close>

definition page_typed :: "'a pager_db_scheme \<Rightarrow> PageId \<Rightarrow> bool" where
  "page_typed s q \<longleftrightarrow> (let n = nodes s q in wf_node (pg_size s) n \<and> (IsLeaf n \<or> IsBranch n) \<and> node_count n < 2 ^ 14 \<and> space_used n < 2 ^ 16 \<and>
     - (2 ^ 15) \<le> data_offset n \<and> data_offset n < 2 ^ 15 \<and>
     (\<forall>i < node_count n. record_offset (slots n i) < 2 ^ 15 \<and> key_size (slots n i) < 2 ^ 15 \<and> child_or_size (slots n i) < 2 ^ 32 \<and>
        \<not> is_overflow_pages (slots n i)) \<and>
     (IsBranch n \<longrightarrow> (\<forall>i \<le> node_count n. kid_page n i < kPageMaxCount)))"

lemma inline_typed:
  assumes "inline_node s q" "IsLeaf (nodes s q) \<or> IsBranch (nodes s q)"
    "IsBranch (nodes s q) \<Longrightarrow> \<forall>i \<le> node_count (nodes s q). kid_page (nodes s q) i < kPageMaxCount"
  shows "page_typed s q"
proof -
  let ?n = "nodes s q"
  have w: "wf_node (pg_size s) ?n" "\<forall>i < node_count ?n. \<not> is_overflow_pages (slots ?n i)" using assms(1) by (simp_all add: inline_node_def)
  note b = wf_node_bounds[OF w(1)]
  have "record_offset (slots ?n i) < 2 ^ 15 \<and> key_size (slots ?n i) < 2 ^ 15 \<and> child_or_size (slots ?n i) < 2 ^ 32" if i: "i < node_count ?n" for i
  proof -
    have r: "record_offset (slots ?n i) + raw_size ?n (slots ?n i) \<le> pg_size s" using w(1) i by (simp add: wf_node_def layout_def)
    show ?thesis
    proof (cases "IsLeaf ?n")
      case True
      then show ?thesis using r w(2) i b(4) by (simp add: raw_size_def)
    next
      case False
      then have "child_or_size (slots ?n i) < kPageMaxCount" using assms(2,3) i by (auto simp: kid_page_def dest!: spec[of _ i])
      then show ?thesis using r w(2) i b(4) False by (simp add: raw_size_def kPageMaxCount_def)
    qed
  qed
  then show ?thesis using w b assms(2,3) unfolding page_typed_def Let_def by auto
qed

lemma owns_closed:
  "owns s t pid P \<Longrightarrow> q \<in> P \<Longrightarrow> page_typed s q \<and> (IsBranch (nodes s q) \<longrightarrow> (\<forall>i \<le> node_count (nodes s q). kid_page (nodes s q) i \<in> P))"
proof (induction t arbitrary: pid P rule: bt_kid_induct)
  case (Leaf es)
  then have "q = pid" "inline_node s pid" "IsLeaf (nodes s pid)" "\<not> IsBranch (nodes s pid)"
    by (auto simp: owns_leaf leaf_view_def IsLeaf_def IsBranch_def)
  then show ?case using inline_typed[of s pid] by simp
next
  case (Branch ts t)
  obtain Q where o: "branch_view s pid (map snd ts)" "inline_node s pid" "P = insert pid (\<Union>i \<in> {..length ts}. Q i)"
    "\<forall>i \<le> length ts. owns s (kid ts t i) (kid_page (nodes s pid) i) (Q i)" by (rule owns_branchE[OF Branch.prems(1)])
  have c: "IsBranch (nodes s pid)" "node_count (nodes s pid) = length ts" using o(1) by (simp_all add: branch_view_def)
  have k: "kid_page (nodes s pid) i \<in> P \<and> kid_page (nodes s pid) i < kPageMaxCount" if i: "i \<le> length ts" for i
  proof -
    have w: "owns s (kid ts t i) (kid_page (nodes s pid) i) (Q i)" using o(4) i by blast
    show ?thesis using tree_page[OF owns_tree[OF w]] owns_root[OF w] i o(3) by blast
  qed
  show ?case
  proof (cases "q = pid")
    case True
    then show ?thesis using inline_typed[OF o(2)] c k by simp
  next
    case False
    then obtain i where i: "i \<le> length ts" "q \<in> Q i" using Branch.prems(2) o(3) by blast
    have "owns s (kid ts t i) (kid_page (nodes s pid) i) (Q i)" using o(4) i(1) by blast
    then show ?thesis using Branch.IH[OF i(1) _ i(2)] i(1) o(3) by blast
  qed
qed

lemma kv_tree_reaches:
  assumes "reaches s root q" "kv_tree s f ot root P"
  shows "q \<in> P \<and> page_typed s q"
  using assms
proof (induction rule: reaches.induct)
  case at_root
  then obtain t where "owns s t root P" by (auto simp: kv_tree_def split: option.splits)
  then show ?case using owns_closed owns_root by blast
next
  case (below q i)
  then have q: "q \<in> P" by blast
  then obtain t where o: "owns s t root P" using below.prems by (auto simp: kv_tree_def split: option.splits)
  then have "kid_page (nodes s q) i \<in> P" using owns_closed[OF o q] below.hyps by blast
  then show ?case using owns_closed[OF o] by blast
qed

text \<open>The roots in use: of the committed version, of the running transaction and of every open reader.\<close>

definition roots :: "('w, 'a) api_state \<Rightarrow> PageId set" where
  "roots = (\<lambda>(s, M, W, vs). {user_root (db_meta s)} \<union> {user_root m | m. update_meta s = Some m} \<union> {user_root (view_meta (fst x)) | x. x \<in> set vs})"

lemma api_inv_roots:
  assumes "api_inv f (s, M, W, vs)" "root \<in> roots (s, M, W, vs)"
  shows "\<exists>ot P. kv_tree s f ot root P \<and> P \<subseteq> {..<limit s} \<and> P \<inter> pages_of (free_map s) = {}"
proof -
  obtain L0 L where i: "tx_inv L0 L s" "committed f s M L0" "tx_state f s W L" "\<forall>x \<in> set vs. view_holds f s (fst x) (snd x)"
    using assms(1) unfolding api_inv.simps by blast
  have le: "page_count (db_meta s) \<le> limit s" using i(1) by (cases "update_meta s") (simp_all add: tx_inv_def limit_def)
  have L: "L \<subseteq> {..<limit s}" "L \<inter> pages_of (free_map s) = {}" using i(1) by (auto simp: tx_inv_def page_inv_def)
  have L0: "L0 \<subseteq> {..<limit s}" "L0 \<inter> pages_of (free_map s) = {}"
    using i(1) L le by (cases "update_meta s"; auto simp: tx_inv_def undo_def)+
  consider "root = user_root (db_meta s)" | m where "update_meta s = Some m" "root = user_root m" | x where "x \<in> set vs" "root = user_root (view_meta (fst x))"
    using assms(2) by (auto simp: roots_def)
  then show ?thesis
  proof cases
    case 1
    then show ?thesis using i(2) L0 unfolding committed_def version_def by blast
  next
    case 2
    then show ?thesis using i(3) L bucket_kv_tree by (cases W) fastforce+
  next
    case 3
    then obtain P where "version s f root (txid (view_meta (fst x))) P (snd x)" "snap (txid (view_meta (fst x))) P s" using i(4) by (auto simp: view_holds_def)
    then show ?thesis using le unfolding version_def snap_def by (meson lessThan_subset_iff subset_trans)
  qed
qed


section \<open>A sample run\<close>

text \<open>Version 4 with the sample tree is committed and no transaction is open.\<close>

definition sample_start :: "byte list list txn_db" where
  "sample_start = sample_txn\<lparr>update_meta := None, db_meta := sample_meta\<lparr>user_root := 8\<rparr>, update_lock := False, map_size := 4096\<rparr>"

abbreviation sample_map :: kv_map where
  "sample_map \<equiv> map_of (contents (Some sample_bt))"

lemma sample_start_eval:
  "nodes sample_start = nodes sample_txn" "pg_size sample_start = 256" "pg_size sample_txn = 256" "update_meta sample_start = None"
  "db_meta sample_start = sample_meta\<lparr>user_root := 8\<rparr>" "view_tx_map sample_start = []" "free_map sample_start = [(2, 1)]" "\<not> io_fails sample_start"
  by (simp_all add: sample_start_def sample_wide_def sample_update_def)

lemma sample_stamped: "last_modified_txid (nodes sample_txn q) = 4"
  by (simp add: sample_wide_def sample_update_def sample_tree_db_def sample_pair_def sample_root_def)

lemma sample_api_inv: "api_inv 10 (sample_start, sample_map, None, [])"
proof -
  note e = sample_start_eval
  have "page_inv sample_live sample_start"
    by (auto simp: page_inv_def map_inv_def sample_start_def sample_wide_def sample_update_def sample_meta_def limit_def free_ok_def pending_pairs_def)
  then have "tx_inv sample_live sample_live sample_start"
    by (simp add: tx_inv_def e) (simp add: sample_start_def sample_wide_def sample_update_def sample_meta_def kTxInvalidId_def)
  moreover have "committed 10 sample_start sample_map sample_live"
    unfolding committed_def version_def
  proof (intro exI[of _ "{8, 3, 4}"] conjI exI[of _ "Some sample_bt"])
    have b: "bucket_tree sample_txn 10 (Some sample_bt) 8 {8, 3, 4}" by (rule sample_wide_bound) simp_all
    have "kv_tree sample_start 10 (Some sample_bt) 8 {8, 3, 4}" by (rule kv_tree_frame[OF bucket_kv_tree[OF b]]) (simp_all add: e)
    then show "kv_tree sample_start 10 (Some sample_bt) (user_root (db_meta sample_start)) {8, 3, 4}" by (simp add: e)
  qed (simp_all add: e sample_stamped sample_meta_def)
  moreover have "in_place sample_start" "no_list sample_start" "readers {#} sample_start" "stamped sample_start (txid (db_meta sample_start) + 1)"
    by (simp_all add: readers_empty no_list_def stamped_def e sample_stamped)
      (simp_all add: in_place_def sample_start_def sample_wide_def sample_update_def sample_options_def sample_meta_def)
  moreover have "backed sample_start"
    by (simp add: backed_def covers_def limit_def sample_start_def sample_wide_def sample_update_def sample_meta_def)
  ultimately show ?thesis using e(4) by auto
qed

text \<open>A reader opens version 4, transaction 5 begins.\<close>

lemma sample_opened:
  obtains v t u where "DBImpl_View sample_start = (v, t)" "DB_Update sample_writer t = Inr (True, u)" "db_meta t = db_meta sample_start"
    "free_map u = [(2, 1)]" "pg_size u = 256" "\<not> io_fails u" "limit u \<le> 12"
proof -
  obtain v t where v: "DBImpl_View sample_start = (v, t)" by fastforce
  have t: "t = sample_start\<lparr>view_tx_map := [(4, 1)]\<rparr>"
    using v by (simp add: DBImpl_View_def TxManager_View_def Let_def sample_start_eval sample_meta_def)
  have "\<exists>u. DB_Update sample_writer t = Inr (True, u) \<and> db_meta t = db_meta sample_start \<and> free_map u = [(2, 1)] \<and> pg_size u = 256 \<and> \<not> io_fails u \<and> limit u \<le> 12"
    unfolding t by (simp add: DB_Update_def DBImpl_Update_def TxImpl_init_def TxManager_Update_def sample_start_def
        sample_wide_def sample_update_def sample_meta_def sample_options_def Let_def u32_def ClearPendingMmap_def CopyMetaInfo_def throw_if_def
        kTxInvalidId_def Release_def assert_res_def limit_def)
  then show thesis using that v by blast
qed

lemma sample_begun:
  obtains v u where "api_run sample_env 10 (sample_start, sample_map, None, []) (u, sample_map, Some sample_map, [(v, sample_map)])" "reserve u" "list_room u" "free_map u = [(2, 1)]"
proof -
  let ?c = "(sample_start, sample_map, None, [])"
  obtain v t u where o: "DBImpl_View sample_start = (v, t)" "DB_Update sample_writer t = Inr (True, u)" "db_meta t = db_meta sample_start"
    "free_map u = [(2, 1)]" "pg_size u = 256" "\<not> io_fails u" "limit u \<le> 12" by (rule sample_opened)
  have r1: "api_run sample_env 10 ?c (t, sample_map, None, [(v, sample_map)])"
    by (rule more_steps[OF none open_view[OF o(1)]]) simp
  have r2: "api_run sample_env 10 ?c (u, sample_map, Some sample_map, [(v, sample_map)])"
    by (rule more_steps[OF r1 begin_tx]) (use o(2,3) in \<open>simp_all add: sample_env_def sample_start_eval sample_meta_def kPageMaxCount_def\<close>)
  have "(256::nat) = 2 ^ 8" by simp
  then have "\<exists>k \<le> 15. pg_size u = 2 ^ k" using o(5) by (intro exI[of _ 8]) simp
  then have "top_page u = min kPageMaxCount (4294967295 div 256)" using o(5,6) by (auto simp: top_page_def)
  then have "list_room u" using o(7) by (simp add: list_room_def kPageMaxCount_def)
  then show thesis using that r2 stock_of_256[OF o(5-7)] o(4) by simp
qed

lemma sample_delete:
  obtains v u w where "api_run sample_env 10 (sample_start, sample_map, None, []) (u, sample_map, Some sample_map, [(v, sample_map)])"
    "api_step sample_env 10 (u, sample_map, Some sample_map, [(v, sample_map)]) (w, sample_map, Some (sample_map([9] := None)), [(v, sample_map)])"
proof -
  obtain v u where r: "api_run sample_env 10 (sample_start, sample_map, None, []) (u, sample_map, Some sample_map, [(v, sample_map)])" and n: "reserve u"
    by (rule sample_begun)
  have i: "api_inv 10 (u, sample_map, Some sample_map, [(v, sample_map)])" by (rule api_inv_run[OF r sample_api_inv]) simp
  have k: "plain_key sample_map [9]" by (simp add: short_key_def sample_bt_def contents_def)
  obtain w where w: "UpdateBucket_Delete (snd sample_env) bcmp kUserRootBucketId [9] u = Inr (sample_map [9] \<noteq> None, w)"
    using api_del[OF i k n order_refl, of "snd sample_env"] by blast
  show thesis by (rule that[OF r del[where m = sample_map and s = u, OF w k n]])
qed

lemma sample_run:
  obtains v s where "api_run sample_env 10 (sample_start, sample_map, None, []) (s, sample_map, Some (sample_map([9] := None)), [(v, sample_map)])"
proof -
  obtain v u w where r: "api_run sample_env 10 (sample_start, sample_map, None, []) (u, sample_map, Some sample_map, [(v, sample_map)])"
    "api_step sample_env 10 (u, sample_map, Some sample_map, [(v, sample_map)]) (w, sample_map, Some (sample_map([9] := None)), [(v, sample_map)])"
    by (rule sample_delete)
  show thesis by (rule that[OF more_steps[OF r]])
qed


section \<open>What a run shows\<close>

text \<open>A value that is not longer than the one it replaces is stored.\<close>

lemma api_shorter_fits:
  assumes "api_inv f (s, M, Some m, vs)" "putable f (pg_size s) m k val" "m k = Some (v0, False)" "length val \<le> length v0"
  shows "update_fits kUserRootBucketId k val s"
proof -
  obtain L0 L where i: "tx_inv L0 L s" "tx_state f s (Some m) L" using assms(1) unfolding api_inv.simps by blast
  obtain mt ot P where t: "bucket_root kUserRootBucketId s = Inr (user_root mt)" "bucket_tree s f ot (user_root mt) P" "m = map_of (contents ot)"
    "update_meta s = Some mt"
    by (rule tx_state_parts[OF i(2,1), of 0, OF le0]) blast
  have "\<forall>e \<in> set (contents ot). fst e = k \<longrightarrow> \<not> snd (snd e)" by (rule plain_contents[OF t(2)]) (use assms(2) t(3) in \<open>simp add: putable_def\<close>)
  then have "may_put f (pg_size s) ot k val False" using assms(2) by (simp add: putable_def may_put_def)
  from shorter_fits[OF t(1,2) this _ assms(4)] show ?thesis using assms(3) t(3) by simp
qed

lemma api_run_shows:
  assumes "api_inv f c" "api_run env f c (s, M, W, vs)" "10 \<le> f" "short_key k"
  shows "(\<forall>(v, m) \<in> set vs. view_shows v k s (m k)) \<and> (\<forall>m. W = Some m \<longrightarrow> get_shows kUserRootBucketId k s (m k)) \<and>
    view_shows (fst (DBImpl_View s)) k (snd (DBImpl_View s)) (M k) \<and>
    (\<forall>m val v0. W = Some m \<and> putable f (pg_size s) m k val \<and> m k = Some (v0, False) \<and> length val \<le> length v0 \<longrightarrow> update_fits kUserRootBucketId k val s)"
proof -
  have i: "api_inv f (s, M, W, vs)" by (rule api_inv_run[OF assms(2,1,3)])
  have "view_shows (fst (DBImpl_View s)) k (snd (DBImpl_View s)) (M k)" by (rule api_inv_fresh_view[OF i assms(4)]) simp
  moreover have "get_shows kUserRootBucketId k s (m k)" if "W = Some m" for m using i api_inv_tx[OF _ assms(4)] unfolding that by blast
  moreover have "update_fits kUserRootBucketId k val s"
    if h: "W = Some m \<and> putable f (pg_size s) m k val \<and> m k = Some (v0, False) \<and> length val \<le> length v0" for m val v0
    using api_shorter_fits[of f s M m vs k val v0] i h by blast
  ultimately show ?thesis using api_inv_views[OF i _ assms(4)] by blast
qed


section \<open>Properties\<close>

text \<open>
  C2: The database refines finite maps, up to the updates that the code drops. In every state that a program reaches by beginning, committing, rolling back and dropping
  update transactions, by \<^verbatim>\<open>Put\<close> and \<^verbatim>\<open>Delete\<close> on the user bucket, and by opening and closing readers, in
  any order: \<^verbatim>\<open>Get\<close> in every open read transaction shows the map that was committed when it was opened; \<^verbatim>\<open>Get\<close>
  in the running update transaction shows that map with its own writes; a reader opened now shows the map of the last commit. A put of a new key is always a write;
  a put over a key of the map is one exactly when \<^verbatim>\<open>LeafNode::Update\<close> finds room in the leaf of the key (\<open>update_fits\<close>), which is so
  whenever the new value is not longer; otherwise it returns in the same way and the map stays, since
  \<^verbatim>\<open>BTree::Put\<close> ignores the answer. The scope: the mode \<^verbatim>\<open>kUpdateInPlace\<close>; the user bucket without sub-buckets; entries two of which fit in a page,
  with keys ten of which do (\<open>putable\<close>); and for each write 95 pages that are free or that the file can grow by below 4 GiB.
\<close>

theorem database_refines_maps:
  assumes "api_inv f c" "api_run env f c (s, M, W, vs)" "10 \<le> f" "short_key k"
  shows "(\<forall>(v, m) \<in> set vs. view_shows v k s (m k)) \<and> (\<forall>m. W = Some m \<longrightarrow> get_shows kUserRootBucketId k s (m k)) \<and>
    view_shows (fst (DBImpl_View s)) k (snd (DBImpl_View s)) (M k) \<and>
    (\<forall>m val v0. W = Some m \<and> putable f (pg_size s) m k val \<and> m k = Some (v0, False) \<and> length val \<le> length v0 \<longrightarrow> update_fits kUserRootBucketId k val s)"
  by (rule api_run_shows[OF assms])

text \<open>After \<^verbatim>\<open>Delete\<close> of key 9 the reader still finds it and the transaction does not.\<close>

theorem database_refines_maps_witness:
  "\<exists>v s. api_run sample_env 10 (sample_start, sample_map, None, []) (s, sample_map, Some (sample_map([9] := None)), [(v, sample_map)]) \<and>
     view_shows v [9] s (Some ([19], False)) \<and> get_shows kUserRootBucketId [9] s None"
proof -
  obtain v s where r: "api_run sample_env 10 (sample_start, sample_map, None, []) (s, sample_map, Some (sample_map([9] := None)), [(v, sample_map)])"
    by (rule sample_run)
  have k: "short_key [9]" "sample_map [9] = Some ([19], False)" by (simp_all add: short_key_def sample_bt_def contents_def)
  have "view_shows v [9] s (sample_map [9]) \<and> get_shows kUserRootBucketId [9] s ((sample_map([9] := None)) [9])"
    using database_refines_maps[OF sample_api_inv r order_refl k(1)] by auto
  then show ?thesis using r k(2) by auto
qed

text \<open>
  C3: Every page in use is well typed. In every state that a program of transactions, \<^verbatim>\<open>Put\<close>, \<^verbatim>\<open>Delete\<close> and readers reaches (\<open>api_run\<close>: the user bucket without sub-buckets,
  small entries, the mode \<^verbatim>\<open>kUpdateInPlace\<close>), each page that a walk down from the root of the committed version, of the running
  transaction or of an open reader reaches is a leaf or a branch whose records lie in the page without overlap of slots and records, each field of its
  header and slots is in the range of its bit field, its children are page ids, and it is a page of the file that is not free.
\<close>

theorem pages_well_typed:
  assumes "api_inv f c" "api_run env f c d" "10 \<le> f" "root \<in> roots d" "reaches (fst d) root q"
  shows "page_typed (fst d) q \<and> q < limit (fst d) \<and> q \<notin> pages_of (free_map (fst d))"
proof -
  obtain s M W vs where d: "d = (s, M, W, vs)" by (cases d)
  have "api_inv f (s, M, W, vs)" using api_inv_run[OF assms(2,1,3)] d by simp
  then obtain ot P where "kv_tree s f ot root P" "P \<subseteq> {..<limit s}" "P \<inter> pages_of (free_map s) = {}" using api_inv_roots assms(4) d by blast
  then show ?thesis using kv_tree_reaches[of s root q f ot P] assms(5) d by auto
qed

theorem pages_well_typed_witness:
  "\<exists>v s m. api_run sample_env 10 (sample_start, sample_map, None, []) (s, sample_map, Some m, [(v, sample_map)]) \<and>
     page_typed s (user_root (db_meta s)) \<and> page_typed s (user_root (view_meta v))"
proof -
  obtain v s where r: "api_run sample_env 10 (sample_start, sample_map, None, []) (s, sample_map, Some (sample_map([9] := None)), [(v, sample_map)])"
    by (rule sample_run)
  let ?d = "(s, sample_map, Some (sample_map([9] := None)), [(v, sample_map)])"
  have i: "api_inv 10 ?d" by (rule api_inv_run[OF r sample_api_inv]) simp
  have ne: "root \<noteq> kPageInvalidId" if h: "committed 10 s sample_map L \<and> root = user_root (db_meta s) \<or> view_holds 10 s v sample_map \<and> root = user_root (view_meta v)" for L root
  proof -
    obtain ot P where o: "kv_tree s 10 ot root P" "sample_map = map_of (contents ot)" using h unfolding committed_def view_holds_def version_def by blast
    have "sample_map [9] \<noteq> None" by (simp add: sample_bt_def contents_def)
    then obtain t where t: "ot = Some t" using o(2) by (cases ot) (auto simp: contents_def)
    then have "owns s t root P" using o(1) by (simp add: kv_tree_def)
    then show ?thesis using tree_page_valid[OF owns_tree] by blast
  qed
  obtain L where "committed 10 s sample_map L" "view_holds 10 s v sample_map" using i unfolding api_inv.simps by auto
  then have "reaches s (user_root (db_meta s)) (user_root (db_meta s))" "reaches s (user_root (view_meta v)) (user_root (view_meta v))"
    using ne by (blast intro: at_root)+
  moreover have "user_root (db_meta s) \<in> roots ?d" "user_root (view_meta v) \<in> roots ?d" by (auto simp: roots_def)
  ultimately show ?thesis using pages_well_typed[OF sample_api_inv r order_refl] r by auto
qed

text \<open>
  C9: The operations return. In every state that a program of transactions, \<^verbatim>\<open>Put\<close>, \<^verbatim>\<open>Delete\<close> and readers reaches (\<open>api_run\<close>: the user bucket without sub-buckets,
  small entries, the mode \<^verbatim>\<open>kUpdateInPlace\<close>), \<^verbatim>\<open>Put\<close> of an entry of the described size, over any key that is not that of a sub-bucket, and
  \<^verbatim>\<open>Delete\<close> of any entry that is no bucket return without an error, \<^verbatim>\<open>Delete\<close> tells whether the key was there, closing
  any open reader returns, and so does the commit when the file can grow, below 4 GiB, by the pages of the longest possible free list.
\<close>

theorem operations_return:
  assumes "api_inv f c" "api_run env f c (s, M, W, vs)" "10 \<le> f"
  shows "(\<forall>m k val. W = Some m \<and> putable f (pg_size s) m k val \<and> reserve s \<longrightarrow> (\<exists>t. UpdateBucket_Put (snd env) bcmp kUserRootBucketId k val s = Inr t)) \<and>
    (\<forall>m k. W = Some m \<and> plain_key m k \<and> reserve s \<longrightarrow> (\<exists>t. UpdateBucket_Delete (snd env) bcmp kUserRootBucketId k s = Inr (m k \<noteq> None, t))) \<and>
    (\<forall>(v, m) \<in> set vs. \<exists>t. ViewTx_destroy env v s = Inr t) \<and>
    (W \<noteq> None \<and> list_room s \<longrightarrow> (\<exists>t. UpdateTx_Commit env bcmp True s = Inr (False, t)))"
proof -
  have i: "api_inv f (s, M, W, vs)" by (rule api_inv_run[OF assms(2,1,3)])
  have p: "\<exists>t. UpdateBucket_Put (snd env) bcmp kUserRootBucketId k val s = Inr t" if "W = Some m \<and> putable f (pg_size s) m k val \<and> reserve s" for m k val
    using api_put[OF i[unfolded conjunct1[OF that]]] that by blast
  have d: "\<exists>t. UpdateBucket_Delete (snd env) bcmp kUserRootBucketId k s = Inr (m k \<noteq> None, t)" if "W = Some m \<and> plain_key m k \<and> reserve s" for m k
    using api_del[OF i[unfolded conjunct1[OF that]] _ _ assms(3)] that by blast
  have v: "\<forall>(v, m) \<in> set vs. \<exists>t. ViewTx_destroy env v s = Inr t" using api_inv_destroy[OF i] by blast
  have c: "\<exists>t. UpdateTx_Commit env bcmp True s = Inr (False, t)" if w: "W \<noteq> None \<and> list_room s"
  proof -
    obtain m where "W = Some m" using w by blast
    from api_commit_returns[OF i[unfolded this], of env] w show ?thesis by blast
  qed
  have q: "\<forall>m k val. W = Some m \<and> putable f (pg_size s) m k val \<and> reserve s \<longrightarrow> (\<exists>t. UpdateBucket_Put (snd env) bcmp kUserRootBucketId k val s = Inr t)"
    "\<forall>m k. W = Some m \<and> plain_key m k \<and> reserve s \<longrightarrow> (\<exists>t. UpdateBucket_Delete (snd env) bcmp kUserRootBucketId k s = Inr (m k \<noteq> None, t))"
    "W \<noteq> None \<and> list_room s \<longrightarrow> (\<exists>t. UpdateTx_Commit env bcmp True s = Inr (False, t))"
    by ((intro allI, rule impI, erule p), (intro allI, rule impI, erule d), rule impI, erule c)
  show ?thesis by (rule conjI[OF q(1) conjI[OF q(2) conjI[OF v q(3)]]])
qed

theorem operations_return_witness:
  "\<exists>v u t. api_run sample_env 10 (sample_start, sample_map, None, []) (u, sample_map, Some sample_map, [(v, sample_map)]) \<and>
     UpdateBucket_Delete (snd sample_env) bcmp kUserRootBucketId [9] u = Inr (True, t) \<and>
     (\<exists>t. ViewTx_destroy sample_env v u = Inr t) \<and> (\<exists>t. UpdateTx_Commit sample_env bcmp True u = Inr (False, t))"
proof -
  obtain v u where r: "api_run sample_env 10 (sample_start, sample_map, None, []) (u, sample_map, Some sample_map, [(v, sample_map)])" "reserve u" "list_room u"
    by (rule sample_begun)
  have k: "plain_key sample_map [9]" "sample_map [9] \<noteq> None" by (simp_all add: short_key_def sample_bt_def contents_def)
  note o = operations_return[OF sample_api_inv r(1) order_refl]
  have "\<exists>t. UpdateBucket_Delete (snd sample_env) bcmp kUserRootBucketId [9] u = Inr (sample_map [9] \<noteq> None, t)" using o k(1) r(2) by blast
  moreover have "\<exists>t. ViewTx_destroy sample_env v u = Inr t" "\<exists>t. UpdateTx_Commit sample_env bcmp True u = Inr (False, t)" using o r(3) by auto
  ultimately show ?thesis using r(1) k(2) by auto
qed

end
