(* ===== verification/Atomkv_New_DB.thy ===== *)
theory Atomkv_New_DB
  imports Atomkv_Programs
begin

text \<open>
  From \<^verbatim>\<open>DB::Open\<close> on an empty file to any program over the database: the state that \<^verbatim>\<open>Open\<close> leaves has the
  invariant of \<^verbatim>\<open>Atomkv_API\<close> with the empty map, so the refinement holds for every history of a new database.
\<close>

section \<open>Opening a new file\<close>

text \<open>A usable page size: a power of two from 256 to 16384 bytes. The pages of a new file are zero.\<close>

definition new_file :: "nat \<Rightarrow> Options \<Rightarrow> ('w, 'a) txn_db_scheme \<Rightarrow> bool" where
  "new_file ps opts s \<longleftrightarrow> (\<exists>k \<in> {8..14}. ps = 2 ^ k) \<and> (opt_page_size opts = 0 \<or> opt_page_size opts = ps) \<and> \<not> read_only opts \<and>
     mode opts = kUpdateInPlace \<and> \<not> io_fails s \<and> (\<forall>q. last_modified_txid (nodes s q) = 0)"

lemma new_file_page_size:
  assumes "new_file ps opts s"
  shows "page_ok ps" "ps \<le> kPageMaxSize"
proof -
  obtain k where k: "k \<in> {8..14}" "ps = 2 ^ k" using assms by (auto simp: new_file_def)
  then have "k \<in> {8, 9, 10, 11, 12, 13, 14}" by (simp add: atLeastAtMost_iff) linarith
  then show "page_ok ps" "ps \<le> kPageMaxSize" unfolding k(2) by (auto simp: page_ok_def kPageMaxSize_def)
qed

lemma resolve_new_file: "new_file ps opts s \<Longrightarrow> \<exists>o1. resolve_page_size ps opts = Inr o1 \<and> opt_page_size o1 = ps \<and> \<not> read_only o1 \<and> mode o1 = kUpdateInPlace"
  using new_file_page_size(2)[of ps opts s] by (auto simp: new_file_def resolve_page_size_def throw_if_def)

lemma Meta_Init_fields:
  "txid (db_meta (Meta_Init lib s)) = 1" "page_count (db_meta (Meta_Init lib s)) = 2" "user_root (db_meta (Meta_Init lib s)) = kPageInvalidId"
  "free_list_pgid (db_meta (Meta_Init lib s)) = kPageInvalidId" "nodes (Meta_Init lib s) = nodes s" "pg_size (Meta_Init lib s) = pg_size s"
  "io_fails (Meta_Init lib s) = io_fails s" "meta_db.more (Meta_Init lib s) = meta_db.more s" "map_size (Meta_Init lib s) = map_size s"
  "mmap_pending (Meta_Init lib s) = mmap_pending s"
  by (simp_all add: Meta_Init_def Meta_Save_def Meta_Switch_def Let_def)

lemma Open_new:
  fixes s :: "('w, 'a) txn_db_scheme"
  assumes "new_file ps opts s"
  obtains t where "Open env bcmp ps 0 log_size recs opts s = Inr t" "api_inv f (t, Map.empty, None, [])" "\<not> update_lock t" "\<not> read_only (options t)"
    "page_count (db_meta t) = 2" "txid (db_meta t) = 1" "pg_size t = ps" "\<not> io_fails t" "mmap_pending t = []" "map_size t = 2 * ps"
    "free_map t = []" "pending_map t = []" "user_root (db_meta t) = kPageInvalidId" "mode (options t) = kUpdateInPlace"
proof -
  obtain o1 where o: "resolve_page_size ps opts = Inr o1" "opt_page_size o1 = ps" "\<not> read_only o1" "mode o1 = kUpdateInPlace"
    using resolve_new_file[OF assms] by blast
  define s0 where "s0 = Meta_Init (fst env) (s\<lparr>options := o1, pg_size := ps, map_size := ps * kPageInitCount, mmap_pending := []\<rparr>)"
  define t where "t = s0\<lparr>free_map := [], pending_map := [], alloc_records := [], debug_free_set := {}, update_meta := None, view_tx_map := [],
    persisted_txid := kTxInvalidId, update_lock := False, disable_writing := False, checkpoint_needed := False, min_view_txid := txid (db_meta s0)\<rparr>"
  have op: "options s0 = o1" using Meta_Init_fields(8)[of "fst env" "s\<lparr>options := o1, pg_size := ps, map_size := ps * kPageInitCount, mmap_pending := []\<rparr>"]
    unfolding s0_def[symmetric] by (cases s0; cases s) simp
  note m = Meta_Init_fields[of "fst env" "s\<lparr>options := o1, pg_size := ps, map_size := ps * kPageInitCount, mmap_pending := []\<rparr>", folded s0_def, simplified]
  have io: "\<not> io_fails s" and z: "last_modified_txid (nodes s q) = 0" for q using assms by (simp_all add: new_file_def)
  have t: "Open env bcmp ps 0 log_size recs opts s = Inr t"
    using o io m by (simp add: Open_def Let_def throw_if_def TxManager_init_def LoadFreeList_def s0_def[symmetric] t_def)
  have pg: "page_ok ps" by (rule new_file_page_size(1)[OF assms])
  have "page_inv {} t" using m by (simp add: page_inv_def map_inv_def t_def limit_def runs_ok_def disjoint_runs_def pending_pairs_def)
  then have "tx_inv {} {} t" using m pg by (simp add: tx_inv_def t_def page_ok_def kTxInvalidId_def)
  moreover have "committed f t Map.empty {}"
    unfolding committed_def version_def
    by (intro exI[of _ "{}"] conjI exI[of _ None]) (use m pg in \<open>simp_all add: kv_tree_def t_def contents_def\<close>)
  moreover have "in_place t" "no_list t" "readers {#} t" "stamped t (txid (db_meta t) + 1)"
    using m o(4) op z by (simp_all add: in_place_def no_list_def readers_empty stamped_def t_def)
  moreover have "backed t" using m by (simp add: backed_def covers_def limit_def t_def kPageInitCount_def)
  ultimately have "api_inv f (t, Map.empty, None, [])" unfolding api_inv.simps by (auto simp: t_def)
  then show thesis using that[OF t] m o op io by (simp add: t_def kPageInitCount_def)
qed

text \<open>The first update transaction of a new database, beside a reader.\<close>

lemma begin_new:
  assumes "\<not> update_lock s" "\<not> read_only (options s)" "update_meta s = None" "mmap_pending s = []" "pending_map s = []" "mode (options s) = kUpdateInPlace"
    "txid (db_meta s) = 1" "db_meta s = m"
  obtains t where "DB_Update w s = Inr (True, t)" "pg_size t = pg_size s" "io_fails t = io_fails s" "limit t = page_count m" "free_map t = free_map s"
  using assms by (simp add: DB_Update_def DBImpl_Update_def TxImpl_init_def TxManager_Update_def Let_def ClearPendingMmap_def CopyMetaInfo_def throw_if_def
      kTxInvalidId_def Release_def assert_res_def limit_def)

definition sample_blank :: "byte list list txn_db" where
  "sample_blank = sample_start\<lparr>nodes := (\<lambda>_. sample_root\<lparr>last_modified_txid := 0\<rparr>)\<rparr>"

definition sample_new :: Options where
  "sample_new = (sample_options kUpdateInPlace)\<lparr>opt_page_size := 256\<rparr>"

lemma sample_new_file: "new_file 256 sample_new sample_blank"
  unfolding new_file_def
proof (intro conjI bexI[of _ 8])
qed (simp_all add: sample_new_def sample_options_def sample_blank_def sample_start_eval)

lemma sample_new_run:
  obtains s1 v s where "Open sample_env bcmp 256 0 0 [] sample_new sample_blank = Inr s1"
    "api_run sample_env 10 (s1, Map.empty, None, []) (s, Map.empty, Some [[9] \<mapsto> ([19], False)], [(v, Map.empty)])"
proof -
  obtain s1 where o: "Open sample_env bcmp 256 0 0 [] sample_new sample_blank = Inr s1" "api_inv 10 (s1, Map.empty, None, [])" "\<not> update_lock s1"
    "\<not> read_only (options s1)" "page_count (db_meta s1) = 2" "txid (db_meta s1) = 1" "pg_size s1 = 256" "\<not> io_fails s1" "mmap_pending s1 = []"
    "free_map s1 = []" "pending_map s1 = []" "mode (options s1) = kUpdateInPlace"
    by (rule Open_new[OF sample_new_file])
  let ?c = "(s1, Map.empty, None, [])"
  obtain v t where v: "DBImpl_View s1 = (v, t)" by fastforce
  obtain vm where t: "t = s1\<lparr>view_tx_map := vm\<rparr>" using DBImpl_View_result(4)[OF v] by blast
  have um: "update_meta s1 = None" using o(2) unfolding api_inv.simps by auto
  have r1: "api_run sample_env 10 ?c (t, Map.empty, None, [(v, Map.empty)])" by (rule more_steps[OF none open_view[OF v]]) simp
  obtain u where u: "DB_Update sample_writer t = Inr (True, u)" "pg_size u = 256" "\<not> io_fails u" "limit u = 2" "free_map u = []"
    by (rule begin_new[of t "db_meta s1" sample_writer]) (use o um t in simp_all)
  have r2: "api_run sample_env 10 ?c (u, Map.empty, Some Map.empty, [(v, Map.empty)])"
    by (rule more_steps[OF r1 begin_tx]) (use o u t in \<open>simp_all add: sample_env_def kPageMaxCount_def\<close>)
  have i: "api_inv 10 (u, Map.empty, Some Map.empty, [(v, Map.empty)])" by (rule api_inv_run[OF r2 o(2)]) simp
  have n: "reserve u" using stock_of_256[OF u(2,3)] u(4) by simp
  have k: "putable 10 (pg_size u) Map.empty [9] [19]" using u(2) by (simp add: putable_def small_entry_def short_key_def entry_cost_def key_bound_def)
  obtain w where w: "UpdateBucket_Put (snd sample_env) bcmp kUserRootBucketId [9] [19] u = Inr w"
    using api_put[OF i k n] by blast
  have "api_run sample_env 10 ?c (w, Map.empty, Some [[9] \<mapsto> ([19], False)], [(v, Map.empty)])"
    using more_steps[OF r2 put[where m = Map.empty and s = u, OF w k n]] by simp
  then show thesis using that o(1) by blast
qed


section \<open>Properties\<close>

text \<open>
  C1: A new database is a finite map from the first call on, up to the updates that the code drops. \<^verbatim>\<open>Open\<close> of an empty file in the
  mode \<^verbatim>\<open>kUpdateInPlace\<close> with a page size that is a power of two from 256 to 16384 returns. In every state that a program then reaches by update
  transactions, \<^verbatim>\<open>Put\<close> and \<^verbatim>\<open>Delete\<close> on the user bucket and readers in any order, \<^verbatim>\<open>Get\<close> shows in each
  reader the map committed when it was opened, in the running transaction that map with its own writes, and in a reader opened now the last commit. A put of a
  new key is always a write; a put over a key of the map is one exactly when \<^verbatim>\<open>LeafNode::Update\<close> finds room in the leaf (\<open>update_fits\<close>), which is so
  whenever the new value is not longer; otherwise the call returns in the same way and the map stays as it was. The scope of the writes is that of \<open>api_step\<close>: entries two
  of which fit in a page, with keys ten of which do, over keys that are no sub-buckets, and for each write 95 pages that are free or that the file can
  grow by below 4 GiB.
\<close>

theorem new_database_refines_maps:
  fixes s :: "('w, 'a) txn_db_scheme"
  assumes "new_file ps opts s" "10 \<le> f"
  shows "\<exists>s1. Open env bcmp ps 0 log_size recs opts s = Inr s1 \<and>
    (\<forall>t M W vs k. api_run env f (s1, Map.empty, None, []) (t, M, W, vs) \<longrightarrow> short_key k \<longrightarrow>
       (\<forall>(v, m) \<in> set vs. view_shows v k t (m k)) \<and> (\<forall>m. W = Some m \<longrightarrow> get_shows kUserRootBucketId k t (m k)) \<and>
       view_shows (fst (DBImpl_View t)) k (snd (DBImpl_View t)) (M k) \<and>
       (\<forall>m val v0. W = Some m \<and> putable f (pg_size t) m k val \<and> m k = Some (v0, False) \<and> length val \<le> length v0 \<longrightarrow>
          update_fits kUserRootBucketId k val t))"
proof -
  obtain s1 where "Open env bcmp ps 0 log_size recs opts s = Inr s1" "api_inv f (s1, Map.empty, None, [])" by (rule Open_new[OF assms(1)])
  then show ?thesis using api_run_shows[of f "(s1, Map.empty, None, [])" env] assms(2) by blast
qed

text \<open>A reader of the new database does not see the entry that the transaction beside it has put.\<close>

theorem new_database_refines_maps_witness:
  "\<exists>s1 v s. Open sample_env bcmp 256 0 0 [] sample_new sample_blank = Inr s1 \<and>
     api_run sample_env 10 (s1, Map.empty, None, []) (s, Map.empty, Some [[9] \<mapsto> ([19], False)], [(v, Map.empty)]) \<and>
     view_shows v [9] s None \<and> get_shows kUserRootBucketId [9] s (Some ([19], False))"
proof -
  obtain s1 v s where r: "Open sample_env bcmp 256 0 0 [] sample_new sample_blank = Inr s1"
    "api_run sample_env 10 (s1, Map.empty, None, []) (s, Map.empty, Some [[9] \<mapsto> ([19], False)], [(v, Map.empty)])"
    by (rule sample_new_run)
  obtain x where x: "Open sample_env bcmp 256 0 0 [] sample_new sample_blank = Inr x"
    "\<forall>t M W vs k. api_run sample_env 10 (x, Map.empty, None, []) (t, M, W, vs) \<longrightarrow> short_key k \<longrightarrow>
       (\<forall>(v, m) \<in> set vs. view_shows v k t (m k)) \<and> (\<forall>m. W = Some m \<longrightarrow> get_shows kUserRootBucketId k t (m k)) \<and>
       view_shows (fst (DBImpl_View t)) k (snd (DBImpl_View t)) (M k) \<and>
       (\<forall>m val v0. W = Some m \<and> putable 10 (pg_size t) m k val \<and> m k = Some (v0, False) \<and> length val \<le> length v0 \<longrightarrow>
          update_fits kUserRootBucketId k val t)"
    using new_database_refines_maps[OF sample_new_file order_refl, of sample_env 0 "[]"] by blast
  have "x = s1" using x(1) r(1) by simp
  with x(2)[rule_format, of s Map.empty "Some [[9] \<mapsto> ([19], False)]" "[(v, Map.empty)]" "[9]"] r(2)
  have "view_shows v [9] s None \<and> get_shows kUserRootBucketId [9] s (Some ([19], False))" by (simp add: short_key_def)
  then show ?thesis using r by blast
qed

end
