(* ===== verification/Atomkv_Snapshots.thy ===== *)
theory Atomkv_Snapshots
  imports Atomkv_Programs
begin

text \<open>
  The pages behind the maps of a program: the tree of an open reader does not change, no page is used twice,
  and what a commit leaves of the list of free pages.
\<close>

section \<open>A step keeps the pages of an open reader\<close>

text \<open>
  The pages \<open>P\<close> of a version \<open>u\<close>, none of them written after \<open>u\<close>: their images stay, and they stay out of reach of the allocator.
\<close>

abbreviation keeps_pages :: "TxId \<Rightarrow> PageId set \<Rightarrow> ('w, 'a) tx_db_scheme \<Rightarrow> ('w, 'a) tx_db_scheme \<Rightarrow> bool" where
  "keeps_pages u P s t \<equiv> snap u P t \<and> (\<forall>q \<in> P. nodes t q = nodes s q)"

lemma advances_keeps_pages:
  assumes "api_inv f (s, M, Some m, vs)" "advances s t" "snap u P s" "\<forall>q \<in> P. last_modified_txid (nodes s q) \<le> u"
  shows "keeps_pages u P s t"
proof -
  obtain L0 L where i: "in_place s" "tx_inv L0 L s" "tx_state f s (Some m) L" using assms(1) unfolding api_inv.simps by blast
  obtain mt where mt: "update_meta s = Some mt" using i(3) by auto
  have lt: "txid (db_meta s) < txid mt" using i(2) mt by (simp add: tx_inv_def)
  then have u: "u < txid mt" using snap_version[OF i(2) assms(3)] by (auto intro: le_less_trans)
  have old: "P \<inter> stock s = {}" using assms(3) old_not_stock[OF i(2)] by (simp add: snap_def)
  have "nodes t q = nodes s q" if q: "q \<in> P" for q
  proof -
    have "last_modified_txid (nodes s q) < txid mt" using assms(4) u q by (auto intro: le_less_trans)
    then have "needed s q" using needed_in_place[OF mt] i(1) by (simp add: in_place_def)
    then show ?thesis using assms(2) old q by (auto simp: advances_def spares_def)
  qed
  then show ?thesis using advances_snap[OF i(2) assms(3,2)] by blast
qed

lemma begin_keeps_pages:
  assumes "DB_Update w s = Inr (True, t)" "api_inv f (s, M, None, vs)" "snap u P s"
  shows "keeps_pages u P s t"
proof -
  obtain r where r: "TxManager_Update w s = Inr r" "t = TxImpl_init r"
    using assms(1) by (auto simp: DB_Update_def DBImpl_Update_def bind_res_Inr_iff)
  obtain L0 L where i: "tx_inv L0 L s" using assms(2) unfolding api_inv.simps by blast
  note k = tx_inv_Update[OF i r(1)]
  obtain mt where mt: "update_meta r = Some mt" using k(8) by blast
  have "same_core r t" unfolding r(2) TxImpl_init_def by (simp add: same_core_def mt)
  then show ?thesis using k(2)[OF assms(3)] same_core_snap k(5) by (auto simp: r(2) TxImpl_init_def)
qed

lemma commit_keeps_pages:
  assumes "UpdateTx_Commit env bcmp True s = Inr (h, t)" "api_inv f (s, M, Some m, vs)" "snap u P s"
  shows "keeps_pages u P s t"
proof -
  obtain L0 L where i: "no_list s" "tx_inv L0 L s" "tx_state f s (Some m) L" using assms(2) unfolding api_inv.simps by blast
  obtain mt where t: "update_meta s = Some mt" "user_sub_map s = None" "sub_bucket_cache s = []" using i(3) by auto
  have "TxManager_Commit env s = Inr t" using assms(1) unfolding Commit_no_sub_buckets[OF t(2,3)] by (auto simp: bind_res_Inr_iff)
  note k = tx_inv_Commit[OF i(2) t(1) i(1) this]
  show ?thesis using k(2)[OF assms(3)] k(6) by simp
qed

lemma rollback_keeps_pages:
  assumes "TxManager_RollBack env s = Inr t" "api_inv f (s, M, Some m, vs)" "snap u P s"
  shows "keeps_pages u P s t"
proof -
  obtain L0 L where i: "no_list s" "tx_inv L0 L s" "tx_state f s (Some m) L" using assms(2) unfolding api_inv.simps by blast
  obtain mt where t: "update_meta s = Some mt" using i(3) by auto
  note k = tx_inv_RollBack[OF i(2) t i(1) assms(1)]
  show ?thesis using k(2)[OF assms(3)] k(5) by simp
qed

lemma view_keeps_pages:
  assumes "DBImpl_View s = (v, t)" "api_inv f (s, M, W, vs)" "snap u P s"
  shows "keeps_pages u P s t"
proof -
  obtain L0 L where i: "tx_inv L0 L s" using assms(2) unfolding api_inv.simps by blast
  note r = DBImpl_View_result[OF assms(1)]
  have "nodes t = nodes s" using r(4) by auto
  then show ?thesis using tx_inv_View(3)[OF i r(1) assms(3)] by simp
qed

lemma end_view_keeps_pages:
  assumes "ViewTx_destroy env v s = Inr t" "api_inv f (s, M, W, vs)" "snap u P s" "readers (view_ids ws) t" "u \<in># view_ids ws"
  shows "keeps_pages u P s t"
proof -
  obtain L0 L where i: "tx_inv L0 L s" using assms(2) unfolding api_inv.simps by blast
  have rb: "TxManager_RollBackView (txid (view_meta v)) s = Inr t" using assms(1) by (simp add: ViewTx_destroy_def TxImpl_RollBack_def)
  have "u \<in> fst ` set (view_tx_map t)" using readers_count[OF assms(4), of u] assms(5) by (auto dest: map_of_fst)
  moreover have "nodes t = nodes s" using rb by (auto simp: TxManager_RollBackView_def bind_res_Inr_iff split: option.splits)
  ultimately show ?thesis using tx_inv_RollBackView(2)[OF i rb assms(3)] by simp
qed

abbreviation open_readers :: "('w, 'a) api_state \<Rightarrow> (ViewTx \<times> kv_map) list" where
  "open_readers c \<equiv> snd (snd (snd c))"

lemma step_keeps_pages:
  assumes "api_step env f c d" "api_inv f c" "10 \<le> f" "snap u P (fst c)" "\<forall>q \<in> P. last_modified_txid (nodes (fst c) q) \<le> u"
    "u \<in># view_ids (open_readers d)"
  shows "keeps_pages u P (fst c) (fst d)"
  using assms(1)
proof (cases rule: api_step.cases)
  case (begin_tx s t M vs)
  then show ?thesis using begin_keeps_pages[of "snd env" s t f M vs u P] assms(2,4) by simp
next
  case (put k val s t m M vs)
  then have "advances s t" using api_put[of f s M m vs k val "snd env"] assms(2) by (metis sum.inject(2))
  then show ?thesis using put advances_keeps_pages[of f s M m vs t u P] assms(2,4,5) by simp
next
  case (del k s r t m M vs)
  then have "advances s t" using api_del[of f s M m vs k "snd env"] assms(2,3) by (metis sum.inject(2) prod.inject)
  then show ?thesis using del advances_keeps_pages[of f s M m vs t u P] assms(2,4,5) by simp
next
  case (commit s h t M m vs)
  then show ?thesis using commit_keeps_pages[of env s h t f M m vs u P] assms(2,4) by simp
next
  case (rollback s h t M m vs)
  then have "TxManager_RollBack env s = Inr t" by (auto simp: UpdateTx_RollBack_def bind_res_Inr_iff)
  then show ?thesis using rollback rollback_keeps_pages[of env s t f M m vs u P] assms(2,4) by simp
next
  case (drop_tx s t M m vs)
  then have "TxManager_RollBack env s = Inr t" by (auto simp: UpdateTx_destroy_def UpdateTx_RollBack_def bind_res_Inr_iff)
  then show ?thesis using drop_tx rollback_keeps_pages[of env s t f M m vs u P] assms(2,4) by simp
next
  case (open_view s v t vs M W)
  then show ?thesis using view_keeps_pages[of s v t f M W vs u P] assms(2,4) by simp
next
  case (drop_view v s t m vs M W)
  have "api_inv f d" by (rule api_inv_step[OF assms(1-3)])
  then have "readers (view_ids (open_readers d)) (fst d)" using drop_view by simp
  then show ?thesis using drop_view end_view_keeps_pages[of env v s t f M W vs u P "open_readers d"] assms(2,4,6) by simp
qed

text \<open>A run during which the reader \<open>x\<close> stays open.\<close>

inductive open_run :: "('c, 'w) wal_env \<Rightarrow> nat \<Rightarrow> ViewTx \<times> kv_map \<Rightarrow> ('w, 'a) api_state \<Rightarrow> ('w, 'a) api_state \<Rightarrow> bool" for env f x where
  opened: "x \<in> set (open_readers c) \<Longrightarrow> open_run env f x c c"
| stays: "open_run env f x c d \<Longrightarrow> api_step env f d e \<Longrightarrow> x \<in> set (open_readers e) \<Longrightarrow> open_run env f x c e"

lemma open_run_pages:
  assumes "open_run env f x c d" "api_inv f c" "10 \<le> f" "snap (txid (view_meta (fst x))) P (fst c)"
    "\<forall>q \<in> P. last_modified_txid (nodes (fst c) q) \<le> txid (view_meta (fst x))"
  shows "api_inv f d \<and> keeps_pages (txid (view_meta (fst x))) P (fst c) (fst d)"
  using assms
proof (induction rule: open_run.induct)
  case (stays c d e)
  then have d: "api_inv f d" "snap (txid (view_meta (fst x))) P (fst d)" "\<forall>q \<in> P. nodes (fst d) q = nodes (fst c) q" by blast+
  have "txid (view_meta (fst x)) \<in># view_ids (open_readers e)" using stays.hyps(3) by auto
  from step_keeps_pages[OF stays.hyps(2) d(1) assms(3) d(2) _ this] have "keeps_pages (txid (view_meta (fst x))) P (fst d) (fst e)"
    using d(3) stays.prems(4) by simp
  then show ?case using api_inv_step[OF stays.hyps(2) d(1) assms(3)] d(3) by simp
qed simp


section \<open>Trees without sharing\<close>

text \<open>Slot \<open>i\<close> of page \<open>p\<close>, which a walk from the root reaches, leads to \<open>q\<close>.\<close>

definition leads :: "'a pager_db_scheme \<Rightarrow> PageId \<Rightarrow> PageId \<Rightarrow> nat \<Rightarrow> PageId \<Rightarrow> bool" where
  "leads s root p i q \<longleftrightarrow> reaches s root p \<and> IsBranch (nodes s p) \<and> i \<le> node_count (nodes s p) \<and> q = kid_page (nodes s p) i"

lemma owns_below_root:
  assumes "owns s t pid P" "p \<in> P" "IsBranch (nodes s p)" "i \<le> node_count (nodes s p)"
  shows "kid_page (nodes s p) i \<in> P - {pid}"
  using assms
proof (induction t arbitrary: pid P rule: bt_kid_induct)
  case (Leaf es)
  then show ?case by (auto simp: owns_leaf leaf_view_def IsLeaf_def IsBranch_def)
next
  case (Branch ts t)
  obtain Q where b: "branch_view s pid (map snd ts)" "P = insert pid (\<Union>i \<in> {..length ts}. Q i)" "apart pid (length ts) Q"
    "\<forall>i \<le> length ts. owns s (kid ts t i) (kid_page (nodes s pid) i) (Q i)" by (rule owns_branchE[OF Branch.prems(1)])
  have o: "branch_view s pid (map snd ts)" "P = insert pid (\<Union>i \<in> {..length ts}. Q i)" "pid \<notin> (\<Union>i \<in> {..length ts}. Q i)"
    "\<forall>i \<le> length ts. owns s (kid ts t i) (kid_page (nodes s pid) i) (Q i)" by (rule b(1), rule b(2), rule conjunct1[OF b(3)[unfolded apart_def]], rule b(4))
  show ?case
  proof (cases "p = pid")
    case True
    then have i: "i \<le> length ts" using o(1) Branch.prems(4) by (simp add: branch_view_def)
    have "kid_page (nodes s pid) i \<in> Q i" by (rule owns_root[OF o(4)[rule_format, OF i]])
    then have "kid_page (nodes s pid) i \<in> (\<Union>i \<in> {..length ts}. Q i)" using i by (intro UN_I[of i]) simp_all
    then show ?thesis using True o(2,3) by (metis DiffI insertCI singletonD)
  next
    case False
    then obtain j where j: "j \<le> length ts" "p \<in> Q j" using Branch.prems(2) o(2) by blast
    have "kid_page (nodes s p) i \<in> Q j - {kid_page (nodes s pid) j}" by (rule Branch.IH[OF j(1) o(4)[rule_format, OF j(1)] j(2) Branch.prems(3,4)])
    then have "kid_page (nodes s p) i \<in> (\<Union>i \<in> {..length ts}. Q i)" using j(1) by (intro UN_I[of j]) simp_all
    then show ?thesis using o(2,3) by (metis DiffI insertCI singletonD)
  qed
qed

lemma owns_one_way:
  assumes "owns s t pid P" "p \<in> P" "IsBranch (nodes s p)" "i \<le> node_count (nodes s p)"
    "p' \<in> P" "IsBranch (nodes s p')" "i' \<le> node_count (nodes s p')" "kid_page (nodes s p) i = kid_page (nodes s p') i'"
  shows "p = p' \<and> i = i'"
  using assms
proof (induction t arbitrary: pid P rule: bt_kid_induct)
  case (Leaf es)
  then show ?case by (auto simp: owns_leaf leaf_view_def IsLeaf_def IsBranch_def)
next
  case (Branch ts t)
  obtain Q where ob: "branch_view s pid (map snd ts)" "P = insert pid (\<Union>i \<in> {..length ts}. Q i)" "apart pid (length ts) Q"
    "\<forall>i \<le> length ts. owns s (kid ts t i) (kid_page (nodes s pid) i) (Q i)" by (rule owns_branchE[OF Branch.prems(1)])
  have o: "branch_view s pid (map snd ts)" "P = insert pid (\<Union>i \<in> {..length ts}. Q i)" "pid \<notin> (\<Union>i \<in> {..length ts}. Q i)"
    "\<forall>i \<le> length ts. owns s (kid ts t i) (kid_page (nodes s pid) i) (Q i)"
    "\<forall>i \<le> length ts. \<forall>j \<le> length ts. i \<noteq> j \<longrightarrow> Q i \<inter> Q j = {}"
    by (rule ob(1), rule ob(2), rule conjunct1[OF ob(3)[unfolded apart_def]], rule ob(4), rule conjunct2[OF ob(3)[unfolded apart_def]])
  have n: "node_count (nodes s pid) = length ts" using o(1) by (simp add: branch_view_def)
  have r: "kid_page (nodes s pid) j \<in> Q j" if "j \<le> length ts" for j by (rule owns_root[OF o(4)[rule_format, OF that]])
  have b: "kid_page (nodes s x) k \<in> Q j \<and> kid_page (nodes s x) k \<noteq> kid_page (nodes s pid) j"
    if "j \<le> length ts" "x \<in> Q j" "IsBranch (nodes s x)" "k \<le> node_count (nodes s x)" for j x k
    using owns_below_root[OF o(4)[rule_format, OF that(1)] that(2-4)] by blast
  have mixed: False if h: "x \<in> Q j" "j \<le> length ts" "IsBranch (nodes s x)" "k \<le> node_count (nodes s x)" "l \<le> length ts"
    "kid_page (nodes s x) k = kid_page (nodes s pid) l" for x j k l
    using b[OF h(2,1,3,4)] r[OF h(5)] o(5) h(2,5,6) by (cases "j = l") auto
  consider (both) "p = pid" "p' = pid" | (first) "p = pid" "p' \<noteq> pid" | (second) "p \<noteq> pid" "p' = pid" | (neither) "p \<noteq> pid" "p' \<noteq> pid" by blast
  then show ?case
  proof cases
    case both
    then have "i \<le> length ts" "i' \<le> length ts" using Branch.prems(4,7) n by simp_all
    then show ?thesis using r[of i] r[of i'] o(5) Branch.prems(8) both by (cases "i = i'") auto
  next
    case first
    then obtain j where "j \<le> length ts" "p' \<in> Q j" using Branch.prems(5) o(2) by blast
    then show ?thesis using mixed[of p' j i' i] Branch.prems(4,6,7,8) first n by simp
  next
    case second
    then obtain j where "j \<le> length ts" "p \<in> Q j" using Branch.prems(2) o(2) by blast
    then show ?thesis using mixed[of p j i i'] Branch.prems(3,4,7,8) second n by simp
  next
    case neither
    then obtain j j' where j: "j \<le> length ts" "p \<in> Q j" "j' \<le> length ts" "p' \<in> Q j'" using Branch.prems(2,5) o(2) by blast
    have "j = j'" using b[OF j(1,2) Branch.prems(3,4)] b[OF j(3,4) Branch.prems(6,7)] Branch.prems(8) o(5) j(1,3) by auto
    then show ?thesis using Branch.IH[OF j(1) o(4)[rule_format, OF j(1)] j(2) Branch.prems(3,4) _ Branch.prems(6-8)] j(4) by simp
  qed
qed

lemma leads_one_way:
  assumes "kv_tree s f ot root P" "leads s root p i q" "leads s root p' i' q"
  shows "p = p' \<and> i = i' \<and> q \<noteq> root"
proof -
  have l: "p \<in> P" "IsBranch (nodes s p)" "i \<le> node_count (nodes s p)" "q = kid_page (nodes s p) i"
    "p' \<in> P" "IsBranch (nodes s p')" "i' \<le> node_count (nodes s p')" "q = kid_page (nodes s p') i'"
    using assms kv_tree_reaches unfolding leads_def by blast+
  then obtain t where o: "owns s t root P" using assms(1) by (auto simp: kv_tree_def split: option.splits)
  have "kid_page (nodes s p) i = kid_page (nodes s p') i'" using l(4,8) by simp
  then show ?thesis using owns_one_way[OF o l(1-3,5-7)] owns_below_root[OF o l(1-3)] l(4) by simp
qed

text \<open>The pages of the newest tree, and of the committed one.\<close>

definition newest_root :: "'a pager_db_scheme \<Rightarrow> PageId" where
  "newest_root s = (case update_meta s of None \<Rightarrow> user_root (db_meta s) | Some m \<Rightarrow> user_root m)"

lemma api_newest_tree:
  assumes "api_inv f (s, M, W, vs)"
  obtains ot P where "kv_tree s f ot (newest_root s) P" "P \<inter> pages_of (free_map s @ pending_pairs s) = {}"
proof -
  obtain L0 L where i: "tx_inv L0 L s" "committed f s M L0" "tx_state f s W L" using assms unfolding api_inv.simps by blast
  have L: "L \<inter> pages_of (free_map s @ pending_pairs s) = {}" using i(1) by (simp add: tx_inv_def page_inv_def)
  show thesis
  proof (cases W)
    case None
    then have "update_meta s = None" using i(3) by simp
    then have "L0 = L" "newest_root s = user_root (db_meta s)" using i(1) by (simp_all add: tx_inv_def newest_root_def)
    then show ?thesis using that i(2) L unfolding committed_def version_def by (metis disjoint_iff subset_iff)
  next
    case (Some m)
    then obtain mt ot P where t: "update_meta s = Some mt" "bucket_tree s f ot (user_root mt) P" "P \<subseteq> L" using i(3) by auto
    have "kv_tree s f ot (newest_root s) P" using bucket_kv_tree[OF t(2)] t(1) by (simp add: newest_root_def)
    moreover have "P \<inter> pages_of (free_map s @ pending_pairs s) = {}" using L t(3) by blast
    ultimately show ?thesis by (rule that)
  qed
qed

lemma api_committed_tree:
  assumes "api_inv f (s, M, W, vs)"
  obtains ot P where "kv_tree s f ot (user_root (db_meta s)) P" "update_meta s \<noteq> None \<Longrightarrow> P \<inter> pages_of (alloc_records s) = {}"
proof -
  obtain L0 L where i: "tx_inv L0 L s" "committed f s M L0" using assms unfolding api_inv.simps by blast
  obtain ot P where p: "P \<subseteq> L0" "kv_tree s f ot (user_root (db_meta s)) P" using i(2) by (auto simp: committed_def version_def)
  have "L0 \<inter> pages_of (alloc_records s) = {}" if "update_meta s \<noteq> None" using i(1) that by (auto simp: tx_inv_def undo_def)
  then show thesis using that[OF p(2)] p(1) by blast
qed


section \<open>Properties\<close>

text \<open>
  C15: Snapshot isolation of the pages. A reader is open on a version; then a program begins, commits, rolls back and drops
  update transactions, puts and deletes in the user bucket, and opens and closes other readers, in any order, while it stays open.
  Every page that a walk down from the root of the reader reaches still has the image it had, the walk still reaches it, it is not
  free and not an allocation of the running transaction, and if it waits in the pending pages, then for a version after the reader's. The scope is that of the programs
  \<open>api_run\<close>: the mode \<^verbatim>\<open>kUpdateInPlace\<close>, no sub-buckets, and entries that need no overflow pages, so that the image of the page is all the reader sees.
\<close>

theorem open_reader_pages_stable:
  assumes "api_inv f c0" "api_run env f c0 c" "open_run env f (v, m) c d" "10 \<le> f" "reaches (fst c) (user_root (view_meta v)) q"
  shows "nodes (fst d) q = nodes (fst c) q \<and> reaches (fst d) (user_root (view_meta v)) q \<and> q \<notin> pages_of (free_map (fst d)) \<and>
    (update_meta (fst d) \<noteq> None \<longrightarrow> q \<notin> pages_of (alloc_records (fst d))) \<and>
    (\<forall>e \<in> set (pending_map (fst d)). q \<in> pages_of (snd e) \<longrightarrow> txid (view_meta v) < fst e)"
proof -
  have i: "api_inv f c" by (rule api_inv_run[OF assms(2,1,4)])
  have "(v, m) \<in> set (open_readers c)" using assms(3) by (induction rule: open_run.induct) simp_all
  then have "view_holds f (fst c) v m" using i by (cases c) fastforce
  then obtain P where P: "version (fst c) f (user_root (view_meta v)) (txid (view_meta v)) P m" "snap (txid (view_meta v)) P (fst c)"
    by (auto simp: view_holds_def)
  have k: "keeps_pages (txid (view_meta v)) P (fst c) (fst d)"
    using open_run_pages[OF assms(3) i assms(4), of P] P by (simp add: version_def)
  have inP: "p \<in> P" if "reaches (fst c) (user_root (view_meta v)) p" for p
    using P(1) kv_tree_reaches[OF that] unfolding version_def by blast
  have "reaches (fst d) (user_root (view_meta v)) p" if "reaches (fst c) (user_root (view_meta v)) p" for p
    using that
  proof (induction rule: reaches.induct)
    case (below p j)
    then show ?case using k inP[OF below.hyps(1)] reaches.below[of "fst d" _ p j] by simp
  qed (rule at_root)
  then show ?thesis using k inP[OF assms(5)] assms(5) unfolding snap_def by blast
qed

text \<open>While the reader is open, key 9 is deleted.\<close>

theorem open_reader_pages_stable_witness:
  "\<exists>v c (s :: byte list list txn_db). open_run sample_env 10 (v, sample_map) c (s, sample_map, Some (sample_map([9] := None)), [(v, sample_map)]) \<and>
     fst c \<noteq> s \<and> nodes s (user_root (view_meta v)) = nodes (fst c) (user_root (view_meta v)) \<and> user_root (view_meta v) \<notin> pages_of (free_map s)"
proof -
  let ?c0 = "(sample_start, sample_map, None, [])"
  obtain v u s where r: "api_run sample_env 10 ?c0 (u, sample_map, Some sample_map, [(v, sample_map)])"
    "api_step sample_env 10 (u, sample_map, Some sample_map, [(v, sample_map)]) (s, sample_map, Some (sample_map([9] := None)), [(v, sample_map)])"
    by (rule sample_delete)
  let ?c = "(u, sample_map, Some sample_map, [(v, sample_map)])" and ?d = "(s, sample_map, Some (sample_map([9] := None)), [(v, sample_map)])"
  have o: "open_run sample_env 10 (v, sample_map) ?c ?d" by (rule stays[OF opened r(2)]) simp_all
  have i: "api_inv 10 ?c" "api_inv 10 ?d"
    using api_inv_run[OF r(1) sample_api_inv] api_inv_step[OF r(2)] by auto
  have k: "short_key [9]" "sample_map [9] \<noteq> None" by (simp_all add: short_key_def sample_bt_def contents_def)
  have "s \<noteq> u"
  proof
    assume "s = u"
    then have "get_shows kUserRootBucketId [9] u (sample_map [9])" "get_shows kUserRootBucketId [9] u None"
      using api_inv_tx[OF i(1) k(1)] api_inv_tx[OF i(2) k(1)] by simp_all
    then show False using k(2) by (auto simp: get_shows_def finds_def split: option.splits)
  qed
  moreover have "view_holds 10 u v sample_map" using i(1) by simp
  then obtain ot P where "kv_tree u 10 ot (user_root (view_meta v)) P" "sample_map = map_of (contents ot)" unfolding view_holds_def version_def by blast
  then have "user_root (view_meta v) \<noteq> kPageInvalidId"
    using k(2) tree_page_valid[OF owns_tree] by (cases ot) (auto simp: contents_def kv_tree_def)
  then have "reaches u (user_root (view_meta v)) (user_root (view_meta v))" by (rule at_root)
  then have "nodes s (user_root (view_meta v)) = nodes u (user_root (view_meta v)) \<and> user_root (view_meta v) \<notin> pages_of (free_map s)"
    using open_reader_pages_stable[OF sample_api_inv r(1) o order_refl] by simp
  ultimately show ?thesis using o by (intro exI[of _ v] exI[of _ ?c] exI[of _ s]) auto
qed

text \<open>
  C16: No page is used twice. In every state that a program of transactions, \<^verbatim>\<open>Put\<close>, \<^verbatim>\<open>Delete\<close> and readers reaches (\<open>api_run\<close>: the user bucket without sub-buckets,
  small entries, the mode \<^verbatim>\<open>kUpdateInPlace\<close>): the free runs and the pending runs are not empty, lie in the file and are pairwise
  disjoint; no page that a walk from the newest root reaches (the root of the running transaction, or the committed one when none is open)
  is free or pending; no page that a walk from the committed root reaches is an allocation of the running transaction, so that undoing the
  transaction cannot free it; and in the tree of the committed version, of the running transaction and of every open reader,
  each page below the root hangs on one slot of one page only.
\<close>

theorem tree_pages_exclusive:
  assumes "api_inv f c" "api_run env f c (s, M, W, vs)" "10 \<le> f"
  shows "runs_ok (limit s) (free_map s @ pending_pairs s) \<and>
    (\<forall>q. reaches s (newest_root s) q \<longrightarrow> q \<notin> pages_of (free_map s @ pending_pairs s)) \<and>
    (\<forall>q. update_meta s \<noteq> None \<and> reaches s (user_root (db_meta s)) q \<longrightarrow> q \<notin> pages_of (alloc_records s)) \<and>
    (\<forall>root \<in> roots (s, M, W, vs). \<forall>p i p' i' q. leads s root p i q \<and> leads s root p' i' q \<longrightarrow> p = p' \<and> i = i' \<and> q \<noteq> root)"
proof (intro conjI allI impI ballI)
  have i: "api_inv f (s, M, W, vs)" by (rule api_inv_run[OF assms(2,1,3)])
  then obtain L0 L where "tx_inv L0 L s" unfolding api_inv.simps by blast
  then have pi: "page_inv L s" by (simp add: tx_inv_def)
  then show "runs_ok (limit s) (free_map s @ pending_pairs s)"
    using free_ok_runs_ok[of "limit s" "free_map s"] unfolding runs_ok_append by (simp add: page_inv_def map_inv_def)
  show "q \<notin> pages_of (free_map s @ pending_pairs s)" if r: "reaches s (newest_root s) q" for q
  proof -
    obtain ot P where "kv_tree s f ot (newest_root s) P" "P \<inter> pages_of (free_map s @ pending_pairs s) = {}" by (rule api_newest_tree[OF i])
    then show ?thesis using kv_tree_reaches[OF r] by blast
  qed
  show "q \<notin> pages_of (alloc_records s)" if r: "update_meta s \<noteq> None \<and> reaches s (user_root (db_meta s)) q" for q
  proof -
    obtain ot P where "kv_tree s f ot (user_root (db_meta s)) P" "update_meta s \<noteq> None \<longrightarrow> P \<inter> pages_of (alloc_records s) = {}"
      by (rule api_committed_tree[OF i]) blast
    then show ?thesis using kv_tree_reaches[of s "user_root (db_meta s)" q f ot P] r by blast
  qed
  fix root p i' p' j q
  assume root: "root \<in> roots (s, M, W, vs)" and l: "leads s root p i' q \<and> leads s root p' j q"
  then obtain ot P where "kv_tree s f ot root P" using api_inv_roots[OF i root] by blast
  from leads_one_way[OF this] l show "p = p'" "i' = j" "q \<noteq> root" by blast+
qed

theorem tree_pages_exclusive_witness:
  "\<exists>v s. api_run sample_env 10 (sample_start, sample_map, None, []) (s, sample_map, Some (sample_map([9] := None)), [(v, sample_map)]) \<and>
     disjoint_runs (free_map s @ pending_pairs s) \<and> (newest_root s \<noteq> kPageInvalidId \<longrightarrow> newest_root s \<notin> pages_of (free_map s @ pending_pairs s))"
proof -
  obtain v s where r: "api_run sample_env 10 (sample_start, sample_map, None, []) (s, sample_map, Some (sample_map([9] := None)), [(v, sample_map)])"
    by (rule sample_run)
  show ?thesis using tree_pages_exclusive[OF sample_api_inv r order_refl] r at_root[of "newest_root s" s] by (auto simp: runs_ok_def)
qed

text \<open>What \<^verbatim>\<open>SaveFreeList\<close> leaves when it writes a list.\<close>

lemma SaveFreeList_list:
  assumes "page_inv L s" "update_meta s = Some m" "free_list_pgid m = kPageInvalidId" "256 \<le> pg_size s" "saved_pairs s \<noteq> []" "SaveFreeList s = Inr u"
  shows "\<exists>mu. update_meta u = Some mu \<and> free_list_pgid mu \<noteq> kPageInvalidId \<and> free_pair_count mu = length (saved_pairs u) \<and>
    mem_read (mem u) (GetPtr (free_list_pgid mu) 0 u) (8 * length (saved_pairs u)) = concat (map pair_bytes (saved_pairs u))"
proof -
  have old: "free_list_pgid m \<noteq> kPageInvalidId \<longrightarrow> 0 < free_list_page_count m \<and> run (free_list_pgid m, free_list_page_count m) \<subseteq> L"
    and ne: "0 < length (saved_pairs s)" using assms(3,5) by simp_all
  show ?thesis by (rule SaveFreeList_result[OF assms(1,2) old assms(4) ne assms(6)]) blast
qed

text \<open>
  C26: The list of free pages is dropped. In every state with a running transaction that a program of transactions, \<^verbatim>\<open>Put\<close>, \<^verbatim>\<open>Delete\<close> and readers reaches (\<open>api_run\<close>: the user bucket without sub-buckets,
  small entries, the mode \<^verbatim>\<open>kUpdateInPlace\<close>),
  a commit that returns has written the free and the
  pending pages to the file, with the page of the list in the meta struct of the transaction; but it had copied that struct before. The
  committed struct names no list, so a start of the database from it finds no free page: all of them are lost.
  A checkpoint inside a transaction, as \<^verbatim>\<open>Logger::~Logger\<close> takes one in the mode \<^verbatim>\<open>kWal\<close>, writes the list before the commit copies the struct;
  those runs are not of this mode.
\<close>

theorem free_list_dropped:
  assumes "api_inv f c" "api_run env f c (s, M, Some m, vs)" "10 \<le> f" "UpdateTx_Commit env bcmp True s = Inr (h, t)"
  shows "\<exists>mt u. update_meta s = Some mt \<and> SaveFreeList (Meta_Reset mt s) = Inr u \<and> saved_pairs t = saved_pairs u \<and>
    (saved_pairs s \<noteq> [] \<longrightarrow> (\<exists>mu. update_meta u = Some mu \<and> free_list_pgid mu \<noteq> kPageInvalidId \<and> free_pair_count mu = length (saved_pairs u) \<and>
       mem_read (mem u) (GetPtr (free_list_pgid mu) 0 u) (8 * length (saved_pairs u)) = concat (map pair_bytes (saved_pairs u)))) \<and>
    free_list_pgid (db_meta t) = kPageInvalidId \<and>
    LoadFreeList (reopened (db_meta t) t) = Inr (reopened (db_meta t) t) \<and> free_map (reopened (db_meta t) t) = []"
proof -
  have i: "api_inv f (s, M, Some m, vs)" by (rule api_inv_run[OF assms(2,1,3)])
  then obtain L0 L where j: "in_place s" "no_list s" "tx_inv L0 L s" "tx_state f s (Some m) L" unfolding api_inv.simps by blast
  obtain mt where mt: "update_meta s = Some mt" "user_sub_map s = None" "sub_bucket_cache s = []" using j(4) by auto
  have c: "TxManager_Commit env s = Inr t" using assms(4) unfolding Commit_no_sub_buckets[OF mt(2,3)] by (auto simp: bind_res_Inr_iff)
  have md: "mode (options s) = kUpdateInPlace" using j(1) by (simp add: in_place_def)
  obtain u where u: "SaveFreeList (Meta_Reset mt s) = Inr u" "t = (Meta_Save (fst env) (Meta_Switch u))\<lparr>update_meta := None, update_lock := False\<rparr>"
    using c mt(1) md by (auto simp: TxManager_Commit_def bind_res_Inr_iff Let_def)
  have sp: "saved_pairs t = saved_pairs u" by (simp add: u(2) saved_pairs_def pending_pairs_def Meta_Save_def Meta_Switch_def Let_def)
  let ?r = "Meta_Reset mt s"
  have r: "page_inv L ?r" "update_meta ?r = Some mt" "free_list_pgid mt = kPageInvalidId" "256 \<le> pg_size ?r" "saved_pairs ?r = saved_pairs s"
    using j(2,3) mt(1) by (simp_all add: Meta_Reset_def tx_inv_def page_inv_def map_inv_def limit_def pending_pairs_def saved_pairs_def no_list_def)
  have w: "\<exists>mu. update_meta u = Some mu \<and> free_list_pgid mu \<noteq> kPageInvalidId \<and> free_pair_count mu = length (saved_pairs u) \<and>
       mem_read (mem u) (GetPtr (free_list_pgid mu) 0 u) (8 * length (saved_pairs u)) = concat (map pair_bytes (saved_pairs u))"
    if "saved_pairs s \<noteq> []" using SaveFreeList_list[OF r(1-4) _ u(1)] r(5) that by simp
  have nl: "free_list_pgid (db_meta t) = kPageInvalidId" using tx_inv_Commit(4)[OF j(3) mt(1) j(2) c] by (simp add: no_list_def)
  have "LoadFreeList (reopened (db_meta t) t) = Inr (reopened (db_meta t) t)" using nl by (simp add: LoadFreeList_def Let_def)
  then show ?thesis using mt(1) u(1) sp w nl by simp
qed

text \<open>In the sample the commit returns; page 2 is free before and after it, and the next start finds no free page.\<close>

theorem free_list_dropped_witness:
  "\<exists>(u :: byte list list txn_db) t. UpdateTx_Commit sample_env bcmp True u = Inr (False, t) \<and> saved_pairs u \<noteq> [] \<and> free_map (reopened (db_meta t) t) = [] \<and>
     LoadFreeList (reopened (db_meta t) t) = Inr (reopened (db_meta t) t)"
proof -
  obtain v u where r: "api_run sample_env 10 (sample_start, sample_map, None, []) (u, sample_map, Some sample_map, [(v, sample_map)])" "reserve u" "list_room u"
    "free_map u = [(2, 1)]" by (rule sample_begun)
  have i: "api_inv 10 (u, sample_map, Some sample_map, [(v, sample_map)])" by (rule api_inv_run[OF r(1) sample_api_inv]) simp
  obtain t where t: "UpdateTx_Commit sample_env bcmp True u = Inr (False, t)" using api_commit_returns[OF i r(3)] by blast
  have "saved_pairs u \<noteq> []" using r(4) by (simp add: saved_pairs_def)
  then show ?thesis using t free_list_dropped[OF sample_api_inv r(1) order_refl t] by blast
qed

end
