(* ===== verification/Atomkv_WAL_Spec.thy ===== *)
theory Atomkv_WAL_Spec
  imports Atomkv_API
begin

text \<open>
  The copy rule in the mode \<^verbatim>\<open>kWal\<close>. A page that was written after the last checkpoint and before the oldest open
  version is changed in place, although the committed version and the open readers have it. A put into such a page is seen by the readers
  at once and stays after a rollback.
\<close>

section \<open>A put into a page that is not copied\<close>

lemma put_into_page:
  fixes s :: "('w, 'a) tx_db_scheme"
  assumes "leaf_page s root x es" "ordered_bt (BLeaf es)" "tx_open s" "\<not> needed s root" "k \<notin> fst ` set es" "small_entry f (pg_size s) (k, v, b)"
    "0 < length k + length v" "leaf_cost es + entry_cost (k, v, b) \<le> pg_size s - 18"
  obtains t where "BTree_Put bcmp c k v b root s = Inr (root, t)" "touches {root} s t" "leaf_page t root x (ins_entry k (v, b) es)"
proof -
  have p: "owns s (BLeaf es) root {root}" "root < kPageMaxCount" "\<not> IsBranch (nodes s root)"
    using assms(1) by (auto simp: leaf_page_def owns_leaf leaf_view_def IsLeaf_def IsBranch_def)
  obtain it where it: "BTree_LowerBound bcmp c root k s = Inr it" "iter_wf it" "path_to s (BLeaf es) root (trail it)"
    "\<forall>e \<in> set (before (BLeaf es) (trail it)). fst e < k" "\<forall>e \<in> set (after (BLeaf es) (trail it)). k \<le> fst e"
    "status it = leaf_status k (focus (BLeaf es) (trail it)) (snd (last (trail it)))"
    by (rule LowerBound_tree[OF owns_tree[OF p(1)] assms(2), of k c]) (use assms(6) in \<open>auto simp: small_entry_def\<close>)
  obtain i where i: "trail it = [(root, i)]" "i \<le> length es" using it(3) by (cases "trail it") auto
  have "stack_size (path it) = length (trail it)" using it(2) by (auto simp: stack_size_def iter_wf_def stack_inv_def stack_list_def)
  then have sz: "\<not> iter_Empty it" "stack_size (path it) = 1" "stack_at (path it) 0 = Inr (root, i)" "Front it = Inr (root, i)"
    using iter_Empty_trail[OF it(2)] i(1) it(2) stack_at_list[of 32 "path it" 0] Front_trail[OF it(2)] by (simp_all add: iter_wf_def)
  have "copy_path (Suc 0) kPageInvalidId root it s = Inr (root, it, s)"
    using sz(3) Reference_ok[OF p(2), of s] CopyNeeded_returns[OF assms(3), of root] assms(4) p(3) by (simp add: copy_path.simps(2) relink_def)
  then have cp: "CopyAllPagesByPath root it s = Inr (root, it, s)" using sz(1,2) by (simp add: CopyAllPagesByPath_def)
  have st: "status it \<noteq> kEq" using assms(5) it(6) i by (auto simp: leaf_status_def)
  have "ins_entry k (v, b) es = insert_at i (k, v, b) es"
    using ins_entry_slot(2)[of es i k "(v, b)"] assms(2,5) it(4,5) i by simp
  moreover obtain s1 t where r: "LeafNode_Insert root i k v s = Inr (True, s1)" "on_node root (SetIsBucket i b) s1 = Inr t" "touches {root} s t"
    "leaf_page t root x (insert_at i (k, v, b) es)"
    by (rule leaf_insert[OF assms(1) i(2) _ assms(8)]) (use small_entry_fit[OF assms(6)] assms(7) in simp)
  moreover have "BTree_Put bcmp c k v b root s = Inr (root, t)"
    using it(1) cp sz(1,4) st r(1,2) Reference_ok[OF p(2), of s] by (simp add: BTree_Put_def Put_Leaf_def)
  ultimately show thesis using that by simp
qed

text \<open>What \<^verbatim>\<open>Update\<close> leaves of a state.\<close>

lemma begun:
  fixes s :: "('w, 'a) txn_db_scheme"
  assumes "DB_Update w s = Inr (True, t)" "tx_inv L L s" "no_list s"
  obtains mt where "update_meta t = Some mt" "user_root mt = user_root (db_meta s)" "txid mt = txid (db_meta s) + 1" "nodes t = nodes s" "pg_size t = pg_size s"
    "db_meta t = db_meta s" "persisted_txid t = persisted_txid s" "min_view_txid t = oldest s" "tx_inv L L t" "no_list t"
proof -
  obtain u where u: "TxManager_Update w s = Inr u" "t = TxImpl_init u"
    using assms(1) by (auto simp: DB_Update_def DBImpl_Update_def bind_res_Inr_iff)
  note k = tx_inv_Update[OF assms(2) u(1)] and fu = Update_fields[OF u(1)]
  obtain mt where mt: "update_meta u = Some mt" using k(8) by blast
  have "same_core u t" unfolding u(2) TxImpl_init_def by (simp add: same_core_def mt)
  then have "tx_inv L L t" using k(1) same_core_tx_inv by blast
  then show thesis using that[of mt] k(3)[OF assms(3)] k(5-7,9-11) mt fu(4) by (simp add: u(2) TxImpl_init_def no_list_def)
qed

lemma Checkpoint_pg_size: "Checkpoint env s = Inr t \<Longrightarrow> pg_size t = pg_size s"
  by (auto simp: Checkpoint_def bind_res_Inr_iff Let_def AppendWalTxIdLog_def AppendLog_def Logger_Reset_def Meta_Save_def Meta_Switch_def dest!: more_SaveFreeList)

lemma RollBack_pg_size:
  assumes "TxManager_RollBack env s = Inr t"
  shows "pg_size t = pg_size s"
proof -
  obtain s2 s3 where r: "(if mode (options s) = kWal then let s1 = AppendRollbackLog (snd env) s in if checkpoint_needed s1 then Checkpoint env s1 else Inr s1
      else Inr s) = Inr s2" "Rollback s2 = Inr s3" "t = s3\<lparr>update_meta := None, update_lock := False\<rparr>"
    using assms by (auto simp: TxManager_RollBack_def bind_res_Inr_iff)
  have "pg_size s2 = pg_size s" using r(1) by (auto simp: Let_def AppendRollbackLog_def AppendLog_def split: if_splits dest: Checkpoint_pg_size)
  then show ?thesis using more_Rollback[OF r(2)] by (simp add: r(3))
qed

text \<open>\<^verbatim>\<open>Put\<close> on the user bucket, when its tree is such a page.\<close>

lemma bucket_put_into_page:
  fixes s :: "('w, 'a) txn_db_scheme"
  assumes "update_meta s = Some mt" "leaf_page s (user_root mt) x es" "ordered_bt (BLeaf es)" "\<not> needed s (user_root mt)" "k \<notin> fst ` set es"
    "small_entry f (pg_size s) (k, v, False)" "0 < length k + length v" "leaf_cost es + entry_cost (k, v, False) \<le> pg_size s - 18"
  obtains t where "UpdateBucket_Put w bcmp kUserRootBucketId k v s = Inr t" "leaf_page t (user_root mt) x (ins_entry k (v, False) es)"
    "same_core s t" "update_meta t = Some mt" "db_meta t = db_meta s" "pg_size t = pg_size s"
    "\<exists>nn. t = (AppendPutLog w kUserRootBucketId k v False s)\<lparr>nodes := nn\<rparr>"
proof -
  let ?s = "AppendPutLog w kUserRootBucketId k v False s" and ?r = "user_root mt"
  obtain wr ck where l: "?s = s\<lparr>writer := wr, checkpoint_needed := ck\<rparr>" using logs_Append(1)[of s w kUserRootBucketId k v False] unfolding logs_def by blast
  have lp: "leaf_page ?s ?r x es" using assms(2) leaf_page_cong[of ?s ?r s] by (simp add: l)
  have nd: "\<not> needed ?s ?r" using assms(4) by (simp add: l needed_def CopyNeeded_def update_tx_def IsTxExpired_def)
  obtain t where t: "BTree_Put bcmp kUserRootBucketId k v False ?r ?s = Inr (?r, t)" "touches {?r} ?s t" "leaf_page t ?r x (ins_entry k (v, False) es)"
    by (rule put_into_page[OF lp assms(3) _ nd assms(5) _ assms(7)]) (use assms(1,6,8) in \<open>simp_all add: l tx_open_def\<close>)
  obtain nn where nn: "t = ?s\<lparr>nodes := nn\<rparr>" using t(2) by (auto simp: touches_def)
  have um: "update_meta t = Some mt" using assms(1) by (simp add: nn l)
  have u: "UpdateBucket_Put w bcmp kUserRootBucketId k v s = Inr (t\<lparr>update_meta := Some (mt\<lparr>user_root := ?r\<rparr>)\<rparr>)"
    using assms(1) t(1) um by (simp add: UpdateBucket_Put_def Bucket_Put_def Let_def bucket_root_def set_bucket_root_def root_place_def update_tx_def l)
  have same: "t\<lparr>update_meta := Some (mt\<lparr>user_root := ?r\<rparr>)\<rparr> = t" using um by (cases t) simp
  have "same_core s t" using assms(1) by (simp add: nn l same_core_def)
  then show thesis using that[OF u[unfolded same] t(3) _ um _ _ exI[of _ nn]] nn by (simp add: l)
qed

lemma leaf_kv_tree:
  assumes "leaf_page s root x es" "sorted_wrt (<) (map fst es)" "\<forall>e \<in> set es. small_entry f (pg_size s) e"
  shows "kv_tree s f (Some (BLeaf es)) root {root}"
  using assms by (auto simp: kv_tree_def leaf_page_def owns_leaf inline_node_def wf_node_def small_entry_def)

lemma leaf_view_shows:
  fixes s :: "('w, 'a) txn_db_scheme"
  assumes "leaf_page s root x es" "sorted_wrt (<) (map fst es)" "\<forall>e \<in> set es. small_entry f (pg_size s) e" "user_root (view_meta r) = root" "short_key k"
  shows "view_shows r k s (map_of es k)"
proof -
  have "version s f (user_root (view_meta r)) x {root} (map_of es)"
    unfolding version_def using leaf_kv_tree[OF assms(1-3)] assms(1,4) by (auto simp: leaf_page_def contents_def intro!: exI[of _ "Some (BLeaf es)"])
  from version_view[OF this assms(5)] show ?thesis .
qed


section \<open>A sample\<close>

text \<open>Version 5 is committed, the last checkpoint was at 2, and the tree is the page 4, which transaction 4 wrote last.\<close>

definition sample_wal :: "byte list list txn_db" where
  "sample_wal = sample_txn\<lparr>update_meta := None, db_meta := sample_meta\<lparr>user_root := 4, txid := 5\<rparr>, update_lock := False,
     options := sample_options kWal, persisted_txid := 2, pending_map := []\<rparr>"

lemma sample_wal_eval:
  "pg_size sample_wal = 256" "nodes sample_wal 4 = sample_pair 5 9" "update_meta sample_wal = None" "db_meta sample_wal = sample_meta\<lparr>user_root := 4, txid := 5\<rparr>"
  "persisted_txid sample_wal = 2" "oldest sample_wal = 5" "no_list sample_wal"
  by (simp_all add: sample_wal_def sample_wide_def sample_update_def sample_tree_db_def sample_pair_def oldest_def no_list_def sample_meta_def)

lemma sample_wal_page: "leaf_page sample_wal 4 4 [([5], [15], False), ([9], [19], False)]"
proof -
  note e = sample_wal_eval
  have two: "{..<2::nat} = {0, 1}" by auto
  have "leaf_view sample_wal 4 [([5], [15], False), ([9], [19], False)]"
    using e(1,2) by (simp add: leaf_view_def sample_pair_def kPageMaxCount_def IsLeaf_def GetKey_def GetValue_def GetRecord_def mem_read_def All_less_Suc upt_rec)
  moreover have "inline_node sample_wal 4"
    using e(1,2) by (simp add: inline_node_def wf_node_def page_ok_def layout_def sample_pair_def raw_size_def IsLeaf_def two)
  ultimately show ?thesis using e(2) by (simp add: leaf_page_def sample_pair_def)
qed

lemma sample_wal_inv: "tx_inv sample_live sample_live sample_wal"
proof -
  have "page_inv sample_live sample_wal"
    by (auto simp: page_inv_def map_inv_def sample_wal_def sample_wide_def sample_update_def sample_meta_def limit_def free_ok_def pending_pairs_def)
  then show ?thesis
    by (simp add: tx_inv_def sample_wal_eval) (simp add: sample_wal_def sample_wide_def sample_update_def sample_meta_def kTxInvalidId_def)
qed

lemma sample_wal_begun:
  obtains s1 where "DB_Update sample_writer sample_wal = Inr (True, s1)" "alloc_records s1 = []" "checkpoint_needed s1 = False" "options s1 = sample_options kWal"
    "length (concat (writer s1)) \<le> 1" "disable_writing s1 = False"
  by (simp add: DB_Update_def DBImpl_Update_def TxImpl_init_def TxManager_Update_def sample_wal_def sample_wide_def sample_update_def sample_meta_def
      sample_options_def Let_def ClearPendingMmap_def CopyMetaInfo_def throw_if_def kTxInvalidId_def Release_def assert_res_def AppendBeginLog_def AppendLog_def
      sample_writer_def)

section \<open>Properties\<close>

text \<open>
  C14: Isolation and rollback fail in the mode \<^verbatim>\<open>kWal\<close>. When the tree of the committed version is one page that was written after
  the last checkpoint and before the oldest open version, a \<^verbatim>\<open>Put\<close> of a new key in the next transaction is seen at once by every
  reader of that tree, who did not see it before, and after the transaction has been rolled back a new reader still finds the entry.
\<close>

theorem wal_put_survives_rollback:
  fixes s :: "('w, 'a) txn_db_scheme"
  assumes "tx_inv L L s" "no_list s" "leaf_page s root x es" "root = user_root (db_meta s)" "ordered_bt (BLeaf es)" "\<forall>e \<in> set es. small_entry f (pg_size s) e"
    "persisted_txid s < x" "x < oldest s" "DB_Update w s = Inr (True, s1)"
    "k \<notin> fst ` set es" "small_entry f (pg_size s) (k, v, False)" "0 < length k + length v" "leaf_cost es + entry_cost (k, v, False) \<le> pg_size s - 18"
  shows "\<exists>t. UpdateBucket_Put w bcmp kUserRootBucketId k v s1 = Inr t \<and>
    (\<forall>r. user_root (view_meta r) = root \<longrightarrow> view_shows r k s1 None \<and> view_shows r k t (Some (v, False))) \<and>
    (\<forall>h u. UpdateTx_RollBack env True t = Inr (h, u) \<longrightarrow> view_shows (fst (DBImpl_View u)) k (snd (DBImpl_View u)) (Some (v, False)))"
proof -
  obtain mt where b: "update_meta s1 = Some mt" "user_root mt = root" "nodes s1 = nodes s" "pg_size s1 = pg_size s" "db_meta s1 = db_meta s"
    "persisted_txid s1 = persisted_txid s" "min_view_txid s1 = oldest s" "tx_inv L L s1" "no_list s1"
    using begun[OF assms(9,1,2)] assms(4) by metis
  let ?es = "ins_entry k (v, False) es"
  have lp: "leaf_page s1 root x es" using assms(3) leaf_page_cong[of s1 root s] b(3,4) by simp
  have nd: "\<not> needed s1 root"
    using assms(7,8) lp b(1,6,7) by (simp add: leaf_page_def needed_def CopyNeeded_def update_tx_def IsTxExpired_def)
  have k: "short_key k" "sorted_wrt (<) (map fst es)" using assms(5,11) by (simp_all add: small_entry_def)
  obtain t where t: "UpdateBucket_Put w bcmp kUserRootBucketId k v s1 = Inr t" "leaf_page t root x ?es" "same_core s1 t" "update_meta t = Some mt"
    "db_meta t = db_meta s1" "pg_size t = pg_size s1"
    using bucket_put_into_page[OF b(1), unfolded b(2), OF lp assms(5) nd assms(10), of f v w] assms(11-13) b(4) by metis
  have es: "sorted_wrt (<) (map fst ?es)" "\<forall>e \<in> set ?es. small_entry f (pg_size s) e" "map_of ?es k = Some (v, False)"
    using ins_entry_sorted[OF k(2), of k "(v, False)"] assms(6,11) by auto
  have nk: "map_of es k = None" using assms(10) by (simp add: map_of_eq_None_iff)
  have "view_shows r k s1 None" "view_shows r k t (Some (v, False))" if r: "user_root (view_meta r) = root" for r
    using leaf_view_shows[OF lp k(2) _ r k(1), of f] leaf_view_shows[OF t(2) es(1) _ r k(1), of f] assms(6) es(2,3) b(4) t(6) nk by simp_all
  moreover have "view_shows (fst (DBImpl_View u)) k (snd (DBImpl_View u)) (Some (v, False))" if rb: "UpdateTx_RollBack env True t = Inr (h, u)" for h u
  proof -
    have rb': "TxManager_RollBack env t = Inr u" using rb by (auto simp: UpdateTx_RollBack_def bind_res_Inr_iff)
    have inv: "tx_inv L L t" "no_list t" using b(1,8,9) t(3,4,5) same_core_tx_inv[OF t(3)] by (simp_all add: no_list_def)
    note n = tx_inv_RollBack(5,6)[OF inv(1) t(4) inv(2) rb'] and pg = RollBack_pg_size[OF rb']
    obtain r y where y: "DBImpl_View u = (r, y)" by fastforce
    note vr = DBImpl_View_result(2,4)[OF y]
    obtain vm where vm: "y = u\<lparr>view_tx_map := vm\<rparr>" using vr(2) by blast
    have ps: "nodes y = nodes t" "pg_size y = pg_size t" using n(1) pg by (simp_all add: vm)
    have "user_root (view_meta r) = root" using vr(1) n(2) t(5) b(5) assms(4) by simp
    moreover have "leaf_page y root x ?es" using t(2) leaf_page_cong[of y root t] ps by simp
    ultimately show ?thesis using leaf_view_shows[of y root x ?es f r k] es ps(2) t(6) b(4) k(1) y by simp
  qed
  ultimately show ?thesis using t(1) by blast
qed

text \<open>Transaction 6 puts key 7 and rolls back; a new reader finds it.\<close>

theorem wal_put_survives_rollback_witness:
  "\<exists>s1 t h u. DB_Update sample_writer sample_wal = Inr (True, s1) \<and> UpdateBucket_Put sample_writer bcmp kUserRootBucketId [7] [17] s1 = Inr t \<and>
     UpdateTx_RollBack sample_env True t = Inr (h, u) \<and> view_shows (fst (DBImpl_View u)) [7] (snd (DBImpl_View u)) (Some ([17], False))"
proof -
  note e = sample_wal_eval
  obtain s1 where s1: "DB_Update sample_writer sample_wal = Inr (True, s1)" "alloc_records s1 = []" "checkpoint_needed s1 = False"
    "options s1 = sample_options kWal" "length (concat (writer s1)) \<le> 1" "disable_writing s1 = False" by (rule sample_wal_begun)
  let ?es = "[([5], [15], False), ([9], [19], False)] :: entry list"
  have h: "ordered_bt (BLeaf ?es)" "\<forall>e \<in> set ?es. small_entry 4 (pg_size sample_wal) e" "small_entry 4 (pg_size sample_wal) ([7], [17], False)"
    "leaf_cost ?es + entry_cost ([7], [17], False) \<le> pg_size sample_wal - 18" "[7] \<notin> fst ` set ?es"
    using e(1) by (simp_all add: small_entry_def entry_cost_def key_bound_def short_key_def)
  have main: "\<exists>t. UpdateBucket_Put sample_writer bcmp kUserRootBucketId [7] [17] s1 = Inr t \<and>
    (\<forall>r. user_root (view_meta r) = 4 \<longrightarrow> view_shows r [7] s1 None \<and> view_shows r [7] t (Some ([17], False))) \<and>
    (\<forall>h u. UpdateTx_RollBack sample_env True t = Inr (h, u) \<longrightarrow> view_shows (fst (DBImpl_View u)) [7] (snd (DBImpl_View u)) (Some ([17], False)))"
    by (rule wal_put_survives_rollback[OF sample_wal_inv e(7) sample_wal_page _ h(1,2) _ _ s1(1) h(5,3) _ h(4)]) (simp_all add: e)
  obtain mt where b: "update_meta s1 = Some mt" "user_root mt = 4" "nodes s1 = nodes sample_wal" "pg_size s1 = 256" "persisted_txid s1 = 2" "min_view_txid s1 = 5"
    by (rule begun[OF s1(1) sample_wal_inv e(7)]) (simp add: e)
  have lp: "leaf_page s1 4 4 ?es" using sample_wal_page leaf_page_cong[of s1 4 sample_wal] b(3,4) e(1) by simp
  have nd: "\<not> needed s1 4" using lp b(1,5,6) by (simp add: leaf_page_def needed_def CopyNeeded_def update_tx_def IsTxExpired_def)
  obtain t where t: "UpdateBucket_Put sample_writer bcmp kUserRootBucketId [7] [17] s1 = Inr t" "update_meta t = Some mt"
    "\<exists>nn. t = (AppendPutLog sample_writer kUserRootBucketId [7] [17] False s1)\<lparr>nodes := nn\<rparr>"
    by (rule bucket_put_into_page[OF b(1), unfolded b(2), OF lp h(1) nd h(5), of 4 "[17]" sample_writer]) (use h(3,4) e(1) b(4) in simp_all)
  obtain nn where nn: "t = (AppendPutLog sample_writer kUserRootBucketId [7] [17] False s1)\<lparr>nodes := nn\<rparr>" using t(3) by blast
  have "\<exists>u. UpdateTx_RollBack sample_env True t = Inr (False, u)"
    using s1(2-6) t(2) by (simp add: nn UpdateTx_RollBack_def throw_if_def TxManager_RollBack_def AppendPutLog_def AppendRollbackLog_def AppendLog_def Let_def
        sample_options_def sample_env_def sample_writer_def Rollback_def update_tx_def bucket_log_header_def)
  then show ?thesis using main s1(1) t(1) by auto
qed

end
