(* ===== verification/Atomkv_SubBucket_Spec.thy ===== *)
theory Atomkv_SubBucket_Spec
  imports Atomkv_Bucket_Spec Atomkv_Delete_Spec
begin

text \<open>
  Removing a sub-bucket: the loop of \<^verbatim>\<open>BucketImpl::DeleteSubBucket\<close> on a bucket whose tree is one page. It ends,
  and it empties the page in place, also a page that an earlier version needs.
\<close>

section \<open>The first entry of a page\<close>

lemma leaf_end_page:
  assumes "leaf_page s pid x es"
  shows "pid < kPageMaxCount" "IsLeaf (nodes s pid)" "node_count (nodes s pid) = length es" "pid \<noteq> kPageInvalidId"
  using assms by (simp_all add: leaf_page_def leaf_view_def kPageMaxCount_def kPageInvalidId_def)

lemma begin_leaf:
  assumes "leaf_page s pid x es"
  obtains it where "BTree_begin b pid s = Inr it" "iter_wf it" "it_btree it = b" "trail it = (if es = [] then [] else [(pid, 0)])" "status it = kIter"
proof -
  note l = leaf_end_page[OF assms]
  let ?it = "(new_iterator b)\<lparr>status := kIter\<rparr>"
  have wf: "iter_wf ?it" "trail ?it = []" using new_iterator_simps[of b] by (simp_all add: iter_wf_def)
  obtain it' where p: "Push (pid, 0) ?it = Inr it'" "iter_wf it'" "trail it' = trail ?it @ [(pid, 0)]" "status it' = status ?it"
    "it_btree it' = it_btree ?it" by (rule Push_trail[of ?it "(pid, 0)"]) (use wf in auto)
  have "BTree_begin b pid s = Inr (if es = [] then ?it else it')"
    using l p(1) Reference_ok[of pid s] unfolding BTree_begin_def First_def by (subst First_loop.simps) simp
  then show thesis using that[of "if es = [] then ?it else it'"] p wf by (cases "es = []") simp_all
qed

lemma leaf_is_bucket:
  assumes "leaf_page s pid x es" "iter_wf it" "trail it = [(pid, i)]" "status it \<noteq> kInvalidIter" "i < length es"
  shows "iter_is_bucket it s = Inr (snd (snd (es ! i)))"
  using iter_end_iff[OF assms(2) HOL.refl] assms Front_trail[OF assms(2)] Reference_ok[of pid s] leaf_end_page[OF assms(1)] leaf_reads(3)[OF assms(1,5)]
  by (simp add: iter_is_bucket_def GetLeafNode_def throw_if_def)

text \<open>The deletion of an entry of the only page, through an iterator.\<close>

lemma Delete_Iter_leaf:
  fixes s :: "('w, 'a) tx_db_scheme"
  assumes "leaf_page s pid x es" "iter_wf it" "trail it = [(pid, i)]" "status it \<noteq> kInvalidIter" "i < length es" "\<not> snd (snd (es ! i))"
  obtains s' where "Delete_Iter it root s = Inr (root, s')" "touches {pid} s s'" "leaf_page s' pid x (erase_at i es)"
proof -
  obtain s' where d: "LeafNode_Delete pid i s = Inr s'" "touches {pid} s s'" "leaf_page s' pid x (erase_at i es)"
    by (rule leaf_delete[OF assms(1,5)])
  obtain it0 where p: "Pop it = Inr it0" "iter_wf it0" "trail it0 = []" using Pop_trail[OF assms(2)] assms(3) by auto
  have "Delete_Iter it root s = Inr (root, s')"
    using leaf_is_bucket[OF assms(1-5)] assms(3,6) Front_trail[OF assms(2)] Reference_ok[of pid s] leaf_end_page(1)[OF assms(1)] d(1) p
      fill_rate_leaf[OF d(3)] iter_Empty_trail[OF p(2)]
    by (simp add: Delete_Iter_def)
  then show thesis using that d(2,3) by blast
qed


section \<open>The loop\<close>

text \<open>What the loop leaves alone: all other pages, and where the buckets are.\<close>

definition only_page :: "PageId \<Rightarrow> ('w, 'a) txn_db_scheme \<Rightarrow> ('w, 'a) txn_db_scheme \<Rightarrow> bool" where
  "only_page pid s t \<longleftrightarrow> (\<forall>q. q \<noteq> pid \<longrightarrow> nodes t q = nodes s q) \<and> tx_open t = tx_open s \<and> running t = running s \<and> (\<forall>c. root_place c t = root_place c s)"

lemma only_page_trans: "only_page pid s t \<Longrightarrow> only_page pid t u \<Longrightarrow> only_page pid s u"
  by (simp add: only_page_def)

lemma touches_only_page:
  fixes s :: "('w, 'a) txn_db_scheme"
  assumes "touches {pid} s s'"
  shows "only_page pid s s'" "bucket_root c s' = bucket_root c s"
proof -
  obtain nn where n: "s' = s\<lparr>nodes := nn\<rparr>" using assms by (auto simp: touches_def)
  show "only_page pid s s'" using touches_fields(2,3)[OF assms] by (simp add: only_page_def tx_open_def) (simp add: n root_place_def AtSubBucket_def)
  show "bucket_root c s' = bucket_root c s" by (rule bucket_root_cong) (simp_all add: n)
qed

lemma set_bucket_root_only_page:
  fixes s :: "('w, 'a) txn_db_scheme"
  assumes "set_bucket_root b root s = Inr s'"
  shows "only_page pid s s'"
proof -
  obtain r where r: "root_place b s = Inr r" using assms by (auto simp: set_bucket_root_def bind_res_Inr_iff)
  show ?thesis
  proof (cases r)
    case User_root
    then obtain m where "update_meta s = Some m" "s' = s\<lparr>update_meta := Some (m\<lparr>user_root := root\<rparr>)\<rparr>"
      using assms r by (auto simp: set_bucket_root_def bind_res_Inr_iff update_tx_def split: option.splits)
    then show ?thesis by (simp add: only_page_def tx_open_def root_place_def AtSubBucket_def)
  next
    case (Sub_root p k)
    then obtain m where m: "set_sub_map p m s = Inr s'" using assms r by (auto simp: set_bucket_root_def bind_res_Inr_iff)
    have "nodes s' = nodes s" "update_meta s' = update_meta s" using set_sub_map_root(2,3)[OF m] by (simp_all add: same_pages_def)
    then show ?thesis using set_sub_map_root(1)[OF m] by (simp add: only_page_def tx_open_def)
  qed
qed

lemma delete_sub_loop_leaf:
  fixes s :: "('w, 'a) txn_db_scheme"
  assumes "bucket_root sb s = Inr pid" "leaf_page s pid x es" "\<forall>e \<in> set es. \<not> snd (snd e)" "length es < n"
  shows "\<exists>t. delete_sub_loop n w cmp b sb s = Inr t \<and> bucket_root sb t = Inr pid \<and> leaf_page t pid x [] \<and> only_page pid s t"
  using assms
proof (induction es arbitrary: s n)
  case Nil
  obtain it where "BTree_begin sb pid s = Inr it" "iter_wf it" "it_btree it = sb" "trail it = []" by (rule begin_leaf[OF Nil.prems(2), of sb]) simp
  then show ?case using Nil.prems iter_end_iff[of it sb] by (cases n) (simp_all add: Bucket_begin_def only_page_def)
next
  case (Cons e es)
  obtain k where k: "n = Suc k" "length es < k" using Cons.prems(4) by (cases n) auto
  obtain it where it: "BTree_begin sb pid s = Inr it" "iter_wf it" "it_btree it = sb" "trail it = [(pid, 0)]" "status it = kIter"
    by (rule begin_leaf[OF Cons.prems(2), of sb]) simp
  have ne: "\<not> iter_eq it (new_iterator sb)" "status it \<noteq> kInvalidIter" using iter_end_iff[OF it(2,3)] it(4,5) by simp_all
  have z: "0 < length (e # es)" "\<not> snd (snd ((e # es) ! 0))" using Cons.prems(3) by simp_all
  have bk: "iter_is_bucket it s = Inr False" using leaf_is_bucket[OF Cons.prems(2) it(2,4) ne(2) z(1)] z(2) by simp
  obtain s1 where d: "Delete_Iter it pid s = Inr (pid, s1)" "touches {pid} s s1" "leaf_page s1 pid x (erase_at 0 (e # es))"
    by (rule Delete_Iter_leaf[OF Cons.prems(2) it(2,4) ne(2) z, of pid]) blast
  have o1: "only_page pid s s1" "bucket_root sb s1 = Inr pid" using touches_only_page[OF d(2)] Cons.prems(1) by simp_all
  obtain s2 where s2: "set_bucket_root sb pid s1 = Inr s2" "bucket_root sb s2 = Inr pid" "same_pages s1 s2" by (rule set_bucket_root_result[OF o1(2)])
  have "leaf_page s2 pid x es" using d(3) leaf_page_cong[of s2 pid s1] s2(3) by (simp add: same_pages_def erase_at_def)
  from Cons.IH[OF s2(2) this _ k(2)] Cons.prems(3) obtain t where t: "delete_sub_loop k w cmp b sb s2 = Inr t" "bucket_root sb t = Inr pid" "leaf_page t pid x []" "only_page pid s2 t"
    by auto
  have "only_page pid s t" using only_page_trans[OF o1(1) only_page_trans[OF set_bucket_root_only_page[OF s2(1)] t(4)]] .
  moreover have "delete_sub_loop n w cmp b sb s = Inr t"
    using k(1) it(1) ne(1) bk d(1) s2(1) t(1) Cons.prems(1) by (simp add: Bucket_begin_def Bucket_DeleteIter_def)
  ultimately show ?case using t(2,3) by blast
qed


section \<open>Opening a sub-bucket\<close>

lemma bucket_root_mono:
  assumes "root_place c s' = root_place c s" "update_meta s' = update_meta s" "\<And>p k d. map_entry p k s = Inr d \<Longrightarrow> map_entry p k s' = Inr d" "bucket_root c s = Inr r"
  shows "bucket_root c s' = Inr r"
proof -
  obtain q where q: "root_place c s = Inr q" using assms(4) by (auto simp: bucket_root_def bind_res_Inr_iff)
  show ?thesis
  proof (cases q)
    case User_root
    then show ?thesis using q assms(1,2,4) by (simp add: bucket_root_def update_tx_def)
  next
    case (Sub_root p k)
    then obtain d where "map_entry p k s = Inr d" "snd d = r" using q assms(4) by (auto simp: bucket_root_def bind_res_Inr_iff)
    then show ?thesis using q Sub_root assms(1,3) by (simp add: bucket_root_def)
  qed
qed

text \<open>A map of open buckets that got a new entry.\<close>

lemma set_sub_map_extends:
  assumes "set_sub_map b (map_assign key e m) s = Inr s'" "sub_map b s = Inr m0" "m = (case m0 of None \<Rightarrow> [] | Some m \<Rightarrow> m)" "map_of m key = None"
    "bucket_root c s = Inr r"
  shows "bucket_root c s' = Inr r"
proof -
  have k: "map_entry p k s' = Inr d" if "map_entry p k s = Inr d" for p k d
  proof (cases "p = b")
    case True
    then have "m0 = Some m" "map_of m k = Some d" using that assms(2,3) by (auto simp: map_entry_def split: option.splits)
    then show ?thesis using True assms(4) sub_map_after[OF assms(1), of b] by (cases "k = key") (simp_all add: map_entry_def map_of_assign_other)
  qed (use that sub_map_after[OF assms(1), of p] in \<open>simp add: map_entry_def\<close>)
  show ?thesis by (rule bucket_root_mono[OF set_sub_map_root(1,3)[OF assms(1)] k assms(5)])
qed

lemma NewSubBucket_new:
  assumes "NewSubBucket r wr s = (sb, t)" "length (sub_bucket_cache s) < kUserRootBucketId"
  shows "root_place sb t = Inr r" "sub_map c s = Inr m \<Longrightarrow> sub_map c t = Inr m" "same_pages s t" "tx_open t = tx_open s"
  using assms by (auto simp: NewSubBucket_def u32_def kUserRootBucketId_def root_place_def AtSubBucket_def sub_map_def bind_res_Inr_iff nth_append same_pages_def tx_open_def
      split: if_splits option.splits)

text \<open>The place of a bucket that the map of its parent does not have yet.\<close>

definition unopened :: "BucketId \<Rightarrow> key \<Rightarrow> ('w, 'a) txn_db_scheme \<Rightarrow> bool" where
  "unopened b key s \<longleftrightarrow> (\<exists>m0. sub_map b s = Inr m0 \<and> (\<forall>m. m0 = Some m \<longrightarrow> map_of m key = None)) \<and> length (sub_bucket_cache s) < kUserRootBucketId"

lemma SubBucket_opens:
  fixes s :: "('w, 'a) txn_db_scheme"
  assumes "bucket_root b s = Inr root" "bucket_tree s f ot root P" "short_key key" "map_of (contents ot) key = Some (le_bytes 4 pid, True)" "pid < 4294967296"
    "unopened b key s"
  shows "\<exists>sb s'. SubBucket w bcmp b key wr s = Inr (sb, s') \<and> same_pages s s' \<and> tx_open s' = tx_open s \<and> running s' = running s \<and>
    root_place sb s' = Inr (Sub_root b key) \<and> bucket_root sb s' = Inr pid"
proof -
  obtain m0 where m0: "sub_map b s = Inr m0" "\<forall>m. m0 = Some m \<longrightarrow> map_of m key = None" "length (sub_bucket_cache s) < kUserRootBucketId"
    using assms(6) by (auto simp: unopened_def)
  define m where "m = (case m0 of None \<Rightarrow> [] | Some m \<Rightarrow> m)"
  have mk: "map_of m key = None" using m0(2) by (auto simp: m_def split: option.splits)
  obtain s1 where s1: "set_sub_map b m s = Inr s1" using set_sub_map_returns[OF m0(1)] by blast
  have sm1: "sub_map b s1 = Inr (Some m)" using sub_map_after[OF s1] by simp
  obtain s2 where s2: "set_sub_map b (map_assign key (0, kPageInvalidId) m) s1 = Inr s2" using set_sub_map_returns[OF sm1] by blast
  have r1: "bucket_root b s1 = Inr root"
  proof -
    have k: "map_entry p k s1 = Inr d" if "map_entry p k s = Inr d" for p k d
      using that m0(1) sub_map_after[OF s1, of p] by (cases "p = b") (auto simp: map_entry_def m_def split: option.splits)
    show ?thesis by (rule bucket_root_mono[OF set_sub_map_root(1,3)[OF s1] k assms(1)])
  qed
  have r2: "bucket_root b s2 = Inr root" by (rule set_sub_map_extends[OF s2 sm1 _ mk r1]) simp
  have t2: "bucket_tree s2 f ot root P" using assms(2) same_tx_tree[OF set_sub_map_tx[OF s1]] same_tx_tree[OF set_sub_map_tx[OF s2]] by simp
  obtain it where it: "Bucket_Get bcmp b key s2 = Inr it" "finds it b key s2 (map_of (contents ot) key)" using Bucket_Get_tree[OF r2 t2 assms(3)] by blast
  have ev: "\<not> iter_eq it (new_iterator b)" "iter_is_bucket it s2 = Inr True" "iter_value_as 4 it s2 = Inr pid"
    using it(2) assms(4,5) by (simp_all add: finds_def iter_value_as_def throw_if_def)
  have sm2: "sub_map b s2 = Inr (Some (map_assign key (0, kPageInvalidId) m))" using sub_map_after[OF s2] by simp
  obtain sb s4 where n: "NewSubBucket (Sub_root b key) wr s2 = (sb, s4)" by fastforce
  have len: "length (sub_bucket_cache s2) < kUserRootBucketId" using m0(3) s1 s2 by (auto simp: set_sub_map_def bind_res_Inr_iff split: if_splits)
  note nw = NewSubBucket_new[OF n len]
  obtain s5 where s5: "set_sub_map b (map_assign key (sb, pid) (map_assign key (0, kPageInvalidId) m)) s4 = Inr s5"
    using set_sub_map_returns[OF nw(2)[OF sm2]] by blast
  have o: "open_sub_bucket w bcmp b key wr m s1 = Inr (sb, s5)"
    using s2 it(1) ev sm2 n s5 by (simp add: open_sub_bucket_def throw_if_def)
  have rp: "root_place sb s5 = Inr (Sub_root b key)" using set_sub_map_root(1)[OF s5] nw(1) by simp
  moreover have "bucket_root sb s5 = Inr pid" using rp sub_map_after[OF s5, of b] by (simp add: bucket_root_def map_entry_def map_of_assign_same)
  moreover have "\<exists>bk. AtSubBucket sb s5 = Inr bk" using rp by (auto simp: root_place_def bind_res_Inr_iff split: if_splits)
  then have "SubBucket w bcmp b key wr s = Inr (sb, s5)" using m0(1) s1 o mk by (auto simp: SubBucket_def m_def[symmetric])
  moreover have "same_pages s s5" using set_sub_map_root(2)[OF s1] set_sub_map_root(2)[OF s2] nw(3) set_sub_map_root(2)[OF s5] by (simp add: same_pages_def)
  moreover have "update_meta s5 = update_meta s"
    using set_sub_map_root(3)[OF s1] set_sub_map_root(3)[OF s2] set_sub_map_root(3)[OF s5] n by (auto simp: NewSubBucket_def)
  ultimately show ?thesis by (auto simp: tx_open_def)
qed

lemma DeleteSubBucket_leaf:
  fixes s :: "('w, 'a) txn_db_scheme"
  assumes "bucket_root b s = Inr root" "bucket_tree s f ot root P" "short_key key" "map_of (contents ot) key = Some (le_bytes 4 pid, True)" "unopened b key s" "tx_open s"
    "leaf_page s pid x es" "\<forall>e \<in> set es. \<not> snd (snd e)" "length es + 1 < fuel"
  obtains t where "DeleteSubBucket fuel w bcmp b key s = Inr (True, t)" "leaf_page t pid x []" "\<forall>q. q \<noteq> pid \<longrightarrow> nodes t q = nodes s q"
    "\<exists>m. update_meta t = Some m \<and> (\<exists>ps. map_of (pending_map t) (txid m) = Some ps \<and> (pid, 1) \<in> set ps)"
proof -
  obtain n where n: "fuel = Suc n" "length es < n" using assms(9) by (cases fuel) auto
  have pd: "pid < 4294967296" "pid \<noteq> kPageInvalidId" using leaf_end_page[OF assms(7)] by (simp_all add: kPageMaxCount_def)
  obtain it where it: "Bucket_Get bcmp b key s = Inr it" "finds it b key s (map_of (contents ot) key)" using Bucket_Get_tree[OF assms(1-3)] by blast
  have ev: "\<not> iter_eq it (new_iterator b)" "iter_is_bucket it s = Inr True" "iter_GetKey it s = Inr key" using it(2) assms(4) by (simp_all add: finds_def)
  obtain sb s1 where s1: "SubBucket w bcmp b key True s = Inr (sb, s1)" "same_pages s s1" "tx_open s1 = tx_open s" "running s1 = running s"
    "root_place sb s1 = Inr (Sub_root b key)" "bucket_root sb s1 = Inr pid" using SubBucket_opens[OF assms(1-4) pd(1) assms(5), of w True] by blast
  have l1: "leaf_page s1 pid x es" using assms(7) s1(2) leaf_page_cong[of s1 pid s] by (simp add: same_pages_def)
  obtain s2 where s2: "delete_sub_loop n w bcmp b sb s1 = Inr s2" "bucket_root sb s2 = Inr pid" "leaf_page s2 pid x []" "only_page pid s1 s2"
    using delete_sub_loop_leaf[OF s1(6) l1 assms(8) n(2), of w bcmp b] by blast
  have "root_place sb s2 = Inr (Sub_root b key)" using s2(4) s1(5) by (simp add: only_page_def)
  then obtain e where e: "map_entry b key s2 = Inr e" "snd e = pid" using s2(2) by (auto simp: bucket_root_def bind_res_Inr_iff)
  obtain m2 where m2: "update_meta s2 = Some m2" using s2(4) s1(3) assms(6) by (auto simp: only_page_def tx_open_def)
  obtain t where t: "Free pid 1 s2 = Inr t" using Free_result[of pid 1 s2] m2 pd(2) by blast
  have tf: "nodes t = nodes s2" "pg_size t = pg_size s2" "update_meta t = Some m2" using Free_own_pending[OF t] m2 by auto
  have "DeleteSubBucket fuel w bcmp b key s = Inr (True, t)"
    using it(1) ev s1(1) s2(1) e t pd(2) n(1) by (simp add: DeleteSubBucket_def throw_if_def)
  moreover have "leaf_page t pid x []" using s2(3) leaf_page_cong[of t pid s2] tf by simp
  moreover have "\<forall>q. q \<noteq> pid \<longrightarrow> nodes t q = nodes s q" using s2(4) s1(2) tf by (simp add: only_page_def same_pages_def)
  moreover have "\<exists>m. update_meta t = Some m \<and> (\<exists>ps. map_of (pending_map t) (txid m) = Some ps \<and> (pid, 1) \<in> set ps)"
    using t m2 tf(3) by (auto simp: Free_result map_of_assign_same)
  ultimately show thesis using that by blast
qed

section \<open>A sample sub-bucket\<close>

text \<open>The user bucket has one entry, a sub-bucket with two entries on page 4. A reader of version 4 is open.\<close>

definition sample_parent :: NodeData where
  "sample_parent = \<lparr>last_modified_txid = 4, node_type = kLeaf, node_count = 1, space_used = 5, data_offset = 251,
     tail_child = 0, slots = (\<lambda>i. \<lparr>record_offset = 251, is_overflow_pages = False, key_size = 1,
       is_bucket = True, child_or_size = 4\<rparr>),
     records = (\<lambda>i. if i = 251 then 98 else if i = 252 then 4 else 0)\<rparr>"

definition sample_nest :: "byte list list txn_db" where
  "sample_nest = sample_txn\<lparr>nodes := (nodes sample_txn)(3 := sample_parent), update_meta := Some (sample_meta\<lparr>txid := 5, user_root := 3\<rparr>),
     view_tx_map := [(4, 1)]\<rparr>"

abbreviation sample_nest_bt :: bt where
  "sample_nest_bt \<equiv> BLeaf [([98], [4, 0, 0, 0], True)]"

lemma sample_nest_eval:
  "pg_size sample_nest = 256" "nodes sample_nest 3 = sample_parent" "nodes sample_nest 4 = sample_pair 5 9" "page_ok (pg_size sample_nest)"
  "tx_open sample_nest" "needed sample_nest 4"
  by (simp_all add: sample_nest_def sample_wide_def sample_update_def sample_tree_db_def sample_pair_def page_ok_def tx_open_def needed_def CopyNeeded_def update_tx_def
      IsTxExpired_def sample_meta_def)

lemma sample_nest_pages:
  "leaf_page sample_nest 4 4 [([5], [15], False), ([9], [19], False)]"
  "bucket_tree sample_nest 4 (Some sample_nest_bt) 3 {3}"
proof -
  note e = sample_nest_eval
  have two: "{..<2::nat} = {0, 1}" by auto
  have v: "leaf_view sample_nest 4 [([5], [15], False), ([9], [19], False)]" "leaf_view sample_nest 3 [([98], [4, 0, 0, 0], True)]"
    using e(1-3) by (simp_all add: leaf_view_def sample_pair_def sample_parent_def kPageMaxCount_def IsLeaf_def GetKey_def GetValue_def GetRecord_def mem_read_def
        All_less_Suc upt_rec)
  have i: "inline_node sample_nest 4" "inline_node sample_nest 3"
    using e(1-3) by (simp_all add: inline_node_def wf_node_def page_ok_def layout_def sample_pair_def sample_parent_def raw_size_def IsLeaf_def two)
  show "leaf_page sample_nest 4 4 [([5], [15], False), ([9], [19], False)]" using v(1) i(1) e(3) by (simp add: leaf_page_def sample_pair_def)
  have "owns sample_nest sample_nest_bt 3 {3}" using v(2) i(2) by (simp add: owns_leaf)
  moreover have "small_bt 4 256 sample_nest_bt" by (simp add: small_entry_def entry_cost_def key_bound_def short_key_def)
  ultimately show "bucket_tree sample_nest 4 (Some sample_nest_bt) 3 {3}" using e(1,4) by (simp add: bucket_tree_def sub_def short_key_def)
qed

lemma sample_nest_tx:
  "bucket_root kUserRootBucketId sample_nest = Inr 3" "unopened kUserRootBucketId [98] sample_nest"
  "map_of (contents (Some sample_nest_bt)) [98] = Some (le_bytes 4 4, True)" "short_key [98]" "snap 4 {0, 1, 3, 4} sample_nest"
proof -
  have f: "user_sub_map sample_nest = None" "sub_bucket_cache sample_nest = []" "update_meta sample_nest = Some (sample_meta\<lparr>txid := 5, user_root := 3\<rparr>)"
    "view_tx_map sample_nest = [(4, 1)]" "free_map sample_nest = [(2, 1)]" "pending_map sample_nest = [(3, [(9, 2)])]" "alloc_records sample_nest = []"
    "page_count (db_meta sample_nest) = 12"
    by (simp_all add: sample_nest_def sample_wide_def sample_update_def sample_meta_def txn_db.defs)
  show "bucket_root kUserRootBucketId sample_nest = Inr 3" by (simp add: bucket_root_def root_place_def update_tx_def f)
  show "unopened kUserRootBucketId [98] sample_nest" by (simp add: unopened_def sub_map_def kUserRootBucketId_def f)
  show "snap 4 {0, 1, 3, 4} sample_nest" by (simp add: snap_def f pages_of_def)
  have "le_bytes 4 4 = [4, 0, 0, 0]" by code_simp
  then show "map_of (contents (Some sample_nest_bt)) [98] = Some (le_bytes 4 4, True)" by (simp add: contents_def)
  show "short_key [98]" by (simp add: short_key_def)
qed


section \<open>Properties\<close>

text \<open>
  C12: The loop of \<^verbatim>\<open>DeleteSubBucket\<close> ends. For a sub-bucket that is not open yet, with a tree of one page and no nested buckets, the
  call returns after one round more than there are entries; the page is then empty and waits to be freed, and no other page has changed.
\<close>

theorem delete_sub_bucket_ends:
  fixes s :: "('w, 'a) txn_db_scheme"
  assumes "bucket_root b s = Inr root" "bucket_tree s f ot root P" "short_key key" "map_of (contents ot) key = Some (le_bytes 4 pid, True)" "unopened b key s" "tx_open s"
    "leaf_page s pid x es" "\<forall>e \<in> set es. \<not> snd (snd e)" "length es + 1 < fuel"
  shows "\<exists>t. DeleteSubBucket fuel w bcmp b key s = Inr (True, t) \<and> leaf_page t pid x [] \<and> (\<forall>q. q \<noteq> pid \<longrightarrow> nodes t q = nodes s q) \<and>
    (\<exists>m ps. update_meta t = Some m \<and> map_of (pending_map t) (txid m) = Some ps \<and> (pid, 1) \<in> set ps)"
  by (rule DeleteSubBucket_leaf[OF assms, of w]) blast

theorem delete_sub_bucket_ends_witness:
  "\<exists>t. DeleteSubBucket 4 sample_writer bcmp kUserRootBucketId [98] sample_nest = Inr (True, t) \<and> leaf_page t 4 4 []"
  using delete_sub_bucket_ends[OF sample_nest_tx(1) sample_nest_pages(2) sample_nest_tx(4,3,2) sample_nest_eval(5) sample_nest_pages(1), of 4 sample_writer] by auto

text \<open>
  C13: \<^verbatim>\<open>DeleteSubBucket\<close> changes what a reader sees. The entries are removed through iterators, which do not copy their page. When an
  open reader's version, whose pages are \<open>X\<close>, has the page of the sub-bucket, the page loses its entries while the reader is open:
  the other operations never do that.
\<close>

theorem delete_sub_bucket_breaks_snapshot:
  fixes s :: "('w, 'a) txn_db_scheme"
  assumes "bucket_root b s = Inr root" "bucket_tree s f ot root P" "short_key key" "map_of (contents ot) key = Some (le_bytes 4 pid, True)" "unopened b key s" "tx_open s"
    "leaf_page s pid x es" "\<forall>e \<in> set es. \<not> snd (snd e)" "length es + 1 < fuel" "snap v X s" "pid \<in> X" "es \<noteq> []"
  shows "\<exists>t. DeleteSubBucket fuel w bcmp b key s = Inr (True, t) \<and> (\<exists>q \<in> X. nodes t q \<noteq> nodes s q)"
proof -
  obtain t where t: "DeleteSubBucket fuel w bcmp b key s = Inr (True, t)" "leaf_page t pid x []" by (rule DeleteSubBucket_leaf[OF assms(1-9), of w])
  have "nodes t pid \<noteq> nodes s pid" using leaf_count[OF t(2)] leaf_count[OF assms(7)] assms(12) by auto
  then show ?thesis using t(1) assms(11) by blast
qed

theorem delete_sub_bucket_breaks_snapshot_witness:
  "snap 4 {0, 1, 3, 4} sample_nest \<and> (\<exists>t. DeleteSubBucket 4 sample_writer bcmp kUserRootBucketId [98] sample_nest = Inr (True, t) \<and>
     (\<exists>q \<in> {0, 1, 3, 4}. nodes t q \<noteq> nodes sample_nest q))"
  using delete_sub_bucket_breaks_snapshot[OF sample_nest_tx(1) sample_nest_pages(2) sample_nest_tx(4,3,2) sample_nest_eval(5) sample_nest_pages(1) _ _ sample_nest_tx(5),
      of 4 sample_writer] sample_nest_tx(5) by auto

end
