(* ===== verification/Atomkv_Many_Buckets.thy ===== *)
theory Atomkv_Many_Buckets
  imports Atomkv_Full_Put Atomkv_SubBucket_Spec
begin

text \<open>
  Several buckets of one update transaction: the user bucket and open sub-buckets, on trees that share no page. An operation on
  one of them leaves the others as they are, so that together they are one map from bucket and key to entry.
\<close>

section \<open>The open buckets as one store\<close>

definition buckets_on :: "nat \<Rightarrow> BucketId set \<Rightarrow> ('w, 'a) txn_db_scheme \<Rightarrow> PageId set \<Rightarrow> (BucketId \<Rightarrow> PageId) \<Rightarrow> (BucketId \<Rightarrow> bt option) \<Rightarrow> (BucketId \<Rightarrow> PageId set) \<Rightarrow> bool" where
  "buckets_on f B s L root ot P \<longleftrightarrow> (\<forall>b \<in> B. bucket_root b s = Inr (root b) \<and> bucket_tree s f (ot b) (root b) (P b) \<and> P b \<subseteq> L) \<and>
     (\<forall>b \<in> B. \<forall>c \<in> B. b \<noteq> c \<longrightarrow> P b \<inter> P c = {} \<and> root_place b s \<noteq> root_place c s)"

definition joint_map :: "BucketId set \<Rightarrow> (BucketId \<Rightarrow> bt option) \<Rightarrow> BucketId \<times> key \<rightharpoonup> byte list \<times> bool" where
  "joint_map B ot x = (if fst x \<in> B then map_of (contents (ot (fst x))) (snd x) else None)"

definition buckets_hold :: "nat \<Rightarrow> nat \<Rightarrow> BucketId set \<Rightarrow> nat \<Rightarrow> ('w, 'a) txn_db_scheme \<Rightarrow> (BucketId \<times> key \<rightharpoonup> byte list \<times> bool) \<Rightarrow> bool" where
  "buckets_hold f ps B n s m \<longleftrightarrow> (\<exists>root ot P L. buckets_on f B s L root ot P \<and> tx_pages L (95 * n) s \<and> pg_size s = ps \<and> m = joint_map B ot)"

lemma buckets_step:
  assumes "buckets_on f B s L root ot P" "b \<in> B" "bucket_root b s' = Inr r'" "bucket_tree s' f t' r' P'" "P' \<subseteq> L'" "aside (P b) L b s P' L' s'"
  shows "buckets_on f B s' L' (root(b := r')) (ot(b := t')) (P(b := P'))"
proof -
  have a: "root_place c s' = root_place c s" "root_place c s \<noteq> root_place b s \<Longrightarrow> bucket_root c s' = bucket_root c s"
    "bucket_tree s g ou r Q \<Longrightarrow> Q \<subseteq> L - P b \<Longrightarrow> bucket_tree s' g ou r Q \<and> Q \<subseteq> L' - P'" for c g ou r Q
    using assms(6) unfolding aside_def by blast+
  have o: "bucket_root c s' = Inr (root c)" "bucket_tree s' f (ot c) (root c) (P c)" "P c \<subseteq> L' - P'" if h: "c \<in> B" "c \<noteq> b" for c
  proof -
    have c: "bucket_root c s = Inr (root c)" "bucket_tree s f (ot c) (root c) (P c)" "P c \<subseteq> L - P b" "root_place c s \<noteq> root_place b s"
      using assms(1,2) h unfolding buckets_on_def by blast+
    show "bucket_root c s' = Inr (root c)" "bucket_tree s' f (ot c) (root c) (P c)" "P c \<subseteq> L' - P'" using a(2)[OF c(4)] c(1) a(3)[OF c(2,3)] by auto
  qed
  have each: "bucket_root c s' = Inr ((root(b := r')) c) \<and> bucket_tree s' f ((ot(b := t')) c) ((root(b := r')) c) ((P(b := P')) c) \<and> (P(b := P')) c \<subseteq> L'"
    if h: "c \<in> B" for c
  proof (cases "c = b")
    case True
    then show ?thesis using assms(3-5) by simp
  next
    case False
    then show ?thesis using o[OF h False] by auto
  qed
  have two: "(P(b := P')) c \<inter> (P(b := P')) d = {} \<and> root_place c s' \<noteq> root_place d s'" if h: "c \<in> B" "d \<in> B" "c \<noteq> d" for c d
  proof -
    have q: "P c \<inter> P d = {}" "root_place c s \<noteq> root_place d s" using assms(1) h unfolding buckets_on_def by blast+
    have "(P(b := P')) c \<inter> (P(b := P')) d = {}"
      using q(1) o(3)[of c] o(3)[of d] h by (cases "c = b"; cases "d = b") auto
    then show ?thesis using q(2) a(1) by simp
  qed
  show ?thesis unfolding buckets_on_def using each two by blast
qed

lemma joint_map_upd: "b \<in> B \<Longrightarrow> joint_map B (ot(b := t')) = (\<lambda>x. if fst x = b then map_of (contents t') (snd x) else joint_map B ot x)"
  by (auto simp: joint_map_def fun_eq_iff)

definition joint_put :: "'w wal_writer \<Rightarrow> (BucketId \<times> key) \<times> byte list \<times> bool \<Rightarrow> ('w, 'a) txn_db_scheme \<Rightarrow> ('w, 'a) txn_db_scheme res" where
  "joint_put w x s = Bucket_Put w bcmp (fst (fst x)) (snd (fst x)) (fst (snd x)) (snd (snd x)) s"

definition joint_delete :: "'w wal_writer \<Rightarrow> BucketId \<times> key \<Rightarrow> ('w, 'a) txn_db_scheme \<Rightarrow> (bool \<times> ('w, 'a) txn_db_scheme) res" where
  "joint_delete w x s = Bucket_Delete w bcmp (fst x) (snd x) s"

abbreviation joint_shows :: "BucketId \<times> key \<Rightarrow> ('w, 'a) txn_db_scheme \<Rightarrow> (byte list \<times> bool) option \<Rightarrow> bool" where
  "joint_shows x s r \<equiv> get_shows (fst x) (snd x) s r"

definition joint_fine :: "nat \<Rightarrow> nat \<Rightarrow> BucketId set \<Rightarrow> (BucketId \<times> key) \<times> byte list \<times> bool \<Rightarrow> bool" where
  "joint_fine f ps B x \<longleftrightarrow> fst (fst x) \<in> B \<and> small_entry f ps (snd (fst x), snd x) \<and> 0 < length (snd (fst x)) + length (fst (snd x))"

definition joint_legal :: "BucketId set \<Rightarrow> BucketId \<times> key \<Rightarrow> bool" where
  "joint_legal B x \<longleftrightarrow> fst x \<in> B \<and> short_key (snd x)"

definition joint_fits :: "BucketId \<times> key \<Rightarrow> byte list \<times> bool \<Rightarrow> ('w, 'a) txn_db_scheme \<Rightarrow> bool" where
  "joint_fits x v s \<longleftrightarrow> update_fits (fst x) (snd x) (fst v) s"

text \<open>What a put over the value asks for: an entry stays a plain value or a sub-bucket.\<close>

lemma joint_may_put:
  assumes "bucket_tree s f (ot b) root P" "b \<in> B" "pg_size s = ps" "joint_fine f ps B ((b, k), v)" "\<And>v0. joint_map B ot (b, k) = Some v0 \<Longrightarrow> snd v0 = snd v"
  shows "may_put f (pg_size s) (ot b) k (fst v) (snd v)"
proof -
  have mk: "joint_map B ot (b, c) = map_of (contents (ot b)) c" for c using assms(2) by (simp add: joint_map_def)
  have "snd (snd e) = snd v" if e: "e \<in> set (contents (ot b))" "fst e = k" for e
  proof -
    have "distinct (map fst (contents (ot b)))" using bucket_tree_sorted[OF assms(1)] by (simp add: strict_sorted_iff)
    then have "map_of (contents (ot b)) k = Some (snd e)" using e by (metis map_of_is_SomeI prod.collapse)
    then show ?thesis using assms(5) mk by simp
  qed
  then show ?thesis using assms(3,4) by (simp add: may_put_def joint_fine_def)
qed

lemma buckets_hold_put:
  fixes s :: "('w, 'a) txn_db_scheme"
  assumes "buckets_hold f ps B (Suc n) s m" "joint_fine f ps B (x, v)" "\<And>v0. m x = Some v0 \<Longrightarrow> snd v0 = snd v"
  shows "\<exists>s'. joint_put w (x, v) s = Inr s' \<and> buckets_hold f ps B n s' (taken_op joint_fits (Store x v) s m)"
proof -
  obtain root ot P L where h: "buckets_on f B s L root ot P" "tx_pages L (95 * Suc n) s" "pg_size s = ps" "m = joint_map B ot"
    using assms(1) by (auto simp: buckets_hold_def)
  obtain b k where x: "x = (b, k)" by (cases x)
  have b: "b \<in> B" using assms(2) x by (simp add: joint_fine_def)
  have t: "bucket_root b s = Inr (root b)" "bucket_tree s f (ot b) (root b) (P b)" "P b \<subseteq> L" using h(1) b unfolding buckets_on_def by blast+
  have mk: "(\<lambda>c. m (b, c)) = map_of (contents (ot b))" using b h(4) by (simp add: joint_map_def fun_eq_iff)
  have mp: "may_put f (pg_size s) (ot b) k (fst v) (snd v)"
    by (rule joint_may_put[of s f ot b "root b" "P b" B, OF t(2) b h(3)]) (use assms(2,3) h(4) x in auto)
  have "pages_to_put (ot b) \<le> 65" using bucket_height t(2) by (fastforce simp: pages_to_put_def split: option.splits)
  then have y: "tx_pages L (95 * n + pages_to_put (ot b)) s" by (intro tx_pages_mono[OF h(2)]) simp
  obtain s' r' t' P' L' where p: "Bucket_Put w bcmp b k (fst v) (snd v) s = Inr s'" "bucket_root b s' = Inr r'" "bucket_tree s' f t' r' P'" "P' \<subseteq> L'"
    "tx_pages L' (95 * n) s'"
    "contents t' = (if has_room (pg_size s) (ot b) k (fst v) (snd v) then ins_entry k (fst v, snd v) (contents (ot b)) else contents (ot b))"
    "pg_size s' = pg_size s" "aside (P b) L b s P' L' s'"
    by (rule Bucket_Put_any[OF t y mp, of w])
  have c: "map_of (contents t') = put_map b k (fst v, snd v) s (\<lambda>c. m (b, c))" by (rule put_map_contents[OF t(1,2) mp p(6) mk])
  have "joint_map B (ot(b := t')) y = taken_op joint_fits (Store x v) s m y" for y
  proof (cases "fst y = b")
    case True
    then show ?thesis unfolding joint_map_upd[OF b] h(4)[symmetric] using c x by (cases y) (simp add: joint_fits_def)
  next
    case False
    then show ?thesis unfolding joint_map_upd[OF b] h(4)[symmetric] using x by auto
  qed
  then have "joint_map B (ot(b := t')) = taken_op joint_fits (Store x v) s m" by blast
  then show ?thesis using buckets_step[OF h(1) b p(2-4,8)] p(1,5,7) h(3) x unfolding buckets_hold_def joint_put_def by (intro exI[of _ s'] conjI exI) auto
qed

lemma buckets_hold_fits:
  assumes "buckets_hold f ps B n s m" "joint_fine f ps B (x, v)" "m x = Some v0" "snd v0 = snd v" "length (fst v) \<le> length (fst v0)"
  shows "joint_fits x v s"
proof -
  obtain root ot P L where h: "buckets_on f B s L root ot P" "pg_size s = ps" "m = joint_map B ot"
    using assms(1) by (auto simp: buckets_hold_def)
  obtain b k where x: "x = (b, k)" by (cases x)
  have b: "b \<in> B" using assms(2) x by (simp add: joint_fine_def)
  have t: "bucket_root b s = Inr (root b)" "bucket_tree s f (ot b) (root b) (P b)" using h(1) b unfolding buckets_on_def by blast+
  have mp: "may_put f (pg_size s) (ot b) k (fst v) (snd v)"
    by (rule joint_may_put[of s f ot b "root b" "P b" B, OF t(2) b h(2)]) (use assms(2-4) h(3) x in auto)
  have "map_of (contents (ot b)) k = Some (fst v0, snd v)" using assms(3,4) h(3) b x by (cases v0) (simp add: joint_map_def)
  from shorter_fits[OF t mp this assms(5)] show ?thesis using x by (simp add: joint_fits_def)
qed

lemma buckets_hold_delete:
  fixes s :: "('w, 'a) txn_db_scheme"
  assumes "buckets_hold (f + 10) ps B (Suc n) s m" "joint_legal B x" "\<And>v. m x = Some v \<Longrightarrow> \<not> snd v"
  shows "\<exists>s'. joint_delete w x s = Inr (m x \<noteq> None, s') \<and> buckets_hold (f + 10) ps B n s' (m(x := None))"
proof -
  obtain root ot P L where h: "buckets_on (f + 10) B s L root ot P" "tx_pages L (95 * Suc n) s" "pg_size s = ps" "m = joint_map B ot"
    using assms(1) by (auto simp: buckets_hold_def)
  obtain b k where x: "x = (b, k)" by (cases x)
  have b: "b \<in> B" "short_key k" using assms(2) x by (simp_all add: joint_legal_def)
  have t: "bucket_root b s = Inr (root b)" "bucket_tree s (f + 10) (ot b) (root b) (P b)" "P b \<subseteq> L" using h(1) b(1) unfolding buckets_on_def by blast+
  have mk: "m (b, c) = map_of (contents (ot b)) c" for c using b(1) h(4) by (simp add: joint_map_def)
  have pl: "\<forall>e \<in> set (contents (ot b)). fst e = k \<longrightarrow> \<not> snd (snd e)" by (rule plain_contents[OF t(2)]) (use assms(3) x mk in auto)
  have "pages_to_delete (ot b) \<le> 95" using bucket_height t(2) by (fastforce simp: pages_to_delete_def split: option.splits)
  then have y: "tx_pages L (95 * n + pages_to_delete (ot b)) s" by (intro tx_pages_mono[OF h(2)]) simp
  have f: "10 \<le> f + 10" by simp
  obtain s' r' t' P' L' where p: "Bucket_Delete w bcmp b k s = Inr (k \<in> fst ` set (contents (ot b)), s')" "bucket_root b s' = Inr r'"
    "bucket_tree s' (f + 10) t' r' P'" "P' \<subseteq> L'" "tx_pages L' (95 * n) s'" "contents t' = filter (\<lambda>e. fst e \<noteq> k) (contents (ot b))" "pg_size s' = pg_size s"
    "aside (P b) L b s P' L' s'"
    by (rule Bucket_Delete_result[OF t y b(2) f pl])
  have "map_of (contents t') = (map_of (contents (ot b)))(k := None)" unfolding p(6) by (rule map_of_delete)
  then have "joint_map B (ot(b := t')) = m(x := None)" unfolding joint_map_upd[OF b(1)] h(4)[symmetric] using mk x by (auto simp: fun_eq_iff)
  moreover have "(k \<in> fst ` set (contents (ot b))) = (m x \<noteq> None)" unfolding x mk by (simp add: map_of_eq_None_iff)
  ultimately show ?thesis using buckets_step[OF h(1) b(1) p(2-4,8)] p(1,5,7) h(3) x unfolding buckets_hold_def joint_delete_def by (intro exI[of _ s'] conjI exI) auto
qed

lemma buckets_hold_read:
  assumes "buckets_hold f ps B n s m" "joint_legal B x"
  shows "joint_shows x s (m x)"
proof -
  obtain root ot P L where h: "buckets_on f B s L root ot P" "m = joint_map B ot" using assms(1) by (auto simp: buckets_hold_def)
  have "fst x \<in> B" "short_key (snd x)" using assms(2) by (simp_all add: joint_legal_def)
  then show ?thesis using Bucket_Get_tree[of "fst x" s "root (fst x)" f "ot (fst x)" "P (fst x)" "snd x"] h unfolding buckets_on_def by (simp add: get_shows_def joint_map_def)
qed

abbreviation not_longer :: "byte list \<times> bool \<Rightarrow> byte list \<times> bool \<Rightarrow> bool" where
  "not_longer v v0 \<equiv> length (fst v) \<le> length (fst v0)"

interpretation joint_store: updating_store "buckets_hold (f + 10) ps B" "joint_fine (f + 10) ps B" "joint_legal B" "joint_put w" joint_shows
  "joint_delete w" "\<lambda>v. \<not> snd v" joint_fits not_longer for f ps B w
proof
  fix n and s :: "('a, 'b) txn_db_scheme" and m x v v0
  show "buckets_hold (f + 10) ps B (Suc n) s m \<Longrightarrow> joint_fine (f + 10) ps B (x, v) \<Longrightarrow> (\<And>v0. m x = Some v0 \<Longrightarrow> (\<not> snd v0) = (\<not> snd v)) \<Longrightarrow>
      \<exists>s'. joint_put w (x, v) s = Inr s' \<and> buckets_hold (f + 10) ps B n s' (taken_op joint_fits (Store x v) s m)"
    by (rule buckets_hold_put) auto
  show "buckets_hold (f + 10) ps B n s m \<Longrightarrow> joint_fine (f + 10) ps B (x, v) \<Longrightarrow> m x = Some v0 \<Longrightarrow> (\<not> snd v0) = (\<not> snd v) \<Longrightarrow> not_longer v v0 \<Longrightarrow> joint_fits x v s"
    by (rule buckets_hold_fits[of "f + 10" ps B n s m x v v0]) auto
  show "buckets_hold (f + 10) ps B n s m \<Longrightarrow> joint_legal B x \<Longrightarrow> joint_shows x s (m x)" by (rule buckets_hold_read)
  show "buckets_hold (f + 10) ps B (Suc n) s m \<Longrightarrow> joint_legal B x \<Longrightarrow> (\<And>v. m x = Some v \<Longrightarrow> \<not> snd v) \<Longrightarrow>
      \<exists>s'. joint_delete w x s = Inr (m x \<noteq> None, s') \<and> buckets_hold (f + 10) ps B n s' (m(x := None))"
    by (rule buckets_hold_delete)
qed

text \<open>The sample with its sub-bucket open: the user bucket is page 3, the sub-bucket page 4.\<close>

definition sample_open :: "byte list list txn_db" where
  "sample_open = sample_nest\<lparr>user_sub_map := Some [([98], (0, 4))],
     sub_bucket_cache := [Some \<lparr>bk_root = Sub_root kUserRootBucketId [98], bk_writable = True, bk_sub_map = None\<rparr>]\<rparr>"

abbreviation sample_trees :: "BucketId \<Rightarrow> bt option" where
  "sample_trees b \<equiv> Some (if b = 0 then BLeaf [([5], [15], False), ([9], [19], False)] else sample_nest_bt)"

lemma sample_open_on:
  "buckets_on 10 {kUserRootBucketId, 0} sample_open {0, 1, 3, 4, 8, 11} (\<lambda>b. if b = 0 then 4 else 3) sample_trees (\<lambda>b. if b = 0 then {4} else {3})"
  "tx_pages {0, 1, 3, 4, 8, 11} 200 sample_open" "pg_size sample_open = 256"
proof -
  note e = sample_nest_eval
  have same: "same_tx sample_nest sample_open"
  proof -
    obtain s1 where s1: "set_sub_map kUserRootBucketId [([98], (0, 4))] sample_nest = Inr s1" "s1 = sample_nest\<lparr>user_sub_map := Some [([98], (0, 4))]\<rparr>"
      by (simp add: set_sub_map_def)
    have l: "limit sample_open = limit s1" by (rule limit_cong) (simp_all add: sample_open_def s1(2))
    then have "stock sample_open = stock s1" by (rule stock_cong[rotated]) (simp_all add: sample_open_def s1(2))
    with l have "tx_pages L n sample_open = tx_pages L n s1" for L n
      by (simp add: s1(2) sample_open_def tx_pages_def page_inv_def map_inv_def pending_pairs_def tx_open_def)
    then have "same_tx s1 sample_open"
      by (simp add: same_tx_def) (simp add: s1(2) sample_open_def same_pages_def update_tx_def CopyNeeded_def IsTxExpired_def)
    with set_sub_map_tx[OF s1(1)] show ?thesis by (simp add: same_tx_def same_pages_def)
  qed
  have d: "kUserRootBucketId \<noteq> 0" by (simp add: kUserRootBucketId_def)
  have small: "bucket_tree sample_nest 10 (sample_trees b) (if b = 0 then 4 else 3) (if b = 0 then {4} else {3})" for b
  proof -
    have "sub sample_nest 10 0 (BLeaf [([5], [15], False), ([9], [19], False)]) 4 {4}"
      by (rule sub_leaf[OF sample_nest_pages(1)]) (simp_all add: e small_entry_def entry_cost_def key_bound_def short_key_def)
    moreover have "sub sample_nest 10 0 sample_nest_bt 3 {3}"
    proof -
      have "leaf_page sample_nest 3 (last_modified_txid (nodes sample_nest 3)) [([98], [4, 0, 0, 0], True)]"
        using sample_nest_pages(2) by (simp add: bucket_tree_def sub_def owns_leaf leaf_page_def)
      then show ?thesis by (rule sub_leaf) (simp_all add: e small_entry_def entry_cost_def key_bound_def short_key_def)
    qed
    ultimately show ?thesis using e(4) by (simp add: bucket_tree_def)
  qed
  have r: "bucket_root kUserRootBucketId sample_open = Inr 3" "bucket_root 0 sample_open = Inr 4" "root_place kUserRootBucketId sample_open \<noteq> root_place 0 sample_open"
    using d by (simp_all add: bucket_root_def root_place_def update_tx_def map_entry_def sub_map_def AtSubBucket_def sample_open_def)
      (simp add: sample_nest_def sample_wide_def sample_update_def)
  show "buckets_on 10 {kUserRootBucketId, 0} sample_open {0, 1, 3, 4, 8, 11} (\<lambda>b. if b = 0 then 4 else 3) sample_trees (\<lambda>b. if b = 0 then {4} else {3})"
    unfolding buckets_on_def using small[of 0] small[of kUserRootBucketId] r d same_tx_tree[OF same] by auto
  have "tx_pages sample_live 200 sample_nest"
  proof -
    have l: "limit sample_nest = limit sample_txn" by (simp add: limit_def sample_nest_def sample_wide_def sample_update_def sample_meta_def)
    then have "stock sample_nest = stock sample_txn" by (rule stock_cong[rotated]) (simp_all add: sample_nest_def)
    then show ?thesis using sample_wide_pages[of "txn_db.fields None []"] l
      by (simp add: sample_nest_def tx_pages_def page_inv_def map_inv_def pending_pairs_def tx_open_def)
  qed
  then show "tx_pages {0, 1, 3, 4, 8, 11} 200 sample_open" using same by (simp add: same_tx_def)
  show "pg_size sample_open = 256" by (simp add: sample_open_def e)
qed


section \<open>Properties\<close>

text \<open>
  C4: The open buckets together are one map from bucket and key to entry, up to the updates that the code drops. In an update transaction
  whose user bucket and open sub-buckets have trees that share no page, any sequence of puts and deletions on any of them, in any order, runs to its end; the
  deletions answer whether their key was there in their bucket; and afterwards \<^verbatim>\<open>Get\<close> shows in each bucket what its own operations
  have left: no write to a bucket changes another one. A put over a key that is there is a write exactly when \<^verbatim>\<open>LeafNode::Update\<close> finds
  room in its leaf at that moment (\<open>joint_fits\<close>); otherwise the call returns in the same way and the old value stays. When no value is put over a shorter one,
  every put is a write, and the result is that of the same operations on a map. The entries are small (two fit in a page, ten of their keys do) and not empty, a put over an entry keeps it a plain
  value or a sub-bucket, what is deleted is a plain value, and for each operation 95 pages are free or the file can grow by them below 4 GiB.
\<close>

theorem buckets_refine_maps:
  fixes s :: "('w, 'a) txn_db_scheme"
  assumes "buckets_on f B s L root ot P" "tx_pages L (95 * length ops) s" "10 \<le> f"
    "ops_fit (joint_fine f (pg_size s) B) (joint_legal B) (\<lambda>v. \<not> snd v) ops (joint_map B ot)"
  shows "\<exists>s' m. m = taken_run (store_step (joint_put w) (joint_delete w)) (taken_op joint_fits) ops s (joint_map B ot) \<and>
    run_res (store_step (joint_put w) (joint_delete w)) ops s = Inr (fst (map_run ops (joint_map B ot)), s') \<and>
    (\<forall>b \<in> B. \<forall>k. short_key k \<longrightarrow> get_shows b k s' (m (b, k))) \<and>
    (never_grows not_longer ops (joint_map B ot) \<longrightarrow> m = snd (map_run ops (joint_map B ot)))"
proof -
  obtain g where f: "f = g + 10" using assms(3) by (metis add.commute le_iff_add)
  have h: "buckets_hold (g + 10) (pg_size s) B (0 + length ops) s (joint_map B ot)" using assms(1,2) f by (auto simp: buckets_hold_def)
  have o: "ops_fit (joint_fine (g + 10) (pg_size s) B) (joint_legal B) (\<lambda>v. \<not> snd v) ops (joint_map B ot)" using assms(4) f by simp
  obtain s' where "run_res (store_step (joint_put w) (joint_delete w)) ops s = Inr (fst (map_run ops (joint_map B ot)), s')"
    "\<forall>x. joint_legal B x \<longrightarrow> joint_shows x s' (taken_run (store_step (joint_put w) (joint_delete w)) (taken_op joint_fits) ops s (joint_map B ot) x)"
    using joint_store.taken_reads[OF h o, of w] by blast
  then show ?thesis using joint_store.taken_all[OF h o, of w] by (simp add: joint_legal_def)
qed

text \<open>
  A key of the sub-bucket goes into the user bucket, which leaves that of the sub-bucket, and an entry of the sub-bucket is overwritten. On a full
  leaf an update is lost.
\<close>

theorem buckets_refine_maps_witness:
  "(\<exists>s'. run_res (store_step (joint_put sample_writer) (joint_delete sample_writer))
        [Store (kUserRootBucketId, [9]) ([1], False), Store (0, [5]) ([16], False)] sample_open = Inr ([True, True], s') \<and>
      get_shows kUserRootBucketId [9] s' (Some ([1], False)) \<and> get_shows 0 [9] s' (Some ([19], False)) \<and> get_shows 0 [5] s' (Some ([16], False))) \<and>
   (\<exists>s'. run_res (store_step (joint_put sample_writer) (joint_delete sample_writer)) [Store (kUserRootBucketId, [2]) (replicate 110 7, False)] sample_full =
      Inr ([True], s') \<and> get_shows kUserRootBucketId [2] s' (Some ([0], False)))"
  (is "?one \<and> ?two")
proof
  let ?ops = "[Store (kUserRootBucketId, [9]) ([1], False), Store (0, [5]) ([16], False)] :: (BucketId \<times> key, byte list \<times> bool) store_op list"
  let ?B = "{kUserRootBucketId, 0}"
  let ?m = "joint_map ?B sample_trees"
  note o = sample_open_on
  have d: "kUserRootBucketId \<noteq> 0" by (simp add: kUserRootBucketId_def)
  have e: "?m (kUserRootBucketId, [9]) = None" "?m (0, [9]) = Some ([19], False)" "?m (0, [5]) = Some ([15], False)"
    using d by (simp_all add: joint_map_def contents_def)
  have k: "short_key [9]" "short_key [5]" by (simp_all add: short_key_def)
  have c: "ops_fit (joint_fine 10 (pg_size sample_open) ?B) (joint_legal ?B) (\<lambda>v. \<not> snd v) ?ops ?m"
    using e k d o(3) by (simp add: joint_fine_def joint_legal_def small_entry_def entry_cost_def key_bound_def)
  have nl: "never_grows not_longer ?ops ?m" using e d by simp
  have x: "tx_pages {0, 1, 3, 4, 8, 11} (95 * length ?ops) sample_open" by (rule tx_pages_mono[OF o(2)]) simp
  have m: "fst (map_run ?ops ?m) = [True, True]" "snd (map_run ?ops ?m) (kUserRootBucketId, [9]) = Some ([1], False)"
    "snd (map_run ?ops ?m) (0, [9]) = Some ([19], False)" "snd (map_run ?ops ?m) (0, [5]) = Some ([16], False)"
    using e d by (simp_all add: ex_bool_eq)
  obtain s' mm where p: "run_res (store_step (joint_put sample_writer) (joint_delete sample_writer)) ?ops sample_open = Inr (fst (map_run ?ops ?m), s')"
    and q: "\<forall>b \<in> ?B. \<forall>k. short_key k \<longrightarrow> get_shows b k s' (mm (b, k))" "never_grows not_longer ?ops ?m \<longrightarrow> mm = snd (map_run ?ops ?m)"
    using buckets_refine_maps[OF o(1) x order_refl c, of sample_writer] by (elim exE conjE)
  have g: "\<forall>b \<in> ?B. \<forall>k. short_key k \<longrightarrow> get_shows b k s' (snd (map_run ?ops ?m) (b, k))" using q(1) unfolding q(2)[rule_format, OF nl] .
  have "get_shows kUserRootBucketId [9] s' (Some ([1], False))" "get_shows 0 [9] s' (Some ([19], False))" "get_shows 0 [5] s' (Some ([16], False))"
    using g k m by (metis insert_iff)+
  then show ?one using p unfolding m(1) by blast
  let ?up = "[Store (kUserRootBucketId, [2]) (replicate 110 7, False)] :: (BucketId \<times> key, byte list \<times> bool) store_op list"
  let ?n = "joint_map {kUserRootBucketId} (\<lambda>_. Some sample_full_bt)"
  have b: "buckets_on 10 {kUserRootBucketId} sample_full sample_live (\<lambda>_. 3) (\<lambda>_. Some sample_full_bt) (\<lambda>_. {3})"
    using sample_full_tree(1,2) by (simp add: buckets_on_def)
  have y: "tx_pages sample_live (95 * length ?up) sample_full" by (rule tx_pages_mono[OF sample_full_tree(4)]) simp
  have nv: "?n (kUserRootBucketId, [2]) = Some ([0], False)" by (simp add: joint_map_def contents_def)
  have u: "ops_fit (joint_fine 10 (pg_size sample_full) {kUserRootBucketId}) (joint_legal {kUserRootBucketId}) (\<lambda>v. \<not> snd v) ?up ?n"
    using nv sample_full_tree(3) by (simp add: joint_fine_def small_entry_def entry_cost_def key_bound_def short_key_def)
  have t: "taken_op joint_fits (Store (kUserRootBucketId, [2]) (replicate 110 7, False)) sample_full ?n = ?n"
    using sample_full_no_room nv by (simp add: joint_fits_def)
  let ?last = "taken_run (store_step (joint_put sample_writer) (joint_delete sample_writer)) (taken_op joint_fits) ?up sample_full ?n"
  obtain s2 mm where s2: "mm = ?last" "run_res (store_step (joint_put sample_writer) (joint_delete sample_writer)) ?up sample_full = Inr (fst (map_run ?up ?n), s2)"
    "\<forall>b \<in> {kUserRootBucketId}. \<forall>k. short_key k \<longrightarrow> get_shows b k s2 (mm (b, k))"
    using buckets_refine_maps[OF b y order_refl u, of sample_writer] by (elim exE conjE)
  have "?last = ?n"
    using s2(2) t by (auto simp: bind_res_Inr_iff split: sum.splits prod.splits simp del: taken_op.simps)
  then have mm: "mm (kUserRootBucketId, [2]) = Some ([0], False)" using s2(1) nv by simp
  have k: "short_key [2]" by (simp add: short_key_def)
  have "get_shows kUserRootBucketId [2] s2 (Some ([0], False))" using s2(3)[rule_format, OF singletonI k] unfolding mm .
  then show ?two using s2(2) by auto
qed

end
