(* ===== verification/Spec2Isabelle.thy ===== *)
theory Spec2Isabelle
  imports Atomkv_Comparator Atomkv_Stack Atomkv_Formats Atomkv_Pager_Props Atomkv_Page Atomkv_Meta
    Atomkv_Node_Spec Atomkv_Isolation Atomkv_Tree_Spec Atomkv_New_DB Atomkv_Snapshots Atomkv_WAL_Spec Atomkv_Many_Buckets
begin

text \<open>
  A verification of atomkv, an embedded key-value store in C++: one file of pages, mapped into
  memory, that holds copy-on-write B+ trees; one writer and many readers at a time.

  \<^bold>\<open>The program.\<close> A database file is an array of pages. Pages 0 and 1 hold two meta slots
  (\<^verbatim>\<open>src/meta.cpp\<close>); a commit writes the slot that is not current. The pager (\<^verbatim>\<open>src/pager.cpp\<close>)
  allocates runs of pages from an ordered map of free runs or at the end of the file, and keeps freed
  runs in a map of pending runs per transaction until no reader can see them. A node
  (\<^verbatim>\<open>src/node.cpp\<close>) is a slotted page: slots grow upwards, records grow downwards, a record that is
  too long goes to overflow pages. The iterator (\<^verbatim>\<open>src/btree_iterator.cpp\<close>) keeps the path from the
  root in a bounded stack (\<^verbatim>\<open>include/atomkv/stack.h\<close>), searches, moves, and copies the pages of its
  path before a write. The tree (\<^verbatim>\<open>src/btree.cpp\<close>) inserts with splits and deletes with borrowing and
  merging. A bucket (\<^verbatim>\<open>src/bucket_impl.cpp\<close>) is a tree with a name, and buckets nest. The transaction
  manager (\<^verbatim>\<open>src/tx_manager.cpp\<close>) numbers versions, counts the readers of each, and decides
  what may be released; \<^verbatim>\<open>src/tx_impl.cpp\<close> holds one transaction and its open buckets. The logger
  (\<^verbatim>\<open>src/logger.cpp\<close>) appends to a write-ahead log and replays it; \<^verbatim>\<open>src/db_impl.cpp\<close> opens, maps and
  closes the files.

  \<^bold>\<open>State.\<close> The state is one extensible record that grows with the components: \<open>pager_db\<close> (pages, free
  and pending runs, the meta struct of the open update transaction), \<open>meta_db\<close> (the current slot),
  \<open>tx_db\<close> (readers, lock, log writer) and \<open>txn_db\<close> (open buckets). Every operation takes the state and
  returns \<open>error + result\<close>: an exception, a failed assertion, undefined behaviour, a
  call that waits for a lock or a loop that does not end are values of the type \<open>error\<close>; after an
  error the state is not looked at again. Integers keep their width: transaction ids are
  64-bit words, the 14, 15, 16 and 32-bit fields are natural numbers with the reduction written out.
  The bytes of the file are the field \<open>mem\<close>; tree pages are decoded (field \<open>nodes\<close>), with the
  records of a node again as bytes.

  \<^bold>\<open>Theories: the program.\<close>
  \<^item> \<^verbatim>\<open>Atomkv_Prelude\<close>: results, widths, byte lists, byte memory, ordered association lists.
  \<^item> \<^verbatim>\<open>Atomkv_Comparator\<close>, \<^verbatim>\<open>Atomkv_Stack\<close>, \<^verbatim>\<open>Atomkv_Formats\<close>: the headers of the same
    names. The binary search is verified once, in a locale over what a comparator promises. The stack
    refines a list up to its capacity.
  \<^item> \<^verbatim>\<open>Atomkv_Pager\<close>, \<^verbatim>\<open>Atomkv_Page\<close>, \<^verbatim>\<open>Atomkv_Meta\<close>, \<^verbatim>\<open>Atomkv_Node\<close>, \<^verbatim>\<open>Atomkv_Tx\<close>,
    \<^verbatim>\<open>Atomkv_Iterator\<close>, \<^verbatim>\<open>Atomkv_BTree\<close>, \<^verbatim>\<open>Atomkv_Bucket\<close>, \<^verbatim>\<open>Atomkv_DB\<close>: the operations of the source
    files of these names, in the order of the code.
  \<^item> \<^verbatim>\<open>Atomkv_Handles\<close>: the objects that a program holds, \<^verbatim>\<open>UpdateTx\<close>, \<^verbatim>\<open>ViewTx\<close>, \<^verbatim>\<open>UpdateBucket\<close>,
    \<^verbatim>\<open>ViewBucket\<close> and \<^verbatim>\<open>BucketIterator\<close>, with the checks of use after the end and the destructors.

  \<^bold>\<open>Theories: what is shown.\<close>
  \<^item> \<^verbatim>\<open>Atomkv_Pager_Props\<close>: free, pending and owned pages are a partition; no
    allocation hits a page that was owned when the transaction began; rollback restores; release frees
    exactly the runs of old transactions; the free list round trip; growth and wrap-around, with the cases in which
    \<^verbatim>\<open>Rollback\<close> is undefined and in which the mapping does not grow.
    \<^verbatim>\<open>Atomkv_Page\<close>: which page a handle is on. \<^verbatim>\<open>Atomkv_Meta\<close>: a torn write of a meta slot leaves the
    previous or the new commit; what \<^verbatim>\<open>Load\<close> does with any file, also one too short for both slots.
  \<^item> \<^verbatim>\<open>Atomkv_Node_Props\<close>, \<^verbatim>\<open>Atomkv_Node_Spec\<close>: a node as the list of its
    entries; insert, update, delete and compaction against that list, overflow records.
  \<^item> \<^verbatim>\<open>Atomkv_Tx_Props\<close>, \<^verbatim>\<open>Atomkv_Isolation\<close>: the bookkeeping of pages as a step relation over
    the operations of pager and transaction manager, under the discipline that a transaction writes its own pages only; what
    commit and rollback leave, and the rule that tells which pages are copied.
  \<^item> \<^verbatim>\<open>Atomkv_Tree\<close>, \<^verbatim>\<open>Atomkv_Tree_Spec\<close>: the tree of pages represents an ordered tree of entries;
    lookup, complete iteration, what \<^verbatim>\<open>LowerBound\<close> and \<^verbatim>\<open>--end()\<close> really return.
  \<^item> \<^verbatim>\<open>Atomkv_Tree_Copy\<close>, \<^verbatim>\<open>Atomkv_Leaf_View\<close>, \<^verbatim>\<open>Atomkv_Split\<close>, \<^verbatim>\<open>Atomkv_Forest\<close>,
    \<^verbatim>\<open>Atomkv_Tree_Insert\<close>, \<^verbatim>\<open>Atomkv_Put_Spec\<close>: \<^verbatim>\<open>Put\<close>, from the copy of the path over the split of one
    page to the splits of a whole path and a new root.
  \<^item> \<^verbatim>\<open>Atomkv_Rebalance\<close>, \<^verbatim>\<open>Atomkv_Siblings\<close>, \<^verbatim>\<open>Atomkv_Tree_Delete\<close>, \<^verbatim>\<open>Atomkv_Delete_Spec\<close>: \<^verbatim>\<open>Delete\<close>,
    from borrowing and merging of two pages to a whole path and the collapse of the root.
  \<^item> \<^verbatim>\<open>Atomkv_Bucket_Spec\<close>, \<^verbatim>\<open>Atomkv_Store_Spec\<close>, \<^verbatim>\<open>Atomkv_Full_Put\<close>, \<^verbatim>\<open>Atomkv_Many_Buckets\<close>: locales of what a store
    promises, interpreted on one bucket and on all open buckets of a transaction: they refine finite maps, and no write
    to a bucket changes another. \<^verbatim>\<open>BTree::Put\<close> ignores the answer of \<^verbatim>\<open>LeafNode::Update\<close>, so a longer value that has no
    room in its leaf is lost: \<open>update_fits\<close> is that answer, \<open>update_lost\<close> the loss, and the maps change exactly when it is true. \<^verbatim>\<open>Atomkv_SubBucket_Spec\<close>: the loop that removes a sub-bucket.
  \<^item> \<^verbatim>\<open>Atomkv_Commit_Spec\<close>: when the list of free pages can be written and the commit goes through.
  \<^item> \<^verbatim>\<open>Atomkv_API\<close>, \<^verbatim>\<open>Atomkv_Programs\<close>, \<^verbatim>\<open>Atomkv_New_DB\<close>: programs over the whole database as a step
    relation with the maps they should see. The invariant ties trees, pager, readers and transaction manager
    together and holds from \<^verbatim>\<open>Open\<close> of an empty file on. The programs write the user bucket in the mode \<^verbatim>\<open>kUpdateInPlace\<close>, over any key
    that is no sub-bucket, with the small entries and the free pages of the bounds below.
  \<^item> \<^verbatim>\<open>Atomkv_Snapshots\<close>: the same programs seen from the pages that a walk from a root reaches: those of an open reader
    do not change, none is used twice or free, and a commit drops the list of free pages.
  \<^item> \<^verbatim>\<open>Atomkv_WAL_Spec\<close>: the copy rule of the mode \<^verbatim>\<open>kWal\<close> and what it breaks.

  \<^bold>\<open>Bounds.\<close> The path stack has 32 places as in the code. The theorems about lookup and iteration assume a height below 32; for the
  trees of a transaction it is proved from their size: a branch has at least two children and there are fewer than
  \<open>2 ^ 32\<close> pages. An operation takes at most 65 pages (\<^verbatim>\<open>Put\<close>) or 95 pages (\<^verbatim>\<open>Delete\<close>), two or three for each level;
  they are free, or the file can grow by them below 4 GiB. Entries are small compared with a page: two of them fit, and
  four keys for \<^verbatim>\<open>Put\<close>, ten keys for \<^verbatim>\<open>Delete\<close>, whose borrowing and merging would otherwise lack space.
  Loops that move along the path terminate by the depth of the stack. \<open>DeleteSubBucket\<close> takes
  fuel, and running out of it is the error \<open>Diverges\<close>; for a sub-bucket of one page the number of its entries and two is
  enough. The scan that iterates from \<^verbatim>\<open>begin()\<close> takes fuel, and the theorem shows that the number of
  entries and one is enough. Tree pages are addressed by their id; this is what the code does as long as the page starts below
  4 GiB, and \<open>node_handle_page\<close> says what happens above.

  \<^bold>\<open>Parameters.\<close> The checksum and the writes to the file (\<^verbatim>\<open>wal_lib\<close>), the log writer
  (\<^verbatim>\<open>wal_writer\<close>) and the records the log reader returns are arguments: they belong to the \<^verbatim>\<open>wal\<close>
  submodule. System page size and file sizes are arguments of \<open>Open\<close>.

  \<^bold>\<open>Not modelled.\<close> The shared-memory file is opened and not used; \<^verbatim>\<open>mio\<close> and the memory pool are libraries;
  threads are interleaved at the granularity of the operations of the transaction manager. The code of \<^verbatim>\<open>Print\<close> is
  commented out. The inline buckets of \<^verbatim>\<open>BucketIterator\<close> are only names. \<^verbatim>\<open>SubViewBucket\<close> of a name that is not in the bucket
  writes through a read transaction and is not followed. Benchmarks and tests are programs around the library.

  \<^bold>\<open>What is left.\<close> The theorems about whole trees exclude overflow records, which are verified for one node. Commit
  writes the roots of nested buckets into their parents, and the log is replayed after a crash: both are modelled, and the statements that
  join them with the trees are left. Nothing says that \<^verbatim>\<open>Update\<close> and \<^verbatim>\<open>RollBack\<close> return: they free pages, which is undefined when
  the run ends at the first free one (\<open>free_to_map_outcome\<close>).
\<close>

end
